(* ===== verification/Prelude.thy ===== *)
theory Prelude
  imports Main "HOL-Library.Word" "HOL-Library.Monad_Syntax"
begin

text \<open>
  Conventions shared by every component of the development.

  The kernel is C for a 32-bit x86.  A \<^verbatim>\<open>uint32_t\<close>, an address or a flag word is a
  \<open>u32\<close>, so sums and products wrap as they do in C.  A C \<^verbatim>\<open>int\<close> is a HOL \<open>int\<close> (or a
  \<open>nat\<close> where the code only ever produces non-negative values); a conversion from an
  \<^verbatim>\<open>int\<close> to an unsigned operand is written \<open>word_of_int\<close> at the place where C performs it.

  A computation that can leave the modelled memory has an \<open>option\<close> type: \<open>None\<close> is a read or
  write outside an array, a null pointer dereference or a use of an uninitialised pointer, that
  is behaviour which the C standard leaves undefined.  Error results that the code itself
  produces (a null pointer, \<^verbatim>\<open>-1\<close>, \<^verbatim>\<open>false\<close>) are ordinary values of the result.
\<close>

unbundle bit_operations_syntax

type_synonym u8 = "8 word"
type_synonym u16 = "16 word"
type_synonym u32 = "32 word"
type_synonym u64 = "64 word"

named_theorems c_simps \<open>array accesses, guards and store updates\<close>

section \<open>Guards and arrays with bounds\<close>

definition guard :: "bool \<Rightarrow> unit option" where
  "guard b = (if b then Some () else None)"

definition aget :: "'a list \<Rightarrow> nat \<Rightarrow> 'a option" where
  "aget xs i = (if i < length xs then Some (xs ! i) else None)"

definition aset :: "'a list \<Rightarrow> nat \<Rightarrow> 'a \<Rightarrow> 'a list option" where
  "aset xs i v = (if i < length xs then Some (xs[i := v]) else None)"

lemma guard_simps [simp]: "guard True = Some ()" "guard False = None"
  by (simp_all add: guard_def)

lemma guard_Some [c_simps]: "guard b = Some u \<longleftrightarrow> b"
  by (simp add: guard_def)

lemma aget_Some [c_simps]: "aget xs i = Some v \<longleftrightarrow> i < length xs \<and> v = xs ! i"
  by (auto simp: aget_def)

lemma aset_Some [c_simps]: "aset xs i v = Some ys \<longleftrightarrow> i < length xs \<and> ys = xs[i := v]"
  by (auto simp: aset_def)

lemma aget_in [simp]: "i < length xs \<Longrightarrow> aget xs i = Some (xs ! i)"
  by (simp add: aget_def)

lemma aget_out [simp]: "length xs \<le> i \<Longrightarrow> aget xs i = None"
  by (simp add: aget_def)

lemma aset_in [simp]: "i < length xs \<Longrightarrow> aset xs i v = Some (xs[i := v])"
  by (simp add: aset_def)

lemma aset_out [simp]: "length xs \<le> i \<Longrightarrow> aset xs i v = None"
  by (simp add: aset_def)

lemma bind_Some_iff [c_simps]: "Option.bind m f = Some y \<longleftrightarrow> (\<exists>x. m = Some x \<and> f x = Some y)"
  by (cases m) auto

section \<open>C division\<close>

text \<open>C rounds towards zero; HOL's \<open>div\<close> on \<open>int\<close> rounds towards minus infinity.\<close>

definition cdiv :: "int \<Rightarrow> int \<Rightarrow> int" where
  "cdiv a b = sgn a * sgn b * (\<bar>a\<bar> div \<bar>b\<bar>)"

definition cmod :: "int \<Rightarrow> int \<Rightarrow> int" where
  "cmod a b = a - b * cdiv a b"

lemma cdiv_nonneg [simp]: "0 \<le> a \<Longrightarrow> 0 < b \<Longrightarrow> cdiv a b = a div b"
  by (cases "a = 0") (simp_all add: cdiv_def)

lemma cmod_nonneg [simp]: "0 \<le> a \<Longrightarrow> 0 < b \<Longrightarrow> cmod a b = a mod b"
  by (simp add: cmod_def minus_div_mult_eq_mod [symmetric] mult.commute)

section \<open>Signed reading of small words\<close>

lemma unat_u32: "unat (w :: u32) < 2 ^ 32"
  using unsigned_less [of w] by simp

lemma small_sint: "unat (w :: u32) < 2 ^ 31 \<Longrightarrow> sint w = int (unat w)"
proof -
  assume "unat w < 2 ^ 31"
  then have "int (unat w) < int (2 ^ 31)" by (simp only: of_nat_less_iff)
  then have u: "uint w < 2 ^ 31" by simp
  have "signed_take_bit 31 (uint w) = uint w"
    by (rule signed_take_bit_int_eq_self) (use u uint_ge_0 [of w] in linarith)+
  then show ?thesis by (simp add: sint_uint)
qed

lemma sint_of_nat: "n < 2 ^ 31 \<Longrightarrow> sint (of_nat n :: u32) = int n"
  by (subst small_sint) (simp_all add: unat_of_nat)

lemma unat_of_int_of_nat: "n < 2 ^ 32 \<Longrightarrow> unat (word_of_int (int n) :: u32) = n"
  by (simp add: unat_of_nat)

lemma unat_ucast_u8: "unat (ucast (x :: u8) :: u32) = unat x"
proof -
  have "unat x < 2 ^ 8" using unsigned_less [of x] by simp
  then have "take_bit 32 (unat x) = unat x" by (intro take_bit_nat_eq_self) simp
  then show ?thesis by (simp add: unsigned_ucast_eq)
qed

section \<open>Flag words\<close>

text \<open>The truth value of a C flag test \<^verbatim>\<open>x & mask\<close>.\<close>

definition flag :: "'a::len word \<Rightarrow> 'a word \<Rightarrow> bool" where
  "flag x m \<longleftrightarrow> x AND m \<noteq> 0"

lemma flag_or: "flag (x OR y) m \<longleftrightarrow> flag x m \<or> flag y m"
  by (auto simp: flag_def bit_eq_iff bit_simps)

lemma flag_bit: "flag x (2 ^ n) \<longleftrightarrow> bit x n"
  by (simp add: flag_def and_exp_eq_0_iff_not_bit)

lemma and_exp_zero [c_simps]: "(x :: 'a::len word) AND 2 ^ n = 0 \<longleftrightarrow> \<not> bit x n"
  by (simp add: and_exp_eq_0_iff_not_bit)

section \<open>Fresh identifiers\<close>

text \<open>
  The loop that \<^verbatim>\<open>getFreeID\<close>, \<^verbatim>\<open>get_free_tid\<close>, \<^verbatim>\<open>winsys_get_free_id\<close> and
  \<^verbatim>\<open>append_fd_to_process\<close> share: walk the list, and whenever an element's identifier is at
  least the candidate, move the candidate one past it.
\<close>

fun fresh_id :: "('a \<Rightarrow> int) \<Rightarrow> int \<Rightarrow> 'a list \<Rightarrow> int" where
  "fresh_id key cand [] = cand"
| "fresh_id key cand (x # xs) =
     fresh_id key (if key x \<ge> cand then key x + 1 else cand) xs"

lemma fresh_id_ge: "cand \<le> fresh_id key cand xs"
proof (induction xs arbitrary: cand)
  case Nil
  then show ?case by simp
next
  case (Cons x xs)
  show ?case using Cons.IH [of "if key x \<ge> cand then key x + 1 else cand"]
    by (auto split: if_splits)
qed

lemma fresh_id_greater: "x \<in> set xs \<Longrightarrow> key x < fresh_id key cand xs"
proof (induction xs arbitrary: cand)
  case Nil
  then show ?case by simp
next
  case (Cons y ys)
  show ?case
  proof (cases "x = y")
    case True
    then show ?thesis
      using fresh_id_ge [of "if key y \<ge> cand then key y + 1 else cand" key ys]
      by (auto split: if_splits)
  next
    case False
    with Cons show ?thesis by simp
  qed
qed

lemma fresh_id_notin: "fresh_id key cand xs \<notin> key ` set xs"
  using fresh_id_greater [of _ xs key cand] by force

section \<open>List lemmas\<close>

lemma nth_update: "i < length xs \<Longrightarrow> xs[j := v] ! i = (if i = j then v else xs ! i)"
  by (simp add: nth_list_update)

text \<open>A loop that checks index \<open>j\<close> and goes on with \<open>Suc j\<close> has checked them all.\<close>

lemma all_from_step:
  assumes "P (j::nat)" and "\<forall>m. Suc j \<le> m \<and> m < n \<longrightarrow> P m"
  shows "\<forall>m. j \<le> m \<and> m < n \<longrightarrow> P m"
proof (intro allI impI)
  fix m
  assume "j \<le> m \<and> m < n"
  then show "P m" using assms by (cases "m = j") auto
qed

end
