(* ===== verification/Bitmap.thy ===== *)
theory Bitmap
  imports Prelude
begin

text \<open>
  The block bitmap that three allocators of the repository share line for line:
  \<^verbatim>\<open>kernel/pmm.c\<close> (4 KiB frames), \<^verbatim>\<open>kernel/heap.c\<close> and \<^verbatim>\<open>root/cstdlib/heap.c\<close>
  (8 byte blocks).  A bitmap is an array of dwords; bit \<open>k mod 32\<close> of dword \<open>k div 32\<close> says
  that block \<open>k\<close> is occupied.  This theory holds the bit operations, the two first-fit
  searches, the loops that occupy and release a run of blocks, and their specifications.
\<close>

type_synonym bitmap = "u32 list"

definition nbits :: "bitmap \<Rightarrow> nat" where
  "nbits bm = 32 * length bm"

definition occ :: "bitmap \<Rightarrow> nat \<Rightarrow> bool" where
  "occ bm k = bit (bm ! (k div 32)) (k mod 32)"

definition occ_set :: "bitmap \<Rightarrow> nat set" where
  "occ_set bm = {k. k < nbits bm \<and> occ bm k}"

section \<open>Bit operations\<close>

definition bm_set :: "bitmap \<Rightarrow> nat \<Rightarrow> bitmap option" where
  "bm_set bm b = do {
     w \<leftarrow> aget bm (b div 32);
     aset bm (b div 32) (w OR push_bit (b mod 32) 1) }"

definition bm_unset :: "bitmap \<Rightarrow> nat \<Rightarrow> bitmap option" where
  "bm_unset bm b = do {
     w \<leftarrow> aget bm (b div 32);
     aset bm (b div 32) (w AND NOT (push_bit (b mod 32) 1)) }"

definition bm_test :: "bitmap \<Rightarrow> nat \<Rightarrow> bool option" where
  "bm_test bm b = do {
     w \<leftarrow> aget bm (b div 32);
     Some (w AND push_bit (b mod 32) 1 \<noteq> 0) }"

lemma div32_less [simp]: "k div 32 < length bm \<longleftrightarrow> k < nbits bm"
  by (auto simp: nbits_def)

lemma same_block: "k div 32 = b div 32 \<Longrightarrow> k mod 32 = b mod 32 \<Longrightarrow> k = (b::nat)"
  by (metis div_mult_mod_eq)

lemma bit_set_word:
  "n < 32 \<Longrightarrow> bit ((w :: u32) OR push_bit n 1) m \<longleftrightarrow> bit w m \<or> m = n"
  by (auto simp: bit_simps)

lemma bit_unset_word:
  "n < 32 \<Longrightarrow> bit ((w :: u32) AND NOT (push_bit n 1)) m \<longleftrightarrow> bit w m \<and> m \<noteq> n"
  by (auto simp: bit_simps dest: bit_imp_le_length)

lemma bm_set_spec:
  "bm_set bm b = Some bm' \<Longrightarrow>
     b < nbits bm \<and> length bm' = length bm \<and> (\<forall>k < nbits bm. occ bm' k \<longleftrightarrow> occ bm k \<or> k = b)"
  by (auto simp: bm_set_def occ_def c_simps bit_set_word nth_update simp del: push_bit_of_1
      split: if_splits dest: same_block)

lemma bm_unset_spec:
  "bm_unset bm b = Some bm' \<Longrightarrow>
     b < nbits bm \<and> length bm' = length bm \<and> (\<forall>k < nbits bm. occ bm' k \<longleftrightarrow> occ bm k \<and> k \<noteq> b)"
  by (auto simp: bm_unset_def occ_def c_simps bit_unset_word nth_update simp del: push_bit_of_1
      split: if_splits dest: same_block)

lemma bm_set_Some: "b < nbits bm \<Longrightarrow> \<exists>bm'. bm_set bm b = Some bm'"
  by (simp add: bm_set_def aget_def aset_def)

lemma bm_unset_Some: "b < nbits bm \<Longrightarrow> \<exists>bm'. bm_unset bm b = Some bm'"
  by (simp add: bm_unset_def aget_def aset_def)

lemma bm_test_eq: "b < nbits bm \<Longrightarrow> bm_test bm b = Some (occ bm b)"
  by (simp add: bm_test_def occ_def aget_def c_simps)

section \<open>Occupying and releasing a run of blocks\<close>

text \<open>
  The loops \<^verbatim>\<open>for(; seq_len > 0; seq_len--) { mmap_set (frame++); used_blocks++; }\<close> and the
  one with \<^verbatim>\<open>mmap_unset\<close> and \<^verbatim>\<open>used_blocks--\<close>, over the bitmap and the counter.
\<close>

fun occupy_run :: "bitmap \<Rightarrow> u32 \<Rightarrow> nat \<Rightarrow> nat \<Rightarrow> (bitmap \<times> u32) option" where
  "occupy_run bm u k 0 = Some (bm, u)"
| "occupy_run bm u k (Suc n) = do { bm' \<leftarrow> bm_set bm k; occupy_run bm' (u + 1) (Suc k) n }"

fun release_run :: "bitmap \<Rightarrow> u32 \<Rightarrow> nat \<Rightarrow> nat \<Rightarrow> (bitmap \<times> u32) option" where
  "release_run bm u k 0 = Some (bm, u)"
| "release_run bm u k (Suc n) = do { bm' \<leftarrow> bm_unset bm k; release_run bm' (u - 1) (Suc k) n }"

lemma occupy_run_spec:
  "occupy_run bm u k n = Some (bm', u') \<Longrightarrow>
     length bm' = length bm \<and> u' = u + of_nat n \<and> (0 < n \<longrightarrow> k + n \<le> nbits bm) \<and>
     (\<forall>j < nbits bm. occ bm' j \<longleftrightarrow> occ bm j \<or> (k \<le> j \<and> j < k + n))"
proof (induction n arbitrary: bm u k)
  case 0
  then show ?case by auto
next
  case (Suc n)
  then obtain bm1 where s: "bm_set bm k = Some bm1"
    and r: "occupy_run bm1 (u + 1) (Suc k) n = Some (bm', u')"
    by (auto simp: c_simps)
  note 1 = bm_set_spec [OF s] and 2 = Suc.IH [OF r]
  from 1 have nb: "nbits bm1 = nbits bm" by (simp add: nbits_def)
  show ?case using 1 2 by (auto simp: nb)
qed

lemma release_run_spec:
  "release_run bm u k n = Some (bm', u') \<Longrightarrow>
     length bm' = length bm \<and> u' = u - of_nat n \<and> (0 < n \<longrightarrow> k + n \<le> nbits bm) \<and>
     (\<forall>j < nbits bm. occ bm' j \<longleftrightarrow> occ bm j \<and> \<not> (k \<le> j \<and> j < k + n))"
proof (induction n arbitrary: bm u k)
  case 0
  then show ?case by auto
next
  case (Suc n)
  then obtain bm1 where s: "bm_unset bm k = Some bm1"
    and r: "release_run bm1 (u - 1) (Suc k) n = Some (bm', u')"
    by (auto simp: c_simps)
  note 1 = bm_unset_spec [OF s] and 2 = Suc.IH [OF r]
  from 1 have nb: "nbits bm1 = nbits bm" by (simp add: nbits_def)
  show ?case using 1 2 by (auto simp: nb)
qed

lemma occupy_run_Some: "k + n \<le> nbits bm \<Longrightarrow> \<exists>r. occupy_run bm u k n = Some r"
proof (induction n arbitrary: bm u k)
  case 0
  then show ?case by simp
next
  case (Suc n)
  then obtain bm1 where s: "bm_set bm k = Some bm1" using bm_set_Some [of k bm] by auto
  then have "nbits bm1 = nbits bm" using bm_set_spec by (fastforce simp: nbits_def)
  with Suc s show ?case by simp
qed

lemma release_run_Some: "k + n \<le> nbits bm \<Longrightarrow> \<exists>r. release_run bm u k n = Some r"
proof (induction n arbitrary: bm u k)
  case 0
  then show ?case by simp
next
  case (Suc n)
  then obtain bm1 where s: "bm_unset bm k = Some bm1" using bm_unset_Some [of k bm] by auto
  then have "nbits bm1 = nbits bm" using bm_unset_spec by (fastforce simp: nbits_def)
  with Suc s show ?case by simp
qed

section \<open>First fit: one block\<close>

text \<open>The inner loop \<^verbatim>\<open>for (int j=0; j<32; j++)\<close> of \<^verbatim>\<open>mmap_first_free\<close>.\<close>

function scan_dword :: "u32 \<Rightarrow> nat \<Rightarrow> nat option" where
  "scan_dword w j =
     (if j < 32 then if w AND push_bit j 1 = 0 then Some j else scan_dword w (Suc j) else None)"
  by pat_completeness auto
termination by (relation "measure (\<lambda>(w, j). 32 - j)") auto

function first_free_loop :: "bitmap \<Rightarrow> nat \<Rightarrow> nat \<Rightarrow> int option" where
  "first_free_loop bm n i =
     (if i < n then do {
        w \<leftarrow> aget bm i;
        if w \<noteq> 0xffffffff then
          (case scan_dword w 0 of
             Some j \<Rightarrow> Some (int (i * 4 * 8 + j))
           | None \<Rightarrow> first_free_loop bm n (Suc i))
        else first_free_loop bm n (Suc i) }
      else Some (-1))"
  by pat_completeness auto
termination by (relation "measure (\<lambda>(bm, n, i). n - i)") auto

declare scan_dword.simps [simp del] first_free_loop.simps [simp del]

lemma scan_dword_steps:
  "\<not> j < 32 \<Longrightarrow> scan_dword w j = None"
  "j < 32 \<Longrightarrow> \<not> bit w j \<Longrightarrow> scan_dword w j = Some j"
  "j < 32 \<Longrightarrow> bit w j \<Longrightarrow> scan_dword w j = scan_dword w (Suc j)"
  by (subst scan_dword.simps, simp add: c_simps)+

lemma scan_dword_Some:
  "scan_dword w j = Some r \<Longrightarrow>
     j \<le> r \<and> r < 32 \<and> \<not> bit w r \<and> (\<forall>m. j \<le> m \<and> m < r \<longrightarrow> bit w m)"
proof (induction w j rule: scan_dword.induct)
  case (1 w j)
  show ?case
  proof (cases "j < 32 \<and> bit w j")
    case True
    then have nz: "w AND push_bit j 1 \<noteq> 0" by (simp add: c_simps)
    from True "1.prems" have "scan_dword w (Suc j) = Some r" by (metis scan_dword_steps(3))
    with True nz have ih: "Suc j \<le> r \<and> r < 32 \<and> \<not> bit w r \<and>
        (\<forall>m. Suc j \<le> m \<and> m < r \<longrightarrow> bit w m)"
      by (intro "1.IH") simp_all
    then have "\<forall>m. Suc j \<le> m \<and> m < r \<longrightarrow> bit w m" by blast
    with True have "\<forall>m. j \<le> m \<and> m < r \<longrightarrow> bit w m"
      by (metis all_from_step [where P = "bit w"])
    with ih show ?thesis by simp
  next
    case False
    with "1.prems" show ?thesis by (cases "j < 32") (auto simp: scan_dword_steps)
  qed
qed

lemma scan_dword_None: "scan_dword w j = None \<Longrightarrow> \<forall>m. j \<le> m \<and> m < 32 \<longrightarrow> bit w m"
proof (induction w j rule: scan_dword.induct)
  case (1 w j)
  show ?case
  proof (cases "j < 32")
    case True
    with "1.prems" have b: "bit w j" by (cases "bit w j") (auto simp: scan_dword_steps)
    then have nz: "w AND push_bit j 1 \<noteq> 0" by (simp add: c_simps)
    from True b "1.prems" have "scan_dword w (Suc j) = None" by (metis scan_dword_steps(3))
    with True nz have "\<forall>m. Suc j \<le> m \<and> m < 32 \<longrightarrow> bit w m"
      by (intro "1.IH") simp_all
    with b show ?thesis by (rule all_from_step)
  qed auto
qed

lemma full_dword: "(w :: u32) = 0xffffffff \<longleftrightarrow> (\<forall>m < 32. bit w m)"
proof
  assume "w = 0xffffffff"
  then have "w = - 1" by simp
  then show "\<forall>m < 32. bit w m" by simp
next
  assume "\<forall>m < 32. bit w m"
  then have "w = - 1" by (auto intro!: bit_word_eqI)
  then show "w = 0xffffffff" by simp
qed

lemma first_free_end: "\<not> i < n \<Longrightarrow> first_free_loop bm n i = Some (-1)"
  by (subst first_free_loop.simps) simp

lemma first_free_full:
  "i < n \<Longrightarrow> i < length bm \<Longrightarrow> \<forall>m < 32. bit (bm ! i) m \<Longrightarrow>
     first_free_loop bm n i = first_free_loop bm n (Suc i)"
  using full_dword [of "bm ! i"] by (subst first_free_loop.simps) simp

lemma first_free_hit:
  assumes "i < n" and "i < length bm" and "\<not> (\<forall>m < 32. bit (bm ! i) m)"
  obtains j where "j < 32" and "\<not> bit (bm ! i) j" and "\<forall>m < j. bit (bm ! i) m"
    and "first_free_loop bm n i = Some (int (32 * i + j))"
proof -
  from assms(3) scan_dword_None [of "bm ! i" 0] obtain j where j: "scan_dword (bm ! i) 0 = Some j"
    by fastforce
  moreover from assms(3) have "bm ! i \<noteq> 0xffffffff" by (simp only: full_dword simp_thms)
  ultimately have "first_free_loop bm n i = Some (int (32 * i + j))"
    using assms(1,2) by (subst first_free_loop.simps) simp
  with scan_dword_Some [OF j] show ?thesis by (intro that [of j]) simp_all
qed

text \<open>
  The search returns the least free block of the first \<open>32 * n\<close>, or \<open>-1\<close> when none is free.
\<close>

lemma occ_offset: "m < 32 \<Longrightarrow> occ bm (32 * i + m) = bit (bm ! i) m"
  by (simp add: occ_def)

lemma below_next_dword:
  "(\<forall>k < 32 * Suc i. P k) \<longleftrightarrow> (\<forall>k < 32 * i. P k) \<and> (\<forall>m < 32. P (32 * i + m))"
proof -
  have "k < 32 * i \<or> (\<exists>m < 32. k = 32 * i + m)" if "k < 32 * Suc i" for k
    using that by (cases "k < 32 * i") (auto intro: exI [of _ "k - 32 * i"])
  then show ?thesis by fastforce
qed

lemma first_free_loop_spec:
  assumes "n \<le> length bm" and "i \<le> n" and "\<forall>k < 32 * i. occ bm k"
  shows "(\<exists>k. first_free_loop bm n i = Some (int k) \<and> k < 32 * n \<and> \<not> occ bm k \<and>
            (\<forall>m < k. occ bm m))
         \<or> (first_free_loop bm n i = Some (-1) \<and> (\<forall>k < 32 * n. occ bm k))"
  using assms
proof (induction "n - i" arbitrary: i)
  case 0
  then show ?case by (simp add: first_free_end)
next
  case (Suc d)
  then have i: "i < n" "i < length bm" by auto
  show ?case
  proof (cases "\<forall>m < 32. bit (bm ! i) m")
    case True
    with Suc.prems(3) have "\<forall>k < 32 * Suc i. occ bm k"
      by (simp only: below_next_dword) (simp add: occ_offset)
    with Suc.hyps(1) [of "Suc i"] Suc.hyps(2) Suc.prems i first_free_full [OF i True]
    show ?thesis by simp
  next
    case False
    from first_free_hit [OF i this] obtain j where j: "j < 32" "\<not> bit (bm ! i) j"
      "\<forall>m < j. bit (bm ! i) m" "first_free_loop bm n i = Some (int (32 * i + j))" .
    have "occ bm m" if "m < 32 * i + j" for m
    proof (cases "m < 32 * i")
      case True
      with Suc.prems(3) show ?thesis by simp
    next
      case False
      with that have "m = 32 * i + (m - 32 * i)" and "m - 32 * i < j" by auto
      with j show ?thesis by (metis occ_offset order.strict_trans)
    qed
    moreover have "32 * i + j < 32 * n" using i j by simp
    ultimately show ?thesis using j
      by (intro disjI1 exI [of _ "32 * i + j"]) (simp add: occ_offset)
  qed
qed

section \<open>First fit: a run of blocks\<close>

text \<open>
  \<^verbatim>\<open>mmap_first_free_s\<close> keeps the length of the current run of free blocks and the index it
  started at.  The inner loop either returns that index (\<open>Inl\<close>) or hands both on (\<open>Inr\<close>).
\<close>

function scan_dword_s :: "u32 \<Rightarrow> nat \<Rightarrow> int \<Rightarrow> nat \<Rightarrow> int \<Rightarrow> int \<Rightarrow> int + int \<times> int" where
  "scan_dword_s w i seq j len first =
     (if j < 32 then
        (let (len', first') =
           (if w AND push_bit j 1 = 0
            then (len + 1, if len = 0 then int (i * 4 * 8 + j) else first)
            else (0, first))
         in if len' = seq then Inl first' else scan_dword_s w i seq (Suc j) len' first')
      else Inr (len, first))"
  by pat_completeness auto
termination by (relation "measure (\<lambda>(w, i, seq, j, len, first). 32 - j)") auto

function first_free_s_loop :: "bitmap \<Rightarrow> nat \<Rightarrow> int \<Rightarrow> nat \<Rightarrow> int \<Rightarrow> int \<Rightarrow> int option" where
  "first_free_s_loop bm n seq i len first =
     (if i < n then do {
        w \<leftarrow> aget bm i;
        if w \<noteq> 0xffffffff then
          (case scan_dword_s w i seq 0 len first of
             Inl r \<Rightarrow> Some r
           | Inr (len', first') \<Rightarrow> first_free_s_loop bm n seq (Suc i) len' first')
        else first_free_s_loop bm n seq (Suc i) 0 first }
      else Some (-1))"
  by pat_completeness auto
termination by (relation "measure (\<lambda>(bm, n, seq, i, len, first). n - i)") auto

declare scan_dword_s.simps [simp del] first_free_s_loop.simps [simp del]

lemma scan_s_end: "\<not> j < 32 \<Longrightarrow> scan_dword_s w i seq j len first = Inr (len, first)"
  by (subst scan_dword_s.simps) simp

lemma scan_s_free:
  "j < 32 \<Longrightarrow> \<not> bit w j \<Longrightarrow> scan_dword_s w i seq j len first =
     (let first' = (if len = 0 then int (32 * i + j) else first)
      in if len + 1 = seq then Inl first' else scan_dword_s w i seq (Suc j) (len + 1) first')"
  by (subst scan_dword_s.simps) (simp add: c_simps Let_def)

lemma scan_s_occ:
  "j < 32 \<Longrightarrow> bit w j \<Longrightarrow> 0 < seq \<Longrightarrow>
     scan_dword_s w i seq j len first = scan_dword_s w i seq (Suc j) 0 first"
  by (subst scan_dword_s.simps) (simp add: c_simps)

text \<open>
  What the search knows after looking at the first \<open>p\<close> blocks, for a wanted length \<open>n\<close>: the
  last \<open>l < n\<close> blocks are free, the block before them is not, and no run of \<open>n\<close> free blocks
  ends at or before \<open>p\<close>.
\<close>

definition run_inv :: "bitmap \<Rightarrow> nat \<Rightarrow> nat \<Rightarrow> nat \<Rightarrow> bool" where
  "run_inv bm n p l \<longleftrightarrow> l < n \<and> l \<le> p \<and> (\<forall>k. p - l \<le> k \<and> k < p \<longrightarrow> \<not> occ bm k) \<and>
     (l < p \<longrightarrow> occ bm (p - l - 1)) \<and>
     (\<forall>k. k + n \<le> p \<longrightarrow> (\<exists>m. k \<le> m \<and> m < k + n \<and> occ bm m))"

definition is_run :: "bitmap \<Rightarrow> nat \<Rightarrow> nat \<Rightarrow> bool" where
  "is_run bm n k \<longleftrightarrow> (\<forall>m. k \<le> m \<and> m < k + n \<longrightarrow> \<not> occ bm m)"

definition least_run :: "bitmap \<Rightarrow> nat \<Rightarrow> nat \<Rightarrow> bool" where
  "least_run bm n k \<longleftrightarrow> is_run bm n k \<and> (\<forall>k' < k. \<not> is_run bm n k')"

lemma run_inv_start: "0 < n \<Longrightarrow> run_inv bm n 0 0"
  by (simp add: run_inv_def)

lemma run_inv_occ:
  assumes inv: "run_inv bm n p l" and o: "occ bm p"
  shows "run_inv bm n (Suc p) 0"
proof -
  have "\<exists>m. k \<le> m \<and> m < k + n \<and> occ bm m" if k: "k + n \<le> Suc p" for k
  proof (cases "k + n \<le> p")
    case True
    with inv show ?thesis by (simp add: run_inv_def)
  next
    case False
    with k inv have "k \<le> p" and "p < k + n" by (auto simp: run_inv_def)
    with o show ?thesis by blast
  qed
  then show ?thesis using inv o by (simp add: run_inv_def)
qed

lemma run_inv_free:
  assumes inv: "run_inv bm n p l" and free: "\<not> occ bm p" and len: "Suc l < n"
  shows "run_inv bm n (Suc p) (Suc l)"
proof -
  have "\<exists>m. k \<le> m \<and> m < k + n \<and> occ bm m" if k: "k + n \<le> Suc p" for k
  proof (cases "k + n \<le> p")
    case True
    with inv show ?thesis by (simp add: run_inv_def)
  next
    case False
    with k len inv have "k \<le> p - l - 1" and "p - l - 1 < k + n" and "l < p"
      by (auto simp: run_inv_def)
    with inv show ?thesis by (auto simp: run_inv_def)
  qed
  moreover have "\<not> occ bm k" if "p - l \<le> k" "k < Suc p" for k
    using that inv free by (cases "k = p") (auto simp: run_inv_def)
  ultimately show ?thesis using inv len by (auto simp: run_inv_def)
qed

lemma run_inv_found:
  assumes inv: "run_inv bm n p l" and free: "\<not> occ bm p" and len: "Suc l = n"
  shows "least_run bm n (p - l)"
proof -
  have "is_run bm n (p - l)"
    unfolding is_run_def
  proof (intro allI impI)
    fix m
    assume "p - l \<le> m \<and> m < p - l + n"
    with inv free len show "\<not> occ bm m" by (cases "m = p") (auto simp: run_inv_def)
  qed
  moreover have "\<not> is_run bm n k" if "k < p - l" for k
  proof -
    from that len have "k + n \<le> p" by simp
    with inv have "\<exists>m. k \<le> m \<and> m < k + n \<and> occ bm m" by (simp add: run_inv_def)
    then show ?thesis by (auto simp: is_run_def)
  qed
  ultimately show ?thesis by (simp add: least_run_def)
qed

text \<open>The inner loop carries the invariant from block \<open>32 * i + j\<close> to the end of the dword.\<close>

lemma scan_s_spec:
  assumes "j \<le> 32" and "run_inv bm n (32 * i + j) l" and "0 < l \<longrightarrow> first = int (32 * i + j - l)"
  shows "(\<exists>k. scan_dword_s (bm ! i) i (int n) j (int l) first = Inl (int k) \<and> least_run bm n k \<and>
              k + n \<le> 32 * Suc i)
         \<or> (\<exists>l' first'. scan_dword_s (bm ! i) i (int n) j (int l) first = Inr (int l', first') \<and>
              run_inv bm n (32 * Suc i) l' \<and> (0 < l' \<longrightarrow> first' = int (32 * Suc i - l')))"
  using assms
proof (induction "32 - j" arbitrary: j l first)
  case 0
  then have "j = 32" by simp
  with 0 show ?case by (simp add: scan_s_end add.commute)
next
  case (Suc d)
  then have j: "j < 32" by simp
  have p: "Suc (32 * i + j) = 32 * i + Suc j" by simp
  show ?case
  proof (cases "bit (bm ! i) j")
    case True
    then have "occ bm (32 * i + j)" using j by (simp add: occ_offset)
    with Suc.prems(2) have inv: "run_inv bm n (32 * i + Suc j) 0"
      using run_inv_occ by fastforce
    then have "0 < int n" by (simp add: run_inv_def)
    with j True have "scan_dword_s (bm ! i) i (int n) j (int l) first =
        scan_dword_s (bm ! i) i (int n) (Suc j) (int 0) first" by (simp add: scan_s_occ)
    with Suc.hyps(1) [of "Suc j" 0 first] Suc.hyps(2) j inv show ?thesis by simp
  next
    case False
    then have free: "\<not> occ bm (32 * i + j)" using j by (simp add: occ_offset)
    define first' where "first' = (if l = 0 then int (32 * i + j) else first)"
    have first': "first' = int (32 * i + j - l)" using Suc.prems(3) by (simp add: first'_def)
    have l: "l \<le> 32 * i + j" "l < n" using Suc.prems(2) by (simp_all add: run_inv_def)
    have step: "scan_dword_s (bm ! i) i (int n) j (int l) first =
        (if Suc l = n then Inl first' else scan_dword_s (bm ! i) i (int n) (Suc j) (int (Suc l)) first')"
      using j False by (simp add: scan_s_free first'_def add.commute)
    show ?thesis
    proof (cases "Suc l = n")
      case True
      from run_inv_found [OF Suc.prems(2) free True]
      have "least_run bm n (32 * i + j - l)" .
      moreover have "32 * i + j - l + n \<le> 32 * Suc i" using True l j by simp
      ultimately show ?thesis using step True first' by auto
    next
      case False
      with l have "Suc l < n" by simp
      from run_inv_free [OF Suc.prems(2) free this]
      have inv: "run_inv bm n (32 * i + Suc j) (Suc l)" by simp
      have "first' = int (32 * i + Suc j - Suc l)" using first' by simp
      with Suc.hyps(1) [of "Suc j" "Suc l" first'] Suc.hyps(2) j inv step False
      show ?thesis by simp
    qed
  qed
qed

lemma first_free_s_end: "\<not> i < n \<Longrightarrow> first_free_s_loop bm n seq i len first = Some (-1)"
  by (subst first_free_s_loop.simps) simp

lemma first_free_s_full:
  "i < n \<Longrightarrow> i < length bm \<Longrightarrow> bm ! i = 0xffffffff \<Longrightarrow>
     first_free_s_loop bm n seq i len first = first_free_s_loop bm n seq (Suc i) 0 first"
  by (subst first_free_s_loop.simps) simp

lemma first_free_s_scan:
  "i < n \<Longrightarrow> i < length bm \<Longrightarrow> bm ! i \<noteq> 0xffffffff \<Longrightarrow>
     first_free_s_loop bm n seq i len first =
       (case scan_dword_s (bm ! i) i seq 0 len first of
          Inl r \<Rightarrow> Some r
        | Inr (len', first') \<Rightarrow> first_free_s_loop bm n seq (Suc i) len' first')"
  by (subst first_free_s_loop.simps) simp

lemma run_inv_dword:
  assumes "run_inv bm n (32 * i) l" and "\<forall>m < 32. bit (bm ! i) m"
  shows "run_inv bm n (32 * Suc i) 0"
proof -
  have "\<exists>l. run_inv bm n (32 * i + j) l \<and> (0 < j \<longrightarrow> l = 0)" if "j \<le> 32" for j
    using that
  proof (induction j)
    case 0
    with assms show ?case by auto
  next
    case (Suc j)
    then obtain l' where "run_inv bm n (32 * i + j) l'" by auto
    moreover from Suc assms(2) have "occ bm (32 * i + j)" by (simp add: occ_offset)
    ultimately show ?case using run_inv_occ by fastforce
  qed
  from this [of 32] show ?thesis by (simp add: add.commute)
qed

lemma first_free_s_loop_spec:
  assumes "n \<le> length bm" and "i \<le> n" and "run_inv bm L (32 * i) l"
    and "0 < l \<longrightarrow> first = int (32 * i - l)"
  shows "(\<exists>k. first_free_s_loop bm n (int L) i (int l) first = Some (int k) \<and>
             least_run bm L k \<and> k + L \<le> 32 * n)
         \<or> (first_free_s_loop bm n (int L) i (int l) first = Some (-1) \<and>
             (\<forall>k. k + L \<le> 32 * n \<longrightarrow> \<not> is_run bm L k))"
  using assms
proof (induction "n - i" arbitrary: i l first)
  case 0
  then show ?case by (auto simp: first_free_s_end run_inv_def is_run_def)
next
  case (Suc d)
  then have i: "i < n" "i < length bm" and d: "d = n - Suc i" by auto
  note IH = Suc.hyps(1) [OF d Suc.prems(1)]
  show ?case
  proof (cases "bm ! i = 0xffffffff")
    case True
    then have "run_inv bm L (32 * Suc i) 0"
      using Suc.prems(3) full_dword [of "bm ! i"] by (intro run_inv_dword) auto
    with IH [of 0 first] i first_free_s_full [OF i True] show ?thesis by simp
  next
    case False
    note step = first_free_s_scan [OF i False, of "int L" "int l" first]
    have "(\<exists>k. scan_dword_s (bm ! i) i (int L) 0 (int l) first = Inl (int k) \<and> least_run bm L k \<and>
              k + L \<le> 32 * Suc i)
         \<or> (\<exists>l' first'. scan_dword_s (bm ! i) i (int L) 0 (int l) first = Inr (int l', first') \<and>
              run_inv bm L (32 * Suc i) l' \<and> (0 < l' \<longrightarrow> first' = int (32 * Suc i - l')))"
      using Suc.prems(3,4) by (intro scan_s_spec) simp_all
    then show ?thesis
    proof (elim disjE exE conjE)
      fix k
      assume "scan_dword_s (bm ! i) i (int L) 0 (int l) first = Inl (int k)"
        and "least_run bm L k" and "k + L \<le> 32 * Suc i"
      with step i show ?thesis by (intro disjI1 exI [of _ k]) simp
    next
      fix l' first'
      assume "scan_dword_s (bm ! i) i (int L) 0 (int l) first = Inr (int l', first')"
        and "run_inv bm L (32 * Suc i) l'" and "0 < l' \<longrightarrow> first' = int (32 * Suc i - l')"
      with step i IH [of l' first'] show ?thesis by simp
    qed
  qed
qed

text \<open>The two searches as the allocators call them, on the first \<open>n\<close> dwords.\<close>

definition bm_first_free :: "bitmap \<Rightarrow> nat \<Rightarrow> int option" where
  "bm_first_free bm n = first_free_loop bm n 0"

definition bm_first_free_s :: "bitmap \<Rightarrow> nat \<Rightarrow> int \<Rightarrow> int option" where
  "bm_first_free_s bm n seq_len = first_free_s_loop bm n seq_len 0 0 0"

lemma bm_first_free_spec:
  assumes "n \<le> length bm"
  shows "(\<exists>k. bm_first_free bm n = Some (int k) \<and> k < 32 * n \<and> \<not> occ bm k \<and> (\<forall>m < k. occ bm m))
         \<or> (bm_first_free bm n = Some (-1) \<and> (\<forall>k < 32 * n. occ bm k))"
  using first_free_loop_spec [of n bm 0] assms by (simp add: bm_first_free_def)

lemma bm_first_free_s_spec:
  assumes "n \<le> length bm" and "0 < L"
  shows "(\<exists>k. bm_first_free_s bm n (int L) = Some (int k) \<and> least_run bm L k \<and> k + L \<le> 32 * n)
         \<or> (bm_first_free_s bm n (int L) = Some (-1) \<and> (\<forall>k. k + L \<le> 32 * n \<longrightarrow> \<not> is_run bm L k))"
  using first_free_s_loop_spec [of n bm 0 L 0 0] assms run_inv_start [of L bm]
  by (simp add: bm_first_free_s_def)

text \<open>Elimination rules for a successful search.\<close>

lemma bm_first_free_hit:
  assumes "bm_first_free bm n = Some r" and "r \<noteq> -1" and "n \<le> length bm"
  obtains k where "r = int k" and "k < 32 * n" and "\<not> occ bm k" and "\<forall>m < k. occ bm m"
  using bm_first_free_spec [OF assms(3)] assms(1,2) that by auto

lemma bm_first_free_s_hit:
  assumes "bm_first_free_s bm n (int L) = Some r" and "r \<noteq> -1" and "n \<le> length bm" and "0 < L"
  obtains k where "r = int k" and "least_run bm L k" and "k + L \<le> 32 * n"
  using bm_first_free_s_spec [OF assms(3,4)] assms(1,2) that by auto

section \<open>Filling the bitmap byte by byte\<close>

text \<open>
  \<^verbatim>\<open>memset ((char *) map, v, count)\<close> writes bytes; byte \<open>i\<close> is lane \<open>i mod 4\<close> of dword
  \<open>i div 4\<close> on the little-endian target.
\<close>

definition set_lane :: "u32 \<Rightarrow> nat \<Rightarrow> u8 \<Rightarrow> u32" where
  "set_lane w l v = (w AND NOT (push_bit (8 * l) 0xff)) OR push_bit (8 * l) (ucast v)"

fun memset_bytes :: "bitmap \<Rightarrow> u8 \<Rightarrow> nat \<Rightarrow> nat \<Rightarrow> bitmap option" where
  "memset_bytes bm v i 0 = Some bm"
| "memset_bytes bm v i (Suc n) = do {
     w \<leftarrow> aget bm (i div 4);
     bm' \<leftarrow> aset bm (i div 4) (set_lane w (i mod 4) v);
     memset_bytes bm' v (Suc i) n }"

lemma bit_ff: "bit (0xff :: u32) m \<longleftrightarrow> m < 8"
proof -
  have e: "(0xff :: u32) = mask 8" by (simp add: mask_eq_exp_minus_1)
  show ?thesis unfolding e by (auto simp: bit_mask_iff)
qed

lemma bit_set_lane:
  assumes "l < 4" and "m < 32"
  shows "bit (set_lane w l v) m \<longleftrightarrow> (if m div 8 = l then bit v (m mod 8) else bit w m)"
proof (cases "m div 8 = l")
  case True
  then have "8 * l \<le> m" "m - 8 * l = m mod 8" by (auto simp: minus_mult_div_eq_mod)
  moreover have "bit (255 :: u32) (m mod 8)" by (simp only: bit_ff)
  ultimately show ?thesis using True assms by (auto simp: set_lane_def bit_simps)
next
  case False
  then have "8 * l \<le> m \<Longrightarrow> 8 \<le> m - 8 * l" by auto
  moreover then have "8 * l \<le> m \<Longrightarrow> \<not> bit v (m - 8 * l)"
    using bit_imp_le_length [of v "m - 8 * l"] by auto
  moreover have "8 * l \<le> m \<Longrightarrow> \<not> bit (255 :: u32) (m - 8 * l)"
    using False by (simp only: bit_ff)
  ultimately show ?thesis using False assms by (auto simp: set_lane_def bit_simps bit_ff)
qed

lemma occ_set_lane:
  assumes "i div 4 < length bm" and "k < nbits bm"
  shows "occ (bm[i div 4 := set_lane (bm ! (i div 4)) (i mod 4) v]) k \<longleftrightarrow>
           (if k div 8 = i then bit v (k mod 8) else occ bm k)"
proof -
  have lane: "k mod 32 div 8 = k div 8 mod 4" "k mod 32 mod 8 = k mod 8" "k div 8 div 4 = k div 32"
    using mod_mult2_eq [of k 8 4] by (simp_all add: mod_mod_cancel div_mult2_eq [symmetric])
  show ?thesis
  proof (cases "k div 32 = i div 4")
    case True
    then have "k div 8 = i \<longleftrightarrow> k div 8 mod 4 = i mod 4"
      using lane(3) by (metis div_mult_mod_eq)
    with True assms show ?thesis by (simp add: occ_def bit_set_lane lane)
  next
    case False
    then have "k div 8 \<noteq> i" using lane(3) by auto
    with False assms show ?thesis by (simp add: occ_def)
  qed
qed

lemma memset_bytes_spec:
  "memset_bytes bm v i n = Some bm' \<Longrightarrow>
     length bm' = length bm \<and>
     (\<forall>k < nbits bm. occ bm' k \<longleftrightarrow> (if i \<le> k div 8 \<and> k div 8 < i + n then bit v (k mod 8) else occ bm k))"
proof (induction n arbitrary: bm i)
  case 0
  then show ?case by auto
next
  case (Suc n)
  define bm1 where "bm1 = bm[i div 4 := set_lane (bm ! (i div 4)) (i mod 4) v]"
  from Suc.prems have i: "i div 4 < length bm" and r: "memset_bytes bm1 v (Suc i) n = Some bm'"
    by (auto simp: c_simps bm1_def)
  have nb: "nbits bm1 = nbits bm" by (simp add: nbits_def bm1_def)
  have o: "occ bm1 k \<longleftrightarrow> (if k div 8 = i then bit v (k mod 8) else occ bm k)" if "k < nbits bm" for k
    using occ_set_lane [OF i that] by (simp add: bm1_def)
  have "length bm1 = length bm" by (simp add: bm1_def)
  moreover have "i \<le> m \<and> m < i + Suc n \<longleftrightarrow> m = i \<or> (Suc i \<le> m \<and> m < Suc i + n)" for m by auto
  ultimately show ?case using Suc.IH [OF r] o by (simp add: nb)
qed

lemma memset_bytes_Some: "i + n \<le> 4 * length bm \<Longrightarrow> \<exists>bm'. memset_bytes bm v i n = Some bm'"
proof (induction n arbitrary: bm i)
  case 0
  then show ?case by simp
next
  case (Suc n)
  then have "i div 4 < length bm" by auto
  with Suc show ?case by (simp add: aget_def aset_def)
qed

end
