(* ===== verification/Allocator.thy ===== *)
theory Allocator
  imports Prelude
begin

text \<open>
  The contract of a run allocator: it hands out runs of \<open>n\<close> consecutive blocks that were free
  before and takes them back.  \<^verbatim>\<open>kernel/pmm.c\<close>, \<^verbatim>\<open>kernel/heap.c\<close> and
  \<^verbatim>\<open>root/cstdlib/heap.c\<close> provide it; the clients below (a sequence of allocations and
  frees) are proved once against the contract.
\<close>

section \<open>Clients of an allocator\<close>

text \<open>
  A client run: allocate \<open>n\<close> blocks, or free the \<open>i\<close>-th of the runs that are live.  A live run
  is its first block and its length; an allocation that returns the null pointer leaves the
  live runs as they are.
\<close>

datatype alloc_op = Alloc nat | Free nat

type_synonym run = "nat \<times> nat"

definition blocks :: "run \<Rightarrow> nat set" where
  "blocks r = {fst r ..< fst r + snd r}"

fun disjoint_runs :: "run list \<Rightarrow> bool" where
  "disjoint_runs [] = True"
| "disjoint_runs (r # rs) = ((\<forall>r' \<in> set rs. blocks r \<inter> blocks r' = {}) \<and> disjoint_runs rs)"

definition drop_nth :: "nat \<Rightarrow> 'a list \<Rightarrow> 'a list" where
  "drop_nth i xs = take i xs @ drop (Suc i) xs"

fun client_step ::
  "('s \<Rightarrow> int \<Rightarrow> (u32 \<times> 's) option) \<Rightarrow> ('s \<Rightarrow> u32 \<Rightarrow> int \<Rightarrow> 's option) \<Rightarrow>
   (nat \<Rightarrow> u32) \<Rightarrow> (u32 \<Rightarrow> nat) \<Rightarrow> alloc_op \<Rightarrow> 's \<times> run list \<Rightarrow> ('s \<times> run list) option" where
  "client_step alloc free addr block (Alloc n) (s, live) =
     (if n = 0 then Some (s, live)
      else do {
        (a, s') \<leftarrow> alloc s (int n);
        Some (s', if a = 0 then live else (block a, n) # live) })"
| "client_step alloc free addr block (Free i) (s, live) =
     (if i < length live then do {
        s' \<leftarrow> free s (addr (fst (live ! i))) (int (snd (live ! i)));
        Some (s', drop_nth i live) }
      else Some (s, live))"

fun client_run ::
  "('s \<Rightarrow> int \<Rightarrow> (u32 \<times> 's) option) \<Rightarrow> ('s \<Rightarrow> u32 \<Rightarrow> int \<Rightarrow> 's option) \<Rightarrow>
   (nat \<Rightarrow> u32) \<Rightarrow> (u32 \<Rightarrow> nat) \<Rightarrow> alloc_op list \<Rightarrow> 's \<times> run list \<Rightarrow> ('s \<times> run list) option" where
  "client_run alloc free addr block [] c = Some c"
| "client_run alloc free addr block (x # xs) c =
     do { c' \<leftarrow> client_step alloc free addr block x c; client_run alloc free addr block xs c' }"

lemma set_drop_nth: "set (drop_nth i xs) \<subseteq> set xs"
  by (auto simp: drop_nth_def dest: in_set_takeD in_set_dropD)

lemma disjoint_runs_append:
  "disjoint_runs (xs @ ys) \<longleftrightarrow> disjoint_runs xs \<and> disjoint_runs ys \<and>
     (\<forall>r \<in> set xs. \<forall>r' \<in> set ys. blocks r \<inter> blocks r' = {})"
  by (induction xs) auto

lemma split_nth: "i < length xs \<Longrightarrow> xs = take i xs @ xs ! i # drop (Suc i) xs"
  by (simp add: id_take_nth_drop)

lemma disjoint_runs_drop_nth:
  assumes "disjoint_runs live" and "i < length live"
  shows "disjoint_runs (drop_nth i live)"
    and "\<forall>r \<in> set (drop_nth i live). blocks r \<inter> blocks (live ! i) = {}"
proof -
  from assms split_nth [OF assms(2)]
  have d: "disjoint_runs (take i live @ live ! i # drop (Suc i) live)" by simp
  then show "disjoint_runs (drop_nth i live)"
    unfolding disjoint_runs_append by (auto simp: drop_nth_def disjoint_runs_append)
  from d show "\<forall>r \<in> set (drop_nth i live). blocks r \<inter> blocks (live ! i) = {}"
    unfolding disjoint_runs_append by (auto simp: drop_nth_def)
qed

section \<open>The contract\<close>

locale block_allocator =
  fixes alloc :: "'s \<Rightarrow> int \<Rightarrow> (u32 \<times> 's) option"
    and free :: "'s \<Rightarrow> u32 \<Rightarrow> int \<Rightarrow> 's option"
    and inv :: "'s \<Rightarrow> bool"
    and used :: "'s \<Rightarrow> nat set"
    and capacity :: "'s \<Rightarrow> nat"
    and count :: "'s \<Rightarrow> u32"
    and addr :: "nat \<Rightarrow> u32"
    and block :: "u32 \<Rightarrow> nat"
  assumes alloc_total: "inv s \<Longrightarrow> 0 < n \<Longrightarrow> \<exists>a s'. alloc s (int n) = Some (a, s')"
    and alloc_null: "inv s \<Longrightarrow> 0 < n \<Longrightarrow> alloc s (int n) = Some (0, s') \<Longrightarrow> s' = s"
    and alloc_hit: "inv s \<Longrightarrow> 0 < n \<Longrightarrow> alloc s (int n) = Some (a, s') \<Longrightarrow> a \<noteq> 0 \<Longrightarrow>
      a = addr (block a) \<and> blocks (block a, n) \<inter> used s = {} \<and> block a + n \<le> capacity s \<and>
      used s' = used s \<union> blocks (block a, n) \<and> inv s' \<and> capacity s' = capacity s \<and>
      count s' = count s + of_nat n"
    and free_law: "inv s \<Longrightarrow> 0 < n \<Longrightarrow> addr k \<noteq> 0 \<Longrightarrow> blocks (k, n) \<subseteq> used s \<Longrightarrow>
      k + n \<le> capacity s \<Longrightarrow>
      \<exists>s'. free s (addr k) (int n) = Some s' \<and> used s' = used s - blocks (k, n) \<and>
        inv s' \<and> capacity s' = capacity s \<and> count s' = count s - of_nat n"
begin

text \<open>Freeing the run just allocated restores the set of used blocks and the counter.\<close>

lemma alloc_free:
  assumes "inv s" and "0 < n" and "alloc s (int n) = Some (a, s')" and "a \<noteq> 0"
  shows "\<exists>s''. free s' a (int n) = Some s'' \<and> used s'' = used s \<and> count s'' = count s"
proof -
  from alloc_hit [OF assms] have h: "a = addr (block a)" "blocks (block a, n) \<inter> used s = {}"
    "block a + n \<le> capacity s'" "used s' = used s \<union> blocks (block a, n)" "inv s'"
    "count s' = count s + of_nat n" by auto
  from h have "blocks (block a, n) \<subseteq> used s'" by auto
  from free_law [OF h(5) assms(2) _ this h(3)] h assms(4) show ?thesis by auto
qed

text \<open>
  What every client run keeps: live runs are pairwise disjoint, lie inside the memory the
  allocator manages, are marked used, have a non-zero address, and the counter moves with
  the number of live blocks.
\<close>

definition client_inv :: "'s \<times> run list \<Rightarrow> bool" where
  "client_inv c \<longleftrightarrow> inv (fst c) \<and> disjoint_runs (snd c) \<and>
     (\<forall>r \<in> set (snd c). 0 < snd r \<and> blocks r \<subseteq> used (fst c) \<and>
        fst r + snd r \<le> capacity (fst c) \<and> addr (fst r) \<noteq> 0)"

lemma client_step_alloc:
  assumes c: "client_inv (s, live)" and n: "0 < n" and a: "alloc s (int n) = Some (a, s')"
    and nz: "a \<noteq> 0"
  shows "client_inv (s', (block a, n) # live)"
proof -
  from c have i: "inv s" by (simp add: client_inv_def)
  from alloc_hit [OF i n a nz] have h: "a = addr (block a)" "blocks (block a, n) \<inter> used s = {}"
    "block a + n \<le> capacity s" "used s' = used s \<union> blocks (block a, n)" "inv s'"
    "capacity s' = capacity s" by auto
  have "blocks (block a, n) \<inter> blocks r = {}" if "r \<in> set live" for r
    using that c h(2) by (fastforce simp: client_inv_def)
  moreover have "addr (block a) \<noteq> 0" using h(1) nz by simp
  ultimately show ?thesis using c h n by (fastforce simp: client_inv_def)
qed

lemma client_step_free:
  assumes c: "client_inv (s, live)" and i: "i < length live"
  shows "\<exists>s'. free s (addr (fst (live ! i))) (int (snd (live ! i))) = Some s' \<and>
           client_inv (s', drop_nth i live)"
proof -
  let ?r = "live ! i"
  from c i have r: "0 < snd ?r" "blocks (fst ?r, snd ?r) \<subseteq> used s"
    "fst ?r + snd ?r \<le> capacity s" "addr (fst ?r) \<noteq> 0" "inv s" "disjoint_runs live"
    by (auto simp: client_inv_def)
  from free_law [OF r(5,1,4,2,3)] obtain s' where
    s': "free s (addr (fst ?r)) (int (snd ?r)) = Some s'" "used s' = used s - blocks ?r" "inv s'"
      "capacity s' = capacity s" by auto
  note d = disjoint_runs_drop_nth [OF r(6) i]
  have "blocks r \<subseteq> used s'" if "r \<in> set (drop_nth i live)" for r
    using that c d(2) s'(2) set_drop_nth [of i live] by (fastforce simp: client_inv_def)
  moreover have "0 < snd r \<and> fst r + snd r \<le> capacity s' \<and> addr (fst r) \<noteq> 0"
    if "r \<in> set (drop_nth i live)" for r
    using that c s'(4) set_drop_nth [of i live] by (fastforce simp: client_inv_def)
  ultimately have "client_inv (s', drop_nth i live)" using d(1) s'(3) by (simp add: client_inv_def)
  with s'(1) show ?thesis by blast
qed

lemma client_step_inv:
  assumes "client_inv c"
  shows "\<exists>c'. client_step alloc free addr block x c = Some c' \<and> client_inv c'"
proof (cases c)
  case (Pair s live)
  show ?thesis
  proof (cases x)
    case (Alloc n)
    show ?thesis
    proof (cases "n = 0")
      case True
      with Alloc Pair assms show ?thesis by simp
    next
      case False
      with assms Pair obtain a s' where a: "alloc s (int n) = Some (a, s')"
        using alloc_total [of s n] by (auto simp: client_inv_def)
      show ?thesis
      proof (cases "a = 0")
        case True
        with a False assms Pair have "s' = s" using alloc_null [of s n s'] by (simp add: client_inv_def)
        with a True False Alloc Pair assms show ?thesis by simp
      next
        case nz: False
        with a False Alloc Pair assms client_step_alloc [of s live n a s'] show ?thesis by simp
      qed
    qed
  next
    case (Free i)
    with Pair assms client_step_free [of s live i] show ?thesis by (cases "i < length live") auto
  qed
qed

lemma client_run_inv:
  "client_inv c \<Longrightarrow> \<exists>c'. client_run alloc free addr block xs c = Some c' \<and> client_inv c'"
proof (induction xs arbitrary: c)
  case Nil
  then show ?case by simp
next
  case (Cons x xs)
  from client_step_inv [OF Cons.prems, of x] obtain c' where
    "client_step alloc free addr block x c = Some c'" "client_inv c'" by blast
  with Cons.IH [of c'] show ?case by simp
qed

text \<open>Starting with no live run, every sequence of requests succeeds and keeps runs apart.\<close>

lemma client_safe:
  assumes "inv s"
  shows "\<exists>s' live. client_run alloc free addr block xs (s, []) = Some (s', live) \<and> inv s' \<and>
           disjoint_runs live \<and> (\<forall>r \<in> set live. blocks r \<subseteq> used s' \<and> fst r + snd r \<le> capacity s')"
proof -
  have "client_inv (s, [])" using assms by (simp add: client_inv_def)
  from client_run_inv [OF this, of xs] show ?thesis by (auto simp: client_inv_def)
qed

end

end
