(* ===== verification/Runs.thy ===== *)
theory Runs
  imports Bitmap Allocator
begin

text \<open>
  Runs of blocks over the bitmap: what occupying and releasing a run does to the set of
  occupied blocks, and the search for a run followed by its occupation, which is the body of
  every \<^verbatim>\<open>alloc_blocks\<close> function of the repository.
\<close>

lemma occupied_set:
  assumes "occupy_run bm u k n = Some (bm', u')"
  shows "occ_set bm' = occ_set bm \<union> (blocks (k, n) \<inter> {..< nbits bm})"
  using occupy_run_spec [OF assms] by (auto simp: occ_set_def blocks_def nbits_def)

lemma released_set:
  assumes "release_run bm u k n = Some (bm', u')"
  shows "occ_set bm' = occ_set bm - blocks (k, n)"
  using release_run_spec [OF assms] by (auto simp: occ_set_def blocks_def nbits_def)

lemma search_run:
  assumes l: "d \<le> length bm" and n: "0 < n" and s: "bm_first_free_s bm d (int n) \<noteq> Some (-1)"
  shows "\<exists>k m u'. bm_first_free_s bm d (int n) = Some (int k) \<and> occupy_run bm u k n = Some (m, u') \<and>
    least_run bm n k \<and> k + n \<le> 32 * d \<and> length m = length bm \<and> u' = u + of_nat n \<and>
    blocks (k, n) \<inter> occ_set bm = {} \<and> occ_set m = occ_set bm \<union> blocks (k, n)"
proof -
  from bm_first_free_s_spec [OF l n] s obtain k where
    k: "bm_first_free_s bm d (int n) = Some (int k)" "least_run bm n k" "k + n \<le> 32 * d" by blast
  then have kn: "k + n \<le> nbits bm" using l by (simp add: nbits_def)
  from occupy_run_Some [OF this] obtain m u' where
    o: "occupy_run bm u k n = Some (m, u')" by (metis surj_pair)
  have "blocks (k, n) \<subseteq> {..< nbits bm}" using kn by (auto simp: blocks_def)
  then have "occ_set m = occ_set bm \<union> blocks (k, n)" using occupied_set [OF o] by (simp add: Int_absorb2)
  moreover have "blocks (k, n) \<inter> occ_set bm = {}"
    using k(2) by (auto simp: blocks_def occ_set_def least_run_def is_run_def)
  ultimately show ?thesis using k o occupy_run_spec [OF o] by blast
qed

text \<open>Releasing an occupied run.\<close>

lemma release_occupied:
  assumes "blocks (k, n) \<subseteq> occ_set bm" and "0 < n"
  shows "\<exists>m. release_run bm u k n = Some (m, u - of_nat n) \<and> length m = length bm \<and>
    occ_set m = occ_set bm - blocks (k, n)"
proof -
  have "k + n - 1 \<in> blocks (k, n)" using assms(2) by (simp add: blocks_def)
  with assms(1) have "k + n - 1 < nbits bm" by (auto simp: occ_set_def)
  with assms(2) have "k + n \<le> nbits bm" by simp
  from release_run_Some [OF this] obtain m u' where r: "release_run bm u k n = Some (m, u')"
    by (metis surj_pair)
  from release_run_spec [OF r] released_set [OF r] r show ?thesis by auto
qed

end
