(* ===== verification/Pmm.thy ===== *)
theory Pmm
  imports Runs
begin

text \<open>
  The physical memory manager, \<^verbatim>\<open>kernel/pmm.c\<close>: 4 KiB frames tracked by a bitmap.  The
  bitmap array is the memory that \<^verbatim>\<open>kmain\<close> hands to \<^verbatim>\<open>pmmngr_init\<close>; an index outside it
  is \<open>None\<close>.  Console output (\<^verbatim>\<open>printf\<close>) is not part of the state.
\<close>

record pmm =
  memory_size :: u32
  used_blocks :: u32
  max_blocks :: u32
  memory_map :: bitmap

record memory_region =
  startLo :: u32
  startHi :: u32
  sizeLo :: u32
  sizeHi :: u32
  region_type :: u32
  acpi_3_0 :: u32

abbreviation PMMNGR_BLOCK_SIZE :: u32 where "PMMNGR_BLOCK_SIZE \<equiv> 4096"

section \<open>Bitmap access and queries\<close>

definition mmap_set :: "pmm \<Rightarrow> nat \<Rightarrow> pmm option" where
  "mmap_set st b = do { m \<leftarrow> bm_set (memory_map st) b; Some (st\<lparr>memory_map := m\<rparr>) }"

definition mmap_unset :: "pmm \<Rightarrow> nat \<Rightarrow> pmm option" where
  "mmap_unset st b = do { m \<leftarrow> bm_unset (memory_map st) b; Some (st\<lparr>memory_map := m\<rparr>) }"

definition mmap_test :: "pmm \<Rightarrow> nat \<Rightarrow> bool option" where
  "mmap_test st b = bm_test (memory_map st) b"

definition pmmngr_get_block_count :: "pmm \<Rightarrow> int" where
  "pmmngr_get_block_count st = sint (max_blocks st)"

definition pmmngr_get_memory_size :: "pmm \<Rightarrow> int" where
  "pmmngr_get_memory_size st = sint (memory_size st)"

definition pmmngr_get_used_blocks :: "pmm \<Rightarrow> int" where
  "pmmngr_get_used_blocks st = sint (used_blocks st)"

definition pmmngr_get_free_block_count :: "pmm \<Rightarrow> int" where
  "pmmngr_get_free_block_count st = sint (max_blocks st - used_blocks st)"

text \<open>
  The loop bound \<^verbatim>\<open>i < pmmngr_get_block_count() / 32\<close> compares an unsigned \<^verbatim>\<open>i\<close> with an
  \<^verbatim>\<open>int\<close> quotient, which C converts to unsigned.
\<close>

definition map_dwords :: "pmm \<Rightarrow> nat" where
  "map_dwords st = unat (word_of_int (cdiv (pmmngr_get_block_count st) 32) :: u32)"

definition mmap_first_free :: "pmm \<Rightarrow> int option" where
  "mmap_first_free st = bm_first_free (memory_map st) (map_dwords st)"

definition mmap_first_free_s :: "pmm \<Rightarrow> int \<Rightarrow> int option" where
  "mmap_first_free_s st seq_len = bm_first_free_s (memory_map st) (map_dwords st) seq_len"

section \<open>Initialisation\<close>

definition pmmngr_init :: "u32 \<Rightarrow> bitmap \<Rightarrow> pmm option" where
  "pmmngr_init mem_size bitmap =
     (let count = cdiv (sint (mem_size * 1024)) 4096 in do {
        m \<leftarrow> memset_bytes bitmap 0xff 0 (nat (cdiv count 8));
        Some \<lparr>memory_size = mem_size, used_blocks = word_of_int count,
              max_blocks = word_of_int count, memory_map = m\<rparr> })"

definition round_up_blocks :: "u32 \<Rightarrow> u32" where
  "round_up_blocks sz =
     (if sz mod PMMNGR_BLOCK_SIZE \<noteq> 0
      then sz + (PMMNGR_BLOCK_SIZE - sz mod PMMNGR_BLOCK_SIZE) else sz)"

definition pmmngr_init_region :: "pmm \<Rightarrow> u32 \<Rightarrow> u32 \<Rightarrow> pmm option" where
  "pmmngr_init_region st base sz =
     (let cnt = unat (round_up_blocks sz div PMMNGR_BLOCK_SIZE);
          align = unat (base div PMMNGR_BLOCK_SIZE) in
      if int (align div 8) \<ge> cdiv (pmmngr_get_block_count st) 8 then Some st
      else do {
        (m, u) \<leftarrow> release_run (memory_map st) (used_blocks st) align
                    cnt;
        mmap_set (st\<lparr>memory_map := m, used_blocks := u\<rparr>) 0 })"

definition pmmngr_deinit_region :: "pmm \<Rightarrow> u32 \<Rightarrow> u32 \<Rightarrow> pmm option" where
  "pmmngr_deinit_region st base sz =
     (let cnt = unat (round_up_blocks sz div PMMNGR_BLOCK_SIZE);
          align = unat (base div PMMNGR_BLOCK_SIZE) in
      if int (align div 8) \<ge> cdiv (pmmngr_get_block_count st) 8 then Some st
      else do {
        (m, u) \<leftarrow> occupy_run (memory_map st) (used_blocks st) align
                    cnt;
        Some (st\<lparr>memory_map := m, used_blocks := u\<rparr>) })"

text \<open>
  \<^verbatim>\<open>pmmngr_init_memory_regions\<close> walks at most 15 BIOS memory-map entries and rewrites the type
  of an entry in place, so the entries are returned beside the state.
\<close>

function init_regions_loop :: "memory_region list \<Rightarrow> pmm \<Rightarrow> nat \<Rightarrow> (memory_region list \<times> pmm) option"
where
  "init_regions_loop rs st i =
     (if i < 15 then do {
        r \<leftarrow> aget rs i;
        let r = (if region_type r > 4 then r\<lparr>region_type := 1\<rparr> else r);
        let rs = rs[i := r];
        if i > 0 \<and> startLo r = 0 then Some (rs, st)
        else do {
          st \<leftarrow> (if region_type r = 1 then pmmngr_init_region st (startLo r) (sizeLo r) else Some st);
          init_regions_loop rs st (Suc i) } }
      else Some (rs, st))"
  by pat_completeness auto
termination by (relation "measure (\<lambda>(rs, st, i). 15 - i)") auto

declare init_regions_loop.simps [simp del]

definition pmmngr_init_memory_regions ::
  "memory_region list \<Rightarrow> pmm \<Rightarrow> (memory_region list \<times> pmm) option" where
  "pmmngr_init_memory_regions rs st = init_regions_loop rs st 0"

section \<open>Allocation\<close>

definition pmmngr_alloc_block :: "pmm \<Rightarrow> (u32 \<times> pmm) option" where
  "pmmngr_alloc_block st =
     (if pmmngr_get_free_block_count st \<le> 0 then Some (0, st)
      else do {
        frame \<leftarrow> mmap_first_free st;
        if frame = -1 then Some (0, st)
        else do {
          st \<leftarrow> mmap_set st (nat frame);
          Some (word_of_int (frame * 4096), st\<lparr>used_blocks := used_blocks st + 1\<rparr>) } })"

definition pmmngr_alloc_blocks :: "pmm \<Rightarrow> int \<Rightarrow> (u32 \<times> pmm) option" where
  "pmmngr_alloc_blocks st seq_len =
     (if pmmngr_get_free_block_count st \<le> 0 then Some (0, st)
      else do {
        frame \<leftarrow> mmap_first_free_s st seq_len;
        if frame = -1 then Some (0, st)
        else do {
          (m, u) \<leftarrow> occupy_run (memory_map st) (used_blocks st) (nat frame) (nat seq_len);
          Some (word_of_int (frame * 4096), st\<lparr>memory_map := m, used_blocks := u\<rparr>) } })"

definition pmmngr_free_block :: "pmm \<Rightarrow> u32 \<Rightarrow> pmm option" where
  "pmmngr_free_block st p = do {
     st \<leftarrow> mmap_unset st (unat (p div PMMNGR_BLOCK_SIZE));
     Some (st\<lparr>used_blocks := used_blocks st - 1\<rparr>) }"

definition pmmngr_free_blocks :: "pmm \<Rightarrow> u32 \<Rightarrow> int \<Rightarrow> pmm option" where
  "pmmngr_free_blocks st p seq_len = do {
     (m, u) \<leftarrow> release_run (memory_map st) (used_blocks st)
                 (unat (p div PMMNGR_BLOCK_SIZE)) (nat seq_len);
     Some (st\<lparr>memory_map := m, used_blocks := u\<rparr>) }"

section \<open>Frame addresses\<close>

definition frame_addr :: "nat \<Rightarrow> u32" where
  "frame_addr k = of_nat (k * 4096)"

definition frame_index :: "u32 \<Rightarrow> nat" where
  "frame_index a = unat (a div PMMNGR_BLOCK_SIZE)"

lemma unat_frame_addr: "k < 2 ^ 20 \<Longrightarrow> unat (frame_addr k) = k * 4096"
  by (simp add: frame_addr_def unat_of_nat del: of_nat_mult of_nat_numeral)

lemma frame_index_addr [simp]: "k < 2 ^ 20 \<Longrightarrow> frame_index (frame_addr k) = k"
  by (simp add: frame_index_def unat_div_distrib unat_frame_addr)

lemma frame_addr_zero: "k < 2 ^ 20 \<Longrightarrow> frame_addr k = 0 \<longleftrightarrow> k = 0"
  using unat_frame_addr [of k] by (auto simp: frame_addr_def)

lemma frame_addr_int: "word_of_int (int k * 4096) = frame_addr k"
  by (simp add: frame_addr_def)

section \<open>Invariant and specifications\<close>

text \<open>
  The invariant that the initialisation establishes and the allocator relies on: the bitmap
  array covers the managed frames, there are at most \<open>2 ^ 20\<close> of them (4 GiB), and frame 0 is
  marked occupied, so that an address of 0 never names a frame that was handed out.
\<close>

definition pmm_capacity :: "pmm \<Rightarrow> nat" where
  "pmm_capacity st = 32 * (unat (max_blocks st) div 32)"

definition pmm_inv :: "pmm \<Rightarrow> bool" where
  "pmm_inv st \<longleftrightarrow> unat (max_blocks st) \<le> 2 ^ 20 \<and>
     unat (max_blocks st) div 32 \<le> length (memory_map st) \<and>
     0 < length (memory_map st) \<and> occ (memory_map st) 0"

definition frames_used :: "pmm \<Rightarrow> nat set" where
  "frames_used st = occ_set (memory_map st)"


lemma map_dwords_inv: "pmm_inv st \<Longrightarrow> map_dwords st = unat (max_blocks st) div 32"
proof -
  assume "pmm_inv st"
  then have b: "unat (max_blocks st) \<le> 2 ^ 20" by (simp add: pmm_inv_def)
  then have "sint (max_blocks st) = int (unat (max_blocks st))" by (simp add: small_sint)
  then have "cdiv (pmmngr_get_block_count st) 32 = int (unat (max_blocks st) div 32)"
    by (simp add: pmmngr_get_block_count_def zdiv_int)
  then show ?thesis
    using b by (simp only: map_dwords_def of_int_of_nat_eq) (simp add: unat_of_nat)
qed

lemma pmm_capacity_nbits: "pmm_inv st \<Longrightarrow> pmm_capacity st \<le> nbits (memory_map st)"
  by (simp add: pmm_inv_def pmm_capacity_def nbits_def)

lemma pmm_capacity_small: "pmm_inv st \<Longrightarrow> pmm_capacity st \<le> 2 ^ 20"
  by (auto simp: pmm_inv_def pmm_capacity_def)

lemma frames_used_iff:
  "pmm_inv st \<Longrightarrow> k < pmm_capacity st \<Longrightarrow> k \<in> frames_used st \<longleftrightarrow> occ (memory_map st) k"
  using pmm_capacity_nbits [of st] by (auto simp: frames_used_def occ_set_def)

section \<open>Allocating and freeing runs of frames\<close>

text \<open>A non-null result comes from the search; a null result leaves the state alone.\<close>

lemma alloc_blocks_cases:
  assumes i: "pmm_inv st" and n: "0 < n"
  shows "pmmngr_alloc_blocks st (int n) = Some (0, st) \<or>
    (\<exists>k m u. pmmngr_alloc_blocks st (int n) =
         Some (frame_addr k, st\<lparr>memory_map := m, used_blocks := u\<rparr>) \<and>
       occupy_run (memory_map st) (used_blocks st) k n = Some (m, u) \<and>
       least_run (memory_map st) n k \<and> k + n \<le> pmm_capacity st \<and> 0 < k \<and> k < 2 ^ 20)"
proof (cases "pmmngr_get_free_block_count st \<le> 0 \<or> mmap_first_free_s st (int n) = Some (-1)")
  case True
  then show ?thesis by (auto simp: pmmngr_alloc_blocks_def)
next
  case False
  from i have c: "32 * map_dwords st = pmm_capacity st" and l: "map_dwords st \<le> length (memory_map st)"
    by (simp_all add: map_dwords_inv pmm_capacity_def, simp add: pmm_inv_def)
  from bm_first_free_s_spec [OF l n] False obtain k where
    k: "mmap_first_free_s st (int n) = Some (int k)" "least_run (memory_map st) n k"
      "k + n \<le> pmm_capacity st"
    unfolding mmap_first_free_s_def c by blast
  then have "k + n \<le> nbits (memory_map st)" using pmm_capacity_nbits [OF i] by simp
  from occupy_run_Some [OF this] obtain m u where
    o: "occupy_run (memory_map st) (used_blocks st) k n = Some (m, u)" by (metis surj_pair)
  have "occ (memory_map st) 0" using i by (simp add: pmm_inv_def)
  then have "k \<noteq> 0" using k(2) n by (auto simp: least_run_def is_run_def)
  moreover have "k < 2 ^ 20" using k(3) n pmm_capacity_small [OF i] by simp
  moreover have "pmmngr_alloc_blocks st (int n) =
      Some (frame_addr k, st\<lparr>memory_map := m, used_blocks := u\<rparr>)"
    using False k(1) o by (simp add: pmmngr_alloc_blocks_def frame_addr_def)
  ultimately show ?thesis using k o by blast
qed

lemma pmm_inv_update:
  assumes "pmm_inv st" and "length m = length (memory_map st)" and "occ m 0"
  shows "pmm_inv (st\<lparr>memory_map := m, used_blocks := u\<rparr>)"
    and "pmm_capacity (st\<lparr>memory_map := m, used_blocks := u\<rparr>) = pmm_capacity st"
  using assms by (auto simp: pmm_inv_def pmm_capacity_def)

lemma nbits_pos: "pmm_inv st \<Longrightarrow> 0 < nbits (memory_map st)"
  by (simp add: pmm_inv_def nbits_def)

lemma alloc_blocks_hit:
  assumes i: "pmm_inv st" and n: "0 < n"
    and a: "pmmngr_alloc_blocks st (int n) = Some (a, st')" and nz: "a \<noteq> 0"
  shows "a = frame_addr (frame_index a) \<and> blocks (frame_index a, n) \<inter> frames_used st = {} \<and>
    frame_index a + n \<le> pmm_capacity st \<and>
    frames_used st' = frames_used st \<union> blocks (frame_index a, n) \<and> pmm_inv st' \<and>
    pmm_capacity st' = pmm_capacity st \<and> used_blocks st' = used_blocks st + of_nat n \<and>
    least_run (memory_map st) n (frame_index a)"
proof -
  from alloc_blocks_cases [OF i n] a nz obtain k m u where
    k: "a = frame_addr k" "st' = st\<lparr>memory_map := m, used_blocks := u\<rparr>"
      "least_run (memory_map st) n k" "k + n \<le> pmm_capacity st" "0 < k" "k < 2 ^ 20" and
    o: "occupy_run (memory_map st) (used_blocks st) k n = Some (m, u)" by auto
  note sp = occupy_run_spec [OF o]
  have "occ (memory_map st) 0" using i by (simp add: pmm_inv_def)
  with sp nbits_pos [OF i] have m0: "occ m 0" by simp
  have "blocks (k, n) \<inter> frames_used st = {}"
    using k(3) by (auto simp: blocks_def frames_used_def occ_set_def least_run_def is_run_def)
  moreover have "frames_used st' = frames_used st \<union> blocks (k, n)"
  proof -
    have "blocks (k, n) \<subseteq> {..< nbits (memory_map st)}"
      using le_trans [OF k(4) pmm_capacity_nbits [OF i]] by (auto simp: blocks_def)
    then show ?thesis using occupied_set [OF o] by (simp add: k(2) frames_used_def Int_absorb2)
  qed
  moreover have "frame_index a = k" using k(1,6) by simp
  moreover have "used_blocks st' = used_blocks st + of_nat n" using k(2) sp by simp
  ultimately show ?thesis using k(1-4) sp pmm_inv_update [OF i _ m0, of u] by metis
qed

lemma free_blocks_law:
  assumes i: "pmm_inv st" and n: "0 < n" and a: "frame_addr k \<noteq> 0"
    and u: "blocks (k, n) \<subseteq> frames_used st" and c: "k + n \<le> pmm_capacity st"
  shows "\<exists>st'. pmmngr_free_blocks st (frame_addr k) (int n) = Some st' \<and>
    frames_used st' = frames_used st - blocks (k, n) \<and> pmm_inv st' \<and>
    pmm_capacity st' = pmm_capacity st \<and> used_blocks st' = used_blocks st - of_nat n"
proof -
  from a have k0: "k \<noteq> 0" by (metis frame_addr_def mult_0 of_nat_0)
  from c n pmm_capacity_small [OF i] have "k < 2 ^ 20" by simp
  then have ix: "unat (frame_addr k div 4096) = k"
    using frame_index_addr [of k] by (simp add: frame_index_def)
  from c pmm_capacity_nbits [OF i] have "k + n \<le> nbits (memory_map st)" by simp
  from release_run_Some [OF this] obtain m u where
    r: "release_run (memory_map st) (used_blocks st) k n = Some (m, u)" by (metis surj_pair)
  note sp = release_run_spec [OF r]
  have "occ (memory_map st) 0" using i by (simp add: pmm_inv_def)
  with sp nbits_pos [OF i] k0 have m0: "occ m 0" by simp
  show ?thesis using r sp released_set [OF r] pmm_inv_update [OF i _ m0, of u]
    by (simp add: pmmngr_free_blocks_def ix frames_used_def)
qed

interpretation pm: block_allocator pmmngr_alloc_blocks pmmngr_free_blocks pmm_inv frames_used
  pmm_capacity used_blocks frame_addr frame_index
proof unfold_locales
  fix s :: pmm and n :: nat
  assume i: "pmm_inv s" and n: "0 < n"
  show "\<exists>a s'. pmmngr_alloc_blocks s (int n) = Some (a, s')"
    using alloc_blocks_cases [OF i n] by blast
next
  fix s s' :: pmm and n :: nat
  assume "pmm_inv s" and "0 < n" and "pmmngr_alloc_blocks s (int n) = Some (0, s')"
  then show "s' = s" using alloc_blocks_cases [of s n] frame_addr_zero by fastforce
next
  fix s s' :: pmm and n :: nat and a :: u32
  assume "pmm_inv s" and "0 < n" and "pmmngr_alloc_blocks s (int n) = Some (a, s')" and "a \<noteq> 0"
  then show "a = frame_addr (frame_index a) \<and> blocks (frame_index a, n) \<inter> frames_used s = {} \<and>
      frame_index a + n \<le> pmm_capacity s \<and> frames_used s' = frames_used s \<union> blocks (frame_index a, n) \<and>
      pmm_inv s' \<and> pmm_capacity s' = pmm_capacity s \<and> used_blocks s' = used_blocks s + of_nat n"
    using alloc_blocks_hit by blast
qed (rule free_blocks_law)

section \<open>Single frames\<close>

lemma alloc_block_cases:
  assumes i: "pmm_inv st"
  shows "pmmngr_alloc_block st = Some (0, st) \<or>
    (\<exists>k st'. pmmngr_alloc_block st = Some (frame_addr k, st') \<and> k \<notin> frames_used st \<and>
       0 < k \<and> k < pmm_capacity st \<and> (\<forall>j < k. j \<in> frames_used st) \<and>
       frames_used st' = insert k (frames_used st) \<and> pmm_inv st' \<and>
       pmm_capacity st' = pmm_capacity st \<and> used_blocks st' = used_blocks st + 1)"
proof (cases "pmmngr_get_free_block_count st \<le> 0 \<or> mmap_first_free st = Some (-1)")
  case True
  then show ?thesis by (auto simp: pmmngr_alloc_block_def)
next
  case False
  from i have c: "32 * map_dwords st = pmm_capacity st" and l: "map_dwords st \<le> length (memory_map st)"
    by (simp_all add: map_dwords_inv pmm_capacity_def, simp add: pmm_inv_def)
  from bm_first_free_spec [OF l] False obtain k where
    k: "mmap_first_free st = Some (int k)" "\<not> occ (memory_map st) k" "k < pmm_capacity st"
      "\<forall>m < k. occ (memory_map st) m"
    unfolding mmap_first_free_def c by blast
  have kn: "k < nbits (memory_map st)" using less_le_trans [OF k(3) pmm_capacity_nbits [OF i]] .
  from bm_set_Some [OF this] obtain m where m: "bm_set (memory_map st) k = Some m" ..
  note sp = bm_set_spec [OF m]
  have o0: "occ (memory_map st) 0" using i by (simp add: pmm_inv_def)
  then have k0: "k \<noteq> 0" using k(2) by metis
  from o0 sp nbits_pos [OF i] have m0: "occ m 0" by simp
  let ?st = "st\<lparr>memory_map := m, used_blocks := used_blocks st + 1\<rparr>"
  have nb: "nbits m = nbits (memory_map st)" using sp by (simp add: nbits_def)
  have "frames_used ?st = insert k (frames_used st)"
    using sp kn nb by (auto simp: frames_used_def occ_set_def)
  moreover have "pmmngr_alloc_block st = Some (frame_addr k, ?st)"
    using False k(1) m by (simp add: pmmngr_alloc_block_def mmap_set_def frame_addr_def)
  moreover have "k \<notin> frames_used st" using k(2) by (simp add: frames_used_def occ_set_def)
  moreover have "\<forall>j < k. j \<in> frames_used st"
    using k(4) kn by (simp add: frames_used_def occ_set_def)
  moreover note pmm_inv_update [OF i _ m0, of "used_blocks st + 1"] sp k0 k(3)
  ultimately show ?thesis by (metis (no_types, lifting) gr0I pmm.select_convs(2) pmm.surjective
      pmm.update_convs(2) pmm.update_convs(4))
qed

section \<open>Enough free frames\<close>

text \<open>At least \<open>n\<close> frames are free, by the bitmap and by the counter.\<close>

definition pmm_room :: "pmm \<Rightarrow> nat \<Rightarrow> bool" where
  "pmm_room st n \<longleftrightarrow> n \<le> card ({..< pmm_capacity st} - frames_used st) \<and>
     int n \<le> pmmngr_get_free_block_count st"

lemma alloc_block_max:
  "pmmngr_alloc_block st = Some (a, st') \<Longrightarrow> max_blocks st' = max_blocks st"
  by (auto simp: pmmngr_alloc_block_def mmap_set_def c_simps split: if_splits)

lemma sint_dec: "0 < sint (x :: u32) \<Longrightarrow> sint (x - 1) = sint x - 1"
proof -
  assume p: "0 < sint x"
  have "sint x < 2 ^ 31" using sint_lt [of x] by simp
  then have "signed_take_bit 31 (sint x - 1) = sint x - 1"
    by (intro signed_take_bit_int_eq_self) (use p in linarith)+
  then show ?thesis by (simp add: sint_word_diff)
qed

lemma alloc_block_room:
  assumes i: "pmm_inv st" and r: "pmm_room st (Suc n)"
  shows "\<exists>k st'. pmmngr_alloc_block st = Some (frame_addr k, st') \<and> k \<notin> frames_used st \<and>
    0 < k \<and> k < pmm_capacity st \<and> frames_used st' = insert k (frames_used st) \<and> pmm_inv st' \<and>
    pmm_capacity st' = pmm_capacity st \<and> pmm_room st' n"
proof -
  have pos: "0 < sint (max_blocks st - used_blocks st)"
    using r by (simp add: pmm_room_def pmmngr_get_free_block_count_def)
  have ne: "{..< pmm_capacity st} - frames_used st \<noteq> {}"
    using r by (metis pmm_room_def card.empty not_less_eq_eq le0)
  from i have c: "32 * map_dwords st = pmm_capacity st" and l: "map_dwords st \<le> length (memory_map st)"
    by (simp_all add: map_dwords_inv pmm_capacity_def, simp add: pmm_inv_def)
  obtain f where f: "f < pmm_capacity st" "\<not> occ (memory_map st) f"
  proof -
    from ne obtain f where "f < pmm_capacity st" "f \<notin> frames_used st" by auto
    then show ?thesis using that frames_used_iff [OF i] by blast
  qed
  with bm_first_free_spec [OF l] obtain k where
    k: "mmap_first_free st = Some (int k)" "k < pmm_capacity st"
    unfolding mmap_first_free_def c by metis
  from bm_set_Some [OF less_le_trans [OF k(2) pmm_capacity_nbits [OF i]]] obtain m where
    m: "bm_set (memory_map st) k = Some m" ..
  have "pmmngr_alloc_block st = Some (word_of_int (int k * 4096),
      st\<lparr>memory_map := m, used_blocks := used_blocks st + 1\<rparr>)"
    using pos k(1) m
    by (simp add: pmmngr_alloc_block_def pmmngr_get_free_block_count_def mmap_set_def)
  moreover have "st\<lparr>memory_map := m, used_blocks := used_blocks st + 1\<rparr> \<noteq> st"
    by (metis add_cancel_right_right one_neq_zero pmm.ext_inject pmm.surjective pmm.update_convs(2))
  ultimately have "pmmngr_alloc_block st \<noteq> Some (0, st)" by simp
  with alloc_block_cases [OF i] obtain k st' where
    k: "pmmngr_alloc_block st = Some (frame_addr k, st')" "k \<notin> frames_used st" "0 < k"
      "k < pmm_capacity st" "frames_used st' = insert k (frames_used st)" "pmm_inv st'"
      "pmm_capacity st' = pmm_capacity st" "used_blocks st' = used_blocks st + 1" by blast
  have "{..< pmm_capacity st'} - frames_used st' = ({..< pmm_capacity st} - frames_used st) - {k}"
    using k by auto
  moreover have "k \<in> {..< pmm_capacity st} - frames_used st" using k by simp
  ultimately have "card ({..< pmm_capacity st'} - frames_used st') =
      card ({..< pmm_capacity st} - frames_used st) - 1"
    by simp
  moreover have "pmmngr_get_free_block_count st' = pmmngr_get_free_block_count st - 1"
    using sint_dec [OF pos] alloc_block_max [OF k(1)] k(8)
    by (simp add: pmmngr_get_free_block_count_def diff_diff_eq)
  ultimately have "pmm_room st' n" using r unfolding pmm_room_def by linarith
  with k show ?thesis by blast
qed

section \<open>Properties\<close>

text \<open>
  C3: \<^verbatim>\<open>pmmngr_alloc_blocks\<close> is first fit.  On a non-null result the frames were all
  free, no run of that length starts lower, exactly those frames become occupied, the counter
  grows by the length and the manager's invariant holds again.
\<close>

theorem pmm_alloc_first_fit:
  assumes "pmm_inv st" and "0 < n" and "pmmngr_alloc_blocks st (int n) = Some (a, st')" and "a \<noteq> 0"
  shows "least_run (memory_map st) n (frame_index a) \<and> a = frame_addr (frame_index a) \<and>
    frame_index a + n \<le> pmm_capacity st \<and> pmm_inv st' \<and>
    frames_used st' = frames_used st \<union> blocks (frame_index a, n) \<and>
    used_blocks st' = used_blocks st + of_nat n"
  using alloc_blocks_hit [OF assms] by blast

text \<open>A manager of 64 frames in which frames 0, 1 and 4 are taken.\<close>

definition pmm_sample :: pmm where
  "pmm_sample = \<lparr>memory_size = 256, used_blocks = 3, max_blocks = 64, memory_map = [0x13, 0]\<rparr>"

lemma pmm_sample_inv: "pmm_inv pmm_sample"
  by (simp add: pmm_inv_def pmm_sample_def occ_def)

lemma pmm_sample_alloc:
  "pmmngr_alloc_blocks pmm_sample (int 3) =
     Some (0x5000, pmm_sample\<lparr>memory_map := [0xf3, 0], used_blocks := 6\<rparr>)"
  by code_simp

theorem pmm_alloc_first_fit_witness:
  "least_run (memory_map pmm_sample) 3 5 \<and> used_blocks (pmm_sample\<lparr>used_blocks := 6\<rparr>) = 6"
  using pmm_alloc_first_fit [OF pmm_sample_inv _ pmm_sample_alloc]
  by (simp add: frame_index_def)

text \<open>
  C4: an allocation of \<open>n\<close> frames fails, leaving the manager unchanged, exactly when the
  counter says nothing is free or no \<open>n\<close> consecutive free frames lie below the capacity.
\<close>

theorem pmm_alloc_fails_iff:
  assumes "pmm_inv st" and "0 < n"
  shows "pmmngr_alloc_blocks st (int n) = Some (0, st) \<longleftrightarrow>
    pmmngr_get_free_block_count st \<le> 0 \<or>
    (\<forall>k. k + n \<le> pmm_capacity st \<longrightarrow> \<not> is_run (memory_map st) n k)"
proof -
  from assms(1) have c: "32 * map_dwords st = pmm_capacity st"
    and l: "map_dwords st \<le> length (memory_map st)"
    by (simp_all add: map_dwords_inv pmm_capacity_def, simp add: pmm_inv_def)
  note spec = bm_first_free_s_spec [OF l assms(2)]
  have hit: "frame_addr k \<noteq> 0" if "0 < k" "k < 2 ^ 20" for k
    using that frame_addr_zero [of k] by simp
  have null: "pmmngr_alloc_blocks st (int n) = Some (0, st) \<longleftrightarrow>
      pmmngr_get_free_block_count st \<le> 0 \<or> mmap_first_free_s st (int n) = Some (-1)"
  proof
    assume r: "pmmngr_alloc_blocks st (int n) = Some (0, st)"
    show "pmmngr_get_free_block_count st \<le> 0 \<or> mmap_first_free_s st (int n) = Some (-1)"
    proof (rule ccontr)
      assume nn: "\<not> ?thesis"
      then obtain k where k: "mmap_first_free_s st (int n) = Some (int k)" "least_run (memory_map st) n k"
        "k + n \<le> pmm_capacity st"
        using spec unfolding mmap_first_free_s_def c by blast
      have "k \<noteq> 0" using k(2) assms by (auto simp: least_run_def is_run_def pmm_inv_def)
      moreover have "k < 2 ^ 20" using k(3) assms(2) pmm_capacity_small [OF assms(1)] by simp
      ultimately have "word_of_int (int k * 4096) \<noteq> (0 :: u32)" using hit by (simp add: frame_addr_def)
      with nn k(1) r show False
        by (auto simp: pmmngr_alloc_blocks_def bind_Some_iff)
    qed
  qed (auto simp: pmmngr_alloc_blocks_def)
  from spec have "mmap_first_free_s st (int n) = Some (-1) \<longleftrightarrow>
      (\<forall>k. k + n \<le> pmm_capacity st \<longrightarrow> \<not> is_run (memory_map st) n k)"
    unfolding mmap_first_free_s_def c by (auto simp: least_run_def)
  with null show ?thesis by simp
qed

theorem pmm_alloc_fails_iff_witness:
  "pmmngr_alloc_blocks pmm_sample 60 = Some (0, pmm_sample) \<longleftrightarrow>
    pmmngr_get_free_block_count pmm_sample \<le> 0 \<or>
    (\<forall>k. k + 60 \<le> pmm_capacity pmm_sample \<longrightarrow> \<not> is_run (memory_map pmm_sample) 60 k)"
  using pmm_alloc_fails_iff [OF pmm_sample_inv, of 60] by simp

text \<open>
  Freeing the run that an allocation just returned gives back the same set of occupied
  frames and the same counter.
\<close>

theorem pmm_alloc_free_roundtrip:
  assumes "pmm_inv st" and "0 < n" and "pmmngr_alloc_blocks st (int n) = Some (a, st')" and "a \<noteq> 0"
  shows "\<exists>st''. pmmngr_free_blocks st' a (int n) = Some st'' \<and>
    frames_used st'' = frames_used st \<and> used_blocks st'' = used_blocks st"
  by (rule pm.alloc_free [OF assms])

theorem pmm_alloc_free_roundtrip_witness:
  "\<exists>st''. pmmngr_free_blocks (pmm_sample\<lparr>memory_map := [0xf3, 0], used_blocks := 6\<rparr>) 0x5000 3 = Some st'' \<and>
    frames_used st'' = frames_used pmm_sample \<and> used_blocks st'' = 3"
  using pmm_alloc_free_roundtrip [OF pmm_sample_inv _ pmm_sample_alloc]
  by (simp add: pmm_sample_def)

text \<open>
  C5: whatever sequence of allocations and frees of its own runs a client of the frame
  allocator performs, no access leaves the bitmap and the live runs stay pairwise disjoint,
  occupied and inside the managed memory.
\<close>

theorem pmm_client_safe:
  assumes "pmm_inv st"
  shows "\<exists>st' live.
    client_run pmmngr_alloc_blocks pmmngr_free_blocks frame_addr frame_index xs (st, []) = Some (st', live) \<and>
    pmm_inv st' \<and> disjoint_runs live \<and>
    (\<forall>r \<in> set live. blocks r \<subseteq> frames_used st' \<and> fst r + snd r \<le> pmm_capacity st')"
  by (rule pm.client_safe [OF assms])

theorem pmm_client_safe_witness:
  "\<exists>st' live. client_run pmmngr_alloc_blocks pmmngr_free_blocks frame_addr frame_index
      [Alloc 3, Alloc 1, Free 1, Alloc 2] (pmm_sample, []) = Some (st', live) \<and> disjoint_runs live"
  using pmm_client_safe [OF pmm_sample_inv, of "[Alloc 3, Alloc 1, Free 1, Alloc 2]"] by blast

section \<open>Initialisation\<close>

text \<open>
  After \<^verbatim>\<open>pmmngr_init\<close> with \<open>m\<close> KiB of memory the manager has \<open>m / 4\<close> frames,
  all counted as used, and every frame of the bytes it fills is marked occupied.
\<close>

theorem pmm_init_all_used:
  assumes "mem < 2 ^ 21" and "mem div 32 \<le> 4 * length bm"
  shows "\<exists>st. pmmngr_init (of_nat mem) bm = Some st \<and> max_blocks st = of_nat (mem div 4) \<and>
    used_blocks st = max_blocks st \<and> length (memory_map st) = length bm \<and>
    (\<forall>k < 8 * (mem div 32). occ (memory_map st) k)"
proof -
  have s: "sint (of_nat mem * 1024 :: u32) = int (mem * 1024)"
    using sint_of_nat [of "mem * 1024"] assms(1) by simp
  have c: "cdiv (int (mem * 1024)) 4096 = int (mem div 4)"
    by (simp add: zdiv_int div_mult2_eq [of "mem * 1024" 1024 4, simplified])
  have n: "nat (int (mem div 4) div 8) = mem div 32"
    by (simp add: nat_div_distrib div_mult2_eq [of mem 4 8, simplified])
  have "\<exists>bm'. memset_bytes bm 0xff 0 (mem div 32) = Some bm'"
    by (rule memset_bytes_Some) (use assms(2) in simp)
  then obtain bm' where
    m: "memset_bytes bm 0xff 0 (mem div 32) = Some bm'" by blast
  have "bit (0xff :: u8) j" if "j < 8" for j
  proof -
    have e: "(0xff :: u8) = mask 8" by (simp add: mask_eq_exp_minus_1)
    show ?thesis using that unfolding e by (simp add: bit_mask_iff)
  qed
  with memset_bytes_spec [OF m] have "length bm' = length bm \<and> (\<forall>k < 8 * (mem div 32). occ bm' k)"
    using assms(2) by (auto simp: nbits_def div_less_iff_less_mult mult.commute)
  with m show ?thesis by (simp add: pmmngr_init_def s c n Let_def del: of_nat_mult)
qed

theorem pmm_init_all_used_witness:
  "\<exists>st. pmmngr_init 256 [0, 0] = Some st \<and> max_blocks st = 64 \<and>
    (\<forall>k < 64. occ (memory_map st) k)"
  using pmm_init_all_used [of 256 "[0, 0]"] by auto

text \<open>
  \<^verbatim>\<open>pmmngr_init_region\<close> frees exactly the frames from the base rounded down over the
  size rounded up, keeps frame 0 occupied, and establishes the invariant of the manager.
\<close>

theorem pmm_init_region_frees:
  assumes "unat (max_blocks st) \<le> 2 ^ 20" and "unat (max_blocks st) div 32 \<le> length (memory_map st)"
    and "frame_index base div 8 < unat (max_blocks st) div 8"
    and "frame_index base + unat (round_up_blocks sz div 4096) \<le> nbits (memory_map st)"
    and "0 < length (memory_map st)"
  shows "\<exists>st'. pmmngr_init_region st base sz = Some st' \<and> pmm_inv st' \<and>
    (\<forall>k < nbits (memory_map st). occ (memory_map st') k \<longleftrightarrow>
       k = 0 \<or> (occ (memory_map st) k \<and>
         k \<notin> blocks (frame_index base, unat (round_up_blocks sz div 4096)))) \<and>
    used_blocks st' = used_blocks st - round_up_blocks sz div 4096"
proof -
  let ?n = "unat (round_up_blocks sz div 4096)" and ?k = "frame_index base"
  from release_run_Some [OF assms(4)] obtain m u where
    r: "release_run (memory_map st) (used_blocks st) ?k ?n = Some (m, u)" by (metis surj_pair)
  note sp = release_run_spec [OF r]
  then have nb: "nbits m = nbits (memory_map st)" by (simp add: nbits_def)
  have "0 < nbits m" using assms(5) by (simp only: nb) (simp add: nbits_def)
  from bm_set_Some [OF this] obtain m' where m': "bm_set m 0 = Some m'" ..
  note sp' = bm_set_spec [OF m']
  have "sint (max_blocks st) = int (unat (max_blocks st))"
    using assms(1) by (intro small_sint) simp
  then have g: "\<not> int (?k div 8) \<ge> cdiv (pmmngr_get_block_count st) 8"
  proof -
    have "int (?k div 8) < int (unat (max_blocks st) div 8)"
      using assms(3) by (simp only: of_nat_less_iff)
    then show ?thesis using \<open>sint (max_blocks st) = _\<close>
      by (simp add: pmmngr_get_block_count_def zdiv_int not_le)
  qed
  let ?st = "st\<lparr>used_blocks := u, memory_map := m'\<rparr>"
  have run: "pmmngr_init_region st base sz = Some ?st"
    using g r m' by (simp add: pmmngr_init_region_def frame_index_def mmap_set_def Let_def)
  moreover have "pmm_inv ?st" using assms(1,2,5) sp sp' nb by (simp add: pmm_inv_def nbits_def)
  moreover have "occ m' k \<longleftrightarrow> k = 0 \<or> (occ (memory_map st) k \<and> k \<notin> blocks (?k, ?n))"
    if "k < nbits (memory_map st)" for k
    using that sp sp' nb by (auto simp: blocks_def)
  ultimately show ?thesis using sp by auto
qed

theorem pmm_init_region_frees_witness:
  "\<exists>st'. pmmngr_init_region (pmm_sample\<lparr>used_blocks := 64, memory_map := [0xffffffff, 0xffffffff]\<rparr>)
      0x8000 0x1800 = Some st' \<and> pmm_inv st' \<and> used_blocks st' = 62"
  using pmm_init_region_frees [of "pmm_sample\<lparr>used_blocks := 64, memory_map := [0xffffffff, 0xffffffff]\<rparr>"
      "0x8000" "0x1800"]
  by (auto simp: pmm_sample_def nbits_def frame_index_def round_up_blocks_def)

text \<open>
  Two consequences that the code's comments do not announce.  Freeing a region that starts at
  address 0 counts frame 0 as free although \<^verbatim>\<open>mmap_set(0)\<close> marks it occupied again, so the
  counter ends one below the number of occupied frames.  And an entry with an unknown type,
  which the comment calls reserved, gets type 1, the type whose regions are made available.
\<close>

lemma pmm_region_zero_counter:
  "pmmngr_init_region \<lparr>memory_size = 256, used_blocks = 64, max_blocks = 64,
       memory_map = [0xffffffff, 0xffffffff]\<rparr> 0 0x40000 =
     Some \<lparr>memory_size = 256, used_blocks = 0, max_blocks = 64, memory_map = [1, 0]\<rparr>"
  by code_simp

lemma pmm_unknown_type_available:
  "pmmngr_init_memory_regions
     [\<lparr>startLo = 0, startHi = 0, sizeLo = 0x1000, sizeHi = 0, region_type = 2, acpi_3_0 = 0\<rparr>,
      \<lparr>startLo = 0x8000, startHi = 0, sizeLo = 0x1000, sizeHi = 0, region_type = 9, acpi_3_0 = 0\<rparr>,
      \<lparr>startLo = 0, startHi = 0, sizeLo = 0, sizeHi = 0, region_type = 0, acpi_3_0 = 0\<rparr>]
     \<lparr>memory_size = 256, used_blocks = 64, max_blocks = 64, memory_map = [0xffffffff, 0xffffffff]\<rparr> =
   Some
     ([\<lparr>startLo = 0, startHi = 0, sizeLo = 0x1000, sizeHi = 0, region_type = 2, acpi_3_0 = 0\<rparr>,
      \<lparr>startLo = 0x8000, startHi = 0, sizeLo = 0x1000, sizeHi = 0, region_type = 1, acpi_3_0 = 0\<rparr>,
      \<lparr>startLo = 0, startHi = 0, sizeLo = 0, sizeHi = 0, region_type = 0, acpi_3_0 = 0\<rparr>],
      \<lparr>memory_size = 256, used_blocks = 63, max_blocks = 64, memory_map = [0xfffffeff, 0xffffffff]\<rparr>)"
  by code_simp

end
