(* ===== verification/Vmm.thy ===== *)
theory Vmm
  imports Pmm
begin

text \<open>
  The virtual memory manager: page-table entries (\<^verbatim>\<open>kernel/pte.c\<close>), page-directory entries
  (\<^verbatim>\<open>kernel/pde.c\<close>) and the two-level page tables of \<^verbatim>\<open>kernel/vmm.c\<close>.

  The physical memory that holds directories and tables is the store \<open>mem\<close>, a map from the
  address of a dword to its value; the code reaches it through the identity mapping of low
  memory.  A pointer to an entry is its address.  Reading or writing through the null pointer
  is \<open>None\<close>; the lookups of the code return null exactly when their table is null.  The
  control registers that \<^verbatim>\<open>pmmngr_load_PDBR\<close> and \<^verbatim>\<open>pmmngr_paging_enable\<close> write are the
  fields \<open>pdbr\<close> and \<open>paging\<close>.
\<close>

record vmm =
  phys :: pmm
  mem :: "u32 \<Rightarrow> u32"
  cur_directory :: u32
  pdbr :: u32
  paging :: bool

section \<open>Page-table entries and page-directory entries\<close>

abbreviation I86_PRESENT :: u32 where "I86_PRESENT \<equiv> 1"
abbreviation I86_WRITABLE :: u32 where "I86_WRITABLE \<equiv> 2"
abbreviation I86_USER :: u32 where "I86_USER \<equiv> 4"
abbreviation I86_PTE_PAT :: u32 where "I86_PTE_PAT \<equiv> 0x80"
abbreviation I86_PDE_4MB :: u32 where "I86_PDE_4MB \<equiv> 0x80"
abbreviation I86_CPU_GLOBAL :: u32 where "I86_CPU_GLOBAL \<equiv> 0x100"
abbreviation I86_LV4_GLOBAL :: u32 where "I86_LV4_GLOBAL \<equiv> 0x200"
abbreviation I86_FRAME :: u32 where "I86_FRAME \<equiv> 0xFFFFF000"

definition pt_entry_add_attrib :: "u32 \<Rightarrow> u32 \<Rightarrow> u32" where
  "pt_entry_add_attrib e attrib = e OR attrib"

definition pt_entry_del_attrib :: "u32 \<Rightarrow> u32 \<Rightarrow> u32" where
  "pt_entry_del_attrib e attrib = e AND NOT attrib"

definition pt_entry_set_frame :: "u32 \<Rightarrow> u32 \<Rightarrow> u32" where
  "pt_entry_set_frame e p = pt_entry_del_attrib e I86_FRAME OR (p AND I86_FRAME)"

definition pt_entry_is_present :: "u32 \<Rightarrow> bool" where
  "pt_entry_is_present e = flag e I86_PRESENT"

definition pt_entry_is_writable :: "u32 \<Rightarrow> bool" where
  "pt_entry_is_writable e = flag e I86_WRITABLE"

definition pt_entry_pfn :: "u32 \<Rightarrow> u32" where
  "pt_entry_pfn e = e AND I86_FRAME"

definition pd_entry_add_attrib :: "u32 \<Rightarrow> u32 \<Rightarrow> u32" where
  "pd_entry_add_attrib e attrib = e OR attrib"

definition pd_entry_del_attrib :: "u32 \<Rightarrow> u32 \<Rightarrow> u32" where
  "pd_entry_del_attrib e attrib = e AND NOT attrib"

definition pd_entry_set_frame :: "u32 \<Rightarrow> u32 \<Rightarrow> u32" where
  "pd_entry_set_frame e p = pd_entry_del_attrib e I86_FRAME OR (p AND I86_FRAME)"

definition pd_entry_is_present :: "u32 \<Rightarrow> bool" where
  "pd_entry_is_present e = flag e I86_PRESENT"

definition pd_entry_is_user :: "u32 \<Rightarrow> bool" where
  "pd_entry_is_user e = flag e I86_USER"

definition pd_entry_is_4mb :: "u32 \<Rightarrow> bool" where
  "pd_entry_is_4mb e = flag e I86_PDE_4MB"

definition pd_entry_is_writable :: "u32 \<Rightarrow> bool" where
  "pd_entry_is_writable e = flag e I86_WRITABLE"

definition pd_entry_pfn :: "u32 \<Rightarrow> u32" where
  "pd_entry_pfn e = e AND I86_FRAME"

definition pd_entry_enable_global :: "u32 \<Rightarrow> u32" where
  "pd_entry_enable_global e =
     pd_entry_add_attrib (pd_entry_add_attrib e I86_CPU_GLOBAL) I86_LV4_GLOBAL"

section \<open>The store\<close>

definition load :: "vmm \<Rightarrow> u32 \<Rightarrow> u32 option" where
  "load st a = (if a = 0 then None else Some (mem st a))"

definition modify :: "vmm \<Rightarrow> u32 \<Rightarrow> (u32 \<Rightarrow> u32) \<Rightarrow> vmm option" where
  "modify st a f = (if a = 0 then None else Some (st\<lparr>mem := (mem st)(a := f (mem st a))\<rparr>))"

text \<open>\<^verbatim>\<open>memset(p, 0, 1024*4)\<close> on the dwords of the 4 KiB from \<open>p\<close>.\<close>

definition clear_4k :: "vmm \<Rightarrow> u32 \<Rightarrow> vmm" where
  "clear_4k st p = st\<lparr>mem := (\<lambda>a. if a - p < 4096 then 0 else mem st a)\<rparr>"

section \<open>Directory and table lookup\<close>

definition PAGE_DIRECTORY_INDEX :: "u32 \<Rightarrow> u32" where
  "PAGE_DIRECTORY_INDEX x = drop_bit 22 x AND 0x3ff"

definition PAGE_TABLE_INDEX :: "u32 \<Rightarrow> u32" where
  "PAGE_TABLE_INDEX x = drop_bit 12 x AND 0x3ff"

definition FRAME_OFFSET :: "u32 \<Rightarrow> u32" where
  "FRAME_OFFSET x = x AND 0xfff"

definition vmmngr_ptable_lookup_entry :: "u32 \<Rightarrow> u32 \<Rightarrow> u32" where
  "vmmngr_ptable_lookup_entry p addr = (if p \<noteq> 0 then p + 4 * PAGE_TABLE_INDEX addr else 0)"

definition vmmngr_pdirectory_lookup_entry :: "u32 \<Rightarrow> u32 \<Rightarrow> u32" where
  "vmmngr_pdirectory_lookup_entry p addr = (if p \<noteq> 0 then p + 4 * PAGE_DIRECTORY_INDEX addr else 0)"

definition vmmngr_pdirectory_clear :: "vmm \<Rightarrow> u32 \<Rightarrow> vmm" where
  "vmmngr_pdirectory_clear st dir = clear_4k st dir"

definition vmmngr_ptable_clear :: "vmm \<Rightarrow> u32 \<Rightarrow> vmm" where
  "vmmngr_ptable_clear st table = clear_4k st table"

section \<open>Pages\<close>

definition vmmngr_alloc_page :: "vmm \<Rightarrow> u32 \<Rightarrow> u32 \<Rightarrow> (bool \<times> vmm) option" where
  "vmmngr_alloc_page st e pte_flags = do {
     (p, pm) \<leftarrow> pmmngr_alloc_block (phys st);
     let st = st\<lparr>phys := pm\<rparr>;
     if p = 0 then Some (False, st)
     else do {
       st \<leftarrow> modify st e (\<lambda>x. pt_entry_set_frame x p);
       st \<leftarrow> modify st e (\<lambda>x. pt_entry_add_attrib x I86_PRESENT);
       st \<leftarrow> modify st e (\<lambda>x. pt_entry_add_attrib x pte_flags);
       Some (True, st) } }"

definition vmmngr_free_page :: "vmm \<Rightarrow> u32 \<Rightarrow> vmm option" where
  "vmmngr_free_page st e = do {
     x \<leftarrow> load st e;
     let p = pt_entry_pfn x;
     st \<leftarrow> (if p \<noteq> 0 then do { pm \<leftarrow> pmmngr_free_block (phys st) p; Some (st\<lparr>phys := pm\<rparr>) }
           else Some st);
     modify st e (\<lambda>x. pt_entry_del_attrib x I86_PRESENT) }"

section \<open>Directories\<close>

definition vmmngr_switch_pdirectory :: "vmm \<Rightarrow> u32 \<Rightarrow> bool \<times> vmm" where
  "vmmngr_switch_pdirectory st dir =
     (if dir = 0 then (False, st) else (True, st\<lparr>cur_directory := dir, pdbr := dir\<rparr>))"

definition vmmngr_set_pdirectory_ptr :: "vmm \<Rightarrow> u32 \<Rightarrow> vmm" where
  "vmmngr_set_pdirectory_ptr st dir = st\<lparr>cur_directory := dir\<rparr>"

definition vmmngr_get_directory :: "vmm \<Rightarrow> u32" where
  "vmmngr_get_directory st = cur_directory st"

definition vmmngr_create_pdir :: "vmm \<Rightarrow> (u32 \<times> vmm) option" where
  "vmmngr_create_pdir st = do {
     (dir, pm) \<leftarrow> pmmngr_alloc_block (phys st);
     let st = st\<lparr>phys := pm\<rparr>;
     if dir = 0 then Some (0, st) else Some (dir, vmmngr_pdirectory_clear st dir) }"

function free_pdir_loop :: "vmm \<Rightarrow> u32 \<Rightarrow> nat \<Rightarrow> vmm option" where
  "free_pdir_loop st pdir i =
     (if i < 1024 then do {
        e \<leftarrow> load st (pdir + 4 * of_nat i);
        st \<leftarrow> (if pd_entry_is_present e
              then do { pm \<leftarrow> pmmngr_free_block (phys st) (pd_entry_pfn e); Some (st\<lparr>phys := pm\<rparr>) }
              else Some st);
        free_pdir_loop st pdir (Suc i) }
      else Some st)"
  by pat_completeness auto
termination by (relation "measure (\<lambda>(st, pdir, i). 1024 - i)") auto

declare free_pdir_loop.simps [simp del]

definition vmmngr_free_pdir :: "vmm \<Rightarrow> u32 \<Rightarrow> vmm option" where
  "vmmngr_free_pdir st pdir = do {
     st \<leftarrow> free_pdir_loop st pdir 0;
     pm \<leftarrow> pmmngr_free_block (phys st) pdir;
     Some (st\<lparr>phys := pm\<rparr>) }"

section \<open>Translation\<close>

definition vmmngr_virt2phys_pdir :: "vmm \<Rightarrow> u32 \<Rightarrow> u32 \<Rightarrow> u32 option" where
  "vmmngr_virt2phys_pdir st pdir virt = do {
     e \<leftarrow> load st (vmmngr_pdirectory_lookup_entry pdir virt);
     if \<not> pd_entry_is_present e then Some 0
     else do {
       page \<leftarrow> load st (vmmngr_ptable_lookup_entry (pd_entry_pfn e) virt);
       if \<not> pt_entry_is_present page then Some 0
       else Some (pt_entry_pfn page + FRAME_OFFSET virt) } }"

definition vmmngr_virt2phys :: "vmm \<Rightarrow> u32 \<Rightarrow> u32 option" where
  "vmmngr_virt2phys st virt = do {
     e \<leftarrow> load st (vmmngr_pdirectory_lookup_entry (vmmngr_get_directory st) virt);
     if \<not> pd_entry_is_present e then Some 0
     else do {
       page \<leftarrow> load st (vmmngr_ptable_lookup_entry (pd_entry_pfn e) virt);
       if \<not> pt_entry_is_present page then Some 0
       else Some (pt_entry_pfn page + FRAME_OFFSET virt) } }"

definition vmmngr_check_virt_present :: "vmm \<Rightarrow> u32 \<Rightarrow> u32 \<Rightarrow> bool option" where
  "vmmngr_check_virt_present st dir virt = do {
     e \<leftarrow> load st (vmmngr_pdirectory_lookup_entry dir virt);
     if \<not> pd_entry_is_present e then Some False
     else do {
       page \<leftarrow> load st (vmmngr_ptable_lookup_entry (pd_entry_pfn e) virt);
       Some (pt_entry_is_present page) } }"

section \<open>Mapping\<close>

text \<open>
  The first half that \<^verbatim>\<open>vmmngr_alloc_virt\<close> and \<^verbatim>\<open>vmmngr_map_page\<close> share word for word: find
  the directory entry and, when it is not present, allocate and clear a page table for it.
  The flag is \<open>False\<close> when the code returns early because no frame is left.
\<close>

definition ensure_table :: "vmm \<Rightarrow> u32 \<Rightarrow> u32 \<Rightarrow> (bool \<times> vmm) option" where
  "ensure_table st dir virt = do {
     let e = vmmngr_pdirectory_lookup_entry dir virt;
     x \<leftarrow> load st e;
     if \<not> pd_entry_is_present x then do {
       (table, pm) \<leftarrow> pmmngr_alloc_block (phys st);
       let st = st\<lparr>phys := pm\<rparr>;
       if table = 0 then Some (False, st)
       else do {
         let st = vmmngr_ptable_clear st table;
         st \<leftarrow> modify st e (\<lambda>x. pd_entry_add_attrib x I86_PRESENT);
         st \<leftarrow> modify st e (\<lambda>x. pd_entry_set_frame x table);
         Some (True, st) } }
     else Some (True, st) }"

definition vmmngr_alloc_virt :: "vmm \<Rightarrow> u32 \<Rightarrow> u32 \<Rightarrow> u32 \<Rightarrow> u32 \<Rightarrow> vmm option" where
  "vmmngr_alloc_virt st dir virt pde_flags pte_flags = do {
     (ok, st) \<leftarrow> ensure_table st dir virt;
     if \<not> ok then Some st
     else do {
       let e = vmmngr_pdirectory_lookup_entry dir virt;
       st \<leftarrow> modify st e (\<lambda>x. pd_entry_add_attrib x pde_flags);
       x \<leftarrow> load st e;
       let page = vmmngr_ptable_lookup_entry (pd_entry_pfn x) virt;
       y \<leftarrow> load st page;
       if \<not> pt_entry_is_present y then do {
         (ok, st) \<leftarrow> vmmngr_alloc_page st page pte_flags;
         Some st }
       else Some st } }"

definition vmmngr_map_page :: "vmm \<Rightarrow> u32 \<Rightarrow> u32 \<Rightarrow> u32 \<Rightarrow> u32 \<Rightarrow> u32 \<Rightarrow> vmm option" where
  "vmmngr_map_page st dir p virt pde_flags pte_flags = do {
     (ok, st) \<leftarrow> ensure_table st dir virt;
     if \<not> ok then Some st
     else do {
       let e = vmmngr_pdirectory_lookup_entry dir virt;
       st \<leftarrow> modify st e (\<lambda>x. pd_entry_add_attrib x pde_flags);
       x \<leftarrow> load st e;
       let page = vmmngr_ptable_lookup_entry (pd_entry_pfn x) virt;
       st \<leftarrow> modify st page (\<lambda>y. pt_entry_set_frame y p);
       st \<leftarrow> modify st page (\<lambda>y. pt_entry_add_attrib y pte_flags);
       modify st page (\<lambda>y. pt_entry_add_attrib y I86_PRESENT) } }"

definition vmmngr_free_virt :: "vmm \<Rightarrow> u32 \<Rightarrow> u32 \<Rightarrow> vmm option" where
  "vmmngr_free_virt st dir virt = do {
     x \<leftarrow> load st (vmmngr_pdirectory_lookup_entry dir virt);
     if \<not> pd_entry_is_present x then Some st
     else do {
       let page = vmmngr_ptable_lookup_entry (pd_entry_pfn x) virt;
       y \<leftarrow> load st page;
       if pt_entry_is_present y then vmmngr_free_page st page else Some st } }"

definition vmmngr_unmap_virt :: "vmm \<Rightarrow> u32 \<Rightarrow> u32 \<Rightarrow> vmm option" where
  "vmmngr_unmap_virt st dir virt = do {
     x \<leftarrow> load st (vmmngr_pdirectory_lookup_entry dir virt);
     if \<not> pd_entry_is_present x then Some st
     else do {
       let page = vmmngr_ptable_lookup_entry (pd_entry_pfn x) virt;
       st \<leftarrow> modify st page (\<lambda>y. pt_entry_set_frame y 0);
       modify st page (\<lambda>y. pt_entry_del_attrib y I86_PRESENT) } }"

definition vmmngr_mmap_virt2virt ::
  "vmm \<Rightarrow> u32 \<Rightarrow> u32 \<Rightarrow> u32 \<Rightarrow> u32 \<Rightarrow> u32 \<Rightarrow> u32 \<Rightarrow> vmm option" where
  "vmmngr_mmap_virt2virt st orig new orig_virt new_virt pde_flags pte_flags = do {
     p \<leftarrow> vmmngr_virt2phys_pdir st orig orig_virt;
     vmmngr_map_page st new p new_virt pde_flags pte_flags }"

fun mmap_loop :: "vmm \<Rightarrow> u32 \<Rightarrow> u32 \<Rightarrow> u32 \<Rightarrow> nat \<Rightarrow> u32 \<Rightarrow> u32 \<Rightarrow> vmm option" where
  "mmap_loop st dir frame virt 0 pde_flags pte_flags = Some st"
| "mmap_loop st dir frame virt (Suc n) pde_flags pte_flags = do {
     st \<leftarrow> vmmngr_map_page st dir frame virt pde_flags pte_flags;
     mmap_loop st dir (frame + 4096) (virt + 4096) n pde_flags pte_flags }"

definition vmmngr_mmap :: "vmm \<Rightarrow> u32 \<Rightarrow> u32 \<Rightarrow> u32 \<Rightarrow> u32 \<Rightarrow> u32 \<Rightarrow> u32 \<Rightarrow> vmm option" where
  "vmmngr_mmap st dir frame_start virt_start rng pde_flags pte_flags =
     mmap_loop st dir frame_start virt_start (unat rng) pde_flags pte_flags"

text \<open>The frame buffer has 1280 x 1024 pixels of 3 bytes, plus 100 pages.\<close>

definition vmmngr_initialize :: "vmm \<Rightarrow> vmm option" where
  "vmmngr_initialize st = do {
     (dir, st) \<leftarrow> vmmngr_create_pdir st;
     if dir = 0 then Some st
     else do {
       let st = st\<lparr>cur_directory := dir\<rparr>;
       st \<leftarrow> vmmngr_mmap st (vmmngr_get_directory st) 0x1000 0x1000 1023 I86_WRITABLE I86_WRITABLE;
       st \<leftarrow> vmmngr_mmap st (vmmngr_get_directory st) 0x100000 0xC0000000 (1024 * 4)
              I86_WRITABLE I86_WRITABLE;
       st \<leftarrow> vmmngr_mmap st (vmmngr_get_directory st) 0xFD000000 0xCD000000 (1280 * 1024 * 3 div 4096 + 100)
              I86_WRITABLE (I86_WRITABLE OR I86_PTE_PAT);
       let st = snd (vmmngr_switch_pdirectory st dir);
       Some (st\<lparr>paging := True\<rparr>) } }"

section \<open>Address arithmetic\<close>

definition aligned :: "u32 \<Rightarrow> bool" where
  "aligned p \<longleftrightarrow> p AND 0xfff = 0"

lemma mask12: "(0xfff :: u32) = mask 12"
  by (simp add: mask_eq_exp_minus_1)

lemma mask10: "(0x3ff :: u32) = mask 10"
  by (simp add: mask_eq_exp_minus_1)

lemma frame_mask: "(I86_FRAME :: u32) = NOT (mask 12)"
  by (simp add: mask_eq_exp_minus_1 not_eq_complement)

lemma bit_frame: "bit I86_FRAME n \<longleftrightarrow> 12 \<le> n \<and> n < 32"
  unfolding frame_mask by (auto simp: bit_simps)

lemma bit_index:
  "bit (PAGE_DIRECTORY_INDEX v) n \<longleftrightarrow> n < 10 \<and> bit v (22 + n)"
  "bit (PAGE_TABLE_INDEX v) n \<longleftrightarrow> n < 10 \<and> bit v (12 + n)"
  unfolding PAGE_DIRECTORY_INDEX_def PAGE_TABLE_INDEX_def mask10
  by (auto simp: bit_simps)

lemma aligned_bit: "aligned p \<Longrightarrow> n < 12 \<Longrightarrow> \<not> bit p n"
  unfolding aligned_def mask12 by (drule arg_cong [where f = "\<lambda>w. bit w n"]) (simp add: bit_simps)

lemma aligned_bitD: "aligned p \<Longrightarrow> bit p n \<Longrightarrow> 12 \<le> n"
  using aligned_bit [of p n] by (cases "n < 12") auto

lemma alignedI: "(\<And>n. n < 12 \<Longrightarrow> \<not> bit p n) \<Longrightarrow> aligned p"
  unfolding aligned_def mask12 by (rule bit_word_eqI) (auto simp: bit_simps)

lemma aligned_frame [simp]: "aligned (p AND I86_FRAME)"
  unfolding frame_mask by (rule alignedI) (simp add: bit_simps)

lemma frame_of_aligned: "aligned p \<Longrightarrow> p AND I86_FRAME = p"
  unfolding frame_mask by (rule bit_word_eqI) (auto simp: bit_simps dest: aligned_bit)

definition pde_addr :: "u32 \<Rightarrow> u32 \<Rightarrow> u32" where
  "pde_addr dir v = dir + 4 * PAGE_DIRECTORY_INDEX v"

definition pte_addr :: "u32 \<Rightarrow> u32 \<Rightarrow> u32" where
  "pte_addr t v = t + 4 * PAGE_TABLE_INDEX v"

lemma plus_entry:
  assumes "aligned p" and "\<And>n. 10 \<le> n \<Longrightarrow> \<not> bit i n"
  shows "p + 4 * i = p OR push_bit 2 i"
proof -
  have "4 * i = push_bit 2 i" by (simp add: push_bit_eq_mult)
  moreover have "p + push_bit 2 i = p OR push_bit 2 i"
  proof (rule disjunctive_add_eq_or, rule bit_word_eqI)
    fix n
    assume "n < LENGTH(32)"
    show "bit (p AND push_bit 2 i) n = bit 0 n"
      using aligned_bit [OF assms(1), of n] assms(2) [of "n - 2"]
      by (cases "n < 12") (auto simp: bit_simps)
  qed
  ultimately show ?thesis by simp
qed

lemma pde_addr_or: "aligned dir \<Longrightarrow> pde_addr dir v = dir OR push_bit 2 (PAGE_DIRECTORY_INDEX v)"
  unfolding pde_addr_def by (rule plus_entry) (simp_all add: bit_index)

lemma pte_addr_or: "aligned t \<Longrightarrow> pte_addr t v = t OR push_bit 2 (PAGE_TABLE_INDEX v)"
  unfolding pte_addr_def by (rule plus_entry) (simp_all add: bit_index)

lemma entry_frame:
  assumes "aligned p" and "\<And>n. 10 \<le> n \<Longrightarrow> \<not> bit i n"
  shows "(p OR push_bit 2 i) AND I86_FRAME = p"
  unfolding frame_mask
proof (rule bit_word_eqI)
  fix n
  assume "n < LENGTH(32)"
  then show "bit ((p OR push_bit 2 i) AND NOT (mask 12)) n = bit p n"
    using aligned_bit [OF assms(1), of n] assms(2) [of "n - 2"]
    by (cases "n < 12") (auto simp: bit_simps)
qed

lemma pde_addr_frame [simp]: "aligned dir \<Longrightarrow> pde_addr dir v AND I86_FRAME = dir"
  unfolding pde_addr_or by (rule entry_frame) (simp_all add: bit_index)

lemma pte_addr_frame [simp]: "aligned t \<Longrightarrow> pte_addr t v AND I86_FRAME = t"
  unfolding pte_addr_or by (rule entry_frame) (simp_all add: bit_index)

lemma index_inj:
  assumes "4 * i = 4 * (j :: u32)" and "\<And>n. 10 \<le> n \<Longrightarrow> \<not> bit i n" and "\<And>n. 10 \<le> n \<Longrightarrow> \<not> bit j n"
  shows "i = j"
proof (rule bit_word_eqI)
  fix n
  have "push_bit 2 i = push_bit 2 j" using assms(1) by (simp add: push_bit_eq_mult mult.commute)
  then have "bit (push_bit 2 i) (n + 2) = bit (push_bit 2 j) (n + 2)" by simp
  then show "bit i n = bit j n"
    using assms(2,3) [of n] by (cases "n < 10") (auto simp: bit_simps)
qed

lemma pde_addr_inj [simp]: "pde_addr dir v = pde_addr dir w \<longleftrightarrow> PAGE_DIRECTORY_INDEX v = PAGE_DIRECTORY_INDEX w"
  unfolding pde_addr_def by (auto intro: index_inj simp: bit_index)

lemma pte_addr_inj [simp]: "pte_addr t v = pte_addr t w \<longleftrightarrow> PAGE_TABLE_INDEX v = PAGE_TABLE_INDEX w"
  unfolding pte_addr_def by (auto intro: index_inj simp: bit_index)

lemma pde_pte_neq: "aligned dir \<Longrightarrow> aligned t \<Longrightarrow> dir \<noteq> t \<Longrightarrow> pde_addr dir v \<noteq> pte_addr t w"
  using pde_addr_frame [of dir v] pte_addr_frame [of t w] by metis

lemma pte_pte_neq: "aligned t \<Longrightarrow> aligned t' \<Longrightarrow> t \<noteq> t' \<Longrightarrow> pte_addr t v \<noteq> pte_addr t' w"
  using pte_addr_frame [of t v] pte_addr_frame [of t' w] by metis

lemma addr_nonzero [simp]:
  "aligned dir \<Longrightarrow> dir \<noteq> 0 \<Longrightarrow> pde_addr dir v \<noteq> 0"
  "aligned dir \<Longrightarrow> dir \<noteq> 0 \<Longrightarrow> pte_addr dir v \<noteq> 0"
  using pde_addr_frame [of dir v] pte_addr_frame [of dir v] by (metis and_zero_eq zero_and_eq)+

lemma same_page:
  "v AND I86_FRAME = w AND I86_FRAME \<longleftrightarrow>
     PAGE_DIRECTORY_INDEX v = PAGE_DIRECTORY_INDEX w \<and> PAGE_TABLE_INDEX v = PAGE_TABLE_INDEX w"
proof
  assume e: "v AND I86_FRAME = w AND I86_FRAME"
  have b: "bit v n = bit w n" if "12 \<le> n" for n
    using arg_cong [OF e [unfolded frame_mask], of "\<lambda>x. bit x n"] that
    by (cases "n < 32") (auto simp: bit_simps dest: bit_imp_le_length)
  then show "PAGE_DIRECTORY_INDEX v = PAGE_DIRECTORY_INDEX w \<and> PAGE_TABLE_INDEX v = PAGE_TABLE_INDEX w"
    by (simp add: bit_eq_iff bit_index)
next
  assume "PAGE_DIRECTORY_INDEX v = PAGE_DIRECTORY_INDEX w \<and> PAGE_TABLE_INDEX v = PAGE_TABLE_INDEX w"
  then have e: "bit (PAGE_DIRECTORY_INDEX v) m = bit (PAGE_DIRECTORY_INDEX w) m"
    "bit (PAGE_TABLE_INDEX v) m = bit (PAGE_TABLE_INDEX w) m" for m by simp_all
  show "v AND I86_FRAME = w AND I86_FRAME" unfolding frame_mask
  proof (rule bit_word_eqI)
    fix n :: nat
    assume "n < LENGTH(32)"
    then show "bit (v AND NOT (mask 12)) n = bit (w AND NOT (mask 12)) n"
      using e(1) [of "n - 22"] e(2) [of "n - 12"] unfolding bit_index
      by (cases "n < 22") (auto simp: bit_simps)
  qed
qed

lemma in_4k: "aligned p \<Longrightarrow> a - p < 4096 \<longleftrightarrow> a AND I86_FRAME = p"
proof -
  assume p: "aligned p"
  have small: "x < 4096 \<longleftrightarrow> take_bit 12 x = x" for x :: u32
    using less_mask_eq [of x 12] and_mask_less_size [of 12 x]
    by (auto simp: take_bit_eq_mask word_size)
  have split: "aligned q \<Longrightarrow> q + take_bit 12 x = q OR take_bit 12 x" for q x :: u32
    by (rule disjunctive_add_eq_or, rule bit_word_eqI) (auto simp: bit_simps dest: aligned_bit)
  show ?thesis
  proof
    assume "a - p < 4096"
    then have "a = p OR take_bit 12 (a - p)" using split [OF p, of "a - p"] by (simp add: small)
    moreover have "(p OR take_bit 12 x) AND I86_FRAME = p" for x
      using p unfolding frame_mask by (intro bit_word_eqI) (auto simp: bit_simps dest: aligned_bit)
    ultimately show "a AND I86_FRAME = p" by metis
  next
    assume e: "a AND I86_FRAME = p"
    have "a = (a AND I86_FRAME) OR take_bit 12 a"
      unfolding frame_mask by (rule bit_word_eqI) (auto simp: bit_simps)
    then have "a = p + take_bit 12 a" using split [OF p, of a] e by simp
    then have "a - p = take_bit 12 a" by (metis add_diff_cancel_left')
    then show "a - p < 4096" by (simp add: small)
  qed
qed

section \<open>Entries\<close>

lemma present_bit:
  "pt_entry_is_present e \<longleftrightarrow> bit e 0" "pd_entry_is_present e \<longleftrightarrow> bit e 0"
  using flag_bit [of e 0] by (simp_all add: pt_entry_is_present_def pd_entry_is_present_def)

text \<open>The attribute arguments the callers pass have no bit in the frame part.\<close>

definition attrs :: "u32 \<Rightarrow> bool" where
  "attrs a \<longleftrightarrow> a AND I86_FRAME = 0"

lemma attrs_bit: "attrs a \<Longrightarrow> bit a n \<Longrightarrow> n < 12"
  unfolding attrs_def frame_mask
  by (drule arg_cong [where f = "\<lambda>w. bit w n"]) (auto simp: bit_simps dest: bit_imp_le_length)

lemma entry_simps [simp]:
  "pt_entry_pfn (pt_entry_set_frame e p) = p AND I86_FRAME"
  "pd_entry_pfn (pd_entry_set_frame e p) = p AND I86_FRAME"
  "attrs a \<Longrightarrow> pt_entry_pfn (pt_entry_add_attrib e a) = pt_entry_pfn e"
  "attrs a \<Longrightarrow> pd_entry_pfn (pd_entry_add_attrib e a) = pd_entry_pfn e"
  "attrs a \<Longrightarrow> pt_entry_pfn (pt_entry_del_attrib e a) = pt_entry_pfn e"
  "pt_entry_is_present (pt_entry_add_attrib e I86_PRESENT)"
  "pt_entry_is_present e \<Longrightarrow> pt_entry_is_present (pt_entry_add_attrib e a)"
  "pd_entry_is_present e \<Longrightarrow> pd_entry_is_present (pd_entry_add_attrib e a)"
  "pd_entry_is_present (pd_entry_add_attrib e I86_PRESENT)"
  "pt_entry_is_present (pt_entry_set_frame e p) = pt_entry_is_present e"
  "pd_entry_is_present (pd_entry_set_frame e p) = pd_entry_is_present e"
  "\<not> pt_entry_is_present (pt_entry_del_attrib e I86_PRESENT)"
  unfolding present_bit pt_entry_pfn_def pt_entry_set_frame_def pt_entry_add_attrib_def
    pt_entry_del_attrib_def pd_entry_pfn_def pd_entry_set_frame_def pd_entry_add_attrib_def
    pd_entry_del_attrib_def frame_mask
  by (auto intro!: bit_word_eqI simp: bit_simps dest: attrs_bit)

lemma attrs_consts [simp]: "attrs I86_PRESENT" "attrs I86_WRITABLE" "attrs I86_USER"
  "attrs (I86_WRITABLE OR I86_PTE_PAT)"
  by (simp_all add: attrs_def)

section \<open>Well-formed directories\<close>

text \<open>
  A frame in use by the tables: aligned, not null and marked occupied.  A directory is well
  formed when it and the tables its present entries name are such frames, all different.
\<close>

definition used_frame :: "vmm \<Rightarrow> u32 \<Rightarrow> bool" where
  "used_frame st p \<longleftrightarrow> p \<noteq> 0 \<and> aligned p \<and> frame_index p \<in> frames_used (phys st)"

definition table_present :: "vmm \<Rightarrow> u32 \<Rightarrow> u32 \<Rightarrow> bool" where
  "table_present st dir v \<longleftrightarrow> pd_entry_is_present (mem st (pde_addr dir v))"

definition table_of :: "vmm \<Rightarrow> u32 \<Rightarrow> u32 \<Rightarrow> u32" where
  "table_of st dir v = pd_entry_pfn (mem st (pde_addr dir v))"

definition pte_of :: "vmm \<Rightarrow> u32 \<Rightarrow> u32 \<Rightarrow> u32" where
  "pte_of st dir v = mem st (pte_addr (table_of st dir v) v)"

definition wf_dir :: "vmm \<Rightarrow> u32 \<Rightarrow> bool" where
  "wf_dir st dir \<longleftrightarrow> pmm_inv (phys st) \<and> used_frame st dir \<and>
     (\<forall>v. table_present st dir v \<longrightarrow> used_frame st (table_of st dir v) \<and> table_of st dir v \<noteq> dir) \<and>
     (\<forall>v w. table_present st dir v \<and> table_present st dir w \<and>
        PAGE_DIRECTORY_INDEX v \<noteq> PAGE_DIRECTORY_INDEX w \<longrightarrow> table_of st dir v \<noteq> table_of st dir w)"

definition mapped :: "vmm \<Rightarrow> u32 \<Rightarrow> u32 \<Rightarrow> bool" where
  "mapped st dir v \<longleftrightarrow> table_present st dir v \<and> pt_entry_is_present (pte_of st dir v)"

text \<open>The translation a directory stands for: 0 on an unmapped address.\<close>

definition translate :: "vmm \<Rightarrow> u32 \<Rightarrow> u32 \<Rightarrow> u32" where
  "translate st dir v =
     (if mapped st dir v then pt_entry_pfn (pte_of st dir v) + FRAME_OFFSET v else 0)"

lemma wf_dirD:
  assumes "wf_dir st dir"
  shows "pmm_inv (phys st)" "dir \<noteq> 0" "aligned dir" "frame_index dir \<in> frames_used (phys st)"
    "table_present st dir v \<Longrightarrow> table_of st dir v \<noteq> 0"
    "table_present st dir v \<Longrightarrow> aligned (table_of st dir v)"
    "table_present st dir v \<Longrightarrow> frame_index (table_of st dir v) \<in> frames_used (phys st)"
    "table_present st dir v \<Longrightarrow> table_of st dir v \<noteq> dir"
  using assms by (simp_all add: wf_dir_def used_frame_def)

lemma lookup_pde: "dir \<noteq> 0 \<Longrightarrow> vmmngr_pdirectory_lookup_entry dir v = pde_addr dir v"
  by (simp add: vmmngr_pdirectory_lookup_entry_def pde_addr_def)

lemma lookup_pte: "t \<noteq> 0 \<Longrightarrow> vmmngr_ptable_lookup_entry t v = pte_addr t v"
  by (simp add: vmmngr_ptable_lookup_entry_def pte_addr_def)

lemma load_nonzero: "a \<noteq> 0 \<Longrightarrow> load st a = Some (mem st a)"
  by (simp add: load_def)

lemma modify_nonzero: "a \<noteq> 0 \<Longrightarrow> modify st a f = Some (st\<lparr>mem := (mem st)(a := f (mem st a))\<rparr>)"
  by (simp add: modify_def)

lemmas walk_simps = lookup_pde lookup_pte load_nonzero modify_nonzero

lemma virt2phys_translate:
  assumes "wf_dir st dir"
  shows "vmmngr_virt2phys_pdir st dir v = Some (translate st dir v)"
  using wf_dirD(1-4) [OF assms] wf_dirD(5-8) [OF assms, of v]
  by (auto simp: vmmngr_virt2phys_pdir_def walk_simps translate_def mapped_def table_present_def
      table_of_def pte_of_def Let_def)

lemma virt2phys_current: "vmmngr_virt2phys st v = vmmngr_virt2phys_pdir st (cur_directory st) v"
  by (simp add: vmmngr_virt2phys_def vmmngr_virt2phys_pdir_def vmmngr_get_directory_def)

lemma check_present_mapped:
  assumes "wf_dir st dir"
  shows "vmmngr_check_virt_present st dir v = Some (mapped st dir v)"
  using wf_dirD(1-4) [OF assms] wf_dirD(5-8) [OF assms, of v]
  by (auto simp: vmmngr_check_virt_present_def walk_simps mapped_def table_present_def
      table_of_def pte_of_def Let_def)

section \<open>What each store update does to the translation\<close>

text \<open>The parts of a directory that the translation depends on.\<close>

definition same_tables :: "vmm \<Rightarrow> vmm \<Rightarrow> u32 \<Rightarrow> bool" where
  "same_tables st st' dir \<longleftrightarrow>
     (\<forall>v. table_present st' dir v = table_present st dir v \<and>
       (table_present st dir v \<longrightarrow> table_of st' dir v = table_of st dir v))"

lemma wf_dir_cong:
  assumes "wf_dir st dir" and "same_tables st st' dir" and "pmm_inv (phys st')"
    and "frames_used (phys st) \<subseteq> frames_used (phys st')"
  shows "wf_dir st' dir"
  using assms by (auto simp: wf_dir_def same_tables_def used_frame_def subset_iff)

lemma set_page:
  assumes "wf_dir st dir" and "table_present st dir v"
    and "mem st' = (mem st)(pte_addr (table_of st dir v) v := y)"
  shows "same_tables st st' dir"
    and "table_present st dir w \<Longrightarrow>
      pte_of st' dir w = (if v AND I86_FRAME = w AND I86_FRAME then y else pte_of st dir w)"
proof -
  let ?t = "table_of st dir v"
  note d = wf_dirD(1-4) [OF assms(1)] wf_dirD(5-8) [OF assms(1,2)]
  have "pde_addr dir w \<noteq> pte_addr ?t v" for w
    using pde_pte_neq [of dir ?t w v] d by metis
  then have pde: "mem st' (pde_addr dir w) = mem st (pde_addr dir w)" for w
    using assms(3) by simp
  then show "same_tables st st' dir"
    by (simp add: same_tables_def table_present_def table_of_def)
  assume w: "table_present st dir w"
  have "pte_addr (table_of st dir w) w = pte_addr ?t v \<longleftrightarrow> v AND I86_FRAME = w AND I86_FRAME"
  proof (cases "PAGE_DIRECTORY_INDEX v = PAGE_DIRECTORY_INDEX w")
    case True
    then have "table_of st dir w = ?t" by (simp add: table_of_def pde_addr_def)
    with True show ?thesis by (auto simp: same_page)
  next
    case False
    then have "?t \<noteq> table_of st dir w" using assms(1,2) w by (auto simp: wf_dir_def)
    then have "pte_addr (table_of st dir w) w \<noteq> pte_addr ?t v"
      using pte_pte_neq [of "table_of st dir w" ?t w v] d wf_dirD(6) [OF assms(1) w] by metis
    with False show ?thesis by (simp add: same_page)
  qed
  then show "pte_of st' dir w = (if v AND I86_FRAME = w AND I86_FRAME then y else pte_of st dir w)"
    using pde by (auto simp: pte_of_def table_of_def assms(3))
qed

lemma set_pde:
  assumes "wf_dir st dir" and "table_present st dir v"
    and "mem st' = (mem st)(pde_addr dir v := e)"
    and "pd_entry_pfn e = table_of st dir v" and "pd_entry_is_present e"
  shows "same_tables st st' dir"
    and "table_present st dir w \<Longrightarrow> pte_of st' dir w = pte_of st dir w"
proof -
  have e: "table_present st' dir w = table_present st dir w" "table_of st' dir w = table_of st dir w" for w
    using assms(2-5) by (auto simp: table_present_def table_of_def pde_addr_def)
  then show "same_tables st st' dir" by (simp add: same_tables_def)
  assume w: "table_present st dir w"
  have "pde_addr dir v \<noteq> pte_addr (table_of st dir w) w"
    using pde_pte_neq wf_dirD(1-4) [OF assms(1)] wf_dirD(5-8) [OF assms(1) w] by metis
  then show "pte_of st' dir w = pte_of st dir w"
    using assms(3) by (simp add: pte_of_def e)
qed

lemma same_translate:
  assumes "same_tables st st' dir"
    and "\<And>w. table_present st dir w \<Longrightarrow> pte_of st' dir w = pte_of st dir w"
  shows "mapped st' dir w = mapped st dir w" and "translate st' dir w = translate st dir w"
  using assms by (auto simp: translate_def mapped_def same_tables_def)

section \<open>Adding a page table\<close>

lemma frame_addr_aligned [simp]: "aligned (frame_addr k)"
proof (rule alignedI)
  fix n :: nat
  assume "n < 12"
  moreover have "frame_addr k = push_bit 12 (of_nat k)"
    by (simp add: frame_addr_def push_bit_eq_mult mult.commute)
  ultimately show "\<not> bit (frame_addr k) n" by (simp add: bit_simps)
qed

lemma pmm_cap_20: "pmm_inv st \<Longrightarrow> k < pmm_capacity st \<Longrightarrow> k < 2 ^ 20"
  using pmm_capacity_small [of st] by simp

text \<open>
  \<open>add_table\<close> is the state after a fresh table at frame \<open>t\<close> was entered for \<open>v\<close>.
\<close>

lemma add_table:
  assumes wf: "wf_dir st dir" and np: "\<not> table_present st dir v"
    and t: "aligned t" "t \<noteq> 0" "frame_index t \<notin> frames_used (phys st)"
    and pm: "pmm_inv (phys st')" "frames_used (phys st') = insert (frame_index t) (frames_used (phys st))"
    and m: "mem st' = (mem (clear_4k st t))(pde_addr dir v := e)"
    and e: "pd_entry_pfn e = t" "pd_entry_is_present e"
  shows "wf_dir st' dir" "table_present st' dir v" "table_of st' dir v = t"
    "table_present st dir w \<Longrightarrow> table_present st' dir w"
    "mapped st' dir w = mapped st dir w" "translate st' dir w = translate st dir w"
    "PAGE_DIRECTORY_INDEX w \<noteq> PAGE_DIRECTORY_INDEX v \<Longrightarrow> table_present st' dir w = table_present st dir w"
proof -
  note d = wf_dirD(1-4) [OF wf]
  have clr: "mem st' a = (if a = pde_addr dir v then e else if a AND I86_FRAME = t then 0 else mem st a)" for a
    using m by (simp add: clear_4k_def in_4k [OF t(1)])
  have tdir: "t \<noteq> dir" using t(3) d(4) by metis
  have told: "table_present st dir w \<Longrightarrow> table_of st dir w \<noteq> t" for w
    using t(3) wf_dirD(7) [OF wf, of w] by metis
  have pde: "mem st' (pde_addr dir w) =
      (if PAGE_DIRECTORY_INDEX w = PAGE_DIRECTORY_INDEX v then e else mem st (pde_addr dir w))" for w
    using tdir d by (simp add: clr)
  have pres: "table_present st' dir w \<longleftrightarrow>
      PAGE_DIRECTORY_INDEX w = PAGE_DIRECTORY_INDEX v \<or> table_present st dir w" for w
    using e np by (auto simp: table_present_def pde)
  have tab: "table_of st' dir w =
      (if PAGE_DIRECTORY_INDEX w = PAGE_DIRECTORY_INDEX v then t else table_of st dir w)" for w
    using e by (simp add: table_of_def pde)
  have npv: "\<not> table_present st dir w" if "PAGE_DIRECTORY_INDEX w = PAGE_DIRECTORY_INDEX v" for w
    using np that by (simp add: table_present_def pde_addr_def)
  have new: "pte_of st' dir w = 0" if "PAGE_DIRECTORY_INDEX w = PAGE_DIRECTORY_INDEX v" for w
  proof -
    have "pde_addr dir v \<noteq> pte_addr t w" using pde_pte_neq d t tdir by metis
    then show ?thesis using that t by (auto simp: pte_of_def tab clr)
  qed
  have old: "pte_of st' dir w = pte_of st dir w"
    if "PAGE_DIRECTORY_INDEX w \<noteq> PAGE_DIRECTORY_INDEX v" "table_present st dir w" for w
  proof -
    note dw = wf_dirD(5-8) [OF wf that(2)]
    have "pde_addr dir v \<noteq> pte_addr (table_of st dir w) w" using pde_pte_neq d dw by metis
    then show ?thesis using that dw told [OF that(2)] by (auto simp: pte_of_def tab clr)
  qed
  show "wf_dir st' dir"
    unfolding wf_dir_def used_frame_def pres tab pm(2)
    using pm(1) d t tdir wf told wf_dirD(5-8) [OF wf] by (auto simp: wf_dir_def)
  show "table_present st' dir v" "table_of st' dir v = t" by (simp_all add: pres tab)
  show "table_present st dir w \<Longrightarrow> table_present st' dir w" by (simp add: pres)
  have z: "\<not> pt_entry_is_present 0" by (simp add: present_bit)
  show mp: "mapped st' dir w = mapped st dir w" for w
    using new [of w] old [of w] npv [of w] z
    by (cases "PAGE_DIRECTORY_INDEX w = PAGE_DIRECTORY_INDEX v") (auto simp: mapped_def pres)
  show "translate st' dir w = translate st dir w"
    unfolding translate_def mp using old [of w] npv [of w]
    by (cases "PAGE_DIRECTORY_INDEX w = PAGE_DIRECTORY_INDEX v") (auto simp: mapped_def)
  show "PAGE_DIRECTORY_INDEX w \<noteq> PAGE_DIRECTORY_INDEX v \<Longrightarrow>
      table_present st' dir w = table_present st dir w" by (simp add: pres)
qed

text \<open>The directory slots of a set of addresses that have no table yet.\<close>

definition missing :: "vmm \<Rightarrow> u32 \<Rightarrow> u32 set \<Rightarrow> u32 set" where
  "missing st dir D = {PAGE_DIRECTORY_INDEX v | v. v \<in> D \<and> \<not> table_present st dir v}"

definition enough :: "vmm \<Rightarrow> u32 \<Rightarrow> u32 set \<Rightarrow> bool" where
  "enough st dir D \<longleftrightarrow> pmm_room (phys st) (card (missing st dir D))"

text \<open>
  \<open>kept\<close>: the directory stays well formed, no translation changes, tables and used frames only
  grow.
\<close>

definition kept :: "vmm \<Rightarrow> vmm \<Rightarrow> u32 \<Rightarrow> bool" where
  "kept st st' dir \<longleftrightarrow> wf_dir st' dir \<and>
     (\<forall>w. mapped st' dir w = mapped st dir w \<and> translate st' dir w = translate st dir w \<and>
       (table_present st dir w \<longrightarrow> table_present st' dir w)) \<and>
     frames_used (phys st) \<subseteq> frames_used (phys st')"

lemma ensure_table_present:
  assumes "wf_dir st dir" and "table_present st dir v"
  shows "ensure_table st dir v = Some (True, st)"
  using assms(2) wf_dirD(1-4) [OF assms(1)]
  by (simp add: ensure_table_def walk_simps table_present_def Let_def)

lemma ensure_table_new:
  assumes wf: "wf_dir st dir" and np: "\<not> table_present st dir v"
    and k: "pmmngr_alloc_block (phys st) = Some (frame_addr k, pm)" "k \<notin> frames_used (phys st)" "0 < k"
        "k < pmm_capacity (phys st)" "frames_used pm = insert k (frames_used (phys st))" "pmm_inv pm"
  shows "\<exists>st'. ensure_table st dir v = Some (True, st') \<and> table_present st' dir v \<and> kept st st' dir \<and>
    phys st' = pm \<and>
    (\<forall>w. PAGE_DIRECTORY_INDEX w \<noteq> PAGE_DIRECTORY_INDEX v \<longrightarrow>
       table_present st' dir w = table_present st dir w)"
proof -
  note d = wf_dirD(1-4) [OF wf]
  have k20: "k < 2 ^ 20" using pmm_cap_20 d k by blast
  then have nz: "frame_addr k \<noteq> 0" using k(3) frame_addr_zero by simp
  define e where "e = pd_entry_set_frame (pd_entry_add_attrib
    (mem (clear_4k (st\<lparr>phys := pm\<rparr>) (frame_addr k)) (pde_addr dir v)) I86_PRESENT) (frame_addr k)"
  define st' where "st' = st\<lparr>phys := pm, mem := (mem (clear_4k st (frame_addr k)))(pde_addr dir v := e)\<rparr>"
  have run: "ensure_table st dir v = Some (True, st')"
    using np d k(1) nz
    by (simp add: ensure_table_def walk_simps table_present_def Let_def vmmngr_ptable_clear_def
        st'_def e_def clear_4k_def cong: if_cong)
  note a = add_table [OF wf np frame_addr_aligned nz, where st' = st' and e = e]
  have "frame_index (frame_addr k) = k" using k20 by simp
  then have "wf_dir st' dir \<and> table_present st' dir v \<and> (\<forall>w. mapped st' dir w = mapped st dir w \<and>
      translate st' dir w = translate st dir w \<and> (table_present st dir w \<longrightarrow> table_present st' dir w)) \<and>
      (\<forall>w. PAGE_DIRECTORY_INDEX w \<noteq> PAGE_DIRECTORY_INDEX v \<longrightarrow>
       table_present st' dir w = table_present st dir w)"
    using a k by (simp add: st'_def e_def frame_of_aligned)
  moreover have "frames_used (phys st) \<subseteq> frames_used (phys st')" using k(5) by (auto simp: st'_def)
  moreover have "phys st' = pm" by (simp add: st'_def)
  ultimately show ?thesis using run by (simp add: kept_def)
qed

lemma ensure_table_spec:
  assumes wf: "wf_dir st dir"
  shows "ensure_table st dir v = Some (False, st) \<and> \<not> table_present st dir v \<or>
    (\<exists>st'. ensure_table st dir v = Some (True, st') \<and> table_present st' dir v \<and> kept st st' dir)"
proof (cases "table_present st dir v")
  case True
  with ensure_table_present [OF wf True] wf show ?thesis by (simp add: kept_def)
next
  case np: False
  note d = wf_dirD(1-4) [OF wf]
  show ?thesis
  proof (cases "pmmngr_alloc_block (phys st) = Some (0, phys st)")
    case True
    then have "ensure_table st dir v = Some (False, st)"
      using np d by (simp add: ensure_table_def walk_simps table_present_def Let_def)
    with np show ?thesis by simp
  next
    case False
    with alloc_block_cases [OF d(1)] ensure_table_new [OF wf np] show ?thesis by metis
  qed
qed

lemma missing_same:
  "(\<And>v. table_present st' dir v = table_present st dir v) \<Longrightarrow> missing st' dir D = missing st dir D"
  by (simp add: missing_def)

lemma enough_same:
  "same_tables st st' dir \<Longrightarrow> phys st' = phys st \<Longrightarrow> enough st dir D \<Longrightarrow> enough st' dir D"
  by (simp add: enough_def same_tables_def missing_def)

lemma ensure_table_enough:
  assumes wf: "wf_dir st dir" and en: "enough st dir D" and v: "v \<in> D"
  shows "\<exists>st'. ensure_table st dir v = Some (True, st') \<and> table_present st' dir v \<and> kept st st' dir \<and>
    enough st' dir D"
proof (cases "table_present st dir v")
  case True
  with ensure_table_present [OF wf True] wf en show ?thesis by (simp add: kept_def)
next
  case np: False
  have fin: "finite (missing st dir D)" by (rule finite)
  have slot: "PAGE_DIRECTORY_INDEX v \<in> missing st dir D" using v np by (auto simp: missing_def)
  then obtain n where n: "card (missing st dir D) = Suc n"
    using fin by (metis card_Suc_Diff1)
  with en have "pmm_room (phys st) (Suc n)" by (simp add: enough_def)
  from alloc_block_room [OF wf_dirD(1) [OF wf] this] obtain k pm where
    k: "pmmngr_alloc_block (phys st) = Some (frame_addr k, pm)" "k \<notin> frames_used (phys st)" "0 < k"
      "k < pmm_capacity (phys st)" "frames_used pm = insert k (frames_used (phys st))" "pmm_inv pm"
      "pmm_room pm n" by blast
  from ensure_table_new [OF wf np k(1-6)] obtain st' where
    st': "ensure_table st dir v = Some (True, st')" "table_present st' dir v" "kept st st' dir"
      "phys st' = pm" "\<forall>w. PAGE_DIRECTORY_INDEX w \<noteq> PAGE_DIRECTORY_INDEX v \<longrightarrow>
         table_present st' dir w = table_present st dir w" by blast
  have pv: "PAGE_DIRECTORY_INDEX w = PAGE_DIRECTORY_INDEX v \<Longrightarrow> table_present st' dir w" for w
    using st'(2) by (simp add: table_present_def pde_addr_def)
  have "missing st' dir D = missing st dir D - {PAGE_DIRECTORY_INDEX v}"
    using st'(5) pv by (auto simp: missing_def)
  then have "card (missing st' dir D) = n" using n slot fin by simp
  with st' k(7) show ?thesis by (auto simp: enough_def)
qed

section \<open>Mapping a page\<close>

lemma map_page_present:
  assumes wf: "wf_dir st dir" and t: "table_present st dir v" and f: "attrs pdf" "attrs ptf"
  shows "\<exists>st'. vmmngr_map_page st dir p v pdf ptf = Some st' \<and> wf_dir st' dir \<and>
    same_tables st st' dir \<and> phys st' = phys st \<and> mapped st' dir v \<and>
    (\<forall>w. translate st' dir w =
       (if w AND I86_FRAME = v AND I86_FRAME then (p AND I86_FRAME) + FRAME_OFFSET w
        else translate st dir w))"
proof -
  note d = wf_dirD(1-4) [OF wf] wf_dirD(5-8) [OF wf t]
  define st1 where "st1 = st\<lparr>mem := (mem st)(pde_addr dir v :=
    pd_entry_add_attrib (mem st (pde_addr dir v)) pdf)\<rparr>"
  have m1: "mem st1 = (mem st)(pde_addr dir v := pd_entry_add_attrib (mem st (pde_addr dir v)) pdf)"
    by (simp add: st1_def)
  have e1: "pd_entry_pfn (pd_entry_add_attrib (mem st (pde_addr dir v)) pdf) = table_of st dir v"
    "pd_entry_is_present (pd_entry_add_attrib (mem st (pde_addr dir v)) pdf)"
    using f t by (simp_all add: table_of_def table_present_def)
  note s1 = set_pde [OF wf t m1 e1]
  have wf1: "wf_dir st1 dir" by (rule wf_dir_cong [OF wf s1(1)]) (use d in \<open>auto simp: st1_def\<close>)
  have t1: "table_present st1 dir v" "table_of st1 dir v = table_of st dir v"
    using s1(1) t by (auto simp: same_tables_def)
  let ?a = "pte_addr (table_of st1 dir v) v"
  define y where "y = pt_entry_add_attrib (pt_entry_add_attrib
    (pt_entry_set_frame (mem st1 ?a) p) ptf) I86_PRESENT"
  define st2 where "st2 = st1\<lparr>mem := (mem st1)(?a := y)\<rparr>"
  have m2: "mem st2 = (mem st1)(?a := y)" by (simp add: st2_def)
  note s2 = set_page [OF wf1 t1(1) m2]
  have wf2: "wf_dir st2 dir"
    by (rule wf_dir_cong [OF wf1 s2(1)]) (use d in \<open>auto simp: st1_def st2_def\<close>)
  have st: "same_tables st st2 dir" using s1(1) s2(1) by (auto simp: same_tables_def)
  have run: "vmmngr_map_page st dir p v pdf ptf = Some st2"
    using d t1(2) e1(1)
    by (simp add: vmmngr_map_page_def ensure_table_present [OF wf t] walk_simps Let_def st2_def y_def
        st1_def table_of_def)
  have y: "pt_entry_is_present y" "pt_entry_pfn y = p AND I86_FRAME" using f by (simp_all add: y_def)
  have p2: "pte_of st2 dir w = (if w AND I86_FRAME = v AND I86_FRAME then y else pte_of st dir w)"
    if "table_present st dir w" for w
    using s2(2) s1 that by (auto simp: same_tables_def)
  have tw: "table_present st dir w" if "w AND I86_FRAME = v AND I86_FRAME" for w
    using t that by (simp add: same_page table_present_def pde_addr_def)
  have "translate st2 dir w = (if w AND I86_FRAME = v AND I86_FRAME then (p AND I86_FRAME) + FRAME_OFFSET w
        else translate st dir w)" for w
    using p2 [of w] tw [of w] y st by (auto simp: translate_def mapped_def same_tables_def)
  moreover have "mapped st2 dir v" using p2 [OF t] y t st by (auto simp: mapped_def same_tables_def)
  ultimately show ?thesis using run wf2 st by (auto simp: st2_def st1_def)
qed

lemma map_page_after_table:
  assumes "ensure_table st dir v = Some (True, st1)" and "wf_dir st1 dir" and "table_present st1 dir v"
  shows "vmmngr_map_page st dir p v pdf ptf = vmmngr_map_page st1 dir p v pdf ptf"
  using assms by (simp add: vmmngr_map_page_def ensure_table_present)

lemma keptD:
  assumes "kept st st' dir"
  shows "wf_dir st' dir" "mapped st' dir w = mapped st dir w" "translate st' dir w = translate st dir w"
    "frames_used (phys st) \<subseteq> frames_used (phys st')"
  using assms by (simp_all add: kept_def)

lemma map_page_spec:
  assumes wf: "wf_dir st dir" and f: "attrs pdf" "attrs ptf"
  shows "vmmngr_map_page st dir p v pdf ptf = Some st \<and> \<not> table_present st dir v \<or>
    (\<exists>st'. vmmngr_map_page st dir p v pdf ptf = Some st' \<and> wf_dir st' dir \<and> mapped st' dir v \<and>
      frames_used (phys st) \<subseteq> frames_used (phys st') \<and>
      (\<forall>w. translate st' dir w =
        (if w AND I86_FRAME = v AND I86_FRAME then (p AND I86_FRAME) + FRAME_OFFSET w
         else translate st dir w)))"
  using ensure_table_spec [OF wf, of v]
proof (elim disjE exE conjE)
  assume "ensure_table st dir v = Some (False, st)" and "\<not> table_present st dir v"
  then show ?thesis by (simp add: vmmngr_map_page_def)
next
  fix st1
  assume e: "ensure_table st dir v = Some (True, st1)" "table_present st1 dir v" "kept st st1 dir"
  from map_page_present [OF keptD(1) [OF e(3)] e(2) f, of p] keptD [OF e(3)]
    map_page_after_table [OF e(1) keptD(1) [OF e(3)] e(2), of p pdf ptf]
  show ?thesis by auto
qed

lemma map_page_enough:
  assumes wf: "wf_dir st dir" and f: "attrs pdf" "attrs ptf" and en: "enough st dir D" and v: "v \<in> D"
  shows "\<exists>st'. vmmngr_map_page st dir p v pdf ptf = Some st' \<and> wf_dir st' dir \<and> enough st' dir D \<and>
      (\<forall>w. translate st' dir w =
        (if w AND I86_FRAME = v AND I86_FRAME then (p AND I86_FRAME) + FRAME_OFFSET w
         else translate st dir w))"
proof -
  from ensure_table_enough [OF wf en v] obtain st1 where
    e: "ensure_table st dir v = Some (True, st1)" "table_present st1 dir v" "kept st st1 dir"
      "enough st1 dir D" by blast
  from map_page_present [OF keptD(1) [OF e(3)] e(2) f, of p] obtain st' where
    m: "vmmngr_map_page st1 dir p v pdf ptf = Some st'" "wf_dir st' dir" "same_tables st1 st' dir"
      "phys st' = phys st1"
      "\<forall>w. translate st' dir w = (if w AND I86_FRAME = v AND I86_FRAME
         then (p AND I86_FRAME) + FRAME_OFFSET w else translate st1 dir w)" by blast
  from enough_same [OF m(3,4) e(4)] have "enough st' dir D" .
  with m keptD(3) [OF e(3)] map_page_after_table [OF e(1) keptD(1) [OF e(3)] e(2), of p pdf ptf]
  show ?thesis by simp
qed

section \<open>Mapping a range\<close>

lemma page_offset: "aligned v \<Longrightarrow> w AND I86_FRAME = v \<Longrightarrow> FRAME_OFFSET w = w - v"
proof -
  assume v: "aligned v" "w AND I86_FRAME = v"
  have "v + (w AND mask 12) = v OR (w AND mask 12)"
    by (rule disjunctive_add_eq_or, rule bit_word_eqI) (use v(1) in \<open>auto simp: bit_simps dest: aligned_bit\<close>)
  also have "\<dots> = w" unfolding v(2) [symmetric] frame_mask
    by (rule bit_word_eqI) (auto simp: bit_simps)
  finally show ?thesis by (simp add: FRAME_OFFSET_def mask12 eq_diff_eq add.commute)
qed

lemma aligned_next: "aligned v \<Longrightarrow> aligned (v + 4096)"
proof -
  assume v: "aligned v"
  have "v = push_bit 12 (drop_bit 12 v)"
    by (rule bit_word_eqI) (use v in \<open>auto simp: bit_simps dest: aligned_bitD\<close>)
  then have "v + 4096 = push_bit 12 (drop_bit 12 v + 1)"
    by (simp add: push_bit_eq_mult distrib_right)
  then show ?thesis by (simp only:) (rule alignedI, simp add: bit_simps)
qed

lemma page_range_step:
  fixes x :: u32
  assumes "4096 * Suc n \<le> 2 ^ 32"
  shows "unat x < 4096 * Suc n \<longleftrightarrow> x < 4096 \<or> unat (x - 4096) < 4096 * n"
    and "x < 4096 \<Longrightarrow> \<not> unat (x - 4096) < 4096 * n"
proof -
  have u: "unat (x - 4096) = (if x < 4096 then unat x + 2 ^ 32 - 4096 else unat x - 4096)"
    by (simp add: unat_sub_if_size word_less_nat_alt word_size)
  have l: "x < 4096 \<longleftrightarrow> unat x < 4096" by (simp add: word_less_nat_alt)
  show "unat x < 4096 * Suc n \<longleftrightarrow> x < 4096 \<or> unat (x - 4096) < 4096 * n"
    using assms unfolding u l by auto
  show "x < 4096 \<Longrightarrow> \<not> unat (x - 4096) < 4096 * n" using assms unfolding u l by auto
qed

lemma mmap_loop_spec:
  assumes "wf_dir st dir" and "attrs pdf" and "attrs ptf" and "enough st dir D"
    and "aligned frame" and "aligned virt" and "4096 * n \<le> 2 ^ 32"
    and "\<forall>w. unat (w - virt) < 4096 * n \<longrightarrow> w \<in> D"
  shows "\<exists>st'. mmap_loop st dir frame virt n pdf ptf = Some st' \<and> wf_dir st' dir \<and> enough st' dir D \<and>
    (\<forall>w. translate st' dir w =
       (if unat (w - virt) < 4096 * n then frame + (w - virt) else translate st dir w))"
  using assms
proof (induction n arbitrary: st frame virt)
  case 0
  then show ?case by simp
next
  case (Suc n)
  note step = page_range_step [OF Suc.prems(7)]
  have "virt \<in> D" using Suc.prems(8) by simp
  from map_page_enough [OF Suc.prems(1-4) this, of frame] obtain st1 where
    m: "vmmngr_map_page st dir frame virt pdf ptf = Some st1" "wf_dir st1 dir" "enough st1 dir D"
      "\<And>w. translate st1 dir w = (if w AND I86_FRAME = virt AND I86_FRAME
         then (frame AND I86_FRAME) + FRAME_OFFSET w else translate st dir w)" by blast
  have "\<forall>w. unat (w - (virt + 4096)) < 4096 * n \<longrightarrow> w \<in> D"
    using Suc.prems(8) step(1) by (simp add: diff_diff_eq)
  from Suc.IH [OF m(2) Suc.prems(2,3) m(3) aligned_next [OF Suc.prems(5)] aligned_next [OF Suc.prems(6)] _ this]
  obtain st' where
    r: "mmap_loop st1 dir (frame + 4096) (virt + 4096) n pdf ptf = Some st'" "wf_dir st' dir"
      "enough st' dir D" "\<And>w. translate st' dir w =
       (if unat (w - (virt + 4096)) < 4096 * n then frame + 4096 + (w - (virt + 4096))
        else translate st1 dir w)" using Suc.prems(7) by auto
  have "translate st' dir w =
       (if unat (w - virt) < 4096 * Suc n then frame + (w - virt) else translate st dir w)" for w
  proof (cases "w - virt < 4096")
    case True
    then have "w AND I86_FRAME = virt" using in_4k [OF Suc.prems(6)] by blast
    with True step [of "w - virt"] m(4) [of w] page_offset [OF Suc.prems(6)] Suc.prems(5,6)
    show ?thesis by (simp add: r(4) frame_of_aligned diff_diff_eq)
  next
    case False
    then have "w AND I86_FRAME \<noteq> virt" using in_4k [OF Suc.prems(6)] by blast
    with False step(1) [of "w - virt"] m(4) [of w] Suc.prems(6)
    show ?thesis by (auto simp: r(4) frame_of_aligned diff_diff_eq)
  qed
  with m(1) r(1-3) show ?case by auto
qed

section \<open>The initial address space\<close>

text \<open>The control registers and the current-directory variable play no part in a translation.\<close>

lemma control_update [simp]:
  "wf_dir (st\<lparr>cur_directory := a\<rparr>) dir = wf_dir st dir"
  "wf_dir (st\<lparr>pdbr := b\<rparr>) dir = wf_dir st dir"
  "wf_dir (st\<lparr>paging := c\<rparr>) dir = wf_dir st dir"
  "translate (st\<lparr>cur_directory := a\<rparr>) dir w = translate st dir w"
  "translate (st\<lparr>pdbr := b\<rparr>) dir w = translate st dir w"
  "translate (st\<lparr>paging := c\<rparr>) dir w = translate st dir w"
  "enough (st\<lparr>cur_directory := a\<rparr>) dir D = enough st dir D"
  by (simp_all add: wf_dir_def translate_def mapped_def table_present_def table_of_def pte_of_def
      used_frame_def enough_def missing_def)

lemma pmm_room_mono: "pmm_room pm n \<Longrightarrow> m \<le> n \<Longrightarrow> pmm_room pm m"
  by (simp add: pmm_room_def)

lemma create_pdir_room:
  assumes i: "pmm_inv (phys st)" and r: "pmm_room (phys st) (Suc n)"
  shows "\<exists>dir st'. vmmngr_create_pdir st = Some (dir, st') \<and> wf_dir st' dir \<and> dir \<noteq> 0 \<and>
    pmm_room (phys st') n \<and> (\<forall>w. \<not> table_present st' dir w \<and> translate st' dir w = 0)"
proof -
  from alloc_block_room [OF i r] obtain k pm where
    k: "pmmngr_alloc_block (phys st) = Some (frame_addr k, pm)" "k \<notin> frames_used (phys st)" "0 < k"
      "k < pmm_capacity (phys st)" "frames_used pm = insert k (frames_used (phys st))" "pmm_inv pm"
      "pmm_room pm n" by blast
  have k20: "k < 2 ^ 20" using pmm_cap_20 i k by blast
  then have nz: "frame_addr k \<noteq> 0" using k(3) frame_addr_zero by simp
  define st' where "st' = clear_4k (st\<lparr>phys := pm\<rparr>) (frame_addr k)"
  have run: "vmmngr_create_pdir st = Some (frame_addr k, st')"
    using k nz by (simp add: vmmngr_create_pdir_def vmmngr_pdirectory_clear_def st'_def Let_def)
  have "mem st' (pde_addr (frame_addr k) w) = 0" for w
    by (simp add: st'_def clear_4k_def in_4k)
  then have np: "\<not> table_present st' (frame_addr k) w" for w
    by (simp add: table_present_def present_bit)
  have "wf_dir st' (frame_addr k)"
    using np nz k(5,6) k20 by (simp add: wf_dir_def used_frame_def st'_def clear_4k_def)
  with run np nz k(7) show ?thesis by (auto simp: translate_def mapped_def st'_def clear_4k_def)
qed

lemma range_iff:
  fixes v w :: u32
  assumes "unat v + m \<le> 2 ^ 32"
  shows "unat (w - v) < m \<longleftrightarrow> unat v \<le> unat w \<and> unat w < unat v + m"
  using assms unat_u32 [of w] by (auto simp: unat_sub_if_size word_size word_le_nat_alt)

lemma unat_directory_index: "unat (PAGE_DIRECTORY_INDEX v) = unat v div 2 ^ 22"
proof -
  have "PAGE_DIRECTORY_INDEX v = drop_bit 22 v"
    unfolding PAGE_DIRECTORY_INDEX_def mask10
    by (rule bit_word_eqI) (auto simp: bit_simps dest: bit_imp_le_length)
  moreover have "unat (drop_bit 22 v) = drop_bit 22 (unat v)" by (rule unat_drop_bit_eq)
  moreover have "drop_bit 22 (unat v) = unat v div 2 ^ 22" by (rule drop_bit_eq_div)
  ultimately show ?thesis by metis
qed

text \<open>The three windows of the kernel and the directory slots they need.\<close>

definition kernel_windows :: "u32 set" where
  "kernel_windows = {w. unat w < 0x400000 \<or> 0xC0000000 \<le> unat w \<and> unat w < 0xC1000000 \<or>
     0xCD000000 \<le> unat w \<and> unat w < 0xCD424000}"

lemma kernel_windows_slots: "card (PAGE_DIRECTORY_INDEX ` kernel_windows) \<le> 7"
proof -
  have "unat (PAGE_DIRECTORY_INDEX w) \<in> set [0, 768, 769, 770, 771, 820, 821]"
    if "w \<in> kernel_windows" for w
    using that by (simp add: unat_directory_index kernel_windows_def) linarith
  then have sub: "unat ` PAGE_DIRECTORY_INDEX ` kernel_windows \<subseteq> set [0, 768, 769, 770, 771, 820, 821]"
    by blast
  have "card (unat ` PAGE_DIRECTORY_INDEX ` kernel_windows) \<le>
      card (set [0, 768, 769, 770, 771, 820, 821 :: nat])"
    by (rule card_mono [OF finite_set sub])
  also have "\<dots> \<le> length [0, 768, 769, 770, 771, 820, 821 :: nat]" by (rule card_length)
  finally have "card (unat ` PAGE_DIRECTORY_INDEX ` kernel_windows) \<le> 7"
    by (simp del: set_simps)
  moreover have "inj_on unat (PAGE_DIRECTORY_INDEX ` kernel_windows)" by (simp add: inj_on_def word_unat_eq_iff)
  ultimately show ?thesis by (simp add: card_image)
qed

lemma enough_windows:
  assumes "pmm_room (phys st) 7"
  shows "enough st dir kernel_windows"
proof -
  have "missing st dir kernel_windows \<subseteq> PAGE_DIRECTORY_INDEX ` kernel_windows"
    by (auto simp: missing_def)
  from card_mono [OF _ this] kernel_windows_slots have "card (missing st dir kernel_windows) \<le> 7"
    by simp
  with assms show ?thesis unfolding enough_def by (rule pmm_room_mono)
qed

lemma map_page_directory:
  "vmmngr_map_page st dir p v pdf ptf = Some st' \<Longrightarrow> cur_directory st' = cur_directory st"
  by (auto simp: vmmngr_map_page_def ensure_table_def load_def modify_def Let_def c_simps
      vmmngr_ptable_clear_def clear_4k_def split: if_splits prod.splits)

lemma mmap_directory:
  "vmmngr_mmap st dir frame virt n pdf ptf = Some st' \<Longrightarrow> cur_directory st' = cur_directory st"
proof -
  have "mmap_loop st dir frame virt k pdf ptf = Some st' \<Longrightarrow> cur_directory st' = cur_directory st" for k
  proof (induction k arbitrary: st frame virt)
    case (Suc k)
    then obtain st1 where "vmmngr_map_page st dir frame virt pdf ptf = Some st1"
      "mmap_loop st1 dir (frame + 4096) (virt + 4096) k pdf ptf = Some st'" by (auto simp: c_simps)
    then show ?case using Suc.IH map_page_directory by metis
  qed simp
  then show "vmmngr_mmap st dir frame virt n pdf ptf = Some st' \<Longrightarrow> ?thesis"
    by (simp add: vmmngr_mmap_def)
qed

text \<open>One window of \<^verbatim>\<open>vmmngr_initialize\<close>, the current directory being \<open>dir\<close>.\<close>

lemma mmap_window:
  assumes "wf_dir st dir" and "attrs pdf" and "attrs ptf" and "enough st dir D"
    and "aligned frame" and "aligned virt" and "unat virt + 4096 * unat n \<le> 2 ^ 32"
    and "\<And>w. unat virt \<le> unat w \<Longrightarrow> unat w < unat virt + 4096 * unat n \<Longrightarrow> w \<in> D"
  shows "\<exists>st'. vmmngr_mmap st dir frame virt n pdf ptf = Some st' \<and> wf_dir st' dir \<and> enough st' dir D \<and>
    (\<forall>w. translate st' dir w =
       (if unat virt \<le> unat w \<and> unat w < unat virt + 4096 * unat n then frame + (w - virt)
        else translate st dir w))"
  using mmap_loop_spec [OF assms(1-6), of "unat n"] assms(7,8) range_iff [OF assms(7)]
  by (simp add: vmmngr_mmap_def)

text \<open>
  C1: when eight frames are free, \<^verbatim>\<open>vmmngr_initialize\<close> completes, turns paging on with the
  new directory loaded, and the address space it builds is exactly the documented one: the
  first page unmapped, 4 KiB to 4 MiB identity mapped, 16 MiB at 3 GiB mapped to physical
  1 MiB, the frame buffer at \<^verbatim>\<open>0xCD000000\<close> mapped to \<^verbatim>\<open>0xFD000000\<close>, and nothing else.
\<close>

theorem vmm_initialize_maps:
  assumes i: "pmm_inv (phys st)" and r: "pmm_room (phys st) 8"
  shows "\<exists>st'. vmmngr_initialize st = Some st' \<and> paging st' \<and> pdbr st' = cur_directory st' \<and>
    wf_dir st' (cur_directory st') \<and>
    (\<forall>v. vmmngr_virt2phys st' v = Some (
       if 0x1000 \<le> unat v \<and> unat v < 0x400000 then v
       else if 0xC0000000 \<le> unat v \<and> unat v < 0xC1000000 then 0x100000 + (v - 0xC0000000)
       else if 0xCD000000 \<le> unat v \<and> unat v < 0xCD424000 then 0xFD000000 + (v - 0xCD000000)
       else 0))"
proof -
  from create_pdir_room [OF i, of 7] r obtain dir st1 where
    c: "vmmngr_create_pdir st = Some (dir, st1)" "wf_dir st1 dir" "dir \<noteq> 0" "pmm_room (phys st1) 7"
      "\<And>w. translate st1 dir w = 0" by auto
  let ?st1 = "st1\<lparr>cur_directory := dir\<rparr>"
  have D: "w \<in> kernel_windows" if "unat w < 0x400000 \<or> 0xC0000000 \<le> unat w \<and> unat w < 0xC1000000 \<or>
     0xCD000000 \<le> unat w \<and> unat w < 0xCD424000" for w
    using that by (simp add: kernel_windows_def)
  have w1: "wf_dir ?st1 dir" using c(2) by simp
  have e1: "enough ?st1 dir kernel_windows" using enough_windows [OF c(4)] by simp
  obtain st2 where s2: "vmmngr_mmap ?st1 dir 0x1000 0x1000 1023 I86_WRITABLE I86_WRITABLE = Some st2"
    "wf_dir st2 dir" "enough st2 dir kernel_windows"
    "\<And>w. translate st2 dir w =
      (if 0x1000 \<le> unat w \<and> unat w < 0x400000 then 0x1000 + (w - 0x1000) else 0)"
    using mmap_window [OF w1 _ _ e1, of I86_WRITABLE I86_WRITABLE "0x1000" "0x1000" 1023] D c(5)
    by (auto simp: aligned_def)
  obtain st3 where s3: "vmmngr_mmap st2 dir 0x100000 0xC0000000 (1024 * 4) I86_WRITABLE I86_WRITABLE = Some st3"
    "wf_dir st3 dir" "enough st3 dir kernel_windows"
    "\<And>w. translate st3 dir w =
      (if 0xC0000000 \<le> unat w \<and> unat w < 0xC1000000 then 0x100000 + (w - 0xC0000000)
       else translate st2 dir w)"
    using mmap_window [OF s2(2) _ _ s2(3), of I86_WRITABLE I86_WRITABLE "0x100000" "0xC0000000" "1024 * 4"] D
    by (auto simp: aligned_def)
  obtain st4 where s4: "vmmngr_mmap st3 dir 0xFD000000 0xCD000000 (1280 * 1024 * 3 div 4096 + 100)
       I86_WRITABLE (I86_WRITABLE OR I86_PTE_PAT) = Some st4"
    "wf_dir st4 dir" "enough st4 dir kernel_windows"
    "\<And>w. translate st4 dir w =
      (if 0xCD000000 \<le> unat w \<and> unat w < 0xCD424000 then 0xFD000000 + (w - 0xCD000000)
       else translate st3 dir w)"
    using mmap_window [OF s3(2) _ _ s3(3), of I86_WRITABLE "I86_WRITABLE OR I86_PTE_PAT" "0xFD000000"
        "0xCD000000" "1280 * 1024 * 3 div 4096 + 100"] D
    by (auto simp: aligned_def attrs_def)
  have dirs: "cur_directory st2 = dir" "cur_directory st3 = dir"
    using mmap_directory [OF s2(1)] mmap_directory [OF s3(1)] by simp_all
  let ?st = "st4\<lparr>cur_directory := dir, pdbr := dir, paging := True\<rparr>"
  have "vmmngr_initialize st = Some ?st"
    using c s2(1) s3(1) s4(1) dirs
    by (simp add: vmmngr_initialize_def vmmngr_get_directory_def vmmngr_switch_pdirectory_def Let_def)
  moreover have "wf_dir ?st dir" using s4(2) by simp
  moreover have "translate ?st dir v = (if 0x1000 \<le> unat v \<and> unat v < 0x400000 then v
       else if 0xC0000000 \<le> unat v \<and> unat v < 0xC1000000 then 0x100000 + (v - 0xC0000000)
       else if 0xCD000000 \<le> unat v \<and> unat v < 0xCD424000 then 0xFD000000 + (v - 0xCD000000)
       else 0)" for v
    by (simp add: s4(4) s3(4) s2(4))
  ultimately show ?thesis by (auto simp: virt2phys_current virt2phys_translate)
qed

lemma pmm_sample_room: "pmm_room pmm_sample 8"
proof -
  have sub: "{5 ..< 13} \<subseteq> {..< pmm_capacity pmm_sample} - frames_used pmm_sample"
  proof
    fix k :: nat
    assume "k \<in> {5 ..< 13}"
    then have "k \<in> {5, 6, 7, 8, 9, 10, 11, 12}" by auto
    then show "k \<in> {..< pmm_capacity pmm_sample} - frames_used pmm_sample"
      by (auto simp: pmm_capacity_def frames_used_def occ_set_def occ_def pmm_sample_def)
  qed
  have "card {5 ..< 13 :: nat} \<le> card ({..< pmm_capacity pmm_sample} - frames_used pmm_sample)"
    by (rule card_mono [OF _ sub]) simp
  then show ?thesis
    by (simp add: pmm_room_def pmmngr_get_free_block_count_def pmm_sample_def)
qed

definition vmm_sample :: vmm where
  "vmm_sample = \<lparr>phys = pmm_sample, mem = (\<lambda>a. 0), cur_directory = 0, pdbr = 0, paging = False\<rparr>"

theorem vmm_initialize_maps_witness:
  "\<exists>st'. vmmngr_initialize vmm_sample = Some st' \<and> paging st' \<and>
    vmmngr_virt2phys st' 0xC0000123 = Some 0x100123 \<and> vmmngr_virt2phys st' 0x40 = Some 0"
proof -
  have "pmm_inv (phys vmm_sample)" "pmm_room (phys vmm_sample) 8"
    using pmm_sample_inv pmm_sample_room by (simp_all add: vmm_sample_def)
  from vmm_initialize_maps [OF this] show ?thesis by auto
qed

section \<open>Allocating, freeing and unmapping pages\<close>

lemma free_block_run: "pmmngr_free_block st p = pmmngr_free_blocks st p 1"
  by (cases "bm_unset (memory_map st) (unat (p div 4096))")
    (simp_all add: pmmngr_free_block_def pmmngr_free_blocks_def mmap_unset_def)

text \<open>
  The frame behind a mapped page belongs to that page: it is managed and in use, and it is
  neither the directory nor one of its tables.
\<close>

definition page_frame :: "vmm \<Rightarrow> u32 \<Rightarrow> u32 \<Rightarrow> u32" where
  "page_frame st dir v = pt_entry_pfn (pte_of st dir v)"

definition own_page :: "vmm \<Rightarrow> u32 \<Rightarrow> u32 \<Rightarrow> bool" where
  "own_page st dir v \<longleftrightarrow> page_frame st dir v \<noteq> 0 \<and> page_frame st dir v \<noteq> dir \<and>
     frame_index (page_frame st dir v) \<in> frames_used (phys st) \<and>
     frame_index (page_frame st dir v) < pmm_capacity (phys st) \<and>
     (\<forall>w. table_present st dir w \<longrightarrow> table_of st dir w \<noteq> page_frame st dir v)"

text \<open>Writing one page-table entry and possibly changing the frame manager.\<close>

lemma write_page:
  assumes wf: "wf_dir st dir" and t: "table_present st dir v"
    and m: "mem st' = (mem st)(pte_addr (table_of st dir v) v := y)"
    and pm: "pmm_inv (phys st')" "frame_index dir \<in> frames_used (phys st')"
      "\<And>w. table_present st dir w \<Longrightarrow> frame_index (table_of st dir w) \<in> frames_used (phys st')"
  shows "wf_dir st' dir" "mapped st' dir v = pt_entry_is_present y" "pte_of st' dir v = y"
    "w AND I86_FRAME \<noteq> v AND I86_FRAME \<Longrightarrow> translate st' dir w = translate st dir w"
    "same_tables st st' dir"
proof -
  note s = set_page [OF wf t m]
  show "wf_dir st' dir" using wf s(1) pm by (auto simp: wf_dir_def same_tables_def used_frame_def)
  show "mapped st' dir v = pt_entry_is_present y" using s(1) s(2) [OF t] t
    by (simp add: mapped_def same_tables_def)
  show "pte_of st' dir v = y" using s(2) [OF t] by simp
  show "w AND I86_FRAME \<noteq> v AND I86_FRAME \<Longrightarrow> translate st' dir w = translate st dir w"
    using s(1) s(2) [of w] by (auto simp: translate_def mapped_def same_tables_def)
  show "same_tables st st' dir" by (rule s(1))
qed

lemma aligned_word_index:
  assumes "aligned p" and "aligned q" and "frame_index p = frame_index q"
  shows "p = q"
proof -
  have e: "p div 4096 = q div 4096" using assms(3) by (simp add: frame_index_def word_unat_eq_iff)
  have d: "drop_bit 12 p = drop_bit 12 q" using e by (simp add: drop_bit_eq_div)
  show ?thesis
  proof (rule bit_word_eqI)
    fix n
    show "bit p n = bit q n"
      using arg_cong [OF d, of "\<lambda>x. bit x (n - 12)"] aligned_bit [OF assms(1), of n]
        aligned_bit [OF assms(2), of n]
      by (cases "n < 12") (simp_all add: bit_simps)
  qed
qed

lemma free_virt_spec:
  assumes wf: "wf_dir st dir" and m: "mapped st dir v" and p: "own_page st dir v"
  shows "\<exists>st'. vmmngr_free_virt st dir v = Some st' \<and> wf_dir st' dir \<and> \<not> mapped st' dir v \<and>
    frames_used (phys st') = frames_used (phys st) - {frame_index (page_frame st dir v)} \<and>
    (\<forall>w. w AND I86_FRAME \<noteq> v AND I86_FRAME \<longrightarrow> translate st' dir w = translate st dir w)"
proof -
  have t: "table_present st dir v" using m by (simp add: mapped_def)
  note d = wf_dirD(1-4) [OF wf] wf_dirD(5-8) [OF wf t]
  let ?f = "page_frame st dir v" and ?a = "pte_addr (table_of st dir v) v"
  let ?k = "frame_index ?f"
  have al: "aligned ?f" by (simp add: page_frame_def pt_entry_pfn_def)
  have k20: "?k < 2 ^ 20" using pmm_cap_20 d(1) p by (auto simp: own_page_def)
  then have fa: "frame_addr ?k = ?f" by (intro aligned_word_index al) simp_all
  have "blocks (?k, 1) \<subseteq> frames_used (phys st)" using p by (auto simp: own_page_def blocks_def)
  from free_blocks_law [OF d(1) _ _ this] p obtain pm where
    pm: "pmmngr_free_block (phys st) ?f = Some pm" "frames_used pm = frames_used (phys st) - blocks (?k, 1)"
      "pmm_inv pm" by (auto simp: fa free_block_run own_page_def)
  have b: "blocks (?k, 1) = {?k}" "blocks (?k, Suc 0) = {?k}" by (auto simp: blocks_def)
  define st' where "st' = st\<lparr>phys := pm, mem := (mem st)(?a := pt_entry_del_attrib (mem st ?a) I86_PRESENT)\<rparr>"
  have run: "vmmngr_free_virt st dir v = Some st'"
    using d m p t pm(1)
    by (simp add: vmmngr_free_virt_def vmmngr_free_page_def walk_simps Let_def mapped_def own_page_def
        page_frame_def pte_of_def table_of_def table_present_def st'_def)
  have m': "mem st' = (mem st)(?a := pt_entry_del_attrib (mem st ?a) I86_PRESENT)"
    by (simp add: st'_def)
  have pd: "frame_index dir \<in> frames_used (phys st')"
    using d(3,4) p aligned_word_index [OF _ al, of dir] by (auto simp: st'_def pm(2) b own_page_def)
  have pt: "frame_index (table_of st dir w) \<in> frames_used (phys st')" if "table_present st dir w" for w
    using that wf_dirD(6,7) [OF wf that] p aligned_word_index [OF _ al, of "table_of st dir w"]
    by (auto simp: st'_def pm(2) b own_page_def)
  have pi: "pmm_inv (phys st')" by (simp add: st'_def pm)
  note w = write_page [OF wf t m' pi pd pt]
  have "frames_used (phys st') = frames_used (phys st) - {?k}" by (simp add: st'_def pm(2) b)
  with run w show ?thesis by simp
qed

text \<open>The page-table half of \<^verbatim>\<open>vmmngr_alloc_virt\<close>, once the table exists.\<close>

lemma alloc_virt_present:
  assumes wf: "wf_dir st dir" and t: "table_present st dir v" and f: "attrs pdf" "attrs ptf"
  shows "\<exists>st'. vmmngr_alloc_virt st dir v pdf ptf = Some st' \<and> wf_dir st' dir \<and>
    (\<forall>w. w AND I86_FRAME \<noteq> v AND I86_FRAME \<longrightarrow> translate st' dir w = translate st dir w) \<and>
    (mapped st dir v \<longrightarrow> mapped st' dir v \<and> translate st' dir v = translate st dir v \<and> phys st' = phys st) \<and>
    (\<not> mapped st dir v \<longrightarrow> \<not> mapped st' dir v \<and> phys st' = phys st \<or>
       mapped st' dir v \<and> own_page st' dir v \<and>
       frame_index (page_frame st' dir v) \<notin> frames_used (phys st) \<and>
       frames_used (phys st') = insert (frame_index (page_frame st' dir v)) (frames_used (phys st)))"
proof -
  note d = wf_dirD(1-4) [OF wf] wf_dirD(5-8) [OF wf t]
  define st1 where "st1 = st\<lparr>mem := (mem st)(pde_addr dir v :=
    pd_entry_add_attrib (mem st (pde_addr dir v)) pdf)\<rparr>"
  have m1: "mem st1 = (mem st)(pde_addr dir v := pd_entry_add_attrib (mem st (pde_addr dir v)) pdf)"
    by (simp add: st1_def)
  have e1: "pd_entry_pfn (pd_entry_add_attrib (mem st (pde_addr dir v)) pdf) = table_of st dir v"
    "pd_entry_is_present (pd_entry_add_attrib (mem st (pde_addr dir v)) pdf)"
    using f t by (simp_all add: table_of_def table_present_def)
  note s1 = set_pde [OF wf t m1 e1]
  have wf1: "wf_dir st1 dir" by (rule wf_dir_cong [OF wf s1(1)]) (use d in \<open>auto simp: st1_def\<close>)
  have t1: "table_present st1 dir v" "table_of st1 dir v = table_of st dir v"
    using s1(1) t by (auto simp: same_tables_def)
  have tr1: "mapped st1 dir w = mapped st dir w" "translate st1 dir w = translate st dir w" for w
    using same_translate [OF s1] by auto
  have ph1: "phys st1 = phys st" by (simp add: st1_def)
  let ?a = "pte_addr (table_of st1 dir v) v"
  have anz: "?a \<noteq> 0" using d t1 by simp
  have run: "vmmngr_alloc_virt st dir v pdf ptf =
      (if \<not> pt_entry_is_present (mem st1 ?a)
       then Option.bind (vmmngr_alloc_page st1 ?a ptf) (\<lambda>(ok, st). Some st) else Some st1)"
    using d t1 e1(1)
    by (simp add: vmmngr_alloc_virt_def ensure_table_present [OF wf t] walk_simps Let_def
        st1_def table_of_def)
  have pres: "mapped st dir v \<longleftrightarrow> pt_entry_is_present (mem st1 ?a)"
    using tr1(1) [of v] t1 by (simp add: mapped_def pte_of_def)
  show ?thesis
  proof (cases "mapped st dir v")
    case True
    then have "vmmngr_alloc_virt st dir v pdf ptf = Some st1" using run pres by simp
    with True wf1 tr1 ph1 show ?thesis by auto
  next
    case nm: False
    show ?thesis
    proof (cases "pmmngr_alloc_block (phys st1) = Some (0, phys st1)")
      case True
      then have "vmmngr_alloc_virt st dir v pdf ptf = Some st1"
        using run pres nm by (simp add: vmmngr_alloc_page_def Let_def)
      with nm wf1 tr1 ph1 show ?thesis by auto
    next
      case False
      with alloc_block_cases [OF wf_dirD(1) [OF wf1]] obtain k pm where
        k: "pmmngr_alloc_block (phys st1) = Some (frame_addr k, pm)" "k \<notin> frames_used (phys st1)" "0 < k"
          "k < pmm_capacity (phys st1)" "frames_used pm = insert k (frames_used (phys st1))" "pmm_inv pm"
          "pmm_capacity pm = pmm_capacity (phys st1)"
        by blast
      have k20: "k < 2 ^ 20" using pmm_cap_20 wf_dirD(1) [OF wf1] k by blast
      then have nz: "frame_addr k \<noteq> 0" using k(3) frame_addr_zero by simp
      define y where "y = pt_entry_add_attrib (pt_entry_add_attrib
        (pt_entry_set_frame (mem st1 ?a) (frame_addr k)) I86_PRESENT) ptf"
      define st2 where "st2 = st1\<lparr>phys := pm, mem := (mem st1)(?a := y)\<rparr>"
      have run2: "vmmngr_alloc_virt st dir v pdf ptf = Some st2"
        using run pres nm k(1) nz anz
        by (simp add: vmmngr_alloc_page_def walk_simps Let_def st2_def y_def)
      have m2: "mem st2 = (mem st1)(?a := y)" by (simp add: st2_def)
      have ph2: "phys st2 = pm" by (simp add: st2_def)
      have u2: "frames_used (phys st1) \<subseteq> frames_used (phys st2)" using k(5) by (auto simp: st2_def)
      note w = write_page [OF wf1 t1(1) m2 _ subsetD [OF u2 wf_dirD(4) [OF wf1]]
          subsetD [OF u2 wf_dirD(7) [OF wf1]], simplified]
      have pi: "pmm_inv (phys st2)" by (simp add: st2_def k)
      have y: "pt_entry_is_present y" "pt_entry_pfn y = frame_addr k"
        using f by (simp_all add: y_def frame_of_aligned)
      have pf: "page_frame st2 dir v = frame_addr k"
        using w(3) [OF pi] y(2) by (simp add: page_frame_def)
      have st: "same_tables st1 st2 dir" by (rule w(5) [OF pi])
      have "table_of st2 dir w \<noteq> frame_addr k" if "table_present st2 dir w" for w
      proof -
        have "table_present st1 dir w" "table_of st2 dir w = table_of st1 dir w"
          using st that by (auto simp: same_tables_def)
        then show ?thesis using wf_dirD(7) [OF wf1] k(2) k20 frame_index_addr by metis
      qed
      moreover have "dir \<noteq> frame_addr k" using d(4) ph1 k(2) k20 frame_index_addr by metis
      ultimately have "own_page st2 dir v"
        using nz k k20 ph2 by (simp add: own_page_def pf)
      moreover have "frames_used (phys st2) = insert k (frames_used (phys st))"
        using k(5) ph1 by (simp add: st2_def)
      moreover have "k \<notin> frames_used (phys st)" using k(2) ph1 by simp
      ultimately show ?thesis
        using run2 w(1,2) [OF pi] w(4) [OF pi] y(1) nm pf k20 tr1 by simp
    qed
  qed
qed

lemma alloc_virt_after_table:
  assumes "ensure_table st dir v = Some (True, st1)" and "wf_dir st1 dir" and "table_present st1 dir v"
  shows "vmmngr_alloc_virt st dir v pdf ptf = vmmngr_alloc_virt st1 dir v pdf ptf"
  using assms by (simp add: vmmngr_alloc_virt_def ensure_table_present)

lemma alloc_virt_spec:
  assumes wf: "wf_dir st dir" and f: "attrs pdf" "attrs ptf" and nm: "\<not> mapped st dir v"
  shows "\<exists>st'. vmmngr_alloc_virt st dir v pdf ptf = Some st' \<and> wf_dir st' dir \<and>
    (\<forall>w. w AND I86_FRAME \<noteq> v AND I86_FRAME \<longrightarrow> translate st' dir w = translate st dir w) \<and>
    (mapped st' dir v \<longrightarrow> own_page st' dir v \<and>
       frame_index (page_frame st' dir v) \<notin> frames_used (phys st) \<and>
       (table_present st dir v \<longrightarrow>
          frames_used (phys st') = insert (frame_index (page_frame st' dir v)) (frames_used (phys st))))"
proof (cases "table_present st dir v")
  case True
  from alloc_virt_present [OF wf True f] nm show ?thesis by blast
next
  case False
  from ensure_table_spec [OF wf, of v] show ?thesis
  proof (elim disjE exE conjE)
    assume "ensure_table st dir v = Some (False, st)"
    then have "vmmngr_alloc_virt st dir v pdf ptf = Some st" by (simp add: vmmngr_alloc_virt_def)
    with wf nm show ?thesis by blast
  next
    fix st1
    assume e: "ensure_table st dir v = Some (True, st1)" "table_present st1 dir v" "kept st st1 dir"
    note k = keptD [OF e(3)]
    note run = alloc_virt_after_table [OF e(1) k(1) e(2), of pdf ptf]
    from alloc_virt_present [OF k(1) e(2) f] obtain st' where
      a: "vmmngr_alloc_virt st1 dir v pdf ptf = Some st'" "wf_dir st' dir"
        "\<forall>w. w AND I86_FRAME \<noteq> v AND I86_FRAME \<longrightarrow> translate st' dir w = translate st1 dir w"
        "mapped st' dir v \<longrightarrow> own_page st' dir v \<and>
           frame_index (page_frame st' dir v) \<notin> frames_used (phys st1)"
      using k(2) nm by blast
    show ?thesis using a run k(3,4) False by (auto simp: subset_iff)
  qed
qed

text \<open>
  C2: mapping a page either fails because no frame is left for a page table, and then changes
  nothing, or it makes every address of that page translate into the given frame and leaves
  the translation of every other address as it was; the directory stays well formed.
\<close>

theorem vmm_map_page_translates:
  assumes "wf_dir st dir" and "attrs pdf" and "attrs ptf"
  shows "vmmngr_map_page st dir p v pdf ptf = Some st \<and> \<not> table_present st dir v \<or>
    (\<exists>st'. vmmngr_map_page st dir p v pdf ptf = Some st' \<and> wf_dir st' dir \<and>
      (\<forall>w. vmmngr_virt2phys_pdir st' dir w =
        (if w AND I86_FRAME = v AND I86_FRAME then Some ((p AND I86_FRAME) + FRAME_OFFSET w)
         else vmmngr_virt2phys_pdir st dir w)))"
  using map_page_spec [OF assms, of p v] virt2phys_translate [OF assms(1)] virt2phys_translate
  by auto

lemma vmm_sample_wf: "wf_dir vmm_sample 0x1000"
  using pmm_sample_inv
  by (simp add: wf_dir_def used_frame_def table_present_def present_bit aligned_def frame_index_def
      vmm_sample_def frames_used_def occ_set_def nbits_def occ_def pmm_sample_def)

theorem vmm_map_page_translates_witness:
  "\<exists>st'. vmmngr_map_page vmm_sample 0x1000 0x7000 0x80001234 2 2 = Some st' \<and>
    (wf_dir st' 0x1000 \<or> st' = vmm_sample)"
  using vmm_map_page_translates [OF vmm_sample_wf, of 2 2 "0x7000" "0x80001234"]
  by (auto simp: attrs_def)

text \<open>
  A page that \<^verbatim>\<open>vmmngr_alloc_virt\<close> mapped gets a frame that nobody used, and freeing it
  with \<^verbatim>\<open>vmmngr_free_virt\<close> restores every translation and, when its table existed before,
  the exact set of used frames.
\<close>

theorem vmm_alloc_free_roundtrip:
  assumes "wf_dir st dir" and "attrs pdf" and "attrs ptf" and "\<not> mapped st dir v"
    and "vmmngr_alloc_virt st dir v pdf ptf = Some st'" and "mapped st' dir v"
  shows "frame_index (page_frame st' dir v) \<notin> frames_used (phys st) \<and>
    (\<exists>st''. vmmngr_free_virt st' dir v = Some st'' \<and> wf_dir st'' dir \<and> \<not> mapped st'' dir v \<and>
      (\<forall>w. w AND I86_FRAME \<noteq> v AND I86_FRAME \<longrightarrow> translate st'' dir w = translate st dir w) \<and>
      (table_present st dir v \<longrightarrow> frames_used (phys st'') = frames_used (phys st)))"
proof -
  from alloc_virt_spec [OF assms(1-4)] assms(5,6) have
    a: "wf_dir st' dir" "own_page st' dir v" "frame_index (page_frame st' dir v) \<notin> frames_used (phys st)"
    "\<forall>w. w AND I86_FRAME \<noteq> v AND I86_FRAME \<longrightarrow> translate st' dir w = translate st dir w"
    "table_present st dir v \<longrightarrow>
       frames_used (phys st') = insert (frame_index (page_frame st' dir v)) (frames_used (phys st))"
    by auto
  from free_virt_spec [OF a(1) assms(6) a(2)] a(3-5) show ?thesis by auto
qed

lemma vmm_sample_unmapped: "\<not> mapped vmm_sample 0x1000 v"
  by (simp add: mapped_def table_present_def present_bit vmm_sample_def)

lemma vmm_sample_alloc:
  "mapped (the (vmmngr_alloc_virt vmm_sample 0x1000 0x5000 2 2)) 0x1000 0x5000"
  "vmmngr_alloc_virt vmm_sample 0x1000 0x5000 2 2 \<noteq> None"
  by code_simp+

theorem vmm_alloc_free_roundtrip_witness:
  "\<exists>st' st''. vmmngr_alloc_virt vmm_sample 0x1000 0x5000 2 2 = Some st' \<and>
    vmmngr_free_virt st' 0x1000 0x5000 = Some st'' \<and> \<not> mapped st'' 0x1000 0x5000"
proof -
  from vmm_sample_alloc(2) obtain st' where
    a: "vmmngr_alloc_virt vmm_sample 0x1000 0x5000 2 2 = Some st'" by auto
  then have "mapped st' 0x1000 0x5000" using vmm_sample_alloc(1) by simp
  from vmm_alloc_free_roundtrip [OF vmm_sample_wf _ _ vmm_sample_unmapped a this] a
  show ?thesis by (auto simp: attrs_def)
qed

text \<open>
  \<^verbatim>\<open>vmmngr_unmap_virt\<close> makes exactly the addresses of one page untranslatable and returns
  no frame to the physical memory manager.
\<close>

theorem vmm_unmap_page:
  assumes wf: "wf_dir st dir"
  shows "\<exists>st'. vmmngr_unmap_virt st dir v = Some st' \<and> wf_dir st' dir \<and> phys st' = phys st \<and>
    (\<forall>w. vmmngr_virt2phys_pdir st' dir w =
       (if w AND I86_FRAME = v AND I86_FRAME then Some 0 else vmmngr_virt2phys_pdir st dir w))"
proof (cases "table_present st dir v")
  case False
  then have run: "vmmngr_unmap_virt st dir v = Some st"
    using wf_dirD(1-4) [OF wf] by (simp add: vmmngr_unmap_virt_def walk_simps table_present_def)
  have "translate st dir w = 0" if "w AND I86_FRAME = v AND I86_FRAME" for w
    using False that by (simp add: translate_def mapped_def table_present_def same_page pde_addr_def)
  with run wf show ?thesis by (auto simp: virt2phys_translate)
next
  case t: True
  note d = wf_dirD(1-4) [OF wf] wf_dirD(5-8) [OF wf t]
  let ?a = "pte_addr (table_of st dir v) v"
  define y where "y = pt_entry_del_attrib (pt_entry_set_frame (mem st ?a) 0) I86_PRESENT"
  define st' where "st' = st\<lparr>mem := (mem st)(?a := y)\<rparr>"
  have run: "vmmngr_unmap_virt st dir v = Some st'"
    using t d by (simp add: vmmngr_unmap_virt_def walk_simps Let_def table_present_def table_of_def
        st'_def y_def)
  have m: "mem st' = (mem st)(?a := y)" by (simp add: st'_def)
  have ph: "phys st' = phys st" by (simp add: st'_def)
  note w = write_page [OF wf t m, unfolded ph, OF d(1,4) wf_dirD(7) [OF wf]]
  have "mapped st' dir w = mapped st' dir v" if "w AND I86_FRAME = v AND I86_FRAME" for w
    using that by (simp add: mapped_def table_present_def table_of_def pte_of_def same_page pde_addr_def
        pte_addr_def)
  then have "translate st' dir w = (if w AND I86_FRAME = v AND I86_FRAME then 0 else translate st dir w)" for w
    using w(2,4) by (auto simp: translate_def y_def)
  with run w(1) wf ph show ?thesis by (auto simp: virt2phys_translate)
qed

theorem vmm_unmap_page_witness:
  "\<exists>st'. vmmngr_unmap_virt vmm_sample 0x1000 0x5000 = Some st' \<and>
    vmmngr_virt2phys_pdir st' 0x1000 0x5fff = Some 0"
proof -
  have "(0x5fff :: u32) AND I86_FRAME = 0x5000 AND I86_FRAME" by simp
  with vmm_unmap_page [OF vmm_sample_wf, of "0x5000"] show ?thesis by metis
qed

end
