(* ===== verification/Memory.thy ===== *)
theory Memory
  imports Prelude
begin

text \<open>
  Byte-addressed memory and the copying and filling routines of \<^verbatim>\<open>utils/memory.c\<close>.  A C
  \<^verbatim>\<open>int count\<close> that is not positive runs no iteration, so counts are converted with \<open>nat\<close>.
  The loops read and write in the order of the code, so overlapping copies behave as they do
  there.
\<close>

type_synonym memory = "u32 \<Rightarrow> u8"

section \<open>Little-endian words\<close>

definition load16 :: "memory \<Rightarrow> u32 \<Rightarrow> u16" where
  "load16 m a = ucast (m a) OR push_bit 8 (ucast (m (a + 1)))"

definition store16 :: "memory \<Rightarrow> u32 \<Rightarrow> u16 \<Rightarrow> memory" where
  "store16 m a v = m(a := ucast v, a + 1 := ucast (drop_bit 8 v))"

definition load32 :: "memory \<Rightarrow> u32 \<Rightarrow> u32" where
  "load32 m a = ucast (m a) OR push_bit 8 (ucast (m (a + 1))) OR
     push_bit 16 (ucast (m (a + 2))) OR push_bit 24 (ucast (m (a + 3)))"

definition store32 :: "memory \<Rightarrow> u32 \<Rightarrow> u32 \<Rightarrow> memory" where
  "store32 m a v = m(a := ucast v, a + 1 := ucast (drop_bit 8 v),
     a + 2 := ucast (drop_bit 16 v), a + 3 := ucast (drop_bit 24 v))"

lemma word_add_distinct [simp]:
  "(a :: u32) + 1 \<noteq> a" "a + 2 \<noteq> a" "a + 3 \<noteq> a" "a + 2 \<noteq> a + 1" "a + 3 \<noteq> a + 1" "a + 3 \<noteq> a + 2"
  "a + 1 \<noteq> a + 2" "a + 1 \<noteq> a + 3" "a + 2 \<noteq> a + 3"
  by simp_all

lemma join32:
  fixes v :: u32
  shows "ucast (ucast v :: u8) OR push_bit 8 (ucast (ucast (drop_bit 8 v) :: u8)) OR
    push_bit 16 (ucast (ucast (drop_bit 16 v) :: u8)) OR push_bit 24 (ucast (ucast (drop_bit 24 v) :: u8)) = v"
    (is "?w = v")
proof (rule bit_word_eqI)
  fix n :: nat
  assume n: "n < LENGTH(32)"
  consider "n < 8" | "8 \<le> n" "n < 16" | "16 \<le> n" "n < 24" | "24 \<le> n" by linarith
  then show "bit ?w n = bit v n" using n by cases (auto simp: bit_simps)
qed

lemma load_store32 [simp]: "load32 (store32 m a v) a = v"
  using join32 [of v] by (simp add: load32_def store32_def)

lemma load32_cong:
  "(\<And>i. i < 4 \<Longrightarrow> m' (a + of_nat i) = m (a + of_nat i)) \<Longrightarrow> load32 m' a = load32 m a"
proof -
  assume e: "\<And>i. i < 4 \<Longrightarrow> m' (a + of_nat i) = m (a + of_nat i)"
  show ?thesis using e [of 0] e [of 1] e [of 2] e [of 3] by (simp add: load32_def)
qed

lemma store32_other: "b - a \<ge> 4 \<Longrightarrow> store32 m a v b = m b"
proof -
  assume "b - a \<ge> 4"
  then have "b \<noteq> a" "b \<noteq> a + 1" "b \<noteq> a + 2" "b \<noteq> a + 3" by (auto simp: word_le_nat_alt)
  then show ?thesis by (simp add: store32_def)
qed

section \<open>Copying and filling\<close>

fun memcpy_loop :: "memory \<Rightarrow> u32 \<Rightarrow> u32 \<Rightarrow> nat \<Rightarrow> memory" where
  "memcpy_loop m dest source 0 = m"
| "memcpy_loop m dest source (Suc n) = memcpy_loop (m(dest := m source)) (dest + 1) (source + 1) n"

definition memcpy :: "memory \<Rightarrow> u32 \<Rightarrow> u32 \<Rightarrow> int \<Rightarrow> memory" where
  "memcpy m dest source count = memcpy_loop m dest source (nat count)"

fun memcpy_dword_loop :: "memory \<Rightarrow> u32 \<Rightarrow> u32 \<Rightarrow> nat \<Rightarrow> memory" where
  "memcpy_dword_loop m dest source 0 = m"
| "memcpy_dword_loop m dest source (Suc n) =
     memcpy_dword_loop (store32 m dest (load32 m source)) (dest + 4) (source + 4) n"

definition memcpy_dword :: "memory \<Rightarrow> u32 \<Rightarrow> u32 \<Rightarrow> int \<Rightarrow> memory" where
  "memcpy_dword m dest source count = memcpy_dword_loop m dest source (nat count)"

fun memset_loop :: "memory \<Rightarrow> u32 \<Rightarrow> u8 \<Rightarrow> nat \<Rightarrow> memory" where
  "memset_loop m dest val 0 = m"
| "memset_loop m dest val (Suc n) = memset_loop (m(dest := val)) (dest + 1) val n"

definition memset :: "memory \<Rightarrow> u32 \<Rightarrow> u8 \<Rightarrow> int \<Rightarrow> memory" where
  "memset m dest val count = memset_loop m dest val (nat count)"

fun memset_dword_loop :: "memory \<Rightarrow> u32 \<Rightarrow> u32 \<Rightarrow> nat \<Rightarrow> memory" where
  "memset_dword_loop m dest val 0 = m"
| "memset_dword_loop m dest val (Suc n) = memset_dword_loop (store32 m dest val) (dest + 4) val n"

definition memset_dword :: "memory \<Rightarrow> u32 \<Rightarrow> u32 \<Rightarrow> int \<Rightarrow> memory" where
  "memset_dword m dest val count = memset_dword_loop m dest val (nat count)"

fun memsetw_loop :: "memory \<Rightarrow> u32 \<Rightarrow> u16 \<Rightarrow> nat \<Rightarrow> memory" where
  "memsetw_loop m dest val 0 = m"
| "memsetw_loop m dest val (Suc n) = memsetw_loop (store16 m dest val) (dest + 2) val n"

definition memsetw :: "memory \<Rightarrow> u32 \<Rightarrow> u16 \<Rightarrow> int \<Rightarrow> memory" where
  "memsetw m dest val count = memsetw_loop m dest val (nat count)"

fun memcmp_loop :: "memory \<Rightarrow> u32 \<Rightarrow> u32 \<Rightarrow> nat \<Rightarrow> bool" where
  "memcmp_loop m m1 m2 0 = True"
| "memcmp_loop m m1 m2 (Suc n) = (if m m1 \<noteq> m m2 then False else memcmp_loop m (m1 + 1) (m2 + 1) n)"

definition memcmp :: "memory \<Rightarrow> u32 \<Rightarrow> u32 \<Rightarrow> u32 \<Rightarrow> bool" where
  "memcmp m m1 m2 len = memcmp_loop m m1 m2 (unat len)"

text \<open>
  \<^verbatim>\<open>strcpy\<close> runs until it has copied the terminating 0; the fuel is one more than the 32-bit
  address space, so \<open>None\<close> is a copy that goes round the address space for ever.
\<close>

fun strcpy_loop :: "nat \<Rightarrow> memory \<Rightarrow> u32 \<Rightarrow> u32 \<Rightarrow> memory option" where
  "strcpy_loop 0 m dest source = None"
| "strcpy_loop (Suc f) m dest source =
     (if m source \<noteq> 0 then strcpy_loop f (m(dest := m source)) (dest + 1) (source + 1)
      else Some (m(dest := 0)))"

definition strcpy :: "memory \<Rightarrow> u32 \<Rightarrow> u32 \<Rightarrow> memory option" where
  "strcpy m dest source = strcpy_loop (2 ^ 32 + 1) m dest source"

section \<open>What they do\<close>

lemma memset_loop_spec:
  "n \<le> 2 ^ 32 \<Longrightarrow> memset_loop m dest val n a = (if unat (a - dest) < n then val else m a)"
proof (induction n arbitrary: m dest)
  case 0
  then show ?case by simp
next
  case (Suc n)
  have u: "unat (a - (dest + 1)) = (if a = dest then 2 ^ 32 - 1 else unat (a - dest) - 1)"
  proof (cases "a = dest")
    case True
    have "unat (- 1 :: u32) = 2 ^ 32 - 1" by (simp add: unsigned_minus_1_eq_mask mask_eq_exp_minus_1)
    with True show ?thesis by simp
  next
    case False
    then have "a - dest \<noteq> 0" by simp
    then have "unat (a - dest - 1) = unat (a - dest) - 1" by (rule unat_minus_one)
    with False show ?thesis by (simp add: diff_diff_eq)
  qed
  have z: "unat (a - dest) = 0 \<longleftrightarrow> a = dest" by (simp add: unat_eq_zero)
  show ?case using Suc u z by (cases "a = dest") (auto simp: not_less_eq_eq less_Suc_eq_0_disj)
qed

lemma memset_spec:
  "count < 2 ^ 31 \<Longrightarrow> memset m dest val count a =
     (if int (unat (a - dest)) < count then val else m a)"
proof -
  assume c: "count < 2 ^ 31"
  then have "nat count \<le> 2 ^ 32" by simp
  moreover have "unat (a - dest) < nat count \<longleftrightarrow> int (unat (a - dest)) < count" by linarith
  ultimately show ?thesis using memset_loop_spec [of "nat count" m dest val a]
    by (simp only: memset_def)
qed

lemma memcmp_loop_spec:
  "memcmp_loop m a b n \<longleftrightarrow> (\<forall>i < n. m (a + of_nat i) = m (b + of_nat i))"
proof (induction n arbitrary: a b)
  case 0
  then show ?case by simp
next
  case (Suc n)
  have "(\<forall>i < Suc n. P i) \<longleftrightarrow> P 0 \<and> (\<forall>i < n. P (Suc i))" for P by (auto simp: less_Suc_eq_0_disj)
  then show ?case by (simp add: Suc.IH add.assoc)
qed

text \<open>
  Copying is copying when the source does not overlap the destination, and then the copy by words
  is the copy by bytes.
\<close>

lemma memcpy_loop_add:
  "memcpy_loop m d b (p + q) = memcpy_loop (memcpy_loop m d b p) (d + of_nat p) (b + of_nat p) q"
  by (induction p arbitrary: m d b) (simp_all add: add.assoc)

definition no_overlap :: "u32 \<Rightarrow> u32 \<Rightarrow> nat \<Rightarrow> bool" where
  "no_overlap d b n \<longleftrightarrow> n \<le> 2 ^ 32 \<and> (\<forall>i < n. n \<le> unat (b + of_nat i - d))"

lemma memcpy_loop_spec:
  "no_overlap d b n \<Longrightarrow> memcpy_loop m d b n a = (if unat (a - d) < n then m (b + (a - d)) else m a)"
proof (induction n arbitrary: m a)
  case 0
  then show ?case by simp
next
  case (Suc n)
  have ap: "no_overlap d b n" unfolding no_overlap_def
  proof (intro conjI allI impI)
    show "n \<le> 2 ^ 32" using Suc.prems by (simp add: no_overlap_def)
    fix i assume "i < n"
    then show "n \<le> unat (b + of_nat i - d)" using Suc.prems unfolding no_overlap_def by (meson Suc_leD less_SucI)
  qed
  let ?m = "memcpy_loop m d b n"
  have l: "memcpy_loop m d b (Suc n) = ?m(d + of_nat n := ?m (b + of_nat n))"
    using memcpy_loop_add [of m d b n 1] by simp
  have "n < 2 ^ 32" using Suc.prems by (simp add: no_overlap_def)
  then have n: "unat (of_nat n :: u32) = n" by (simp add: unat_of_nat)
  have s: "Suc n \<le> unat (b + of_nat n - d)" using Suc.prems unfolding no_overlap_def by blast
  have ms: "?m (b + of_nat n) = m (b + of_nat n)" using Suc.IH [OF ap, of m "b + of_nat n"] s by simp
  show ?case
  proof (cases "a = d + of_nat n")
    case True
    then have "unat (a - d) = n" using n by simp
    moreover have "b + (a - d) = b + of_nat n" using True by simp
    ultimately show ?thesis unfolding l using True ms by simp
  next
    case False
    then have "a - d \<noteq> of_nat n" by (metis add.commute diff_add_cancel)
    then have "unat (a - d) \<noteq> n" using n by (metis word_unat_eq_iff)
    then have "unat (a - d) < Suc n \<longleftrightarrow> unat (a - d) < n" by linarith
    then show ?thesis unfolding l using False Suc.IH [OF ap, of m a] by simp
  qed
qed

lemma store_load32: "store32 m d (load32 m b) =
    m(d := m b, d + 1 := m (b + 1), d + 2 := m (b + 2), d + 3 := m (b + 3))"
proof -
  have "(ucast (load32 m b) :: u8) = m b" "(ucast (drop_bit 8 (load32 m b)) :: u8) = m (b + 1)"
    "(ucast (drop_bit 16 (load32 m b)) :: u8) = m (b + 2)" "(ucast (drop_bit 24 (load32 m b)) :: u8) = m (b + 3)"
    by (rule bit_word_eqI; auto simp: load32_def bit_simps dest: bit_imp_le_length)+
  then show ?thesis by (simp add: store32_def)
qed

lemma memcpy_dword_bytes: "no_overlap d b (4 * k) \<Longrightarrow> memcpy_dword_loop m d b k = memcpy_loop m d b (4 * k)"
proof (induction k arbitrary: m d b)
  case 0
  then show ?case by simp
next
  case (Suc k)
  have o: "4 * Suc k \<le> unat (b + of_nat i - d)" if "i < 4 * Suc k" for i
    using Suc.prems that by (simp add: no_overlap_def)
  have ne: "b + of_nat i \<noteq> d + of_nat j" if "i < 4" "j < 4" for i j
  proof
    assume "b + of_nat i = d + of_nat j"
    then have "unat (b + of_nat i - d) = unat (of_nat j :: u32)" by (simp add: algebra_simps)
    also have "\<dots> = j" using that(2) by (simp add: unat_of_nat)
    finally show False using o [of i] that by simp
  qed
  have n: "b + 1 \<noteq> d" "b + 2 \<noteq> d" "b + 2 \<noteq> d + 1" "b + 3 \<noteq> d" "b + 3 \<noteq> d + 1" "b + 3 \<noteq> d + 2"
    using ne [of 1 0] ne [of 2 0] ne [of 2 1] ne [of 3 0] ne [of 3 1] ne [of 3 2] by simp_all
  have "memcpy_loop m d b (Suc (Suc (Suc (Suc 0)))) = store32 m d (load32 m b)"
    using n unfolding store_load32 memcpy_loop.simps by (simp add: add.assoc)
  then have four: "memcpy_loop m d b 4 = store32 m d (load32 m b)" by (simp add: numeral_eq_Suc)
  have "no_overlap (d + 4) (b + 4) (4 * k)" unfolding no_overlap_def
  proof (intro conjI allI impI)
    show "4 * k \<le> 2 ^ 32" using Suc.prems by (simp add: no_overlap_def)
    fix i assume "i < 4 * k"
    then have "4 * Suc k \<le> unat (b + of_nat i - d)" by (intro o) simp
    moreover have e: "b + 4 + of_nat i - (d + 4) = b + of_nat i - d" by simp
    moreover have "4 * k \<le> 4 * Suc k" by simp
    ultimately show "4 * k \<le> unat (b + 4 + of_nat i - (d + 4))" unfolding e by (meson le_trans)
  qed
  then have "memcpy_dword_loop m d b (Suc k) = memcpy_loop (memcpy_loop m d b 4) (d + 4) (b + 4) (4 * k)"
    using Suc.IH by (simp add: four)
  also have "\<dots> = memcpy_loop m d b (4 + 4 * k)" by (simp add: memcpy_loop_add)
  finally show ?case by simp
qed

end
