(* ===== verification/Tagged.thy ===== *)
theory Tagged
  imports Allocator Memory
begin

text \<open>
  Heaps that put a four byte header with the number of blocks in front of every allocation:
  \<^verbatim>\<open>kmalloc\<close>/\<^verbatim>\<open>kfree\<close> of \<^verbatim>\<open>kernel/heap.c\<close> and \<^verbatim>\<open>malloc\<close>/\<^verbatim>\<open>free\<close> of
  \<^verbatim>\<open>root/cstdlib/stdlib.c\<close>.  The locale extends the block-allocator contract with the bytes
  of the heap; its clients allocate, release and write bytes of what they own.
\<close>

section \<open>Clients of a heap\<close>

text \<open>
  A live allocation as its client sees it: the pointer, the size asked for, and the bytes it
  has written so far.
\<close>

datatype heap_op = Malloc u32 | Release nat | Poke nat nat u8

type_synonym live = "u32 \<times> nat \<times> (nat \<Rightarrow> u8 option)"

fun heap_step ::
  "('s \<Rightarrow> u32 \<Rightarrow> (u32 \<times> 's) option) \<Rightarrow> ('s \<Rightarrow> u32 \<Rightarrow> 's option) \<Rightarrow> ('s \<Rightarrow> memory) \<Rightarrow>
   ('s \<Rightarrow> memory \<Rightarrow> 's) \<Rightarrow> heap_op \<Rightarrow> 's \<times> live list \<Rightarrow> ('s \<times> live list) option" where
  "heap_step mal fre get put (Malloc sz) (s, ls) = do {
     (p, s') \<leftarrow> mal s sz;
     Some (s', if p = 0 then ls else (p, unat sz, (\<lambda>j. None)) # ls) }"
| "heap_step mal fre get put (Release i) (s, ls) =
     (if i < length ls then do { s' \<leftarrow> fre s (fst (ls ! i)); Some (s', drop_nth i ls) }
      else Some (s, ls))"
| "heap_step mal fre get put (Poke i j v) (s, ls) =
     (if i < length ls then
        (case ls ! i of (p, sz, vals) \<Rightarrow>
           if j < sz then Some (put s ((get s)(p + of_nat j := v)), ls[i := (p, sz, vals(j \<mapsto> v))])
           else Some (s, ls))
      else Some (s, ls))"

fun heap_run ::
  "('s \<Rightarrow> u32 \<Rightarrow> (u32 \<times> 's) option) \<Rightarrow> ('s \<Rightarrow> u32 \<Rightarrow> 's option) \<Rightarrow> ('s \<Rightarrow> memory) \<Rightarrow>
   ('s \<Rightarrow> memory \<Rightarrow> 's) \<Rightarrow> heap_op list \<Rightarrow> 's \<times> live list \<Rightarrow> ('s \<times> live list) option" where
  "heap_run mal fre get put [] c = Some c"
| "heap_run mal fre get put (x # xs) c =
     do { c' \<leftarrow> heap_step mal fre get put x c; heap_run mal fre get put xs c' }"

text \<open>Requests whose rounded size does not wrap.\<close>

fun small_op :: "heap_op \<Rightarrow> bool" where
  "small_op (Malloc sz) = (unat sz < 2 ^ 31)"
| "small_op _ = True"

definition apart :: "live \<Rightarrow> live \<Rightarrow> bool" where
  "apart a b \<longleftrightarrow> unat (fst a) + fst (snd a) \<le> unat (fst b) \<or> unat (fst b) + fst (snd b) \<le> unat (fst a)"

lemma disjoint_nth:
  "disjoint_runs rs \<Longrightarrow> i < length rs \<Longrightarrow> k < length rs \<Longrightarrow> i \<noteq> k \<Longrightarrow> blocks (rs ! i) \<inter> blocks (rs ! k) = {}"
proof (induction rs arbitrary: i k)
  case Nil
  then show ?case by simp
next
  case (Cons r rs)
  then show ?case
    by (cases i; cases k) (auto simp: Int_commute dest: nth_mem)
qed

section \<open>Rounding up to blocks of eight bytes\<close>

definition round_up_8 :: "u32 \<Rightarrow> u32" where
  "round_up_8 sz = (if sz mod 8 \<noteq> 0 then sz + (8 - sz mod 8) else sz)"

definition block_amt :: "u32 \<Rightarrow> u32" where
  "block_amt sz = round_up_8 (sz + 4) div 8"

lemma block_amt_bounds:
  assumes "unat sz < 2 ^ 31"
  shows "0 < unat (block_amt sz)" "unat sz + 4 \<le> 8 * unat (block_amt sz)"
    "unat (block_amt sz) < 2 ^ 29" "sint (block_amt sz) = int (unat (block_amt sz))"
proof -
  let ?x = "sz + 4"
  have x: "unat ?x = unat sz + 4" using assms by (simp add: unat_word_ariths)
  have m: "unat (?x mod 8) = unat ?x mod 8" by (simp add: unat_mod_distrib)
  have r: "unat (round_up_8 ?x) = (if unat ?x mod 8 = 0 then unat ?x else unat ?x + (8 - unat ?x mod 8))"
  proof (cases "unat ?x mod 8 = 0")
    case True
    then have "?x mod 8 = 0" using m by (simp add: unat_eq_zero)
    with True show ?thesis by (simp add: round_up_8_def)
  next
    case False
    then have nz: "?x mod 8 \<noteq> 0" using m by (metis unat_0)
    have "?x mod 8 \<le> 8" unfolding word_le_nat_alt m by (simp add: less_imp_le_nat)
    then have d: "unat (8 - ?x mod 8) = 8 - unat ?x mod 8"
      by (simp add: unat_sub m del: word_not_simps)
    have "unat (?x + (8 - ?x mod 8)) = unat ?x + (8 - unat ?x mod 8)"
      unfolding unat_word_ariths(1) [of ?x] d x using assms by simp
    with False nz show ?thesis by (simp add: round_up_8_def)
  qed
  have b: "unat (block_amt sz) = unat (round_up_8 ?x) div 8"
    by (simp add: block_amt_def unat_div_distrib)
  show p: "0 < unat (block_amt sz)" unfolding b r x by auto
  have "(y :: nat) + (8 - y mod 8) = 8 * (y div 8 + 1)" for y by presburger
  then show "unat sz + 4 \<le> 8 * unat (block_amt sz)" unfolding b r x by simp presburger
  show q: "unat (block_amt sz) < 2 ^ 29" unfolding b r x using assms by auto
  then show "sint (block_amt sz) = int (unat (block_amt sz))" by (intro small_sint) simp
qed

section \<open>The contract\<close>

locale tagged_heap = block_allocator alloc free inv used capacity count addr block
  for alloc :: "'s \<Rightarrow> int \<Rightarrow> (u32 \<times> 's) option" and free :: "'s \<Rightarrow> u32 \<Rightarrow> int \<Rightarrow> 's option"
    and inv :: "'s \<Rightarrow> bool" and used :: "'s \<Rightarrow> nat set" and capacity :: "'s \<Rightarrow> nat"
    and count :: "'s \<Rightarrow> u32" and addr :: "nat \<Rightarrow> u32" and block :: "u32 \<Rightarrow> nat" +
  fixes base :: u32
    and get :: "'s \<Rightarrow> memory"
    and put :: "'s \<Rightarrow> memory \<Rightarrow> 's"
  assumes get_put: "get (put s m) = m"
    and put_inv: "inv (put s m) = inv s"
    and put_used: "used (put s m) = used s"
    and put_capacity: "capacity (put s m) = capacity s"
    and alloc_get: "alloc s n = Some (a, s') \<Longrightarrow> get s' = get s"
    and free_get: "free s a n = Some s' \<Longrightarrow> get s' = get s"
    and addr_linear: "addr k = base + of_nat (8 * k)"
    and base_fits: "inv s \<Longrightarrow> 0 < unat base \<and> unat base + 8 * capacity s \<le> 2 ^ 32"
begin

definition tmalloc :: "'s \<Rightarrow> u32 \<Rightarrow> (u32 \<times> 's) option" where
  "tmalloc s sz = do {
     (a, s') \<leftarrow> alloc s (sint (block_amt sz));
     if a = 0 then Some (0, s')
     else Some (a + 4, put s' (store32 (get s') a (block_amt sz))) }"

definition tfree :: "'s \<Rightarrow> u32 \<Rightarrow> 's option" where
  "tfree s p = (if p \<noteq> 0 then free s (p - 4) (sint (load32 (get s) (p - 4))) else Some s)"

definition in_run :: "u32 \<Rightarrow> run \<Rightarrow> bool" where
  "in_run a r \<longleftrightarrow> unat base + 8 * fst r \<le> unat a \<and> unat a < unat base + 8 * (fst r + snd r)"

lemma unat_at:
  assumes "inv s" and "k + n \<le> capacity s" and "j < 8 * n"
  shows "unat (addr k + of_nat j) = unat base + 8 * k + j"
proof -
  have "unat base + (8 * k + j) < 2 ^ 32"
    using base_fits [OF assms(1)] assms(2,3) by linarith
  moreover have "addr k + of_nat j = base + of_nat (8 * k + j)" by (simp add: addr_linear)
  ultimately show ?thesis by (simp add: unat_word_ariths unat_of_nat del: of_nat_add of_nat_mult)
qed

text \<open>What holds of a live allocation \<open>e\<close> kept in the run \<open>r\<close>.\<close>

definition owns :: "'s \<Rightarrow> run \<Rightarrow> live \<Rightarrow> bool" where
  "owns s r e \<longleftrightarrow> fst e = addr (fst r) + 4 \<and> 0 < snd r \<and> fst (snd e) + 4 \<le> 8 * snd r \<and> snd r < 2 ^ 29 \<and>
     load32 (get s) (addr (fst r)) = of_nat (snd r) \<and> blocks r \<subseteq> used s \<and> fst r + snd r \<le> capacity s \<and>
     (\<forall>j v. snd (snd e) j = Some v \<longrightarrow> j < fst (snd e) \<and> get s (fst e + of_nat j) = v)"

definition heap_inv :: "'s \<times> live list \<Rightarrow> run list \<Rightarrow> bool" where
  "heap_inv c rs \<longleftrightarrow> inv (fst c) \<and> disjoint_runs rs \<and> list_all2 (owns (fst c)) rs (snd c)"

lemma payload_at:
  assumes "inv s" and "owns s r e" and "j < fst (snd e)"
  shows "unat (fst e + of_nat j) = unat base + 8 * fst r + 4 + j"
    and "in_run (fst e + of_nat j) r"
proof -
  have "addr (fst r) + of_nat (4 + j) = fst e + of_nat j" using assms(2) by (simp add: owns_def)
  with unat_at [OF assms(1), of "fst r" "snd r" "4 + j"] assms(2,3)
  show "unat (fst e + of_nat j) = unat base + 8 * fst r + 4 + j" by (simp add: owns_def ac_simps)
  then show "in_run (fst e + of_nat j) r" using assms(2,3) by (simp add: owns_def in_run_def)
qed

lemma header_at:
  assumes "inv s" and "k + n \<le> capacity s" and "0 < n" and "i < 4"
  shows "unat (addr k + of_nat i) = unat base + 8 * k + i"
  using unat_at [OF assms(1,2), of i] assms(3,4) by simp

lemma pointer_at:
  assumes "inv s" and "owns s r e"
  shows "unat (fst e) = unat base + 8 * fst r + 4"
  using unat_at [OF assms(1), of "fst r" "snd r" 4] assms(2) by (simp add: owns_def)

text \<open>A live allocation survives every change that leaves the bytes and blocks of its run alone.\<close>

lemma owns_frame:
  assumes "inv s" and "owns s r e" and "\<And>a. in_run a r \<Longrightarrow> get s' a = get s a"
    and "blocks r \<subseteq> used s'" and "capacity s' = capacity s"
  shows "owns s' r e"
proof -
  note o = assms(2) [unfolded owns_def]
  have "load32 (get s') (addr (fst r)) = load32 (get s) (addr (fst r))"
  proof (rule load32_cong)
    fix i :: nat
    assume i: "i < 4"
    have "unat (addr (fst r) + of_nat i) = unat base + 8 * fst r + i"
      using header_at [OF assms(1), of "fst r" "snd r" i] o i by simp
    then have "in_run (addr (fst r) + of_nat i) r" using o i by (simp add: in_run_def)
    then show "get s' (addr (fst r) + of_nat i) = get s (addr (fst r) + of_nat i)" by (rule assms(3))
  qed
  moreover have "get s' (fst e + of_nat j) = get s (fst e + of_nat j)" if "j < fst (snd e)" for j
    using payload_at(2) [OF assms(1,2) that] by (rule assms(3))
  ultimately show ?thesis using o assms(4,5) by (auto simp: owns_def)
qed

lemma in_run_disjoint:
  assumes "blocks r \<inter> blocks r' = {}" and "in_run a r"
  shows "\<not> in_run a r'"
proof
  assume i: "in_run a r'"
  let ?b = "(unat a - unat base) div 8"
  have "?b \<in> blocks r" using assms(2) by (auto simp: in_run_def blocks_def less_eq_div_iff_mult_less_eq
      div_less_iff_less_mult)
  moreover have "?b \<in> blocks r'" using i by (auto simp: in_run_def blocks_def less_eq_div_iff_mult_less_eq
      div_less_iff_less_mult)
  ultimately show False using assms(1) by blast
qed

text \<open>A successful \<open>tmalloc\<close> hands out a fresh run and leaves everything else alone.\<close>

lemma tmalloc_hit:
  assumes i: "inv s" and sz: "unat sz < 2 ^ 31" and c: "tmalloc s sz = Some (p, s')" and nz: "p \<noteq> 0"
  shows "\<exists>r. owns s' r (p, unat sz, (\<lambda>j. None)) \<and> blocks r \<inter> used s = {} \<and> inv s' \<and>
    used s' = used s \<union> blocks r \<and> capacity s' = capacity s \<and>
    (\<forall>a. \<not> in_run a r \<longrightarrow> get s' a = get s a)"
proof -
  let ?n = "unat (block_amt sz)"
  note b = block_amt_bounds [OF sz]
  from c nz obtain a s1 where a: "alloc s (int ?n) = Some (a, s1)" "a \<noteq> 0"
    "p = a + 4" "s' = put s1 (store32 (get s1) a (block_amt sz))"
    by (auto simp: tmalloc_def b(4) bind_Some_iff split: if_splits)
  from alloc_hit [OF i b(1) a(1,2)] have h: "a = addr (block a)" "blocks (block a, ?n) \<inter> used s = {}"
    "block a + ?n \<le> capacity s" "used s1 = used s \<union> blocks (block a, ?n)" "inv s1"
    "capacity s1 = capacity s" by auto
  let ?r = "(block a, ?n)"
  have g: "get s' = store32 (get s) a (block_amt sz)" using a(4) alloc_get [OF a(1)] by (simp add: get_put)
  have "blocks ?r \<subseteq> used s'" using h(4) a(4) by (simp add: put_used)
  moreover have "load32 (get s') (addr (block a)) = of_nat ?n" using g h(1) by simp
  ultimately have "owns s' ?r (p, unat sz, (\<lambda>j. None))"
    using b h a(3,4) by (simp add: owns_def put_capacity)
  moreover have "get s' x = get s x" if "\<not> in_run x ?r" for x
  proof -
    have "4 \<le> x - a"
    proof (rule ccontr)
      assume "\<not> 4 \<le> x - a"
      then have l: "unat (x - a) < 4" by (simp add: word_le_nat_alt)
      have "x = addr (block a) + of_nat (unat (x - a))" using h(1) by simp
      then have "unat x = unat base + 8 * block a + unat (x - a)"
        using header_at [OF i h(3) b(1) l] by metis
      with l b(1) that show False by (simp add: in_run_def)
    qed
    then show ?thesis using g by (simp add: store32_other)
  qed
  ultimately show ?thesis using h a(4) by (auto simp: put_inv put_used put_capacity)
qed

lemma tmalloc_total:
  assumes "inv s" and "unat sz < 2 ^ 31"
  shows "\<exists>p s'. tmalloc s sz = Some (p, s')"
  using alloc_total [OF assms(1) block_amt_bounds(1) [OF assms(2)]] block_amt_bounds(4) [OF assms(2)]
  by (auto simp: tmalloc_def)

lemma tmalloc_null:
  assumes "inv s" and "unat sz < 2 ^ 31" and c: "tmalloc s sz = Some (0, s')"
  shows "s' = s"
proof -
  let ?n = "unat (block_amt sz)"
  note b = block_amt_bounds [OF assms(2)]
  from c obtain a s1 where a: "alloc s (int ?n) = Some (a, s1)" "a = 0 \<longrightarrow> s' = s1" "a \<noteq> 0 \<longrightarrow> a + 4 = 0"
    by (auto simp: tmalloc_def b(4) bind_Some_iff split: if_splits)
  have "a = 0"
  proof (rule ccontr)
    assume nz: "a \<noteq> 0"
    from alloc_hit [OF assms(1) b(1) a(1) nz] have h: "a = addr (block a)" "block a + ?n \<le> capacity s"
      by auto
    have "unat (addr (block a) + of_nat 4) = unat base + 8 * block a + 4"
      using unat_at [OF assms(1) h(2), of 4] b(1) by simp
    then have "a + 4 \<noteq> 0" using h(1) by auto
    with a(3) nz show False by simp
  qed
  with a alloc_null [OF assms(1) b(1)] show ?thesis by simp
qed

lemma tfree_owned:
  assumes i: "inv s" and o: "owns s r e"
  shows "\<exists>s'. tfree s (fst e) = Some s' \<and> inv s' \<and> used s' = used s - blocks r \<and>
    capacity s' = capacity s \<and> get s' = get s"
proof -
  note o' = o [unfolded owns_def]
  have nz: "fst e \<noteq> 0" using pointer_at [OF i o] by auto
  have "sint (of_nat (snd r) :: u32) = int (snd r)" by (rule sint_of_nat) (use o' in simp)
  then have t: "tfree s (fst e) = free s (addr (fst r)) (int (snd r))"
    using o' nz by (simp add: tfree_def)
  have "unat (addr (fst r)) = unat base + 8 * fst r"
    using unat_at [OF i, of "fst r" "snd r" 0] o' by simp
  then have "addr (fst r) \<noteq> 0" using base_fits [OF i] by auto
  from free_law [OF i _ this, of "snd r"] o' obtain s' where
    "free s (addr (fst r)) (int (snd r)) = Some s'" "used s' = used s - blocks r" "inv s'"
    "capacity s' = capacity s" by auto
  with t free_get show ?thesis by auto
qed

lemma list_all2_drop_nth:
  "list_all2 P xs ys \<Longrightarrow> list_all2 P (drop_nth i xs) (drop_nth i ys)"
  by (simp add: drop_nth_def list_all2_appendI list_all2_takeI list_all2_dropI)

lemma heap_step_malloc:
  assumes h: "heap_inv (s, ls) rs" and sz: "unat sz < 2 ^ 31"
    and c: "tmalloc s sz = Some (p, s')" and nz: "p \<noteq> 0"
  shows "\<exists>rs'. heap_inv (s', (p, unat sz, (\<lambda>j. None)) # ls) rs'"
proof -
  from h have i: "inv s" and d: "disjoint_runs rs" and l: "list_all2 (owns s) rs ls"
    by (simp_all add: heap_inv_def)
  from tmalloc_hit [OF i sz c nz] obtain r where r: "owns s' r (p, unat sz, (\<lambda>j. None))"
    "blocks r \<inter> used s = {}" "inv s'" "used s' = used s \<union> blocks r" "capacity s' = capacity s"
    "\<forall>a. \<not> in_run a r \<longrightarrow> get s' a = get s a" by blast
  have keep: "owns s' r' e" if "owns s r' e" for r' e
  proof -
    have "blocks r' \<inter> blocks r = {}" using that r(2) by (auto simp: owns_def)
    then have "get s' a = get s a" if "in_run a r'" for a using in_run_disjoint that r(6) by blast
    then show ?thesis using owns_frame [OF i that, of s'] that r(4,5) by (auto simp: owns_def)
  qed
  have "blocks r \<inter> blocks r' = {}" if "r' \<in> set rs" for r'
    using that l r(2) by (fastforce simp: list_all2_conv_all_nth in_set_conv_nth owns_def)
  then have "heap_inv (s', (p, unat sz, (\<lambda>j. None)) # ls) (r # rs)"
    using d l r(1,3) keep by (auto simp: heap_inv_def intro: list_all2_mono)
  then show ?thesis ..
qed

lemma heap_step_release:
  assumes h: "heap_inv (s, ls) rs" and i: "i < length ls"
  shows "\<exists>s'. tfree s (fst (ls ! i)) = Some s' \<and> heap_inv (s', drop_nth i ls) (drop_nth i rs)"
proof -
  from h have inv: "inv s" and d: "disjoint_runs rs" and l: "list_all2 (owns s) rs ls"
    by (simp_all add: heap_inv_def)
  from l i have li: "i < length rs" by (simp add: list_all2_lengthD)
  from l i li have "owns s (rs ! i) (ls ! i)" by (simp add: list_all2_conv_all_nth)
  from tfree_owned [OF inv this] obtain s' where s': "tfree s (fst (ls ! i)) = Some s'" "inv s'"
    "used s' = used s - blocks (rs ! i)" "capacity s' = capacity s" "get s' = get s" by blast
  note dd = disjoint_runs_drop_nth [OF d li]
  have keep: "owns s' r e" if "owns s r e" "r \<in> set (drop_nth i rs)" for r e
    using owns_frame [OF inv that(1), of s'] s'(3-5) that dd(2) by (auto simp: owns_def)
  have "list_all2 (owns s') (drop_nth i rs) (drop_nth i ls)"
    using list_all2_drop_nth [OF l, of i] keep
    by (auto simp: list_all2_conv_all_nth)
  with s' dd(1) show ?thesis by (simp add: heap_inv_def)
qed

lemma heap_step_poke:
  assumes h: "heap_inv (s, ls) rs" and i: "i < length ls" and e: "ls ! i = (p, sz, vals)" and j: "j < sz"
  shows "heap_inv (put s ((get s)(p + of_nat j := v)), ls[i := (p, sz, vals(j \<mapsto> v))]) rs"
proof -
  from h have inv: "inv s" and d: "disjoint_runs rs" and l: "list_all2 (owns s) rs ls"
    by (simp_all add: heap_inv_def)
  from l i have li: "i < length rs" by (simp add: list_all2_lengthD)
  from l i li e have o: "owns s (rs ! i) (p, sz, vals)" by (fastforce simp: list_all2_conv_all_nth)
  let ?s = "put s ((get s)(p + of_nat j := v))" and ?x = "p + of_nat j"
  have x: "in_run ?x (rs ! i)" "unat ?x = unat base + 8 * fst (rs ! i) + 4 + j"
    using payload_at [OF inv o, of j] j by simp_all
  have g: "get ?s = (get s)(?x := v)" by (simp add: get_put)
  have other: "owns ?s (rs ! k) (ls ! k)" if "k < length rs" "k \<noteq> i" for k
  proof -
    have "blocks (rs ! i) \<inter> blocks (rs ! k) = {}"
      using disjoint_nth [OF d] that li by blast
    then have "\<not> in_run ?x (rs ! k)" using in_run_disjoint x(1) by blast
    then have "get ?s a = get s a" if "in_run a (rs ! k)" for a using that g by auto
    moreover have ok: "owns s (rs ! k) (ls ! k)" using l that by (simp add: list_all2_conv_all_nth)
    moreover have "blocks (rs ! k) \<subseteq> used ?s" using ok by (simp add: put_used owns_def)
    ultimately show ?thesis by (intro owns_frame [OF inv ok]) (simp_all add: put_capacity)
  qed
  have own: "owns ?s (rs ! i) (p, sz, vals(j \<mapsto> v))"
  proof -
    have "load32 (get ?s) (addr (fst (rs ! i))) = load32 (get s) (addr (fst (rs ! i)))"
    proof (rule load32_cong)
      fix k :: nat
      assume k: "k < 4"
      have "unat (addr (fst (rs ! i)) + of_nat k) = unat base + 8 * fst (rs ! i) + k"
        using header_at [OF inv, of "fst (rs ! i)" "snd (rs ! i)" k] o k by (simp add: owns_def)
      with k x(2) have "addr (fst (rs ! i)) + of_nat k \<noteq> ?x" by auto
      then show "get ?s (addr (fst (rs ! i)) + of_nat k) = get s (addr (fst (rs ! i)) + of_nat k)"
        using g by simp
    qed
    moreover have "get ?s (p + of_nat m) = (if m = j then v else get s (p + of_nat m))" if "m < sz" for m
    proof -
      have "unat (p + of_nat m) = unat base + 8 * fst (rs ! i) + 4 + m"
        using payload_at(1) [OF inv o, of m] that by simp
      then have "p + of_nat m = ?x \<longleftrightarrow> m = j" using x(2) by (metis add_left_cancel)
      then show ?thesis using g by simp
    qed
    ultimately show ?thesis using o j by (auto simp: owns_def put_used put_capacity)
  qed
  have "list_all2 (owns ?s) rs (ls[i := (p, sz, vals(j \<mapsto> v))])"
  proof (rule list_all2_all_nthI)
    show "length rs = length (ls[i := (p, sz, vals(j \<mapsto> v))])" using l by (simp add: list_all2_lengthD)
    fix k
    assume "k < length rs"
    then show "owns ?s (rs ! k) (ls[i := (p, sz, vals(j \<mapsto> v))] ! k)"
      using own other [of k] i by (cases "k = i") simp_all
  qed
  with inv d show ?thesis by (simp add: heap_inv_def put_inv)
qed

lemma heap_step_inv:
  assumes "heap_inv c rs" and "small_op x"
  shows "\<exists>c' rs'. heap_step tmalloc tfree get put x c = Some c' \<and> heap_inv c' rs'"
proof (cases c)
  case (Pair s ls)
  note h = assms(1) [unfolded Pair]
  then have i: "inv s" by (simp add: heap_inv_def)
  show ?thesis
  proof (cases x)
    case (Malloc sz)
    with assms(2) have sz: "unat sz < 2 ^ 31" by simp
    from tmalloc_total [OF i sz] obtain p s' where t: "tmalloc s sz = Some (p, s')" by blast
    show ?thesis
    proof (cases "p = 0")
      case True
      with t tmalloc_null [OF i sz] have "s' = s" by simp
      with t True h Pair Malloc show ?thesis by auto
    next
      case False
      with t heap_step_malloc [OF h sz t] Pair Malloc show ?thesis by auto
    qed
  next
    case (Release n)
    with heap_step_release [OF h, of n] h Pair show ?thesis by (cases "n < length ls") auto
  next
    case (Poke n j v)
    show ?thesis
    proof (cases "n < length ls \<and> j < fst (snd (ls ! n))")
      case True
      obtain p sz vals where e: "ls ! n = (p, sz, vals)" by (cases "ls ! n") auto
      with True have "n < length ls" "j < sz" by auto
      with heap_step_poke [OF h _ e] e Pair Poke show ?thesis by auto
    next
      case False
      with h Pair Poke show ?thesis by (cases "ls ! n") auto
    qed
  qed
qed

lemma heap_run_inv:
  "heap_inv c rs \<Longrightarrow> \<forall>x \<in> set xs. small_op x \<Longrightarrow>
     \<exists>c' rs'. heap_run tmalloc tfree get put xs c = Some c' \<and> heap_inv c' rs'"
proof (induction xs arbitrary: c rs)
  case Nil
  then show ?case by auto
next
  case (Cons x xs)
  from heap_step_inv [OF Cons.prems(1), of x] Cons.prems(2) obtain c' rs' where
    "heap_step tmalloc tfree get put x c = Some c'" "heap_inv c' rs'" by auto
  with Cons.IH [of c' rs'] Cons.prems(2) show ?case by simp
qed

lemma heap_inv_apart:
  assumes h: "heap_inv (s, ls) rs" and "a < length ls" and "b < length ls" and "a \<noteq> b"
  shows "apart (ls ! a) (ls ! b)"
proof -
  from h have i: "inv s" and d: "disjoint_runs rs" and l: "list_all2 (owns s) rs ls"
    by (simp_all add: heap_inv_def)
  from l have len: "length rs = length ls" by (simp add: list_all2_lengthD)
  from l assms(2,3) len have o: "owns s (rs ! a) (ls ! a)" "owns s (rs ! b) (ls ! b)"
    by (simp_all add: list_all2_conv_all_nth)
  have "blocks (rs ! a) \<inter> blocks (rs ! b) = {}" using disjoint_nth [OF d] assms(2-4) len by simp
  then have "fst (rs ! a) + snd (rs ! a) \<le> fst (rs ! b) \<or> fst (rs ! b) + snd (rs ! b) \<le> fst (rs ! a)"
    using o by (auto simp: blocks_def owns_def ivl_disj_int disjoint_iff)
  then show ?thesis using pointer_at [OF i o(1)] pointer_at [OF i o(2)] o
    by (auto simp: apart_def owns_def)
qed

lemma heap_inv_contents:
  assumes "heap_inv (s, ls) rs" and "(p, sz, vals) \<in> set ls" and "vals j = Some v"
  shows "get s (p + of_nat j) = v"
  using assms by (fastforce simp: heap_inv_def list_all2_conv_all_nth in_set_conv_nth owns_def)

text \<open>
  Every client run succeeds; the live allocations do not overlap, and each still holds the
  bytes its owner wrote.
\<close>

lemma heap_client_safe:
  assumes "inv s" and "\<forall>x \<in> set xs. small_op x"
  shows "\<exists>s' ls. heap_run tmalloc tfree get put xs (s, []) = Some (s', ls) \<and> inv s' \<and>
    (\<forall>a < length ls. \<forall>b < length ls. a \<noteq> b \<longrightarrow> apart (ls ! a) (ls ! b)) \<and>
    (\<forall>p sz vals j v. (p, sz, vals) \<in> set ls \<and> vals j = Some v \<longrightarrow> get s' (p + of_nat j) = v)"
proof -
  have "heap_inv (s, []) []" using assms(1) by (simp add: heap_inv_def)
  from heap_run_inv [OF this assms(2)] obtain s' ls rs where
    r: "heap_run tmalloc tfree get put xs (s, []) = Some (s', ls)" "heap_inv (s', ls) rs" by auto
  then have "inv s'" by (simp add: heap_inv_def)
  with r(1) heap_inv_apart [OF r(2)] heap_inv_contents [OF r(2)] show ?thesis by auto
qed

end

end
