(* ===== verification/Kheap.thy ===== *)
theory Kheap
  imports Runs Tagged
begin

text \<open>
  The kernel heap, \<^verbatim>\<open>kernel/heap.c\<close>: 2 MiB at \<^verbatim>\<open>HEAP_BASE\<close> in blocks of 8 bytes, a bitmap of
  8192 dwords, a counter, and a four byte header with the block count in front of every
  allocation.  \<open>heap_mem\<close> is the memory of the kernel, of which the heap uses
  \<^verbatim>\<open>HEAP_BASE\<close> to \<^verbatim>\<open>HEAP_CEILING\<close>.
\<close>

record kheap =
  alloc_used_blocks :: u32
  alloc_memory_map :: bitmap
  heap_mem :: memory

abbreviation HEAP_BASE :: u32 where "HEAP_BASE \<equiv> 0xC0300000"
abbreviation HEAP_CEILING :: u32 where "HEAP_CEILING \<equiv> 0xC0500000"
abbreviation HEAP_BLOCK_SIZE :: u32 where "HEAP_BLOCK_SIZE \<equiv> 8"
abbreviation BLOCK_AMT_DESC_SIZE :: u32 where "BLOCK_AMT_DESC_SIZE \<equiv> 4"

definition alloc_max_blocks :: u32 where
  "alloc_max_blocks = (HEAP_CEILING - HEAP_BASE) div HEAP_BLOCK_SIZE"

section \<open>The block bitmap\<close>

definition alloc_mmap_set :: "kheap \<Rightarrow> nat \<Rightarrow> kheap option" where
  "alloc_mmap_set st b =
     do { m \<leftarrow> bm_set (alloc_memory_map st) b; Some (st\<lparr>alloc_memory_map := m\<rparr>) }"

definition alloc_mmap_unset :: "kheap \<Rightarrow> nat \<Rightarrow> kheap option" where
  "alloc_mmap_unset st b =
     do { m \<leftarrow> bm_unset (alloc_memory_map st) b; Some (st\<lparr>alloc_memory_map := m\<rparr>) }"

definition alloc_mmap_test :: "kheap \<Rightarrow> nat \<Rightarrow> bool option" where
  "alloc_mmap_test st b = bm_test (alloc_memory_map st) b"

definition alloc_get_block_count :: int where
  "alloc_get_block_count = sint alloc_max_blocks"

definition alloc_get_used_blocks :: "kheap \<Rightarrow> int" where
  "alloc_get_used_blocks st = sint (alloc_used_blocks st)"

definition alloc_get_free_block_count :: "kheap \<Rightarrow> int" where
  "alloc_get_free_block_count st = sint (alloc_max_blocks - alloc_used_blocks st)"

definition alloc_dwords :: nat where
  "alloc_dwords = unat (word_of_int (cdiv alloc_get_block_count 32) :: u32)"

definition alloc_mmap_first_free :: "kheap \<Rightarrow> int option" where
  "alloc_mmap_first_free st = bm_first_free (alloc_memory_map st) alloc_dwords"

definition alloc_mmap_first_free_s :: "kheap \<Rightarrow> int \<Rightarrow> int option" where
  "alloc_mmap_first_free_s st seq_len = bm_first_free_s (alloc_memory_map st) alloc_dwords seq_len"

section \<open>Blocks\<close>

definition kmalloc_alloc_block :: "kheap \<Rightarrow> (u32 \<times> kheap) option" where
  "kmalloc_alloc_block st =
     (if alloc_get_free_block_count st \<le> 0 then Some (0, st)
      else do {
        frame \<leftarrow> alloc_mmap_first_free st;
        if frame = -1 then Some (0, st)
        else do {
          st \<leftarrow> alloc_mmap_set st (nat frame);
          let addr = HEAP_BASE + word_of_int (frame * 8);
          Some (addr, st\<lparr>alloc_used_blocks := alloc_used_blocks st + 1\<rparr>) } })"

definition kmalloc_alloc_blocks :: "kheap \<Rightarrow> int \<Rightarrow> (u32 \<times> kheap) option" where
  "kmalloc_alloc_blocks st seq_len =
     (if alloc_get_free_block_count st \<le> 0 then Some (0, st)
      else do {
        frame \<leftarrow> alloc_mmap_first_free_s st seq_len;
        if frame = -1 then Some (0, st)
        else do {
          let addr = HEAP_BASE + word_of_int (frame * 8);
          (m, u) \<leftarrow> occupy_run (alloc_memory_map st) (alloc_used_blocks st) (nat frame) (nat seq_len);
          Some (addr, st\<lparr>alloc_memory_map := m, alloc_used_blocks := u\<rparr>) } })"

definition kmalloc_free_block :: "kheap \<Rightarrow> u32 \<Rightarrow> kheap option" where
  "kmalloc_free_block st p = do {
     st \<leftarrow> alloc_mmap_unset st (unat ((p - HEAP_BASE) div HEAP_BLOCK_SIZE));
     Some (st\<lparr>alloc_used_blocks := alloc_used_blocks st - 1\<rparr>) }"

definition kmalloc_free_blocks :: "kheap \<Rightarrow> u32 \<Rightarrow> int \<Rightarrow> kheap option" where
  "kmalloc_free_blocks st p seq_len = do {
     (m, u) \<leftarrow> release_run (alloc_memory_map st) (alloc_used_blocks st)
                 (unat ((p - HEAP_BASE) div HEAP_BLOCK_SIZE)) (nat seq_len);
     Some (st\<lparr>alloc_memory_map := m, alloc_used_blocks := u\<rparr>) }"

section \<open>Allocations\<close>

definition kmalloc :: "kheap \<Rightarrow> u32 \<Rightarrow> (u32 \<times> kheap) option" where
  "kmalloc st sz = (
     let sz = sz + BLOCK_AMT_DESC_SIZE;
         sz = (if sz mod HEAP_BLOCK_SIZE \<noteq> 0
               then sz + (HEAP_BLOCK_SIZE - sz mod HEAP_BLOCK_SIZE) else sz);
         amt = sz div HEAP_BLOCK_SIZE in do {
       (phys_addr, st) \<leftarrow> kmalloc_alloc_blocks st (sint amt);
       if phys_addr = 0 then Some (0, st)
       else Some (phys_addr + BLOCK_AMT_DESC_SIZE,
                  st\<lparr>heap_mem := store32 (heap_mem st) phys_addr amt\<rparr>) })"

definition kcalloc :: "kheap \<Rightarrow> u32 \<Rightarrow> (u32 \<times> kheap) option" where
  "kcalloc st sz = do {
     (p, st) \<leftarrow> kmalloc st sz;
     guard (p \<noteq> 0 \<or> sint sz \<le> 0);
     Some (p, st\<lparr>heap_mem := memset (heap_mem st) p 0 (sint sz)\<rparr>) }"

definition kfree :: "kheap \<Rightarrow> u32 \<Rightarrow> kheap option" where
  "kfree st phys_addr =
     (if phys_addr \<noteq> 0 then
        (let amt = load32 (heap_mem st) (phys_addr - BLOCK_AMT_DESC_SIZE) in
         kmalloc_free_blocks st (phys_addr - BLOCK_AMT_DESC_SIZE) (sint amt))
      else Some st)"

definition heap_init :: "kheap \<Rightarrow> kheap option" where
  "heap_init st = do {
     m \<leftarrow> memset_bytes (alloc_memory_map st) 0 0 (unat ((HEAP_CEILING - HEAP_BASE) div HEAP_BLOCK_SIZE div 32));
     Some (st\<lparr>alloc_memory_map := m\<rparr>) }"

text \<open>The state of the zero-initialised static variables.\<close>

definition kheap_start :: "memory \<Rightarrow> kheap" where
  "kheap_start m = \<lparr>alloc_used_blocks = 0, alloc_memory_map = replicate 8192 0, heap_mem = m\<rparr>"

section \<open>The contract\<close>

definition kheap_inv :: "kheap \<Rightarrow> bool" where
  "kheap_inv st \<longleftrightarrow> length (alloc_memory_map st) = 8192"

definition kheap_used :: "kheap \<Rightarrow> nat set" where
  "kheap_used st = occ_set (alloc_memory_map st)"

definition heap_addr :: "nat \<Rightarrow> u32" where
  "heap_addr k = HEAP_BASE + of_nat (8 * k)"

definition heap_block :: "u32 \<Rightarrow> nat" where
  "heap_block a = unat ((a - HEAP_BASE) div HEAP_BLOCK_SIZE)"

lemma alloc_dwords_8192: "alloc_dwords = 8192"
  by (simp add: alloc_dwords_def alloc_get_block_count_def alloc_max_blocks_def)

lemma unat_heap_addr: "k < 2 ^ 18 \<Longrightarrow> unat (heap_addr k) = 0xC0300000 + 8 * k"
  by (simp add: heap_addr_def unat_word_ariths unat_of_nat del: of_nat_mult of_nat_numeral)

lemma heap_block_addr: "k < 2 ^ 18 \<Longrightarrow> heap_block (heap_addr k) = k"
proof -
  assume k: "k < 2 ^ 18"
  have "heap_addr k - HEAP_BASE = of_nat (8 * k)" by (simp add: heap_addr_def)
  moreover have "unat (of_nat (8 * k) :: u32) = 8 * k" using k by (simp add: unat_of_nat del: of_nat_mult)
  ultimately show ?thesis by (simp add: heap_block_def unat_div_distrib del: of_nat_mult)
qed

lemma heap_addr_int: "HEAP_BASE + word_of_int (int k * 8) = heap_addr k"
  by (simp add: heap_addr_def mult.commute)

abbreviation heap_capacity :: nat where "heap_capacity \<equiv> 262144"

lemma kmalloc_blocks_cases:
  assumes i: "kheap_inv st" and n: "0 < n"
  shows "kmalloc_alloc_blocks st (int n) = Some (0, st) \<or>
    (\<exists>k st'. kmalloc_alloc_blocks st (int n) = Some (heap_addr k, st') \<and> k < 2 ^ 18 \<and>
       k + n \<le> heap_capacity \<and> least_run (alloc_memory_map st) n k \<and> kheap_inv st' \<and>
       blocks (k, n) \<inter> kheap_used st = {} \<and> kheap_used st' = kheap_used st \<union> blocks (k, n) \<and>
       alloc_used_blocks st' = alloc_used_blocks st + of_nat n \<and> heap_mem st' = heap_mem st)"
proof (cases "alloc_get_free_block_count st \<le> 0 \<or> alloc_mmap_first_free_s st (int n) = Some (-1)")
  case True
  then show ?thesis by (auto simp: kmalloc_alloc_blocks_def)
next
  case False
  have l: "8192 \<le> length (alloc_memory_map st)" using i by (simp add: kheap_inv_def)
  from search_run [OF l n, of "alloc_used_blocks st"] False obtain k m u where
    k: "alloc_mmap_first_free_s st (int n) = Some (int k)"
      "occupy_run (alloc_memory_map st) (alloc_used_blocks st) k n = Some (m, u)"
      "least_run (alloc_memory_map st) n k" "k + n \<le> heap_capacity"
      "length m = length (alloc_memory_map st)" "u = alloc_used_blocks st + of_nat n"
      "blocks (k, n) \<inter> occ_set (alloc_memory_map st) = {}"
      "occ_set m = occ_set (alloc_memory_map st) \<union> blocks (k, n)"
    by (auto simp: alloc_mmap_first_free_s_def alloc_dwords_8192)
  let ?st = "st\<lparr>alloc_memory_map := m, alloc_used_blocks := u\<rparr>"
  have "kmalloc_alloc_blocks st (int n) = Some (heap_addr k, ?st)"
    using False k(1,2) by (simp add: kmalloc_alloc_blocks_def heap_addr_def Let_def mult.commute)
  moreover have "k < 2 ^ 18" using k(4) n by simp
  ultimately show ?thesis using k i by (intro disjI2 exI [of _ k] exI [of _ ?st])
    (simp add: kheap_inv_def kheap_used_def)
qed

lemma heap_addr_nonzero: "k < 2 ^ 18 \<Longrightarrow> heap_addr k \<noteq> 0"
  using unat_heap_addr [of k] by auto

lemma kmalloc_free_law:
  assumes i: "kheap_inv st" and n: "0 < n" and u: "blocks (k, n) \<subseteq> kheap_used st"
    and c: "k + n \<le> heap_capacity"
  shows "\<exists>st'. kmalloc_free_blocks st (heap_addr k) (int n) = Some st' \<and>
    kheap_used st' = kheap_used st - blocks (k, n) \<and> kheap_inv st' \<and>
    alloc_used_blocks st' = alloc_used_blocks st - of_nat n"
proof -
  have "k < 2 ^ 18" using c n by simp
  then have b: "unat ((heap_addr k - HEAP_BASE) div 8) = k"
    using heap_block_addr [of k] by (simp add: heap_block_def)
  from release_occupied [OF u [unfolded kheap_used_def] n, of "alloc_used_blocks st"] obtain m where
    m: "release_run (alloc_memory_map st) (alloc_used_blocks st) k n = Some (m, alloc_used_blocks st - of_nat n)"
      "length m = length (alloc_memory_map st)" "occ_set m = occ_set (alloc_memory_map st) - blocks (k, n)"
    by blast
  then show ?thesis using i by (simp add: kmalloc_free_blocks_def b kheap_inv_def kheap_used_def)
qed

lemma kmalloc_blocks_mem:
  "kmalloc_alloc_blocks st n = Some (a, st') \<Longrightarrow> heap_mem st' = heap_mem st"
  "kmalloc_free_blocks st p n = Some st' \<Longrightarrow> heap_mem st' = heap_mem st"
  by (auto simp: kmalloc_alloc_blocks_def kmalloc_free_blocks_def c_simps Let_def split: if_splits)

interpretation kh: tagged_heap kmalloc_alloc_blocks kmalloc_free_blocks kheap_inv kheap_used
  "\<lambda>st. heap_capacity" alloc_used_blocks heap_addr heap_block HEAP_BASE heap_mem
  "\<lambda>st m. st\<lparr>heap_mem := m\<rparr>"
proof unfold_locales
  fix s :: kheap and n :: nat
  assume "kheap_inv s" and "0 < n"
  from kmalloc_blocks_cases [OF this]
  show "\<exists>a s'. kmalloc_alloc_blocks s (int n) = Some (a, s')" by blast
next
  fix s s' :: kheap and n :: nat
  assume "kheap_inv s" and "0 < n" and "kmalloc_alloc_blocks s (int n) = Some (0, s')"
  then show "s' = s" using kmalloc_blocks_cases [of s n] heap_addr_nonzero by fastforce
next
  fix s s' :: kheap and n :: nat and a :: u32
  assume a: "kheap_inv s" "0 < n" "kmalloc_alloc_blocks s (int n) = Some (a, s')" "a \<noteq> 0"
  from kmalloc_blocks_cases [OF a(1,2)] a(3,4) obtain k where
    "a = heap_addr k" "k < 2 ^ 18" "k + n \<le> heap_capacity" "kheap_inv s'"
    "blocks (k, n) \<inter> kheap_used s = {}" "kheap_used s' = kheap_used s \<union> blocks (k, n)"
    "alloc_used_blocks s' = alloc_used_blocks s + of_nat n" by auto
  then show "a = heap_addr (heap_block a) \<and> blocks (heap_block a, n) \<inter> kheap_used s = {} \<and>
      heap_block a + n \<le> heap_capacity \<and> kheap_used s' = kheap_used s \<union> blocks (heap_block a, n) \<and>
      kheap_inv s' \<and> heap_capacity = heap_capacity \<and> alloc_used_blocks s' = alloc_used_blocks s + of_nat n"
    by (simp add: heap_block_addr)
next
  fix s :: kheap and n k :: nat
  assume "kheap_inv s" "0 < n" "heap_addr k \<noteq> 0" "blocks (k, n) \<subseteq> kheap_used s" "k + n \<le> heap_capacity"
  from kmalloc_free_law [OF this(1,2,4,5)]
  show "\<exists>s'. kmalloc_free_blocks s (heap_addr k) (int n) = Some s' \<and>
      kheap_used s' = kheap_used s - blocks (k, n) \<and> kheap_inv s' \<and> heap_capacity = heap_capacity \<and>
      alloc_used_blocks s' = alloc_used_blocks s - of_nat n" by simp
qed (auto simp: kheap_inv_def kheap_used_def heap_addr_def dest: kmalloc_blocks_mem)

lemma kmalloc_tagged: "kmalloc st sz = kh.tmalloc st sz"
  by (simp only: kmalloc_def kh.tmalloc_def block_amt_def round_up_8_def Let_def)

lemma kfree_tagged: "kfree st p = kh.tfree st p"
  by (simp add: kfree_def kh.tfree_def Let_def)

section \<open>Properties\<close>

text \<open>
  C6: every sequence of \<^verbatim>\<open>kmalloc\<close>, \<^verbatim>\<open>kfree\<close> of live pointers and writes inside live
  allocations succeeds on the kernel heap; live allocations never overlap and keep every byte
  their owner wrote, whatever the other owners do.
\<close>

theorem kheap_client_safe:
  assumes "kheap_inv st" and "\<forall>x \<in> set xs. small_op x"
  shows "\<exists>st' ls. heap_run kmalloc kfree heap_mem (\<lambda>st m. st\<lparr>heap_mem := m\<rparr>) xs (st, []) = Some (st', ls) \<and>
    kheap_inv st' \<and>
    (\<forall>a < length ls. \<forall>b < length ls. a \<noteq> b \<longrightarrow> apart (ls ! a) (ls ! b)) \<and>
    (\<forall>p sz vals j v. (p, sz, vals) \<in> set ls \<and> vals j = Some v \<longrightarrow> heap_mem st' (p + of_nat j) = v)"
proof -
  have e: "kmalloc = kh.tmalloc" "kfree = kh.tfree" by (intro ext kmalloc_tagged kfree_tagged)+
  show ?thesis unfolding e by (rule kh.heap_client_safe [OF assms])
qed

lemma kheap_start_inv: "kheap_inv (kheap_start m)"
  by (simp add: kheap_inv_def kheap_start_def)

theorem kheap_client_safe_witness:
  "\<exists>st' ls. heap_run kmalloc kfree heap_mem (\<lambda>st m. st\<lparr>heap_mem := m\<rparr>)
      [Malloc 20, Malloc 5, Poke 0 4 7, Release 1, Malloc 12] (kheap_start (\<lambda>a. 0), []) = Some (st', ls) \<and>
    kheap_inv st'"
proof -
  have "\<forall>x \<in> set [Malloc 20, Malloc 5, Poke 0 4 7, Release 1, Malloc 12]. small_op x" by simp
  from kheap_client_safe [OF kheap_start_inv this] show ?thesis by blast
qed

text \<open>
  \<^verbatim>\<open>kmalloc\<close> of a size below 2 GiB returns null and changes nothing, or a pointer four
  bytes past a fresh run of blocks large enough for the size, with the block count in the
  header; \<^verbatim>\<open>kfree\<close> of that pointer restores the set of used blocks and the counter.
\<close>

theorem kheap_malloc_free_roundtrip:
  assumes i: "kheap_inv st" and sz: "unat sz < 2 ^ 31" and m: "kmalloc st sz = Some (p, st')"
  shows "p = 0 \<and> st' = st \<or>
    (\<exists>k n st''. p = heap_addr k + 4 \<and> unat sz + 4 \<le> 8 * n \<and> k + n \<le> heap_capacity \<and>
       blocks (k, n) \<inter> kheap_used st = {} \<and> kheap_used st' = kheap_used st \<union> blocks (k, n) \<and>
       load32 (heap_mem st') (p - 4) = of_nat n \<and>
       kfree st' p = Some st'' \<and> kheap_used st'' = kheap_used st)"
proof (cases "p = 0")
  case True
  then show ?thesis using kh.tmalloc_null [OF i sz] m by (simp add: kmalloc_tagged)
next
  case False
  from kh.tmalloc_hit [OF i sz m [unfolded kmalloc_tagged] False] obtain r where
    r: "kh.owns st' r (p, unat sz, (\<lambda>j. None))" "blocks r \<inter> kheap_used st = {}" "kheap_inv st'"
      "kheap_used st' = kheap_used st \<union> blocks r" by blast
  obtain k n where rk: "r = (k, n)" by (cases r)
  from kh.tfree_owned [OF r(3,1)] obtain st'' where
    f: "kfree st' p = Some st''" "kheap_used st'' = kheap_used st' - blocks r"
    unfolding kfree_tagged by auto
  from r(1) have o: "p = heap_addr k + 4" "unat sz + 4 \<le> 8 * n" "k + n \<le> heap_capacity"
    "load32 (heap_mem st') (heap_addr k) = of_nat n"
    by (simp_all add: kh.owns_def rk)
  then have h: "load32 (heap_mem st') (p - 4) = of_nat n" by simp
  have u: "kheap_used st'' = kheap_used st" using f(2) r(2,4) by auto
  from o(1-3) h f(1) u r(2,4) [unfolded rk] show ?thesis by blast
qed

lemma kheap_start_malloc:
  "kmalloc (kheap_start (\<lambda>a. 0)) 20 = Some (0xC0300004,
     \<lparr>alloc_used_blocks = 3, alloc_memory_map = 7 # replicate 8191 0,
      heap_mem = store32 (\<lambda>a. 0) 0xC0300000 3\<rparr>)"
proof -
  have r: "replicate 8192 (0 :: u32) = 0 # replicate 8191 0" by (simp flip: replicate_Suc)
  have s: "bm_first_free_s (0 # replicate 8191 0) 8192 3 = Some 0"
    unfolding bm_first_free_s_def by (subst first_free_s_loop.simps, simp, subst scan_dword_s.simps, simp,
      subst scan_dword_s.simps, simp, subst scan_dword_s.simps, simp)
  have o: "occupy_run (0 # replicate 8191 0) 0 0 3 = Some (7 # replicate 8191 0, 3)"
    by (simp add: numeral_3_eq_3 bm_set_def aget_def aset_def)
  show ?thesis
    by (simp add: kmalloc_def kmalloc_alloc_blocks_def alloc_mmap_first_free_s_def alloc_dwords_8192
        alloc_get_free_block_count_def alloc_max_blocks_def kheap_start_def r s o Let_def)
qed

theorem kheap_malloc_free_roundtrip_witness:
  "\<exists>st' st''. kmalloc (kheap_start (\<lambda>a. 0)) 20 = Some (0xC0300004, st') \<and>
    kfree st' 0xC0300004 = Some st'' \<and> kheap_used st'' = kheap_used (kheap_start (\<lambda>a. 0))"
  using kheap_malloc_free_roundtrip [OF kheap_start_inv _ kheap_start_malloc] kheap_start_malloc by auto

text \<open>
  \<^verbatim>\<open>heap_init\<close> passes a count of dwords to a routine that fills bytes, so it clears the
  bits of the first 65536 blocks only; the other three quarters of the bitmap keep what they
  held (the zeroes of the static array at boot).
\<close>

theorem kheap_init_clears_quarter:
  assumes "kheap_inv st"
  shows "\<exists>st'. heap_init st = Some st' \<and> kheap_inv st' \<and>
    (\<forall>k < heap_capacity. occ (alloc_memory_map st') k \<longleftrightarrow> 65536 \<le> k \<and> occ (alloc_memory_map st) k)"
proof -
  have n: "unat ((HEAP_CEILING - HEAP_BASE) div HEAP_BLOCK_SIZE div 32) = 8192" by simp
  have l: "length (alloc_memory_map st) = 8192" using assms by (simp add: kheap_inv_def)
  have "\<exists>m. memset_bytes (alloc_memory_map st) 0 0 8192 = Some m"
    by (rule memset_bytes_Some) (simp add: l)
  then obtain m where m: "memset_bytes (alloc_memory_map st) 0 0 8192 = Some m" ..
  note sp = memset_bytes_spec [OF m]
  have "occ m k \<longleftrightarrow> 65536 \<le> k \<and> occ (alloc_memory_map st) k" if "k < heap_capacity" for k
  proof -
    have "k < nbits (alloc_memory_map st)" using that by (simp add: nbits_def l)
    moreover have "k div 8 < 8192 \<longleftrightarrow> k < 65536" by auto
    ultimately show ?thesis using sp by auto
  qed
  moreover have "heap_init st = Some (st\<lparr>alloc_memory_map := m\<rparr>)"
    unfolding heap_init_def n using m by simp
  ultimately show ?thesis using sp l by (simp add: kheap_inv_def)
qed

theorem kheap_init_clears_quarter_witness:
  "\<exists>st'. heap_init \<lparr>alloc_used_blocks = 0, alloc_memory_map = replicate 8192 0xffffffff,
      heap_mem = (\<lambda>a. 0)\<rparr> = Some st' \<and> occ (alloc_memory_map st') 70000 = occ (replicate 8192 0xffffffff) 70000"
  using kheap_init_clears_quarter [of "\<lparr>alloc_used_blocks = 0, alloc_memory_map = replicate 8192 0xffffffff,
      heap_mem = (\<lambda>a. 0)\<rparr>"]
  by (auto simp: kheap_inv_def)

text \<open>
  A request within four bytes of 4 GiB wraps to zero blocks; the search for a run of length 0
  stops at the first occupied block, so the caller gets a pointer into a live allocation, whose
  header is overwritten with 0.
\<close>

lemma kmalloc_wraps:
  "kmalloc \<lparr>alloc_used_blocks = 3, alloc_memory_map = 7 # replicate 8191 0,
      heap_mem = store32 (\<lambda>a. 0) 0xC0300000 3\<rparr> 0xFFFFFFFC =
   Some (0xC0300004, \<lparr>alloc_used_blocks = 3, alloc_memory_map = 7 # replicate 8191 0,
      heap_mem = store32 (store32 (\<lambda>a. 0) 0xC0300000 3) 0xC0300000 0\<rparr>)"
proof -
  have s: "bm_first_free_s (7 # replicate 8191 0) 8192 0 = Some 0"
    unfolding bm_first_free_s_def by (subst first_free_s_loop.simps, simp, subst scan_dword_s.simps, simp)
  show ?thesis
    by (simp add: kmalloc_def kmalloc_alloc_blocks_def alloc_mmap_first_free_s_def alloc_dwords_8192
        alloc_get_free_block_count_def alloc_max_blocks_def s Let_def)
qed

end
