(* ===== verification/Uheap.thy ===== *)
theory Uheap
  imports Runs Tagged
begin

text \<open>
  The user-space heap, \<^verbatim>\<open>root/cstdlib/heap.c\<close>, and \<^verbatim>\<open>malloc\<close>, \<^verbatim>\<open>calloc\<close> and \<^verbatim>\<open>free\<close> of
  \<^verbatim>\<open>root/cstdlib/stdlib.c\<close>.  The bitmap of 16384 dwords is the first thing the heap asks
  \<^verbatim>\<open>sbrk\<close> for; the 4 MiB of blocks follow it and are claimed from \<^verbatim>\<open>sbrk\<close> as they are first
  used.  The bitmap is the field \<open>u_memory_map\<close>, the bytes behind it are \<open>u_mem\<close>.

  \<^verbatim>\<open>sbrk\<close> is a system call that ends in \<^verbatim>\<open>inc_proc_brk\<close> (\<^verbatim>\<open>kernel/process.c\<close>); \<open>proc_brk\<close> is the
  break of the process and \<open>brk_limit\<close> the end of the image plus \<^verbatim>\<open>SBRK_LIM\<close>.  The pages it maps
  are the subject of the virtual memory manager, not of this theory.
\<close>

record uheap =
  u_used_blocks :: u32
  u_memory_map :: bitmap
  sbrk_top :: u32
  heap_base :: u32
  heap_initialized :: bool
  u_mem :: memory
  proc_brk :: u32
  brk_limit :: u32

definition u_max_blocks :: u32 where
  "u_max_blocks = 0x400000 div 8"

definition sbrk :: "uheap \<Rightarrow> u32 \<Rightarrow> u32 \<times> uheap" where
  "sbrk st inc =
     (if proc_brk st = 0 then (0, st)
      else if proc_brk st + inc > brk_limit st then (0, st)
      else (proc_brk st, st\<lparr>proc_brk := proc_brk st + inc\<rparr>))"

definition u_get_block_count :: int where
  "u_get_block_count = sint u_max_blocks"

definition u_get_used_blocks :: "uheap \<Rightarrow> int" where
  "u_get_used_blocks st = sint (u_used_blocks st)"

definition u_get_free_block_count :: "uheap \<Rightarrow> int" where
  "u_get_free_block_count st = sint (u_max_blocks - u_used_blocks st)"

definition u_mmap_set :: "uheap \<Rightarrow> nat \<Rightarrow> uheap option" where
  "u_mmap_set st b = do { m \<leftarrow> bm_set (u_memory_map st) b; Some (st\<lparr>u_memory_map := m\<rparr>) }"

definition u_mmap_unset :: "uheap \<Rightarrow> nat \<Rightarrow> uheap option" where
  "u_mmap_unset st b = do { m \<leftarrow> bm_unset (u_memory_map st) b; Some (st\<lparr>u_memory_map := m\<rparr>) }"

definition u_mmap_test :: "uheap \<Rightarrow> nat \<Rightarrow> bool option" where
  "u_mmap_test st b = bm_test (u_memory_map st) b"

definition u_dwords :: nat where
  "u_dwords = unat (word_of_int (cdiv u_get_block_count 32) :: u32)"

definition u_mmap_first_free :: "uheap \<Rightarrow> int option" where
  "u_mmap_first_free st = bm_first_free (u_memory_map st) u_dwords"

definition u_mmap_first_free_s :: "uheap \<Rightarrow> int \<Rightarrow> int option" where
  "u_mmap_first_free_s st seq_len = bm_first_free_s (u_memory_map st) u_dwords seq_len"

text \<open>A failed \<^verbatim>\<open>sbrk\<close> makes the code clear memory at the null pointer.\<close>

definition u_heap_init :: "uheap \<Rightarrow> uheap option" where
  "u_heap_init st = (
     let (p, st) = sbrk st (0x400000 div 8 div 8) in do {
       guard (p \<noteq> 0);
       let base = p + 0x400000 div 8 div 8;
       Some (st\<lparr>u_memory_map := replicate 16384 0, heap_base := base, sbrk_top := base,
               heap_initialized := True\<rparr>) })"

definition malloc_alloc_block :: "uheap \<Rightarrow> (u32 \<times> uheap) option" where
  "malloc_alloc_block st = do {
     st \<leftarrow> (if \<not> heap_initialized st then u_heap_init st else Some st);
     if u_get_free_block_count st \<le> 0 then Some (0, st)
     else do {
       frame \<leftarrow> u_mmap_first_free st;
       if frame = -1 then Some (0, st)
       else do {
         st \<leftarrow> u_mmap_set st (nat frame);
         let addr = heap_base st + word_of_int (frame * 8);
         let st = (if addr + 8 > sbrk_top st
                   then (let st = snd (sbrk st 8) in st\<lparr>sbrk_top := sbrk_top st + 8\<rparr>) else st);
         Some (addr, st\<lparr>u_used_blocks := u_used_blocks st + 1\<rparr>) } } }"

definition grow_to :: "uheap \<Rightarrow> u32 \<Rightarrow> uheap" where
  "grow_to st t =
     (if t > sbrk_top st
      then (let inc = t - sbrk_top st; st = snd (sbrk st inc) in st\<lparr>sbrk_top := sbrk_top st + inc\<rparr>)
      else st)"

definition malloc_alloc_blocks :: "uheap \<Rightarrow> int \<Rightarrow> (u32 \<times> uheap) option" where
  "malloc_alloc_blocks st seq_len = do {
     st \<leftarrow> (if \<not> heap_initialized st then u_heap_init st else Some st);
     if u_get_free_block_count st \<le> 0 then Some (0, st)
     else do {
       frame \<leftarrow> u_mmap_first_free_s st seq_len;
       if frame = -1 then Some (0, st)
       else do {
         let addr = heap_base st + word_of_int (frame * 8);
         let st = grow_to st (addr + word_of_int (seq_len * 8));
         (m, u) \<leftarrow> occupy_run (u_memory_map st) (u_used_blocks st) (nat frame) (nat seq_len);
         Some (addr, st\<lparr>u_memory_map := m, u_used_blocks := u\<rparr>) } } }"

definition malloc_free_block :: "uheap \<Rightarrow> u32 \<Rightarrow> uheap option" where
  "malloc_free_block st p = do {
     st \<leftarrow> u_mmap_unset st (unat ((p - heap_base st) div 8));
     Some (st\<lparr>u_used_blocks := u_used_blocks st - 1\<rparr>) }"

definition malloc_free_blocks :: "uheap \<Rightarrow> u32 \<Rightarrow> int \<Rightarrow> uheap option" where
  "malloc_free_blocks st p seq_len = do {
     (m, u) \<leftarrow> release_run (u_memory_map st) (u_used_blocks st)
                 (unat ((p - heap_base st) div 8)) (nat seq_len);
     Some (st\<lparr>u_memory_map := m, u_used_blocks := u\<rparr>) }"

section \<open>malloc, calloc and free\<close>

definition malloc :: "uheap \<Rightarrow> u32 \<Rightarrow> (u32 \<times> uheap) option" where
  "malloc st sz = (
     let sz = sz + 4;
         sz = (if sz mod 8 \<noteq> 0 then sz + (8 - sz mod 8) else sz);
         amt = sz div 8 in do {
       (addr, st) \<leftarrow> malloc_alloc_blocks st (sint amt);
       if addr = 0 then Some (0, st)
       else Some (addr + 4, st\<lparr>u_mem := store32 (u_mem st) addr amt\<rparr>) })"

definition calloc :: "uheap \<Rightarrow> u32 \<Rightarrow> (u32 \<times> uheap) option" where
  "calloc st sz = do {
     (p, st) \<leftarrow> malloc st sz;
     guard (p \<noteq> 0 \<or> sint sz \<le> 0);
     Some (p, st\<lparr>u_mem := memset (u_mem st) p 0 (sint sz)\<rparr>) }"

definition free :: "uheap \<Rightarrow> u32 \<Rightarrow> uheap option" where
  "free st addr =
     (if addr \<noteq> 0 then
        (let amt = load32 (u_mem st) (addr - 4) in
         malloc_free_blocks st (addr - 4) (sint amt))
      else Some st)"

section \<open>The contract\<close>

definition u_used :: "uheap \<Rightarrow> nat set" where
  "u_used st = occ_set (u_memory_map st)"

text \<open>
  The invariant of an initialised heap with blocks from \<open>B\<close>: the break of the process is the
  top the heap believes in, and every used block lies below it.
\<close>

definition uheap_inv :: "u32 \<Rightarrow> uheap \<Rightarrow> bool" where
  "uheap_inv B st \<longleftrightarrow> heap_initialized st \<and> heap_base st = B \<and> length (u_memory_map st) = 16384 \<and>
     0 < unat B \<and> unat B + 0x400000 \<le> unat (brk_limit st) \<and> sbrk_top st = proc_brk st \<and>
     unat B \<le> unat (proc_brk st) \<and>
     (\<forall>k \<in> u_used st. unat B + 8 * k + 8 \<le> unat (proc_brk st))"

definition u_addr :: "u32 \<Rightarrow> nat \<Rightarrow> u32" where
  "u_addr B k = B + of_nat (8 * k)"

definition u_block :: "u32 \<Rightarrow> u32 \<Rightarrow> nat" where
  "u_block B a = unat ((a - B) div 8)"

abbreviation u_capacity :: nat where "u_capacity \<equiv> 524288"

lemma u_dwords_16384: "u_dwords = 16384"
  by (simp add: u_dwords_def u_get_block_count_def u_max_blocks_def)

lemma unat_u_addr:
  "unat B + 0x400000 \<le> unat (l :: u32) \<Longrightarrow> k \<le> u_capacity \<Longrightarrow> unat (u_addr B k) = unat B + 8 * k"
  using unat_u32 [of l]
  by (simp add: u_addr_def unat_word_ariths unat_of_nat del: of_nat_mult of_nat_numeral)

lemma u_block_addr: "k < u_capacity \<Longrightarrow> u_block B (u_addr B k) = k"
proof -
  assume k: "k < u_capacity"
  have "u_addr B k - B = of_nat (8 * k)" by (simp add: u_addr_def)
  moreover have "unat (of_nat (8 * k) :: u32) = 8 * k" using k by (simp add: unat_of_nat del: of_nat_mult)
  ultimately show ?thesis by (simp add: u_block_def unat_div_distrib del: of_nat_mult)
qed

text \<open>Growing the break far enough for a run that fits the heap.\<close>

lemma grow_to_spec:
  assumes i: "uheap_inv B st" and k: "k \<le> u_capacity"
  shows "uheap_inv B (grow_to st (u_addr B k))"
    and "unat B + 8 * k \<le> unat (proc_brk (grow_to st (u_addr B k)))"
    and "u_memory_map (grow_to st (u_addr B k)) = u_memory_map st"
    and "u_used_blocks (grow_to st (u_addr B k)) = u_used_blocks st"
    and "u_mem (grow_to st (u_addr B k)) = u_mem st"
proof -
  from i have l: "unat B + 0x400000 \<le> unat (brk_limit st)" and t: "sbrk_top st = proc_brk st"
    and b: "unat B \<le> unat (proc_brk st)" "0 < unat B" by (simp_all add: uheap_inv_def)
  note a = unat_u_addr [OF l k]
  have le: "\<not> u_addr B k > brk_limit st" using a l k by (simp add: word_less_nat_alt)
  have nz: "proc_brk st \<noteq> 0" using b by auto
  have g: "grow_to st (u_addr B k) =
      (if u_addr B k > proc_brk st then st\<lparr>proc_brk := u_addr B k, sbrk_top := u_addr B k\<rparr> else st)"
    using nz le t by (simp add: grow_to_def sbrk_def Let_def)
  show "uheap_inv B (grow_to st (u_addr B k))"
    using i a by (auto simp: g uheap_inv_def u_used_def word_less_nat_alt)
  show "unat B + 8 * k \<le> unat (proc_brk (grow_to st (u_addr B k)))"
    using a by (auto simp: g word_less_nat_alt)
  show "u_memory_map (grow_to st (u_addr B k)) = u_memory_map st"
    "u_used_blocks (grow_to st (u_addr B k)) = u_used_blocks st"
    "u_mem (grow_to st (u_addr B k)) = u_mem st" by (simp_all add: g)
qed

lemma u_addr_nonzero: "uheap_inv B st \<Longrightarrow> k \<le> u_capacity \<Longrightarrow> u_addr B k \<noteq> 0"
  using unat_u_addr [of B "brk_limit st" k] by (auto simp: uheap_inv_def)

lemma malloc_blocks_cases:
  assumes i: "uheap_inv B st" and n: "0 < n"
  shows "malloc_alloc_blocks st (int n) = Some (0, st) \<or>
    (\<exists>k st'. malloc_alloc_blocks st (int n) = Some (u_addr B k, st') \<and> k < u_capacity \<and>
       k + n \<le> u_capacity \<and> uheap_inv B st' \<and>
       blocks (k, n) \<inter> u_used st = {} \<and> u_used st' = u_used st \<union> blocks (k, n) \<and>
       u_used_blocks st' = u_used_blocks st + of_nat n)"
proof (cases "u_get_free_block_count st \<le> 0 \<or> u_mmap_first_free_s st (int n) = Some (-1)")
  case True
  then show ?thesis using i by (auto simp: malloc_alloc_blocks_def uheap_inv_def)
next
  case False
  have l: "16384 \<le> length (u_memory_map st)" using i by (simp add: uheap_inv_def)
  from search_run [OF l n, of "u_used_blocks st"] False obtain k m u where
    k: "u_mmap_first_free_s st (int n) = Some (int k)"
      "occupy_run (u_memory_map st) (u_used_blocks st) k n = Some (m, u)"
      "k + n \<le> u_capacity" "length m = length (u_memory_map st)" "u = u_used_blocks st + of_nat n"
      "blocks (k, n) \<inter> occ_set (u_memory_map st) = {}"
      "occ_set m = occ_set (u_memory_map st) \<union> blocks (k, n)"
    by (auto simp: u_mmap_first_free_s_def u_dwords_16384)
  let ?g = "grow_to st (u_addr B (k + n))"
  note g = grow_to_spec [OF i k(3)]
  let ?st = "?g\<lparr>u_memory_map := m, u_used_blocks := u\<rparr>"
  have hb: "heap_base st = B" "heap_initialized st" using i by (simp_all add: uheap_inv_def)
  have a: "u_addr B k + word_of_int (int n * 8) = u_addr B (k + n)"
    "B + word_of_int (int k * 8) = u_addr B k"
    by (simp_all add: u_addr_def mult.commute distrib_left)
  have run: "malloc_alloc_blocks st (int n) = Some (u_addr B k, ?st)"
    using False k(1,2) g(3,4) unfolding malloc_alloc_blocks_def
    by (simp add: hb a(2) a(1) Let_def del: of_int_mult)
  have "uheap_inv B ?st"
    using g(1,2) k(4,7) g(3) by (auto simp: uheap_inv_def u_used_def blocks_def)
  then show ?thesis using run k n by (intro disjI2 exI [of _ k] exI [of _ ?st]) (simp add: u_used_def)
qed

lemma malloc_free_law:
  assumes i: "uheap_inv B st" and n: "0 < n" and u: "blocks (k, n) \<subseteq> u_used st"
    and c: "k + n \<le> u_capacity"
  shows "\<exists>st'. malloc_free_blocks st (u_addr B k) (int n) = Some st' \<and>
    u_used st' = u_used st - blocks (k, n) \<and> uheap_inv B st' \<and>
    u_used_blocks st' = u_used_blocks st - of_nat n"
proof -
  have hb: "heap_base st = B" using i by (simp add: uheap_inv_def)
  have "k < u_capacity" using c n by simp
  then have b: "unat ((u_addr B k - B) div 8) = k"
    using u_block_addr [of k B] by (simp add: u_block_def)
  from release_occupied [OF u [unfolded u_used_def] n, of "u_used_blocks st"] obtain m where
    m: "release_run (u_memory_map st) (u_used_blocks st) k n = Some (m, u_used_blocks st - of_nat n)"
      "length m = length (u_memory_map st)" "occ_set m = occ_set (u_memory_map st) - blocks (k, n)"
    by blast
  then show ?thesis using i by (simp add: malloc_free_blocks_def b hb uheap_inv_def u_used_def)
qed

lemma malloc_blocks_mem:
  "malloc_alloc_blocks st n = Some (a, st') \<Longrightarrow> u_mem st' = u_mem st"
  "malloc_free_blocks st p n = Some st' \<Longrightarrow> u_mem st' = u_mem st"
  by (auto simp: malloc_alloc_blocks_def malloc_free_blocks_def grow_to_def sbrk_def u_heap_init_def
      c_simps Let_def split: if_splits)

interpretation uh: tagged_heap malloc_alloc_blocks malloc_free_blocks "uheap_inv B" u_used
  "\<lambda>st. u_capacity" u_used_blocks "u_addr B" "u_block B" B u_mem "\<lambda>st m. st\<lparr>u_mem := m\<rparr>" for B
proof unfold_locales
  fix s :: uheap and n :: nat
  assume "uheap_inv B s" and "0 < n"
  from malloc_blocks_cases [OF this]
  show "\<exists>a s'. malloc_alloc_blocks s (int n) = Some (a, s')" by blast
next
  fix s s' :: uheap and n :: nat
  assume a: "uheap_inv B s" "0 < n" "malloc_alloc_blocks s (int n) = Some (0, s')"
  then show "s' = s" using malloc_blocks_cases [OF a(1,2)] u_addr_nonzero [OF a(1)] by fastforce
next
  fix s s' :: uheap and n :: nat and a :: u32
  assume a: "uheap_inv B s" "0 < n" "malloc_alloc_blocks s (int n) = Some (a, s')" "a \<noteq> 0"
  from malloc_blocks_cases [OF a(1,2)] a(3,4) obtain k where
    "a = u_addr B k" "k < u_capacity" "k + n \<le> u_capacity" "uheap_inv B s'"
    "blocks (k, n) \<inter> u_used s = {}" "u_used s' = u_used s \<union> blocks (k, n)"
    "u_used_blocks s' = u_used_blocks s + of_nat n" by auto
  then show "a = u_addr B (u_block B a) \<and> blocks (u_block B a, n) \<inter> u_used s = {} \<and>
      u_block B a + n \<le> u_capacity \<and> u_used s' = u_used s \<union> blocks (u_block B a, n) \<and>
      uheap_inv B s' \<and> u_capacity = u_capacity \<and> u_used_blocks s' = u_used_blocks s + of_nat n"
    by (simp add: u_block_addr)
next
  fix s :: uheap and n k :: nat
  assume "uheap_inv B s" "0 < n" "u_addr B k \<noteq> 0" "blocks (k, n) \<subseteq> u_used s" "k + n \<le> u_capacity"
  from malloc_free_law [OF this(1,2,4,5)]
  show "\<exists>s'. malloc_free_blocks s (u_addr B k) (int n) = Some s' \<and>
      u_used s' = u_used s - blocks (k, n) \<and> uheap_inv B s' \<and> u_capacity = u_capacity \<and>
      u_used_blocks s' = u_used_blocks s - of_nat n" by simp
next
  fix s :: uheap
  assume "uheap_inv B s"
  then show "0 < unat B \<and> unat B + 8 * u_capacity \<le> 2 ^ 32"
    using unat_u32 [of "brk_limit s"] by (simp add: uheap_inv_def)
qed (auto simp: uheap_inv_def u_used_def u_addr_def dest: malloc_blocks_mem)

lemma malloc_tagged: "malloc st sz = uh.tmalloc st sz"
  by (simp only: malloc_def uh.tmalloc_def block_amt_def round_up_8_def Let_def)

lemma free_tagged: "free st p = uh.tfree st p"
  by (simp add: free_def uh.tfree_def Let_def)

section \<open>Properties\<close>

text \<open>
  C7: the user heap keeps the allocations of a process apart and intact under every sequence
  of \<^verbatim>\<open>malloc\<close>, \<^verbatim>\<open>free\<close> and writes inside live allocations, and every used block lies below
  the break that the kernel granted.
\<close>

theorem uheap_client_safe:
  assumes "uheap_inv B st" and "\<forall>x \<in> set xs. small_op x"
  shows "\<exists>st' ls. heap_run malloc free u_mem (\<lambda>st m. st\<lparr>u_mem := m\<rparr>) xs (st, []) = Some (st', ls) \<and>
    (\<forall>k \<in> u_used st'. unat B + 8 * k + 8 \<le> unat (proc_brk st')) \<and>
    (\<forall>a < length ls. \<forall>b < length ls. a \<noteq> b \<longrightarrow> apart (ls ! a) (ls ! b)) \<and>
    (\<forall>p sz vals j v. (p, sz, vals) \<in> set ls \<and> vals j = Some v \<longrightarrow> u_mem st' (p + of_nat j) = v)"
proof -
  have e: "malloc = uh.tmalloc" "free = uh.tfree" by (intro ext malloc_tagged free_tagged)+
  from uh.heap_client_safe [OF assms] show ?thesis unfolding e by (auto simp: uheap_inv_def)
qed

text \<open>
  The first allocation of a process sets the heap up: the bitmap takes the first 64 KiB
  that \<^verbatim>\<open>sbrk\<close> grants, all blocks are free, and the block area starts at the new break.
\<close>

theorem uheap_first_malloc:
  assumes "\<not> heap_initialized st" and "proc_brk st \<noteq> 0" and "u_used_blocks st = 0"
    and "unat (proc_brk st) + 0x410000 \<le> unat (brk_limit st)"
  shows "\<exists>st'. u_heap_init st = Some st' \<and> uheap_inv (proc_brk st + 0x10000) st' \<and> u_used st' = {} \<and>
    malloc st sz = malloc st' sz"
proof -
  let ?B = "proc_brk st + 0x10000"
  let ?st = "st\<lparr>proc_brk := ?B, u_memory_map := replicate 16384 0, heap_base := ?B, sbrk_top := ?B,
    heap_initialized := True\<rparr>"
  have b: "unat ?B = unat (proc_brk st) + 0x10000"
    using assms(4) unat_u32 [of "brk_limit st"] by (simp add: unat_word_ariths)
  then have le: "\<not> ?B > brk_limit st" using assms(4) by (simp add: word_less_nat_alt)
  have r: "u_heap_init st = Some ?st"
    using assms(2) le by (simp add: u_heap_init_def sbrk_def Let_def)
  have "u_used ?st = {}" by (auto simp: u_used_def occ_set_def nbits_def occ_def)
  moreover have "uheap_inv ?B ?st" using b assms(4) calculation by (simp add: uheap_inv_def)
  moreover have "malloc st sz = malloc ?st sz"
    using assms(1) r by (simp add: malloc_def malloc_alloc_blocks_def)
  ultimately show ?thesis using r by blast
qed

definition uheap_sample :: uheap where
  "uheap_sample = \<lparr>u_used_blocks = 0, u_memory_map = [], sbrk_top = 0, heap_base = 0,
     heap_initialized = False, u_mem = (\<lambda>a. 0), proc_brk = 0x402000, brk_limit = 0x40402000\<rparr>"

theorem uheap_first_malloc_witness:
  "\<exists>st'. u_heap_init uheap_sample = Some st' \<and> uheap_inv 0x412000 st'"
  using uheap_first_malloc [of uheap_sample] by (auto simp: uheap_sample_def)

lemma uheap_started: "uheap_inv 0x412000 \<lparr>u_used_blocks = 0, u_memory_map = replicate 16384 0,
   sbrk_top = 0x412000, heap_base = 0x412000, heap_initialized = True, u_mem = (\<lambda>a. 0),
   proc_brk = 0x412000, brk_limit = 0x40402000\<rparr>"
  by (auto simp: uheap_inv_def u_used_def occ_set_def nbits_def occ_def)

theorem uheap_client_safe_witness:
  "\<exists>st' ls. heap_run malloc free u_mem (\<lambda>st m. st\<lparr>u_mem := m\<rparr>)
      [Malloc 100, Malloc 8, Poke 1 99 3, Release 0, Malloc 4]
      (\<lparr>u_used_blocks = 0, u_memory_map = replicate 16384 0, sbrk_top = 0x412000, heap_base = 0x412000,
        heap_initialized = True, u_mem = (\<lambda>a. 0), proc_brk = 0x412000, brk_limit = 0x40402000\<rparr>, []) =
      Some (st', ls)"
proof -
  have "\<forall>x \<in> set [Malloc 100, Malloc 8, Poke 1 99 3, Release 0, Malloc 4]. small_op x" by simp
  from uheap_client_safe [OF uheap_started this] show ?thesis by blast
qed

text \<open>
  The result of \<^verbatim>\<open>sbrk\<close> is not looked at: when the process is at its limit, the heap still
  hands out the block and moves its own top past the break of the process.
\<close>

lemma malloc_ignores_failed_sbrk:
  "malloc_alloc_block \<lparr>u_used_blocks = 0, u_memory_map = [0], sbrk_top = 0x412000, heap_base = 0x412000,
     heap_initialized = True, u_mem = (\<lambda>a. 0), proc_brk = 0x412000, brk_limit = 0x412000\<rparr> =
   Some (0x412000, \<lparr>u_used_blocks = 1, u_memory_map = [1], sbrk_top = 0x412008, heap_base = 0x412000,
     heap_initialized = True, u_mem = (\<lambda>a. 0), proc_brk = 0x412000, brk_limit = 0x412000\<rparr>)"
proof -
  have s: "bm_first_free [0] 16384 = Some 0"
    unfolding bm_first_free_def by (subst first_free_loop.simps, simp, subst scan_dword.simps, simp)
  show ?thesis
    by (simp add: malloc_alloc_block_def u_mmap_first_free_def u_dwords_16384 s u_mmap_set_def bm_set_def
        u_get_free_block_count_def u_max_blocks_def sbrk_def Let_def)
qed

end
