(* ===== verification/Cstr.thy ===== *)
theory Cstr
  imports Prelude
begin

text \<open>
  C strings and number formatting: \<^verbatim>\<open>utils/strings.c\<close>, the integer functions of
  \<^verbatim>\<open>utils/math.c\<close>, and the string functions of \<^verbatim>\<open>root/cstdlib/string.c\<close> and
  \<^verbatim>\<open>root/cstdlib/stdlib.c\<close>.

  A \<^verbatim>\<open>char *\<close> is the array it points to, from the pointed-to byte on; \<open>None\<close> is a read or write
  outside that array, or a loop that does not end.  A \<^verbatim>\<open>char\<close> is a byte, read as a signed number
  where the code computes with it.  \<open>holds b s\<close> says that the array \<open>b\<close> holds the string \<open>s\<close>:
  its bytes, then 0, then whatever follows.
\<close>

type_synonym buffer = "u8 list"

definition holds :: "buffer \<Rightarrow> u8 list \<Rightarrow> bool" where
  "holds b s \<longleftrightarrow> 0 \<notin> set s \<and> (\<exists>rest. b = s @ 0 # rest)"

lemma holds_nth: "holds b s \<Longrightarrow> i < length s \<Longrightarrow> b ! i = s ! i"
  by (auto simp: holds_def nth_append)

lemma holds_end: "holds b s \<Longrightarrow> b ! length s = 0"
  by (auto simp: holds_def)

lemma holds_length: "holds b s \<Longrightarrow> length s < length b"
  by (auto simp: holds_def)

lemma holds_nonzero: "holds b s \<Longrightarrow> i < length s \<Longrightarrow> b ! i \<noteq> 0"
  using holds_nth [of b s i] by (auto simp: holds_def dest: nth_mem)

lemma holds_unique: "holds b s \<Longrightarrow> holds b t \<Longrightarrow> s = t"
proof -
  have "takeWhile (\<lambda>x. x \<noteq> 0) b = s" if "holds b s" for s
    using that unfolding holds_def by (elim conjE exE, simp, subst takeWhile_append2) auto
  then show "holds b s \<Longrightarrow> holds b t \<Longrightarrow> s = t" by metis
qed

section \<open>Length and comparison\<close>

function strlen_from :: "buffer \<Rightarrow> nat \<Rightarrow> nat option" where
  "strlen_from b i = do { c \<leftarrow> aget b i; if c = 0 then Some i else strlen_from b (Suc i) }"
  by pat_completeness auto
termination by (relation "measure (\<lambda>(b, i). length b - i)") (auto simp: c_simps aget_def split: if_splits)

declare strlen_from.simps [simp del]

definition strlen :: "buffer \<Rightarrow> nat option" where
  "strlen b = strlen_from b 0"

function strcmp_from :: "buffer \<Rightarrow> buffer \<Rightarrow> nat \<Rightarrow> bool option" where
  "strcmp_from s1 s2 i = do {
     n \<leftarrow> strlen s1;
     if i < n then do {
       c \<leftarrow> aget s1 i;
       d \<leftarrow> aget s2 i;
       if c \<noteq> d then Some False else strcmp_from s1 s2 (Suc i) }
     else Some True }"
  by pat_completeness auto
termination by (relation "measure (\<lambda>(s1, s2, i). length s1 - i)") (auto simp: aget_def split: if_splits)

declare strcmp_from.simps [simp del]

definition strcmp :: "buffer \<Rightarrow> buffer \<Rightarrow> bool option" where
  "strcmp s1 s2 = do {
     n1 \<leftarrow> strlen s1;
     n2 \<leftarrow> strlen s2;
     if n1 \<noteq> n2 then Some False else strcmp_from s1 s2 0 }"

lemma strlen_from_holds: "holds b s \<Longrightarrow> i \<le> length s \<Longrightarrow> strlen_from b i = Some (length s)"
proof (induction "length s - i" arbitrary: i)
  case 0
  then show ?case using holds_end [of b s] holds_length [of b s]
    by (subst strlen_from.simps) simp
next
  case (Suc n)
  then have "i < length s" by simp
  with Suc holds_nonzero [of b s i] holds_length [of b s] show ?case
    by (subst strlen_from.simps) simp
qed

lemma strlen_holds: "holds b s \<Longrightarrow> strlen b = Some (length s)"
  by (simp add: strlen_def strlen_from_holds)

lemma strcmp_from_holds:
  assumes "holds b s" and "holds c t" and "length s = length t"
  shows "i \<le> length s \<Longrightarrow> strcmp_from b c i = Some (drop i s = drop i t)"
proof (induction "length s - i" arbitrary: i)
  case 0
  then show ?case using assms by (subst strcmp_from.simps) (simp add: strlen_holds)
next
  case (Suc n)
  then have i: "i < length s" by simp
  then have "drop i s = s ! i # drop (Suc i) s" "drop i t = t ! i # drop (Suc i) t"
    using assms(3) by (simp_all add: Cons_nth_drop_Suc)
  moreover have "strcmp_from b c (Suc i) = Some (drop (Suc i) s = drop (Suc i) t)"
    using Suc.hyps(1) [of "Suc i"] Suc.hyps(2) i by simp
  ultimately show ?case
    using i assms holds_length [of b s] holds_length [of c t] holds_nth [of b s i] holds_nth [of c t i]
    by (subst strcmp_from.simps) (simp add: strlen_holds)
qed

lemma strcmp_holds:
  assumes "holds b s" and "holds c t"
  shows "strcmp b c = Some (s = t)"
proof (cases "length s = length t")
  case True
  with strcmp_from_holds [OF assms True, of 0] assms show ?thesis
    by (simp add: strcmp_def strlen_holds)
next
  case False
  then show ?thesis using assms by (auto simp: strcmp_def strlen_holds)
qed

section \<open>Case\<close>

definition lower :: "u8 \<Rightarrow> u8" where
  "lower c = (if 65 \<le> c \<and> c \<le> 90 then c + 32 else c)"

definition upper :: "u8 \<Rightarrow> u8" where
  "upper c = (if 97 \<le> c \<and> c \<le> 122 then c - 32 else c)"

function change_case :: "(u8 \<Rightarrow> u8) \<Rightarrow> buffer \<Rightarrow> nat \<Rightarrow> buffer option" where
  "change_case f b i = do {
     n \<leftarrow> strlen b;
     if i < n then do {
       c \<leftarrow> aget b i;
       change_case f (b[i := f c]) (Suc i) }
     else Some b }"
  by pat_completeness auto
termination by (relation "measure (\<lambda>(f, b, i). length b - i)") (auto simp: aget_def split: if_splits)

declare change_case.simps [simp del]

definition to_lower :: "buffer \<Rightarrow> buffer option" where
  "to_lower b = change_case lower b 0"

definition to_upper :: "buffer \<Rightarrow> buffer option" where
  "to_upper b = change_case upper b 0"

lemma holds_update:
  assumes "holds b s" and "i < length s" and "c \<noteq> 0"
  shows "holds (b[i := c]) (s[i := c])"
proof -
  from assms(1) obtain rest where "b = s @ 0 # rest" "0 \<notin> set s" by (auto simp: holds_def)
  then have "b[i := c] = s[i := c] @ 0 # rest" using assms(2) by (simp add: list_update_append1)
  moreover have "0 \<notin> set (s[i := c])"
    using \<open>0 \<notin> set s\<close> assms(3) set_update_subset_insert [of s i c] by auto
  ultimately show ?thesis by (auto simp: holds_def)
qed

lemma change_case_holds:
  assumes f: "\<And>c. c \<noteq> 0 \<Longrightarrow> f c \<noteq> 0"
  shows "holds b s \<Longrightarrow> i \<le> length s \<Longrightarrow>
    \<exists>b'. change_case f b i = Some b' \<and> holds b' (take i s @ map f (drop i s)) \<and> length b' = length b"
proof (induction "length s - i" arbitrary: i b s)
  case 0
  then show ?case by (subst change_case.simps) (simp add: strlen_holds)
next
  case (Suc n)
  then have i: "i < length s" by simp
  let ?c = "s ! i"
  have "?c \<noteq> 0" using Suc.prems(1) i by (auto simp: holds_def dest: nth_mem)
  then have h: "holds (b[i := f ?c]) (s[i := f ?c])" using holds_update [OF Suc.prems(1) i] f by blast
  have "n = length (s[i := f ?c]) - Suc i" using Suc.hyps(2) by simp
  from Suc.hyps(1) [OF this h] i obtain b' where b': "change_case f (b[i := f ?c]) (Suc i) = Some b'"
    "holds b' (take (Suc i) (s[i := f ?c]) @ map f (drop (Suc i) (s[i := f ?c])))"
    "length b' = length b" by auto
  have "take (Suc i) (s[i := f ?c]) @ map f (drop (Suc i) (s[i := f ?c])) = take i s @ map f (drop i s)"
    using i by (simp add: take_Suc_conv_app_nth Cons_nth_drop_Suc [symmetric])
  with b' i Suc.prems(1) holds_length [of b s] holds_nth [of b s i] show ?case
    by (subst change_case.simps) (simp add: strlen_holds)
qed

section \<open>Removing characters\<close>

text \<open>The loop \<^verbatim>\<open>for (int j = i; j < len; j++) str[j] = str[j+1];\<close>.\<close>

function shift_left :: "buffer \<Rightarrow> nat \<Rightarrow> nat \<Rightarrow> buffer option" where
  "shift_left b j len =
     (if j < len then do {
        c \<leftarrow> aget b (j + 1);
        b \<leftarrow> aset b j c;
        shift_left b (Suc j) len }
      else Some b)"
  by pat_completeness auto
termination by (relation "measure (\<lambda>(b, j, len). len - j)") auto

declare shift_left.simps [simp del]

text \<open>
  \<^verbatim>\<open>i--\<close> after a removal and \<^verbatim>\<open>i++\<close> of the loop cancel, so the index stays where it is.
\<close>

function strip_character_loop :: "buffer \<Rightarrow> u8 \<Rightarrow> nat \<Rightarrow> nat \<Rightarrow> buffer option" where
  "strip_character_loop b ch i len =
     (if i < len then do {
        c \<leftarrow> aget b i;
        if c = ch then do { b \<leftarrow> shift_left b i len; strip_character_loop b ch i (len - 1) }
        else strip_character_loop b ch (Suc i) len }
      else Some b)"
  by pat_completeness auto
termination by (relation "measure (\<lambda>(b, ch, i, len). len - i)") auto

function strip_from_start_loop :: "buffer \<Rightarrow> u8 \<Rightarrow> nat \<Rightarrow> nat \<Rightarrow> buffer option" where
  "strip_from_start_loop b ch i len =
     (if i < len then do {
        c \<leftarrow> aget b i;
        if c = ch then do { b \<leftarrow> shift_left b i len; strip_from_start_loop b ch i (len - 1) }
        else Some b }
      else Some b)"
  by pat_completeness auto
termination by (relation "measure (\<lambda>(b, ch, i, len). len - i)") auto

text \<open>Here \<^verbatim>\<open>i--\<close> after a removal comes on top of the \<^verbatim>\<open>i--\<close> of the loop.\<close>

function strip_from_end_loop :: "buffer \<Rightarrow> u8 \<Rightarrow> int \<Rightarrow> nat \<Rightarrow> buffer option" where
  "strip_from_end_loop b ch i len =
     (if i \<ge> 0 then do {
        c \<leftarrow> aget b (nat i);
        if c = ch then do { b \<leftarrow> shift_left b (nat i) len; strip_from_end_loop b ch (i - 1 - 1) len }
        else Some b }
      else Some b)"
  by pat_completeness auto
termination by (relation "measure (\<lambda>(b, ch, i, len). nat (i + 1))") auto

declare strip_character_loop.simps [simp del] strip_from_start_loop.simps [simp del]
  strip_from_end_loop.simps [simp del]

definition strip_character :: "buffer \<Rightarrow> u8 \<Rightarrow> buffer option" where
  "strip_character b ch = do { len \<leftarrow> strlen b; strip_character_loop b ch 0 len }"

definition strip_from_start :: "buffer \<Rightarrow> u8 \<Rightarrow> buffer option" where
  "strip_from_start b ch = do { len \<leftarrow> strlen b; strip_from_start_loop b ch 0 len }"

definition strip_from_end :: "buffer \<Rightarrow> u8 \<Rightarrow> buffer option" where
  "strip_from_end b ch = do { len \<leftarrow> strlen b; strip_from_end_loop b ch (int len - 1) len }"

lemma shift_left_spec:
  "j \<le> len \<Longrightarrow> len < length b \<Longrightarrow>
     shift_left b j len = Some (take j b @ drop (Suc j) (take (Suc len) b) @ drop len b)"
proof (induction "len - j" arbitrary: j b)
  case 0
  then show ?case by (subst shift_left.simps) simp
next
  case (Suc n)
  then have j: "j < len" by simp
  let ?b = "b[j := b ! Suc j]"
  have IH: "shift_left ?b (Suc j) len =
      Some (take (Suc j) ?b @ drop (Suc (Suc j)) (take (Suc len) ?b) @ drop len ?b)"
    using Suc.hyps(1) [of "Suc j" ?b] Suc.hyps(2) Suc.prems j by simp
  have "take (Suc j) ?b = take j b @ [b ! Suc j]"
    using j Suc.prems by (simp add: take_Suc_conv_app_nth)
  moreover have "drop (Suc (Suc j)) (take (Suc len) ?b) = drop (Suc (Suc j)) (take (Suc len) b)"
    by (simp add: take_update_swap)
  moreover have "drop len ?b = drop len b" using j by simp
  moreover have "drop (Suc j) (take (Suc len) b) = b ! Suc j # drop (Suc (Suc j)) (take (Suc len) b)"
    using j Suc.prems by (subst Cons_nth_drop_Suc [symmetric]) simp_all
  ultimately show ?case using j Suc.prems IH by (subst shift_left.simps) simp
qed

text \<open>Removing the character at index \<open>j\<close> of the string a buffer holds.\<close>

lemma shift_left_holds:
  assumes "holds b s" and "j < length s" and "length s \<le> len" and "len < length b"
  shows "\<exists>b'. shift_left b j len = Some b' \<and> holds b' (take j s @ drop (Suc j) s) \<and> length b' = length b"
proof -
  let ?s = "take j s @ drop (Suc j) s"
  obtain rest where b: "b = s @ 0 # rest" using assms(1) by (auto simp: holds_def)
  let ?b' = "take j b @ drop (Suc j) (take (Suc len) b) @ drop len b"
  have "take j b = take j s" using assms(2) by (simp add: b)
  moreover have "drop (Suc j) (take (Suc len) b) = drop (Suc j) s @ 0 # take (len - length s) rest"
    using assms(2,3) by (simp add: b Suc_diff_le)
  ultimately have "?b' = ?s @ 0 # (take (len - length s) rest @ drop len b)" by simp
  moreover have "0 \<notin> set ?s"
    using assms(1) by (auto simp: holds_def dest: in_set_takeD in_set_dropD)
  ultimately have "holds ?b' ?s" unfolding holds_def by blast
  moreover have "length ?b' = length b" using assms(2-4) by simp
  moreover have "shift_left b j len = Some ?b'" using assms(2-4) by (intro shift_left_spec) simp_all
  ultimately show ?thesis by blast
qed

lemma strip_character_loop_holds:
  "holds b s \<Longrightarrow> i \<le> length s \<Longrightarrow>
    \<exists>b'. strip_character_loop b ch i (length s) = Some b' \<and>
      holds b' (take i s @ filter (\<lambda>c. c \<noteq> ch) (drop i s))"
proof (induction "length s - i" arbitrary: i b s)
  case 0
  then show ?case by (subst strip_character_loop.simps) simp
next
  case (Suc n)
  then have i: "i < length s" by simp
  note l = holds_length [OF Suc.prems(1)] and c = holds_nth [OF Suc.prems(1) i]
  have d: "drop i s = s ! i # drop (Suc i) s" using i by (simp add: Cons_nth_drop_Suc)
  show ?case
  proof (cases "s ! i = ch")
    case True
    from shift_left_holds [OF Suc.prems(1) i order_refl l] obtain b1 where
      b1: "shift_left b i (length s) = Some b1" "holds b1 (take i s @ drop (Suc i) s)" by blast
    let ?s = "take i s @ drop (Suc i) s"
    have "n = length ?s - i" "i \<le> length ?s" using Suc.hyps(2) i by simp_all
    from Suc.hyps(1) [OF this(1) b1(2) this(2)] obtain b' where
      "strip_character_loop b1 ch i (length ?s) = Some b'"
      "holds b' (take i ?s @ filter (\<lambda>c. c \<noteq> ch) (drop i ?s))" by blast
    moreover have "length ?s = length s - 1" using i by simp
    ultimately show ?thesis using i l c True b1(1) d
      by (subst strip_character_loop.simps) simp
  next
    case False
    have "n = length s - Suc i" "Suc i \<le> length s" using Suc.hyps(2) i by simp_all
    from Suc.hyps(1) [OF this(1) Suc.prems(1) this(2)] obtain b' where
      "strip_character_loop b ch (Suc i) (length s) = Some b'"
      "holds b' (take (Suc i) s @ filter (\<lambda>c. c \<noteq> ch) (drop (Suc i) s))" by blast
    with i l c False d show ?thesis
      by (subst strip_character_loop.simps) (simp add: take_Suc_conv_app_nth)
  qed
qed

lemma strip_from_start_loop_holds:
  "holds b s \<Longrightarrow> \<exists>b'. strip_from_start_loop b ch 0 (length s) = Some b' \<and>
      holds b' (dropWhile (\<lambda>c. c = ch) s)"
proof (induction s arbitrary: b)
  case Nil
  then show ?case by (subst strip_from_start_loop.simps) simp
next
  case (Cons x s)
  note l = holds_length [OF Cons.prems]
  have c: "aget b 0 = Some x" using Cons.prems by (auto simp: holds_def)
  show ?case
  proof (cases "x = ch")
    case True
    from shift_left_holds [OF Cons.prems _ order_refl l, of 0] obtain b1 where
      b1: "shift_left b 0 (length (x # s)) = Some b1" "holds b1 s" by auto
    from Cons.IH [OF b1(2)] b1(1) l c True show ?thesis
      by (subst strip_from_start_loop.simps) simp
  next
    case False
    with Cons.prems l c show ?thesis by (subst strip_from_start_loop.simps) simp
  qed
qed

lemma strip_end_stop:
  assumes "holds b (p @ q)" and "ch \<notin> set p" and "i < int (length p)"
  shows "strip_from_end_loop b ch i len = Some b"
proof (cases "0 \<le> i")
  case False
  then show ?thesis by (subst strip_from_end_loop.simps) simp
next
  case True
  with assms(3) have i: "nat i < length p" by simp
  then have "b ! nat i = p ! nat i" using holds_nth [OF assms(1), of "nat i"] by (simp add: nth_append)
  moreover have "p ! nat i \<noteq> ch" using i assms(2) nth_mem by metis
  moreover have "nat i < length b" using i holds_length [OF assms(1)] by simp
  ultimately show ?thesis using True by (subst strip_from_end_loop.simps) simp
qed

lemma strip_end_loop:
  assumes "ch \<notin> set p"
  shows "holds b (p @ replicate r ch) \<Longrightarrow> d \<le> r \<Longrightarrow> length p + r \<le> len \<Longrightarrow> len < length b \<Longrightarrow>
    \<exists>b'. strip_from_end_loop b ch (int (length p) + int d - 1) len = Some b' \<and>
      holds b' (p @ replicate (r - (d + 1) div 2) ch)"
proof (induction d arbitrary: b r rule: less_induct)
  case (less d)
  show ?case
  proof (cases "d = 0")
    case True
    with strip_end_stop [OF less.prems(1) assms, of "int (length p) - 1" len] less.prems(1)
    show ?thesis by simp
  next
    case False
    let ?i = "int (length p) + int d - 1"
    let ?k = "length p + (d - 1)"
    have i: "nat ?i = ?k" "0 \<le> ?i" using False by simp_all
    have kr: "?k < length (p @ replicate r ch)" using False less.prems(2) by simp
    have "(p @ replicate r ch) ! ?k = ch"
      unfolding nth_append_length_plus using False less.prems(2) by simp
    then have c: "b ! ?k = ch" using holds_nth [OF less.prems(1) kr] by simp
    have kb: "?k < length b" using kr holds_length [OF less.prems(1)] by simp
    have cut: "take ?k (p @ replicate r ch) @ drop (Suc ?k) (p @ replicate r ch) = p @ replicate (r - 1) ch"
      using False less.prems(2) by (simp flip: replicate_add)
    from shift_left_holds [OF less.prems(1) kr _ less.prems(4)] less.prems(3) obtain b1 where
      b1: "shift_left b ?k len = Some b1" "holds b1 (p @ replicate (r - 1) ch)" "length b1 = length b"
      unfolding cut by auto
    have step: "strip_from_end_loop b ch ?i len = strip_from_end_loop b1 ch (?i - 2) len"
      using i c kb b1(1) by (subst strip_from_end_loop.simps) simp
    show ?thesis
    proof (cases "d = 1")
      case True
      then have "strip_from_end_loop b1 ch (?i - 2) len = Some b1"
        using strip_end_stop [OF b1(2) assms, of "?i - 2" len] by simp
      with step b1(2) True show ?thesis by simp
    next
      case False
      with \<open>d \<noteq> 0\<close> have d: "d - 2 < d" "int (length p) + int (d - 2) - 1 = ?i - 2"
        "r - 1 - (d - 2 + 1) div 2 = r - (d + 1) div 2" by auto
      from less.IH [OF d(1) b1(2)] less.prems d(2,3) step b1(3) \<open>d \<noteq> 0\<close> False show ?thesis by auto
    qed
  qed
qed

section \<open>Separated strings\<close>

text \<open>
  \<^verbatim>\<open>seperate_and_take\<close> returns a fresh buffer; the model returns its contents.  \<open>slice\<close> is the
  \<^verbatim>\<open>memcpy\<close> into it.  A null result of \<^verbatim>\<open>kmalloc\<close>, which the code does not look at, is left
  to the heap.
\<close>

definition slice :: "buffer \<Rightarrow> nat \<Rightarrow> nat \<Rightarrow> u8 list option" where
  "slice b start len = (if start + len \<le> length b then Some (take len (drop start b)) else None)"

function seperate_loop :: "buffer \<Rightarrow> u8 \<Rightarrow> int \<Rightarrow> nat \<Rightarrow> int \<Rightarrow> nat \<Rightarrow> nat \<Rightarrow> u8 list option" where
  "seperate_loop b sep index i cur len start = do {
     n \<leftarrow> strlen b;
     if i < n then do {
       c \<leftarrow> aget b i;
       if c = sep then
         (if cur = index then do { s \<leftarrow> slice b start len; Some (s @ [0]) }
          else seperate_loop b sep index (Suc i) (cur + 1) 0 (Suc i))
       else seperate_loop b sep index (Suc i) cur (Suc len) start }
     else if cur = index then do { s \<leftarrow> slice b start len; Some (s @ [0]) }
     else slice b 0 (n + 1) }"
  by pat_completeness auto
termination by (relation "measure (\<lambda>(b, sep, index, i, cur, len, start). length b - i)")
  (auto simp: aget_def split: if_splits)

declare seperate_loop.simps [simp del]

definition seperate_and_take :: "buffer \<Rightarrow> u8 \<Rightarrow> int \<Rightarrow> u8 list option" where
  "seperate_and_take b sep index = seperate_loop b sep index 0 0 0 0"

function count_substrings_loop :: "buffer \<Rightarrow> u8 \<Rightarrow> nat \<Rightarrow> int \<Rightarrow> int option" where
  "count_substrings_loop b sep i count = do {
     n \<leftarrow> strlen b;
     if i < n then do {
       c \<leftarrow> aget b i;
       count_substrings_loop b sep (Suc i) (if c = sep then count + 1 else count) }
     else Some count }"
  by pat_completeness auto
termination by (relation "measure (\<lambda>(b, sep, i, count). length b - i)") (auto simp: aget_def split: if_splits)

declare count_substrings_loop.simps [simp del]

definition count_substrings :: "buffer \<Rightarrow> u8 \<Rightarrow> int option" where
  "count_substrings b sep = count_substrings_loop b sep 1 1"

text \<open>The pieces of a string, as a reference.\<close>

fun split_on :: "'a \<Rightarrow> 'a list \<Rightarrow> 'a list list" where
  "split_on sep [] = [[]]"
| "split_on sep (c # cs) =
     (if c = sep then [] # split_on sep cs
      else case split_on sep cs of p # ps \<Rightarrow> (c # p) # ps | [] \<Rightarrow> [[c]])"

lemma split_on_nonempty [simp]: "split_on sep s \<noteq> []"
  by (cases s) (auto split: list.splits)

definition onto_first :: "'a list \<Rightarrow> 'a list list \<Rightarrow> 'a list list" where
  "onto_first q ps = (q @ hd ps) # tl ps"

lemma split_on_cons:
  "split_on sep (c # cs) = (if c = sep then [] # split_on sep cs else onto_first [c] (split_on sep cs))"
  by (cases "split_on sep cs") (simp_all add: onto_first_def)

declare split_on.simps(2) [simp del]

lemma onto_first_simps [simp]:
  "onto_first q (p # ps) = (q @ p) # ps"
  "onto_first q (onto_first r ps) = onto_first (q @ r) ps"
  "length (onto_first q ps) = Suc (length ps - 1)"
  "ps \<noteq> [] \<Longrightarrow> onto_first [] ps = ps"
  by (simp_all add: onto_first_def)

lemma count_substrings_loop_holds:
  "holds b s \<Longrightarrow> i \<le> length s \<Longrightarrow>
     count_substrings_loop b sep i n = Some (n + int (length (split_on sep (drop i s))) - 1)"
proof (induction "length s - i" arbitrary: i n)
  case 0
  then show ?case by (subst count_substrings_loop.simps) (simp add: strlen_holds)
next
  case (Suc m)
  then have i: "i < length s" by simp
  have d: "drop i s = s ! i # drop (Suc i) s" using i by (simp add: Cons_nth_drop_Suc)
  have "m = length s - Suc i" "Suc i \<le> length s" using Suc.hyps(2) i by simp_all
  note IH = Suc.hyps(1) [OF this(1) Suc.prems(1) this(2)]
  have "0 < length (split_on sep (drop (Suc i) s))" by (simp add: length_greater_0_conv)
  then show ?case using i holds_length [OF Suc.prems(1)] holds_nth [OF Suc.prems(1) i] Suc.prems(1)
    by (subst count_substrings_loop.simps) (simp add: strlen_holds IH d split_on_cons)
qed

lemma seperate_loop_holds:
  "holds b s \<Longrightarrow> i \<le> length s \<Longrightarrow> start + len = i \<Longrightarrow> 0 \<le> k \<Longrightarrow>
     seperate_loop b sep (cur + k) i cur len start =
       (let ps = onto_first (take len (drop start s)) (split_on sep (drop i s))
        in Some ((if nat k < length ps then ps ! nat k else s) @ [0]))"
proof (induction "length s - i" arbitrary: i k cur len start)
  case 0
  then have i: "i = length s" by simp
  obtain rest where b: "b = s @ 0 # rest" using 0 by (auto simp: holds_def)
  have "slice b start len = Some (take len (drop start s))"
    using 0 i by (simp add: slice_def b)
  moreover have "slice b 0 (length s + 1) = Some (s @ [0])" by (simp add: slice_def b)
  ultimately show ?case using 0 i
    by (subst seperate_loop.simps) (auto simp: strlen_holds Let_def)
next
  case (Suc m)
  then have i: "i < length s" by simp
  have d: "drop i s = s ! i # drop (Suc i) s" using i by (simp add: Cons_nth_drop_Suc)
  have m: "m = length s - Suc i" "Suc i \<le> length s" using Suc.hyps(2) i by simp_all
  note c = holds_length [OF Suc.prems(1)] holds_nth [OF Suc.prems(1) i]
  obtain rest where b: "b = s @ 0 # rest" using Suc.prems(1) by (auto simp: holds_def)
  show ?case
  proof (cases "s ! i = sep")
    case True
    show ?thesis
    proof (cases "k = 0")
      case k0: True
      have "slice b start len = Some (take len (drop start s))"
        using i Suc.prems(3) by (simp add: slice_def b)
      with i c True Suc.prems(1) k0 d show ?thesis
        by (subst seperate_loop.simps) (simp add: strlen_holds split_on_cons)
    next
      case False
      with Suc.prems(4) have k: "0 \<le> k - 1" "nat k = Suc (nat (k - 1))" by auto
      note IH = Suc.hyps(1) [OF m(1) Suc.prems(1) m(2), of "Suc i" 0 "k - 1" "cur + 1"]
      show ?thesis using i c True Suc.prems(1) False d IH k
        by (subst seperate_loop.simps) (simp add: strlen_holds split_on_cons Let_def)
    qed
  next
    case False
    have t: "take (Suc len) (drop start s) = take len (drop start s) @ [s ! i]"
      using i Suc.prems(3) by (subst take_Suc_conv_app_nth) auto
    note IH = Suc.hyps(1) [OF m(1) Suc.prems(1) m(2), of start "Suc len" k cur]
    show ?thesis using i c False Suc.prems d IH
      by (subst seperate_loop.simps) (simp add: strlen_holds split_on_cons Let_def t)
  qed
qed

section \<open>Numbers to strings and back\<close>

text \<open>
  A C \<^verbatim>\<open>int\<close> is an \<open>int\<close>.  A base below 2 divides by zero or never ends, so it is \<open>None\<close>;
  so is the negation of the least \<^verbatim>\<open>int\<close>.
\<close>

definition digit_chars :: "u8 list" where
  "digit_chars = [48, 49, 50, 51, 52, 53, 54, 55, 56, 57, 65, 66, 67, 68, 69, 70]"

definition aset_at :: "buffer \<Rightarrow> int \<Rightarrow> u8 \<Rightarrow> buffer option" where
  "aset_at b i v = do { guard (0 \<le> i); aset b (nat i) v }"

lemma cdiv_shrinks: "2 \<le> base \<Longrightarrow> cdiv t base \<noteq> 0 \<Longrightarrow> \<bar>cdiv t base\<bar> < \<bar>t\<bar>"
proof -
  assume b: "2 \<le> base" and nz: "cdiv t base \<noteq> 0"
  have a: "\<bar>cdiv t base\<bar> = \<bar>t\<bar> div base"
    using b by (auto simp: cdiv_def abs_mult abs_sgn_eq pos_imp_zdiv_nonneg_iff)
  have "0 < \<bar>t\<bar>" using nz by (auto simp: cdiv_def)
  then show ?thesis unfolding a using b by (intro int_div_less_self) simp_all
qed

text \<open>\<^verbatim>\<open>do { n_of_digits++; temp_n /= base; } while (temp_n);\<close>\<close>

function count_digits :: "int \<Rightarrow> int \<Rightarrow> int" where
  "count_digits t base =
     (let t' = cdiv t base in if 2 \<le> base \<and> t' \<noteq> 0 then count_digits t' base + 1 else 1)"
  by pat_completeness auto
termination by (relation "measure (\<lambda>(t, base). nat \<bar>t\<bar>)") (auto dest: cdiv_shrinks)

text \<open>The digits are written from the least significant one, at index \<open>k\<close>, to the left.\<close>

function write_digits :: "buffer \<Rightarrow> int \<Rightarrow> int \<Rightarrow> int \<Rightarrow> buffer option" where
  "write_digits b k n base = do {
     d \<leftarrow> aget digit_chars (nat (n mod base));
     b \<leftarrow> aset_at b k d;
     if 2 \<le> base \<and> 0 < n \<and> n div base \<noteq> 0 then write_digits b (k - 1) (n div base) base else Some b }"
  by pat_completeness auto
termination by (relation "measure (\<lambda>(b, k, n, base). nat n)")
  (auto intro: int_div_less_self)

fun pad_loop :: "buffer \<Rightarrow> nat \<Rightarrow> int \<Rightarrow> nat \<Rightarrow> (buffer \<times> int) option" where
  "pad_loop b i nd 0 = Some (b, nd)"
| "pad_loop b i nd (Suc p) = do { b \<leftarrow> aset b i 48; pad_loop b (Suc i) (nd + 1) p }"

declare count_digits.simps [simp del] write_digits.simps [simp del]

definition int_to_str_padding :: "int \<Rightarrow> buffer \<Rightarrow> int \<Rightarrow> int \<Rightarrow> buffer option" where
  "int_to_str_padding n b base padding = do {
     guard (2 \<le> base \<and> n \<noteq> - (2 ^ 31));
     let neg = (n < 0);
     let n = (if neg then - n else n);
     let nd = count_digits n base;
     (b, nd) \<leftarrow> (if neg then do { b \<leftarrow> aset b 0 45; Some (b, nd + 1) } else Some (b, nd));
     (b, nd) \<leftarrow> pad_loop b (if neg then 1 else 0) nd (nat (padding - nd));
     b \<leftarrow> write_digits b (nd - 1) n base;
     aset_at b nd 0 }"

definition int_to_str :: "int \<Rightarrow> buffer \<Rightarrow> int \<Rightarrow> buffer option" where
  "int_to_str n b base = int_to_str_padding n b base 0"

definition byte_to_str :: "u8 \<Rightarrow> buffer \<Rightarrow> int \<Rightarrow> buffer option" where
  "byte_to_str n b base = do {
     guard (2 \<le> base);
     b \<leftarrow> aset b 0 48;
     b \<leftarrow> write_digits b 1 (uint n) base;
     aset b 2 0 }"

definition uint_to_str :: "int \<Rightarrow> buffer \<Rightarrow> int \<Rightarrow> buffer option" where
  "uint_to_str n b base = do {
     guard (2 \<le> base);
     let u_n = (word_of_int n :: u32);
     let nd = count_digits (sint u_n) base;
     b \<leftarrow> write_digits b (nd - 1) (uint u_n) base;
     aset_at b nd 0 }"

definition itoa :: "int \<Rightarrow> buffer \<Rightarrow> int \<Rightarrow> buffer option" where
  "itoa n b base = do {
     guard (2 \<le> base \<and> n \<noteq> - (2 ^ 31));
     let neg = (n < 0);
     let n = (if neg then - n else n);
     let nd = count_digits n base;
     (b, nd) \<leftarrow> (if neg then do { b \<leftarrow> aset b 0 45; Some (b, nd + 1) } else Some (b, nd));
     b \<leftarrow> write_digits b (nd - 1) n base;
     aset_at b nd 0 }"

definition uitoa :: "u32 \<Rightarrow> buffer \<Rightarrow> int \<Rightarrow> buffer option" where
  "uitoa n b base = do {
     guard (2 \<le> base);
     let nd = count_digits (sint n) base;
     b \<leftarrow> write_digits b (nd - 1) (uint n) base;
     aset_at b nd 0 }"

fun decimal_loop :: "buffer \<Rightarrow> nat \<Rightarrow> u32 \<Rightarrow> u32 \<Rightarrow> u32 option" where
  "decimal_loop b 0 res pow = Some res"
| "decimal_loop b (Suc i) res pow = do {
     c \<leftarrow> aget b i;
     decimal_loop b i (res + word_of_int (sint c - 48) * pow) (pow * 10) }"

definition decimal_to_uint :: "buffer \<Rightarrow> u32 option" where
  "decimal_to_uint b = do { n \<leftarrow> strlen b; decimal_loop b n 0 1 }"

text \<open>
  \<^verbatim>\<open>atoi\<close> counts an unsigned \<^verbatim>\<open>i\<close> down and tests \<^verbatim>\<open>i >= 0\<close>, which always holds: the index
  wraps to \<^verbatim>\<open>0xFFFFFFFF\<close> after 0.
\<close>

partial_function (option) atoi_loop :: "buffer \<Rightarrow> u32 \<Rightarrow> u32 \<Rightarrow> u32 \<Rightarrow> u32 option" where
  "atoi_loop b i res pow = do {
     c \<leftarrow> aget b (unat i);
     atoi_loop b (i - 1) (res + word_of_int (sint c - 48) * pow) (pow * 10) }"

definition atoi :: "buffer \<Rightarrow> u32 option" where
  "atoi b = do { n \<leftarrow> strlen b; atoi_loop b (of_nat n - 1) 0 1 }"

section \<open>What the conversions compute\<close>

definition digit_char :: "nat \<Rightarrow> u8" where
  "digit_char d = digit_chars ! d"

function digits_of :: "nat \<Rightarrow> nat \<Rightarrow> u8 list" where
  "digits_of base n =
     (if 2 \<le> base \<and> base \<le> n then digits_of base (n div base) @ [digit_char (n mod base)]
      else [digit_char n])"
  by pat_completeness auto
termination by (relation "measure (\<lambda>(base, n). n)") auto

declare digits_of.simps [simp del]

lemma length_digits_of [simp]: "0 < length (digits_of base n)"
  by (subst digits_of.simps) simp

lemma count_digits_of:
  "2 \<le> base \<Longrightarrow> count_digits (int n) (int base) = int (length (digits_of base n))"
proof (induction n rule: less_induct)
  case (less n)
  have q: "cdiv (int n) (int base) = int (n div base)" using less.prems by (simp add: zdiv_int)
  show ?case
  proof (cases "base \<le> n")
    case True
    then have "n div base < n" "n div base \<noteq> 0" using less.prems by (auto simp: div_eq_0_iff)
    with less.IH [of "n div base"] less.prems True show ?thesis
      by (subst count_digits.simps, subst digits_of.simps) (simp add: q)
  next
    case False
    then have "n div base = 0" by simp
    with False show ?thesis by (subst count_digits.simps, subst digits_of.simps) (simp add: q)
  qed
qed

lemma write_digits_spec:
  assumes "2 \<le> base" and "base \<le> 16"
  shows "j + length (digits_of base n) \<le> length b \<Longrightarrow>
    write_digits b (int j + int (length (digits_of base n)) - 1) (int n) (int base) =
      Some (take j b @ digits_of base n @ drop (j + length (digits_of base n)) b)"
proof (induction n arbitrary: b rule: less_induct)
  case (less n)
  let ?L = "length (digits_of base n)"
  have m: "nat (int n mod int base) = n mod base" by (simp add: nat_mod_as_int)
  have "n mod base < 16" using assms by (meson less_le_trans mod_less_divisor less_trans zero_less_numeral
      order_less_le_trans)
  then have dg: "aget digit_chars (nat (int n mod int base)) = Some (digit_char (n mod base))"
    unfolding m by (simp add: digit_chars_def digit_char_def)
  have k: "nat (int j + int ?L - 1) = j + ?L - 1" "0 \<le> int j + int ?L - 1" "j + ?L - 1 < length b"
    using less.prems length_digits_of [of base n] by linarith+
  have q: "int n div int base = int (n div base)" by (simp add: zdiv_int)
  show ?case
  proof (cases "base \<le> n")
    case True
    let ?ds = "digits_of base (n div base)"
    have e: "digits_of base n = ?ds @ [digit_char (n mod base)]" using True assms by (subst digits_of.simps) simp
    have lt: "n div base < n" "n div base \<noteq> 0" "0 < n" using True assms by (auto simp: div_eq_0_iff)
    let ?b = "b[j + ?L - 1 := digit_char (n mod base)]"
    have L: "?L = length ?ds + 1" by (simp add: e)
    have "write_digits b (int j + int ?L - 1) (int n) (int base) =
        write_digits ?b (int j + int ?L - 1 - 1) (int (n div base)) (int base)"
      using dg k lt assms by (subst write_digits.simps) (simp add: aset_at_def q)
    also have "int j + int ?L - 1 - 1 = int j + int (length ?ds) - 1" by (simp add: L)
    also have "write_digits ?b (int j + int (length ?ds) - 1) (int (n div base)) (int base) =
        Some (take j ?b @ ?ds @ drop (j + length ?ds) ?b)"
      using less.IH [OF lt(1), of ?b] less.prems L by simp
    also have "take j ?b = take j b" using L by simp
    also have "drop (j + length ?ds) ?b = digit_char (n mod base) # drop (j + ?L) b"
      using k(3) L by (simp add: drop_update_swap Cons_nth_drop_Suc [symmetric])
    finally show ?thesis by (simp add: e)
  next
    case False
    then have n0: "n div base = 0" "n mod base = n" by simp_all
    have e: "digits_of base n = [digit_char n]" using False by (subst digits_of.simps) simp
    have "j < length b" using less.prems by (simp add: e)
    then have "b[j := digit_char n] = take j b @ digit_char n # drop (Suc j) b"
      by (rule upd_conv_take_nth_drop)
    with dg n0 k show ?thesis by (subst write_digits.simps) (simp add: aset_at_def q e)
  qed
qed

lemma pad_loop_spec:
  "i + p \<le> length b \<Longrightarrow>
     pad_loop b i nd p = Some (take i b @ replicate p 48 @ drop (i + p) b, nd + int p)"
proof (induction p arbitrary: b i nd)
  case 0
  then show ?case by simp
next
  case (Suc p)
  then have i: "i < length b" by simp
  have "take (Suc i) (b[i := 48]) = take i b @ [48]" using i by (simp add: take_Suc_conv_app_nth)
  moreover have "drop (Suc (i + p)) (b[i := 48]) = drop (Suc (i + p)) b" by simp
  ultimately show ?case using Suc.IH [of "Suc i" "b[i := 48]" "nd + 1"] Suc.prems i by simp
qed

lemma digits_nonzero: "2 \<le> base \<Longrightarrow> base \<le> 16 \<Longrightarrow> 0 \<notin> set (digits_of base n)"
proof (induction n rule: less_induct)
  case (less n)
  have d: "digit_char d \<noteq> 0" if "d < 16" for d
  proof -
    have "digit_char d \<in> set digit_chars"
      unfolding digit_char_def by (rule nth_mem) (use that in \<open>simp add: digit_chars_def\<close>)
    then show ?thesis by (auto simp: digit_chars_def)
  qed
  show ?case
  proof (cases "base \<le> n")
    case True
    then have "n div base < n" "n mod base < 16" using less.prems by (auto intro: less_le_trans [OF mod_less_divisor])
    with less.IH [of "n div base"] less.prems True d show ?thesis by (subst digits_of.simps) simp
  next
    case False
    with d [of n] less.prems show ?thesis by (subst digits_of.simps) simp
  qed
qed

lemma aset_at_middle: "aset_at (xs @ y # ys) (int (length xs)) v = Some (xs @ v # ys)"
  by (simp add: aset_at_def)

text \<open>The text of a number: sign, padding zeroes, digits.\<close>

definition number_text :: "int \<Rightarrow> nat \<Rightarrow> int \<Rightarrow> u8 list" where
  "number_text n base padding =
     (let ds = digits_of base (nat \<bar>n\<bar>); sign = (if n < 0 then [45] else []) in
      sign @ replicate (nat (padding - int (length sign + length ds))) 48 @ ds)"

lemma int_to_str_padding_spec:
  assumes base: "2 \<le> base" "base \<le> 16" and n: "n \<noteq> - (2 ^ 31)"
    and l: "length (number_text n base padding) < length b"
  shows "\<exists>b'. int_to_str_padding n b (int base) padding = Some b' \<and> holds b' (number_text n base padding)"
proof -
  let ?ds = "digits_of base (nat \<bar>n\<bar>)" and ?s = "if n < 0 then 1 else 0 :: nat"
  let ?p = "nat (padding - int (?s + length ?ds))"
  let ?sign = "if n < 0 then [45] else [] :: u8 list"
  have ls: "length ?sign = ?s" by simp
  have t: "number_text n base padding = ?sign @ replicate ?p 48 @ ?ds"
    by (simp add: number_text_def Let_def)
  have len: "?s + ?p + length ?ds < length b" using l unfolding t by (simp split: if_splits)
  let ?b0 = "if n < 0 then b[0 := 45] else b"
  have b0: "take ?s ?b0 = ?sign" "length ?b0 = length b"
    using len by (cases b; simp)+
  define b1 where "b1 = take ?s ?b0 @ replicate ?p 48 @ drop (?s + ?p) ?b0"
  have pl: "pad_loop ?b0 ?s (int (?s + length ?ds)) ?p = Some (b1, int (?s + length ?ds) + int ?p)"
    unfolding b1_def by (rule pad_loop_spec) (use len b0 in simp)
  have lb1: "length b1 = length b" using len b0(2) by (simp add: b1_def)
  let ?j = "?s + ?p"
  have w: "write_digits b1 (int ?j + int (length ?ds) - 1) (int (nat \<bar>n\<bar>)) (int base) =
      Some (take ?j b1 @ ?ds @ drop (?j + length ?ds) b1)"
    using write_digits_spec [OF base, of ?j "nat \<bar>n\<bar>" b1] len lb1 by simp
  have tj: "take ?j b1 = ?sign @ replicate ?p 48" using b0 ls by (simp add: b1_def)
  define b2 where "b2 = ?sign @ replicate ?p 48 @ ?ds @ drop (?j + length ?ds) b1"
  have w2: "write_digits b1 (int ?j + int (length ?ds) - 1) \<bar>n\<bar> (int base) = Some b2"
    using w tj by (simp add: b2_def)
  have pos: "int (?s + length ?ds) + int ?p = int (?j + length ?ds)" by simp
  obtain x where x: "drop (?j + length ?ds) b1 = x # drop (Suc (?j + length ?ds)) b1"
    using len lb1 by (metis Cons_nth_drop_Suc add.commute)
  have b2e: "b2 = (?sign @ replicate ?p 48 @ ?ds) @ x # drop (Suc (?j + length ?ds)) b1"
    using x by (simp add: b2_def)
  have lt: "length (?sign @ replicate ?p 48 @ ?ds) = ?j + length ?ds" by simp
  have z: "aset_at b2 (int (?j + length ?ds)) 0 =
      Some ((?sign @ replicate ?p 48 @ ?ds) @ 0 # drop (Suc (?j + length ?ds)) b1)"
    unfolding b2e lt [symmetric] by (rule aset_at_middle)
  have c: "count_digits \<bar>n\<bar> (int base) = int (length ?ds)"
    using count_digits_of [OF base(1), of "nat \<bar>n\<bar>"] by simp
  have absn: "(if n < 0 then - n else n) = \<bar>n\<bar>" by simp
  have g: "guard (2 \<le> int base \<and> n \<noteq> - (2 ^ 31)) = Some ()" using base n by simp
  have sg: "(if n < 0 then do { b \<leftarrow> aset b 0 45; Some (b, int (length ?ds) + 1) }
      else Some (b, int (length ?ds))) = Some (?b0, int (?s + length ?ds))"
  proof (cases "n < 0")
    case True
    have "aset b 0 45 = Some (b[0 := 45])" by (rule aset_in) (use len in linarith)
    with True show ?thesis by simp
  qed simp
  have w3: "write_digits b1 (int (?j + length ?ds) - 1) \<bar>n\<bar> (int base) = Some b2"
    using w2 by (simp only: of_nat_add)
  have run: "int_to_str_padding n b (int base) padding =
      Some ((?sign @ replicate ?p 48 @ ?ds) @ 0 # drop (Suc (?j + length ?ds)) b1)"
    unfolding int_to_str_padding_def Let_def absn c
    by (simp only: g sg pl w3 z pos Option.bind.bind_lunit prod.case)
  have "0 \<notin> set (number_text n base padding)"
    using digits_nonzero [OF base] by (simp add: t)
  then have "holds ((?sign @ replicate ?p 48 @ ?ds) @ 0 # drop (Suc (?j + length ?ds)) b1)
      (number_text n base padding)"
    unfolding holds_def t by blast
  with run show ?thesis by blast
qed

lemma decimal_loop_holds:
  "i \<le> length s \<Longrightarrow> holds b s \<Longrightarrow>
     decimal_loop b i res pow =
       Some (res + pow * foldl (\<lambda>v c. 10 * v + word_of_int (sint c - 48)) 0 (take i s))"
proof (induction i arbitrary: res pow)
  case 0
  then show ?case by simp
next
  case (Suc i)
  then have i: "i < length s" by simp
  with Suc.prems have "aget b i = Some (s ! i)"
    using holds_length [of b s] holds_nth [of b s i] by simp
  with Suc i show ?case by (simp add: take_Suc_conv_app_nth algebra_simps)
qed

lemma digit_char_value: "d < 10 \<Longrightarrow> word_of_int (sint (digit_char d) - 48) = (of_nat d :: u32)"
proof -
  assume d: "d < 10"
  then have "d \<in> {0, 1, 2, 3, 4, 5, 6, 7, 8, 9}" by auto
  then show ?thesis by (auto simp: digit_char_def digit_chars_def)
qed

lemma digits_value:
  "foldl (\<lambda>v c. 10 * v + word_of_int (sint c - 48)) 0 (digits_of 10 n) = (of_nat n :: u32)"
proof (induction n rule: less_induct)
  case (less n)
  show ?case
  proof (cases "10 \<le> n")
    case True
    then have "digits_of 10 n = digits_of 10 (n div 10) @ [digit_char (n mod 10)]"
      by (subst digits_of.simps) simp
    moreover have "10 * (of_nat (n div 10) :: u32) + of_nat (n mod 10) = of_nat n"
      by (metis mult_div_mod_eq of_nat_add of_nat_mult of_nat_numeral)
    ultimately show ?thesis using less.IH [of "n div 10"] True digit_char_value [of "n mod 10"] by simp
  next
    case False
    then have "digits_of 10 n = [digit_char n]" by (subst digits_of.simps) simp
    with digit_char_value [of n] False show ?thesis by simp
  qed
qed

section \<open>Properties\<close>

text \<open>
  \<^verbatim>\<open>strcmp\<close> terminates on two C strings without leaving them and decides their equality.
\<close>

theorem strcmp_decides_equality:
  assumes "holds b s" and "holds c t"
  shows "strcmp b c = Some (s = t)"
  by (rule strcmp_holds [OF assms])

lemma holds_example: "holds [97, 32, 98, 0, 7] [97, 32, 98]"
  by (auto simp: holds_def)

theorem strcmp_decides_equality_witness: "strcmp [97, 32, 98, 0, 7] [97, 98, 0] = Some False"
  using strcmp_decides_equality [OF holds_example, of "[97, 98, 0]" "[97, 98]"]
  by (simp add: holds_def)

text \<open>
  C17: \<^verbatim>\<open>strip_character\<close> leaves exactly the characters that differ from the given one, in their
  order, and \<^verbatim>\<open>strip_from_start\<close> drops exactly the leading ones.
\<close>

theorem strip_removes:
  assumes "holds b s"
  shows "(\<exists>b'. strip_character b ch = Some b' \<and> holds b' (filter (\<lambda>c. c \<noteq> ch) s)) \<and>
    (\<exists>b'. strip_from_start b ch = Some b' \<and> holds b' (dropWhile (\<lambda>c. c = ch) s))"
  using strip_character_loop_holds [OF assms, of 0 ch] strip_from_start_loop_holds [OF assms, of ch]
  by (simp add: strip_character_def strip_from_start_def strlen_holds [OF assms])

theorem strip_removes_witness:
  "\<exists>b'. strip_character [97, 32, 98, 0, 7] 32 = Some b' \<and> holds b' [97, 98]"
  using strip_removes [OF holds_example, of 32] by simp

text \<open>
  C18: \<^verbatim>\<open>strip_from_end\<close> does not strip: of a run of \<open>k\<close> trailing characters it leaves half,
  because its index moves down twice for every character it removes.
\<close>

theorem strip_from_end_leaves_half:
  assumes "holds b (p @ replicate k ch)" and "ch \<notin> set p"
  shows "\<exists>b'. strip_from_end b ch = Some b' \<and> holds b' (p @ replicate (k div 2) ch)"
proof -
  have "k - (k + 1) div 2 = k div 2" by presburger
  moreover have "int (length (p @ replicate k ch)) - 1 = int (length p) + int k - 1" by simp
  ultimately show ?thesis
    using strip_end_loop [OF assms(2,1) order_refl, of "length (p @ replicate k ch)"]
      holds_length [OF assms(1)] strlen_holds [OF assms(1)]
    by (simp add: strip_from_end_def)
qed

theorem strip_from_end_leaves_half_witness:
  "\<exists>b'. strip_from_end [97, 32, 32, 32, 0] 32 = Some b' \<and> holds b' [97, 32]"
  using strip_from_end_leaves_half [of "[97, 32, 32, 32, 0]" "[97]" 3 32]
  by (simp add: holds_def numeral_3_eq_3)

text \<open>A character before the trailing run can be removed as well.\<close>

lemma strip_from_end_inner: "strip_from_end [32, 97, 32, 0] 32 = Some [97, 0, 0, 0]"
  by (simp add: strip_from_end_def strlen_def strlen_from.simps strip_from_end_loop.simps
      shift_left.simps aget_def aset_def)

text \<open>
  \<^verbatim>\<open>seperate_and_take\<close> returns the piece with the given index of the string split at the
  separator, and the whole string when there is no such piece.
\<close>

theorem seperate_and_take_piece:
  assumes "holds b s"
  shows "seperate_and_take b sep (int k) =
    Some ((if k < length (split_on sep s) then split_on sep s ! k else s) @ [0])"
  using seperate_loop_holds [OF assms, of 0 0 0 "int k" sep 0]
  by (simp add: seperate_and_take_def Let_def)

theorem seperate_and_take_piece_witness:
  "seperate_and_take [97, 32, 98, 0, 7] 32 1 = Some [98, 0]"
  using seperate_and_take_piece [OF holds_example, of 32 1] by (simp add: split_on_cons)

text \<open>
  C20: \<^verbatim>\<open>count_substrings\<close> counts the pieces of the string after its first character, so a
  separator at the very start is not counted.
\<close>

theorem count_substrings_pieces:
  assumes "holds b s" and "s \<noteq> []"
  shows "count_substrings b sep = Some (int (length (split_on sep (tl s))))"
proof -
  have "1 \<le> length s" using assms(2) by (cases s) auto
  from count_substrings_loop_holds [OF assms(1) this, of sep 1] show ?thesis
    by (simp add: count_substrings_def drop_Suc)
qed

theorem count_substrings_pieces_witness: "count_substrings [97, 32, 98, 0, 7] 32 = Some 2"
  using count_substrings_pieces [OF holds_example, of 32] by (simp add: split_on_cons)

text \<open>
  A number printed by \<^verbatim>\<open>int_to_str_padding\<close> in a base from 2 to 16 is its sign, then
  zeroes up to the padding, then its digits; no byte outside the buffer is touched.
\<close>

theorem int_to_str_padding_text:
  assumes "2 \<le> base" and "base \<le> 16" and "n \<noteq> - (2 ^ 31)"
    and "length (number_text n base padding) < length b"
  shows "\<exists>b'. int_to_str_padding n b (int base) padding = Some b' \<and> holds b' (number_text n base padding)"
  by (rule int_to_str_padding_spec [OF assms])

theorem int_to_str_padding_text_witness:
  "\<exists>b'. int_to_str_padding (- 10) (replicate 8 1) 16 4 = Some b' \<and> holds b' [45, 48, 48, 65]"
proof -
  have "digits_of 16 10 = [65]" by (subst digits_of.simps) (simp add: digit_char_def digit_chars_def)
  then have t: "number_text (- 10) 16 4 = [45, 48, 48, 65]"
    by (simp add: number_text_def numeral_2_eq_2)
  from int_to_str_padding_text [of 16 "- 10" 4 "replicate 8 1"] show ?thesis by (simp add: t)
qed

text \<open>
  C8: reading back the decimal text of a non-negative number with \<^verbatim>\<open>decimal_to_uint\<close> gives
  the number.
\<close>

theorem decimal_roundtrip:
  assumes "0 \<le> n" and "n < 2 ^ 31" and "length (digits_of 10 (nat n)) < length b"
  shows "\<exists>b'. int_to_str n b 10 = Some b' \<and> decimal_to_uint b' = Some (word_of_int n)"
proof -
  have t: "number_text n 10 0 = digits_of 10 (nat n)" using assms(1) by (simp add: number_text_def)
  from int_to_str_padding_spec [of 10 n 0 b] assms obtain b' where
    b: "int_to_str n b 10 = Some b'" "holds b' (digits_of 10 (nat n))"
    unfolding t int_to_str_def by auto
  from decimal_loop_holds [OF order_refl b(2), of 0 1] digits_value [of "nat n"] strlen_holds [OF b(2)]
  have "decimal_to_uint b' = Some (of_nat (nat n))" by (simp add: decimal_to_uint_def)
  with b(1) assms(1) show ?thesis by simp
qed

theorem decimal_roundtrip_witness:
  "\<exists>b'. int_to_str 407 (replicate 30 0) 10 = Some b' \<and> decimal_to_uint b' = Some 407"
proof -
  have "length (digits_of 10 407) < 30" by (simp add: digits_of.simps)
  with decimal_roundtrip [of 407 "replicate 30 0"] show ?thesis by simp
qed

text \<open>
  \<^verbatim>\<open>atoi\<close> of the C library never returns: on every string it walks past the front of the
  array.
\<close>

theorem atoi_never_returns:
  assumes "holds b s" and "length b < 2 ^ 32"
  shows "atoi b = None"
proof -
  have big: "atoi_loop b (- 1) r p = None" for r p
  proof -
    have "unat (- 1 :: u32) = 2 ^ 32 - 1" by (simp add: unsigned_minus_1_eq_mask mask_eq_exp_minus_1)
    then show ?thesis using assms(2) by (subst atoi_loop.simps) simp
  qed
  have "atoi_loop b (of_nat n - 1) r p = None" if "n < 2 ^ 32" for n r p
    using that
  proof (induction n arbitrary: r p)
    case 0
    with big show ?case by simp
  next
    case (Suc n)
    have "(of_nat (Suc n) :: u32) - 1 = of_nat n" by simp
    with Suc show ?case by (subst atoi_loop.simps) (simp add: aget_def)
  qed
  then show ?thesis using strlen_holds [OF assms(1)] holds_length [OF assms(1)] assms(2)
    by (simp add: atoi_def)
qed

theorem atoi_never_returns_witness: "atoi [52, 50, 0] = None"
  using atoi_never_returns [of "[52, 50, 0]" "[52, 50]"] by (simp add: holds_def)

text \<open>
  \<^verbatim>\<open>uint_to_str\<close> counts the digits of the signed value, so for numbers from \<^verbatim>\<open>2^31\<close> on it
  writes in front of its buffer; \<^verbatim>\<open>byte_to_str\<close> does for three-digit values.
\<close>

lemma uint_to_str_underflow: "uint_to_str (- 1) (replicate 30 0) 10 = None"
proof -
  have c: "count_digits (- 1) 10 = 1" by (subst count_digits.simps) (simp add: cdiv_def)
  have w: "write_digits b (- 1) n 10 = None" for b n
    by (subst write_digits.simps) (simp add: aset_at_def)
  have "write_digits (replicate 30 0) 0 4294967295 10 = None"
    by (subst write_digits.simps) (simp add: aset_at_def aget_def digit_chars_def w)
  moreover have "uint (- 1 :: u32) = 4294967295" by code_simp
  ultimately show ?thesis by (simp add: uint_to_str_def c)
qed

lemma byte_to_str_underflow: "byte_to_str 200 (replicate 30 0) 10 = None"
  by (simp add: byte_to_str_def write_digits.simps digit_chars_def aset_at_def aget_def)

section \<open>Integer functions\<close>

text \<open>\<^verbatim>\<open>utils/math.c\<close>; \<^verbatim>\<open>root\<close> computes with floating-point numbers and is not modelled.\<close>

definition remap :: "int \<Rightarrow> int \<Rightarrow> int \<Rightarrow> int \<Rightarrow> int \<Rightarrow> int option" where
  "remap OldValue OldMin OldMax NewMin NewMax = do {
     guard (OldMax - OldMin \<noteq> 0);
     Some (cdiv ((OldValue - OldMin) * (NewMax - NewMin)) (OldMax - OldMin) + NewMin) }"

definition max_c :: "int \<Rightarrow> int \<Rightarrow> int" where
  "max_c a b = (if a > b then a else b)"

definition min_c :: "int \<Rightarrow> int \<Rightarrow> int" where
  "min_c a b = (if a < b then a else b)"

definition abs_c :: "int \<Rightarrow> int" where
  "abs_c n = (if n < 0 then - n else n)"

text \<open>
  C24: \<^verbatim>\<open>remap\<close> maps a value of the old range into the new range, and the ends of the old
  range onto the ends of the new one.
\<close>

theorem remap_into_range:
  assumes "OldMin < OldMax" and "NewMin \<le> NewMax" and "OldMin \<le> v" and "v \<le> OldMax"
  shows "\<exists>r. remap v OldMin OldMax NewMin NewMax = Some r \<and> NewMin \<le> r \<and> r \<le> NewMax \<and>
    (v = OldMin \<longrightarrow> r = NewMin) \<and> (v = OldMax \<longrightarrow> r = NewMax)"
proof -
  let ?w = "OldMax - OldMin" and ?a = "(v - OldMin) * (NewMax - NewMin)"
  have a: "0 \<le> ?a" "0 < ?w" using assms by simp_all
  have "?a \<le> ?w * (NewMax - NewMin)" using assms by (intro mult_right_mono) simp_all
  then have "?a div ?w \<le> ?w * (NewMax - NewMin) div ?w" using a(2) by (rule zdiv_mono1)
  then have "?a div ?w \<le> NewMax - NewMin" using a(2) by simp
  moreover have "0 \<le> ?a div ?w" using a by (simp add: pos_imp_zdiv_nonneg_iff)
  ultimately show ?thesis using a assms(1) by (auto simp: remap_def)
qed

theorem remap_into_range_witness: "\<exists>r. remap 5 0 10 100 200 = Some r \<and> 100 \<le> r \<and> r \<le> 200"
  using remap_into_range [of 0 10 100 200 5] by auto

end
