(* ===== verification/Vfs.thy ===== *)
theory Vfs
  imports Cstr
begin

text \<open>
  The virtual file system, \<^verbatim>\<open>kernel/vfs.c\<close>: a table of 26 devices, each a null pointer or a
  driver, and the functions that pass a request on to the driver of a path or of an open file.

  A driver is a record of functions over the state \<open>'s\<close> of all drivers; \<open>drv\<close> gives the driver
  behind a pointer.  The spin locks that guard some of the calls are acquired and released on
  the same path and leave no trace in the state.
\<close>

record fobj =
  f_name :: "u8 list"
  f_flags :: u32
  fileLength :: u32
  f_id :: u32
  eof :: u32
  position :: u32
  abs_position :: u32
  currentCluster :: u32
  deviceID :: u32
  TimeCreated :: u16
  DateCreated :: u16
  parentCluster :: int

abbreviation FS_FILE :: u32 where "FS_FILE \<equiv> 0"
abbreviation FS_DIRECTORY :: u32 where "FS_DIRECTORY \<equiv> 1"
abbreviation FS_INVALID :: u32 where "FS_INVALID \<equiv> 2"

abbreviation DEVICE_MAX :: nat where "DEVICE_MAX \<equiv> 26"

record 's driver =
  Read :: "'s \<Rightarrow> fobj \<Rightarrow> nat \<Rightarrow> (u8 list \<times> fobj \<times> 's) option"
  Write :: "'s \<Rightarrow> fobj \<Rightarrow> u8 list \<Rightarrow> nat \<Rightarrow> (fobj \<times> 's) option"
  Close :: "'s \<Rightarrow> fobj \<Rightarrow> (fobj \<times> 's) option"
  Open :: "'s \<Rightarrow> buffer \<Rightarrow> (fobj \<times> 's) option"
  OpenDir :: "'s \<Rightarrow> buffer \<Rightarrow> (fobj list \<times> 's) option"
  Create :: "'s \<Rightarrow> fobj \<Rightarrow> buffer \<Rightarrow> u32 \<Rightarrow> 's option"

text \<open>The device table holds driver pointers; \<open>registered\<close> is the static counter of
  \<^verbatim>\<open>volRegisterFileSystem\<close>.\<close>

record 's vfs =
  FileSystems :: "u32 list"
  registered :: nat
  dstate :: 's

definition invalid_file :: fobj where
  "invalid_file = \<lparr>f_name = [], f_flags = FS_INVALID, fileLength = 0, f_id = 0, eof = 0, position = 0,
     abs_position = 0, currentCluster = 0, deviceID = 0, TimeCreated = 0, DateCreated = 0,
     parentCluster = 0\<rparr>"

text \<open>The device letter of a path, and the path without it.\<close>

definition vol_device :: "buffer \<Rightarrow> (u8 \<times> buffer) option" where
  "vol_device fname = do {
     c \<leftarrow> aget fname 1;
     if c = 58 then do { d \<leftarrow> aget fname 0; Some (d - 97, drop 2 fname) }
     else Some (0, fname) }"

definition volOpenFile :: "(u32 \<Rightarrow> 's driver) \<Rightarrow> 's vfs \<Rightarrow> buffer option \<Rightarrow> (fobj \<times> 's vfs) option" where
  "volOpenFile drv st fname =
     (case fname of
        None \<Rightarrow> Some (invalid_file, st)
      | Some fname \<Rightarrow> do {
          (device, filename) \<leftarrow> vol_device fname;
          fs \<leftarrow> aget (FileSystems st) (unat device);
          if fs \<noteq> 0 then do {
            (f, s) \<leftarrow> Open (drv fs) (dstate st) filename;
            Some (f\<lparr>deviceID := ucast device\<rparr>, st\<lparr>dstate := s\<rparr>) }
          else Some (invalid_file, st) })"

definition volOpenDir :: "(u32 \<Rightarrow> 's driver) \<Rightarrow> 's vfs \<Rightarrow> buffer option \<Rightarrow> (fobj list \<times> 's vfs) option" where
  "volOpenDir drv st fname =
     (case fname of
        None \<Rightarrow> Some ([], st)
      | Some fname \<Rightarrow> do {
          (device, filename) \<leftarrow> vol_device fname;
          fs \<leftarrow> aget (FileSystems st) (unat device);
          if fs \<noteq> 0 then do {
            (l, s) \<leftarrow> OpenDir (drv fs) (dstate st) filename;
            Some (map (\<lambda>f. f\<lparr>deviceID := ucast device\<rparr>) l, st\<lparr>dstate := s\<rparr>) }
          else Some ([], st) })"

definition volCloseFile :: "(u32 \<Rightarrow> 's driver) \<Rightarrow> 's vfs \<Rightarrow> fobj option \<Rightarrow> (fobj option \<times> 's vfs) option" where
  "volCloseFile drv st f =
     (case f of
        None \<Rightarrow> Some (None, st)
      | Some f \<Rightarrow> do {
          fs \<leftarrow> aget (FileSystems st) (unat (deviceID f));
          if fs \<noteq> 0 then do {
            (f, s) \<leftarrow> Close (drv fs) (dstate st) f;
            Some (Some f, st\<lparr>dstate := s\<rparr>) }
          else Some (Some f, st) })"

definition volReadFile ::
  "(u32 \<Rightarrow> 's driver) \<Rightarrow> 's vfs \<Rightarrow> fobj option \<Rightarrow> nat \<Rightarrow> (u8 list \<times> fobj option \<times> 's vfs) option" where
  "volReadFile drv st f Length =
     (case f of
        None \<Rightarrow> Some ([], None, st)
      | Some f \<Rightarrow> do {
          fs \<leftarrow> aget (FileSystems st) (unat (deviceID f));
          if fs \<noteq> 0 then do {
            (b, f, s) \<leftarrow> Read (drv fs) (dstate st) f Length;
            Some (b, Some f, st\<lparr>dstate := s\<rparr>) }
          else Some ([], Some f, st) })"

definition volWriteFile ::
  "(u32 \<Rightarrow> 's driver) \<Rightarrow> 's vfs \<Rightarrow> fobj option \<Rightarrow> u8 list \<Rightarrow> nat \<Rightarrow> (fobj option \<times> 's vfs) option" where
  "volWriteFile drv st f Buffer Length =
     (case f of
        None \<Rightarrow> Some (None, st)
      | Some f \<Rightarrow> do {
          fs \<leftarrow> aget (FileSystems st) (unat (deviceID f));
          if fs \<noteq> 0 then do {
            (f, s) \<leftarrow> Write (drv fs) (dstate st) f Buffer Length;
            Some (Some f, st\<lparr>dstate := s\<rparr>) }
          else Some (Some f, st) })"

definition volCreateFile ::
  "(u32 \<Rightarrow> 's driver) \<Rightarrow> 's vfs \<Rightarrow> fobj option \<Rightarrow> buffer \<Rightarrow> u32 \<Rightarrow> 's vfs option" where
  "volCreateFile drv st f fname flags =
     (case f of
        None \<Rightarrow> Some st
      | Some f \<Rightarrow> do {
          fs \<leftarrow> aget (FileSystems st) (unat (deviceID f));
          if fs \<noteq> 0 then do {
            s \<leftarrow> Create (drv fs) (dstate st) f fname flags;
            Some (st\<lparr>dstate := s\<rparr>) }
          else Some st })"

definition volRegisterFileSystem :: "'s vfs \<Rightarrow> u32 \<Rightarrow> u32 \<Rightarrow> 's vfs option" where
  "volRegisterFileSystem st fsys device =
     (if device < of_nat DEVICE_MAX \<and> registered st < DEVICE_MAX then
        (if fsys \<noteq> 0 then do {
           t \<leftarrow> aset (FileSystems st) (unat device) fsys;
           Some (st\<lparr>FileSystems := t, registered := registered st + 1\<rparr>) }
         else Some st)
      else Some st)"

definition volUnregisterFileSystem :: "'s vfs \<Rightarrow> u32 \<Rightarrow> 's vfs" where
  "volUnregisterFileSystem st fsys =
     st\<lparr>FileSystems := map (\<lambda>p. if p = fsys then 0 else p) (FileSystems st)\<rparr>"

definition volUnregisterFileSystemByID :: "'s vfs \<Rightarrow> u32 \<Rightarrow> 's vfs option" where
  "volUnregisterFileSystemByID st device =
     (if device < of_nat DEVICE_MAX then do {
        t \<leftarrow> aset (FileSystems st) (unat device) 0;
        Some (st\<lparr>FileSystems := t\<rparr>) }
      else Some st)"

section \<open>Properties\<close>

text \<open>
  Opening a path with a lower-case device letter asks exactly the driver registered for
  that letter, with the rest of the path, and stamps the file with the device, so that every
  later operation on the file reaches the same driver.
\<close>

theorem vfs_open_dispatch:
  assumes "length (FileSystems st) = DEVICE_MAX" and "97 \<le> l" and "l \<le> 122"
    and "FileSystems st ! (unat l - 97) = fs" and "fs \<noteq> 0"
    and "Open (drv fs) (dstate st) path = Some (f, s)"
  shows "volOpenFile drv st (Some (l # 58 # path)) =
      Some (f\<lparr>deviceID := ucast (l - 97)\<rparr>, st\<lparr>dstate := s\<rparr>) \<and>
    (\<forall>n. volReadFile drv (st\<lparr>dstate := s\<rparr>) (Some (f\<lparr>deviceID := ucast (l - 97)\<rparr>)) n = do {
       (b, g, s') \<leftarrow> Read (drv fs) s (f\<lparr>deviceID := ucast (l - 97)\<rparr>) n;
       Some (b, Some g, st\<lparr>dstate := s'\<rparr>) })"
proof -
  have u: "unat (l - 97) = unat l - 97" using assms(2) by (simp add: unat_sub)
  moreover have "unat l \<le> 122" using assms(3) by (simp add: word_le_nat_alt)
  moreover have "97 \<le> unat l" using assms(2) by (simp add: word_le_nat_alt)
  ultimately have i: "unat (l - 97) < length (FileSystems st)" using assms(1) by simp
  have g: "aget (FileSystems st) (unat (l - 97)) = Some fs" using i u assms(4) by simp
  have w: "unat (ucast (l - 97) :: u32) = unat (l - 97)"
    by (simp add: unat_ucast_u8)
  have v: "vol_device (l # 58 # path) = Some (l - 97, path)"
    by (simp add: vol_device_def)
  show ?thesis using g w v assms(5,6)
    by (simp add: volOpenFile_def volReadFile_def cong: option.case_cong)
qed

definition sample_driver :: "nat driver" where
  "sample_driver = \<lparr>
     Read = (\<lambda>s f n. Some (replicate n (of_nat s), f, s)),
     Write = (\<lambda>s f b n. Some (f, s + n)),
     Close = (\<lambda>s f. Some (f, s)),
     Open = (\<lambda>s b. Some (invalid_file\<lparr>f_name := b, f_flags := FS_FILE\<rparr>, s)),
     OpenDir = (\<lambda>s b. Some ([], s)),
     Create = (\<lambda>s f b fl. Some (s + 1))\<rparr>"

definition sample_vfs :: "nat vfs" where
  "sample_vfs = \<lparr>FileSystems = (replicate 26 0)[1 := 0x4000], registered = 1, dstate = 5\<rparr>"

theorem vfs_open_dispatch_witness:
  "volOpenFile (\<lambda>p. sample_driver) sample_vfs (Some [98, 58, 47, 0]) =
     Some (invalid_file\<lparr>f_name := [47, 0], f_flags := FS_FILE, deviceID := 1\<rparr>, sample_vfs)"
  using vfs_open_dispatch [of sample_vfs 98 "0x4000" "\<lambda>p. sample_driver" "[47, 0]"
      "invalid_file\<lparr>f_name := [47, 0], f_flags := FS_FILE\<rparr>" 5]
  by (simp add: sample_vfs_def sample_driver_def)

text \<open>
  Registering a driver puts it at its device and nowhere else, unregistering it removes
  every entry that points to it and no other, and the table keeps its 26 entries.
\<close>

theorem vfs_register_unregister:
  assumes "length (FileSystems st) = DEVICE_MAX" and "unat device < DEVICE_MAX"
    and "registered st < DEVICE_MAX" and "fsys \<noteq> 0"
  shows "\<exists>st'. volRegisterFileSystem st fsys device = Some st' \<and>
    FileSystems st' = (FileSystems st)[unat device := fsys] \<and>
    (\<forall>i < DEVICE_MAX. FileSystems (volUnregisterFileSystem st' fsys) ! i =
       (if i = unat device \<or> FileSystems st ! i = fsys then 0 else FileSystems st ! i)) \<and>
    length (FileSystems (volUnregisterFileSystem st' fsys)) = DEVICE_MAX"
proof -
  have "device < of_nat DEVICE_MAX" using assms(2) by (simp add: word_less_nat_alt)
  then have "volRegisterFileSystem st fsys device =
      Some (st\<lparr>FileSystems := (FileSystems st)[unat device := fsys], registered := registered st + 1\<rparr>)"
    using assms by (simp add: volRegisterFileSystem_def)
  then show ?thesis using assms
    by (auto simp: volUnregisterFileSystem_def nth_list_update)
qed

theorem vfs_register_unregister_witness:
  "\<exists>st'. volRegisterFileSystem sample_vfs 0x5000 2 = Some st' \<and>
    FileSystems st' = (FileSystems sample_vfs)[2 := 0x5000]"
  using vfs_register_unregister [of sample_vfs 2 "0x5000"] by (auto simp: sample_vfs_def)

text \<open>
  An upper-case device letter is not rejected: \<^verbatim>\<open>'A' - 'a'\<close> is 224 as a byte, and the table is
  read outside its 26 entries.
\<close>

lemma vfs_upper_case_letter:
  assumes "length (FileSystems st) = DEVICE_MAX" and "65 \<le> l" and "l \<le> 90"
  shows "volOpenFile drv st (Some (l # 58 # path)) = None"
proof -
  have "unat (l - 97) = unat l + 2 ^ 8 - 97"
    using assms(2,3) by (simp add: unat_sub_if_size word_le_nat_alt word_size)
  then have "DEVICE_MAX \<le> unat (l - 97)" using assms(2) by (simp add: word_le_nat_alt)
  with assms(1) show ?thesis by (simp add: volOpenFile_def vol_device_def)
qed

end
