(* ===== verification/Spaces.thy ===== *)
theory Spaces
  imports Vmm
begin

text \<open>
  Address spaces and the pages that threads get in them: the copying and clearing of the
  kernel's directory entries (\<^verbatim>\<open>kernel/process.c\<close>) and the search for stacks and user pages
  (\<^verbatim>\<open>kernel/scheduler.c\<close>).

  A search that never finds a page, because every page of the directory is mapped, does not
  return; this and the use of an uninitialised pointer are \<open>None\<close>.
\<close>

section \<open>Directory entries\<close>

text \<open>
  \<^verbatim>\<open>memcpy\<close> and \<^verbatim>\<open>memset\<close> on \<open>n\<close> entries from entry \<open>i\<close> on.  A null directory lies in the page at
  address 0, which the kernel never maps.
\<close>

fun copy_entries :: "vmm \<Rightarrow> u32 \<Rightarrow> u32 \<Rightarrow> nat \<Rightarrow> nat \<Rightarrow> vmm option" where
  "copy_entries st out src i 0 = Some st"
| "copy_entries st out src i (Suc n) = do {
     guard (out \<noteq> 0 \<and> src \<noteq> 0);
     let e = mem st (src + 4 * of_nat i);
     copy_entries (st\<lparr>mem := (mem st)(out + 4 * of_nat i := e)\<rparr>) out src (Suc i) n }"

fun zero_entries :: "vmm \<Rightarrow> u32 \<Rightarrow> nat \<Rightarrow> nat \<Rightarrow> vmm option" where
  "zero_entries st out i 0 = Some st"
| "zero_entries st out i (Suc n) = do {
     guard (out \<noteq> 0);
     zero_entries (st\<lparr>mem := (mem st)(out + 4 * of_nat i := 0)\<rparr>) out (Suc i) n }"

abbreviation FB_WIDTH :: nat where "FB_WIDTH \<equiv> 1280"
abbreviation FB_HEIGHT :: nat where "FB_HEIGHT \<equiv> 1024"

definition framebuffer_tables :: nat where
  "framebuffer_tables = (
     let n = FB_WIDTH * FB_HEIGHT * 3 div 0x100000
     in if FB_WIDTH * FB_HEIGHT * 3 mod 0x100000 \<noteq> 0 then n + 1 else n)"

definition clone_kernel_space :: "vmm \<Rightarrow> u32 \<Rightarrow> vmm option" where
  "clone_kernel_space st out = do {
     let proc = vmmngr_get_directory st;
     st \<leftarrow> copy_entries st out proc 768 4;
     st \<leftarrow> copy_entries st out proc 0 1;
     copy_entries st out proc 820 framebuffer_tables }"

definition clone_kernel_stacks :: "vmm \<Rightarrow> u32 \<Rightarrow> vmm option" where
  "clone_kernel_stacks st out = copy_entries st out (vmmngr_get_directory st) 896 128"

definition clear_kernel_space :: "vmm \<Rightarrow> u32 \<Rightarrow> vmm option" where
  "clear_kernel_space st out = do {
     st \<leftarrow> zero_entries st out 820 framebuffer_tables;
     st \<leftarrow> zero_entries st out 768 4;
     zero_entries st out 0 1 }"

definition clear_kernel_stacks :: "vmm \<Rightarrow> u32 \<Rightarrow> vmm option" where
  "clear_kernel_stacks st out = zero_entries st out 896 128"

definition create_address_space :: "vmm \<Rightarrow> (u32 \<times> vmm) option" where
  "create_address_space st = do {
     (space, st) \<leftarrow> vmmngr_create_pdir st;
     st \<leftarrow> clone_kernel_space st space;
     Some (space, st) }"

section \<open>Stacks\<close>

partial_function (option) find_free_page :: "vmm \<Rightarrow> u32 \<Rightarrow> u32 \<Rightarrow> u32 \<Rightarrow> u32 option" where
  "find_free_page st dir loc step = do {
     present \<leftarrow> vmmngr_check_virt_present st dir loc;
     if present then find_free_page st dir (loc + step) step else Some loc }"

definition create_kernel_stack :: "vmm \<Rightarrow> (u32 \<times> vmm) option" where
  "create_kernel_stack st = do {
     loc \<leftarrow> find_free_page st (vmmngr_get_directory st) 0xe0000000 4096;
     st \<leftarrow> vmmngr_alloc_virt st (vmmngr_get_directory st) loc I86_WRITABLE I86_WRITABLE;
     Some (loc + 4096, st) }"

definition create_user_kernel_stack :: "vmm \<Rightarrow> (u32 \<times> vmm) option" where
  "create_user_kernel_stack st = do {
     loc \<leftarrow> find_free_page st (vmmngr_get_directory st) 0x80000000 4096;
     st \<leftarrow> vmmngr_alloc_virt st (vmmngr_get_directory st) loc I86_WRITABLE I86_WRITABLE;
     Some (loc + 4096, st) }"

definition create_user_stack :: "vmm \<Rightarrow> u32 \<Rightarrow> (u32 \<times> vmm) option" where
  "create_user_stack st space = do {
     loc \<leftarrow> find_free_page st space (0x80000000 - 4096) (- 4096);
     st \<leftarrow> vmmngr_alloc_virt st space loc (I86_WRITABLE OR I86_USER) (I86_WRITABLE OR I86_USER);
     Some (loc, st) }"

section \<open>User pages\<close>

text \<open>
  The search loop of \<^verbatim>\<open>allocate_user_space_pages\<close> and \<^verbatim>\<open>find_user_space_pages_by_pdir\<close>; the
  result 0 is the early return at the kernel's part of the address space.
\<close>

lemma next_page: "unat (a :: u32) < 0xC0000000 \<Longrightarrow> unat (a + 4096) = unat a + 4096"
  by (simp add: unat_word_ariths)

function find_pages_loop :: "vmm \<Rightarrow> u32 \<Rightarrow> u32 \<Rightarrow> int \<Rightarrow> int \<Rightarrow> u32 option \<Rightarrow> nat \<Rightarrow> u32 option" where
  "find_pages_loop st pdir base page_amt count loc i = (
     let a = base + of_nat i * 4096
     in if 0xC0000000 \<le> a then Some 0
        else do {
          present \<leftarrow> vmmngr_check_virt_present st pdir a;
          let loc = (if \<not> present \<and> count = 0 then Some a else loc);
          let count = (if \<not> present then count + 1 else 0);
          if count = page_amt then loc
          else find_pages_loop st pdir base page_amt count loc (Suc i) })"
  by pat_completeness auto
termination
proof (relation "measure (\<lambda>(st, pdir, base, page_amt, count, loc, i). 0xC0000000 - unat (base + of_nat i * 4096))")
  fix base :: u32 and i :: nat and a :: u32
  assume a: "a = base + of_nat i * 4096" and l: "\<not> 0xC0000000 \<le> a"
  have e: "base + of_nat (Suc i) * 4096 = a + 4096" by (simp add: a distrib_right)
  from l have u: "unat a < 0xC0000000" by (simp add: word_le_nat_alt)
  have "0xC0000000 - unat (base + of_nat (Suc i) * 4096) < 0xC0000000 - unat a"
    unfolding e using next_page [OF u] u by linarith
  then show "((st, pdir, base, page_amt, c, lo, Suc i), (st', pdir', base, page_amt', c', lo', i))
      \<in> measure (\<lambda>(st, pdir, base, page_amt, count, loc, i). 0xC0000000 - unat (base + of_nat i * 4096))"
    for st st' :: vmm and pdir pdir' :: u32 and page_amt page_amt' c c' :: int and lo lo' :: "u32 option"
    by (simp add: a)
qed simp

declare find_pages_loop.simps [simp del]

definition find_user_space_pages_by_pdir :: "vmm \<Rightarrow> u32 \<Rightarrow> u32 \<Rightarrow> int \<Rightarrow> u32 option" where
  "find_user_space_pages_by_pdir st pdir base page_amt = find_pages_loop st pdir base page_amt 0 None 0"

definition find_user_space_pages :: "vmm \<Rightarrow> u32 \<Rightarrow> int \<Rightarrow> u32 option" where
  "find_user_space_pages st base page_amt =
     find_user_space_pages_by_pdir st (vmmngr_get_directory st) base page_amt"

fun alloc_pages_loop :: "vmm \<Rightarrow> u32 \<Rightarrow> u32 \<Rightarrow> nat \<Rightarrow> vmm option" where
  "alloc_pages_loop st pdir loc 0 = Some st"
| "alloc_pages_loop st pdir loc (Suc n) = do {
     st \<leftarrow> vmmngr_alloc_virt st pdir loc (I86_WRITABLE OR I86_USER) (I86_WRITABLE OR I86_USER);
     alloc_pages_loop st pdir (loc + 4096) n }"

definition allocate_user_space_pages :: "vmm \<Rightarrow> int \<Rightarrow> (u32 \<times> vmm) option" where
  "allocate_user_space_pages st page_amt = do {
     let pdir = vmmngr_get_directory st;
     loc \<leftarrow> find_pages_loop st pdir 0xA0000000 page_amt 0 None 0;
     if loc = 0 then Some (0, st)
     else do {
       st \<leftarrow> alloc_pages_loop st pdir loc (nat page_amt);
       Some (loc, st) } }"

section \<open>The search for user pages\<close>

lemma unat_page: "unat (base :: u32) + i * 4096 < 2 ^ 32 \<Longrightarrow> unat (base + of_nat i * 4096) = unat base + i * 4096"
proof -
  assume a: "unat base + i * 4096 < 2 ^ 32"
  have e: "base + of_nat i * 4096 = of_nat (unat base + i * 4096)" by simp
  have "unat (of_nat (unat base + i * 4096) :: u32) = unat base + i * 4096"
    unfolding unat_of_nat by (rule mod_less) (use a in simp)
  then show ?thesis by (simp only: e)
qed

definition unmapped_run :: "vmm \<Rightarrow> u32 \<Rightarrow> u32 \<Rightarrow> nat \<Rightarrow> nat \<Rightarrow> bool" where
  "unmapped_run st pdir base n s \<longleftrightarrow> (\<forall>k<n. \<not> mapped st pdir (base + of_nat (s + k) * 4096))"

text \<open>A run of \<open>n\<close> unmapped pages from page \<open>s\<close> after the base that ends below the kernel.\<close>

definition user_run :: "vmm \<Rightarrow> u32 \<Rightarrow> u32 \<Rightarrow> nat \<Rightarrow> nat \<Rightarrow> bool" where
  "user_run st pdir base n s \<longleftrightarrow>
     unmapped_run st pdir base n s \<and> unat base + (s + n - 1) * 4096 < 0xC0000000"

lemma find_pages_loop_spec:
  assumes wf: "wf_dir st pdir" and n: "0 < n"
  shows "\<lbrakk> c < n; c \<le> i; \<forall>j<i. unat base + j * 4096 < 0xC0000000;
      \<forall>k. i - c \<le> k \<and> k < i \<longrightarrow> \<not> mapped st pdir (base + of_nat k * 4096);
      0 < c \<longrightarrow> loc = Some (base + of_nat (i - c) * 4096);
      \<forall>s. s < i - c \<longrightarrow> \<not> unmapped_run st pdir base n s \<rbrakk> \<Longrightarrow>
    (\<forall>s. \<not> user_run st pdir base n s) \<and> find_pages_loop st pdir base (int n) (int c) loc i = Some 0 \<or>
    (\<exists>s. user_run st pdir base n s \<and> (\<forall>q < s. \<not> user_run st pdir base n q) \<and>
      find_pages_loop st pdir base (int n) (int c) loc i = Some (base + of_nat s * 4096))"
proof (induction "0xC0000000 - (unat base + i * 4096)" arbitrary: c loc i rule: less_induct)
  case less
  let ?a = "base + of_nat i * 4096"
  have "unat base + i * 4096 < 2 ^ 32"
  proof (cases i)
    case 0
    then show ?thesis using unat_u32 [of base] by simp
  next
    case (Suc j)
    then show ?thesis using less.prems(3) by auto
  qed
  then have ua: "unat ?a = unat base + i * 4096" by (rule unat_page)
  note unfold = find_pages_loop.simps [of st pdir base "int n" "int c" loc i]
  show ?case
  proof (cases "0xC0000000 \<le> ?a")
    case True
    then have l: "0xC0000000 \<le> unat base + i * 4096" using ua by (simp add: word_le_nat_alt)
    have "\<not> user_run st pdir base n s" for s
    proof
      assume u: "user_run st pdir base n s"
      then have "\<not> s < i - c" using less.prems(6) by (auto simp: user_run_def)
      moreover have "s + n - 1 < i" using u l by (auto simp: user_run_def)
      ultimately show False using less.prems(1,2) n by simp
    qed
    then show ?thesis using True by (subst unfold) simp
  next
    case False
    then have l: "unat base + i * 4096 < 0xC0000000" using ua by (simp add: word_le_nat_alt)
    note chk = check_present_mapped [OF wf, of ?a]
    have below: "\<forall>j<Suc i. unat base + j * 4096 < 0xC0000000"
      using less.prems(3) l less_Suc_eq by auto
    have smaller: "0xC0000000 - (unat base + Suc i * 4096) < 0xC0000000 - (unat base + i * 4096)"
      using l by simp
    show ?thesis
    proof (cases "mapped st pdir ?a")
      case m: True
      have "\<not> unmapped_run st pdir base n s" if "s < Suc i" for s
      proof (cases "s < i - c")
        case True
        then show ?thesis using less.prems(6) by blast
      next
        case False
        then have "i - s < n" "s + (i - s) = i" using that less.prems(1,2) by simp_all
        then show ?thesis using m unfolding unmapped_run_def by metis
      qed
      then have none: "\<forall>s. s < Suc i - 0 \<longrightarrow> \<not> unmapped_run st pdir base n s" by simp
      have "\<forall>k. Suc i - 0 \<le> k \<and> k < Suc i \<longrightarrow> \<not> mapped st pdir (base + of_nat k * 4096)" by auto
      from less.hyps [OF smaller n _ below this _ none, of loc]
      have "(\<forall>s. \<not> user_run st pdir base n s) \<and> find_pages_loop st pdir base (int n) 0 loc (Suc i) = Some 0 \<or>
        (\<exists>s. user_run st pdir base n s \<and> (\<forall>q < s. \<not> user_run st pdir base n q) \<and>
          find_pages_loop st pdir base (int n) 0 loc (Suc i) = Some (base + of_nat s * 4096))" by simp
      moreover have "find_pages_loop st pdir base (int n) (int c) loc i =
          find_pages_loop st pdir base (int n) 0 loc (Suc i)"
        using False m chk n by (subst unfold) (simp add: Let_def)
      ultimately show ?thesis by simp
    next
      case m: False
      let ?loc = "if c = 0 then Some ?a else loc"
      have ic: "Suc i - Suc c = i - c" by simp
      have free: "\<forall>k. Suc i - Suc c \<le> k \<and> k < Suc i \<longrightarrow> \<not> mapped st pdir (base + of_nat k * 4096)"
        using less.prems(4) m less_Suc_eq unfolding ic by auto
      have loc: "?loc = Some (base + of_nat (Suc i - Suc c) * 4096)"
        using less.prems(5) unfolding ic by auto
      have step: "find_pages_loop st pdir base (int n) (int c) loc i =
          (if Suc c = n then ?loc else find_pages_loop st pdir base (int n) (int (Suc c)) ?loc (Suc i))"
        using False m chk by (subst unfold) (auto simp: Let_def add.commute)
      show ?thesis
      proof (cases "Suc c = n")
        case True
        have "unmapped_run st pdir base n (i - c)"
          unfolding unmapped_run_def
        proof (intro allI impI)
          fix k
          assume "k < n"
          then have "Suc i - Suc c \<le> i - c + k \<and> i - c + k < Suc i" using True less.prems(2) by linarith
          then show "\<not> mapped st pdir (base + of_nat (i - c + k) * 4096)" using free by blast
        qed
        moreover have "i - c + n - 1 = i" using True less.prems(2) by simp
        ultimately have "user_run st pdir base n (i - c)" using l by (simp add: user_run_def)
        moreover have "\<forall>q < i - c. \<not> user_run st pdir base n q"
          using less.prems(6) by (simp add: user_run_def)
        ultimately show ?thesis using step True loc unfolding ic by auto
      next
        case False
        then have "Suc c < n" "Suc c \<le> Suc i" using less.prems(1,2) by simp_all
        from less.hyps [OF smaller this below free, of ?loc] loc less.prems(6) step False
        show ?thesis unfolding ic by simp
      qed
    qed
  qed
qed

section \<open>What copying entries does\<close>

definition slot :: "u32 \<Rightarrow> nat \<Rightarrow> u32" where
  "slot d k = d + 4 * of_nat k"

lemma slot_bits: "k < 1024 \<Longrightarrow> 10 \<le> n \<Longrightarrow> \<not> bit (of_nat k :: u32) n"
proof -
  assume k: "k < 1024" and n: "10 \<le> n"
  have "(2::nat) ^ 10 \<le> 2 ^ n" using n by (intro power_increasing) simp_all
  moreover have "k < 2 ^ 10" using k by simp
  ultimately have "k div 2 ^ n = 0" by (intro div_less) (rule less_le_trans)
  then have "\<not> bit k n" unfolding bit_iff_odd by simp
  then show ?thesis by (simp add: bit_of_nat_iff)
qed

lemma slot_frame: "aligned d \<Longrightarrow> k < 1024 \<Longrightarrow> slot d k AND I86_FRAME = d"
proof -
  assume a: "aligned d" and k: "k < 1024"
  have b: "\<And>n. 10 \<le> n \<Longrightarrow> \<not> bit (of_nat k :: u32) n" by (rule slot_bits [OF k])
  have "d + 4 * of_nat k = d OR push_bit 2 (of_nat k)" by (rule plus_entry [OF a b])
  moreover have "(d OR push_bit 2 (of_nat k)) AND I86_FRAME = d" by (rule entry_frame [OF a b])
  ultimately show ?thesis by (simp only: slot_def)
qed

lemma slot_inj: "k < 1024 \<Longrightarrow> l < 1024 \<Longrightarrow> slot d k = slot d l \<longleftrightarrow> k = l"
proof
  assume k: "k < 1024" "l < 1024" and "slot d k = slot d l"
  then have e: "4 * of_nat k = (4 * of_nat l :: u32)" by (simp add: slot_def)
  have "(of_nat k :: u32) = of_nat l"
    by (rule index_inj [OF e]) (rule slot_bits [OF k(1)], assumption, rule slot_bits [OF k(2)], assumption)
  then have "unat (of_nat k :: u32) = unat (of_nat l :: u32)" by simp
  then show "k = l" using k unat_of_nat [of k, where 'a = 32] unat_of_nat [of l, where 'a = 32] by simp
qed simp

lemma slot_pde: "pde_addr d v = slot d (unat (PAGE_DIRECTORY_INDEX v))"
  by (simp add: pde_addr_def slot_def)

lemma directory_index_less: "unat (PAGE_DIRECTORY_INDEX v) < 1024"
proof -
  have "PAGE_DIRECTORY_INDEX v < 2 ^ 10"
    unfolding PAGE_DIRECTORY_INDEX_def mask10 by (rule and_mask_less') simp
  then show ?thesis by (simp add: word_less_nat_alt)
qed

text \<open>
  The directory \<open>out\<close> after some of its entries, those in \<open>S\<close>, were copied from \<open>src\<close>, and
  nothing outside its page was touched.
\<close>

definition copied :: "nat set \<Rightarrow> u32 \<Rightarrow> u32 \<Rightarrow> vmm \<Rightarrow> vmm \<Rightarrow> bool" where
  "copied S out src st st' \<longleftrightarrow> (\<exists>m. st' = st\<lparr>mem := m\<rparr>) \<and>
     (\<forall>k<1024. mem st' (slot out k) = (if k \<in> S then mem st (slot src k) else mem st (slot out k))) \<and>
     (\<forall>a. a AND I86_FRAME \<noteq> out \<longrightarrow> mem st' a = mem st a)"

lemma copied_trans:
  assumes "copied S out src st st1" and "copied T out src st1 st2"
    and "aligned src" and "out \<noteq> src"
  shows "copied (S \<union> T) out src st st2"
proof -
  obtain m1 m2 where m: "st1 = st\<lparr>mem := m1\<rparr>" "st2 = st1\<lparr>mem := m2\<rparr>"
    using assms(1,2) by (auto simp: copied_def)
  then have "st2 = st\<lparr>mem := m2\<rparr>" by simp
  moreover have "mem st1 (slot src k) = mem st (slot src k)" if "k < 1024" for k
    using assms that slot_frame [of src k] by (auto simp: copied_def)
  ultimately show ?thesis using assms(1,2) unfolding copied_def by auto
qed

lemma copy_entries_copied:
  assumes "aligned out" and "aligned src" and "out \<noteq> 0" and "src \<noteq> 0" and "out \<noteq> src"
  shows "i + n \<le> 1024 \<Longrightarrow> \<exists>st'. copy_entries st out src i n = Some st' \<and> copied {i..<i + n} out src st st'"
proof (induction n arbitrary: i st)
  case 0
  then show ?case by (auto simp: copied_def intro: exI [of _ "mem st"])
next
  case (Suc n)
  let ?st = "st\<lparr>mem := (mem st)(slot out i := mem st (slot src i))\<rparr>"
  have i: "i < 1024" using Suc.prems by simp
  have "copied {i} out src st ?st"
    using i slot_frame [OF assms(1) i] slot_inj [OF _ i, of _ out] by (auto simp: copied_def)
  moreover from Suc.IH [of "Suc i" ?st] Suc.prems obtain st' where
    s: "copy_entries ?st out src (Suc i) n = Some st'" "copied {Suc i..<Suc i + n} out src ?st st'" by auto
  ultimately have "copied ({i} \<union> {Suc i..<Suc i + n}) out src st st'"
    using assms by (blast intro: copied_trans)
  moreover have "{i} \<union> {Suc i..<Suc i + n} = {i..<i + Suc n}" by auto
  ultimately show ?case using s(1) assms by (auto simp: slot_def)
qed

definition kernel_slots :: "nat set" where
  "kernel_slots = {768..<772} \<union> {0} \<union> {820..<824}"

lemma framebuffer_tables_4 [simp]: "framebuffer_tables = 4"
  by (simp add: framebuffer_tables_def Let_def)

lemma clone_kernel_space_copied:
  assumes "aligned out" and "aligned (cur_directory st)" and "out \<noteq> 0" and "cur_directory st \<noteq> 0"
    and "out \<noteq> cur_directory st"
  shows "\<exists>st'. clone_kernel_space st out = Some st' \<and> copied kernel_slots out (cur_directory st) st st'"
proof -
  let ?src = "cur_directory st"
  note c = copy_entries_copied [OF assms]
  from c [of 768 4 st] obtain s1 where
    1: "copy_entries st out ?src 768 4 = Some s1" "copied {768..<772} out ?src st s1" by auto
  from c [of 0 1 s1] obtain s2 where
    2: "copy_entries s1 out ?src 0 1 = Some s2" "copied {0..<1} out ?src s1 s2" by auto
  from c [of 820 4 s2] obtain s3 where
    3: "copy_entries s2 out ?src 820 4 = Some s3" "copied {820..<824} out ?src s2 s3" by auto
  have "copied ({768..<772} \<union> {0..<1} \<union> {820..<824}) out ?src st s3"
    using 1(2) 2(2) 3(2) assms by (blast intro: copied_trans)
  moreover have "{0..<1} = {0::nat}" by auto
  ultimately have "copied kernel_slots out ?src st s3" by (simp add: kernel_slots_def)
  with 1(1) 2(1) 3(1) show ?thesis
    by (simp add: clone_kernel_space_def vmmngr_get_directory_def Let_def del: copy_entries.simps)
qed

section \<open>Properties\<close>

text \<open>
  The search for user pages is first fit: it always returns, with the lowest run of the
  wanted number of unmapped pages from the base on that ends below the kernel, or with 0
  exactly when there is no such run.
\<close>

theorem find_user_pages_first_fit:
  assumes "wf_dir st pdir" and "0 < n"
  shows "(\<forall>s. \<not> user_run st pdir base n s) \<and> find_user_space_pages_by_pdir st pdir base (int n) = Some 0 \<or>
    (\<exists>s. user_run st pdir base n s \<and> (\<forall>q < s. \<not> user_run st pdir base n q) \<and>
      find_user_space_pages_by_pdir st pdir base (int n) = Some (base + of_nat s * 4096))"
  using find_pages_loop_spec [OF assms, of 0 0 base None] assms(2)
  by (simp add: find_user_space_pages_by_pdir_def)

theorem find_user_pages_first_fit_witness:
  "find_user_space_pages_by_pdir vmm_sample 0x1000 0xA0000000 3 = Some 0xA0000000"
proof -
  have "user_run vmm_sample 0x1000 0xA0000000 3 0"
    by (simp add: user_run_def unmapped_run_def vmm_sample_unmapped)
  with find_user_pages_first_fit [OF vmm_sample_wf, of 3 "0xA0000000"] show ?thesis
    by (metis (no_types, lifting) not_gr_zero of_nat_numeral zero_less_numeral of_nat_0 mult_zero_left add.right_neutral)
qed

text \<open>
  C12: a new address space is made from a frame that nobody used, shares with the current
  directory exactly the kernel's translations (the first 4 MB, the kernel's 16 MB and the frame
  buffer) and translates nothing else; the current directory still translates as before.
\<close>

theorem address_space_shares_kernel:
  assumes wf: "wf_dir st (cur_directory st)" and c: "vmmngr_create_pdir st = Some (space, st1)"
    and nz: "space \<noteq> 0"
  shows "\<exists>st'. create_address_space st = Some (space, st') \<and> wf_dir st' (cur_directory st) \<and>
    frame_index space \<notin> frames_used (phys st) \<and>
    frames_used (phys st') = insert (frame_index space) (frames_used (phys st)) \<and>
    (\<forall>v. vmmngr_virt2phys_pdir st' (cur_directory st) v = vmmngr_virt2phys_pdir st (cur_directory st) v) \<and>
    (\<forall>v. vmmngr_virt2phys_pdir st' space v =
       (if unat (PAGE_DIRECTORY_INDEX v) \<in> kernel_slots then vmmngr_virt2phys_pdir st (cur_directory st) v
        else Some 0))"
proof -
  let ?cur = "cur_directory st"
  note d = wf_dirD(1-4) [OF wf]
  have "pmmngr_alloc_block (phys st) \<noteq> Some (0, phys st)"
    using c nz by (auto simp: vmmngr_create_pdir_def)
  with alloc_block_cases [OF d(1)] obtain k pm where
    k: "pmmngr_alloc_block (phys st) = Some (frame_addr k, pm)" "k \<notin> frames_used (phys st)"
      "k < pmm_capacity (phys st)" "frames_used pm = insert k (frames_used (phys st))" "pmm_inv pm"
    by metis
  have "frame_addr k \<noteq> 0" using c nz k(1) by (auto simp: vmmngr_create_pdir_def)
  then have s: "space = frame_addr k" and st1: "st1 = clear_4k (st\<lparr>phys := pm\<rparr>) space"
    using c k(1) by (auto simp: vmmngr_create_pdir_def vmmngr_pdirectory_clear_def Let_def)
  have fk: "frame_index space = k" using pmm_cap_20 [OF d(1) k(3)] s by simp
  have al: "aligned space" by (simp add: s)
  have ne: "space \<noteq> ?cur" using fk k(2) d(4) by metis
  have tne: "table_of st ?cur v \<noteq> space" if "table_present st ?cur v" for v
    using fk k(2) wf_dirD(7) [OF wf that] by metis
  have m1: "mem st1 a = (if a AND I86_FRAME = space then 0 else mem st a)" for a
    using al by (simp add: st1 clear_4k_def in_4k)
  have c1: "cur_directory st1 = ?cur" by (simp add: st1 clear_4k_def)
  have p1: "phys st1 = pm" by (simp add: st1 clear_4k_def)
  from clone_kernel_space_copied [of space st1] al nz ne d c1 obtain st' where
    run: "clone_kernel_space st1 space = Some st'" and cp: "copied kernel_slots space ?cur st1 st'" by auto
  have ph: "phys st' = pm" using cp p1 by (auto simp: copied_def)
  have off: "mem st' a = mem st a" if "a AND I86_FRAME \<noteq> space" for a
    using cp that m1 by (simp add: copied_def)
  have pde: "mem st' (pde_addr space v) =
      (if unat (PAGE_DIRECTORY_INDEX v) \<in> kernel_slots then mem st (pde_addr ?cur v) else 0)" for v
  proof -
    let ?k = "unat (PAGE_DIRECTORY_INDEX v)"
    note i = directory_index_less [of v]
    have "slot ?cur ?k AND I86_FRAME \<noteq> space" using slot_frame [OF d(3) i] ne by simp
    moreover have "slot space ?k AND I86_FRAME = space" by (rule slot_frame [OF al i])
    ultimately show ?thesis using cp i m1 unfolding slot_pde copied_def by auto
  qed
  have old: "table_present st' ?cur v = table_present st ?cur v"
    "table_of st' ?cur v = table_of st ?cur v" for v
    using off [of "pde_addr ?cur v"] d ne by (auto simp: table_present_def table_of_def)
  have pte: "mem st' (pte_addr (table_of st ?cur v) v) = mem st (pte_addr (table_of st ?cur v) v)"
    if "table_present st ?cur v" for v
    using off wf_dirD(6) [OF wf that] tne [OF that] by simp
  have same: "same_tables st st' ?cur" using old by (simp add: same_tables_def)
  have wf': "wf_dir st' ?cur" using wf_dir_cong [OF wf same] ph k(4,5) by auto
  have tr: "translate st' ?cur v = translate st ?cur v" for v
    using old pte [of v] by (auto simp: translate_def mapped_def pte_of_def)
  have new: "vmmngr_virt2phys_pdir st' space v =
      (if unat (PAGE_DIRECTORY_INDEX v) \<in> kernel_slots then Some (translate st ?cur v) else Some 0)" for v
    using pde [of v] pte [of v] wf_dirD(5,6) [OF wf, of v] al nz
    by (auto simp: vmmngr_virt2phys_pdir_def walk_simps translate_def mapped_def table_present_def
        table_of_def pte_of_def present_bit Let_def)
  have "create_address_space st = Some (space, st')" using c run by (simp add: create_address_space_def)
  then show ?thesis
    using wf' tr new ph fk k(2,4) virt2phys_translate [OF wf] virt2phys_translate [OF wf']
    by (auto intro!: exI [of _ st'])
qed

lemma vmm_sample_space:
  "vmmngr_create_pdir (vmm_sample\<lparr>cur_directory := 0x1000\<rparr>) \<noteq> None"
  "fst (the (vmmngr_create_pdir (vmm_sample\<lparr>cur_directory := 0x1000\<rparr>))) = 0x2000"
  by code_simp+

theorem address_space_shares_kernel_witness:
  "\<exists>st'. create_address_space (vmm_sample\<lparr>cur_directory := 0x1000\<rparr>) = Some (0x2000, st') \<and>
    frame_index 0x2000 \<notin> frames_used (phys vmm_sample)"
proof -
  let ?st = "vmm_sample\<lparr>cur_directory := 0x1000\<rparr>"
  obtain st1 where c: "vmmngr_create_pdir ?st = Some (0x2000, st1)"
    using vmm_sample_space by (metis option.exhaust_sel prod.collapse)
  have "wf_dir ?st (cur_directory ?st)" using vmm_sample_wf by simp
  from address_space_shares_kernel [OF this c] show ?thesis by auto
qed

end
