(* ===== verification/Fifo.thy ===== *)
theory Fifo
  imports Prelude
begin

text \<open>
  The contract of a queue of bounded capacity, as the two event queues of the window system
  offer it: below its capacity an enqueue appends, and a dequeue of a non-empty queue returns
  the oldest element.  Clients see every element exactly once and in order.
\<close>

datatype 'e fifo_op = Enq 'e | Deq

text \<open>A client that enqueues and dequeues; the result lists what it dequeued.\<close>

fun fifo_run ::
  "('s \<Rightarrow> 'e \<Rightarrow> 's option) \<Rightarrow> ('s \<Rightarrow> ('e \<times> 's) option) \<Rightarrow> 'e fifo_op list \<Rightarrow> 's \<Rightarrow> ('e list \<times> 's) option" where
  "fifo_run enq deq [] s = Some ([], s)"
| "fifo_run enq deq (Enq e # ops) s = do { s \<leftarrow> enq s e; fifo_run enq deq ops s }"
| "fifo_run enq deq (Deq # ops) s = do { (e, s) \<leftarrow> deq s; (es, s) \<leftarrow> fifo_run enq deq ops s; Some (e # es, s) }"

text \<open>A sequence that never enqueues into a full queue nor dequeues from an empty one.\<close>

fun fits :: "('e \<Rightarrow> bool) \<Rightarrow> nat \<Rightarrow> nat \<Rightarrow> 'e fifo_op list \<Rightarrow> bool" where
  "fits ok cap n [] = True"
| "fits ok cap n (Enq e # ops) = (ok e \<and> n < cap \<and> fits ok cap (Suc n) ops)"
| "fits ok cap n (Deq # ops) = (0 < n \<and> fits ok cap (n - 1) ops)"

definition sent :: "'e fifo_op list \<Rightarrow> 'e list" where
  "sent ops = concat (map (\<lambda>x. case x of Enq e \<Rightarrow> [e] | Deq \<Rightarrow> []) ops)"

lemma sent_simps [simp]: "sent [] = []" "sent (Enq e # ops) = e # sent ops" "sent (Deq # ops) = sent ops"
  by (simp_all add: sent_def)

locale bounded_fifo =
  fixes enq :: "'s \<Rightarrow> 'e \<Rightarrow> 's option"
    and deq :: "'s \<Rightarrow> ('e \<times> 's) option"
    and items :: "'s \<Rightarrow> 'e list"
    and inv :: "'s \<Rightarrow> bool"
    and ok :: "'e \<Rightarrow> bool"
    and cap :: nat
  assumes enq_law: "inv s \<Longrightarrow> ok e \<Longrightarrow> length (items s) < cap \<Longrightarrow>
      \<exists>s'. enq s e = Some s' \<and> inv s' \<and> items s' = items s @ [e]"
    and deq_law: "inv s \<Longrightarrow> items s = x # xs \<Longrightarrow>
      \<exists>s'. deq s = Some (x, s') \<and> inv s' \<and> items s' = xs"
begin

lemma in_order:
  "inv s \<Longrightarrow> fits ok cap (length (items s)) ops \<Longrightarrow>
    \<exists>es s'. fifo_run enq deq ops s = Some (es, s') \<and> inv s' \<and> es @ items s' = items s @ sent ops"
proof (induction ops arbitrary: s)
  case Nil
  then show ?case by simp
next
  case (Cons a ops)
  show ?case
  proof (cases a)
    case (Enq e)
    with Cons.prems enq_law [of s e] obtain s1 where
      s1: "enq s e = Some s1" "inv s1" "items s1 = items s @ [e]" by auto
    with Cons.prems Enq Cons.IH [of s1] show ?thesis by auto
  next
    case Deq
    with Cons.prems obtain x xs where x: "items s = x # xs" by (cases "items s") auto
    with Cons.prems deq_law obtain s1 where
      s1: "deq s = Some (x, s1)" "inv s1" "items s1 = xs" by blast
    with Cons.prems Deq x Cons.IH [of s1] show ?thesis by auto
  qed
qed

end

end
