(* ===== verification/Registry.thy ===== *)
theory Registry
  imports Prelude
begin

text \<open>
  The contract of the kernel's tables of objects with identifiers (the process list, the window
  list): registering an object gives it an identifier that no registered object has, a lookup
  by identifier finds the address of the object, and unregistering takes out exactly that one.
\<close>

locale registry =
  fixes entries :: "'s \<Rightarrow> (int \<times> 'k::zero) list"
    and inv :: "'s \<Rightarrow> bool"
    and add :: "'s \<Rightarrow> 'o \<Rightarrow> 'k \<Rightarrow> (int \<times> 's) option"
    and del :: "'s \<Rightarrow> int \<Rightarrow> 's option"
    and lookup :: "'s \<Rightarrow> int \<Rightarrow> 'k option"
  assumes add_law: "inv s \<Longrightarrow> a \<noteq> 0 \<Longrightarrow> a \<notin> snd ` set (entries s) \<Longrightarrow>
      \<exists>i s'. add s obj a = Some (i, s') \<and> inv s' \<and> entries s' = entries s @ [(i, a)] \<and>
        i \<notin> fst ` set (entries s)"
    and del_law: "inv s \<Longrightarrow> (i, a) \<in> set (entries s) \<Longrightarrow>
      \<exists>s'. del s i = Some s' \<and> inv s' \<and> entries s' = filter (\<lambda>e. fst e \<noteq> i) (entries s)"
    and lookup_law: "inv s \<Longrightarrow>
      lookup s i = Some (case map_of (entries s) i of None \<Rightarrow> 0 | Some a \<Rightarrow> a)"
begin

lemma lookup_added:
  assumes "inv s" and "a \<noteq> 0" and "a \<notin> snd ` set (entries s)"
  shows "\<exists>i s'. add s obj a = Some (i, s') \<and> inv s' \<and> lookup s i = Some 0 \<and>
    (\<forall>j. lookup s' j = (if j = i then Some a else lookup s j))"
proof -
  from add_law [OF assms] obtain i s' where
    a: "add s obj a = Some (i, s')" "inv s'" "entries s' = entries s @ [(i, a)]"
      "i \<notin> fst ` set (entries s)" by blast
  have n: "map_of (entries s) i = None" using a(4) by (simp add: map_of_eq_None_iff)
  have "lookup s' j = (if j = i then Some a else lookup s j)" for j
    unfolding lookup_law [OF a(2)] lookup_law [OF assms(1)] a(3)
    using n by (auto simp: map_add_def split: option.split)
  moreover have "lookup s i = Some 0" unfolding lookup_law [OF assms(1)] n by simp
  ultimately show ?thesis using a by blast
qed

lemma add_del:
  assumes "inv s" and "a \<noteq> 0" and "a \<notin> snd ` set (entries s)"
  shows "\<exists>i s' s''. add s obj a = Some (i, s') \<and> del s' i = Some s'' \<and> inv s'' \<and>
    entries s'' = entries s \<and> (\<forall>j. lookup s'' j = lookup s j)"
proof -
  from add_law [OF assms] obtain i s' where
    a: "add s obj a = Some (i, s')" "inv s'" "entries s' = entries s @ [(i, a)]"
      "i \<notin> fst ` set (entries s)" by blast
  from del_law [OF a(2), of i a] a(3) obtain s'' where
    d: "del s' i = Some s''" "inv s''" "entries s'' = filter (\<lambda>e. fst e \<noteq> i) (entries s')" by auto
  have "filter (\<lambda>e. fst e \<noteq> i) (entries s) = entries s"
    using a(4) by (intro filter_True) force
  then have e: "entries s'' = entries s" using d(3) a(3) by simp
  then have "lookup s'' j = lookup s j" for j
    unfolding lookup_law [OF d(2)] lookup_law [OF assms(1)] by simp
  with a(1) d(1,2) e show ?thesis by blast
qed

end

end
