(* ===== verification/Events.thy ===== *)
theory Events
  imports Fifo Registry "HOL-Library.Multiset"
begin

text \<open>
  The parts of the window system (\<^verbatim>\<open>kernel/window_sys.c\<close>) that work on its own data: the queue
  of ten events that every window has, the ring of twenty operations that the window system's
  thread serves, the list of windows in stacking order and the collision tests.

  A window is known by its address; the list is in the order of the \<^verbatim>\<open>next\<close> pointers, bottom
  window first.  What the code paints goes to the frame buffer, which is not part of the state.
  A lock that is held by someone else is waited for by spinning, so acquiring it does not return
  (\<open>None\<close>) in a model in which no other thread runs meanwhile.
\<close>

section \<open>Data\<close>

abbreviation EVENT_INVALID :: u32 where "EVENT_INVALID \<equiv> 1"
abbreviation EVENT_KBD_PRESS :: u32 where "EVENT_KBD_PRESS \<equiv> 2"
abbreviation EVENT_KBD_RELEASE :: u32 where "EVENT_KBD_RELEASE \<equiv> 4"
abbreviation EVENT_MOUSE_MOVE :: u32 where "EVENT_MOUSE_MOVE \<equiv> 8"
abbreviation EVENT_MOUSE_LEFT_CLICK :: u32 where "EVENT_MOUSE_LEFT_CLICK \<equiv> 16"
abbreviation EVENT_MOUSE_RIGHT_CLICK :: u32 where "EVENT_MOUSE_RIGHT_CLICK \<equiv> 32"

record event =
  event_type :: u32
  event_data :: u32

abbreviation EVENT_HANDLER_QUEUE_SIZE :: nat where "EVENT_HANDLER_QUEUE_SIZE \<equiv> 10"
abbreviation WINSYS_QUEUE_SIZE :: nat where "WINSYS_QUEUE_SIZE \<equiv> 20"

record window =
  w_addr :: u32
  win_x :: int
  win_y :: int
  win_w :: int
  win_h :: int
  w_buffer :: u32
  wsys_buffer :: u32
  w_name :: u32
  w_id :: int
  parent_pid :: int
  is_user :: bool
  closable :: bool
  has_frame :: bool
  events :: "event list"
  event_mask :: u32

datatype winsysOperation = WINSYS_EMPTY | WINSYS_DISPLAY_WINDOW_SECTION | WINSYS_DISPLAY_WINDOW
  | WINSYS_MOVE_WINDOW | WINSYS_SET_WORKING_WINDOW | WINSYS_REMOVE_WINDOW

record winsysop =
  op_kind :: winsysOperation
  wid :: int
  op_x :: int
  op_y :: int
  op_w :: int
  op_h :: int

record winsys =
  win_list :: "window list"
  working_window :: u32
  winsys_queue :: "winsysop list"
  winsys_queue_index :: int
  winsys_queue_start :: int
  winsys_queue_end :: int
  winsys_queue_lock :: bool
  winsys_win_list_lock :: bool
  winsys_initialized :: bool
  winsys_pid :: int

section \<open>The event queue of a window\<close>

definition is_invalid :: "event \<Rightarrow> bool" where
  "is_invalid e = flag (event_type e) EVENT_INVALID"

text \<open>The loop of the enqueue: the first entry whose type has the invalid bit is replaced.\<close>

fun put_first_invalid :: "event list \<Rightarrow> event \<Rightarrow> event list" where
  "put_first_invalid [] e = []"
| "put_first_invalid (f # fs) e = (if is_invalid f then e # fs else f # put_first_invalid fs e)"

definition winsys_enqueue_to_event_handler :: "event list \<Rightarrow> event \<Rightarrow> event list option" where
  "winsys_enqueue_to_event_handler evs e = Some (put_first_invalid evs e)"

text \<open>The loop of the dequeue: \<^verbatim>\<open>events[i] = events[i + 1]\<close> from index 0.\<close>

fun shift_events :: "event list \<Rightarrow> nat \<Rightarrow> nat \<Rightarrow> event list option" where
  "shift_events evs i 0 = Some evs"
| "shift_events evs i (Suc n) = do {
     e \<leftarrow> aget evs (i + 1);
     evs \<leftarrow> aset evs i e;
     shift_events evs (Suc i) n }"

definition winsys_dequeue_from_event_handler :: "event list \<Rightarrow> (event \<times> event list) option" where
  "winsys_dequeue_from_event_handler evs = do {
     e \<leftarrow> aget evs 0;
     evs \<leftarrow> shift_events evs 0 (EVENT_HANDLER_QUEUE_SIZE - 1);
     l \<leftarrow> aget evs (EVENT_HANDLER_QUEUE_SIZE - 1);
     evs \<leftarrow> aset evs (EVENT_HANDLER_QUEUE_SIZE - 1) (l\<lparr>event_type := EVENT_INVALID\<rparr>);
     Some (e, evs) }"

definition pending :: "event list \<Rightarrow> event list" where
  "pending evs = takeWhile (\<lambda>e. \<not> is_invalid e) evs"

definition handler_ok :: "event list \<Rightarrow> bool" where
  "handler_ok evs \<longleftrightarrow> length evs = EVENT_HANDLER_QUEUE_SIZE \<and>
     (\<forall>e \<in> set (drop (length (pending evs)) evs). is_invalid e)"

lemma length_pending: "length (pending evs) \<le> length evs"
  by (simp add: pending_def length_takeWhile_le)

lemma put_first_invalid_spec:
  "length (pending evs) < length evs \<Longrightarrow>
     put_first_invalid evs e = pending evs @ e # drop (Suc (length (pending evs))) evs"
  by (induction evs) (auto simp: pending_def)

lemma put_first_invalid_full: "length (pending evs) = length evs \<Longrightarrow> put_first_invalid evs e = evs"
proof (induction evs)
  case (Cons f fs)
  then show ?case by (cases "is_invalid f") (auto simp: pending_def)
qed simp

lemma shift_events_spec:
  "i + n < length evs \<Longrightarrow>
     shift_events evs i n = Some (take i evs @ take n (drop (Suc i) evs) @ drop (i + n) evs)"
proof (induction n arbitrary: i evs)
  case 0
  then show ?case by simp
next
  case (Suc n)
  let ?e = "evs[i := evs ! Suc i]"
  have "take (Suc i) ?e = take i evs @ [evs ! Suc i]"
    using Suc.prems by (simp add: take_Suc_conv_app_nth)
  moreover have "drop (Suc (Suc i)) ?e = drop (Suc (Suc i)) evs" "drop (Suc (i + n)) ?e = drop (Suc (i + n)) evs"
    by simp_all
  moreover have "drop (Suc i) evs = evs ! Suc i # drop (Suc (Suc i)) evs"
    using Suc.prems by (simp add: Cons_nth_drop_Suc)
  ultimately show ?case using Suc.prems Suc.IH [of "Suc i" ?e] by simp
qed

lemma takeWhile_app:
  "(\<And>a. a \<in> set as \<Longrightarrow> P a) \<Longrightarrow> takeWhile P (as @ bs) = as @ takeWhile P bs"
  by (induction as) auto

lemma pending_valid: "e \<in> set (pending evs) \<Longrightarrow> \<not> is_invalid e"
  unfolding pending_def by (drule set_takeWhileD) simp

lemma pending_invalid_tail:
  assumes "\<forall>e \<in> set bs. is_invalid e" and "\<forall>e \<in> set as. \<not> is_invalid e"
  shows "pending (as @ bs) = as"
proof -
  have "takeWhile (\<lambda>e. \<not> is_invalid e) bs = []" using assms(1) by (cases bs) auto
  then show ?thesis unfolding pending_def using assms(2) by (subst takeWhile_app) auto
qed

text \<open>A queue with the given pending events, the rest of the array invalid.\<close>

lemma handler_decomp:
  "handler_ok evs \<longleftrightarrow> (\<exists>bs. evs = pending evs @ bs \<and> length evs = EVENT_HANDLER_QUEUE_SIZE \<and>
     (\<forall>e \<in> set bs. is_invalid e))"
proof
  assume "handler_ok evs"
  then show "\<exists>bs. evs = pending evs @ bs \<and> length evs = EVENT_HANDLER_QUEUE_SIZE \<and>
      (\<forall>e \<in> set bs. is_invalid e)"
    using takeWhile_dropWhile_id [of "\<lambda>e. \<not> is_invalid e" evs]
    unfolding handler_ok_def pending_def dropWhile_eq_drop [symmetric] by metis
next
  assume "\<exists>bs. evs = pending evs @ bs \<and> length evs = EVENT_HANDLER_QUEUE_SIZE \<and>
      (\<forall>e \<in> set bs. is_invalid e)"
  then obtain bs where "evs = pending evs @ bs" "length evs = EVENT_HANDLER_QUEUE_SIZE"
    "\<forall>e \<in> set bs. is_invalid e" by blast
  then show "handler_ok evs"
    unfolding handler_ok_def by (metis append_eq_conv_conj)
qed

lemma handlerI:
  assumes "length as + length bs = EVENT_HANDLER_QUEUE_SIZE"
    and "\<forall>e \<in> set bs. is_invalid e" and "\<forall>e \<in> set as. \<not> is_invalid e"
  shows "handler_ok (as @ bs)" and "pending (as @ bs) = as"
  using assms pending_invalid_tail [OF assms(2,3)] by (auto simp: handler_decomp)

lemma handler_enqueue:
  assumes "handler_ok evs" and "\<not> is_invalid e" and "length (pending evs) < EVENT_HANDLER_QUEUE_SIZE"
  shows "\<exists>evs'. winsys_enqueue_to_event_handler evs e = Some evs' \<and> handler_ok evs' \<and>
    pending evs' = pending evs @ [e]"
proof -
  from assms(1) obtain bs where bs: "evs = pending evs @ bs" "length evs = EVENT_HANDLER_QUEUE_SIZE"
    "\<forall>e \<in> set bs. is_invalid e" unfolding handler_decomp by blast
  have l: "length (pending evs) + length bs = EVENT_HANDLER_QUEUE_SIZE"
    using bs(1,2) by (metis length_append)
  then obtain b cs where c: "bs = b # cs" using assms(3) by (cases bs) auto
  have "drop (Suc (length (pending evs))) evs = cs"
    using bs(1) c by (metis append_Cons append_Nil append_assoc append_eq_conv_conj length_append_singleton)
  then have p: "put_first_invalid evs e = (pending evs @ [e]) @ cs"
    using assms(3) bs(2) by (simp add: put_first_invalid_spec)
  have "\<forall>f \<in> set (pending evs @ [e]). \<not> is_invalid f" using assms(2) pending_valid by auto
  moreover have "length (pending evs @ [e]) + length cs = EVENT_HANDLER_QUEUE_SIZE" using l c by simp
  moreover have "\<forall>f \<in> set cs. is_invalid f" using bs(3) c by simp
  ultimately show ?thesis
    unfolding winsys_enqueue_to_event_handler_def p using handlerI [of "pending evs @ [e]" cs] by blast
qed

lemma handler_dequeue:
  assumes "handler_ok evs" and "pending evs = e # es"
  shows "\<exists>evs'. winsys_dequeue_from_event_handler evs = Some (e, evs') \<and> handler_ok evs' \<and> pending evs' = es"
proof -
  from assms(1) obtain bs where bs: "evs = pending evs @ bs" "length evs = EVENT_HANDLER_QUEUE_SIZE"
    "\<forall>e \<in> set bs. is_invalid e" unfolding handler_decomp by blast
  have ev: "evs = e # es @ bs" using bs(1) assms(2) by simp
  let ?m = "es @ bs"
  have l: "length ?m = 9" using bs(2) ev by simp
  have "shift_events evs 0 9 = Some (take 9 ?m @ drop 9 evs)"
    using bs(2) by (subst shift_events_spec) (simp_all add: ev)
  moreover have "drop 9 evs = [evs ! 9]"
    using bs(2) by (simp add: Cons_nth_drop_Suc [symmetric])
  ultimately have sh: "shift_events evs 0 9 = Some (?m @ [evs ! 9])" using l by simp
  let ?last = "(evs ! 9)\<lparr>event_type := EVENT_INVALID\<rparr>"
  have "(?m @ [evs ! 9]) ! 9 = evs ! 9" "(?m @ [evs ! 9])[9 := ?last] = ?m @ [?last]"
    using l by (metis nth_append_length, metis list_update_length)
  then have "winsys_dequeue_from_event_handler evs = Some (evs ! 0, ?m @ [?last])"
    using sh l bs(2) by (simp add: winsys_dequeue_from_event_handler_def)
  then have deq: "winsys_dequeue_from_event_handler evs = Some (e, es @ (bs @ [?last]))"
    by (simp add: ev)
  have "is_invalid ?last" by (simp add: is_invalid_def flag_def)
  then have "\<forall>f \<in> set (bs @ [?last]). is_invalid f" using bs(3) by simp
  moreover have "\<forall>f \<in> set es. \<not> is_invalid f" using pending_valid [of _ evs] assms(2) by simp
  moreover have "length es + length (bs @ [?last]) = EVENT_HANDLER_QUEUE_SIZE" using l by simp
  ultimately show ?thesis using deq handlerI [of es "bs @ [?last]"] by blast
qed

interpretation eh: bounded_fifo winsys_enqueue_to_event_handler winsys_dequeue_from_event_handler
  pending handler_ok "\<lambda>e. \<not> is_invalid e" EVENT_HANDLER_QUEUE_SIZE
  by unfold_locales (simp_all add: handler_enqueue handler_dequeue)

section \<open>The ring of operations\<close>

text \<open>
  The ring is guarded by a lock that is kept while the ring is full, so that the next
  enqueue waits until the listener has taken an operation; the dequeue of a full ring
  therefore does not take the lock, and releases it.
  \<open>running\<close> is the identifier of the running process, when there is one.
\<close>

definition winsys_enqueue_to_winsys_listener :: "winsys \<Rightarrow> int option \<Rightarrow> winsysop \<Rightarrow> winsys option" where
  "winsys_enqueue_to_winsys_listener st running op =
     (if \<not> winsys_initialized st then Some st
      else if winsys_queue_lock st \<and> running = Some (winsys_pid st) then Some st
      else if winsys_queue_lock st then None
      else do {
        let st = st\<lparr>winsys_queue_lock := True\<rparr>;
        q \<leftarrow> aset (winsys_queue st) (nat (winsys_queue_end st)) op;
        let st = st\<lparr>winsys_queue := q, winsys_queue_end := cmod (winsys_queue_end st + 1) 20,
                    winsys_queue_index := winsys_queue_index st + 1\<rparr>;
        Some (if winsys_queue_index st < 20 then st\<lparr>winsys_queue_lock := False\<rparr> else st) })"

definition winsys_dequeue_from_winsys_listener :: "winsys \<Rightarrow> (winsysop \<times> winsys) option" where
  "winsys_dequeue_from_winsys_listener st = do {
     guard (winsys_queue_index st < 20 \<longrightarrow> \<not> winsys_queue_lock st);
     op \<leftarrow> aget (winsys_queue st) (nat (winsys_queue_start st));
     Some (op, st\<lparr>winsys_queue_start := cmod (winsys_queue_start st + 1) 20,
                  winsys_queue_index := winsys_queue_index st - 1, winsys_queue_lock := False\<rparr>) }"

definition empty_op :: winsysop where
  "empty_op = \<lparr>op_kind = WINSYS_EMPTY, wid = 0, op_x = 0, op_y = 0, op_w = 0, op_h = 0\<rparr>"

text \<open>\<^verbatim>\<open>winsys_init\<close> without the cache attributes of the processor.\<close>

definition winsys_init :: "winsys \<Rightarrow> winsys" where
  "winsys_init st = st\<lparr>win_list := [], working_window := 0,
     winsys_queue := map (\<lambda>op. op\<lparr>op_kind := WINSYS_EMPTY\<rparr>) (winsys_queue st),
     winsys_initialized := True\<rparr>"

definition winsys_boot :: winsys where
  "winsys_boot = \<lparr>win_list = [], working_window = 0, winsys_queue = replicate WINSYS_QUEUE_SIZE empty_op,
     winsys_queue_index = 0, winsys_queue_start = 0, winsys_queue_end = 0, winsys_queue_lock = False,
     winsys_win_list_lock = False, winsys_initialized = False, winsys_pid = 0\<rparr>"

definition ring_ok :: "winsys \<Rightarrow> bool" where
  "ring_ok st \<longleftrightarrow> winsys_initialized st \<and> length (winsys_queue st) = WINSYS_QUEUE_SIZE \<and>
     0 \<le> winsys_queue_start st \<and> winsys_queue_start st < 20 \<and>
     0 \<le> winsys_queue_index st \<and> winsys_queue_index st \<le> 20 \<and>
     winsys_queue_end st = (winsys_queue_start st + winsys_queue_index st) mod 20 \<and>
     (winsys_queue_lock st \<longleftrightarrow> winsys_queue_index st = 20)"

definition ring_items :: "winsys \<Rightarrow> winsysop list" where
  "ring_items st = map (\<lambda>k. winsys_queue st ! nat ((winsys_queue_start st + int k) mod 20))
     [0..<nat (winsys_queue_index st)]"

lemma length_ring_items [simp]: "length (ring_items st) = nat (winsys_queue_index st)"
  by (simp add: ring_items_def)

lemma mod_range: "nat ((a::int) mod 20) < 20"
  by (simp add: nat_less_iff)

lemma ring_enqueue:
  assumes "ring_ok st" and "length (ring_items st) < WINSYS_QUEUE_SIZE"
  shows "\<exists>st'. winsys_enqueue_to_winsys_listener st running op = Some st' \<and> ring_ok st' \<and>
    ring_items st' = ring_items st @ [op]"
proof -
  let ?s = "winsys_queue_start st" and ?i = "winsys_queue_index st" and ?q = "winsys_queue st"
  have r: "0 \<le> ?s" "?s < 20" "0 \<le> ?i" "?i < 20" "length ?q = 20" "\<not> winsys_queue_lock st"
    "winsys_initialized st" "winsys_queue_end st = (?s + ?i) mod 20"
    using assms by (auto simp: ring_ok_def)
  let ?e = "nat ((?s + ?i) mod 20)"
  let ?st = "st\<lparr>winsys_queue := ?q[?e := op], winsys_queue_end := (?s + (?i + 1)) mod 20,
      winsys_queue_index := ?i + 1, winsys_queue_lock := (?i + 1 = 20)\<rparr>"
  have e: "(winsys_queue_end st + 1) mod 20 = (?s + (?i + 1)) mod 20"
    unfolding r(8) by (simp add: mod_add_left_eq add.assoc)
  have "0 \<le> winsys_queue_end st" unfolding r(8) by simp
  then have "winsys_enqueue_to_winsys_listener st running op = Some ?st"
    using r e mod_range [of "?s + ?i"]
    by (cases "?i + 1 = 20") (simp_all add: winsys_enqueue_to_winsys_listener_def)
  moreover have "ring_ok ?st" using r by (simp add: ring_ok_def)
  moreover have "ring_items ?st = ring_items st @ [op]"
  proof -
    have "nat (?i + 1) = Suc (nat ?i)" using r(3) by simp
    moreover have "?q[?e := op] ! nat ((?s + int k) mod 20) = ?q ! nat ((?s + int k) mod 20)"
      if "k < nat ?i" for k
    proof -
      have k: "int k < ?i" "0 \<le> int k" using that by simp_all
      have "(?s + int k) mod 20 \<noteq> (?s + ?i) mod 20"
      proof
        assume "(?s + int k) mod 20 = (?s + ?i) mod 20"
        then have "20 dvd ?i - int k" by (metis add_diff_cancel_left mod_eq_dvd_iff dvd_diff_commute)
        then show False using k r(4) zdvd_imp_le [of 20 "?i - int k"] by simp
      qed
      then have "nat ((?s + int k) mod 20) \<noteq> ?e" by (simp add: eq_nat_nat_iff)
      then show ?thesis by simp
    qed
    ultimately show ?thesis using r(3,5) mod_range [of "?s + ?i"]
      by (simp add: ring_items_def)
  qed
  ultimately show ?thesis by blast
qed

lemma ring_dequeue:
  assumes "ring_ok st" and "ring_items st = op # ops"
  shows "\<exists>st'. winsys_dequeue_from_winsys_listener st = Some (op, st') \<and> ring_ok st' \<and> ring_items st' = ops"
proof -
  let ?s = "winsys_queue_start st" and ?i = "winsys_queue_index st" and ?q = "winsys_queue st"
  have "nat ?i = Suc (length ops)" using assms(2) length_ring_items [of st] by simp
  then have i: "?i = int (length ops) + 1" by simp
  have r: "0 \<le> ?s" "?s < 20" "?i \<le> 20" "length ?q = 20" "winsys_queue_lock st \<longleftrightarrow> ?i = 20"
    "winsys_queue_end st = (?s + ?i) mod 20"
    using assms(1) by (auto simp: ring_ok_def)
  let ?st = "st\<lparr>winsys_queue_start := (?s + 1) mod 20, winsys_queue_index := ?i - 1, winsys_queue_lock := False\<rparr>"
  have it: "op # ops = map (\<lambda>k. ?q ! nat ((?s + int k) mod 20)) [0..<Suc (length ops)]"
    unfolding assms(2) [symmetric] ring_items_def \<open>nat ?i = Suc (length ops)\<close> by simp
  have "op = ?q ! nat ?s" using it r(1,2) unfolding upt_conv_Cons [OF zero_less_Suc] by simp
  then have "winsys_dequeue_from_winsys_listener st = Some (op, ?st)"
    using r by (simp add: winsys_dequeue_from_winsys_listener_def nat_less_iff)
  moreover have "((?s + 1) mod 20 + (?i - 1)) mod 20 = (?s + ?i) mod 20"
    unfolding mod_add_left_eq by simp
  then have "ring_ok ?st"
    using assms(1) i unfolding ring_ok_def by simp
  moreover have "ring_items ?st = ops"
  proof -
    have "ops = map (\<lambda>k. ?q ! nat ((?s + int (Suc k)) mod 20)) [0..<length ops]"
      using it unfolding upt_conv_Cons [OF zero_less_Suc]
      by (simp only: list.map list.inject map_Suc_upt [symmetric] map_map comp_def)
    moreover have "((?s + 1) mod 20 + int k) mod 20 = (?s + int (Suc k)) mod 20" for k
      unfolding mod_add_left_eq by (simp add: add.assoc)
    ultimately show ?thesis using i by (simp add: ring_items_def)
  qed
  ultimately show ?thesis by blast
qed

interpretation ring: bounded_fifo "\<lambda>st op. winsys_enqueue_to_winsys_listener st running op"
  winsys_dequeue_from_winsys_listener ring_items ring_ok "\<lambda>op. True" WINSYS_QUEUE_SIZE for running
  by unfold_locales (simp_all add: ring_enqueue ring_dequeue)

section \<open>The window list\<close>

definition winsys_get_free_id :: "winsys \<Rightarrow> int" where
  "winsys_get_free_id st = fresh_id w_id 1 (win_list st)"

definition winsys_get_window_by_id :: "winsys \<Rightarrow> int \<Rightarrow> window option" where
  "winsys_get_window_by_id st i = find (\<lambda>w. w_id w = i) (win_list st)"

definition winsys_get_working_window :: "winsys \<Rightarrow> u32" where
  "winsys_get_working_window st = working_window st"

definition get_win_page_amt :: "window \<Rightarrow> u32" where
  "get_win_page_amt w = (
     let b = word_of_int (win_w w * win_h w * 3) :: u32;
         n = b div 4096
     in if b mod 4096 \<noteq> 0 then n + 1 else n)"

text \<open>The window is linked at the end of the list, under the lock of the list.\<close>

definition link_window :: "winsys \<Rightarrow> window \<Rightarrow> winsys option" where
  "link_window st w = do {
     guard (\<not> winsys_win_list_lock st);
     Some (st\<lparr>win_list := win_list st @ [w]\<rparr>) }"

text \<open>The list before the first window with an identifier, that window, and the list after it.\<close>

fun split_window :: "int \<Rightarrow> window list \<Rightarrow> (window list \<times> window \<times> window list) option" where
  "split_window i [] = None"
| "split_window i (w # ws) =
     (if w_id w = i then Some ([], w, ws)
      else do { (pre, v, post) \<leftarrow> split_window i ws; Some (w # pre, v, post) })"

definition winsys_set_working_window_operation :: "winsys \<Rightarrow> int \<Rightarrow> (int \<times> winsys) option" where
  "winsys_set_working_window_operation st i = do {
     guard (\<not> winsys_win_list_lock st);
     Some (case split_window i (win_list st) of
         None \<Rightarrow> (0, st)
       | Some (pre, w, post) \<Rightarrow>
           if w_addr w = working_window st \<or> length (win_list st) = 1
           then (1, st\<lparr>working_window := w_addr w\<rparr>)
           else (1, st\<lparr>working_window := w_addr w, win_list := pre @ post @ [w]\<rparr>)) }"

text \<open>
  The unlinking that \<^verbatim>\<open>winsys_remove_window_operation\<close> and \<^verbatim>\<open>winsys_remove_window_user\<close> share;
  walking past the end of the list is a null dereference.
\<close>

definition unlink_window :: "winsys \<Rightarrow> window \<Rightarrow> winsys option" where
  "unlink_window st w = do {
     guard (\<not> winsys_win_list_lock st);
     (pre, v, post) \<leftarrow> split_window (w_id w) (win_list st);
     Some (st\<lparr>win_list := pre @ post\<rparr>) }"

text \<open>Requests to the window system's thread.\<close>

definition winsys_set_working_window :: "winsys \<Rightarrow> int option \<Rightarrow> int \<Rightarrow> winsys option" where
  "winsys_set_working_window st running i =
     winsys_enqueue_to_winsys_listener st running (empty_op\<lparr>op_kind := WINSYS_SET_WORKING_WINDOW, wid := i\<rparr>)"

definition winsys_display_window :: "winsys \<Rightarrow> int option \<Rightarrow> window option \<Rightarrow> winsys option" where
  "winsys_display_window st running win =
     (case win of None \<Rightarrow> Some st
      | Some w \<Rightarrow> winsys_enqueue_to_winsys_listener st running
          (empty_op\<lparr>op_kind := WINSYS_DISPLAY_WINDOW, wid := w_id w\<rparr>))"

definition winsys_display_window_section ::
  "winsys \<Rightarrow> int option \<Rightarrow> window option \<Rightarrow> int \<Rightarrow> int \<Rightarrow> int \<Rightarrow> int \<Rightarrow> winsys option" where
  "winsys_display_window_section st running win x y wd ht =
     (case win of None \<Rightarrow> Some st
      | Some w \<Rightarrow> winsys_enqueue_to_winsys_listener st running
          \<lparr>op_kind = WINSYS_DISPLAY_WINDOW_SECTION, wid = w_id w, op_x = x, op_y = y, op_w = wd, op_h = ht\<rparr>)"

definition winsys_move_window :: "winsys \<Rightarrow> int option \<Rightarrow> window option \<Rightarrow> int \<Rightarrow> int \<Rightarrow> winsys option" where
  "winsys_move_window st running win x y =
     (case win of None \<Rightarrow> Some st
      | Some w \<Rightarrow> winsys_enqueue_to_winsys_listener st running
          (empty_op\<lparr>op_kind := WINSYS_MOVE_WINDOW, wid := w_id w, op_x := x, op_y := y\<rparr>))"

definition winsys_remove_window :: "winsys \<Rightarrow> int option \<Rightarrow> window option \<Rightarrow> winsys option" where
  "winsys_remove_window st running win =
     (case win of None \<Rightarrow> Some st
      | Some w \<Rightarrow> winsys_enqueue_to_winsys_listener st running
          (empty_op\<lparr>op_kind := WINSYS_REMOVE_WINDOW, wid := w_id w\<rparr>))"

text \<open>The loop returns after the first window of the process.\<close>

fun remove_by_pid_loop :: "winsys \<Rightarrow> int option \<Rightarrow> int \<Rightarrow> window list \<Rightarrow> winsys option" where
  "remove_by_pid_loop st running pid [] = Some st"
| "remove_by_pid_loop st running pid (w # ws) =
     (if parent_pid w = pid then winsys_remove_window st running (Some w)
      else remove_by_pid_loop st running pid ws)"

definition winsys_remove_windows_by_pid :: "winsys \<Rightarrow> int option \<Rightarrow> int \<Rightarrow> winsys option" where
  "winsys_remove_windows_by_pid st running pid = remove_by_pid_loop st running pid (win_list st)"

definition set_window :: "winsys \<Rightarrow> int \<Rightarrow> (window \<Rightarrow> window) \<Rightarrow> winsys option" where
  "set_window st i f = do {
     (pre, w, post) \<leftarrow> split_window i (win_list st);
     Some (st\<lparr>win_list := pre @ f w # post\<rparr>) }"

text \<open>Moving a window raises it unless it is the working window.\<close>

definition winsys_move_window_operation :: "winsys \<Rightarrow> window option \<Rightarrow> int \<Rightarrow> int \<Rightarrow> winsys option" where
  "winsys_move_window_operation st win x y =
     (case win of None \<Rightarrow> Some st
      | Some w \<Rightarrow> do {
          st \<leftarrow> set_window st (w_id w) (\<lambda>w. w\<lparr>win_x := x, win_y := y\<rparr>);
          if working_window st \<noteq> w_addr w
          then do { (r, st) \<leftarrow> winsys_set_working_window_operation st (w_id w); Some st }
          else Some st })"

lemma split_window_Some:
  "split_window i ws = Some (pre, w, post) \<longleftrightarrow>
     ws = pre @ w # post \<and> w_id w = i \<and> (\<forall>v \<in> set pre. w_id v \<noteq> i)"
proof (induction ws arbitrary: pre)
  case Nil
  then show ?case by simp
next
  case (Cons v ws)
  show ?case
  proof (cases pre)
    case Nil
    then show ?thesis by (auto simp: c_simps split: prod.splits)
  next
    case (Cons u pre')
    then show ?thesis using Cons.IH [of pre'] by (auto simp: c_simps split: prod.splits)
  qed
qed

lemma split_window_None: "split_window i ws = None \<longleftrightarrow> (\<forall>w \<in> set ws. w_id w \<noteq> i)"
  by (induction ws) (auto simp: Option.bind_eq_None_conv split: prod.splits)

lemma split_window_find:
  "find (\<lambda>w. w_id w = i) ws = (case split_window i ws of None \<Rightarrow> None | Some (pre, w, post) \<Rightarrow> Some w)"
proof (induction ws)
  case (Cons v ws)
  then show ?case by (cases "split_window i ws") (auto split: prod.splits)
qed simp

text \<open>
  Registering a window is what the two creation functions do with a new window: it gets a free
  identifier and is linked; a removal unlinks the window that its identifier finds.
\<close>

definition register_window :: "winsys \<Rightarrow> window \<Rightarrow> u32 \<Rightarrow> (int \<times> winsys) option" where
  "register_window st w a = do {
     let i = winsys_get_free_id st;
     st \<leftarrow> link_window st (w\<lparr>w_addr := a, w_id := i\<rparr>);
     Some (i, st) }"

definition unregister_window :: "winsys \<Rightarrow> int \<Rightarrow> winsys option" where
  "unregister_window st i = do { w \<leftarrow> winsys_get_window_by_id st i; unlink_window st w }"

definition window_at :: "winsys \<Rightarrow> int \<Rightarrow> u32 option" where
  "window_at st i = Some (case winsys_get_window_by_id st i of None \<Rightarrow> 0 | Some w \<Rightarrow> w_addr w)"

definition window_entries :: "winsys \<Rightarrow> (int \<times> u32) list" where
  "window_entries st = map (\<lambda>w. (w_id w, w_addr w)) (win_list st)"

definition windows_ok :: "winsys \<Rightarrow> bool" where
  "windows_ok st \<longleftrightarrow> distinct (map w_id (win_list st)) \<and> \<not> winsys_win_list_lock st"

lemma window_map_of:
  "map_of (map (\<lambda>w. (w_id w, w_addr w)) ws) i = map_option w_addr (find (\<lambda>w. w_id w = i) ws)"
  by (induction ws) auto

interpretation windows: registry window_entries windows_ok register_window unregister_window window_at
proof
  fix s :: winsys and a :: u32 and w
  assume "windows_ok s"
  then show "\<exists>i s'. register_window s w a = Some (i, s') \<and> windows_ok s' \<and>
      window_entries s' = window_entries s @ [(i, a)] \<and> i \<notin> fst ` set (window_entries s)"
    using fresh_id_notin [of w_id 1 "win_list s"]
    by (auto simp: register_window_def link_window_def windows_ok_def window_entries_def
        winsys_get_free_id_def Let_def image_image)
next
  fix s :: winsys and i a
  assume ok: "windows_ok s" and e: "(i, a) \<in> set (window_entries s)"
  from e obtain v where "v \<in> set (win_list s)" "w_id v = i" by (auto simp: window_entries_def)
  then have "split_window i (win_list s) \<noteq> None" unfolding split_window_None by blast
  then obtain pre w post where s: "split_window i (win_list s) = Some (pre, w, post)" by auto
  then have l: "win_list s = pre @ w # post" "w_id w = i" by (simp_all add: split_window_Some)
  let ?s = "s\<lparr>win_list := pre @ post\<rparr>"
  have "unregister_window s i = Some ?s"
    using s l ok by (simp add: unregister_window_def winsys_get_window_by_id_def split_window_find
        unlink_window_def windows_ok_def)
  moreover have "windows_ok ?s" using ok l by (simp add: windows_ok_def)
  moreover have "\<forall>v \<in> set (pre @ post). w_id v \<noteq> i"
    using ok l by (auto simp: windows_ok_def) (metis imageI)+
  then have "window_entries ?s = filter (\<lambda>e. fst e \<noteq> i) (window_entries s)"
    using l by (auto simp: window_entries_def filter_map comp_def filter_id_conv)
  ultimately show "\<exists>s'. unregister_window s i = Some s' \<and> windows_ok s' \<and>
      window_entries s' = filter (\<lambda>e. fst e \<noteq> i) (window_entries s)" by blast
next
  fix s :: winsys and i
  show "window_at s i = Some (case map_of (window_entries s) i of None \<Rightarrow> 0 | Some a \<Rightarrow> a)"
    by (simp add: window_at_def window_entries_def window_map_of winsys_get_window_by_id_def
        split: option.split)
qed

section \<open>Collisions\<close>

abbreviation WIN_FRAME_SIZE :: int where "WIN_FRAME_SIZE \<equiv> 2"
abbreviation TITLE_BAR_HEIGHT :: int where "TITLE_BAR_HEIGHT \<equiv> 30"
abbreviation CHAR_WIDTH :: int where "CHAR_WIDTH \<equiv> 8"
abbreviation CHAR_HEIGHT :: int where "CHAR_HEIGHT \<equiv> 16"

definition winsys_check_collide_rect_rect ::
  "int \<Rightarrow> int \<Rightarrow> int \<Rightarrow> int \<Rightarrow> int \<Rightarrow> int \<Rightarrow> int \<Rightarrow> int \<Rightarrow> bool" where
  "winsys_check_collide_rect_rect w1_x w1_y w1_w w1_h w2_x w2_y w2_w w2_h \<longleftrightarrow>
     w2_x + w2_w > w1_x \<and> w2_y + w2_h > w1_y \<and> w1_x + w1_w > w2_x \<and> w1_y + w1_h > w2_y"

definition winsys_check_collide :: "window option \<Rightarrow> window option \<Rightarrow> bool" where
  "winsys_check_collide w1 w2 =
     (case (w1, w2) of
        (Some v, Some w) \<Rightarrow> winsys_check_collide_rect_rect (win_x v) (win_y v) (win_w v) (win_h v)
                              (win_x w) (win_y w) (win_w w) (win_h w)
      | _ \<Rightarrow> False)"

definition winsys_check_collide_win_rect :: "window option \<Rightarrow> int \<Rightarrow> int \<Rightarrow> int \<Rightarrow> int \<Rightarrow> bool" where
  "winsys_check_collide_win_rect w1 w2_x w2_y w2_w w2_h =
     (case w1 of
        None \<Rightarrow> False
      | Some v \<Rightarrow> winsys_check_collide_rect_rect (win_x v - WIN_FRAME_SIZE) (win_y v - TITLE_BAR_HEIGHT)
          (win_w v + WIN_FRAME_SIZE * 2) (win_h v + TITLE_BAR_HEIGHT + WIN_FRAME_SIZE) w2_x w2_y w2_w w2_h)"

definition winsys_check_collide_whole :: "window option \<Rightarrow> window option \<Rightarrow> bool" where
  "winsys_check_collide_whole w1 w2 =
     (case w2 of
        None \<Rightarrow> False
      | Some w \<Rightarrow> winsys_check_collide_win_rect w1 (win_x w - WIN_FRAME_SIZE) (win_y w - TITLE_BAR_HEIGHT)
          (win_w w + WIN_FRAME_SIZE * 2) (win_h w + TITLE_BAR_HEIGHT + WIN_FRAME_SIZE))"

text \<open>
  The tests of a point mix signed and unsigned operands: the right and the bottom edge are
  unsigned sums, so C compares the coordinate with them as unsigned numbers, and with the left
  and the top edge as signed ones.
\<close>

definition in_box :: "int \<Rightarrow> int \<Rightarrow> u32 \<Rightarrow> u32 \<Rightarrow> int \<Rightarrow> int \<Rightarrow> bool" where
  "in_box w_x w_y w_w w_h x y \<longleftrightarrow>
     (word_of_int x :: u32) < word_of_int w_x + w_w \<and> x > w_x \<and>
     (word_of_int y :: u32) < word_of_int w_y + w_h \<and> y > w_y"

definition winsys_check_collide_coords :: "window \<Rightarrow> int \<Rightarrow> int \<Rightarrow> bool" where
  "winsys_check_collide_coords w x y =
     in_box (win_x w - WIN_FRAME_SIZE) (win_y w - TITLE_BAR_HEIGHT)
       (word_of_int (win_w w + WIN_FRAME_SIZE * 2))
       (word_of_int (win_h w + TITLE_BAR_HEIGHT + WIN_FRAME_SIZE)) x y"

definition winsys_check_title_collide :: "window \<Rightarrow> int \<Rightarrow> int \<Rightarrow> bool" where
  "winsys_check_title_collide w x y =
     in_box (win_x w - WIN_FRAME_SIZE) (win_y w - TITLE_BAR_HEIGHT)
       (word_of_int (win_w w + WIN_FRAME_SIZE * 2)) (word_of_int TITLE_BAR_HEIGHT) x y"

definition winsys_check_close_collide :: "window \<Rightarrow> int \<Rightarrow> int \<Rightarrow> bool" where
  "winsys_check_close_collide w x y \<longleftrightarrow> closable w \<and>
     in_box (win_x w + win_w w - CHAR_WIDTH) (win_y w - TITLE_BAR_HEIGHT)
       (word_of_int CHAR_WIDTH) (word_of_int TITLE_BAR_HEIGHT) x y"

text \<open>The two nested loops: the last window of the list that the test accepts.\<close>

fun top_collision :: "(window \<Rightarrow> bool) \<Rightarrow> window option \<Rightarrow> window list \<Rightarrow> window option" where
  "top_collision test found [] = found"
| "top_collision test found (w # ws) =
     (if test w then top_collision test (Some w) ws else top_collision test found ws)"

definition winsys_get_window_from_collision :: "winsys \<Rightarrow> int \<Rightarrow> int \<Rightarrow> window option" where
  "winsys_get_window_from_collision st x y =
     top_collision (\<lambda>w. winsys_check_collide_coords w x y) None (win_list st)"

lemma top_collision_spec:
  "top_collision test found ws =
     (case rev (filter test ws) of [] \<Rightarrow> found | w # _ \<Rightarrow> Some w)"
proof (induction ws arbitrary: found)
  case (Cons w ws)
  then show ?case by (cases "rev (filter test ws)") simp_all
qed simp

lemma word_less_int:
  assumes "0 \<le> a" and "a < 2 ^ 31" and "0 \<le> b" and "b < 2 ^ 31"
  shows "(word_of_int a :: u32) < word_of_int b \<longleftrightarrow> a < b"
  using assms by (simp add: word_less_def uint_word_of_int)

lemma in_box_exact:
  assumes "0 \<le> x" and "x < 2 ^ 31" and "0 \<le> y" and "y < 2 ^ 31"
    and "0 \<le> bx + bw" and "bx + bw < 2 ^ 31" and "0 \<le> b_y + bh" and "b_y + bh < 2 ^ 31"
  shows "in_box bx b_y (word_of_int bw) (word_of_int bh) x y \<longleftrightarrow>
    bx < x \<and> x < bx + bw \<and> b_y < y \<and> y < b_y + bh"
proof -
  have "(word_of_int x :: u32) < word_of_int (bx + bw) \<longleftrightarrow> x < bx + bw"
    using assms by (intro word_less_int) auto
  moreover have "(word_of_int y :: u32) < word_of_int (b_y + bh) \<longleftrightarrow> y < b_y + bh"
    using assms by (intro word_less_int) auto
  ultimately show ?thesis by (auto simp: in_box_def)
qed

section \<open>Properties\<close>

definition sample_event :: "u32 \<Rightarrow> event" where
  "sample_event d = \<lparr>event_type = EVENT_KBD_PRESS, event_data = d\<rparr>"

definition empty_events :: "event list" where
  "empty_events = replicate EVENT_HANDLER_QUEUE_SIZE \<lparr>event_type = EVENT_INVALID, event_data = 0\<rparr>"

definition sample_window :: "int \<Rightarrow> int \<Rightarrow> int \<Rightarrow> window" where
  "sample_window i px py = \<lparr>w_addr = of_int (0xC0400000 + 0x100 * i), win_x = px, win_y = py, win_w = 100,
     win_h = 80, w_buffer = 0, wsys_buffer = 0, w_name = 0, w_id = i, parent_pid = i, is_user = False,
     closable = True, has_frame = True, events = empty_events, event_mask = 0\<rparr>"

text \<open>
  C13: a window's event queue delivers: whatever sequence of enqueues and dequeues a client
  makes, never more than ten events pending and never dequeuing from an empty queue, the events
  it gets are the events that were sent, in order, and the rest is still pending.
\<close>

theorem event_queue_fifo:
  assumes "handler_ok evs"
    and "fits (\<lambda>e. \<not> is_invalid e) EVENT_HANDLER_QUEUE_SIZE (length (pending evs)) ops"
  shows "\<exists>es evs'. fifo_run winsys_enqueue_to_event_handler winsys_dequeue_from_event_handler ops evs =
      Some (es, evs') \<and> handler_ok evs' \<and> es @ pending evs' = pending evs @ sent ops"
  by (rule eh.in_order [OF assms])

theorem event_queue_fifo_witness:
  "\<exists>es evs'. fifo_run winsys_enqueue_to_event_handler winsys_dequeue_from_event_handler
      [Enq (sample_event 1), Enq (sample_event 2), Deq, Enq (sample_event 3)] empty_events = Some (es, evs') \<and>
    handler_ok evs' \<and> es @ pending evs' = [sample_event 1, sample_event 2, sample_event 3]"
proof -
  have "pending empty_events = []" "handler_ok empty_events"
    by (simp_all add: handler_ok_def pending_def empty_events_def is_invalid_def flag_def)
  moreover have "\<not> is_invalid (sample_event d)" for d
    by (simp add: sample_event_def is_invalid_def flag_def)
  ultimately show ?thesis
    using event_queue_fifo [of empty_events
        "[Enq (sample_event 1), Enq (sample_event 2), Deq, Enq (sample_event 3)]"] by simp
qed

text \<open>An event sent to a full queue is dropped.\<close>

lemma event_queue_full:
  "length (pending evs) = length evs \<Longrightarrow> winsys_enqueue_to_event_handler evs e = Some evs"
  by (simp add: winsys_enqueue_to_event_handler_def put_first_invalid_full)

text \<open>
  C14: the operations queued for the window system's thread are served in order, each exactly
  once, as long as the ring of twenty is not overfilled; the lock that is kept while the ring
  is full never blocks such a sequence, whoever is running.
\<close>

theorem winsys_ring_fifo:
  assumes "ring_ok st" and "fits (\<lambda>op. True) WINSYS_QUEUE_SIZE (length (ring_items st)) ops"
  shows "\<exists>es st'. fifo_run (\<lambda>st op. winsys_enqueue_to_winsys_listener st running op)
      winsys_dequeue_from_winsys_listener ops st = Some (es, st') \<and>
    ring_ok st' \<and> es @ ring_items st' = ring_items st @ sent ops"
  by (rule ring.in_order [OF assms])

theorem winsys_ring_fifo_witness:
  "\<exists>es st'. fifo_run (\<lambda>st op. winsys_enqueue_to_winsys_listener st (Some 3) op)
      winsys_dequeue_from_winsys_listener [Enq empty_op, Enq (empty_op\<lparr>wid := 4\<rparr>), Deq] (winsys_init winsys_boot) =
      Some (es, st') \<and> ring_ok st' \<and> es @ ring_items st' = [empty_op, empty_op\<lparr>wid := 4\<rparr>]"
proof -
  have "ring_ok (winsys_init winsys_boot)" "ring_items (winsys_init winsys_boot) = []"
    by (simp_all add: ring_ok_def ring_items_def winsys_init_def winsys_boot_def)
  then show ?thesis
    using winsys_ring_fifo [of "winsys_init winsys_boot" "[Enq empty_op, Enq (empty_op\<lparr>wid := 4\<rparr>), Deq]" "Some 3"]
    by simp
qed

text \<open>
  Making a window the working window raises it: the list keeps exactly its windows, and
  from then on a click anywhere on the window finds it, whatever other windows are there.
\<close>

theorem winsys_set_working_raises:
  assumes "winsys_get_window_by_id st i = Some w" and "w_addr w \<noteq> working_window st"
    and "\<not> winsys_win_list_lock st"
  shows "\<exists>st'. winsys_set_working_window_operation st i = Some (1, st') \<and>
    working_window st' = w_addr w \<and> mset (win_list st') = mset (win_list st) \<and>
    filter (\<lambda>v. w_id v \<noteq> i) (win_list st') = filter (\<lambda>v. w_id v \<noteq> i) (win_list st) \<and>
    (\<forall>x y. winsys_check_collide_coords w x y \<longrightarrow> winsys_get_window_from_collision st' x y = Some w)"
proof -
  from assms(1) obtain pre post where s: "split_window i (win_list st) = Some (pre, w, post)"
    by (auto simp: winsys_get_window_by_id_def split_window_find split: option.splits)
  then have l: "win_list st = pre @ w # post" and i: "w_id w = i" by (auto simp: split_window_Some)
  let ?st = "st\<lparr>working_window := w_addr w, win_list := pre @ post @ [w]\<rparr>"
  have "winsys_set_working_window_operation st i = Some (1, ?st)"
    using s l assms(2,3) by (cases pre; cases post) (simp_all add: winsys_set_working_window_operation_def)
  moreover have "winsys_get_window_from_collision ?st x y = Some w"
    if "winsys_check_collide_coords w x y" for x y
    using that by (simp add: winsys_get_window_from_collision_def top_collision_spec)
  ultimately show ?thesis using l i by (intro exI [of _ ?st]) simp
qed

theorem winsys_set_working_raises_witness:
  "\<exists>st'. winsys_set_working_window_operation
      (winsys_boot\<lparr>win_list := [sample_window 1 0 40, sample_window 2 50 60], working_window := 7\<rparr>) 1 = Some (1, st') \<and>
    mset (win_list st') = {#sample_window 1 0 40, sample_window 2 50 60#}"
  using winsys_set_working_raises [of
      "winsys_boot\<lparr>win_list := [sample_window 1 0 40, sample_window 2 50 60], working_window := 7\<rparr>" 1
      "sample_window 1 0 40"]
  by (auto simp: winsys_get_window_by_id_def sample_window_def winsys_boot_def)

text \<open>
  For a point of the screen, the test of a window whose right and bottom edges are not off
  the top or left of the screen is the geometric one: strictly inside its frame.
\<close>

theorem winsys_collide_coords_exact:
  assumes "0 \<le> px" and "px < 2 ^ 31" and "0 \<le> py" and "py < 2 ^ 31"
    and "0 \<le> win_x w + win_w w + WIN_FRAME_SIZE" and "win_x w + win_w w + WIN_FRAME_SIZE < 2 ^ 31"
    and "0 \<le> win_y w + win_h w + WIN_FRAME_SIZE" and "win_y w + win_h w + WIN_FRAME_SIZE < 2 ^ 31"
  shows "winsys_check_collide_coords w px py \<longleftrightarrow>
    win_x w - WIN_FRAME_SIZE < px \<and> px < win_x w + win_w w + WIN_FRAME_SIZE \<and>
    win_y w - TITLE_BAR_HEIGHT < py \<and> py < win_y w + win_h w + WIN_FRAME_SIZE"
proof -
  have "winsys_check_collide_coords w px py \<longleftrightarrow>
      win_x w - WIN_FRAME_SIZE < px \<and> px < win_x w - WIN_FRAME_SIZE + (win_w w + WIN_FRAME_SIZE * 2) \<and>
      win_y w - TITLE_BAR_HEIGHT < py \<and>
      py < win_y w - TITLE_BAR_HEIGHT + (win_h w + TITLE_BAR_HEIGHT + WIN_FRAME_SIZE)"
    unfolding winsys_check_collide_coords_def using assms by (intro in_box_exact) auto
  then show ?thesis by auto
qed

theorem winsys_collide_coords_exact_witness:
  "winsys_check_collide_coords (sample_window 1 (- 20) 40) 30 50"
  using winsys_collide_coords_exact [of 30 50 "sample_window 1 (- 20) 40"] by (simp add: sample_window_def)

text \<open>
  A window that is wholly off the left of the screen is hit by every click in its rows: its
  right edge, negative, is compared as an unsigned number.
\<close>

lemma winsys_collide_off_screen: "winsys_check_collide_coords (sample_window 1 (- 200) 40) 1000 50"
  by (simp add: winsys_check_collide_coords_def in_box_def sample_window_def word_less_def uint_word_of_int)

end
