(* ===== verification/Tasks.thy ===== *)
theory Tasks
  imports Spaces Kheap Vfs Events
begin

text \<open>
  The state that the scheduler and the process manager share: threads, processes and the
  kernel's global variables (\<^verbatim>\<open>deps/process.h\<close>, \<^verbatim>\<open>deps/scheduler.h\<close>).

  Threads, processes and queue entries are objects known by their addresses.  A process is
  found in the store \<open>procs\<close>; \<open>None\<close> there is memory that was never allocated or has been
  freed, and using it is a fault.  A linked list is the list of its elements in the order of
  the \<^verbatim>\<open>next\<close> pointers.  The allocations go through the heap \<open>kh\<close>: the address of a new object
  is what \<^verbatim>\<open>kmalloc\<close> returns, and the write through a null result is a fault.
\<close>

abbreviation THREAD_RUN :: u32 where "THREAD_RUN \<equiv> 1"
abbreviation THREAD_BLOCK_SLEEP :: u32 where "THREAD_BLOCK_SLEEP \<equiv> 2"
abbreviation THREAD_TERMINATE :: u32 where "THREAD_TERMINATE \<equiv> 4"
abbreviation THREAD_SUSPENDED :: u32 where "THREAD_SUSPENDED \<equiv> 8"
abbreviation PRIORITY_HIGH :: u32 where "PRIORITY_HIGH \<equiv> 1"
abbreviation PRIORITY_MID :: u32 where "PRIORITY_MID \<equiv> 2"
abbreviation PRIORITY_LOW :: u32 where "PRIORITY_LOW \<equiv> 3"
abbreviation PROCESS_STATE_ACTIVE :: u32 where "PROCESS_STATE_ACTIVE \<equiv> 1"

record thread =
  ESP :: u32
  SS :: u32
  kernelESP :: u32
  kernelSS :: u32
  parent :: u32
  priority :: u32
  thread_state :: u32
  sleepTimeDelta :: u32
  initialStack :: u32
  tid :: int
  isMain :: bool

record queueEntry =
  q_addr :: u32
  q_thread :: thread

record threadNode =
  t_addr :: u32
  t_thread :: thread

record file_desc =
  fd_addr :: u32
  fd_file :: fobj
  fd :: u32

record process =
  pageDirectory :: u32
  p_id :: int
  p_priority :: u32
  p_state :: u32
  imageBase :: u32
  imageSize :: u32
  brk :: u32
  file_descs :: "file_desc list"
  term_win :: u32
  term_inp_info :: u32
  threadList :: "threadNode list"
  livingThreads :: u32
  is_kernel :: bool
  on_terminate :: u32
  p_name :: u32

record 's kernel =
  vm :: vmm
  kh :: kheap
  procs :: "u32 \<Rightarrow> process option"
  processList :: "u32 list"
  ready :: "queueEntry list"
  currentTask :: u32
  files :: "'s vfs"
  wsys :: winsys

definition proc_update :: "'s kernel \<Rightarrow> u32 \<Rightarrow> (process \<Rightarrow> process) \<Rightarrow> 's kernel option" where
  "proc_update st a f = do {
     p \<leftarrow> procs st a;
     Some (st\<lparr>procs := (procs st)(a := Some (f p))\<rparr>) }"

text \<open>The size of the structures with 4-byte pointers.\<close>

abbreviation sizeof_thread :: u32 where "sizeof_thread \<equiv> 48"
abbreviation sizeof_queueEntry :: u32 where "sizeof_queueEntry \<equiv> 52"
abbreviation sizeof_process :: u32 where "sizeof_process \<equiv> 64"

text \<open>Allocating an object that the code writes to at once.\<close>

definition k_alloc :: "'s kernel \<Rightarrow> u32 \<Rightarrow> (u32 \<times> 's kernel) option" where
  "k_alloc st sz = do {
     (p, h) \<leftarrow> kmalloc (kh st) sz;
     guard (p \<noteq> 0);
     Some (p, st\<lparr>kh := h\<rparr>) }"

definition k_free :: "'s kernel \<Rightarrow> u32 \<Rightarrow> 's kernel option" where
  "k_free st p = do { h \<leftarrow> kfree (kh st) p; Some (st\<lparr>kh := h\<rparr>) }"

end
