(* ===== verification/Sched.thy ===== *)
theory Sched
  imports Tasks
begin

text \<open>
  The scheduler, \<^verbatim>\<open>kernel/scheduler.c\<close>: the ready queue, thread states, sleeping and waking,
  and the dispatch loop.  \<open>ready\<close> is \<^verbatim>\<open>_readyQueue\<close>, a list of entries that hold a thread each;
  \<open>currentTask\<close> is \<^verbatim>\<open>_currentTask\<close>, the address of the entry that holds the running thread
  (the thread is the first field of its entry), or 0 while scheduling is disabled.
\<close>

section \<open>The running thread\<close>

definition entry_at :: "queueEntry list \<Rightarrow> u32 \<Rightarrow> queueEntry option" where
  "entry_at qs a = find (\<lambda>q. q_addr q = a) qs"

definition current_thread :: "'s kernel \<Rightarrow> thread option" where
  "current_thread st = map_option q_thread (entry_at (ready st) (currentTask st))"

fun update_entry :: "u32 \<Rightarrow> (thread \<Rightarrow> thread) \<Rightarrow> queueEntry list \<Rightarrow> queueEntry list option" where
  "update_entry a f [] = None"
| "update_entry a f (q # qs) =
     (if q_addr q = a then Some (q\<lparr>q_thread := f (q_thread q)\<rparr> # qs)
      else do { qs \<leftarrow> update_entry a f qs; Some (q # qs) })"

definition update_current :: "'s kernel \<Rightarrow> (thread \<Rightarrow> thread) \<Rightarrow> 's kernel option" where
  "update_current st f = do {
     guard (currentTask st \<noteq> 0);
     qs \<leftarrow> update_entry (currentTask st) f (ready st);
     Some (st\<lparr>ready := qs\<rparr>) }"

definition get_running_process :: "'s kernel \<Rightarrow> u32 option" where
  "get_running_process st =
     (if currentTask st \<noteq> 0 then map_option parent (current_thread st) else Some 0)"

definition get_current_task :: "'s kernel \<Rightarrow> u32" where
  "get_current_task st = currentTask st"

definition queue_get :: "'s kernel \<Rightarrow> u32" where
  "queue_get st = (case ready st of [] \<Rightarrow> 0 | q # qs \<Rightarrow> q_addr q)"

definition disable_scheduling :: "'s kernel \<Rightarrow> 's kernel" where
  "disable_scheduling st = st\<lparr>currentTask := 0\<rparr>"

definition enable_scheduling :: "'s kernel \<Rightarrow> 's kernel" where
  "enable_scheduling st = st\<lparr>currentTask := queue_get st\<rparr>"

text \<open>
  Many operations run with scheduling disabled and enable it again when it was enabled
  before; enabling makes the head of the queue the running thread.
\<close>

definition unscheduled :: "('s kernel \<Rightarrow> 's kernel option) \<Rightarrow> 's kernel \<Rightarrow> 's kernel option" where
  "unscheduled f st = (
     let scheduling_enabled = (currentTask st \<noteq> 0);
         st = (if scheduling_enabled then disable_scheduling st else st)
     in do {
       st \<leftarrow> f st;
       Some (if scheduling_enabled then enable_scheduling st else st) })"

section \<open>Thread states\<close>

definition thread_set_state :: "thread \<Rightarrow> u32 \<Rightarrow> thread" where
  "thread_set_state t flags = t\<lparr>thread_state := thread_state t OR flags\<rparr>"

definition thread_remove_state :: "thread \<Rightarrow> u32 \<Rightarrow> thread" where
  "thread_remove_state t flags = t\<lparr>thread_state := thread_state t AND NOT flags\<rparr>"

fun update_tid :: "int \<Rightarrow> (thread \<Rightarrow> thread) \<Rightarrow> queueEntry list \<Rightarrow> queueEntry list" where
  "update_tid i f [] = []"
| "update_tid i f (q # qs) =
     (if tid (q_thread q) = i then q\<lparr>q_thread := f (q_thread q)\<rparr> # qs
      else q # update_tid i f qs)"

definition thread_set_state_by_id :: "'s kernel \<Rightarrow> int \<Rightarrow> u32 \<Rightarrow> 's kernel option" where
  "thread_set_state_by_id st i flags = unscheduled (\<lambda>st.
     Some (st\<lparr>ready := update_tid i (\<lambda>t. thread_set_state t flags) (ready st)\<rparr>)) st"

definition thread_remove_state_by_id :: "'s kernel \<Rightarrow> int \<Rightarrow> u32 \<Rightarrow> 's kernel option" where
  "thread_remove_state_by_id st i flags = unscheduled (\<lambda>st.
     Some (st\<lparr>ready := update_tid i (\<lambda>t. thread_remove_state t flags) (ready st)\<rparr>)) st"

definition remove_by_tid :: "'s kernel \<Rightarrow> int \<Rightarrow> 's kernel option" where
  "remove_by_tid st i = thread_set_state_by_id st i THREAD_TERMINATE"

definition thread_wake :: "'s kernel \<Rightarrow> 's kernel option" where
  "thread_wake st = update_current st
     (\<lambda>t. (thread_remove_state t THREAD_BLOCK_SLEEP)\<lparr>sleepTimeDelta := 0\<rparr>)"

definition thread_unsuspend :: "'s kernel \<Rightarrow> 's kernel option" where
  "thread_unsuspend st = update_current st (\<lambda>t. thread_remove_state t THREAD_SUSPENDED)"

fun unsuspend_loop :: "('s kernel) \<Rightarrow> int \<Rightarrow> queueEntry list \<Rightarrow> queueEntry list option" where
  "unsuspend_loop st i [] = Some []"
| "unsuspend_loop st i (q # qs) = do {
     p \<leftarrow> procs st (parent (q_thread q));
     qs \<leftarrow> unsuspend_loop st i qs;
     Some ((if p_id p = i then q\<lparr>q_thread := thread_remove_state (q_thread q) THREAD_SUSPENDED\<rparr> else q) # qs) }"

definition unsuspend_suspended_threads :: "'s kernel \<Rightarrow> u32 \<Rightarrow> 's kernel option" where
  "unsuspend_suspended_threads st proc =
     (if proc = 0 then Some st
      else unscheduled (\<lambda>st. do {
        p \<leftarrow> procs st proc;
        qs \<leftarrow> unsuspend_loop st (p_id p) (ready st);
        Some (st\<lparr>ready := qs\<rparr>) }) st)"

section \<open>The ready queue\<close>

fun free_entries :: "'s kernel \<Rightarrow> queueEntry list \<Rightarrow> 's kernel option" where
  "free_entries st [] = Some st"
| "free_entries st (q # qs) = do { st \<leftarrow> k_free st (q_addr q); free_entries st qs }"

definition clear_queue :: "'s kernel \<Rightarrow> 's kernel option" where
  "clear_queue st = do { st \<leftarrow> free_entries st (ready st); Some (st\<lparr>ready := []\<rparr>) }"

definition queue_insert :: "'s kernel \<Rightarrow> thread \<Rightarrow> 's kernel option" where
  "queue_insert st t = unscheduled (\<lambda>st. do {
     (a, st) \<leftarrow> k_alloc st sizeof_queueEntry;
     Some (st\<lparr>ready := ready st @ [\<lparr>q_addr = a, q_thread = t\<rparr>]\<rparr>) }) st"

text \<open>
  The loop \<^verbatim>\<open>while (tmp->next && tmp->thread.priority <= t.priority)\<close>: the new entry goes after
  the first entry of a greater priority number, or after the last one, and never to the front
  of a non-empty queue.
\<close>

fun insert_prioritized :: "queueEntry \<Rightarrow> queueEntry list \<Rightarrow> queueEntry list" where
  "insert_prioritized new [] = [new]"
| "insert_prioritized new [q] = [q, new]"
| "insert_prioritized new (q # r # qs) =
     (if priority (q_thread q) \<le> priority (q_thread new) then q # insert_prioritized new (r # qs)
      else q # new # r # qs)"

definition queue_insert_prioritized :: "'s kernel \<Rightarrow> thread \<Rightarrow> 's kernel option" where
  "queue_insert_prioritized st t = do {
     (a, st) \<leftarrow> k_alloc st sizeof_queueEntry;
     Some (st\<lparr>ready := insert_prioritized \<lparr>q_addr = a, q_thread = t\<rparr> (ready st)\<rparr>) }"

definition queue_insert_prioritized_queueEntry :: "'s kernel \<Rightarrow> queueEntry \<Rightarrow> 's kernel" where
  "queue_insert_prioritized_queueEntry st new = st\<lparr>ready := insert_prioritized new (ready st)\<rparr>"

text \<open>On the empty queue the code returns a pointer that it never set.\<close>

definition queue_remove :: "'s kernel \<Rightarrow> (queueEntry \<times> 's kernel) option" where
  "queue_remove st = (case ready st of [] \<Rightarrow> None | q # qs \<Rightarrow> Some (q, st\<lparr>ready := qs\<rparr>))"

definition queue_get_last :: "'s kernel \<Rightarrow> u32" where
  "queue_get_last st = (if ready st = [] then 0 else q_addr (last (ready st)))"

text \<open>
  With a single entry the code frees it and goes on to read \<^verbatim>\<open>tmp->next->next\<close>, where
  \<^verbatim>\<open>tmp->next\<close> is null.
\<close>

definition queue_delete_last :: "'s kernel \<Rightarrow> 's kernel option" where
  "queue_delete_last st =
     (case ready st of
        [] \<Rightarrow> Some st
      | [q] \<Rightarrow> None
      | _ \<Rightarrow> do {
          st \<leftarrow> k_free st (q_addr (last (ready st)));
          Some (st\<lparr>ready := butlast (ready st)\<rparr>) })"

definition queue_delete_first :: "'s kernel \<Rightarrow> 's kernel option" where
  "queue_delete_first st =
     (case ready st of
        [] \<Rightarrow> Some st
      | q # qs \<Rightarrow> k_free (st\<lparr>ready := qs\<rparr>) (q_addr q))"

text \<open>The thread with an identifier; \<open>None\<close> stands for the result whose \<^verbatim>\<open>tid\<close> is -1.\<close>

definition get_thread_by_tid :: "'s kernel \<Rightarrow> int \<Rightarrow> thread option \<times> 's kernel" where
  "get_thread_by_tid st i =
     (map_option q_thread (find (\<lambda>q. tid (q_thread q) = i) (ready st)),
      if currentTask st \<noteq> 0 then enable_scheduling (disable_scheduling st) else st)"

definition get_free_tid :: "'s kernel \<Rightarrow> int" where
  "get_free_tid st = fresh_id (\<lambda>q. tid (q_thread q)) 1 (ready st)"

section \<open>Dispatch\<close>

text \<open>
  Reaping a terminated thread that is at the head of the queue: its kernel stack is freed, and
  with the last living thread the address space and the process go.
\<close>

definition reap :: "'s kernel \<Rightarrow> thread \<Rightarrow> 's kernel option" where
  "reap st t = do {
     p \<leftarrow> procs st (parent t);
     st \<leftarrow> (if kernelESP t \<noteq> 0 then do {
         v \<leftarrow> vmmngr_free_virt (vm st) (pageDirectory p) (kernelESP t - 4096);
         proc_update (st\<lparr>vm := v\<rparr>) (parent t) (\<lambda>p. p\<lparr>livingThreads := livingThreads p - 1\<rparr>) }
       else Some st);
     p \<leftarrow> procs st (parent t);
     st \<leftarrow> (if livingThreads p = 0 then do {
         v \<leftarrow> clear_kernel_space (vm st) (pageDirectory p);
         v \<leftarrow> vmmngr_free_pdir v (pageDirectory p);
         st \<leftarrow> (if p_name p \<noteq> 0 then k_free (st\<lparr>vm := v\<rparr>) (p_name p) else Some (st\<lparr>vm := v\<rparr>));
         st \<leftarrow> k_free st (parent t);
         Some (st\<lparr>procs := (procs st)(parent t := None)\<rparr>) }
       else Some st);
     queue_delete_first st }"

text \<open>One round of the \<^verbatim>\<open>do\<close> loop; the flag is the loop condition after it.\<close>

definition dispatch_round :: "'s kernel \<Rightarrow> (bool \<times> 's kernel) option" where
  "dispatch_round st = do {
     (tmp, st) \<leftarrow> queue_remove st;
     let st = queue_insert_prioritized_queueEntry st tmp;
     let st = st\<lparr>currentTask := queue_get st\<rparr>;
     t \<leftarrow> current_thread st;
     if flag (thread_state t) THREAD_TERMINATE then do {
       p \<leftarrow> procs st (parent t);
       if vmmngr_get_directory (vm st) = pageDirectory p then Some (True, st)
       else do { st \<leftarrow> reap st t; Some (True, st) } }
     else Some (flag (thread_state t) THREAD_BLOCK_SLEEP \<or> flag (thread_state t) THREAD_SUSPENDED, st) }"

text \<open>The loop need not end; then the result is \<open>None\<close>.\<close>

partial_function (option) scheduler_dispatch :: "'s kernel \<Rightarrow> 's kernel option" where
  "scheduler_dispatch st = do {
     (again, st) \<leftarrow> dispatch_round st;
     if again then scheduler_dispatch st else Some st }"

definition tick_thread :: "thread \<Rightarrow> thread" where
  "tick_thread t =
     (if sleepTimeDelta t > 0 then
        let t = t\<lparr>sleepTimeDelta := sleepTimeDelta t - 1\<rparr>
        in if sleepTimeDelta t = 0
           then (thread_remove_state t THREAD_BLOCK_SLEEP)\<lparr>sleepTimeDelta := 0\<rparr>
           else t
      else t)"

definition tick_entry :: "queueEntry \<Rightarrow> queueEntry" where
  "tick_entry q = q\<lparr>q_thread := tick_thread (q_thread q)\<rparr>"

definition scheduler_tick :: "'s kernel \<Rightarrow> 's kernel option" where
  "scheduler_tick st = do {
     st \<leftarrow> scheduler_dispatch st;
     Some (st\<lparr>ready := map tick_entry (ready st)\<rparr>) }"

text \<open>
  Interrupt 0x81, which \<^verbatim>\<open>schedule\<close> raises, and interrupt 32 (\<^verbatim>\<open>kernel/kernel_entry.asm\<close>): the
  stack pointer of the running thread is saved, another thread is chosen and its address space
  becomes the current one.
\<close>

definition switch_to_current :: "'s kernel \<Rightarrow> 's kernel option" where
  "switch_to_current st = do {
     t \<leftarrow> current_thread st;
     p \<leftarrow> procs st (parent t);
     Some (if pageDirectory p = pdbr (vm st) then st
           else st\<lparr>vm := vmmngr_set_pdirectory_ptr ((vm st)\<lparr>pdbr := pageDirectory p\<rparr>) (pageDirectory p)\<rparr>) }"

definition schedule :: "'s kernel \<Rightarrow> u32 \<Rightarrow> 's kernel option" where
  "schedule st esp =
     (if currentTask st = 0 then Some st
      else do {
        st \<leftarrow> update_current st (\<lambda>t. t\<lparr>ESP := esp\<rparr>);
        st \<leftarrow> scheduler_dispatch st;
        switch_to_current st })"

definition scheduler_isr :: "'s kernel \<Rightarrow> u32 \<Rightarrow> 's kernel option" where
  "scheduler_isr st esp =
     (if currentTask st = 0 then Some st
      else do {
        st \<leftarrow> update_current st (\<lambda>t. t\<lparr>ESP := esp\<rparr>);
        st \<leftarrow> scheduler_tick st;
        switch_to_current st })"

text \<open>The timer runs 100 times a second.\<close>

definition sleep_thread :: "u32 \<Rightarrow> thread \<Rightarrow> thread" where
  "sleep_thread ms t = (thread_set_state t THREAD_BLOCK_SLEEP)\<lparr>sleepTimeDelta := ms div (1000 div 100)\<rparr>"

definition thread_sleep :: "'s kernel \<Rightarrow> u32 \<Rightarrow> u32 \<Rightarrow> 's kernel option" where
  "thread_sleep st ms esp = do {
     st \<leftarrow> update_current st (sleep_thread ms);
     schedule st esp }"

definition thread_suspend :: "'s kernel \<Rightarrow> u32 \<Rightarrow> 's kernel option" where
  "thread_suspend st esp = do {
     st \<leftarrow> update_current st (\<lambda>t. thread_set_state t THREAD_SUSPENDED);
     schedule st esp }"

section \<open>Creating threads\<close>

text \<open>
  The frame that \<^verbatim>\<open>thread_create\<close> builds on the new stack is what \<^verbatim>\<open>iret\<close> later loads; here it
  is a value: the registers in the order of \<^verbatim>\<open>trapFrame\<close>, with the user stack at the end for a
  user thread.
\<close>

definition trap_frame :: "u32 \<Rightarrow> u32 \<Rightarrow> u32 \<Rightarrow> u32 list" where
  "trap_frame data entry code = replicate 4 data @ replicate 8 0 @ [entry, code, 0x202]"

definition thread_create :: "'s kernel \<Rightarrow> thread \<Rightarrow> u32 \<Rightarrow> u32 \<Rightarrow> bool \<Rightarrow> (thread \<times> u32 list \<times> 's kernel) option" where
  "thread_create st t entry esp is_k = do {
     (t, frame, st) \<leftarrow>
       (if is_k then
          Some (t\<lparr>kernelESP := esp, initialStack := esp, SS := 0x10, kernelSS := 0, ESP := esp - 60\<rparr>,
                trap_frame 0x10 entry 8, st)
        else do {
          (kesp, v) \<leftarrow> create_user_kernel_stack (vm st);
          Some (t\<lparr>kernelESP := kesp, kernelSS := 0x10, SS := 0x23, ESP := kesp - 68\<rparr>,
                trap_frame 0x23 entry 0x1b @ [esp, 0x23], st\<lparr>vm := v\<rparr>) });
     Some (t\<lparr>parent := 0, priority := 0, thread_state := THREAD_RUN, sleepTimeDelta := 0,
             tid := get_free_tid st\<rparr>, frame, st) }"

section \<open>Rotation\<close>

text \<open>
  What one dispatch round does to the queue: the head is put back by priority.  Every entry
  gets its turn: an entry that is overtaken again and again would need entries of ever greater
  priority number in front of it, and the one with the greatest goes behind it.
\<close>

definition rot :: "queueEntry list \<Rightarrow> queueEntry list" where
  "rot qs = (case qs of [] \<Rightarrow> [] | q # qs \<Rightarrow> insert_prioritized q qs)"

abbreviation prio :: "queueEntry \<Rightarrow> u32" where
  "prio q \<equiv> priority (q_thread q)"

lemma insert_prioritized_mset [simp]: "mset (insert_prioritized new qs) = add_mset new (mset qs)"
  by (induction new qs rule: insert_prioritized.induct) auto

lemma insert_prioritized_set [simp]: "set (insert_prioritized new qs) = insert new (set qs)"
  using insert_prioritized_mset [of new qs] by (metis set_mset_add_mset_insert set_mset_mset)

lemma insert_prioritized_length [simp]: "length (insert_prioritized new qs) = Suc (length qs)"
  by (induction new qs rule: insert_prioritized.induct) auto

lemma insert_prioritized_before:
  "\<exists>t \<in> set pre. prio new < prio t \<Longrightarrow>
     insert_prioritized new (pre @ post) = insert_prioritized new pre @ post"
proof (induction pre)
  case (Cons a pre)
  show ?case
  proof (cases "prio a \<le> prio new")
    case True
    then have t: "\<exists>t \<in> set pre. prio new < prio t" using Cons.prems by auto
    then obtain b pre' where p: "pre = b # pre'" by (cases pre) auto
    show ?thesis using True Cons.IH [OF t] by (simp add: p)
  next
    case False
    then show ?thesis by (cases pre; cases post) simp_all
  qed
qed simp

lemma insert_prioritized_behind:
  assumes "\<forall>t \<in> set pre. prio t \<le> prio new"
  shows "\<exists>post'. insert_prioritized new (pre @ e # post) = pre @ e # post'"
  using assms
proof (induction pre)
  case Nil
  then show ?case by (cases post) auto
next
  case (Cons a pre)
  then show ?case by (cases pre) auto
qed

lemma rot_mset [simp]: "mset (rot qs) = mset qs"
  by (simp add: rot_def split: list.split)

lemma rot_set [simp]: "set (rot qs) = set qs"
  using rot_mset [of qs] by (metis set_mset_mset)

lemma rots_mset [simp]: "mset ((rot ^^ n) qs) = mset qs"
  by (induction n) simp_all

lemma rots_set [simp]: "set ((rot ^^ n) qs) = set qs"
  using rots_mset [of n qs] by (metis set_mset_mset)

lemma rots_Nil [simp]: "(rot ^^ n) qs = [] \<longleftrightarrow> qs = []"
  using rots_mset [of n qs] by (metis mset_zero_iff)

text \<open>One rotation never moves an entry back, unless it is the head.\<close>

lemma rot_step:
  "\<exists>pre' post'. rot (h # pre @ e # post) = pre' @ e # post' \<and> length pre' \<le> Suc (length pre) \<and>
     set pre' \<subseteq> insert h (set pre) \<and> ((\<forall>t \<in> set pre. prio t \<le> prio h) \<longrightarrow> pre' = pre)"
proof (cases "\<exists>t \<in> set pre. prio h < prio t")
  case True
  then have "rot (h # pre @ e # post) = insert_prioritized h pre @ e # post"
    by (simp add: rot_def insert_prioritized_before)
  moreover have "\<not> (\<forall>t \<in> set pre. prio t \<le> prio h)" using True by (auto simp: not_le)
  moreover have "length (insert_prioritized h pre) \<le> Suc (length pre)"
    "set (insert_prioritized h pre) \<subseteq> insert h (set pre)" by simp_all
  ultimately show ?thesis by blast
next
  case False
  then have "\<forall>t \<in> set pre. prio t \<le> prio h" by (auto simp: not_less)
  from insert_prioritized_behind [OF this, of e post] obtain post' where
    "rot (h # pre @ e # post) = pre @ e # post'" by (auto simp: rot_def)
  moreover have "length pre \<le> Suc (length pre)" "set pre \<subseteq> insert h (set pre)" by auto
  ultimately show ?thesis by blast
qed

lemma rots_track:
  "(\<exists>i \<le> n. \<exists>ys. (rot ^^ i) (pre @ e # post) = e # ys) \<or>
   (\<exists>pre' post'. (rot ^^ n) (pre @ e # post) = pre' @ e # post' \<and> length pre' \<le> length pre \<and>
     set pre' \<subseteq> set pre)"
proof (induction n)
  case 0
  show ?case by (intro disjI2 exI [of _ pre] exI [of _ post]) simp
next
  case (Suc n)
  then show ?case
  proof (elim disjE)
    assume "\<exists>i \<le> n. \<exists>ys. (rot ^^ i) (pre @ e # post) = e # ys"
    then show ?thesis by (meson le_SucI)
  next
    assume "\<exists>pre' post'. (rot ^^ n) (pre @ e # post) = pre' @ e # post' \<and> length pre' \<le> length pre \<and>
      set pre' \<subseteq> set pre"
    then obtain p q where p: "(rot ^^ n) (pre @ e # post) = p @ e # q" "length p \<le> length pre"
      "set p \<subseteq> set pre" by blast
    show ?thesis
    proof (cases p)
      case Nil
      then show ?thesis using p(1) by (intro disjI1 exI [of _ n]) auto
    next
      case (Cons h p1)
      from rot_step [of h p1 e q] obtain p2 q2 where
        r: "rot (h # p1 @ e # q) = p2 @ e # q2" "length p2 \<le> Suc (length p1)" "set p2 \<subseteq> insert h (set p1)"
        by blast
      have "(rot ^^ Suc n) (pre @ e # post) = p2 @ e # q2" using p(1) r(1) Cons by simp
      moreover have "length p2 \<le> length pre" "set p2 \<subseteq> set pre" using p(2,3) r(2,3) Cons by auto
      ultimately show ?thesis by blast
    qed
  qed
qed

lemma ex_greatest_prio: "qs \<noteq> [] \<Longrightarrow> \<exists>m \<in> set qs. \<forall>t \<in> set qs. prio t \<le> prio m"
  using Max_in [of "prio ` set qs"] Max_ge [of "prio ` set qs"] by fastforce

lemma reaches_head: "\<exists>n ys. (rot ^^ n) (pre @ e # post) = e # ys"
proof (induction "length pre" arbitrary: pre e post rule: less_induct)
  case less
  let ?xs = "pre @ e # post"
  show ?case
  proof (cases "pre = []")
    case True
    then show ?thesis by (intro exI [of _ 0]) simp
  next
    case False
    then obtain m where m: "m \<in> set pre" "\<forall>t \<in> set pre. prio t \<le> prio m" using ex_greatest_prio by blast
    then obtain p1 p2 where p: "pre = p1 @ m # p2" by (meson split_list)
    with less.hyps [of p1 m "p2 @ e # post"] obtain n ys where n: "(rot ^^ n) ?xs = m # ys" by auto
    from rots_track [of n pre e post] show ?thesis
    proof (elim disjE exE conjE)
      fix p q
      assume t: "(rot ^^ n) ?xs = p @ e # q" "length p \<le> length pre" "set p \<subseteq> set pre"
      show ?thesis
      proof (cases p)
        case Nil
        then show ?thesis using t(1) by auto
      next
        case (Cons h p')
        then have h: "h = m" using t(1) n by simp
        have "\<forall>t \<in> set p'. prio t \<le> prio m" using t(3) Cons m(2) by auto
        then obtain q' where r: "rot (m # p' @ e # q) = p' @ e # q'" using rot_step [of m p' e q] by blast
        have s: "(rot ^^ Suc n) ?xs = p' @ e # q'" using t(1) Cons h r by simp
        from less.hyps [of p' e q'] t(2) Cons obtain k zs where "(rot ^^ k) (p' @ e # q') = e # zs" by auto
        then have "(rot ^^ (k + Suc n)) ?xs = e # zs" using s by (simp only: funpow_add comp_apply)
        then show ?thesis by blast
      qed
    qed blast
  qed
qed

lemma reaches_head_again:
  assumes "e \<in> set qs"
  shows "\<exists>n ys. 0 < n \<and> (rot ^^ n) qs = e # ys"
proof -
  from assms have "e \<in> set (rot qs)" by simp
  then obtain pre post where "rot qs = pre @ e # post" by (meson split_list)
  with reaches_head [of pre e post] obtain n ys where "(rot ^^ n) (rot qs) = e # ys" by auto
  then have "(rot ^^ Suc n) qs = e # ys" by (simp add: funpow_swap1)
  then show ?thesis by blast
qed

section \<open>Dispatching\<close>

definition terminated :: "queueEntry \<Rightarrow> bool" where
  "terminated q \<longleftrightarrow> flag (thread_state (q_thread q)) THREAD_TERMINATE"

definition runnable :: "queueEntry \<Rightarrow> bool" where
  "runnable q \<longleftrightarrow> \<not> terminated q \<and> \<not> flag (thread_state (q_thread q)) THREAD_BLOCK_SLEEP \<and>
     \<not> flag (thread_state (q_thread q)) THREAD_SUSPENDED"

text \<open>The kernel with its queue rotated \<open>n\<close> times and the head running.\<close>

definition rotated :: "nat \<Rightarrow> 's kernel \<Rightarrow> 's kernel" where
  "rotated n st = st\<lparr>ready := (rot ^^ n) (ready st), currentTask := q_addr (hd ((rot ^^ n) (ready st)))\<rparr>"

lemma ready_rotated [simp]: "ready (rotated n st) = (rot ^^ n) (ready st)"
  by (simp add: rotated_def)

lemma rotated_rotated: "rotated m (rotated n st) = rotated (m + n) st"
  by (simp add: rotated_def funpow_add)

lemma dispatch_round_alive:
  assumes "ready st \<noteq> []" and "\<not> terminated (hd (rot (ready st)))"
  shows "dispatch_round st = Some (\<not> runnable (hd (rot (ready st))), rotated 1 st)"
proof -
  obtain q qs where q: "ready st = q # qs" using assms(1) by (cases "ready st") auto
  obtain h hs where h: "insert_prioritized q qs = h # hs" by (cases "insert_prioritized q qs") (use insert_prioritized_length [of q qs] in auto)
  then have "rot (ready st) = h # hs" by (simp add: q rot_def)
  then show ?thesis using assms(2) h
    by (auto simp: dispatch_round_def queue_remove_def q queue_insert_prioritized_queueEntry_def
        queue_get_def current_thread_def entry_at_def terminated_def runnable_def rotated_def Let_def)
qed

lemma none_terminated_hd:
  "ready st \<noteq> [] \<Longrightarrow> \<forall>q \<in> set (ready st). \<not> terminated q \<Longrightarrow> \<not> terminated (hd (rot (ready st)))"
  using hd_in_set [of "rot (ready st)"] rots_Nil [of 1 "ready st"] by auto

lemma dispatch_rotated:
  "\<lbrakk> \<forall>q \<in> set (ready st). \<not> terminated q; 0 < n; runnable (hd ((rot ^^ n) (ready st)));
     \<forall>i. 0 < i \<and> i < n \<longrightarrow> \<not> runnable (hd ((rot ^^ i) (ready st))); ready st \<noteq> [] \<rbrakk> \<Longrightarrow>
   scheduler_dispatch st = Some (rotated n st)"
proof (induction n arbitrary: st)
  case (Suc n)
  note d = dispatch_round_alive [OF Suc.prems(5) none_terminated_hd [OF Suc.prems(5,1)]]
  show ?case
  proof (cases n)
    case 0
    then have "runnable (hd (rot (ready st)))" using Suc.prems(3) by simp
    then show ?thesis using d 0 by (subst scheduler_dispatch.simps) simp
  next
    case (Suc m)
    have "\<not> runnable (hd (rot (ready st)))" using Suc.prems(4) Suc by (auto dest: spec [of _ 1])
    then have "scheduler_dispatch st = scheduler_dispatch (rotated 1 st)"
      using d by (subst scheduler_dispatch.simps) simp
    also have "\<dots> = Some (rotated n (rotated 1 st))"
    proof (rule Suc.IH)
      show "\<forall>q \<in> set (ready (rotated 1 st)). \<not> terminated q" using Suc.prems(1) by simp
      show "0 < n" using Suc by simp
      show "runnable (hd ((rot ^^ n) (ready (rotated 1 st))))"
        using Suc.prems(3) by (simp add: funpow_swap1)
      show "ready (rotated 1 st) \<noteq> []" using Suc.prems(5) rots_Nil [of 1 "ready st"] by simp
      show "\<forall>i. 0 < i \<and> i < n \<longrightarrow> \<not> runnable (hd ((rot ^^ i) (ready (rotated 1 st))))"
      proof (intro allI impI)
        fix i
        assume "0 < i \<and> i < n"
        then show "\<not> runnable (hd ((rot ^^ i) (ready (rotated 1 st))))"
          using Suc.prems(4) by (auto dest: spec [of _ "Suc i"] simp: funpow_swap1)
      qed
    qed
    also have "\<dots> = Some (rotated (Suc n) st)" by (simp add: rotated_rotated)
    finally show ?thesis .
  qed
qed simp

text \<open>The dispatch stops at the first rotation that brings a runnable thread to the head.\<close>

lemma dispatch_first:
  assumes "\<forall>q \<in> set (ready st). \<not> terminated q" and "0 < N" and "(rot ^^ N) (ready st) = e # ys" and "runnable e"
  shows "\<exists>n. 0 < n \<and> n \<le> N \<and> scheduler_dispatch st = Some (rotated n st) \<and>
    runnable (hd ((rot ^^ n) (ready st)))"
proof -
  let ?P = "\<lambda>n. 0 < n \<and> runnable (hd ((rot ^^ n) (ready st)))"
  define n where "n = (LEAST n. ?P n)"
  have N: "?P N" using assms by simp
  then have n: "?P n" unfolding n_def by (rule LeastI)
  have "n \<le> N" unfolding n_def using N by (rule Least_le)
  moreover have "\<forall>i. 0 < i \<and> i < n \<longrightarrow> \<not> runnable (hd ((rot ^^ i) (ready st)))"
    unfolding n_def using not_less_Least [of _ ?P] by blast
  moreover have "ready st \<noteq> []" using assms(3) rots_Nil [of N "ready st"] by auto
  ultimately show ?thesis using n dispatch_rotated [OF assms(1)] by blast
qed

lemma dispatch_runnable:
  assumes "\<forall>q \<in> set (ready st). \<not> terminated q" and "e \<in> set (ready st)" and "runnable e"
  shows "\<exists>n > 0. scheduler_dispatch st = Some (rotated n st) \<and> runnable (hd ((rot ^^ n) (ready st)))"
  using reaches_head_again [OF assms(2)] dispatch_first [OF assms(1) _ _ assms(3)] by blast

lemma dispatch_stuck:
  assumes "scheduler_dispatch st = Some st'"
  shows "(\<forall>q \<in> set (ready st). \<not> terminated q) \<longrightarrow> (\<exists>q \<in> set (ready st). runnable q)"
proof (rule scheduler_dispatch.raw_induct [OF _ assms], rule impI)
  fix f :: "'a kernel \<Rightarrow> 'a kernel option" and st st' :: "'a kernel"
  assume IH: "\<And>st st'. f st = Some st' \<Longrightarrow>
      (\<forall>q \<in> set (ready st). \<not> terminated q) \<longrightarrow> (\<exists>q \<in> set (ready st). runnable q)"
    and s: "dispatch_round st \<bind> (\<lambda>(again, st). if again then f st else Some st) = Some st'"
    and nt: "\<forall>q \<in> set (ready st). \<not> terminated q"
  from s have ne: "ready st \<noteq> []" by (auto simp: dispatch_round_def queue_remove_def)
  let ?h = "hd (rot (ready st))"
  have h: "?h \<in> set (ready st)" using hd_in_set [of "rot (ready st)"] ne rots_Nil [of 1 "ready st"] by simp
  have d: "dispatch_round st = Some (\<not> runnable ?h, rotated 1 st)"
    by (rule dispatch_round_alive [OF ne none_terminated_hd [OF ne nt]])
  show "\<exists>q \<in> set (ready st). runnable q"
  proof (cases "runnable ?h")
    case True
    with h show ?thesis by blast
  next
    case False
    with s d have "f (rotated 1 st) = Some st'" by simp
    from IH [OF this] nt show ?thesis by simp
  qed
qed

section \<open>Ticks\<close>

primrec ticks :: "nat \<Rightarrow> 's kernel \<Rightarrow> 's kernel option" where
  "ticks 0 st = Some st"
| "ticks (Suc n) st = do { st \<leftarrow> scheduler_tick st; ticks n st }"

lemma tick_entry_simps [simp]:
  "q_addr (tick_entry q) = q_addr q" "prio (tick_entry q) = prio q" "terminated (tick_entry q) = terminated q"
proof -
  have "bit (4::u32) n \<longleftrightarrow> n = 2" for n using bit_exp_iff [of 2 n, where 'a = "32 word"] by auto
  then have "flag (x AND NOT THREAD_BLOCK_SLEEP) THREAD_TERMINATE = flag x THREAD_TERMINATE" for x
    using flag_bit [of _ 2, where 'a = 32] bit_2_iff [of 2, where 'a = "32 word"]
    by (simp add: bit_simps)
  then show "terminated (tick_entry q) = terminated q"
    by (simp add: tick_entry_def tick_thread_def terminated_def thread_remove_state_def Let_def)
qed (simp_all add: tick_entry_def tick_thread_def thread_remove_state_def Let_def)

lemma runnable_tick: "runnable q \<Longrightarrow> runnable (tick_entry q)"
proof -
  assume r: "runnable q"
  have "\<not> flag (x AND NOT THREAD_BLOCK_SLEEP) m" if "\<not> flag x m" for x m :: u32
    using that by (auto simp: flag_def bit_eq_iff bit_simps)
  then show ?thesis using r tick_entry_simps(3) [of q]
    by (simp add: runnable_def) (simp add: tick_entry_def tick_thread_def thread_remove_state_def Let_def)
qed

lemma insert_prioritized_map:
  "(\<And>q. prio (g q) = prio q) \<Longrightarrow> insert_prioritized (g q) (map g qs) = map g (insert_prioritized q qs)"
  by (induction q qs rule: insert_prioritized.induct) auto

lemma rot_map: "(\<And>q. prio (g q) = prio q) \<Longrightarrow> rot (map g qs) = map g (rot qs)"
  by (simp add: rot_def insert_prioritized_map split: list.split)

lemma rots_map: "(\<And>q. prio (g q) = prio q) \<Longrightarrow> (rot ^^ n) (map g qs) = map g ((rot ^^ n) qs)"
  by (induction n) (simp_all add: rot_map)

lemma ticks_map:
  "\<lbrakk> \<forall>q \<in> set (ready st). \<not> terminated q; ticks n st = Some st' \<rbrakk> \<Longrightarrow>
     mset (ready st') = image_mset (tick_entry ^^ n) (mset (ready st))"
proof (induction n arbitrary: st)
  case (Suc n)
  from Suc.prems(2) obtain s1 where
    s1: "scheduler_dispatch st = Some s1" "ticks n (s1\<lparr>ready := map tick_entry (ready s1)\<rparr>) = Some st'"
    by (auto simp: scheduler_tick_def c_simps)
  from dispatch_stuck [OF s1(1)] Suc.prems(1) obtain e where "e \<in> set (ready st)" "runnable e" by blast
  from dispatch_runnable [OF Suc.prems(1) this] s1(1) obtain k where k: "s1 = rotated k st" by auto
  let ?s = "s1\<lparr>ready := map tick_entry (ready s1)\<rparr>"
  have "\<forall>q \<in> set (ready ?s). \<not> terminated q" using Suc.prems(1) k by simp
  from Suc.IH [OF this s1(2)] have
    "mset (ready st') = image_mset (tick_entry ^^ n) (image_mset tick_entry (mset (ready st)))"
    using k by simp
  then show ?case by (simp add: image_mset.compositionality funpow_Suc_right comp_def del: funpow.simps)
qed simp

lemma ticks_reach:
  "\<lbrakk> \<forall>q \<in> set (ready st). \<not> terminated q; 0 < N; (rot ^^ N) (ready st) = e # ys; runnable e \<rbrakk> \<Longrightarrow>
     \<exists>n > 0. \<exists>st' e'. ticks n st = Some st' \<and> ready st' \<noteq> [] \<and> hd (ready st') = e' \<and>
       q_addr e' = q_addr e \<and> runnable e' \<and> currentTask st' = q_addr e"
proof (induction N arbitrary: st e ys rule: less_induct)
  case (less N)
  from dispatch_first [OF less.prems(1-4)] obtain n where
    n: "0 < n" "n \<le> N" "scheduler_dispatch st = Some (rotated n st)" by blast
  let ?s = "(rotated n st)\<lparr>ready := map tick_entry ((rot ^^ n) (ready st))\<rparr>"
  have t: "scheduler_tick st = Some ?s" using n(3) by (simp add: scheduler_tick_def)
  show ?case
  proof (cases "n = N")
    case True
    then have "ready ?s = tick_entry e # map tick_entry ys" "currentTask ?s = q_addr e"
      using less.prems(3) by (simp_all add: rotated_def)
    then show ?thesis using t runnable_tick [OF less.prems(4)] by (intro exI [of _ 1]) simp
  next
    case False
    then have m: "N - n < N" "0 < N - n" using n by simp_all
    have "(rot ^^ (N - n)) (ready ?s) = map tick_entry ((rot ^^ (N - n)) ((rot ^^ n) (ready st)))"
      by (simp add: rots_map)
    also have "(rot ^^ (N - n)) ((rot ^^ n) (ready st)) = (rot ^^ N) (ready st)"
      using n(2) by (metis funpow_add comp_apply le_add_diff_inverse2)
    finally have r: "(rot ^^ (N - n)) (ready ?s) = tick_entry e # map tick_entry ys"
      using less.prems(3) by simp
    have "\<forall>q \<in> set (ready ?s). \<not> terminated q" using less.prems(1) by simp
    from less.IH [OF m(1) this m(2) r runnable_tick [OF less.prems(4)]] obtain k st' e' where
      k: "ticks k ?s = Some st'" "ready st' \<noteq> []" "hd (ready st') = e'" "q_addr e' = q_addr e"
      "runnable e'" "currentTask st' = q_addr e" by auto
    have "ticks (Suc k) st = Some st'" using t k(1) by simp
    then show ?thesis using k by (intro exI [of _ "Suc k"]) auto
  qed
qed

lemma sleep_bit: "flag (thread_state t) THREAD_BLOCK_SLEEP \<longleftrightarrow> bit (thread_state t) 1"
  using flag_bit [of "thread_state t" 1] by simp

text \<open>A sleeping thread after \<open>n\<close> ticks.\<close>

lemma tick_thread_funpow:
  "(tick_thread ^^ n) t =
     (if sleepTimeDelta t = 0 then t
      else if n < unat (sleepTimeDelta t) then t\<lparr>sleepTimeDelta := sleepTimeDelta t - of_nat n\<rparr>
      else (thread_remove_state t THREAD_BLOCK_SLEEP)\<lparr>sleepTimeDelta := 0\<rparr>)"
proof (induction n)
  case 0
  have "sleepTimeDelta t \<noteq> 0 \<Longrightarrow> 0 < unat (sleepTimeDelta t)" by (simp add: unat_gt_0)
  then show ?case by simp
next
  case (Suc n)
  let ?d = "sleepTimeDelta t"
  consider "?d = 0" | "?d \<noteq> 0" "Suc n < unat ?d" | "?d \<noteq> 0" "Suc n = unat ?d" | "?d \<noteq> 0" "unat ?d \<le> n"
    by linarith
  then show ?case
  proof cases
    case 1
    then show ?thesis using Suc by (simp add: tick_thread_def)
  next
    case 2
    then have "n mod 2 ^ 32 = n" using unat_u32 [of ?d] by (intro mod_less) linarith
    then have s: "unat (?d - of_nat n) = unat ?d - n"
      using 2 by (subst unat_sub) (simp_all add: word_le_nat_alt unat_of_nat)
    have "?d - of_nat n \<noteq> 0" "?d - of_nat n - 1 \<noteq> 0"
    proof -
      show "?d - of_nat n \<noteq> 0" using s 2 by (metis diff_is_0_eq leD unat_0 Suc_lessD)
      have "unat (?d - of_nat n) \<noteq> 1" using s 2 by simp
      then show "?d - of_nat n - 1 \<noteq> 0" by (metis eq_iff_diff_eq_0 unat_1)
    qed
    then show ?thesis using Suc 2 by (simp add: tick_thread_def word_gt_0 algebra_simps)
  next
    case 3
    moreover have "of_nat (unat ?d) = ?d" by simp
    ultimately have "of_nat (Suc n) = ?d" by simp
    then have "?d - of_nat n = 1" by (metis add_diff_cancel_right' of_nat_Suc)
    moreover have "n < unat ?d" "\<not> Suc n < unat ?d" using 3 by linarith+
    ultimately have f: "(tick_thread ^^ n) t = t\<lparr>sleepTimeDelta := 1\<rparr>" using Suc 3(1) by simp
    have "(tick_thread ^^ Suc n) t = tick_thread (t\<lparr>sleepTimeDelta := 1\<rparr>)" using f by simp
    also have "\<dots> = (thread_remove_state t THREAD_BLOCK_SLEEP)\<lparr>sleepTimeDelta := 0\<rparr>"
      by (simp add: tick_thread_def thread_remove_state_def)
    finally show ?thesis using 3(1) \<open>\<not> Suc n < unat ?d\<close> by (simp only: if_False)
  next
    case 4
    then show ?thesis using Suc by (simp add: tick_thread_def thread_remove_state_def)
  qed
qed

lemma tick_entry_funpow: "(tick_entry ^^ n) q = q\<lparr>q_thread := (tick_thread ^^ n) (q_thread q)\<rparr>"
  by (induction n) (simp_all add: tick_entry_def)

section \<open>Properties\<close>

definition sample_thread :: "int \<Rightarrow> u32 \<Rightarrow> u32 \<Rightarrow> thread" where
  "sample_thread i pr s = \<lparr>ESP = 0, SS = 0x10, kernelESP = 0xE0001000, kernelSS = 0, parent = 0xC0300104,
     priority = pr, thread_state = s, sleepTimeDelta = 0, initialStack = 0xE0001000, tid = i, isMain = True\<rparr>"

definition sample_entry :: "int \<Rightarrow> u32 \<Rightarrow> u32 \<Rightarrow> queueEntry" where
  "sample_entry i pr s = \<lparr>q_addr = 0xC0300000 + 64 * of_int i, q_thread = sample_thread i pr s\<rparr>"

definition sample_kernel :: "nat kernel" where
  "sample_kernel = \<lparr>vm = vmm_sample, kh = kheap_start (\<lambda>a. 0), procs = (\<lambda>a. None), processList = [],
     ready = [sample_entry 1 3 1, sample_entry 2 1 9, sample_entry 3 1 1], currentTask = 0xC0300040,
     files = sample_vfs, wsys = winsys_boot\<rparr>"

lemma sample_kernel_alive: "\<forall>q \<in> set (ready sample_kernel). \<not> terminated q"
  by (simp add: sample_kernel_def sample_entry_def sample_thread_def terminated_def flag_def)

lemma sample_kernel_runnable: "runnable (sample_entry 3 1 1)" "runnable (sample_entry 1 3 1)"
  by (simp_all add: sample_entry_def sample_thread_def terminated_def runnable_def flag_def)

lemma sample_kernel_ready: "ready sample_kernel = [sample_entry 1 3 1, sample_entry 2 1 9, sample_entry 3 1 1]"
  by (simp add: sample_kernel_def)

text \<open>
  C10: with no terminated thread in the queue, the dispatch loop returns exactly when some thread
  can run; it then runs such a thread, which is at the head of the queue, and has only reordered
  the queue.  When every thread sleeps or is suspended the loop never returns, and as it runs
  inside the timer interrupt no tick can wake anyone.
\<close>

theorem dispatch_returns_iff:
  assumes "\<forall>q \<in> set (ready st). \<not> terminated q"
  shows "(scheduler_dispatch st \<noteq> None \<longleftrightarrow> (\<exists>q \<in> set (ready st). runnable q)) \<and>
    (\<forall>st'. scheduler_dispatch st = Some st' \<longrightarrow>
       (\<exists>q qs. ready st' = q # qs \<and> runnable q \<and> st' = st\<lparr>ready := q # qs, currentTask := q_addr q\<rparr> \<and>
          mset (ready st') = mset (ready st)))"
proof (intro conjI allI impI)
  show "scheduler_dispatch st \<noteq> None \<longleftrightarrow> (\<exists>q \<in> set (ready st). runnable q)"
    using dispatch_stuck dispatch_runnable [OF assms] assms by (metis not_None_eq)
next
  fix st'
  assume s: "scheduler_dispatch st = Some st'"
  with dispatch_stuck assms obtain e where "e \<in> set (ready st)" "runnable e" by blast
  from dispatch_runnable [OF assms this] s obtain n where
    n: "st' = rotated n st" "runnable (hd ((rot ^^ n) (ready st)))" by auto
  have "ready st \<noteq> []" using \<open>e \<in> set (ready st)\<close> by auto
  then obtain q qs where q: "(rot ^^ n) (ready st) = q # qs"
    using rots_Nil [of n "ready st"] by (cases "(rot ^^ n) (ready st)") auto
  have "mset (q # qs) = mset (ready st)" using rots_mset [of n "ready st"] unfolding q .
  with n q show "\<exists>q qs. ready st' = q # qs \<and> runnable q \<and>
      st' = st\<lparr>ready := q # qs, currentTask := q_addr q\<rparr> \<and> mset (ready st') = mset (ready st)"
    by (simp add: rotated_def)
qed

theorem dispatch_returns_iff_witness: "scheduler_dispatch sample_kernel \<noteq> None"
  using dispatch_returns_iff [OF sample_kernel_alive] sample_kernel_runnable
  by (simp add: sample_kernel_ready)

text \<open>
  C9: no thread starves: while no thread terminates, every thread that can run is the running
  thread after finitely many ticks of the timer, whatever the priorities of the others are,
  although a thread is put back in front of all threads behind the next one of lower priority.
\<close>

theorem no_starvation:
  assumes "\<forall>q \<in> set (ready st). \<not> terminated q" and "e \<in> set (ready st)" and "runnable e"
  shows "\<exists>n > 0. \<exists>st' e'. ticks n st = Some st' \<and> ready st' \<noteq> [] \<and> hd (ready st') = e' \<and>
    q_addr e' = q_addr e \<and> runnable e' \<and> currentTask st' = q_addr e"
  using reaches_head_again [OF assms(2)] ticks_reach [OF assms(1) _ _ assms(3)] by blast

theorem no_starvation_witness: "\<exists>n > 0. \<exists>st'. ticks n sample_kernel = Some st' \<and> currentTask st' = 0xC0300040"
  using no_starvation [OF sample_kernel_alive _ sample_kernel_runnable(2)]
  by (auto simp: sample_kernel_ready sample_entry_def)

text \<open>
  C11: a thread that sleeps with a delta of \<open>d\<close> ticks sleeps for exactly \<open>d\<close> ticks: it keeps its
  sleep flag for fewer ticks and has lost it, with every other flag as it was, from the \<open>d\<close>th
  tick on.  A delta of 0 is never woken, and \<^verbatim>\<open>thread_sleep\<close> of less than 10 ms sets just that.
\<close>

theorem sleep_wakes_on_time:
  assumes "\<forall>q \<in> set (ready st). \<not> terminated q" and "q \<in> set (ready st)" and "ticks n st = Some st'"
  shows "\<exists>q' \<in> set (ready st'). q_addr q' = q_addr q \<and>
    thread_state (q_thread q') =
      (if sleepTimeDelta (q_thread q) = 0 \<or> n < unat (sleepTimeDelta (q_thread q))
       then thread_state (q_thread q) else thread_state (q_thread q) AND NOT THREAD_BLOCK_SLEEP) \<and>
    (\<forall>ms t. ms < 10 \<longrightarrow> sleepTimeDelta (sleep_thread ms t) = 0)"
proof -
  have "(tick_entry ^^ n) q \<in># image_mset (tick_entry ^^ n) (mset (ready st))" using assms(2) by simp
  then have "(tick_entry ^^ n) q \<in> set (ready st')" using ticks_map [OF assms(1,3)] by (metis set_mset_mset)
  moreover have "q_addr ((tick_entry ^^ n) q) = q_addr q" by (simp add: tick_entry_funpow)
  moreover have "thread_state (q_thread ((tick_entry ^^ n) q)) =
      (if sleepTimeDelta (q_thread q) = 0 \<or> n < unat (sleepTimeDelta (q_thread q))
       then thread_state (q_thread q) else thread_state (q_thread q) AND NOT THREAD_BLOCK_SLEEP)"
    unfolding tick_entry_funpow tick_thread_funpow by (simp add: thread_remove_state_def)
  moreover have "ms < 10 \<Longrightarrow> sleepTimeDelta (sleep_thread ms t) = 0" for ms t
    by (simp add: sleep_thread_def div_word_less)
  ultimately show ?thesis by blast
qed

definition sleeping_entry :: queueEntry where
  "sleeping_entry = \<lparr>q_addr = 0xC0300100, q_thread = (sample_thread 5 2 3)\<lparr>sleepTimeDelta := 1\<rparr>\<rparr>"

theorem sleep_wakes_on_time_witness:
  "\<exists>st'. ticks 1 (sample_kernel\<lparr>ready := [sleeping_entry, sample_entry 1 3 1]\<rparr>) = Some st' \<and>
    (\<exists>q' \<in> set (ready st'). q_addr q' = 0xC0300100 \<and> thread_state (q_thread q') = 1)"
proof -
  let ?st = "sample_kernel\<lparr>ready := [sleeping_entry, sample_entry 1 3 1]\<rparr>"
  have a: "\<forall>q \<in> set (ready ?st). \<not> terminated q"
    by (simp add: sleeping_entry_def sample_entry_def sample_thread_def terminated_def flag_def)
  moreover have "sample_entry 1 3 1 \<in> set (ready ?st)" by simp
  ultimately have "scheduler_dispatch ?st \<noteq> None"
    using dispatch_runnable [OF a] sample_kernel_runnable(2) by blast
  then obtain st' where s: "ticks 1 ?st = Some st'" by (auto simp: scheduler_tick_def)
  have "sleeping_entry \<in> set (ready ?st)" by simp
  from sleep_wakes_on_time [OF a this s] s show ?thesis
    by (auto simp: sleeping_entry_def sample_thread_def)
qed

text \<open>
  Despite its name, \<^verbatim>\<open>queue_insert_prioritized\<close> does not keep the queue sorted by priority.
\<close>

lemma insert_prioritized_unsorted:
  "map prio (insert_prioritized (sample_entry 4 1 1) [sample_entry 1 1 1, sample_entry 2 2 1, sample_entry 3 3 1]) =
     [1, 2, 1, 3]"
  by (simp add: sample_entry_def sample_thread_def word_le_nat_alt)

text \<open>\<^verbatim>\<open>queue_delete_last\<close> of a queue with one entry goes on after emptying it and faults.\<close>

lemma queue_delete_last_single: "ready st = [q] \<Longrightarrow> queue_delete_last st = None"
  by (simp add: queue_delete_last_def)

end
