(* ===== verification/Proc.thy ===== *)
theory Proc
  imports Sched
begin

text \<open>
  The process manager, \<^verbatim>\<open>kernel/process.c\<close>: the process list, file descriptors, the break of a
  process, the creation of kernel processes and the termination of processes.

  A pointer to a process is its address; 0 is the null pointer.  The file-system drivers are
  the argument \<open>drv\<close> of the operations that reach them, and \<open>hook\<close> is what a call through a
  process's \<^verbatim>\<open>on_terminate\<close> pointer does.  Terminal output is not modelled.
\<close>

section \<open>The process list\<close>

fun ids_of :: "(u32 \<Rightarrow> process option) \<Rightarrow> u32 list \<Rightarrow> int list option" where
  "ids_of ps [] = Some []"
| "ids_of ps (a # as) = do { p \<leftarrow> ps a; is \<leftarrow> ids_of ps as; Some (p_id p # is) }"

fun find_process :: "(u32 \<Rightarrow> process option) \<Rightarrow> int \<Rightarrow> u32 list \<Rightarrow> u32 option" where
  "find_process ps i [] = Some 0"
| "find_process ps i (a # as) = do {
     p \<leftarrow> ps a;
     if p_id p = i then Some a else find_process ps i as }"

definition getProcessByID :: "'s kernel \<Rightarrow> int \<Rightarrow> u32 option" where
  "getProcessByID st i = find_process (procs st) i (processList st)"

definition getFreeID :: "'s kernel \<Rightarrow> int option" where
  "getFreeID st = do {
     is \<leftarrow> ids_of (procs st) (processList st);
     Some (fresh_id (\<lambda>i. i) 1 is) }"

fun unlink_process :: "(u32 \<Rightarrow> process option) \<Rightarrow> int \<Rightarrow> u32 list \<Rightarrow> u32 list option" where
  "unlink_process ps i [] = Some []"
| "unlink_process ps i (a # as) = do {
     p \<leftarrow> ps a;
     if p_id p = i then Some as
     else do { as \<leftarrow> unlink_process ps i as; Some (a # as) } }"

text \<open>On the empty list the code reads \<^verbatim>\<open>next\<close> through the null pointer.\<close>

definition removeProcessFromList :: "'s kernel \<Rightarrow> int \<Rightarrow> 's kernel option" where
  "removeProcessFromList st i =
     (case processList st of
        [] \<Rightarrow> None
      | [a] \<Rightarrow> do {
          p \<leftarrow> procs st a;
          Some (if p_id p = i then st\<lparr>processList := []\<rparr> else st) }
      | as \<Rightarrow> do {
          as \<leftarrow> unlink_process (procs st) i as;
          Some (st\<lparr>processList := as\<rparr>) })"

definition insert_process :: "'s kernel \<Rightarrow> u32 \<Rightarrow> 's kernel" where
  "insert_process st a = st\<lparr>processList := processList st @ [a]\<rparr>"

definition insert_thread_to_proc :: "'s kernel \<Rightarrow> u32 \<Rightarrow> threadNode \<Rightarrow> 's kernel option" where
  "insert_thread_to_proc st proc t = proc_update st proc
     (\<lambda>p. p\<lparr>threadList := threadList p @ [t], livingThreads := livingThreads p + 1\<rparr>)"

definition does_process_own_term :: "process \<Rightarrow> bool" where
  "does_process_own_term p \<longleftrightarrow> term_win p \<noteq> 0 \<and> term_inp_info p \<noteq> 0"

section \<open>File descriptors\<close>

abbreviation sizeof_FILE_DESC :: u32 where "sizeof_FILE_DESC \<equiv> 80"

definition get_file_by_fd :: "'s kernel \<Rightarrow> u32 \<Rightarrow> u32 \<Rightarrow> file_desc option option" where
  "get_file_by_fd st proc n =
     (if proc = 0 then Some None
      else do { p \<leftarrow> procs st proc; Some (find (\<lambda>f. fd f = n) (file_descs p)) })"

fun fresh_fd :: "u32 \<Rightarrow> file_desc list \<Rightarrow> u32" where
  "fresh_fd c [] = c"
| "fresh_fd c (f # fs) = fresh_fd (if fd f \<ge> c then fd f + 1 else c) fs"

definition append_fd_to_process :: "'s kernel \<Rightarrow> u32 \<Rightarrow> fobj \<Rightarrow> (u32 \<times> 's kernel) option" where
  "append_fd_to_process st proc f =
     (if proc = 0 then Some (0, st)
      else do {
        (a, h) \<leftarrow> kcalloc (kh st) sizeof_FILE_DESC;
        let st = st\<lparr>kh := h\<rparr>;
        p \<leftarrow> procs st proc;
        let n = fresh_fd 1 (file_descs p);
        st \<leftarrow> proc_update st proc (\<lambda>p. p\<lparr>file_descs := file_descs p @ [\<lparr>fd_addr = a, fd_file = f, fd = n\<rparr>]\<rparr>);
        Some (n, st) })"

text \<open>Closing one descriptor: the driver's close, then the memory.\<close>

definition release_fd :: "(u32 \<Rightarrow> 's driver) \<Rightarrow> 's kernel \<Rightarrow> file_desc \<Rightarrow> 's kernel option" where
  "release_fd drv st f = do {
     (g, v) \<leftarrow> volCloseFile drv (files st) (Some (fd_file f));
     k_free (st\<lparr>files := v\<rparr>) (fd_addr f) }"

text \<open>
  The loop looks at \<^verbatim>\<open>tmp->next\<close> only: it never finds the first of several descriptors.
\<close>

fun close_later :: "(u32 \<Rightarrow> 's driver) \<Rightarrow> 's kernel \<Rightarrow> u32 \<Rightarrow> file_desc list \<Rightarrow> (file_desc list \<times> 's kernel) option" where
  "close_later drv st n [] = Some ([], st)"
| "close_later drv st n (f # fs) =
     (if fd f = n then do { st \<leftarrow> release_fd drv st f; Some (fs, st) }
      else do { (fs, st) \<leftarrow> close_later drv st n fs; Some (f # fs, st) })"

definition close_fd :: "(u32 \<Rightarrow> 's driver) \<Rightarrow> 's kernel \<Rightarrow> u32 \<Rightarrow> u32 \<Rightarrow> 's kernel option" where
  "close_fd drv st proc n =
     (if proc = 0 then Some st
      else do {
        p \<leftarrow> procs st proc;
        (case file_descs p of
           [] \<Rightarrow> None
         | [f] \<Rightarrow> if fd f = n then do {
                   st \<leftarrow> release_fd drv st f;
                   proc_update st proc (\<lambda>p. p\<lparr>file_descs := []\<rparr>) }
                 else Some st
         | f # fs \<Rightarrow> do {
             (fs, st) \<leftarrow> close_later drv st n fs;
             proc_update st proc (\<lambda>p. p\<lparr>file_descs := f # fs\<rparr>) }) })"

definition fopen :: "(u32 \<Rightarrow> 's driver) \<Rightarrow> 's kernel \<Rightarrow> buffer option \<Rightarrow> (u32 \<times> 's kernel) option" where
  "fopen drv st path = do {
     proc \<leftarrow> get_running_process st;
     if proc = 0 then Some (0, st)
     else do {
       (f, v) \<leftarrow> volOpenFile drv (files st) path;
       let st = st\<lparr>files := v\<rparr>;
       if f_flags f \<noteq> FS_FILE then Some (0, st) else append_fd_to_process st proc f } }"

fun set_file :: "u32 \<Rightarrow> fobj \<Rightarrow> file_desc list \<Rightarrow> file_desc list" where
  "set_file n g [] = []"
| "set_file n g (f # fs) = (if fd f = n then f\<lparr>fd_file := g\<rparr> # fs else f # set_file n g fs)"

text \<open>The result: 1, or 0 at the end of the file; and the bytes that were read.\<close>

definition fread :: "(u32 \<Rightarrow> 's driver) \<Rightarrow> 's kernel \<Rightarrow> u32 \<Rightarrow> nat \<Rightarrow> (int \<times> u8 list \<times> 's kernel) option" where
  "fread drv st n Length = do {
     proc \<leftarrow> get_running_process st;
     f \<leftarrow> get_file_by_fd st proc n;
     case f of
       None \<Rightarrow> Some (0, [], st)
     | Some f \<Rightarrow> do {
         (b, g, v) \<leftarrow> volReadFile drv (files st) (Some (fd_file f)) Length;
         case g of
           None \<Rightarrow> None
         | Some g \<Rightarrow> do {
             st \<leftarrow> proc_update (st\<lparr>files := v\<rparr>) proc (\<lambda>p. p\<lparr>file_descs := set_file n g (file_descs p)\<rparr>);
             Some (if eof g \<noteq> 0 then 0 else 1, b, st) } } }"

definition fwrite :: "(u32 \<Rightarrow> 's driver) \<Rightarrow> 's kernel \<Rightarrow> u32 \<Rightarrow> u8 list \<Rightarrow> nat \<Rightarrow> 's kernel option" where
  "fwrite drv st n Buffer Length = do {
     proc \<leftarrow> get_running_process st;
     f \<leftarrow> get_file_by_fd st proc n;
     (g, v) \<leftarrow> volWriteFile drv (files st) (map_option fd_file f) Buffer Length;
     case g of
       None \<Rightarrow> Some (st\<lparr>files := v\<rparr>)
     | Some g \<Rightarrow> proc_update (st\<lparr>files := v\<rparr>) proc (\<lambda>p. p\<lparr>file_descs := set_file n g (file_descs p)\<rparr>) }"

definition fclose :: "(u32 \<Rightarrow> 's driver) \<Rightarrow> 's kernel \<Rightarrow> u32 \<Rightarrow> 's kernel option" where
  "fclose drv st n = do { proc \<leftarrow> get_running_process st; close_fd drv st proc n }"

section \<open>The break\<close>

abbreviation SBRK_LIM :: u32 where "SBRK_LIM \<equiv> 0x40000000"

text \<open>The loop does not end when the break lies in the last page of the address space.\<close>

partial_function (option) map_up_to :: "vmm \<Rightarrow> u32 \<Rightarrow> u32 \<Rightarrow> u32 \<Rightarrow> vmm option" where
  "map_up_to v pdir page top_addr =
     (if page < top_addr then do {
        v \<leftarrow> vmmngr_alloc_virt v pdir page (I86_WRITABLE OR I86_USER) (I86_WRITABLE OR I86_USER);
        map_up_to v pdir (page + 4096) top_addr }
      else Some v)"

definition inc_proc_brk :: "'s kernel \<Rightarrow> u32 \<Rightarrow> (u32 \<times> 's kernel) option" where
  "inc_proc_brk st inc = do {
     proc \<leftarrow> get_running_process st;
     if proc = 0 then Some (0, st)
     else do {
       p \<leftarrow> procs st proc;
       if brk p = 0 then Some (0, st)
       else do {
         let pdir = vmmngr_get_directory (vm st);
         let old_brk = brk p;
         if old_brk + inc > imageBase p + imageSize p + SBRK_LIM then Some (0, st)
         else do {
           st \<leftarrow> proc_update st proc (\<lambda>p. p\<lparr>brk := old_brk + inc\<rparr>);
           if old_brk mod 4096 + inc \<ge> 4096 \<or> old_brk mod 4096 = 0 then do {
             v \<leftarrow> map_up_to (vm st) pdir (old_brk - old_brk mod 4096) (old_brk + inc);
             Some (old_brk, st\<lparr>vm := v\<rparr>) }
           else Some (old_brk, st) } } } }"

section \<open>Creating a kernel process\<close>

fun write_bytes :: "memory \<Rightarrow> u32 \<Rightarrow> u8 list \<Rightarrow> memory" where
  "write_bytes m a [] = m"
| "write_bytes m a (b # bs) = write_bytes (m(a := b)) (a + 1) bs"

definition zero_thread :: thread where
  "zero_thread = \<lparr>ESP = 0, SS = 0, kernelESP = 0, kernelSS = 0, parent = 0, priority = 0, thread_state = 0,
     sleepTimeDelta = 0, initialStack = 0, tid = 0, isMain = False\<rparr>"

definition zero_process :: process where
  "zero_process = \<lparr>pageDirectory = 0, p_id = 0, p_priority = 0, p_state = 0, imageBase = 0, imageSize = 0,
     brk = 0, file_descs = [], term_win = 0, term_inp_info = 0, threadList = [], livingThreads = 0,
     is_kernel = False, on_terminate = 0, p_name = 0\<rparr>"

definition k_calloc :: "'s kernel \<Rightarrow> u32 \<Rightarrow> (u32 \<times> 's kernel) option" where
  "k_calloc st sz = do {
     (p, h) \<leftarrow> kcalloc (kh st) sz;
     guard (p \<noteq> 0);
     Some (p, st\<lparr>kh := h\<rparr>) }"

text \<open>A copy of a string on the heap: \<^verbatim>\<open>kmalloc(strlen(s)+1)\<close> and \<^verbatim>\<open>strcpy\<close>.\<close>

definition k_strdup :: "'s kernel \<Rightarrow> u8 list \<Rightarrow> (u32 \<times> 's kernel) option" where
  "k_strdup st name = do {
     (a, st) \<leftarrow> k_alloc st (of_nat (length name + 1));
     Some (a, st\<lparr>kh := (kh st)\<lparr>heap_mem := write_bytes (heap_mem (kh st)) a (name @ [0])\<rparr>\<rparr>) }"

definition set_dir :: "'s kernel \<Rightarrow> u32 \<Rightarrow> 's kernel" where
  "set_dir st dir = st\<lparr>vm := snd (vmmngr_switch_pdirectory (vm st) dir)\<rparr>"

text \<open>The result is the identifier of the new process and the frame on its thread's stack.\<close>

definition createKernelProcess :: "'s kernel \<Rightarrow> u32 \<Rightarrow> u8 list \<Rightarrow> (int \<times> u32 list \<times> 's kernel) option" where
  "createKernelProcess st entry name = do {
     let prevDir = vmmngr_get_directory (vm st);
     let currTask = get_current_task st;
     (kp, st) \<leftarrow> k_calloc st sizeof_process;
     i \<leftarrow> getFreeID st;
     (dir, v) \<leftarrow> create_address_space (vm st);
     let st = st\<lparr>vm := v\<rparr>;
     (stack, st) \<leftarrow> (if currTask \<noteq> 0 then do {
         t \<leftarrow> current_thread st;
         let s = kernelESP t - 4096;
         v \<leftarrow> vmmngr_mmap_virt2virt (vm st) prevDir dir s s I86_WRITABLE I86_WRITABLE;
         Some (s, disable_scheduling (st\<lparr>vm := v\<rparr>)) }
       else Some (0, st));
     let st = set_dir st dir;
     (nm, st) \<leftarrow> k_strdup st name;
     let st = st\<lparr>procs := (procs st)(kp := Some (zero_process\<lparr>p_id := i, pageDirectory := dir,
                   p_priority := PRIORITY_HIGH, p_state := PROCESS_STATE_ACTIVE, p_name := nm, is_kernel := True\<rparr>))\<rparr>;
     let st = insert_process st kp;
     (ta, st) \<leftarrow> k_calloc st sizeof_thread;
     (esp, v) \<leftarrow> create_kernel_stack (vm st);
     (t, frame, st) \<leftarrow> thread_create (st\<lparr>vm := v\<rparr>) zero_thread entry esp True;
     let st = set_dir st prevDir;
     st \<leftarrow> (if currTask \<noteq> 0 then do {
         let st = enable_scheduling st;
         v \<leftarrow> vmmngr_unmap_virt (vm st) dir stack;
         Some (st\<lparr>vm := v\<rparr>) }
       else Some st);
     let t = t\<lparr>parent := kp, isMain := True, priority := PRIORITY_HIGH\<rparr>;
     st \<leftarrow> queue_insert st t;
     st \<leftarrow> insert_thread_to_proc st kp \<lparr>t_addr = ta, t_thread = t\<rparr>;
     Some (i, frame, st) }"

section \<open>Terminating processes\<close>

definition running_id :: "'s kernel \<Rightarrow> int option option" where
  "running_id st = do {
     r \<leftarrow> get_running_process st;
     if r = 0 then Some None else do { p \<leftarrow> procs st r; Some (Some (p_id p)) } }"

definition remove_windows :: "'s kernel \<Rightarrow> int \<Rightarrow> 's kernel option" where
  "remove_windows st pid = do {
     r \<leftarrow> running_id st;
     w \<leftarrow> winsys_remove_windows_by_pid (wsys st) r pid;
     Some (st\<lparr>wsys := w\<rparr>) }"

fun release_threads :: "'s kernel \<Rightarrow> threadNode list \<Rightarrow> 's kernel option" where
  "release_threads st [] = Some st"
| "release_threads st (t # ts) = do {
     st \<leftarrow> remove_by_tid st (tid (t_thread t));
     st \<leftarrow> k_free st (t_addr t);
     release_threads st ts }"

text \<open>Everything but the call of \<^verbatim>\<open>on_terminate\<close> before it and the task switch after it.\<close>

definition release_kernel_process :: "'s kernel \<Rightarrow> u32 \<Rightarrow> 's kernel option" where
  "release_kernel_process st proc = do {
     p \<leftarrow> procs st proc;
     st \<leftarrow> remove_windows st (p_id p);
     st \<leftarrow> removeProcessFromList st (p_id p);
     let st = disable_scheduling st;
     st \<leftarrow> release_threads st (threadList p);
     st \<leftarrow> k_free st (p_name p);
     st \<leftarrow> k_free st proc;
     Some (enable_scheduling (st\<lparr>procs := (procs st)(proc := None)\<rparr>)) }"

definition terminateKernelProcessById ::
  "(u32 \<Rightarrow> 's kernel \<Rightarrow> 's kernel option) \<Rightarrow> 's kernel \<Rightarrow> int \<Rightarrow> u32 \<Rightarrow> 's kernel option" where
  "terminateKernelProcessById hook st pid esp = do {
     proc \<leftarrow> getProcessByID st pid;
     if proc = 0 then Some st
     else do {
       p \<leftarrow> procs st proc;
       st \<leftarrow> (if on_terminate p \<noteq> 0 then hook (on_terminate p) st else Some st);
       st \<leftarrow> release_kernel_process st proc;
       schedule st esp } }"

text \<open>The loops that free a range of pages.\<close>

partial_function (option) free_up_to :: "vmm \<Rightarrow> u32 \<Rightarrow> u32 \<Rightarrow> u32 \<Rightarrow> vmm option" where
  "free_up_to v pdir virt top_addr =
     (if virt < top_addr then do {
        v \<leftarrow> vmmngr_free_virt v pdir virt;
        free_up_to v pdir (virt + 4096) top_addr }
      else Some v)"

fun release_fds :: "(u32 \<Rightarrow> 's driver) \<Rightarrow> 's kernel \<Rightarrow> file_desc list \<Rightarrow> 's kernel option" where
  "release_fds drv st [] = Some st"
| "release_fds drv st (f # fs) = do { st \<leftarrow> release_fd drv st f; release_fds drv st fs }"

fun release_user_threads :: "'s kernel \<Rightarrow> u32 \<Rightarrow> threadNode list \<Rightarrow> 's kernel option" where
  "release_user_threads st dir [] = Some st"
| "release_user_threads st dir (t # ts) = do {
     v \<leftarrow> vmmngr_free_virt (vm st) dir (initialStack (t_thread t) - 4096);
     st \<leftarrow> remove_by_tid (st\<lparr>vm := v\<rparr>) (tid (t_thread t));
     st \<leftarrow> k_free st (t_addr t);
     release_user_threads st dir ts }"

definition round_up_page :: "u32 \<Rightarrow> u32" where
  "round_up_page n = (if n mod 4096 \<noteq> 0 then n + (4096 - n mod 4096) else n)"

definition terminateProcessById :: "(u32 \<Rightarrow> 's driver) \<Rightarrow> 's kernel \<Rightarrow> int \<Rightarrow> u32 \<Rightarrow> 's kernel option" where
  "terminateProcessById drv st pid esp = do {
     proc \<leftarrow> getProcessByID st pid;
     if proc = 0 then Some st
     else do {
       p \<leftarrow> procs st proc;
       st \<leftarrow> remove_windows st (p_id p);
       st \<leftarrow> removeProcessFromList st (p_id p);
       let st = disable_scheduling st;
       let fileSize = round_up_page (imageSize p);
       v \<leftarrow> free_up_to (vm st) (pageDirectory p) (imageBase p) (imageBase p + fileSize);
       v \<leftarrow> free_up_to v (pageDirectory p) (imageBase p + fileSize) (imageBase p + fileSize + SBRK_LIM);
       st \<leftarrow> release_fds drv (st\<lparr>vm := v\<rparr>) (file_descs p);
       st \<leftarrow> release_user_threads st (pageDirectory p) (threadList p);
       schedule (enable_scheduling st) esp } }"

definition terminateProcess ::
  "(u32 \<Rightarrow> 's driver) \<Rightarrow> (u32 \<Rightarrow> 's kernel \<Rightarrow> 's kernel option) \<Rightarrow> 's kernel \<Rightarrow> u32 \<Rightarrow> 's kernel option" where
  "terminateProcess drv hook st esp = do {
     proc \<leftarrow> get_running_process st;
     if proc = 0 then Some st
     else do {
       p \<leftarrow> procs st proc;
       if p_id p = - 1 then Some st
       else if is_kernel p then terminateKernelProcessById hook st (p_id p) esp
       else terminateProcessById drv st (p_id p) esp } }"

section \<open>The process table\<close>

text \<open>
  What the creation functions do with a new process object: give it a free identifier and put
  it on the list.
\<close>

definition register_process :: "'s kernel \<Rightarrow> process \<Rightarrow> u32 \<Rightarrow> (int \<times> 's kernel) option" where
  "register_process st p a = do {
     i \<leftarrow> getFreeID st;
     Some (i, insert_process (st\<lparr>procs := (procs st)(a := Some (p\<lparr>p_id := i\<rparr>))\<rparr>) a) }"

definition proc_id :: "'s kernel \<Rightarrow> u32 \<Rightarrow> int" where
  "proc_id st a = (case procs st a of None \<Rightarrow> 0 | Some p \<Rightarrow> p_id p)"

definition process_entries :: "'s kernel \<Rightarrow> (int \<times> u32) list" where
  "process_entries st = map (\<lambda>a. (proc_id st a, a)) (processList st)"

definition processes_ok :: "'s kernel \<Rightarrow> bool" where
  "processes_ok st \<longleftrightarrow> (\<forall>a \<in> set (processList st). procs st a \<noteq> None) \<and>
     distinct (map (proc_id st) (processList st))"

lemma proc_id_list [simp]: "proc_id (st\<lparr>processList := as\<rparr>) = proc_id st"
  by (rule ext) (simp add: proc_id_def)

lemma ids_of_Some:
  "\<forall>a \<in> set as. procs st a \<noteq> None \<Longrightarrow> ids_of (procs st) as = Some (map (proc_id st) as)"
  by (induction as) (auto simp: proc_id_def)

lemma find_process_Some:
  "\<forall>a \<in> set as. procs st a \<noteq> None \<Longrightarrow>
     find_process (procs st) i as =
       Some (case map_of (map (\<lambda>a. (proc_id st a, a)) as) i of None \<Rightarrow> 0 | Some a \<Rightarrow> a)"
  by (induction as) (auto simp: proc_id_def)

lemma unlink_process_Some:
  "\<forall>a \<in> set as. procs st a \<noteq> None \<Longrightarrow> distinct (map (proc_id st) as) \<Longrightarrow>
     unlink_process (procs st) i as = Some (filter (\<lambda>a. proc_id st a \<noteq> i) as)"
proof (induction as)
  case (Cons a as)
  then obtain p where p: "procs st a = Some p" by auto
  show ?case
  proof (cases "p_id p = i")
    case True
    then have i: "proc_id st a = i" using p by (simp add: proc_id_def)
    have "proc_id st a \<notin> proc_id st ` set as" using Cons.prems(2) by simp
    then have "\<forall>b \<in> set as. proc_id st b \<noteq> i" using i by (metis imageI)
    then show ?thesis using p True i by simp
  next
    case False
    then show ?thesis using p Cons by (simp add: proc_id_def)
  qed
qed simp

lemma processes_okD: "processes_ok st \<Longrightarrow> \<forall>a \<in> set (processList st). procs st a \<noteq> None"
  by (simp add: processes_ok_def)

lemma remove_process_Some:
  assumes "processes_ok st" and "processList st \<noteq> []"
  shows "removeProcessFromList st i =
    Some (st\<lparr>processList := filter (\<lambda>a. proc_id st a \<noteq> i) (processList st)\<rparr>)"
proof -
  note ok = processes_okD [OF assms(1)]
  obtain a as where l: "processList st = a # as" using assms(2) by (cases "processList st") auto
  obtain p where p: "procs st a = Some p" using ok l by auto
  show ?thesis
  proof (cases as)
    case Nil
    have e: "st\<lparr>processList := [a]\<rparr> = st" using l Nil by simp
    show ?thesis using l Nil p e by (simp add: removeProcessFromList_def proc_id_def)
  next
    case (Cons b bs)
    have "distinct (map (proc_id st) (processList st))" using assms(1) by (simp add: processes_ok_def)
    from unlink_process_Some [OF ok this, of i] show ?thesis
      unfolding removeProcessFromList_def l Cons by (simp del: unlink_process.simps filter.simps)
  qed
qed

interpretation processes: registry process_entries processes_ok register_process
  removeProcessFromList getProcessByID
proof
  fix s :: "'s kernel" and a :: u32 and p
  assume ok: "processes_ok s" and a: "a \<noteq> 0" "a \<notin> snd ` set (process_entries s)"
  let ?ids = "map (proc_id s) (processList s)"
  let ?i = "fresh_id (\<lambda>i. i) 1 ?ids"
  let ?s = "insert_process (s\<lparr>procs := (procs s)(a := Some (p\<lparr>p_id := ?i\<rparr>))\<rparr>) a"
  have na: "a \<notin> set (processList s)" using a(2) by (auto simp: process_entries_def image_image)
  have f: "?i \<notin> set ?ids" using fresh_id_notin [of "\<lambda>i. i" 1 ?ids] by simp
  have r: "register_process s p a = Some (?i, ?s)"
    using ids_of_Some [OF processes_okD [OF ok]] by (simp add: register_process_def getFreeID_def)
  have new: "proc_id ?s a = ?i" by (simp add: proc_id_def insert_process_def)
  have old: "proc_id ?s b = proc_id s b" if "b \<in> set (processList s)" for b
    using that na by (auto simp: proc_id_def insert_process_def)
  have l: "processList ?s = processList s @ [a]" by (simp add: insert_process_def)
  have m: "map (proc_id ?s) (processList s) = ?ids" using old by simp
  have "distinct (?ids @ [?i])" using ok f by (simp add: processes_ok_def)
  then have "distinct (map (proc_id ?s) (processList ?s))" unfolding l by (simp only: map_append m new list.map)
  moreover have "\<forall>b \<in> set (processList ?s). procs ?s b \<noteq> None"
    using processes_okD [OF ok] by (simp add: insert_process_def)
  ultimately have "processes_ok ?s" by (simp only: processes_ok_def simp_thms)
  moreover have "process_entries ?s = process_entries s @ [(?i, a)]"
    unfolding process_entries_def l using old new by simp
  moreover have "?i \<notin> fst ` set (process_entries s)" using f by (simp add: process_entries_def image_image)
  ultimately show "\<exists>i s'. register_process s p a = Some (i, s') \<and> processes_ok s' \<and>
      process_entries s' = process_entries s @ [(i, a)] \<and> i \<notin> fst ` set (process_entries s)"
    using r by blast
next
  fix s :: "'s kernel" and i a
  assume ok: "processes_ok s" and e: "(i, a) \<in> set (process_entries s)"
  then have ne: "processList s \<noteq> []" by (auto simp: process_entries_def)
  let ?s = "s\<lparr>processList := filter (\<lambda>a. proc_id s a \<noteq> i) (processList s)\<rparr>"
  have "processes_ok ?s" using ok by (auto simp: processes_ok_def distinct_map_filter)
  moreover have "process_entries ?s = filter (\<lambda>e. fst e \<noteq> i) (process_entries s)"
    by (simp add: process_entries_def filter_map comp_def)
  ultimately show "\<exists>s'. removeProcessFromList s i = Some s' \<and> processes_ok s' \<and>
      process_entries s' = filter (\<lambda>e. fst e \<noteq> i) (process_entries s)"
    using remove_process_Some [OF ok ne] by blast
next
  fix s :: "'s kernel" and i
  assume "processes_ok s"
  then show "getProcessByID s i = Some (case map_of (process_entries s) i of None \<Rightarrow> 0 | Some a \<Rightarrow> a)"
    using find_process_Some [OF processes_okD] by (simp add: getProcessByID_def process_entries_def)
qed

section \<open>Properties\<close>

text \<open>
  The process list is a registry: a new process gets an identifier that no process has,
  from then on that identifier finds it and every other identifier finds what it found before,
  and removing it restores the list.
\<close>

theorem process_registry_roundtrip:
  assumes "processes_ok st" and "a \<noteq> 0" and "a \<notin> snd ` set (process_entries st)"
  shows "\<exists>i st' st''. register_process st p a = Some (i, st') \<and> getProcessByID st i = Some 0 \<and>
    (\<forall>j. getProcessByID st' j = (if j = i then Some a else getProcessByID st j)) \<and>
    removeProcessFromList st' i = Some st'' \<and> process_entries st'' = process_entries st"
proof -
  from processes.add_del [OF assms, where obj = p] obtain i s s' where
    a: "register_process st p a = Some (i, s)" "removeProcessFromList s i = Some s'"
       "process_entries s' = process_entries st" by blast
  moreover from processes.lookup_added [OF assms, where obj = p] a(1) have
    "getProcessByID st i = Some 0" "\<forall>j. getProcessByID s j = (if j = i then Some a else getProcessByID st j)"
    by auto
  ultimately show ?thesis by blast
qed

lemma sample_processes:
  "processes_ok sample_kernel" "process_entries sample_kernel = []"
  by (simp_all add: processes_ok_def process_entries_def sample_kernel_def)

theorem process_registry_roundtrip_witness:
  "\<exists>i st'. register_process sample_kernel zero_process 0xC0300104 = Some (i, st') \<and>
    getProcessByID st' i = Some 0xC0300104"
  using process_registry_roundtrip [OF sample_processes(1), of "0xC0300104" zero_process] sample_processes(2)
  by fastforce

lemma fresh_fd_ge: "(\<forall>f \<in> set fs. fd f < 0xFFFFFFFF) \<Longrightarrow> c \<le> fresh_fd c fs \<and> (\<forall>f \<in> set fs. fd f < fresh_fd c fs)"
proof (induction fs arbitrary: c)
  case (Cons f fs)
  let ?c = "if fd f \<ge> c then fd f + 1 else c"
  have "unat (fd f) < 4294967295" using Cons.prems by (simp add: word_less_nat_alt)
  then have "fd f < fd f + 1" by (simp add: word_less_nat_alt unat_word_ariths)
  then have "c \<le> ?c" "fd f < ?c" by auto
  with Cons.IH [of ?c] Cons.prems show ?case by fastforce
qed simp

text \<open>
  A file that is appended to a process's descriptors gets a descriptor that is not 0 and
  that no open file of the process has; it is found under that descriptor, and every other
  descriptor finds the file that it found before.
\<close>

theorem fd_append_finds:
  assumes "proc \<noteq> 0" and "procs st proc = Some p" and "\<forall>f \<in> set (file_descs p). fd f < 0xFFFFFFFF"
    and "append_fd_to_process st proc g = Some (n, st')"
  shows "n \<noteq> 0 \<and> n \<notin> fd ` set (file_descs p) \<and>
    (\<exists>d. get_file_by_fd st' proc n = Some (Some d) \<and> fd_file d = g) \<and>
    (\<forall>m. m \<noteq> n \<longrightarrow> get_file_by_fd st' proc m = get_file_by_fd st proc m)"
proof -
  from assms obtain a h where
    n: "n = fresh_fd 1 (file_descs p)" and
    s: "st' = st\<lparr>kh := h, procs := (procs st)(proc \<mapsto>
          p\<lparr>file_descs := file_descs p @ [\<lparr>fd_addr = a, fd_file = g, fd = n\<rparr>]\<rparr>)\<rparr>"
    by (auto simp: append_fd_to_process_def proc_update_def c_simps Let_def)
  from fresh_fd_ge [OF assms(3), of 1] have f: "1 \<le> n" "\<forall>f \<in> set (file_descs p). fd f < n" unfolding n by auto
  then have "n \<noteq> 0" by auto
  moreover have "find (\<lambda>f. fd f = n) (file_descs p) = None" using f(2) by (auto simp: find_None_iff)
  moreover have "find P (xs @ ys) = (case find P xs of None \<Rightarrow> find P ys | Some x \<Rightarrow> Some x)"
    for P and xs ys :: "file_desc list" by (induction xs) auto
  ultimately show ?thesis using f(2) assms(1,2)
    by (auto simp: s get_file_by_fd_def split: option.split)
qed

definition fd_process :: process where
  "fd_process = zero_process\<lparr>file_descs := [\<lparr>fd_addr = 0xC0300204, fd_file = invalid_file, fd = 1\<rparr>,
     \<lparr>fd_addr = 0xC0300304, fd_file = invalid_file, fd = 2\<rparr>]\<rparr>"

definition fd_kernel :: "nat kernel" where
  "fd_kernel = sample_kernel\<lparr>procs := [0xC0300104 \<mapsto> fd_process]\<rparr>"

lemma kheap_start_kcalloc:
  "kcalloc (kheap_start (\<lambda>a. 0)) 80 \<noteq> None"
proof -
  have r: "replicate 8192 (0 :: u32) = 0 # replicate 8191 0" by (simp flip: replicate_Suc)
  have s: "bm_first_free_s (0 # replicate 8191 0) 8192 11 = Some 0"
    unfolding bm_first_free_s_def by (subst first_free_s_loop.simps, simp, (subst scan_dword_s.simps, simp)+)
  have e: "(11 :: nat) = Suc (Suc (Suc (Suc (Suc (Suc (Suc (Suc (Suc (Suc (Suc 0))))))))))" by simp
  have "occupy_run (0 # xs) 0 0 11 = Some (2047 # xs, 11)" for xs
    unfolding e by (simp add: bm_set_def aget_def aset_def)
  then show ?thesis
    by (simp add: kcalloc_def kmalloc_def kmalloc_alloc_blocks_def alloc_mmap_first_free_s_def alloc_dwords_8192
        alloc_get_free_block_count_def alloc_max_blocks_def kheap_start_def r s Let_def)
qed
theorem fd_append_finds_witness:
  "\<exists>n st'. append_fd_to_process fd_kernel 0xC0300104 invalid_file = Some (n, st') \<and>
    n \<notin> {1, 2} \<and> get_file_by_fd st' 0xC0300104 1 = get_file_by_fd fd_kernel 0xC0300104 1"
proof -
  have k: "kh fd_kernel = kheap_start (\<lambda>a. 0)" and q: "procs fd_kernel 0xC0300104 = Some fd_process"
    by (simp_all add: fd_kernel_def sample_kernel_def)
  obtain a h where "kcalloc (kh fd_kernel) 80 = Some (a, h)"
    using kheap_start_kcalloc unfolding k by auto
  then obtain n st' where a: "append_fd_to_process fd_kernel 0xC0300104 invalid_file = Some (n, st')"
    using q by (simp add: append_fd_to_process_def proc_update_def Let_def)
  have "\<forall>f \<in> set (file_descs fd_process). fd f < 0xFFFFFFFF" by (simp add: fd_process_def zero_process_def)
  from fd_append_finds [OF _ q this a] have
    "n \<notin> fd ` set (file_descs fd_process)"
    "\<forall>m. m \<noteq> n \<longrightarrow> get_file_by_fd st' 0xC0300104 m = get_file_by_fd fd_kernel 0xC0300104 m" by auto
  moreover have "fd ` set (file_descs fd_process) = {1, 2}" by (simp add: fd_process_def)
  ultimately show ?thesis using a by (metis insertI1)
qed

text \<open>
  The first of several open files cannot be closed: \<^verbatim>\<open>close_fd\<close> of its descriptor changes
  nothing at all, so the file stays open and its memory allocated.
\<close>

theorem close_first_has_no_effect:
  assumes "procs st proc = Some p" and "file_descs p = f # g # fs" and "fd f = n"
    and "\<forall>d \<in> set (g # fs). fd d \<noteq> n"
  shows "close_fd drv st proc n = Some st"
proof -
  have l: "\<forall>d \<in> set ds. fd d \<noteq> n \<Longrightarrow> close_later drv s n ds = Some (ds, s)" for ds s
    by (induction ds) auto
  have "p\<lparr>file_descs := f # g # fs\<rparr> = p" using assms(2) by simp
  then have "st\<lparr>procs := (procs st)(proc \<mapsto> p\<lparr>file_descs := f # g # fs\<rparr>)\<rparr> = st"
    using assms(1) by (simp add: fun_upd_idem)
  then show ?thesis using assms l [of "g # fs"]
    by (simp add: close_fd_def proc_update_def del: close_later.simps)
qed

theorem close_first_has_no_effect_witness:
  "close_fd (\<lambda>a. sample_driver) fd_kernel 0xC0300104 1 = Some fd_kernel"
  by (rule close_first_has_no_effect [of _ _ fd_process])
    (auto simp: fd_kernel_def fd_process_def zero_process_def)

section \<open>The end of a kernel process\<close>

lemma update_tid_distinct:
  "distinct (map (\<lambda>q. tid (q_thread q)) qs) \<Longrightarrow>
     update_tid i f qs = map (\<lambda>q. if tid (q_thread q) = i then q\<lparr>q_thread := f (q_thread q)\<rparr> else q) qs"
proof (induction qs)
  case (Cons q qs)
  have "map (\<lambda>q. if tid (q_thread q) = i then q\<lparr>q_thread := f (q_thread q)\<rparr> else q) qs = qs"
    if "tid (q_thread q) = i"
  proof (rule map_idI)
    fix x assume "x \<in> set qs"
    then have "tid (q_thread x) \<in> (\<lambda>q. tid (q_thread q)) ` set qs" by blast
    then have "tid (q_thread x) \<noteq> i" using Cons.prems that by auto
    then show "(if tid (q_thread x) = i then x\<lparr>q_thread := f (q_thread x)\<rparr> else x) = x" by simp
  qed
  then show ?case using Cons by auto
qed simp

definition mark_terminated :: "int set \<Rightarrow> queueEntry \<Rightarrow> queueEntry" where
  "mark_terminated is q =
     (if tid (q_thread q) \<in> is then q\<lparr>q_thread := thread_set_state (q_thread q) THREAD_TERMINATE\<rparr> else q)"

lemma tid_mark [simp]: "tid (q_thread (mark_terminated is q)) = tid (q_thread q)"
  by (simp add: mark_terminated_def thread_set_state_def)

lemma parent_mark [simp]: "parent (q_thread (mark_terminated is q)) = parent (q_thread q)"
  by (simp add: mark_terminated_def thread_set_state_def)

lemma mark_mark: "mark_terminated is (mark_terminated js q) = mark_terminated (is \<union> js) q"
  by (cases "tid (q_thread q) \<in> is"; cases "tid (q_thread q) \<in> js")
    (simp_all add: mark_terminated_def thread_set_state_def or.assoc)

lemma terminated_mark: "tid (q_thread q) \<in> is \<Longrightarrow> terminated (mark_terminated is q)"
  by (simp add: mark_terminated_def thread_set_state_def terminated_def flag_or) (simp add: flag_def)

lemma remove_by_tid_marks:
  assumes "remove_by_tid st i = Some st'" and "distinct (map (\<lambda>q. tid (q_thread q)) (ready st))"
  shows "procs st' = procs st \<and> ready st' = map (mark_terminated {i}) (ready st)"
proof -
  have "update_tid i (\<lambda>t. thread_set_state t THREAD_TERMINATE) (ready st) = map (mark_terminated {i}) (ready st)"
    unfolding update_tid_distinct [OF assms(2)] by (simp add: mark_terminated_def)
  then show ?thesis using assms(1)
    by (auto simp: remove_by_tid_def thread_set_state_by_id_def unscheduled_def Let_def
        disable_scheduling_def enable_scheduling_def split: if_splits)
qed

lemma k_free_same: "k_free st a = Some st' \<Longrightarrow> procs st' = procs st \<and> ready st' = ready st"
  by (auto simp: k_free_def c_simps)

lemma release_threads_marks:
  "release_threads st ts = Some st' \<Longrightarrow> distinct (map (\<lambda>q. tid (q_thread q)) (ready st)) \<Longrightarrow>
     procs st' = procs st \<and>
     ready st' = map (mark_terminated ((\<lambda>t. tid (t_thread t)) ` set ts)) (ready st)"
proof (induction ts arbitrary: st)
  case Nil
  then show ?case by (simp add: mark_terminated_def)
next
  case (Cons t ts)
  from Cons.prems(1) obtain st1 st2 where
    s: "remove_by_tid st (tid (t_thread t)) = Some st1" "k_free st1 (t_addr t) = Some st2"
       "release_threads st2 ts = Some st'"
    by (auto simp: c_simps)
  note r = remove_by_tid_marks [OF s(1) Cons.prems(2)] and k = k_free_same [OF s(2)]
  have "distinct (map (\<lambda>q. tid (q_thread q)) (ready st2))"
    using Cons.prems(2) r k by (simp add: comp_def)
  from Cons.IH [OF s(3) this] show ?case using r k by (simp add: mark_mark)
qed

lemma dispatch_round_dangling:
  assumes "ready st \<noteq> []" and "terminated (hd (rot (ready st)))"
    and "procs st (parent (q_thread (hd (rot (ready st))))) = None"
  shows "dispatch_round st = None"
proof -
  obtain q qs where q: "ready st = q # qs" using assms(1) by (cases "ready st") auto
  obtain h hs where h: "insert_prioritized q qs = h # hs"
    by (cases "insert_prioritized q qs") (use insert_prioritized_length [of q qs] in auto)
  then have "rot (ready st) = h # hs" by (simp add: q rot_def)
  then show ?thesis using assms(2,3) h
    by (auto simp: dispatch_round_def queue_remove_def q queue_insert_prioritized_queueEntry_def
        queue_get_def current_thread_def entry_at_def terminated_def Let_def)
qed

text \<open>
  A kernel process that is terminated marks exactly its own threads for removal, but it frees
  its process object at once: the round of the dispatcher that brings one of these threads to the
  head of the queue reads the freed object.
\<close>

theorem kernel_termination_dangles:
  assumes "procs st proc = Some p" and "release_kernel_process st proc = Some st'"
    and "distinct (map (\<lambda>q. tid (q_thread q)) (ready st))"
  shows "ready st' = map (mark_terminated ((\<lambda>t. tid (t_thread t)) ` set (threadList p))) (ready st) \<and>
    (\<forall>q \<in> set (ready st). tid (q_thread q) \<in> (\<lambda>t. tid (t_thread t)) ` set (threadList p) \<and>
       parent (q_thread q) = proc \<longrightarrow> (\<exists>n. dispatch_round (rotated n st') = None))"
proof -
  let ?is = "(\<lambda>t. tid (t_thread t)) ` set (threadList p)"
  from assms(1,2) obtain st1 st2 st3 st4 st5 where
    s: "remove_windows st (p_id p) = Some st1" "removeProcessFromList st1 (p_id p) = Some st2"
       "release_threads (disable_scheduling st2) (threadList p) = Some st3"
       "k_free st3 (p_name p) = Some st4" "k_free st4 proc = Some st5"
       "st' = enable_scheduling (st5\<lparr>procs := (procs st5)(proc := None)\<rparr>)"
    by (auto simp: release_kernel_process_def c_simps Let_def)
  have "ready st1 = ready st" using s(1) by (auto simp: remove_windows_def c_simps)
  moreover have "ready st2 = ready st1" using s(2)
    by (auto simp: removeProcessFromList_def c_simps split: list.splits if_splits)
  ultimately have r: "ready (disable_scheduling st2) = ready st" by (simp add: disable_scheduling_def)
  have m: "ready st' = map (mark_terminated ?is) (ready st)"
    using release_threads_marks [OF s(3)] k_free_same [OF s(4)] k_free_same [OF s(5)] assms(3) r s(6)
    by (simp add: enable_scheduling_def)
  have n: "procs st' proc = None" by (simp add: s(6) enable_scheduling_def)
  have "\<exists>n. dispatch_round (rotated n st') = None"
    if q: "q \<in> set (ready st)" "tid (q_thread q) \<in> ?is" "parent (q_thread q) = proc" for q
  proof -
    let ?q = "mark_terminated ?is q"
    have "?q \<in> set (ready st')" using q(1) m by simp
    from reaches_head_again [OF this] obtain n ys where "0 < n" "(rot ^^ n) (ready st') = ?q # ys" by blast
    then obtain k where k: "rot ((rot ^^ k) (ready st')) = ?q # ys" by (cases n) auto
    have e: "ready (rotated k st') \<noteq> []" "procs (rotated k st') = procs st'"
      using \<open>?q \<in> set (ready st')\<close> by (auto simp: rotated_def)
    have "dispatch_round (rotated k st') = None"
      by (rule dispatch_round_dangling) (use e k n q terminated_mark [OF q(2)] in simp_all)
    then show ?thesis ..
  qed
  then show ?thesis using m by blast
qed

text \<open>A kernel process with one thread, which is the running one.\<close>

definition ending_process :: process where
  "ending_process = zero_process\<lparr>p_id := 1, is_kernel := True, livingThreads := 1,
     threadList := [\<lparr>t_addr = 0xC0300204, t_thread = sample_thread 1 3 1\<rparr>]\<rparr>"

definition ending_kernel :: "nat kernel" where
  "ending_kernel = sample_kernel\<lparr>procs := [0xC0300104 \<mapsto> ending_process], processList := [0xC0300104]\<rparr>"

lemma kfree_zero_tag: "load32 (heap_mem h) (a - 4) = 0 \<Longrightarrow> kfree h a = Some h"
  by (simp add: kfree_def kmalloc_free_blocks_def Let_def)

theorem kernel_termination_dangles_witness:
  "\<exists>st'. release_kernel_process ending_kernel 0xC0300104 = Some st' \<and>
    (\<exists>n. dispatch_round (rotated n st') = None)"
proof -
  have p: "procs ending_kernel 0xC0300104 = Some ending_process" by (simp add: ending_kernel_def)
  have w: "remove_windows ending_kernel 1 = Some ending_kernel"
    by (simp add: remove_windows_def running_id_def get_running_process_def current_thread_def entry_at_def
        winsys_remove_windows_by_pid_def winsys_boot_def ending_kernel_def sample_kernel_def sample_entry_def
        sample_thread_def)
  have l: "removeProcessFromList ending_kernel 1 = Some (ending_kernel\<lparr>processList := []\<rparr>)"
    by (simp add: removeProcessFromList_def ending_kernel_def ending_process_def)
  have f: "k_free st a = Some st" if "heap_mem (kh st) = (\<lambda>a. 0)" for st :: "nat kernel" and a
    using that kfree_zero_tag [of "kh st" a] by (simp add: k_free_def load32_def)
  have "release_kernel_process ending_kernel 0xC0300104 \<noteq> None"
    using w l by (simp add: release_kernel_process_def p ending_process_def zero_process_def f
        remove_by_tid_def thread_set_state_by_id_def unscheduled_def disable_scheduling_def
        ending_kernel_def sample_kernel_def kheap_start_def Let_def)
  then obtain st' where r: "release_kernel_process ending_kernel 0xC0300104 = Some st'" by auto
  have "distinct (map (\<lambda>q. tid (q_thread q)) (ready ending_kernel))"
    by (simp add: ending_kernel_def sample_kernel_def sample_entry_def sample_thread_def)
  from kernel_termination_dangles [OF p r this] have
    "\<forall>q \<in> set (ready ending_kernel). tid (q_thread q) = 1 \<and> parent (q_thread q) = 0xC0300104 \<longrightarrow>
       (\<exists>n. dispatch_round (rotated n st') = None)"
    by (simp add: ending_process_def sample_thread_def)
  then show ?thesis using r
    by (auto simp: ending_kernel_def sample_kernel_def sample_entry_def sample_thread_def)
qed

end
