(* ===== verification/Break.thy ===== *)
theory Break
  imports Proc
begin

text \<open>
  What moving the break of a process does to its address space: with enough free frames every
  page up to the new break is mapped afterwards.
\<close>

lemma mapped_same_page:
  assumes "v AND I86_FRAME = w AND I86_FRAME"
  shows "mapped st dir v = mapped st dir w"
proof -
  have "PAGE_DIRECTORY_INDEX v = PAGE_DIRECTORY_INDEX w" "PAGE_TABLE_INDEX v = PAGE_TABLE_INDEX w"
    using assms unfolding same_page by simp_all
  then show ?thesis by (simp add: mapped_def table_present_def pte_of_def table_of_def pde_addr_def pte_addr_def)
qed

text \<open>An address with a non-zero offset is mapped exactly when its translation is not 0.\<close>

lemma mapped_translate: "mapped st dir w \<longleftrightarrow> translate st dir ((w AND I86_FRAME) OR 1) \<noteq> 0"
proof -
  let ?v = "(w AND I86_FRAME) OR 1"
  have f: "?v AND I86_FRAME = w AND I86_FRAME"
    unfolding frame_mask by (rule bit_word_eqI) (auto simp: bit_simps)
  have o: "FRAME_OFFSET ?v = 1"
    unfolding FRAME_OFFSET_def mask12 frame_mask by (rule bit_word_eqI) (auto simp: bit_simps)
  have "aligned p \<Longrightarrow> p + 1 \<noteq> 0" for p :: u32
  proof
    assume "aligned p" and "p + 1 = 0"
    then have "p = - 1" by (simp add: eq_neg_iff_add_eq_0)
    then have "bit p 0" by simp
    with \<open>aligned p\<close> show False using aligned_bit [of p 0] by simp
  qed
  then show ?thesis using mapped_same_page [OF f]
    by (simp add: translate_def o pt_entry_pfn_def)
qed

lemma translate_mapped:
  assumes "\<forall>w. w AND I86_FRAME \<noteq> v AND I86_FRAME \<longrightarrow> translate st' dir w = translate st dir w"
    and "w AND I86_FRAME \<noteq> v AND I86_FRAME"
  shows "mapped st' dir w = mapped st dir w"
proof -
  have "((w AND I86_FRAME) OR 1) AND I86_FRAME = w AND I86_FRAME"
    unfolding frame_mask by (rule bit_word_eqI) (auto simp: bit_simps)
  then show ?thesis using assms unfolding mapped_translate by simp
qed

lemma alloc_virt_phys:
  assumes wf: "wf_dir st dir" and t: "table_present st dir v" and f: "attrs pdf"
    and nm: "\<not> mapped st dir v" and a: "pmmngr_alloc_block (phys st) = Some (p, pm)"
    and r: "vmmngr_alloc_virt st dir v pdf ptf = Some st'"
  shows "phys st' = pm"
proof -
  note d = wf_dirD(1-4) [OF wf] wf_dirD(5-8) [OF wf t]
  have e: "pd_entry_pfn (pd_entry_add_attrib (mem st (pde_addr dir v)) pdf) = table_of st dir v"
    using f by (simp add: table_of_def)
  have ne: "pte_addr (table_of st dir v) v \<noteq> pde_addr dir v" using pde_pte_neq d by metis
  have np: "\<not> pt_entry_is_present (mem st (pte_addr (table_of st dir v) v))"
    using nm t by (simp add: mapped_def pte_of_def)
  show ?thesis using r d e ne np a
    by (auto simp: vmmngr_alloc_virt_def ensure_table_present [OF wf t] walk_simps Let_def
        vmmngr_alloc_page_def c_simps split: if_splits)
qed

lemma alloc_virt_room:
  assumes wf: "wf_dir st dir" and f: "attrs pdf" "attrs ptf" and room: "pmm_room (phys st) (Suc (Suc n))"
  shows "\<exists>st'. vmmngr_alloc_virt st dir v pdf ptf = Some st' \<and> wf_dir st' dir \<and> mapped st' dir v \<and>
    pmm_room (phys st') n \<and> (\<forall>w. mapped st dir w \<longrightarrow> mapped st' dir w)"
proof -
  have present: "\<exists>st'. vmmngr_alloc_virt s dir v pdf ptf = Some st' \<and> wf_dir st' dir \<and> mapped st' dir v \<and>
      pmm_room (phys st') n \<and> (\<forall>w. mapped s dir w \<longrightarrow> mapped st' dir w)"
    if s: "wf_dir s dir" "table_present s dir v" "pmm_room (phys s) (Suc n)" for s
  proof -
    note i = wf_dirD(1) [OF s(1)]
    from alloc_virt_present [OF s(1,2) f] obtain st' where
      a: "vmmngr_alloc_virt s dir v pdf ptf = Some st'" "wf_dir st' dir"
        "\<forall>w. w AND I86_FRAME \<noteq> v AND I86_FRAME \<longrightarrow> translate st' dir w = translate s dir w"
        "mapped s dir v \<longrightarrow> mapped st' dir v \<and> phys st' = phys s"
        "\<not> mapped s dir v \<longrightarrow> \<not> mapped st' dir v \<and> phys st' = phys s \<or> mapped st' dir v"
      by blast
    have "mapped st' dir v \<and> pmm_room (phys st') n"
    proof (cases "mapped s dir v")
      case True
      then show ?thesis using a(4) s(3) pmm_room_mono [of "phys s" "Suc n" n] by simp
    next
      case False
      from alloc_block_room [OF i s(3)] obtain k pm where
        k: "pmmngr_alloc_block (phys s) = Some (frame_addr k, pm)" "k \<notin> frames_used (phys s)"
          "frames_used pm = insert k (frames_used (phys s))" "pmm_room pm n" by blast
      have "phys st' = pm" by (rule alloc_virt_phys [OF s(1,2) f(1) False k(1) a(1)])
      moreover from this have "phys st' \<noteq> phys s" using k(2,3) by auto
      ultimately show ?thesis using a(5) False k(4) by blast
    qed
    moreover have "mapped st' dir w" if "mapped s dir w" for w
    proof (cases "w AND I86_FRAME = v AND I86_FRAME")
      case True
      then show ?thesis using mapped_same_page [OF True] calculation by simp
    next
      case False
      then show ?thesis using translate_mapped [OF a(3) False] that by simp
    qed
    ultimately show ?thesis using a(1,2) by blast
  qed
  show ?thesis
  proof (cases "table_present st dir v")
    case True
    show ?thesis using present [OF wf True] room pmm_room_mono [of "phys st" "Suc (Suc n)" "Suc n"] by simp
  next
    case False
    from alloc_block_room [OF wf_dirD(1) [OF wf] room] obtain k pm where
      k: "pmmngr_alloc_block (phys st) = Some (frame_addr k, pm)" "k \<notin> frames_used (phys st)" "0 < k"
        "k < pmm_capacity (phys st)" "frames_used pm = insert k (frames_used (phys st))" "pmm_inv pm"
        "pmm_room pm (Suc n)" by blast
    from ensure_table_new [OF wf False k(1-6)] obtain s where
      s: "ensure_table st dir v = Some (True, s)" "table_present s dir v" "kept st s dir" "phys s = pm"
      by blast
    note kp = keptD [OF s(3)]
    from present [OF kp(1) s(2)] s(4) k(7) alloc_virt_after_table [OF s(1) kp(1) s(2)] kp(2)
    show ?thesis by auto
  qed
qed

lemma map_up_to_spec:
  assumes "wf_dir v dir" and "pmm_room (phys v) (2 * n)" and "unat page + 4096 * n < 2 ^ 32"
    and "unat (top_addr :: u32) \<le> unat page + 4096 * n" and "n = 0 \<or> unat page + 4096 * (n - 1) < unat top_addr"
  shows "\<exists>v'. map_up_to v dir page top_addr = Some v' \<and> wf_dir v' dir \<and>
    (\<forall>w. mapped v dir w \<longrightarrow> mapped v' dir w) \<and> (\<forall>k < n. mapped v' dir (page + of_nat k * 4096))"
  using assms
proof (induction n arbitrary: v page)
  case 0
  then have "\<not> page < top_addr" by (simp add: word_less_nat_alt)
  then show ?case using 0 by (subst map_up_to.simps) simp
next
  case (Suc n)
  have lt: "page < top_addr" using Suc.prems(5) by (simp add: word_less_nat_alt)
  have "pmm_room (phys v) (Suc (Suc (2 * n)))" using Suc.prems(2) by simp
  from alloc_virt_room [OF Suc.prems(1) _ _ this, of "I86_WRITABLE OR I86_USER" "I86_WRITABLE OR I86_USER" page]
  obtain v1 where v1: "vmmngr_alloc_virt v dir page (I86_WRITABLE OR I86_USER) (I86_WRITABLE OR I86_USER) = Some v1"
    "wf_dir v1 dir" "mapped v1 dir page" "pmm_room (phys v1) (2 * n)" "\<forall>w. mapped v dir w \<longrightarrow> mapped v1 dir w"
    by (auto simp: attrs_def)
  have u: "unat (page + 4096) = unat page + 4096"
    using Suc.prems(3) by (simp add: unat_word_ariths)
  have "unat (page + 4096) + 4096 * n < 2 ^ 32" "unat top_addr \<le> unat (page + 4096) + 4096 * n"
    "n = 0 \<or> unat (page + 4096) + 4096 * (n - 1) < unat top_addr"
    using Suc.prems(3-5) unfolding u by (cases n; simp)+
  from Suc.IH [OF v1(2,4) this] obtain v' where
    v': "map_up_to v1 dir (page + 4096) top_addr = Some v'" "wf_dir v' dir"
      "\<forall>w. mapped v1 dir w \<longrightarrow> mapped v' dir w" "\<forall>k < n. mapped v' dir (page + 4096 + of_nat k * 4096)"
    by blast
  have "map_up_to v dir page top_addr = Some v'"
    using lt v1(1) v'(1) by (subst map_up_to.simps) simp
  moreover have "mapped v' dir (page + of_nat k * 4096)" if "k < Suc n" for k
  proof (cases k)
    case 0
    then show ?thesis using v1(3) v'(3) by simp
  next
    case (Suc j)
    then have "mapped v' dir (page + 4096 + of_nat j * 4096)" using v'(4) that by simp
    then show ?thesis using Suc by (simp add: distrib_right add.assoc)
  qed
  ultimately show ?case using v1(5) v'(2,3) by blast
qed

lemma frame_of_index:
  assumes "unat (v::u32) div 4096 = unat (w::u32) div 4096"
  shows "v AND I86_FRAME = w AND I86_FRAME"
proof -
  have "v div 4096 = w div 4096" using assms by (simp add: word_unat_eq_iff unat_div)
  then have "drop_bit 12 v = drop_bit 12 w" by (simp add: drop_bit_eq_div)
  then have b: "bit (drop_bit 12 v) (n - 12) = bit (drop_bit 12 w) (n - 12)" for n by simp
  show ?thesis
    unfolding frame_mask
  proof (rule bit_word_eqI)
    fix n
    show "bit (v AND NOT (mask 12)) n = bit (w AND NOT (mask 12)) n"
      using b [of n] by (cases "n < 12") (simp_all add: bit_simps)
  qed
qed

section \<open>Properties\<close>

text \<open>
  C15: when the break of the running process is raised within its limit and enough frames are
  left, the old break is returned and every address from the old to the new break is mapped
  afterwards; no page that was mapped is lost, and the condition that the page in which the
  break lies is mapped, on which the code relies when it skips the mapping, holds again.
\<close>

theorem brk_pages_mapped:
  assumes run: "get_running_process st = Some proc" "proc \<noteq> 0" "procs st proc = Some p" "brk p \<noteq> 0"
    and wf: "wf_dir (vm st) dir" "dir = cur_directory (vm st)"
    and lim: "unat (brk p) + unat inc \<le> unat (imageBase p + imageSize p + SBRK_LIM)"
      "unat (imageBase p + imageSize p + SBRK_LIM) < 2 ^ 32 - 8192"
    and room: "pmm_room (phys (vm st)) (2 * (unat inc div 4096 + 2))"
    and inv: "brk p mod 4096 \<noteq> 0 \<longrightarrow> mapped (vm st) dir (brk p)"
  shows "\<exists>st'. inc_proc_brk st inc = Some (brk p, st') \<and> procs st' proc = Some (p\<lparr>brk := brk p + inc\<rparr>) \<and>
    (\<forall>a. unat (brk p) \<le> unat a \<and> unat a < unat (brk p) + unat inc \<longrightarrow> mapped (vm st') dir a) \<and>
    (\<forall>w. mapped (vm st) dir w \<longrightarrow> mapped (vm st') dir w) \<and>
    ((brk p + inc) mod 4096 \<noteq> 0 \<longrightarrow> mapped (vm st') dir (brk p + inc))"
proof -
  let ?b = "unat (brk p)" and ?i = "unat inc"
  let ?r = "?b mod 4096"
  let ?T = "brk p + inc" and ?P = "brk p - brk p mod 4096"
  let ?s = "st\<lparr>procs := (procs st)(proc := Some (p\<lparr>brk := ?T\<rparr>))\<rparr>"
  have s: "?b + ?i < 2 ^ 32 - 8192" using lim by linarith
  have T: "unat ?T = ?b + ?i" using s by (simp add: unat_word_ariths)
  have m: "unat (brk p mod 4096) = ?r" by (simp add: unat_mod)
  have "brk p mod 4096 \<le> brk p" unfolding word_le_nat_alt m by simp
  then have P: "unat ?P = ?b - ?r" by (simp add: unat_sub m)
  have Pd: "?b - ?r = 4096 * (?b div 4096)" by (simp add: minus_mod_eq_mult_div)
  have limit: "\<not> ?T > imageBase p + imageSize p + SBRK_LIM" using lim T by (simp add: word_less_nat_alt)
  have run': "inc_proc_brk st inc =
      (if brk p mod 4096 + inc \<ge> 4096 \<or> brk p mod 4096 = 0
       then do { v \<leftarrow> map_up_to (vm st) dir ?P ?T; Some (brk p, ?s\<lparr>vm := v\<rparr>) } else Some (brk p, ?s))"
    using run limit wf(2)
    by (simp add: inc_proc_brk_def proc_update_def vmmngr_get_directory_def Let_def)
  have sum: "unat (brk p mod 4096 + inc) = ?r + ?i" using s m by (simp add: unat_word_ariths)
  have m0: "brk p mod 4096 = 0 \<longleftrightarrow> ?r = 0" by (metis m unat_eq_zero)
  have c0: "(brk p mod 4096 + inc \<ge> 4096 \<or> brk p mod 4096 = 0) \<longleftrightarrow> 4096 \<le> ?r + ?i \<or> ?r = 0"
    unfolding word_le_nat_alt sum m0 by simp
  show ?thesis
  proof (cases "4096 \<le> ?r + ?i \<or> ?r = 0")
    case True
    then have c: "brk p mod 4096 + inc \<ge> 4096 \<or> brk p mod 4096 = 0" by (simp only: c0)
    define n where "n = (?r + ?i + 4095) div 4096"
    have n1: "?b + ?i \<le> ?b - ?r + 4096 * n" unfolding n_def by simp
    have n2: "n = 0 \<or> ?b - ?r + 4096 * (n - 1) < ?b + ?i" unfolding n_def by auto
    have n3: "n \<le> ?i div 4096 + 2" unfolding n_def by simp
    have n4: "?b - ?r + 4096 * n < 2 ^ 32" using n3 s by simp
    have rm: "pmm_room (phys (vm st)) (2 * n)" by (rule pmm_room_mono [OF room]) (use n3 in simp)
    from map_up_to_spec [OF wf(1) rm, of ?P ?T] n1 n2 n4 obtain v where
      v: "map_up_to (vm st) dir ?P ?T = Some v" "\<forall>w. mapped (vm st) dir w \<longrightarrow> mapped v dir w"
        "\<forall>k < n. mapped v dir (?P + of_nat k * 4096)"
      unfolding P T by auto
    have all: "mapped v dir a" if a: "?b - ?r \<le> unat a" "unat a < ?b - ?r + 4096 * n" for a
    proof -
      let ?k = "(unat a - (?b - ?r)) div 4096"
      have k: "?k < n" using a by (simp add: less_mult_imp_div_less mult.commute)
      then have "?k * 4096 \<le> 4096 * n" by simp
      then have "unat ?P + ?k * 4096 < 2 ^ 32" unfolding P using n4 by linarith
      then have "unat (?P + of_nat ?k * 4096) = ?b - ?r + ?k * 4096" using unat_page [of ?P ?k] P by simp
      moreover obtain e where "unat a = 4096 * (?b div 4096) + e" using a(1) unfolding Pd le_iff_add by blast
      ultimately have "unat a div 4096 = unat (?P + of_nat ?k * 4096) div 4096" unfolding Pd by simp
      from mapped_same_page [OF frame_of_index [OF this]] v(3) k show ?thesis by blast
    qed
    have "mapped v dir ?T" if "?T mod 4096 \<noteq> 0"
    proof (rule all)
      have "unat (?T mod 4096) = unat ?T mod 4096" by (simp add: unat_mod)
      moreover have "unat (?T mod 4096) \<noteq> 0" using that unat_eq_zero by blast
      ultimately have "(?b + ?i) mod 4096 \<noteq> 0" unfolding T by simp
      then have "?b + ?i \<noteq> 4096 * (?b div 4096 + n)" by (metis mod_mult_self1_is_0)
      then show "unat ?T < ?b - ?r + 4096 * n" using n1 unfolding T Pd by (simp add: distrib_left)
    qed (simp add: T)
    moreover have "mapped v dir a" if "?b \<le> unat a \<and> unat a < ?b + ?i" for a
      using that n1 by (intro all) linarith+
    ultimately show ?thesis using run' c v(1,2) by (intro exI [of _ "?s\<lparr>vm := v\<rparr>"]) simp
  next
    case False
    then have c: "\<not> (brk p mod 4096 + inc \<ge> 4096 \<or> brk p mod 4096 = 0)"
      by (simp only: c0 not_False_eq_True)
    have mb: "mapped (vm st) dir (brk p)" using inv False m0 by metis
    have page: "mapped (vm st) dir a" if "?b \<le> unat a" "unat a \<le> ?b + ?i" for a
    proof -
      have small: "?r + ?i < 4096" using False by simp
      have "?b = 4096 * (?b div 4096) + ?r" by simp
      then have "4096 * (?b div 4096) \<le> unat a" "unat a < 4096 * (?b div 4096) + 4096"
        using that small by linarith+
      then have "unat a div 4096 = ?b div 4096" by (intro div_nat_eqI) simp_all
      from mapped_same_page [OF frame_of_index [OF this]] mb show ?thesis by blast
    qed
    then show ?thesis using run' c T by (intro exI [of _ ?s]) auto
  qed
qed

text \<open>A process whose break is raised from a page boundary.\<close>

definition brk_process :: process where
  "brk_process = zero_process\<lparr>pageDirectory := 0x1000, p_id := 1, imageBase := 0x400000, imageSize := 0x1000,
     brk := 0x401000\<rparr>"

definition brk_kernel :: "nat kernel" where
  "brk_kernel = sample_kernel\<lparr>vm := vmm_sample\<lparr>cur_directory := 0x1000\<rparr>,
     procs := [0xC0300104 \<mapsto> brk_process], processList := [0xC0300104],
     ready := [sample_entry 1 3 1], currentTask := q_addr (sample_entry 1 3 1)\<rparr>"

theorem brk_pages_mapped_witness:
  "\<exists>st'. inc_proc_brk brk_kernel 0x20 = Some (0x401000, st') \<and> mapped (vm st') 0x1000 0x401008"
proof -
  have r: "get_running_process brk_kernel = Some 0xC0300104"
    by (simp add: get_running_process_def current_thread_def entry_at_def brk_kernel_def
        sample_kernel_def sample_entry_def sample_thread_def)
  have p: "procs brk_kernel 0xC0300104 = Some brk_process" by (simp add: brk_kernel_def)
  have w: "wf_dir (vm brk_kernel) 0x1000" using vmm_sample_wf by (simp add: brk_kernel_def)
  have m: "pmm_room (phys (vm brk_kernel)) (2 * (unat (0x20 :: u32) div 4096 + 2))"
    using pmm_room_mono [OF pmm_sample_room, of 4] by (simp add: brk_kernel_def vmm_sample_def)
  have d: "(0x1000 :: u32) = cur_directory (vm brk_kernel)" by (simp add: brk_kernel_def)
  have b: "brk brk_process = 0x401000" "imageBase brk_process + imageSize brk_process + SBRK_LIM = 0x40401000"
    by (simp_all add: brk_process_def zero_process_def)
  have "brk brk_process \<noteq> 0" "unat (brk brk_process) + unat (0x20 :: u32)
      \<le> unat (imageBase brk_process + imageSize brk_process + SBRK_LIM)"
    "unat (imageBase brk_process + imageSize brk_process + SBRK_LIM) < 2 ^ 32 - 8192"
    "brk brk_process mod 4096 \<noteq> 0 \<longrightarrow> mapped (vm brk_kernel) 0x1000 (brk brk_process)"
    unfolding b by simp_all
  from brk_pages_mapped [OF r _ p this(1) w d this(2,3) m this(4)] obtain st' where
    s: "inc_proc_brk brk_kernel 0x20 = Some (0x401000, st')"
      "\<forall>a. unat (0x401000 :: u32) \<le> unat a \<and> unat a < unat (0x401000 :: u32) + unat (0x20 :: u32) \<longrightarrow>
        mapped (vm st') 0x1000 a" unfolding b by auto
  have "mapped (vm st') 0x1000 0x401008" using s(2) by (simp add: spec [of _ "0x401008"])
  with s(1) show ?thesis by blast
qed

end
