(* ===== verification/Fat12.thy ===== *)
theory Fat12
  imports Vfs
begin

text \<open>
  The FAT12 driver, \<^verbatim>\<open>drivers/fat12fsys.c\<close>: the file allocation table, directories and files of
  a floppy disk.

  The state is the disk, a list of sectors of 512 bytes, with the driver's static variables.
  \<open>flpydsk_read_sector\<close> and \<open>flpydsk_write_sector\<close> model the floppy controller by what it does
  when it works: they transfer one sector, and there is no sector beyond the end of the disk
  (\<open>None\<close>).  Copies on the heap are values, and messages to the terminal are not modelled.
  A local \<^verbatim>\<open>FILE\<close> that the code does not fill completely starts from the argument \<open>junk\<close>.
\<close>

abbreviation SECTOR_SIZE :: nat where "SECTOR_SIZE \<equiv> 512"

record mount_info =
  numSectors :: u16
  fatOffset :: u32
  numRootEntries :: u16
  rootOffset :: u32
  rootSize :: u32
  fatSize :: u16
  fatEntrySize :: u32

record fat12 =
  disk :: "u8 list list"
  FAT :: "u8 list"
  mount :: mount_info

section \<open>Bytes and sectors\<close>

definition slice_of :: "u8 list \<Rightarrow> nat \<Rightarrow> nat \<Rightarrow> u8 list option" where
  "slice_of b i n = (if i + n \<le> length b then Some (take n (drop i b)) else None)"

definition overwrite :: "u8 list \<Rightarrow> nat \<Rightarrow> u8 list \<Rightarrow> u8 list option" where
  "overwrite b i d = (if i + length d \<le> length b then Some (take i b @ d @ drop (i + length d) b) else None)"

definition word16 :: "u8 \<Rightarrow> u8 \<Rightarrow> u16" where
  "word16 lo hi = ucast lo OR push_bit 8 (ucast hi)"

definition get16 :: "u8 list \<Rightarrow> nat \<Rightarrow> u16 option" where
  "get16 b i = do { lo \<leftarrow> aget b i; hi \<leftarrow> aget b (i + 1); Some (word16 lo hi) }"

definition put16 :: "u8 list \<Rightarrow> nat \<Rightarrow> u16 \<Rightarrow> u8 list option" where
  "put16 b i v = overwrite b i [ucast v, ucast (drop_bit 8 v)]"

definition get32 :: "u8 list \<Rightarrow> nat \<Rightarrow> u32 option" where
  "get32 b i = do { lo \<leftarrow> get16 b i; hi \<leftarrow> get16 b (i + 2); Some (ucast lo OR push_bit 16 (ucast hi)) }"

definition put32 :: "u8 list \<Rightarrow> nat \<Rightarrow> u32 \<Rightarrow> u8 list option" where
  "put32 b i v = do { b \<leftarrow> put16 b i (ucast v); put16 b (i + 2) (ucast (drop_bit 16 v)) }"

definition flpydsk_read_sector :: "fat12 \<Rightarrow> nat \<Rightarrow> u8 list option" where
  "flpydsk_read_sector st n = aget (disk st) n"

definition flpydsk_write_sector :: "fat12 \<Rightarrow> nat \<Rightarrow> u8 list \<Rightarrow> fat12 option" where
  "flpydsk_write_sector st n data = do {
     data \<leftarrow> slice_of data 0 SECTOR_SIZE;
     d \<leftarrow> aset (disk st) n data;
     Some (st\<lparr>disk := d\<rparr>) }"

section \<open>The file allocation table\<close>

text \<open>
  Every access to the table loads the sector of an entry and the sector after it, because the
  twelve bits of an entry may lie in both.
\<close>

definition FAT_Offset :: "nat \<Rightarrow> nat" where
  "FAT_Offset cluster = cluster + cluster div 2"

definition load_fat :: "fat12 \<Rightarrow> nat \<Rightarrow> fat12 option" where
  "load_fat st cluster = do {
     s1 \<leftarrow> flpydsk_read_sector st (1 + FAT_Offset cluster div SECTOR_SIZE);
     s2 \<leftarrow> flpydsk_read_sector st (1 + FAT_Offset cluster div SECTOR_SIZE + 1);
     Some (st\<lparr>FAT := take SECTOR_SIZE s1 @ take SECTOR_SIZE s2\<rparr>) }"

definition store_fat :: "fat12 \<Rightarrow> nat \<Rightarrow> fat12 option" where
  "store_fat st cluster = do {
     st \<leftarrow> flpydsk_write_sector st (1 + FAT_Offset cluster div SECTOR_SIZE) (FAT st);
     flpydsk_write_sector st (1 + FAT_Offset cluster div SECTOR_SIZE + 1) (drop SECTOR_SIZE (FAT st)) }"

text \<open>The entry of a cluster in the sixteen bits that hold it, and those sixteen bits with a new entry.\<close>

definition extract_entry :: "nat \<Rightarrow> u16 \<Rightarrow> u16" where
  "extract_entry cluster v = (if odd cluster then drop_bit 4 v else v AND 0x0FFF)"

definition insert_entry :: "nat \<Rightarrow> u16 \<Rightarrow> u32 \<Rightarrow> u16" where
  "insert_entry cluster v new =
     (if odd cluster then ucast (push_bit 4 new) OR (v AND 0xF) else ucast new OR (v AND 0xF000))"

definition read_entry :: "fat12 \<Rightarrow> nat \<Rightarrow> (u16 \<times> fat12) option" where
  "read_entry st cluster = do {
     st \<leftarrow> load_fat st cluster;
     v \<leftarrow> get16 (FAT st) (FAT_Offset cluster mod SECTOR_SIZE);
     Some (extract_entry cluster v, st) }"

definition set_loaded_entry :: "fat12 \<Rightarrow> nat \<Rightarrow> u32 \<Rightarrow> fat12 option" where
  "set_loaded_entry st cluster new = do {
     v \<leftarrow> get16 (FAT st) (FAT_Offset cluster mod SECTOR_SIZE);
     f \<leftarrow> put16 (FAT st) (FAT_Offset cluster mod SECTOR_SIZE) (insert_entry cluster v new);
     store_fat (st\<lparr>FAT := f\<rparr>) cluster }"

definition write_entry :: "fat12 \<Rightarrow> nat \<Rightarrow> u32 \<Rightarrow> fat12 option" where
  "write_entry st cluster new = do { st \<leftarrow> load_fat st cluster; set_loaded_entry st cluster new }"

text \<open>The search starts at cluster 2 and gives up at \<^verbatim>\<open>0xFF0\<close>.\<close>

function occupy_loop :: "fat12 \<Rightarrow> nat \<Rightarrow> (nat \<times> fat12) option" where
  "occupy_loop st cluster_entry =
     (if cluster_entry < 0xFF0 then do {
        (cluster, st) \<leftarrow> read_entry st cluster_entry;
        if cluster = 0 then do {
          st \<leftarrow> set_loaded_entry st cluster_entry 0xFF8;
          Some (cluster_entry, st) }
        else occupy_loop st (cluster_entry + 1) }
      else Some (cluster_entry, st))"
  by pat_completeness auto
termination by (relation "measure (\<lambda>(st, c). 0xFF0 - c)") auto

declare occupy_loop.simps [simp del]

definition fat12fsys_occupy_free_cluster :: "fat12 \<Rightarrow> nat \<Rightarrow> (nat \<times> fat12) option" where
  "fat12fsys_occupy_free_cluster st chain_cluster = do {
     (cluster_entry, st) \<leftarrow> occupy_loop st 2;
     if chain_cluster \<noteq> 0 \<and> cluster_entry \<noteq> 0xFF0 then do {
       st \<leftarrow> write_entry st chain_cluster (of_nat cluster_entry);
       Some (cluster_entry, st) }
     else Some (cluster_entry, st) }"

section \<open>File names\<close>

text \<open>The arrays \<^verbatim>\<open>\"\"\<close>, \<^verbatim>\<open>\".\"\<close> and \<^verbatim>\<open>\"\\\\\"\<close>.\<close>

abbreviation str_empty :: buffer where "str_empty \<equiv> [0]"
abbreviation str_dot :: buffer where "str_dot \<equiv> [46, 0]"
abbreviation str_backslash :: buffer where "str_backslash \<equiv> [92, 0]"

text \<open>A string behind a pointer that may be null.\<close>

definition strlen_opt :: "buffer option \<Rightarrow> nat option" where
  "strlen_opt s = (case s of None \<Rightarrow> Some 0 | Some b \<Rightarrow> strlen b)"

definition upper_opt :: "buffer option \<Rightarrow> buffer option option" where
  "upper_opt s = (case s of None \<Rightarrow> Some None | Some b \<Rightarrow> map_option Some (to_upper b))"

definition copy_opt :: "u8 list \<Rightarrow> nat \<Rightarrow> buffer option \<Rightarrow> u8 list option" where
  "copy_opt d i s = (case s of None \<Rightarrow> Some d
     | Some b \<Rightarrow> do { n \<leftarrow> strlen b; x \<leftarrow> slice_of b 0 n; overwrite d i x })"

text \<open>The result is \<open>None\<close> inside \<open>Some\<close> when the code returns false.\<close>

definition ToDosFileName :: "buffer \<Rightarrow> buffer option option" where
  "ToDosFileName filename = do {
     c \<leftarrow> aget filename 0;
     Filename \<leftarrow> (if c = 46 then Some None else map_option Some (seperate_and_take filename 46 0));
     n \<leftarrow> count_substrings filename 46;
     Ext \<leftarrow> (if n > 1 then map_option Some (seperate_and_take filename 46 1) else Some None);
     l \<leftarrow> strlen_opt Filename;
     e \<leftarrow> strlen_opt Ext;
     if l > 8 \<or> e > 3 then Some None
     else do {
       Filename \<leftarrow> upper_opt Filename;
       Ext \<leftarrow> upper_opt Ext;
       d \<leftarrow> copy_opt (replicate 11 32) 0 Filename;
       d \<leftarrow> copy_opt d 8 Ext;
       dot \<leftarrow> strcmp filename str_dot;
       d \<leftarrow> (if dot then aset d 0 46 else Some d);
       Some (Some (d @ [0])) } }"

section \<open>Directory entries\<close>

text \<open>
  A directory entry is 32 bytes: the name in the first eleven, the attributes at 11, the time
  and date of creation at 14 and 16, the first cluster at 26 and the size at 28.
\<close>

definition entry_name :: "u8 list \<Rightarrow> nat \<Rightarrow> u8 list option" where
  "entry_name b i = slice_of b (32 * i) 11"

definition FirstCluster :: "u8 list \<Rightarrow> nat \<Rightarrow> u16 option" where
  "FirstCluster b i = get16 b (32 * i + 26)"

definition read_dir_entry :: "fobj \<Rightarrow> u8 list \<Rightarrow> nat \<Rightarrow> fobj option" where
  "read_dir_entry file b i = do {
     c \<leftarrow> FirstCluster b i;
     len \<leftarrow> get32 b (32 * i + 28);
     date \<leftarrow> get16 b (32 * i + 16);
     time \<leftarrow> get16 b (32 * i + 14);
     attr \<leftarrow> aget b (32 * i + 11);
     Some (file\<lparr>f_id := 0, currentCluster := ucast c, eof := 0, position := 0, fileLength := len,
       DateCreated := date, TimeCreated := time,
       f_flags := if attr = 0x10 then FS_DIRECTORY else FS_FILE\<rparr>) }"

definition set_name :: "fobj \<Rightarrow> buffer \<Rightarrow> fobj option" where
  "set_name file name = do {
     n \<leftarrow> strlen name;
     guard (n < 32);
     Some (file\<lparr>f_name := take (n + 1) name @ drop (n + 1) (f_name file)\<rparr>) }"

text \<open>The first entry from \<open>i\<close> on, of sixteen, with the given name.\<close>

function find_entry :: "u8 list \<Rightarrow> buffer \<Rightarrow> nat \<Rightarrow> nat option option" where
  "find_entry b dos i =
     (if i < 16 then do {
        name \<leftarrow> entry_name b i;
        eq \<leftarrow> strcmp dos (name @ [0]);
        if eq then Some (Some i) else find_entry b dos (i + 1) }
      else Some None)"
  by pat_completeness auto
termination by (relation "measure (\<lambda>(b, dos, i). 16 - i)") auto

declare find_entry.simps [simp del]

section \<open>Opening a file in the root directory\<close>

text \<open>The search through the fourteen sectors of the root directory, from sector \<open>k\<close> on.\<close>

function root_search :: "fobj \<Rightarrow> fat12 \<Rightarrow> buffer \<Rightarrow> buffer \<Rightarrow> nat \<Rightarrow> fobj option" where
  "root_search file st dos FileName k =
     (if k < 14 then do {
        buf \<leftarrow> flpydsk_read_sector st (unat (rootOffset (mount st)) + k);
        r \<leftarrow> find_entry buf dos 0;
        case r of
          Some i \<Rightarrow> do {
            file \<leftarrow> set_name file FileName;
            file \<leftarrow> read_dir_entry file buf i;
            Some (file\<lparr>parentCluster := int (unat (rootOffset (mount st)) + k) - 31, abs_position := 0\<rparr>) }
        | None \<Rightarrow> root_search file st dos FileName (k + 1) }
      else Some (file\<lparr>f_flags := FS_INVALID\<rparr>))"
  by pat_completeness auto
termination by (relation "measure (\<lambda>(f, st, d, n, k). 14 - k)") auto

declare root_search.simps [simp del]

definition fat12fsys_root_open :: "fobj \<Rightarrow> fat12 \<Rightarrow> buffer \<Rightarrow> fobj option" where
  "fat12fsys_root_open junk st FileName = do {
     dos \<leftarrow> ToDosFileName FileName;
     case dos of
       None \<Rightarrow> Some (junk\<lparr>f_flags := FS_INVALID\<rparr>)
     | Some dos \<Rightarrow> root_search junk st dos FileName 0 }"

section \<open>Reading and writing\<close>

text \<open>
  The size of the directory entry of a file is changed in the first entry of its parent sector
  that has its name.
\<close>

definition fat12fsys_update_flen :: "fat12 \<Rightarrow> fobj \<Rightarrow> u32 \<Rightarrow> fat12 option" where
  "fat12fsys_update_flen st f new_len = do {
     guard (0 \<le> parentCluster f + 31);
     let parentSector = nat (parentCluster f + 31);
     dos \<leftarrow> ToDosFileName (f_name f);
     case dos of
       None \<Rightarrow> Some st
     | Some dos \<Rightarrow> do {
         buf \<leftarrow> flpydsk_read_sector st parentSector;
         r \<leftarrow> find_entry buf dos 0;
         case r of
           None \<Rightarrow> Some st
         | Some i \<Rightarrow> do {
             buf \<leftarrow> put32 buf (32 * i + 28) new_len;
             flpydsk_write_sector st parentSector buf } } }"

datatype floppy_dir = floppy_dir_read | floppy_dir_write

text \<open>The transfer between the buffer and the sector of the current cluster.\<close>

definition transfer :: "fat12 \<Rightarrow> fobj \<Rightarrow> u8 list \<Rightarrow> nat \<Rightarrow> u32 \<Rightarrow> floppy_dir \<Rightarrow> (u8 list \<times> fat12) option" where
  "transfer st file Buffer off Length dir = do {
     let physSector = unat (32 + (currentCluster file - 1));
     let n = unat (if Length \<ge> 512 - position file then 512 - position file else Length);
     sector \<leftarrow> flpydsk_read_sector st physSector;
     if dir = floppy_dir_read then do {
       d \<leftarrow> slice_of sector (unat (position file)) n;
       b \<leftarrow> overwrite Buffer off d;
       Some (b, st) }
     else do {
       d \<leftarrow> slice_of Buffer off n;
       sector \<leftarrow> overwrite sector (unat (position file)) d;
       st \<leftarrow> flpydsk_write_sector st physSector sector;
       Some (Buffer, st) } }"

text \<open>
  The rest of the transfer: the position moves, and unless the transfer ended inside the
  cluster the next cluster is looked up.  \<^verbatim>\<open>None\<close> for the next cluster ends the transfer.
\<close>

definition next_cluster :: "fat12 \<Rightarrow> fobj \<Rightarrow> u32 \<Rightarrow> floppy_dir \<Rightarrow> (u16 option \<times> fat12) option" where
  "next_cluster st file Length dir = do {
     (nextCluster, st) \<leftarrow> read_entry st (unat (currentCluster file));
     if nextCluster \<ge> 0xFF8 \<and> \<not> (Length > 0 \<and> dir = floppy_dir_write) then Some (None, st)
     else if nextCluster = 0 then Some (None, st)
     else if Length > 0 \<and> dir = floppy_dir_write \<and> nextCluster \<ge> 0xFF8 then do {
       (c, st) \<leftarrow> fat12fsys_occupy_free_cluster st (unat (currentCluster file));
       Some (Some (of_nat c), st) }
     else Some (Some nextCluster, st) }"

partial_function (option) fat12fsys_rw ::
  "fat12 \<Rightarrow> fobj \<Rightarrow> u8 list \<Rightarrow> nat \<Rightarrow> u32 \<Rightarrow> floppy_dir \<Rightarrow> (fobj \<times> u8 list \<times> fat12) option" where
  "fat12fsys_rw st file Buffer off Length dir =
     (if Length = 0 then Some (file, Buffer, st)
      else do {
        (Buffer, st) \<leftarrow> transfer st file Buffer off Length dir;
        let old_pos = position file;
        let file = (if Length < 512 - old_pos then file\<lparr>position := old_pos + Length\<rparr> else file);
        if Length < 512 - old_pos \<and> position file < 512 \<and> position file \<le> fileLength file \<and>
           f_flags file \<noteq> FS_DIRECTORY
        then Some (file, Buffer, st)
        else do {
          let Length = Length - (512 - old_pos);
          (next, st) \<leftarrow> next_cluster st file Length dir;
          case next of
            None \<Rightarrow> Some (file\<lparr>eof := 1\<rparr>, Buffer, st)
          | Some c \<Rightarrow> fat12fsys_rw st (file\<lparr>currentCluster := ucast c, position := 0\<rparr>)
                        Buffer (off + unat (512 - old_pos)) Length dir } })"

definition fat12fsys_read :: "fat12 \<Rightarrow> fobj \<Rightarrow> u8 list \<Rightarrow> u32 \<Rightarrow> (fobj \<times> u8 list \<times> fat12) option" where
  "fat12fsys_read st file Buffer Length = fat12fsys_rw st file Buffer 0 Length floppy_dir_read"

definition fat12fsys_write :: "fat12 \<Rightarrow> fobj \<Rightarrow> u8 list \<Rightarrow> u32 \<Rightarrow> (fobj \<times> fat12) option" where
  "fat12fsys_write st file Buffer Length = do {
     (file, st) \<leftarrow>
       (if f_flags file \<noteq> FS_DIRECTORY then do {
          let file = file\<lparr>abs_position := abs_position file + Length\<rparr>;
          if abs_position file > fileLength file then do {
            let file = file\<lparr>fileLength := abs_position file\<rparr>;
            st \<leftarrow> fat12fsys_update_flen st file (abs_position file);
            Some (file, st) }
          else Some (file, st) }
        else Some (file, st));
     (file, b, st) \<leftarrow> fat12fsys_rw st file Buffer 0 Length floppy_dir_write;
     Some (file, st) }"

section \<open>Subdirectories\<close>

text \<open>The directory is read sector by sector until its end; \<open>tmpkFile\<close> is it before the last read.\<close>

partial_function (option) subdir_search ::
  "fobj \<Rightarrow> fat12 \<Rightarrow> fobj \<Rightarrow> buffer \<Rightarrow> buffer \<Rightarrow> (fobj \<times> fat12) option" where
  "subdir_search file st kFile dos filename =
     (if eof kFile = 0 then do {
        (kFile', buf, st) \<leftarrow> fat12fsys_read st kFile (replicate 512 0) 512;
        r \<leftarrow> find_entry buf dos 0;
        case r of
          Some i \<Rightarrow> do {
            file \<leftarrow> set_name file filename;
            file \<leftarrow> read_dir_entry file buf i;
            Some (file\<lparr>parentCluster := sint (currentCluster kFile)\<rparr>, st) }
        | None \<Rightarrow> subdir_search file st kFile' dos filename }
      else Some (file\<lparr>f_flags := FS_INVALID\<rparr>, st))"

definition fat12fsys_subdir_open :: "fobj \<Rightarrow> fat12 \<Rightarrow> fobj \<Rightarrow> buffer \<Rightarrow> (fobj \<times> fat12) option" where
  "fat12fsys_subdir_open junk st kFile filename = do {
     dos \<leftarrow> ToDosFileName filename;
     case dos of
       None \<Rightarrow> Some (junk\<lparr>f_flags := FS_INVALID\<rparr>, st)
     | Some dos \<Rightarrow> subdir_search junk st kFile dos filename }"

text \<open>The loop over the pieces of a path; \<open>n\<close> pieces are left, \<open>i\<close> are done.\<close>

fun open_path :: "fobj \<Rightarrow> fat12 \<Rightarrow> buffer \<Rightarrow> fobj \<Rightarrow> nat \<Rightarrow> nat \<Rightarrow> (fobj \<times> fat12) option" where
  "open_path junk st path curr_file i 0 = Some (curr_file, st)"
| "open_path junk st path curr_file i (Suc n) = do {
     curr_filename \<leftarrow> seperate_and_take path 92 (int i + 1);
     (f, st) \<leftarrow> (if i = 0 then do { f \<leftarrow> fat12fsys_root_open junk st curr_filename; Some (f, st) }
                else fat12fsys_subdir_open junk st curr_file curr_filename);
     if f_flags f = FS_INVALID then Some (f, st)
     else open_path junk st path f (i + 1) n }"

definition is_root_path :: "buffer \<Rightarrow> bool option" where
  "is_root_path path = do {
     b \<leftarrow> strcmp path str_backslash;
     if b then Some True else strcmp path str_empty }"

definition fat12fsys_open :: "fobj \<Rightarrow> fat12 \<Rightarrow> buffer \<Rightarrow> (fobj \<times> fat12) option" where
  "fat12fsys_open junk st path = do {
     r \<leftarrow> is_root_path path;
     if r then Some (junk\<lparr>f_flags := FS_DIRECTORY, f_name := [92, 0] @ drop 2 (f_name junk)\<rparr>, st)
     else do {
       n \<leftarrow> count_substrings path 92;
       open_path junk st path junk 0 (nat n) } }"

section \<open>Creating a file\<close>

text \<open>What a sector of a directory says about a new name: the first free entry before any entry
  with that name, an entry with that name, or neither.\<close>

datatype slot = Free nat | Taken | NoSlot

function find_slot :: "u8 list \<Rightarrow> buffer \<Rightarrow> nat \<Rightarrow> slot option" where
  "find_slot b dos i =
     (if i < 16 then do {
        c \<leftarrow> FirstCluster b i;
        if c = 0 then Some (Free i)
        else do {
          name \<leftarrow> entry_name b i;
          if take 11 dos = name then Some Taken else find_slot b dos (i + 1) } }
      else Some NoSlot)"
  by pat_completeness auto
termination by (relation "measure (\<lambda>(b, dos, i). 16 - i)") auto

declare find_slot.simps [simp del]

text \<open>The new entry: every field but the name, the attributes and the first cluster is zero.\<close>

definition new_entry :: "buffer \<Rightarrow> u32 \<Rightarrow> u16 \<Rightarrow> u8 list" where
  "new_entry dos flags cluster =
     take 11 dos @ [if flags = FS_DIRECTORY then 0x10 else 0] @ replicate 14 0 @
     [ucast cluster, ucast (drop_bit 8 cluster)] @ replicate 4 0"

text \<open>
  Filling the slot: a cluster is taken, the sector of the directory is written back, and a new
  directory is cleared.  \<open>dir\<close> is the directory as it was before its sector was read, and
  \<open>None\<close> for the root directory, whose sector number is \<open>sec\<close>.
\<close>

definition fill_slot :: "fobj \<Rightarrow> fat12 \<Rightarrow> fobj option \<Rightarrow> nat \<Rightarrow> u8 list \<Rightarrow> nat \<Rightarrow> buffer \<Rightarrow> u32 \<Rightarrow> fat12 option" where
  "fill_slot junk st dir sec buf i dos flags = do {
     (cluster, st) \<leftarrow> fat12fsys_occupy_free_cluster st 0;
     if cluster = 0xFF0 then Some st
     else do {
       buf \<leftarrow> overwrite buf (32 * i) (new_entry dos flags (of_nat cluster));
       st \<leftarrow> (case dir of
           None \<Rightarrow> flpydsk_write_sector st sec buf
         | Some d \<Rightarrow> map_option snd (fat12fsys_write st d buf 512));
       if flags = FS_DIRECTORY then
         map_option snd (fat12fsys_write st (junk\<lparr>currentCluster := of_nat cluster, eof := 0, position := 0,
           fileLength := 0, f_flags := FS_DIRECTORY\<rparr>) (replicate 512 0) 512)
       else Some st } }"

function create_in_root :: "fobj \<Rightarrow> fat12 \<Rightarrow> buffer \<Rightarrow> u32 \<Rightarrow> nat \<Rightarrow> fat12 option" where
  "create_in_root junk st dos flags k =
     (if k < 14 then do {
        let sec = unat (rootOffset (mount st)) + k;
        buf \<leftarrow> flpydsk_read_sector st sec;
        r \<leftarrow> find_slot buf dos 0;
        case r of
          Free i \<Rightarrow> fill_slot junk st None sec buf i dos flags
        | Taken \<Rightarrow> Some st
        | NoSlot \<Rightarrow> create_in_root junk st dos flags (k + 1) }
      else Some st)"
  by pat_completeness auto
termination by (relation "measure (\<lambda>(j, st, d, n, k). 14 - k)") auto

declare create_in_root.simps [simp del]

partial_function (option) create_in_subdir :: "fobj \<Rightarrow> fat12 \<Rightarrow> fobj \<Rightarrow> buffer \<Rightarrow> u32 \<Rightarrow> fat12 option" where
  "create_in_subdir junk st kFile dos flags =
     (if eof kFile = 0 then do {
        (kFile', buf, st) \<leftarrow> fat12fsys_read st kFile (replicate 512 0) 512;
        r \<leftarrow> find_slot buf dos 0;
        case r of
          Free i \<Rightarrow> fill_slot junk st (Some kFile) 0 buf i dos flags
        | Taken \<Rightarrow> Some st
        | NoSlot \<Rightarrow> create_in_subdir junk st kFile' dos flags }
      else Some st)"

definition fat12fsys_create :: "fobj \<Rightarrow> fat12 \<Rightarrow> fobj \<Rightarrow> buffer \<Rightarrow> u32 \<Rightarrow> fat12 option" where
  "fat12fsys_create junk st kFile FileName flags =
     (if f_flags kFile \<noteq> FS_DIRECTORY then Some st
      else do {
        is_root_dir \<leftarrow> is_root_path (f_name kFile);
        dos \<leftarrow> ToDosFileName FileName;
        case dos of
          None \<Rightarrow> Some st
        | Some dos \<Rightarrow>
            if is_root_dir then create_in_root junk st dos flags 0
            else create_in_subdir junk st kFile dos flags })"

section \<open>Listing a directory\<close>

text \<open>The files of the entries from \<open>i\<close> on of a sector; an entry is in use when its first cluster is not 0.\<close>

function list_sector :: "fobj \<Rightarrow> u8 list \<Rightarrow> nat \<Rightarrow> fobj list option" where
  "list_sector junk b i =
     (if i < 16 then do {
        c \<leftarrow> FirstCluster b i;
        fs \<leftarrow> list_sector junk b (i + 1);
        if c \<noteq> 0 then do {
          name \<leftarrow> entry_name b i;
          file \<leftarrow> set_name junk (name @ [0]);
          file \<leftarrow> read_dir_entry file b i;
          Some (file # fs) }
        else Some fs }
      else Some [])"
  by pat_completeness auto
termination by (relation "measure (\<lambda>(j, b, i). 16 - i)") auto

declare list_sector.simps [simp del]

function list_root :: "fobj \<Rightarrow> fat12 \<Rightarrow> nat \<Rightarrow> fobj list option" where
  "list_root junk st k =
     (if k < 14 then do {
        buf \<leftarrow> flpydsk_read_sector st (unat (rootOffset (mount st)) + k);
        fs \<leftarrow> list_sector junk buf 0;
        gs \<leftarrow> list_root junk st (k + 1);
        Some (fs @ gs) }
      else Some [])"
  by pat_completeness auto
termination by (relation "measure (\<lambda>(j, st, k). 14 - k)") auto

declare list_root.simps [simp del]

partial_function (option) list_subdir :: "fobj \<Rightarrow> fat12 \<Rightarrow> fobj \<Rightarrow> (fobj list \<times> fat12) option" where
  "list_subdir junk st kFile =
     (if eof kFile = 0 then do {
        (kFile, buf, st) \<leftarrow> fat12fsys_read st kFile (replicate 512 0) 512;
        fs \<leftarrow> list_sector junk buf 0;
        (gs, st) \<leftarrow> list_subdir junk st kFile;
        Some (fs @ gs, st) }
      else Some ([], st))"

definition fat12fsys_open_dir :: "fobj \<Rightarrow> fat12 \<Rightarrow> buffer \<Rightarrow> (fobj list \<times> fat12) option" where
  "fat12fsys_open_dir junk st path = do {
     is_root_dir \<leftarrow> is_root_path path;
     if is_root_dir then do { l \<leftarrow> list_root junk st 0; Some (l, st) }
     else do {
       (kFile, st) \<leftarrow> fat12fsys_open junk st path;
       if f_flags kFile = FS_INVALID \<or> f_flags kFile = FS_FILE then Some ([], st)
       else list_subdir junk st kFile } }"

definition fat12fsys_close :: "fobj \<Rightarrow> fobj" where
  "fat12fsys_close file = file\<lparr>f_flags := FS_INVALID\<rparr>"

section \<open>Mounting, and the driver\<close>

text \<open>The boot sector holds the parameters of the disk from byte 11 on.\<close>

definition fat12fsys_mount :: "fat12 \<Rightarrow> fat12 option" where
  "fat12fsys_mount st = do {
     b \<leftarrow> flpydsk_read_sector st 0;
     BytesPerSector \<leftarrow> get16 b 11;
     NumberOfFats \<leftarrow> aget b 16;
     NumDirEntries \<leftarrow> get16 b 17;
     NumSectors \<leftarrow> get16 b 19;
     SectorsPerFat \<leftarrow> get16 b 22;
     guard (BytesPerSector \<noteq> 0);
     Some (st\<lparr>mount := \<lparr>numSectors = NumSectors, fatOffset = 1, numRootEntries = NumDirEntries,
       rootOffset = of_nat (unat NumberOfFats * unat SectorsPerFat) + 1,
       rootSize = of_nat (unat NumDirEntries * 32 div unat BytesPerSector),
       fatSize = SectorsPerFat, fatEntrySize = 8\<rparr>\<rparr>) }"

definition fat12_driver :: "fobj \<Rightarrow> fat12 driver" where
  "fat12_driver junk = \<lparr>
     Read = (\<lambda>st f n. do { (f, b, st) \<leftarrow> fat12fsys_read st f (replicate n 0) (of_nat n); Some (b, f, st) }),
     Write = (\<lambda>st f b n. fat12fsys_write st f b (of_nat n)),
     Close = (\<lambda>st f. Some (fat12fsys_close f, st)),
     Open = fat12fsys_open junk,
     OpenDir = fat12fsys_open_dir junk,
     Create = (\<lambda>st f name flags. fat12fsys_create junk st f name flags)\<rparr>"

text \<open>Initialisation: the driver at \<open>fsys\<close> is registered as device \<^verbatim>\<open>a\<close> and the disk is mounted.\<close>

definition fat12fsys_init :: "fat12 vfs \<Rightarrow> u32 \<Rightarrow> fat12 vfs option" where
  "fat12fsys_init st fsys = do {
     st \<leftarrow> volRegisterFileSystem st fsys 0;
     d \<leftarrow> fat12fsys_mount (dstate st);
     Some (st\<lparr>dstate := d\<rparr>) }"

end
