(* ===== verification/Fattable.thy ===== *)
theory Fattable
  imports Fat12
begin

text \<open>
  The file allocation table as a sequence of twelve-bit entries: an access to one entry never
  touches another, and the search for a free cluster takes the lowest one.
\<close>

section \<open>Writing into a buffer\<close>

definition put_at :: "u8 list \<Rightarrow> nat \<Rightarrow> u8 list \<Rightarrow> u8 list" where
  "put_at b i d = take i b @ d @ drop (i + length d) b"

lemma overwrite_fits: "i + length d \<le> length b \<Longrightarrow> overwrite b i d = Some (put_at b i d)"
  by (simp add: overwrite_def put_at_def)

lemma length_put_at [simp]: "i + length d \<le> length b \<Longrightarrow> length (put_at b i d) = length b"
  by (simp add: put_at_def)

lemma put_at_Nil [simp]: "put_at b i [] = b"
  by (simp add: put_at_def)

lemma put_at_twice:
  "i + length d + length e \<le> length b \<Longrightarrow> put_at (put_at b i d) (i + length d) e = put_at b i (d @ e)"
  by (simp add: put_at_def add_ac)

lemma slice_fits: "i + n \<le> length b \<Longrightarrow> slice_of b i n = Some (take n (drop i b))"
  by (simp add: slice_of_def)

section \<open>The table as a sequence of entries\<close>

definition fat_ok :: "fat12 \<Rightarrow> bool" where
  "fat_ok st \<longleftrightarrow> 14 \<le> length (disk st) \<and> (\<forall>s \<in> set (disk st). length s = 512)"

definition fat_byte :: "fat12 \<Rightarrow> nat \<Rightarrow> u8" where
  "fat_byte st i = disk st ! (1 + i div 512) ! (i mod 512)"

definition fat_word :: "fat12 \<Rightarrow> nat \<Rightarrow> u16" where
  "fat_word st c = word16 (fat_byte st (FAT_Offset c)) (fat_byte st (FAT_Offset c + 1))"

definition fat_entry :: "fat12 \<Rightarrow> nat \<Rightarrow> u16" where
  "fat_entry st c = extract_entry c (fat_word st c)"

definition fat_sector :: "nat \<Rightarrow> nat" where
  "fat_sector c = 1 + FAT_Offset c div 512"

definition fat_loaded :: "fat12 \<Rightarrow> nat \<Rightarrow> fat12" where
  "fat_loaded st c = st\<lparr>FAT := disk st ! fat_sector c @ disk st ! Suc (fat_sector c)\<rparr>"

lemma fat_sector_bound: "c < 0xFF0 \<Longrightarrow> Suc (fat_sector c) < 14"
  unfolding fat_sector_def FAT_Offset_def by simp

lemma FAT_index: "FAT_Offset c = 512 * (fat_sector c - 1) + FAT_Offset c mod 512"
  unfolding fat_sector_def by simp

lemma sector_length: "fat_ok st \<Longrightarrow> n < length (disk st) \<Longrightarrow> length (disk st ! n) = 512"
  by (simp add: fat_ok_def)

lemma load_fat_ok:
  assumes "fat_ok st" and "c < 0xFF0"
  shows "load_fat st c = Some (fat_loaded st c)"
proof -
  have "Suc (fat_sector c) < length (disk st)"
    using fat_sector_bound [OF assms(2)] assms(1) by (simp add: fat_ok_def)
  then show ?thesis using sector_length [OF assms(1)]
    by (simp add: load_fat_def flpydsk_read_sector_def fat_loaded_def fat_sector_def)
qed

lemma loaded_byte:
  assumes "fat_ok st" and "c < 0xFF0" and "i < 1024"
  shows "FAT (fat_loaded st c) ! i = fat_byte st (512 * (fat_sector c - 1) + i)"
proof -
  have b: "Suc (fat_sector c) < length (disk st)"
    using fat_sector_bound [OF assms(2)] assms(1) by (simp add: fat_ok_def)
  have p: "0 < fat_sector c" by (simp add: fat_sector_def)
  show ?thesis
  proof (cases "i < 512")
    case True
    then show ?thesis using b p sector_length [OF assms(1), of "fat_sector c"]
      by (simp add: fat_loaded_def fat_byte_def nth_append)
  next
    case False
    then have "i div 512 = 1" "i mod 512 = i - 512" using assms(3) by (simp_all add: mod_if)
    then have "fat_byte st (512 * (fat_sector c - 1) + i) = disk st ! Suc (fat_sector c) ! (i - 512)"
      using p by (simp add: fat_byte_def)
    then show ?thesis using False b p sector_length [OF assms(1), of "fat_sector c"]
      by (simp add: fat_loaded_def nth_append)
  qed
qed

lemma loaded_length: "fat_ok st \<Longrightarrow> c < 0xFF0 \<Longrightarrow> length (FAT (fat_loaded st c)) = 1024"
  using fat_sector_bound [of c] by (auto simp: fat_loaded_def sector_length fat_ok_def)

lemma disk_loaded [simp]: "disk (fat_loaded st c) = disk st" "mount (fat_loaded st c) = mount st"
  by (simp_all add: fat_loaded_def)

lemma get16_loaded:
  assumes "fat_ok st" and "c < 0xFF0"
  shows "get16 (FAT (fat_loaded st c)) (FAT_Offset c mod 512) = Some (fat_word st c)"
proof -
  let ?o = "FAT_Offset c mod 512"
  have o: "?o < 512" by simp
  have "512 * (fat_sector c - 1) + ?o = FAT_Offset c" "512 * (fat_sector c - 1) + (?o + 1) = FAT_Offset c + 1"
    using FAT_index [of c] by linarith+
  then have "FAT (fat_loaded st c) ! ?o = fat_byte st (FAT_Offset c)"
    "FAT (fat_loaded st c) ! (?o + 1) = fat_byte st (FAT_Offset c + 1)"
    using loaded_byte [OF assms, of ?o] loaded_byte [OF assms, of "?o + 1"] o by (simp_all only:)
  then show ?thesis using o loaded_length [OF assms] by (simp add: get16_def fat_word_def)
qed

lemma read_entry_ok:
  "fat_ok st \<Longrightarrow> c < 0xFF0 \<Longrightarrow> read_entry st c = Some (fat_entry st c, fat_loaded st c)"
  by (simp add: read_entry_def load_fat_ok get16_loaded fat_entry_def)

lemma overwrite_two: "i + 2 \<le> length b \<Longrightarrow> overwrite b i [x, y] = Some (b[i := x, Suc i := y])"
proof -
  assume l: "i + 2 \<le> length b"
  have "take i b @ [x, y] @ drop (i + 2) b = b[i := x, Suc i := y]"
    using l by (intro nth_equalityI) (auto simp: nth_append nth_list_update nth_Cons' Suc_le_eq intro: arg_cong [of _ _ "nth b"])
  then show ?thesis using l by (simp add: overwrite_def)
qed

lemma window_index:
  fixes i s :: nat
  assumes "0 < s" and "s - 1 \<le> i div 512" and "i div 512 \<le> s"
  obtains j where "i = 512 * (s - 1) + j" and "j < 1024"
    and "i div 512 = (if j < 512 then s - 1 else s)" and "i mod 512 = (if j < 512 then j else j - 512)"
proof -
  have i: "i = 512 * (i div 512) + i mod 512" by simp
  have m: "i mod 512 < 512" by simp
  consider "i div 512 = s - 1" | "i div 512 = s" using assms by linarith
  then show thesis
  proof cases
    case 1
    then show thesis using i m by (intro that [of "i mod 512"]) simp_all
  next
    case 2
    obtain t where t: "s = Suc t" using assms(1) by (cases s) auto
    have "i = 512 * Suc t + i mod 512" using i 2 t by simp
    then show thesis using m 2 t by (intro that [of "512 + i mod 512"]) simp_all
  qed
qed

text \<open>Storing an entry changes two bytes of the table, and nothing outside it.\<close>

lemma set_loaded_entry_ok:
  fixes new :: u32
  assumes "fat_ok st" and "c < 0xFF0"
  defines "v \<equiv> insert_entry c (fat_word st c) new"
  shows "\<exists>st'. set_loaded_entry (fat_loaded st c) c new = Some st' \<and> fat_ok st' \<and> mount st' = mount st \<and>
    length (disk st') = length (disk st) \<and> (\<forall>n. n = 0 \<or> 14 \<le> n \<longrightarrow> disk st' ! n = disk st ! n) \<and>
    (\<forall>i. i < 512 * 13 \<longrightarrow> fat_byte st' i =
       (if i = FAT_Offset c then ucast v else if i = FAT_Offset c + 1 then ucast (drop_bit 8 v)
        else fat_byte st i))"
proof -
  let ?o = "FAT_Offset c mod 512" and ?s = "fat_sector c" and ?F = "FAT (fat_loaded st c)"
  define F where "F = ?F[?o := ucast v, Suc ?o := ucast (drop_bit 8 v)]"
  let ?d = "(disk st)[?s := take 512 F, Suc ?s := drop 512 F]"
  have b: "Suc ?s < length (disk st)" "0 < ?s" "Suc ?s < 14"
    using fat_sector_bound [OF assms(2)] assms(1) by (simp_all add: fat_ok_def fat_sector_def)
  have l: "length F = 1024" using loaded_length [OF assms(1,2)] by (simp add: F_def)
  have o: "?o < 512" by simp
  then have "put16 ?F ?o v = Some F"
    using loaded_length [OF assms(1,2)] unfolding put16_def F_def by (subst overwrite_two) auto
  then have r: "set_loaded_entry (fat_loaded st c) c new = Some (st\<lparr>FAT := F, disk := ?d\<rparr>)"
    using b(1) l get16_loaded [OF assms(1,2)]
    by (simp add: set_loaded_entry_def store_fat_def flpydsk_write_sector_def slice_of_def v_def [symmetric]
        fat_sector_def fat_loaded_def)
  have f: "F ! j = (if j = ?o then ucast v else if j = Suc ?o then ucast (drop_bit 8 v) else ?F ! j)" if "j < 1024" for j
    using that loaded_length [OF assms(1,2)] o by (simp add: F_def nth_list_update)
  have "fat_byte (st\<lparr>FAT := F, disk := ?d\<rparr>) i =
      (if i = FAT_Offset c then ucast v else if i = FAT_Offset c + 1 then ucast (drop_bit 8 v) else fat_byte st i)"
    if i: "i < 512 * 13" for i
  proof (cases "?s - 1 \<le> i div 512 \<and> i div 512 \<le> ?s")
    case True
    then obtain j where j: "i = 512 * (?s - 1) + j" "j < 1024"
      "i div 512 = (if j < 512 then ?s - 1 else ?s)" "i mod 512 = (if j < 512 then j else j - 512)"
      using window_index [OF b(2), of i] by metis
    have "fat_byte (st\<lparr>FAT := F, disk := ?d\<rparr>) i = F ! j"
    proof (cases "j < 512")
      case True
      then have "Suc (i div 512) = ?s" "i mod 512 = j" using j b(2) by simp_all
      then show ?thesis using True b(1) l by (simp add: fat_byte_def)
    next
      case False
      then have "Suc (i div 512) = Suc ?s" "i mod 512 = j - 512" using j by simp_all
      then show ?thesis using False b(1) l by (simp add: fat_byte_def)
    qed
    moreover have "j = ?o \<longleftrightarrow> i = FAT_Offset c" "j = Suc ?o \<longleftrightarrow> i = FAT_Offset c + 1"
      using j(1) FAT_index [of c] by linarith+
    ultimately show ?thesis using f [OF j(2)] loaded_byte [OF assms(1,2) j(2)] j(1) by simp
  next
    case False
    then have "1 + i div 512 \<noteq> ?s" "1 + i div 512 \<noteq> Suc ?s" by auto
    moreover have "i \<noteq> FAT_Offset c" using False by (auto simp: fat_sector_def)
    moreover have "FAT_Offset c div 512 \<le> (FAT_Offset c + 1) div 512"
      "(FAT_Offset c + 1) div 512 \<le> (FAT_Offset c + 512) div 512" by (intro div_le_mono; simp)+
    then have "i \<noteq> FAT_Offset c + 1" using False by (auto simp: fat_sector_def)
    ultimately show ?thesis by (simp add: fat_byte_def)
  qed
  moreover have "fat_ok (st\<lparr>FAT := F, disk := ?d\<rparr>)"
    using assms(1) l by (auto simp: fat_ok_def dest!: set_update_subset_insert [THEN subsetD])
  moreover have "?d ! n = disk st ! n" if "n = 0 \<or> 14 \<le> n" for n using that b by auto
  ultimately show ?thesis using r by (intro exI [of _ "st\<lparr>FAT := F, disk := ?d\<rparr>"]) auto
qed

text \<open>The two entries that share a byte keep apart.\<close>

lemma word16_bytes: "word16 (ucast v) (ucast (drop_bit 8 v)) = v"
  by (rule bit_word_eqI) (auto simp: word16_def bit_simps)

lemma twelve_bits: "(new :: u32) < 0x1000 \<Longrightarrow> bit new i \<Longrightarrow> i < 12"
proof -
  assume n: "new < 0x1000" and b: "bit new i"
  from n have "unat new < 2 ^ 12" by (simp add: word_less_nat_alt)
  then have "take_bit 12 (unat new) = unat new" by (intro take_bit_nat_eq_self)
  moreover have "bit (unat new) i" using b by (simp add: bit_simps)
  ultimately show "i < 12" using bit_take_bit_iff [of 12 "unat new" i] by auto
qed

lemma masks: "(0xFFF :: u16) = mask 12" "(0xF :: u16) = mask 4" "(0xF000 :: u16) = push_bit 12 (mask 4)"
  by (simp_all add: mask_eq_exp_minus_1)

lemmas entry_bits = extract_entry_def insert_entry_def word16_def masks

lemma extract_insert: "new < 0x1000 \<Longrightarrow> extract_entry c (insert_entry c v new) = ucast new"
proof -
  assume n: "new < 0x1000"
  show ?thesis unfolding entry_bits using twelve_bits [OF n]
    by (intro bit_word_eqI) (auto simp: bit_simps)
qed

lemma next_entry_kept:
  assumes "even c" and n: "new < 0x1000"
  shows "extract_entry (c + 1) (word16 (ucast (drop_bit 8 (insert_entry c (word16 lo hi) new))) b) =
     extract_entry (c + 1) (word16 hi b)"
proof -
  have b: "bit lo i \<Longrightarrow> i < 8" "bit hi i \<Longrightarrow> i < 8" for i using bit_imp_le_length by fastforce+
  show ?thesis unfolding entry_bits using twelve_bits [OF n] assms(1)
    by (intro bit_word_eqI) (auto simp: bit_simps dest: b)
qed

lemma previous_entry_kept:
  "odd c \<Longrightarrow> extract_entry (c - 1) (word16 a (ucast (insert_entry c (word16 lo hi) new))) =
     extract_entry (c - 1) (word16 a lo)"
  unfolding entry_bits by (rule bit_word_eqI) (auto simp: bit_simps)

text \<open>What no access to the table changes: the boot sector, the sectors behind the table, the size
  of the disk and the mount information.\<close>

definition fat_frame :: "fat12 \<Rightarrow> fat12 \<Rightarrow> bool" where
  "fat_frame st st' \<longleftrightarrow> fat_ok st' \<and> mount st' = mount st \<and> length (disk st') = length (disk st) \<and>
     (\<forall>n. n = 0 \<or> 14 \<le> n \<longrightarrow> disk st' ! n = disk st ! n)"

lemma fat_frame_trans: "fat_frame st st' \<Longrightarrow> fat_frame st' st'' \<Longrightarrow> fat_frame st st''"
  by (simp add: fat_frame_def)

lemma fat_ok_loaded [simp]: "fat_ok (fat_loaded st c) = fat_ok st" "fat_entry (fat_loaded st c) = fat_entry st"
  "fat_word (fat_loaded st c) = fat_word st"
  by (auto simp: fat_ok_def fat_entry_def fat_word_def fat_byte_def fun_eq_iff)

lemma fat_frame_loaded [simp]: "fat_frame (fat_loaded st c) st' = fat_frame st st'" "fat_frame st (fat_loaded st c) = fat_ok st"
  by (simp_all add: fat_frame_def)

lemma fat_loaded_again [simp]: "fat_loaded (fat_loaded st c) d = fat_loaded st d"
  by (simp add: fat_loaded_def)

lemma FAT_Offset_parity: "FAT_Offset (2 * k) = 3 * k" "FAT_Offset (Suc (2 * k)) = 3 * k + 1"
  by (simp_all add: FAT_Offset_def)

lemma FAT_Offset_apart:
  assumes "k \<noteq> c"
  shows "FAT_Offset k \<noteq> FAT_Offset c" "FAT_Offset k + 1 = FAT_Offset c \<longleftrightarrow> odd c \<and> k = c - 1"
    "FAT_Offset k = FAT_Offset c + 1 \<longleftrightarrow> even c \<and> k = c + 1"
proof -
  obtain i j where "k = 2 * i \<or> k = Suc (2 * i)" "c = 2 * j \<or> c = Suc (2 * j)"
    by (metis evenE oddE Suc_eq_plus1)
  then show "FAT_Offset k \<noteq> FAT_Offset c" "FAT_Offset k + 1 = FAT_Offset c \<longleftrightarrow> odd c \<and> k = c - 1"
    "FAT_Offset k = FAT_Offset c + 1 \<longleftrightarrow> even c \<and> k = c + 1"
    using assms by (auto simp: FAT_Offset_parity)
qed

lemma set_entry_ok:
  assumes "fat_ok st" and "c < 0xFF0" and "new < 0x1000"
  shows "\<exists>st'. set_loaded_entry (fat_loaded st c) c new = Some st' \<and> fat_frame st st' \<and>
    (\<forall>k < 0xFF0. fat_entry st' k = (if k = c then ucast new else fat_entry st k))"
proof -
  let ?v = "insert_entry c (fat_word st c) new"
  from set_loaded_entry_ok [OF assms(1,2), of new] obtain st' where
    r: "set_loaded_entry (fat_loaded st c) c new = Some st'" and fr: "fat_frame st st'" and
    b: "\<And>i. i < 512 * 13 \<Longrightarrow> fat_byte st' i =
         (if i = FAT_Offset c then ucast ?v else if i = FAT_Offset c + 1 then ucast (drop_bit 8 ?v)
          else fat_byte st i)"
    by (auto simp: fat_frame_def)
  have lo: "FAT_Offset k + 1 < 512 * 13" if "k < 0xFF0" for k using that by (simp add: FAT_Offset_def)
  have "fat_entry st' k = (if k = c then ucast new else fat_entry st k)" if k: "k < 0xFF0" for k
  proof (cases "k = c")
    case True
    have "fat_word st' c = ?v" using b lo [OF assms(2)] by (simp add: fat_word_def word16_bytes)
    then show ?thesis using True extract_insert [OF assms(3)] by (simp add: fat_entry_def)
  next
    case False
    note a = FAT_Offset_apart [OF False]
    consider "odd c" "k = c - 1" | "even c" "k = c + 1" | "FAT_Offset k + 1 \<noteq> FAT_Offset c" "FAT_Offset k \<noteq> FAT_Offset c + 1"
      using a by blast
    then show ?thesis
    proof cases
      case 1
      then have "FAT_Offset k + 1 = FAT_Offset c" using a by blast
      then have "fat_word st' k = word16 (fat_byte st (FAT_Offset k)) (ucast ?v)"
        using b lo [OF k] a(1) by (simp add: fat_word_def)
      then show ?thesis using False 1 previous_entry_kept [OF 1(1)] \<open>FAT_Offset k + 1 = FAT_Offset c\<close>
        by (simp add: fat_entry_def fat_word_def)
    next
      case 2
      then have e: "FAT_Offset k = FAT_Offset c + 1" using a by blast
      then have "fat_word st' k = word16 (ucast (drop_bit 8 ?v)) (fat_byte st (FAT_Offset k + 1))"
        using b lo [OF k] a(1) by (simp add: fat_word_def)
      then show ?thesis using False 2 next_entry_kept [OF 2(1) assms(3)] e
        by (simp add: fat_entry_def fat_word_def)
    next
      case 3
      then have "fat_word st' k = fat_word st k" using b lo [OF k] a(1) by (simp add: fat_word_def)
      then show ?thesis using False by (simp add: fat_entry_def)
    qed
  qed
  then show ?thesis using r fr by blast
qed

lemma write_entry_ok:
  assumes "fat_ok st" and "c < 0xFF0" and "new < 0x1000"
  shows "\<exists>st'. write_entry st c new = Some st' \<and> fat_frame st st' \<and>
    (\<forall>k < 0xFF0. fat_entry st' k = (if k = c then ucast new else fat_entry st k))"
  using set_entry_ok [OF assms] by (simp add: write_entry_def load_fat_ok assms)

lemma occupy_loop_ok:
  assumes "fat_ok st" and "c \<le> 0xFF0"
  shows "\<exists>m st'. occupy_loop st c = Some (m, st') \<and> c \<le> m \<and> m \<le> 0xFF0 \<and> fat_frame st st' \<and>
    (\<forall>k. c \<le> k \<and> k < m \<longrightarrow> fat_entry st k \<noteq> 0) \<and> (m < 0xFF0 \<longrightarrow> fat_entry st m = 0) \<and>
    (\<forall>k < 0xFF0. fat_entry st' k = (if k = m then 0xFF8 else fat_entry st k))"
  using assms
proof (induction "0xFF0 - c" arbitrary: st c)
  case 0
  then show ?case by (subst occupy_loop.simps) (auto simp: fat_frame_def)
next
  case (Suc n)
  then have c: "c < 0xFF0" by linarith
  note r = read_entry_ok [OF Suc.prems(1) c]
  show ?case
  proof (cases "fat_entry st c = 0")
    case True
    from set_entry_ok [OF Suc.prems(1) c, where new = "0xFF8"] obtain st' where
      s: "set_loaded_entry (fat_loaded st c) c 0xFF8 = Some st'" "fat_frame st st'"
        "\<forall>k < 0xFF0. fat_entry st' k = (if k = c then 0xFF8 else fat_entry st k)" by auto
    have "occupy_loop st c = Some (c, st')"
      by (subst occupy_loop.simps) (simp add: c r True s(1))
    then show ?thesis using c True s by (intro exI [of _ c] exI [of _ st']) auto
  next
    case False
    have "n = 0xFF0 - (c + 1)" "fat_ok (fat_loaded st c)" "c + 1 \<le> 0xFF0" using Suc.hyps(2) Suc.prems c by auto
    from Suc.hyps(1) [OF this] obtain m st' where
      m: "occupy_loop (fat_loaded st c) (c + 1) = Some (m, st')" "c + 1 \<le> m" "m \<le> 0xFF0" "fat_frame st st'"
        "\<forall>k. c + 1 \<le> k \<and> k < m \<longrightarrow> fat_entry st k \<noteq> 0" "m < 0xFF0 \<longrightarrow> fat_entry st m = 0"
        "\<forall>k < 0xFF0. fat_entry st' k = (if k = m then 0xFF8 else fat_entry st k)" by auto
    have "occupy_loop st c = Some (m, st')"
      by (subst occupy_loop.simps) (simp add: c r False m(1) [simplified])
    moreover have "\<forall>k. c \<le> k \<and> k < m \<longrightarrow> fat_entry st k \<noteq> 0" using m(5) False by (metis le_antisym not_less_eq_eq Suc_eq_plus1)
    ultimately show ?thesis using m by (intro exI [of _ m] exI [of _ st']) auto
  qed
qed

lemma occupy_ok:
  assumes "fat_ok st" and "chain < 0xFF0"
  shows "\<exists>m st'. fat12fsys_occupy_free_cluster st chain = Some (m, st') \<and> fat_frame st st' \<and>
    2 \<le> m \<and> m \<le> 0xFF0 \<and> (\<forall>k. 2 \<le> k \<and> k < m \<longrightarrow> fat_entry st k \<noteq> 0) \<and>
    (m < 0xFF0 \<longrightarrow> fat_entry st m = 0) \<and>
    (\<forall>k < 0xFF0. fat_entry st' k =
       (if k = chain \<and> chain \<noteq> 0 \<and> m < 0xFF0 then of_nat m else if k = m then 0xFF8 else fat_entry st k))"
proof -
  from occupy_loop_ok [OF assms(1), of 2] obtain m s where
    m: "occupy_loop st 2 = Some (m, s)" "2 \<le> m" "m \<le> 0xFF0" "fat_frame st s"
      "\<forall>k. 2 \<le> k \<and> k < m \<longrightarrow> fat_entry st k \<noteq> 0" "m < 0xFF0 \<longrightarrow> fat_entry st m = 0"
      "\<forall>k < 0xFF0. fat_entry s k = (if k = m then 0xFF8 else fat_entry st k)" by auto
  show ?thesis
  proof (cases "chain \<noteq> 0 \<and> m \<noteq> 0xFF0")
    case True
    have ok: "fat_ok s" using m(4) by (simp add: fat_frame_def)
    have n: "(of_nat m :: u32) < 0x1000" using m(3) by (simp add: word_less_nat_alt unat_of_nat)
    have u: "(ucast (of_nat m :: u32) :: u16) = of_nat m" by (rule bit_word_eqI) (simp add: bit_simps)
    from write_entry_ok [OF ok assms(2) n] obtain st' where
      "write_entry s chain (of_nat m) = Some st'" "fat_frame s st'"
      "\<forall>k < 0xFF0. fat_entry st' k = (if k = chain then of_nat m else fat_entry s k)" unfolding u by blast
    then show ?thesis using m True fat_frame_trans [OF m(4)]
      by (intro exI [of _ m] exI [of _ st']) (auto simp: fat12fsys_occupy_free_cluster_def)
  next
    case False
    then show ?thesis using m
      by (intro exI [of _ m] exI [of _ s]) (auto simp: fat12fsys_occupy_free_cluster_def)
  qed
qed

text \<open>
  The search knows nothing of the size of the disk: when every cluster that has a sector on the
  disk is in use, it hands out one that has none, and the first access to it fails.
\<close>

lemma fat12_occupy_beyond_disk:
  assumes "fat_ok st" and "\<forall>k. 2 \<le> k \<and> 31 + k < length (disk st) \<longrightarrow> fat_entry st k \<noteq> 0"
    and "fat12fsys_occupy_free_cluster st 0 = Some (m, st')" and "m \<noteq> 0xFF0"
  shows "flpydsk_read_sector st' (31 + m) = None"
proof -
  from occupy_ok [OF assms(1), of 0] assms(3,4) have
    "2 \<le> m" "fat_entry st m = 0" "length (disk st') = length (disk st)"
    by (auto simp: fat_frame_def)
  moreover from this have "\<not> 31 + m < length (disk st)" using assms(2) by blast
  ultimately show ?thesis by (simp add: flpydsk_read_sector_def aget_def)
qed

section \<open>Properties of the table\<close>

text \<open>
  C18: storing a twelve-bit entry and loading any entry afterwards yields the stored value for that
  entry and the old value for every other one, although two neighbours share a byte and an entry
  may lie across two sectors.
\<close>

theorem fat12_entry_roundtrip:
  assumes "fat_ok st" and "c < 0xFF0" and "new < 0x1000" and "k < 0xFF0"
  shows "\<exists>st' st''. write_entry st c new = Some st' \<and>
    read_entry st' k = Some (if k = c then ucast new else fat_entry st k, st'') \<and>
    (\<forall>n. n = 0 \<or> 14 \<le> n \<longrightarrow> disk st'' ! n = disk st ! n)"
proof -
  from write_entry_ok [OF assms(1-3)] obtain st' where
    w: "write_entry st c new = Some st'" "fat_frame st st'"
      "fat_entry st' k = (if k = c then ucast new else fat_entry st k)" using assms(4) by blast
  have "read_entry st' k = Some (fat_entry st' k, fat_loaded st' k)"
    using w(2) assms(4) by (intro read_entry_ok) (simp_all add: fat_frame_def)
  then show ?thesis using w by (auto simp: fat_frame_def)
qed

text \<open>
  C19: \<^verbatim>\<open>fat12fsys_occupy_free_cluster\<close> takes the lowest free cluster, marks it as the last of a
  chain, appends it to the chain of the given cluster, and leaves every other entry of the table
  and every sector outside the table alone; without a free entry it returns \<^verbatim>\<open>0xFF0\<close> and changes
  nothing.
\<close>

theorem fat12_occupy_first_fit:
  assumes "fat_ok st" and "chain < 0xFF0"
  shows "\<exists>m st'. fat12fsys_occupy_free_cluster st chain = Some (m, st') \<and> fat_frame st st' \<and>
    2 \<le> m \<and> m \<le> 0xFF0 \<and> (\<forall>k. 2 \<le> k \<and> k < m \<longrightarrow> fat_entry st k \<noteq> 0) \<and>
    (m < 0xFF0 \<longrightarrow> fat_entry st m = 0) \<and>
    (\<forall>k < 0xFF0. fat_entry st' k =
       (if k = chain \<and> chain \<noteq> 0 \<and> m < 0xFF0 then of_nat m else if k = m then 0xFF8 else fat_entry st k))"
  by (rule occupy_ok [OF assms])

text \<open>
  A floppy disk whose first file has the clusters 2 and 3, of 512 bytes \<^verbatim>\<open>'A'\<close> and \<^verbatim>\<open>'B'\<close>; all
  other clusters are free and the root directory is empty.
\<close>

definition blank :: "u8 list" where
  "blank = replicate 512 0"

definition sample_floppy :: fat12 where
  "sample_floppy = \<lparr>disk = [blank, [0xF8, 0xFF, 0xFF, 0x03, 0x80, 0xFF] @ replicate 506 0] @ replicate 31 blank @
       [replicate 512 65, replicate 512 66] @ replicate 30 blank,
     FAT = [], mount = \<lparr>numSectors = 2880, fatOffset = 1, numRootEntries = 224, rootOffset = 19, rootSize = 14,
       fatSize = 9, fatEntrySize = 8\<rparr>\<rparr>"

lemma sample_floppy_ok: "fat_ok sample_floppy"
  by (auto simp: fat_ok_def sample_floppy_def blank_def)

lemma sample_entry_2: "fat_entry sample_floppy 2 = 3"
  by (simp add: fat_entry_def fat_word_def fat_byte_def FAT_Offset_def sample_floppy_def extract_entry_def word16_def)

lemma sample_entry_3: "fat_entry sample_floppy 3 = 0xFF8"
  by (simp add: fat_entry_def fat_word_def fat_byte_def FAT_Offset_def sample_floppy_def extract_entry_def word16_def)

lemma sample_entry_4: "fat_entry sample_floppy 4 = 0"
  by (simp add: fat_entry_def fat_word_def fat_byte_def FAT_Offset_def sample_floppy_def extract_entry_def word16_def)

theorem fat12_entry_roundtrip_witness:
  "\<exists>st' st''. write_entry sample_floppy 2 0x123 = Some st' \<and> read_entry st' 3 = Some (0xFF8, st'')"
  using fat12_entry_roundtrip [OF sample_floppy_ok, of 2 "0x123" 3] by (auto simp: sample_entry_3)

theorem fat12_occupy_first_fit_witness:
  "\<exists>st'. fat12fsys_occupy_free_cluster sample_floppy 3 = Some (4, st') \<and> fat_entry st' 3 = 4"
proof -
  from fat12_occupy_first_fit [OF sample_floppy_ok, of 3] obtain m st' where
    o: "fat12fsys_occupy_free_cluster sample_floppy 3 = Some (m, st')" "2 \<le> m"
      "\<forall>k. 2 \<le> k \<and> k < m \<longrightarrow> fat_entry sample_floppy k \<noteq> 0" "m < 0xFF0 \<longrightarrow> fat_entry sample_floppy m = 0"
      "fat_entry st' 3 = (if m < 0xFF0 then of_nat m else if 3 = m then 0xFF8 else fat_entry sample_floppy 3)" by auto
  have "m \<le> 4"
  proof (rule ccontr)
    assume "\<not> m \<le> 4"
    then show False using spec [OF o(3), of 4] sample_entry_4 by simp
  qed
  moreover have "m \<noteq> 2" "m \<noteq> 3" using o(4) sample_entry_2 sample_entry_3 by auto
  ultimately have "m = 4" using o(2) by linarith
  then show ?thesis using o(1,5) by simp
qed

end
