(* ===== verification/Fatnames.thy ===== *)
theory Fatnames
  imports Fattable
begin

text \<open>
  Names in their 8.3 form, and the sixteen entries of a directory sector.
\<close>

section \<open>File names on the disk\<close>

text \<open>The part before the first dot, and the part between it and the next; a name that starts with
  a dot has no first part.\<close>

definition dos_base :: "u8 list \<Rightarrow> u8 list" where
  "dos_base s = (if hd s = 46 then [] else split_on 46 s ! 0)"

definition dos_ext :: "u8 list \<Rightarrow> u8 list" where
  "dos_ext s = (if 1 < length (split_on 46 (tl s)) then split_on 46 s ! 1 else [])"

definition padded :: "nat \<Rightarrow> u8 list \<Rightarrow> u8 list" where
  "padded n s = map upper s @ replicate (n - length s) 32"

definition dos_name :: "u8 list \<Rightarrow> u8 list" where
  "dos_name s = (let d = padded 8 (dos_base s) @ padded 3 (dos_ext s) in if s = [46] then 46 # tl d else d)"

lemma holds_end0: "0 \<notin> set s \<Longrightarrow> holds (s @ [0]) s"
  by (simp add: holds_def)

lemma holds_takeWhile: "holds (xs @ [0]) (takeWhile (\<lambda>x. x \<noteq> 0) xs)"
proof (cases "dropWhile (\<lambda>x. x \<noteq> 0) xs")
  case Nil
  then have t: "takeWhile (\<lambda>x. x \<noteq> 0) xs = xs" by (metis append_Nil2 takeWhile_dropWhile_id)
  show ?thesis unfolding t using Nil by (auto simp: holds_def dropWhile_eq_Nil_conv)
next
  case (Cons y ys)
  then have "y = 0" using hd_dropWhile [of "\<lambda>x. x \<noteq> 0" xs] by auto
  then have "xs @ [0] = takeWhile (\<lambda>x. x \<noteq> 0) xs @ 0 # ys @ [0]"
    using takeWhile_dropWhile_id [of "\<lambda>x. x \<noteq> 0" xs] Cons by (metis append.assoc append_Cons)
  then have "\<exists>rest. xs @ [0] = takeWhile (\<lambda>x. x \<noteq> 0) xs @ 0 # rest" by blast
  moreover have "0 \<notin> set (takeWhile (\<lambda>x. x \<noteq> 0) xs)" by (auto dest: set_takeWhileD)
  ultimately show ?thesis unfolding holds_def by blast
qed

lemma strcmp_entry:
  assumes "holds d n" and "length n = length name"
  shows "strcmp d (name @ [0]) = Some (name = n)"
proof -
  have "n = takeWhile (\<lambda>x. x \<noteq> 0) name \<longleftrightarrow> name = n"
  proof
    assume n: "n = takeWhile (\<lambda>x. x \<noteq> 0) name"
    have "length (dropWhile (\<lambda>x. x \<noteq> 0) name) = 0"
      using n assms(2) takeWhile_dropWhile_id [of "\<lambda>x. x \<noteq> 0" name] by (metis add_cancel_right_right length_append)
    then have "dropWhile (\<lambda>x. x \<noteq> 0) name = []" by simp
    then show "name = n" unfolding n using takeWhile_dropWhile_id by (metis append_Nil2)
  next
    assume e: "name = n"
    have "takeWhile (\<lambda>x. x \<noteq> 0) n = n"
      using assms(1) by (subst takeWhile_eq_all_conv) (auto simp: holds_def)
    then show "n = takeWhile (\<lambda>x. x \<noteq> 0) name" unfolding e by (rule sym)
  qed
  then show ?thesis using strcmp_holds [OF assms(1) holds_takeWhile] by simp
qed

lemma upper_nonzero: "c \<noteq> 0 \<Longrightarrow> upper c \<noteq> 0"
proof -
  assume "c \<noteq> 0"
  moreover have "c - 32 \<noteq> 0" if "97 \<le> c" using that by auto
  ultimately show ?thesis by (simp add: upper_def)
qed

lemma to_upper_holds: "holds b s \<Longrightarrow> \<exists>b'. to_upper b = Some b' \<and> holds b' (map upper s) \<and> length b' = length b"
  using change_case_holds [of upper b s 0] upper_nonzero by (simp add: to_upper_def)

lemma length_split_tl: "length (split_on sep cs) \<le> length (split_on sep (c # cs))"
  by (cases "split_on sep cs") (auto simp: split_on_cons onto_first_def)

lemma split_on_nonzero: "0 \<notin> set s \<Longrightarrow> p \<in> set (split_on sep s) \<Longrightarrow> 0 \<notin> set p"
proof (induction s arbitrary: p)
  case (Cons c cs)
  then show ?case
    by (cases "split_on sep cs") (auto simp: split_on_cons onto_first_def split: if_splits)
qed simp

lemma copy_opt_at:
  assumes "case s of None \<Rightarrow> t = [] | Some b \<Rightarrow> holds b t" and "i + length t \<le> length d"
  shows "copy_opt d i s = Some (put_at d i t)"
proof (cases s)
  case None
  then show ?thesis using assms(1) by (simp add: copy_opt_def)
next
  case (Some b)
  then obtain rest where b: "holds b t" "b = t @ 0 # rest" using assms(1) by (auto simp: holds_def)
  then show ?thesis using Some assms(2) by (simp add: copy_opt_def strlen_holds slice_of_def overwrite_fits)
qed

lemma put_base_ext:
  assumes "length n \<le> 8" and "length e \<le> 3"
  shows "put_at (put_at (replicate 11 (32 :: u8)) 0 (map upper n)) 8 (map upper e) = padded 8 n @ padded 3 e"
proof -
  have "replicate 11 (32 :: u8) = replicate (length n) 32 @ replicate (8 - length n) 32 @
      replicate (length e) 32 @ replicate (3 - length e) 32"
    using assms by (simp flip: replicate_add)
  then show ?thesis using assms by (simp add: put_at_def padded_def)
qed

lemma ToDosFileName_holds:
  assumes "holds b s" and "s \<noteq> []"
  shows "ToDosFileName b = Some (if length (dos_base s) \<le> 8 \<and> length (dos_ext s) \<le> 3
    then Some (dos_name s @ [0]) else None)"
proof -
  let ?F = "if hd s = 46 then None else Some (dos_base s @ [0])"
  let ?E = "if 1 < length (split_on 46 (tl s)) then Some (dos_ext s @ [0]) else None"
  have z: "0 \<notin> set s" using assms(1) by (simp add: holds_def)
  have sep: "seperate_and_take b 46 (int k) = Some ((if k < length (split_on 46 s) then split_on 46 s ! k else s) @ [0])" for k
    using seperate_loop_holds [OF assms(1), of 0 0 0 "int k" 46 0] by (simp add: seperate_and_take_def Let_def)
  have "1 \<le> length s" using assms(2) by (cases s) auto
  then have cnt: "count_substrings b 46 = Some (int (length (split_on 46 (tl s))))"
    using count_substrings_loop_holds [OF assms(1), of 1 46 1] by (simp add: count_substrings_def drop_Suc)
  have c: "aget b 0 = Some (hd s)"
    using assms by (cases s) (auto simp: holds_def)
  have le: "length (split_on 46 (tl s)) \<le> length (split_on 46 s)"
    using length_split_tl [of 46 "tl s" "hd s"] assms(2) by simp
  have F: "(if hd s = 46 then Some None else map_option Some (seperate_and_take b 46 0)) = Some ?F"
    using sep [of 0] by (simp add: dos_base_def)
  have E: "(if int (length (split_on 46 (tl s))) > 1 then map_option Some (seperate_and_take b 46 1) else Some None) = Some ?E"
    using sep [of 1] le by (simp add: dos_ext_def)
  have zn: "0 \<notin> set (split_on 46 s ! k)" if "k < length (split_on 46 s)" for k
    using split_on_nonzero [OF z nth_mem [OF that]] .
  have zb: "0 \<notin> set (dos_base s)" using zn [of 0] by (simp add: dos_base_def)
  have ze: "0 \<notin> set (dos_ext s)" using zn [of 1] le by (simp add: dos_ext_def)
  have hF: "case ?F of None \<Rightarrow> dos_base s = [] | Some b \<Rightarrow> holds b (dos_base s)"
    using holds_end0 [OF zb] by (auto simp: dos_base_def)
  have hE: "case ?E of None \<Rightarrow> dos_ext s = [] | Some b \<Rightarrow> holds b (dos_ext s)"
    using holds_end0 [OF ze] by (auto simp: dos_ext_def)
  have sl: "strlen_opt x = Some (length t)" if "case x of None \<Rightarrow> t = [] | Some b \<Rightarrow> holds b t" for x t
    using that by (cases x) (auto simp: strlen_opt_def strlen_holds)
  have up: "\<exists>y. upper_opt x = Some y \<and> (case y of None \<Rightarrow> map upper t = [] | Some b \<Rightarrow> holds b (map upper t))"
    if "case x of None \<Rightarrow> t = [] | Some b \<Rightarrow> holds b t" for x t
    using that to_upper_holds by (cases x) (fastforce simp: upper_opt_def)+
  have dot: "strcmp b str_dot = Some (s = [46])" using strcmp_holds [OF assms(1), of str_dot "[46]"] by (simp add: holds_def)
  show ?thesis
  proof (cases "length (dos_base s) \<le> 8 \<and> length (dos_ext s) \<le> 3")
    case True
    from up [OF hF] up [OF hE] obtain f e where
      fe: "upper_opt ?F = Some f" "case f of None \<Rightarrow> map upper (dos_base s) = [] | Some b \<Rightarrow> holds b (map upper (dos_base s))"
        "upper_opt ?E = Some e" "case e of None \<Rightarrow> map upper (dos_ext s) = [] | Some b \<Rightarrow> holds b (map upper (dos_ext s))"
      by blast
    have c1: "copy_opt (replicate 11 32) 0 f = Some (put_at (replicate 11 32) 0 (map upper (dos_base s)))"
      by (rule copy_opt_at [OF fe(2)]) (use True in simp)
    have c2: "copy_opt (put_at (replicate 11 32) 0 (map upper (dos_base s))) 8 e =
        Some (padded 8 (dos_base s) @ padded 3 (dos_ext s))"
      unfolding put_base_ext [of "dos_base s" "dos_ext s", OF True [THEN conjunct1] True [THEN conjunct2], symmetric]
      by (rule copy_opt_at [OF fe(4)]) (use True in simp)
    have n: "\<not> (8 < length (dos_base s) \<or> 3 < length (dos_ext s))" using True by simp
    obtain a l where al: "padded 8 (dos_base s) @ padded 3 (dos_ext s) = a # l"
      using True by (cases "padded 8 (dos_base s) @ padded 3 (dos_ext s)") (auto simp: padded_def)
    have d: "(if s = [46] then aset (padded 8 (dos_base s) @ padded 3 (dos_ext s)) 0 46
        else Some (padded 8 (dos_base s) @ padded 3 (dos_ext s))) = Some (dos_name s)"
      unfolding dos_name_def al by (simp add: aset_def Let_def)
    show ?thesis
      unfolding ToDosFileName_def c cnt Option.bind_lunit F E sl [OF hF] sl [OF hE] if_not_P [OF n] fe(1,3) c1 c2 dot d
      using True by simp
  next
    case False
    then have n: "8 < length (dos_base s) \<or> 3 < length (dos_ext s)" by auto
    show ?thesis
      unfolding ToDosFileName_def c cnt Option.bind_lunit F E sl [OF hF] sl [OF hE] if_P [OF n]
      using False by simp
  qed
qed

lemma length_dos_name:
  "length (dos_base s) \<le> 8 \<Longrightarrow> length (dos_ext s) \<le> 3 \<Longrightarrow> length (dos_name s) = 11"
  by (auto simp: dos_name_def padded_def Let_def)

section \<open>Directory sectors\<close>

definition name_at :: "u8 list \<Rightarrow> nat \<Rightarrow> u8 list" where
  "name_at b i = take 11 (drop (32 * i) b)"

lemma entry_name_at: "length b = 512 \<Longrightarrow> i < 16 \<Longrightarrow> entry_name b i = Some (name_at b i)"
  by (simp add: entry_name_def slice_of_def name_at_def)

lemma find_entry_ok:
  assumes "length b = 512" and "0 \<notin> set n" and "length n = 11"
  shows "\<exists>r. find_entry b (n @ [0]) i = Some r \<and>
    (case r of None \<Rightarrow> \<forall>k. i \<le> k \<and> k < 16 \<longrightarrow> name_at b k \<noteq> n
     | Some m \<Rightarrow> i \<le> m \<and> m < 16 \<and> name_at b m = n \<and> (\<forall>k. i \<le> k \<and> k < m \<longrightarrow> name_at b k \<noteq> n))"
proof (induction "16 - i" arbitrary: i)
  case 0
  then show ?case by (subst find_entry.simps) auto
next
  case (Suc m)
  then have i: "i < 16" by linarith
  have l: "length (name_at b i) = 11" using assms(1) i by (simp add: name_at_def)
  have s: "strcmp (n @ [0]) (name_at b i @ [0]) = Some (name_at b i = n)"
    by (rule strcmp_entry [OF holds_end0 [OF assms(2)]]) (simp add: l assms(3))
  have e: "find_entry b (n @ [0]) i =
      (if name_at b i = n then Some (Some i) else find_entry b (n @ [0]) (i + 1))"
    by (subst find_entry.simps) (simp add: i entry_name_at [OF assms(1) i] s)
  show ?case
  proof (cases "name_at b i = n")
    case True
    then show ?thesis using e i by (intro exI [of _ "Some i"]) auto
  next
    case False
    have "m = 16 - (i + 1)" using Suc.hyps(2) by simp
    from Suc.hyps(1) [OF this] obtain r where
      r: "find_entry b (n @ [0]) (i + 1) = Some r"
        "case r of None \<Rightarrow> \<forall>k. i + 1 \<le> k \<and> k < 16 \<longrightarrow> name_at b k \<noteq> n
         | Some m \<Rightarrow> i + 1 \<le> m \<and> m < 16 \<and> name_at b m = n \<and> (\<forall>k. i + 1 \<le> k \<and> k < m \<longrightarrow> name_at b k \<noteq> n)" by blast
    have ge: "i \<le> k \<longleftrightarrow> k = i \<or> i + 1 \<le> k" for k by linarith
    show ?thesis using e False r by (cases r) (auto simp: ge)
  qed
qed

lemma dos_name_nonzero: "0 \<notin> set s \<Longrightarrow> s \<noteq> [] \<Longrightarrow> 0 \<notin> set (dos_name s)"
proof -
  assume z: "0 \<notin> set s" and ne: "s \<noteq> []"
  have le: "length (split_on 46 (tl s)) \<le> length (split_on 46 s)"
    using length_split_tl [of 46 "tl s" "hd s"] ne by simp
  have zn: "0 \<notin> set (split_on 46 s ! k)" if "k < length (split_on 46 s)" for k
    using split_on_nonzero [OF z nth_mem [OF that]] .
  have "0 \<notin> set (dos_base s)" "0 \<notin> set (dos_ext s)" using zn [of 0] zn [of 1] le by (simp_all add: dos_base_def dos_ext_def)
  moreover have "0 \<notin> upper ` set t" if "0 \<notin> set t" for t using that upper_nonzero by (metis imageE)
  ultimately have "0 \<notin> set (padded 8 (dos_base s) @ padded 3 (dos_ext s))" by (auto simp: padded_def)
  moreover have "set (dos_name s) \<subseteq> insert 46 (set (padded 8 (dos_base s) @ padded 3 (dos_ext s)))"
    (is "_ \<subseteq> insert _ (set ?X)")
  proof (cases "s = [46]")
    case True
    have "set (tl ?X) \<subseteq> set ?X" by (cases ?X) auto
    moreover have "dos_name s = 46 # tl ?X" unfolding dos_name_def Let_def by (rule if_P [OF True])
    ultimately show ?thesis by auto
  next
    case False
    then have "dos_name s = ?X" by (simp only: dos_name_def Let_def if_False)
    then show ?thesis by auto
  qed
  ultimately show ?thesis by auto
qed

lemma put16_ok: "i + 2 \<le> length b \<Longrightarrow> put16 b i v = Some (put_at b i [ucast v, ucast (drop_bit 8 v)])"
  by (simp add: put16_def overwrite_fits)

lemma put32_ok: "i + 4 \<le> length b \<Longrightarrow> \<exists>b'. put32 b i v = Some b' \<and> length b' = length b"
  by (simp add: put32_def put16_ok)

text \<open>The length in the directory entry is changed in one sector, or nowhere.\<close>

lemma update_flen_ok:
  assumes "fat_ok st" and "holds (f_name f) s" and "s \<noteq> []" and "parentCluster f + 31 = int ps"
    and "ps < length (disk st)"
  shows "\<exists>x. fat12fsys_update_flen st f n = Some (st\<lparr>disk := (disk st)[ps := x]\<rparr>) \<and> length x = 512"
proof -
  have b: "length (disk st ! ps) = 512" using sector_length [OF assms(1,5)] .
  have same: "st = st\<lparr>disk := (disk st)[ps := disk st ! ps]\<rparr>" by simp
  show ?thesis
  proof (cases "length (dos_base s) \<le> 8 \<and> length (dos_ext s) \<le> 3")
    case False
    then have "ToDosFileName (f_name f) = Some None" using ToDosFileName_holds [OF assms(2,3)] by (simp only: if_False)
    then have "fat12fsys_update_flen st f n = Some st" using assms(4) by (simp add: fat12fsys_update_flen_def Let_def)
    then show ?thesis using b same by metis
  next
    case True
    have d: "ToDosFileName (f_name f) = Some (Some (dos_name s @ [0]))"
      using ToDosFileName_holds [OF assms(2,3)] True by simp
    have z: "0 \<notin> set (dos_name s)" "length (dos_name s) = 11"
      using dos_name_nonzero [of s] assms(2,3) length_dos_name True by (auto simp: holds_def)
    from find_entry_ok [OF b z, of 0] obtain r where r: "find_entry (disk st ! ps) (dos_name s @ [0]) 0 = Some r"
      "\<And>m. r = Some m \<Longrightarrow> m < 16" by fastforce
    note u = fat12fsys_update_flen_def assms(4) d flpydsk_read_sector_def r(1) Let_def
    show ?thesis
    proof (cases r)
      case None
      then have "fat12fsys_update_flen st f n = Some st" using assms(5) by (simp add: u)
      then show ?thesis using b same by metis
    next
      case (Some m)
      then have "32 * m + 28 + 4 \<le> length (disk st ! ps)" using r(2) b by simp
      from put32_ok [OF this] obtain x where x: "put32 (disk st ! ps) (32 * m + 28) n = Some x" "length x = 512"
        unfolding b by blast
      then have "fat12fsys_update_flen st f n = Some (st\<lparr>disk := (disk st)[ps := x]\<rparr>)"
        using assms(5) Some by (simp add: u flpydsk_write_sector_def slice_of_def)
      then show ?thesis using x(2) by blast
    qed
  qed
qed

text \<open>
  A name is stored in its 8.3 form: the part before the first dot and the part between it and
  the next, in upper case and padded with blanks to eight and three characters; a name with a
  longer part is refused.
\<close>

theorem dos_file_name_form:
  assumes "holds b s" and "s \<noteq> []" and "hd s \<noteq> 46"
  shows "ToDosFileName b =
    (let base = split_on 46 s ! 0; ext = (if 1 < length (split_on 46 (tl s)) then split_on 46 s ! 1 else [])
     in if length base \<le> 8 \<and> length ext \<le> 3
        then Some (Some (map upper base @ replicate (8 - length base) 32 @
                         map upper ext @ replicate (3 - length ext) 32 @ [0]))
        else Some None)"
proof -
  have "s \<noteq> [46]" using assms(3) by auto
  then show ?thesis using ToDosFileName_holds [OF assms(1,2)] assms(3)
    by (simp add: dos_name_def dos_base_def dos_ext_def padded_def Let_def)
qed

theorem dos_file_name_form_witness:
  "ToDosFileName [97, 46, 116, 120, 0] = Some (Some ([65] @ replicate 7 32 @ [84, 88, 32, 0]))"
proof -
  have "holds [97, 46, 116, 120, 0] [97, 46, 116, 120]" by (simp add: holds_def)
  from dos_file_name_form [OF this] show ?thesis
    by (simp add: split_on_cons onto_first_def upper_def Let_def)
qed

end
