(* ===== verification/Fatfiles.thy ===== *)
theory Fatfiles
  imports Fatnames
begin

text \<open>
  A file is a chain of clusters: reading follows the chain, and writing at its end extends it by
  free clusters only.
\<close>

section \<open>Files as chains of clusters\<close>

text \<open>The clusters of a file from the first one on, with their sectors on the disk.\<close>

fun chain_ok :: "fat12 \<Rightarrow> nat list \<Rightarrow> bool" where
  "chain_ok st [] = False"
| "chain_ok st [c] = (2 \<le> c \<and> c < 0xFF0 \<and> 31 + c < length (disk st) \<and> 0xFF8 \<le> fat_entry st c)"
| "chain_ok st (c # d # cs) =
     (2 \<le> c \<and> c < 0xFF0 \<and> 31 + c < length (disk st) \<and> fat_entry st c = of_nat d \<and> chain_ok st (d # cs))"

definition chain_bytes :: "fat12 \<Rightarrow> nat list \<Rightarrow> u8 list" where
  "chain_bytes st cs = concat (map (\<lambda>c. disk st ! (31 + c)) cs)"

text \<open>An open file stands in the first cluster of the chain; what is left of it to read.\<close>

definition stands_at :: "fobj \<Rightarrow> nat list \<Rightarrow> bool" where
  "stands_at f cs \<longleftrightarrow> cs \<noteq> [] \<and> currentCluster f = of_nat (hd cs) \<and> unat (position f) < 512"

definition remaining :: "fat12 \<Rightarrow> fobj \<Rightarrow> nat list \<Rightarrow> u8 list" where
  "remaining st f cs = drop (unat (position f)) (chain_bytes st cs)"

lemma chain_ok_hd:
  "chain_ok st (c # cs) \<Longrightarrow> 2 \<le> c \<and> c < 0xFF0 \<and> 31 + c < length (disk st)"
  by (cases cs) auto

lemma chain_ok_same: "fat_entry st' = fat_entry st \<Longrightarrow> length (disk st') = length (disk st) \<Longrightarrow>
    chain_ok st' cs = chain_ok st cs"
  by (induction st cs rule: chain_ok.induct) auto

lemma length_chain_bytes: "fat_ok st \<Longrightarrow> chain_ok st cs \<Longrightarrow> length (chain_bytes st cs) = 512 * length cs"
proof (induction st cs rule: chain_ok.induct)
  case (3 st c d cs)
  then show ?case by (simp add: chain_bytes_def sector_length)
qed (simp_all add: chain_bytes_def sector_length)

lemma data_sector: "c < 0xFF0 \<Longrightarrow> unat (31 + of_nat c :: u32) = 31 + c"
proof -
  assume c: "c < 0xFF0"
  have "(31 + of_nat c :: u32) = of_nat (31 + c)" by simp
  then show ?thesis using c by (simp only: unat_of_nat) simp
qed

lemma left_in_sector: "unat (p :: u32) < 512 \<Longrightarrow> unat (512 - p) = 512 - unat p"
  by (subst unat_sub) (simp_all add: word_le_nat_alt)

lemma min_transfer:
  "unat (p :: u32) < 512 \<Longrightarrow> unat (if n \<ge> 512 - p then 512 - p else n) = min (unat n) (512 - unat p)"
  using left_in_sector [of p] by (auto simp: word_le_nat_alt)

lemma transfer_read:
  assumes "fat_ok st" and "currentCluster f = of_nat c" and "2 \<le> c" and "c < 0xFF0" and "31 + c < length (disk st)"
    and "unat (position f) < 512" and "off + min (unat n) (512 - unat (position f)) \<le> length b"
  shows "transfer st f b off n floppy_dir_read =
    Some (put_at b off (take (unat n) (drop (unat (position f)) (disk st ! (31 + c)))), st)"
proof -
  let ?p = "unat (position f)" and ?n = "unat n"
  have l: "length (disk st ! (31 + c)) = 512" using sector_length [OF assms(1,5)] .
  have t: "take (min ?n (512 - ?p)) (drop ?p (disk st ! (31 + c))) = take ?n (drop ?p (disk st ! (31 + c)))"
    using l by (simp add: min_def)
  have s: "slice_of (disk st ! (31 + c)) ?p (min ?n (512 - ?p)) = Some (take ?n (drop ?p (disk st ! (31 + c))))"
    using l assms(6) by (subst slice_fits) (simp_all add: t)
  have "overwrite b off (take ?n (drop ?p (disk st ! (31 + c)))) =
      Some (put_at b off (take ?n (drop ?p (disk st ! (31 + c)))))"
    using l assms(7) by (intro overwrite_fits) (simp add: min.commute)
  then show ?thesis using s assms(5)
    by (simp add: transfer_def assms(2) data_sector [OF assms(4)] min_transfer [OF assms(6)]
        flpydsk_read_sector_def Let_def)
qed

lemma transfer_write:
  assumes "fat_ok st" and "currentCluster f = of_nat c" and "2 \<le> c" and "c < 0xFF0" and "31 + c < length (disk st)"
    and "unat (position f) < 512" and "off + min (unat n) (512 - unat (position f)) \<le> length b"
  shows "transfer st f b off n floppy_dir_write =
    Some (b, st\<lparr>disk := (disk st)[31 + c := put_at (disk st ! (31 + c)) (unat (position f))
      (take (min (unat n) (512 - unat (position f))) (drop off b))]\<rparr>)"
proof -
  let ?p = "unat (position f)" and ?m = "min (unat n) (512 - unat (position f))"
  have l: "length (disk st ! (31 + c)) = 512" using sector_length [OF assms(1,5)] .
  have "slice_of b off ?m = Some (take ?m (drop off b))" using assms(7) by (rule slice_fits)
  moreover have "overwrite (disk st ! (31 + c)) ?p (take ?m (drop off b)) =
      Some (put_at (disk st ! (31 + c)) ?p (take ?m (drop off b)))"
    using l assms(6,7) by (intro overwrite_fits) simp
  moreover have "length (put_at (disk st ! (31 + c)) ?p (take ?m (drop off b))) = 512"
    using l assms(6,7) by (subst length_put_at) simp_all
  then have "slice_of (put_at (disk st ! (31 + c)) ?p (take ?m (drop off b))) 0 512 =
      Some (put_at (disk st ! (31 + c)) ?p (take ?m (drop off b)))" by (subst slice_fits) simp_all
  ultimately show ?thesis using assms(5)
    by (simp add: transfer_def assms(2) data_sector [OF assms(4)] min_transfer [OF assms(6)]
        flpydsk_read_sector_def flpydsk_write_sector_def Let_def)
qed

lemma small_cluster:
  assumes "2 \<le> d" and "d < 0xFF0"
  shows "(of_nat d :: u16) \<noteq> 0" "\<not> 0xFF8 \<le> (of_nat d :: u16)" "unat (of_nat d :: u16) = d"
    "(ucast (of_nat d :: u16) :: u32) = of_nat d" "unat (of_nat d :: u32) = d"
proof -
  show u: "unat (of_nat d :: u16) = d" and "unat (of_nat d :: u32) = d" using assms by (simp_all add: unat_of_nat)
  show "(of_nat d :: u16) \<noteq> 0" using u assms(1) by (metis not_numeral_le_zero unat_0)
  show "\<not> 0xFF8 \<le> (of_nat d :: u16)" using u assms(2) by (simp add: word_le_nat_alt)
  show "(ucast (of_nat d :: u16) :: u32) = of_nat d"
    by (metis u of_nat_unat)
qed

lemma next_read:
  assumes "fat_ok st" and "chain_ok st (c # cs)" and "currentCluster f = of_nat c"
  shows "next_cluster st f n floppy_dir_read =
    Some (case cs of [] \<Rightarrow> None | d # ds \<Rightarrow> Some (of_nat d), fat_loaded st c)"
proof -
  note h = chain_ok_hd [OF assms(2)]
  have u: "unat (currentCluster f) = c" using h assms(3) small_cluster(5) by simp
  show ?thesis
  proof (cases cs)
    case Nil
    then show ?thesis using assms(2) h by (simp add: next_cluster_def u read_entry_ok assms(1))
  next
    case (Cons d ds)
    then have e: "fat_entry st c = of_nat d" and d: "2 \<le> d" "d < 0xFF0" using assms(2) chain_ok_hd [of st d ds] by auto
    then show ?thesis using h small_cluster [OF d] Cons by (simp add: next_cluster_def u read_entry_ok assms(1))
  qed
qed

lemma remaining_loaded [simp]: "remaining (fat_loaded st c) f cs = remaining st f cs"
  by (simp add: remaining_def chain_bytes_def)

lemma chain_bytes_loaded [simp]: "chain_bytes (fat_loaded st c) cs = chain_bytes st cs"
  by (simp add: chain_bytes_def)

lemma chain_ok_loaded [simp]: "chain_ok (fat_loaded st c) cs = chain_ok st cs"
  by (rule chain_ok_same) simp_all

lemma remaining_Cons:
  "fat_ok st \<Longrightarrow> chain_ok st (c # cs) \<Longrightarrow> unat (position f) < 512 \<Longrightarrow>
     remaining st f (c # cs) = drop (unat (position f)) (disk st ! (31 + c)) @ chain_bytes st cs"
  using chain_ok_hd [of st c cs] by (simp add: remaining_def chain_bytes_def sector_length)

text \<open>One step of the transfer: it ends inside the cluster, at the end of the chain, or goes on.\<close>

lemma rw_nothing: "fat12fsys_rw st f b off 0 dir = Some (f, b, st)"
  by (subst fat12fsys_rw.simps) simp

lemma rw_inside:
  assumes "transfer st f b off n dir = Some (b', st')" and "n \<noteq> 0"
    and "unat (position f) + unat n < 512" and "unat (position f) + unat n \<le> unat (fileLength f)"
    and "f_flags f \<noteq> FS_DIRECTORY"
  shows "fat12fsys_rw st f b off n dir = Some (f\<lparr>position := position f + n\<rparr>, b', st')"
    and "unat (position f + n) = unat (position f) + unat n"
proof -
  show pos: "unat (position f + n) = unat (position f) + unat n"
    using assms(3) by (simp add: unat_word_ariths)
  have "n < 512 - position f" "position f + n < 512" "position f + n \<le> fileLength f"
    using pos assms(3,4) left_in_sector [of "position f"] by (simp_all add: word_less_nat_alt word_le_nat_alt)
  then show "fat12fsys_rw st f b off n dir = Some (f\<lparr>position := position f + n\<rparr>, b', st')"
    using assms(1,2,5) by (subst fat12fsys_rw.simps) (simp add: Let_def)
qed

lemma rw_leaves:
  assumes "transfer st f b off n dir = Some (b', st1)" and "unat (position f) < 512" and "512 \<le> unat (position f) + unat n"
    and "next_cluster st1 f (n - (512 - position f)) dir = Some (nx, st2)"
  shows "fat12fsys_rw st f b off n dir =
    (case nx of None \<Rightarrow> Some (f\<lparr>eof := 1\<rparr>, b', st2)
     | Some c \<Rightarrow> fat12fsys_rw st2 (f\<lparr>currentCluster := ucast c, position := 0\<rparr>) b'
         (off + (512 - unat (position f))) (n - (512 - position f)) dir)"
proof -
  have "n \<noteq> 0" using assms(2,3) by auto
  moreover have "\<not> n < 512 - position f" using assms(2,3) left_in_sector [of "position f"]
    by (simp add: word_less_nat_alt)
  ultimately show ?thesis using assms(1,4) left_in_sector [OF assms(2)]
    by (subst fat12fsys_rw.simps) (auto simp: Let_def split: option.split)
qed

lemma left_over:
  assumes "unat (p :: u32) < 512" and "512 \<le> unat p + n"
  shows "(of_nat n :: u32) - (512 - p) = of_nat (unat p + n - 512)"
proof -
  have "unat (512 - p) \<le> n" using assms left_in_sector [of p] by simp
  then have "(of_nat (n - unat (512 - p)) :: u32) = of_nat n - (512 - p)" by (simp add: of_nat_diff)
  then show ?thesis using left_in_sector [OF assms(1)] assms by simp
qed

text \<open>What reading \<open>n\<close> bytes achieves: the bytes arrive, the disk stays, and the file stands where the
  rest of its bytes follow.\<close>

definition reads :: "fat12 \<Rightarrow> fobj \<Rightarrow> nat list \<Rightarrow> u8 list \<Rightarrow> nat \<Rightarrow> nat \<Rightarrow> (fobj \<times> u8 list \<times> fat12) option \<Rightarrow> bool" where
  "reads st f cs b off n r \<longleftrightarrow> (\<exists>f' st'. r = Some (f', put_at b off (take n (remaining st f cs)), st') \<and>
     disk st' = disk st \<and> mount st' = mount st \<and>
     (if n < length (remaining st f cs)
      then eof f' = eof f \<and> (\<exists>cs'. chain_ok st cs' \<and> stands_at f' cs' \<and>
             remaining st f' cs' = drop n (remaining st f cs))
      else n = 0 \<or> eof f' = 1))"

lemma read_inside:
  assumes "fat_ok st" and "chain_ok st (c # cs)" and "stands_at f (c # cs)" and "f_flags f \<noteq> FS_DIRECTORY"
    and "unat (position f) + n < 512" and "unat (position f) + n \<le> unat (fileLength f)" and "off + n \<le> length b"
  shows "reads st f (c # cs) b off n (fat12fsys_rw st f b off (of_nat n) floppy_dir_read)"
proof (cases "n = 0")
  case True
  then show ?thesis using assms(2,3) by (auto simp: reads_def rw_nothing intro!: exI [of _ "c # cs"])
next
  case False
  have un: "unat (of_nat n :: u32) = n" using assms(5) by (simp add: unat_of_nat)
  then have nz: "(of_nat n :: u32) \<noteq> 0" using False by (metis unat_0)
  have p: "unat (position f) < 512" "currentCluster f = of_nat c" using assms(3) by (auto simp: stands_at_def)
  have h: "2 \<le> c" "c < 0xFF0" "31 + c < length (disk st)" using chain_ok_hd [OF assms(2)] by auto
  have s: "length (disk st ! (31 + c)) = 512" using sector_length [OF assms(1) h(3)] .
  note t = transfer_read [OF assms(1) p(2) h p(1), of off "of_nat n" b, unfolded un]
  have "off + min n (512 - unat (position f)) \<le> length b" using assms(7) by simp
  note rw = rw_inside [OF t [OF this] nz _ _ assms(4), unfolded un, OF assms(5,6)]
  have r: "take n (remaining st f (c # cs)) = take n (drop (unat (position f)) (disk st ! (31 + c)))"
    "n < length (remaining st f (c # cs))"
    using remaining_Cons [OF assms(1,2) p(1)] s assms(5) by simp_all
  have "stands_at (f\<lparr>position := position f + of_nat n\<rparr>) (c # cs)"
    using p rw(2) assms(5) by (simp add: stands_at_def)
  moreover have "remaining st (f\<lparr>position := position f + of_nat n\<rparr>) (c # cs) = drop n (remaining st f (c # cs))"
    using rw(2) by (simp add: remaining_def add.commute)
  ultimately show ?thesis using rw(1) r assms(2)
    by (auto simp: reads_def intro!: exI [of _ "c # cs"])
qed

lemma rw_read:
  assumes "fat_ok st" and "chain_ok st cs" and "stands_at f cs" and "f_flags f \<noteq> FS_DIRECTORY"
    and "n \<le> length (remaining st f cs)" and "unat (position f) + n \<le> unat (fileLength f)"
    and "off + n \<le> length b"
  shows "reads st f cs b off n (fat12fsys_rw st f b off (of_nat n) floppy_dir_read)"
  using assms
proof (induction cs arbitrary: st f off b n)
  case Nil
  then show ?case by simp
next
  case (Cons c cs)
  let ?p = "unat (position f)" and ?m = "unat (position f) + n - 512" and ?rem = "remaining st f (c # cs)"
  show ?case
  proof (cases "?p + n < 512")
    case True
    then show ?thesis using read_inside Cons.prems by blast
  next
    case F: False
    have "n < 2 ^ 32" using Cons.prems(6) unat_u32 [of "fileLength f"] by linarith
    then have un: "unat (of_nat n :: u32) = n" by (simp add: unat_of_nat)
    have h: "2 \<le> c" "c < 0xFF0" "31 + c < length (disk st)" using chain_ok_hd [OF Cons.prems(2)] by auto
    have s: "length (disk st ! (31 + c)) = 512" using sector_length [OF Cons.prems(1) h(3)] .
    have p: "?p < 512" "currentCluster f = of_nat c" using Cons.prems(3) by (auto simp: stands_at_def)
    note r = remaining_Cons [OF Cons.prems(1,2) p(1)]
    let ?d = "drop ?p (disk st ! (31 + c))" and ?st = "fat_loaded st c"
    have d: "take n ?d = ?d" "length ?d = 512 - ?p" using F s by simp_all
    have "off + min n (512 - ?p) \<le> length b" using Cons.prems(7) by simp
    note t = transfer_read [OF Cons.prems(1) p(2) h p(1), of off "of_nat n" b, unfolded un d(1), OF this]
    note nx = next_read [OF Cons.prems(1,2) p(2), of "of_nat ?m"]
    have F': "512 \<le> ?p + n" using F by simp
    note rw = rw_leaves [OF t p(1), unfolded un, OF F', unfolded left_over [OF p(1) F'], OF nx]
    show ?thesis
    proof (cases cs)
      case Nil
      then have e: "n = 512 - ?p" "take n ?rem = ?d" using Cons.prems(5) F r s by (simp_all add: chain_bytes_def)
      then show ?thesis using rw Nil r s by (auto simp: reads_def chain_bytes_def)
    next
      case c: (Cons e es)
      let ?f = "f\<lparr>currentCluster := of_nat e, position := 0\<rparr>"
      have e: "2 \<le> e" "e < 0xFF0" using Cons.prems(2) chain_ok_hd [of st e es] c by auto
      have rem: "remaining ?st ?f cs = chain_bytes st cs" by (simp add: remaining_def)
      have dr: "drop ?m (chain_bytes st cs) = drop n ?rem" "?m < length (chain_bytes st cs) \<longleftrightarrow> n < length ?rem"
        "?d @ take ?m (chain_bytes st cs) = take n ?rem" unfolding r using s F p(1) by (auto simp: add.commute)
      have "?m \<le> length (chain_bytes st cs)" using Cons.prems(5) r s p(1) by simp
      moreover have "off + (512 - ?p) + ?m \<le> length (put_at b off ?d)" using Cons.prems(7) F d p(1) by simp
      moreover have "chain_ok ?st cs" "stands_at ?f cs" "chain_ok st cs" using Cons.prems(2) c by (simp_all add: stands_at_def)
      ultimately have "reads ?st ?f cs (put_at b off ?d) (off + (512 - ?p)) ?m
          (fat12fsys_rw ?st ?f (put_at b off ?d) (off + (512 - ?p)) (of_nat ?m) floppy_dir_read)"
        using Cons.prems(1,4,6) rem by (intro Cons.IH) simp_all
      moreover have "put_at (put_at b off ?d) (off + (512 - ?p)) (take ?m (chain_bytes st cs)) = put_at b off (take n ?rem)"
        using put_at_twice [of off ?d "take ?m (chain_bytes st cs)" b] Cons.prems(7) F d(2) p(1) unfolding dr(3) by simp
      moreover have "\<not> ?m < length (chain_bytes st cs) \<Longrightarrow> ?m \<noteq> 0"
        using length_chain_bytes [OF Cons.prems(1) \<open>chain_ok st cs\<close>] c by simp
      ultimately show ?thesis using rw small_cluster(4) [OF e] c dr(1,2) unfolding reads_def rem by auto
    qed
  qed
qed

section \<open>Writing at the end of a file\<close>

definition free_clusters :: "fat12 \<Rightarrow> nat set" where
  "free_clusters st = {k. 2 \<le> k \<and> k < 0xFF0 \<and> 31 + k < length (disk st) \<and> fat_entry st k = 0}"

lemma finite_free [simp]: "finite (free_clusters st)"
  by (rule finite_subset [of _ "{..<0xFF0}"]) (auto simp: free_clusters_def)

lemma free_loaded [simp]: "free_clusters (fat_loaded st c) = free_clusters st"
  by (simp add: free_clusters_def)

text \<open>Storing a data sector leaves the table alone.\<close>

lemma data_sector_stored:
  assumes "fat_ok st" and "14 \<le> j" and "j < length (disk st)" and "length x = 512"
  shows "fat_ok (st\<lparr>disk := (disk st)[j := x]\<rparr>)"
    and "k < 0xFF0 \<Longrightarrow> fat_entry (st\<lparr>disk := (disk st)[j := x]\<rparr>) k = fat_entry st k"
proof -
  show "fat_ok (st\<lparr>disk := (disk st)[j := x]\<rparr>)"
    using assms by (auto simp: fat_ok_def dest: set_update_subset_insert [THEN subsetD])
  assume k: "k < 0xFF0"
  have "fat_byte (st\<lparr>disk := (disk st)[j := x]\<rparr>) i = fat_byte st i" if "i < 512 * 13" for i
  proof -
    have "i div 512 < 13" using that by (simp add: less_mult_imp_div_less)
    then have "j \<noteq> 1 + i div 512" using assms(2) by linarith
    then show ?thesis by (simp add: fat_byte_def)
  qed
  moreover have "FAT_Offset k < 512 * 13" "FAT_Offset k + 1 < 512 * 13" using k by (simp_all add: FAT_Offset_def)
  ultimately show "fat_entry (st\<lparr>disk := (disk st)[j := x]\<rparr>) k = fat_entry st k"
    by (simp only: fat_entry_def fat_word_def)
qed

lemma chain_ok_cong:
  "\<forall>k \<in> set cs. fat_entry st' k = fat_entry st k \<Longrightarrow> length (disk st') = length (disk st) \<Longrightarrow>
     chain_ok st' cs = chain_ok st cs"
  by (induction st cs rule: chain_ok.induct) auto

lemma occupy_on_disk:
  assumes "fat_ok st" and "chain < 0xFF0" and "chain \<noteq> 0" and "fat_entry st chain \<noteq> 0" and "free_clusters st \<noteq> {}"
  shows "\<exists>m st'. fat12fsys_occupy_free_cluster st chain = Some (m, st') \<and> fat_frame st st' \<and>
    m \<in> free_clusters st \<and> m \<noteq> chain \<and> fat_entry st' chain = of_nat m \<and> fat_entry st' m = 0xFF8 \<and>
    (\<forall>k < 0xFF0. k \<noteq> chain \<and> k \<noteq> m \<longrightarrow> fat_entry st' k = fat_entry st k) \<and>
    free_clusters st' = free_clusters st - {m}"
proof -
  from occupy_ok [OF assms(1,2)] obtain m st' where
    r: "fat12fsys_occupy_free_cluster st chain = Some (m, st')" "fat_frame st st'" "2 \<le> m" "m \<le> 0xFF0"
      "\<forall>k. 2 \<le> k \<and> k < m \<longrightarrow> fat_entry st k \<noteq> 0" "m < 0xFF0 \<longrightarrow> fat_entry st m = 0" and
    e: "\<forall>k < 0xFF0. fat_entry st' k =
       (if k = chain \<and> chain \<noteq> 0 \<and> m < 0xFF0 then of_nat m else if k = m then 0xFF8 else fat_entry st k)"
    by blast
  from assms(5) obtain k where k: "2 \<le> k" "k < 0xFF0" "31 + k < length (disk st)" "fat_entry st k = 0"
    by (auto simp: free_clusters_def)
  then have "m \<le> k" using r(5) by (metis not_less)
  then have m: "m \<in> free_clusters st" "m < 0xFF0" using k r(3,6) by (auto simp: free_clusters_def)
  then have mc: "m \<noteq> chain" using assms(4) by (auto simp: free_clusters_def)
  have l: "length (disk st') = length (disk st)" using r(2) by (simp add: fat_frame_def)
  have "(of_nat m :: u16) \<noteq> 0" using small_cluster(1) [OF r(3) m(2)] .
  then have "free_clusters st' = free_clusters st - {m}"
    using e m mc assms(3,4) l by (auto simp: free_clusters_def split: if_splits)
  then show ?thesis using r(1,2) m mc e assms(2,3) by (intro exI [of _ m] exI [of _ st']) auto
qed

lemma next_write_last:
  assumes "fat_ok st" and "chain_ok st [c]" and "currentCluster f = of_nat c"
  shows "next_cluster st f 0 floppy_dir_write = Some (None, fat_loaded st c)"
    and "n \<noteq> 0 \<Longrightarrow> next_cluster st f n floppy_dir_write =
      do { (m, st) \<leftarrow> fat12fsys_occupy_free_cluster (fat_loaded st c) c; Some (Some (of_nat m), st) }"
proof -
  have h: "2 \<le> c" "c < 0xFF0" "0xFF8 \<le> fat_entry st c" using assms(2) by auto
  have u: "unat (currentCluster f) = c" using h assms(3) small_cluster(5) by simp
  have nz: "fat_entry st c \<noteq> 0" using h(3) by auto
  show "next_cluster st f 0 floppy_dir_write = Some (None, fat_loaded st c)"
    using h by (simp add: next_cluster_def u read_entry_ok assms(1))
  show "next_cluster st f n floppy_dir_write =
      do { (m, st) \<leftarrow> fat12fsys_occupy_free_cluster (fat_loaded st c) c; Some (Some (of_nat m), st) }" if "n \<noteq> 0"
  proof -
    have "0 < n" using that by (simp add: word_less_nat_alt unat_gt_0)
    then show ?thesis
    using h nz that by (simp add: next_cluster_def u read_entry_ok assms(1))
  qed
qed

text \<open>What writing \<open>n\<close> bytes at the end of a chain achieves.\<close>

definition appended :: "fat12 \<Rightarrow> fat12 \<Rightarrow> nat \<Rightarrow> nat list \<Rightarrow> nat \<Rightarrow> u8 list \<Rightarrow> bool" where
  "appended st st' c ds p d \<longleftrightarrow> fat_ok st' \<and> length (disk st') = length (disk st) \<and> mount st' = mount st \<and>
     chain_ok st' (c # ds) \<and> set ds \<subseteq> free_clusters st \<and> length ds = (p + length d - 1) div 512 \<and>
     take (p + length d) (chain_bytes st' (c # ds)) = take p (disk st ! (31 + c)) @ d \<and>
     (\<forall>k < 0xFF0. 2 \<le> k \<and> k \<noteq> c \<and> k \<notin> set ds \<longrightarrow>
        fat_entry st' k = fat_entry st k \<and> disk st' ! (31 + k) = disk st ! (31 + k)) \<and>
     (\<forall>j. j = 0 \<or> 14 \<le> j \<and> j < 33 \<longrightarrow> disk st' ! j = disk st ! j)"

lemma append_inside:
  assumes "fat_ok st" and "chain_ok st [c]" and "stands_at f [c]" and "f_flags f \<noteq> FS_DIRECTORY"
    and "unat (position f) + n < 512" and "unat (position f) + n \<le> unat (fileLength f)" and "off + n \<le> length b"
  shows "\<exists>f' st'. fat12fsys_rw st f b off (of_nat n) floppy_dir_write = Some (f', b, st') \<and>
    appended st st' c [] (unat (position f)) (take n (drop off b))"
proof (cases "n = 0")
  case True
  then show ?thesis using assms(1,2,3) sector_length [OF assms(1), of "31 + c"]
    by (auto simp: rw_nothing appended_def chain_bytes_def stands_at_def)
next
  case False
  let ?p = "unat (position f)" and ?s = "disk st ! (31 + c)" 
  define d where "d = take n (drop off b)"
  have un: "unat (of_nat n :: u32) = n" using assms(5) by (simp add: unat_of_nat)
  then have nz: "(of_nat n :: u32) \<noteq> 0" using False by (metis unat_0)
  have p: "?p < 512" "currentCluster f = of_nat c" using assms(3) by (auto simp: stands_at_def)
  have h: "2 \<le> c" "c < 0xFF0" "31 + c < length (disk st)" "0xFF8 \<le> fat_entry st c" using assms(2) by auto
  have s: "length ?s = 512" using sector_length [OF assms(1) h(3)] .
  have m: "min n (512 - ?p) = n" using assms(5) by simp
  have ld: "length d = n" using assms(7) by (simp add: d_def)
  let ?st = "st\<lparr>disk := (disk st)[31 + c := put_at ?s ?p d]\<rparr>"
  have l: "length (put_at ?s ?p d) = 512" using s assms(5) ld by (subst length_put_at) simp_all
  note t = transfer_write [OF assms(1) p(2) h(1-3) p(1), of off "of_nat n" b, unfolded un m, OF assms(7), folded d_def]
  note rw = rw_inside(1) [OF t nz _ _ assms(4), unfolded un, OF assms(5,6)]
  have j: "14 \<le> 31 + c" by simp
  note ds = data_sector_stored [OF assms(1) j h(3) l]
  have "fat_entry ?st c = fat_entry st c" using ds(2) h(2) by blast
  then have "chain_ok ?st [c]" using h by simp
  moreover have "take (?p + length d) (chain_bytes ?st [c]) = take ?p ?s @ d"
    using h(3) s p(1) by (simp add: chain_bytes_def put_at_def ld)
  moreover have "length ([] :: nat list) = (?p + length d - 1) div 512" using assms(5) ld by simp
  ultimately have "appended st ?st c [] ?p d"
    using ds h(2) by (auto simp: appended_def nth_list_update)
  then show ?thesis using rw unfolding d_def by blast
qed

lemma append_next:
  assumes a: "appended s st' m ds 0 e" and fr: "fat_frame st1 s" and fs: "free_clusters s = free_clusters st1 - {m}"
    and m: "m \<in> free_clusters st1" "m \<noteq> c" and c: "2 \<le> c" "c < 0xFF0" "31 + c < length (disk st)"
    and e: "fat_entry s c = of_nat m" "\<forall>k < 0xFF0. k \<noteq> c \<and> k \<noteq> m \<longrightarrow> fat_entry s k = fat_entry st1 k"
    and st1: "st1 = st\<lparr>disk := (disk st)[31 + c := x]\<rparr>" and ok: "fat_ok st"
    and x: "x = take p (disk st ! (31 + c)) @ d" "length x = 512" "p + length d = 512" and l: "0 < length e"
  shows "appended st st' c (m # ds) p (d @ e)"
proof -
  have j: "14 \<le> 31 + c" by simp
  have e1: "fat_entry st1 k = fat_entry st k" if "k < 0xFF0" for k
    unfolding st1 by (rule data_sector_stored(2) [OF ok j c(3) x(2) that])
  have f1: "free_clusters st1 = free_clusters st" using e1 by (auto simp: free_clusters_def st1)
  have m': "2 \<le> m" "m < 0xFF0" using m(1) by (auto simp: free_clusters_def)
  have "(of_nat m :: u16) \<noteq> 0" by (rule small_cluster(1) [OF m'])
  then have cd: "c \<notin> set ds" using a e(1) by (auto simp: appended_def free_clusters_def)
  have s: "fat_ok s" "mount s = mount st" "length (disk s) = length (disk st)"
    using fr by (simp_all add: fat_frame_def st1)
  have s4: "disk s ! n = disk st1 ! n" if "n = 0 \<or> 14 \<le> n" for n
    using fr that unfolding fat_frame_def by blast
  have d1: "disk st1 ! n = (if n = 31 + c then x else disk st ! n)" for n using c(3) by (simp add: st1)
  from a have
    a1: "fat_ok st'" "length (disk st') = length (disk s)" "mount st' = mount s" "chain_ok st' (m # ds)"
      "set ds \<subseteq> free_clusters s" "length ds = (length e - 1) div 512" and
    a2: "take (length e) (chain_bytes st' (m # ds)) = e" and
    a3: "\<And>k. k < 0xFF0 \<Longrightarrow> 2 \<le> k \<Longrightarrow> k \<noteq> m \<Longrightarrow> k \<notin> set ds \<Longrightarrow>
        fat_entry st' k = fat_entry s k \<and> disk st' ! (31 + k) = disk s ! (31 + k)"
    by (simp_all add: appended_def)
  have a4: "disk st' ! j = disk s ! j" if "j = 0 \<or> 14 \<le> j \<and> j < 33" for j
    using a that unfolding appended_def by blast
  have sc: "disk st' ! (31 + c) = x" "fat_entry st' c = of_nat m"
    using a3 [OF c(2,1) m(2) [symmetric] cd] s4 [of "31 + c"] d1 [of "31 + c"] e(1) by simp_all
  have "chain_ok st' (c # m # ds)" using a1(2,4) c s(3) sc(2) by simp
  moreover have "set (m # ds) \<subseteq> free_clusters st" using a1(5) fs m(1) f1 by auto
  moreover have "length (m # ds) = (p + length (d @ e) - 1) div 512"
  proof -
    have "p + length (d @ e) - 1 = 512 + (length e - 1)" using x(3) l by (cases e) simp_all
    then show ?thesis using a1(6) by simp
  qed
  moreover have "take (p + length (d @ e)) (chain_bytes st' (c # m # ds)) = take p (disk st ! (31 + c)) @ d @ e"
  proof -
    have "chain_bytes st' (c # m # ds) = x @ chain_bytes st' (m # ds)" by (simp add: chain_bytes_def sc(1))
    moreover have "p + length (d @ e) = length x + length e" using x by simp
    ultimately show ?thesis using a2 x(1) by simp
  qed
  moreover have "fat_entry st' k = fat_entry st k \<and> disk st' ! (31 + k) = disk st ! (31 + k)"
    if k: "k < 0xFF0" "2 \<le> k" "k \<noteq> c" "k \<notin> set (m # ds)" for k
    using a3 [OF k(1,2)] k s4 [of "31 + k"] d1 [of "31 + k"] e(2) e1 [OF k(1)] by simp
  moreover have "disk st' ! j = disk st ! j" if "j = 0 \<or> 14 \<le> j \<and> j < 33" for j
  proof -
    have "j \<noteq> 31 + c" using that c(1) by linarith
    then show ?thesis using a4 [OF that] s4 [of j] d1 [of j] that by auto
  qed
  ultimately show ?thesis using a1(1-3) s(2,3) by (simp add: appended_def del: chain_ok.simps)
qed

text \<open>Filling the last cluster up.\<close>

lemma fill_last:
  assumes "fat_ok st" and "chain_ok st [c]" and "stands_at f [c]" and "512 \<le> unat (position f) + n"
    and "n < 2 ^ 32" and "off + n \<le> length b"
    and d: "d = take (512 - unat (position f)) (drop off b)"
    and st1: "st1 = st\<lparr>disk := (disk st)[31 + c := take (unat (position f)) (disk st ! (31 + c)) @ d]\<rparr>"
  shows "transfer st f b off (of_nat n) floppy_dir_write = Some (b, st1)" (is ?transfer)
    and "unat (position f) + length d = 512" (is ?d)
    and "length (take (unat (position f)) (disk st ! (31 + c)) @ d) = 512" (is ?x)
    and "fat_ok st1" (is ?ok) and "chain_ok st1 [c]" (is ?chain)
    and "k < 0xFF0 \<Longrightarrow> fat_entry st1 k = fat_entry st k"
proof -
  let ?p = "unat (position f)" and ?s = "disk st ! (31 + c)"
  have p: "?p < 512" "currentCluster f = of_nat c" using assms(3) by (auto simp: stands_at_def)
  have un: "unat (of_nat n :: u32) = n" using assms(5) by (simp add: unat_of_nat)
  have h: "2 \<le> c" "c < 0xFF0" "31 + c < length (disk st)" "0xFF8 \<le> fat_entry st c" using assms(2) by auto
  have s: "length ?s = 512" using sector_length [OF assms(1) h(3)] .
  have mn: "min n (512 - ?p) = 512 - ?p" using assms(4) by simp
  have ld: "length d = 512 - ?p" using assms(4,6) by (simp add: d)
  then show ?d using p(1) by simp
  have x: "put_at ?s ?p d = take ?p ?s @ d" using s p(1) ld by (simp add: put_at_def)
  show lx: ?x using s p(1) ld by simp
  have "off + min n (512 - ?p) \<le> length b" using assms(6) by simp
  from transfer_write [OF assms(1) p(2) h(1-3) p(1), of off "of_nat n" b, unfolded un, OF this]
  show ?transfer unfolding mn d [symmetric] x st1 .
  have "14 \<le> 31 + c" by simp
  note ds = data_sector_stored [OF assms(1) this h(3) lx, folded st1]
  show ?ok by (rule ds(1))
  show "fat_entry st1 k = fat_entry st k" if "k < 0xFF0" for k using that by (rule ds(2))
  then show ?chain using h by (simp add: st1)
qed

text \<open>A write that ends exactly at the end of the last cluster leaves the file standing where it was.\<close>

lemma append_exact:
  assumes "fat_ok st" and "chain_ok st [c]" and "stands_at f [c]" and "unat (position f) + n = 512"
    and "off + n \<le> length b"
  shows "\<exists>st'. fat12fsys_rw st f b off (of_nat n) floppy_dir_write = Some (f\<lparr>eof := 1\<rparr>, b, st') \<and>
    appended st st' c [] (unat (position f)) (take n (drop off b))"
proof -
  let ?p = "unat (position f)"
  define d where "d = take (512 - ?p) (drop off b)"
  define st1 where "st1 = st\<lparr>disk := (disk st)[31 + c := take ?p (disk st ! (31 + c)) @ d]\<rparr>"
  have n: "512 \<le> ?p + n" "n < 2 ^ 32" "n = 512 - ?p" using assms(4) by simp_all
  have un: "unat (of_nat n :: u32) = n" using n(2) by (simp add: unat_of_nat)
  have p: "?p < 512" "currentCluster f = of_nat c" using assms(3) by (auto simp: stands_at_def)
  have h: "2 \<le> c" "c < 0xFF0" "31 + c < length (disk st)" using assms(2) by auto
  note fl = fill_last [OF assms(1-3) n(1,2) assms(5) d_def st1_def]
  have m0: "(of_nat (?p + n - 512) :: u32) = 0" using assms(4) by simp
  have "fat12fsys_rw st f b off (of_nat n) floppy_dir_write = Some (f\<lparr>eof := 1\<rparr>, b, fat_loaded st1 c)"
    using rw_leaves [OF fl(1) p(1), unfolded un, OF n(1), unfolded left_over [OF p(1) n(1)] m0,
      OF next_write_last(1) [OF fl(4,5) p(2)]] by simp
  moreover have "appended st (fat_loaded st1 c) c [] ?p d"
  proof -
    have "?p + length d - 1 = 511" using fl(2) by simp
    then show ?thesis using fl h by (auto simp: appended_def chain_bytes_def st1_def)
  qed
  ultimately show ?thesis unfolding d_def n(3) by blast
qed

text \<open>A write that goes beyond the last cluster continues in a fresh one.\<close>

lemma append_beyond:
  assumes "fat_ok st" and "chain_ok st [c]" and "stands_at f [c]" and "512 < unat (position f) + n"
    and "n < 2 ^ 32" and "off + n \<le> length b" and "free_clusters st \<noteq> {}"
  shows "\<exists>m s. fat12fsys_rw st f b off (of_nat n) floppy_dir_write =
      fat12fsys_rw s (f\<lparr>currentCluster := of_nat m, position := 0\<rparr>) b (off + (512 - unat (position f)))
        (of_nat (unat (position f) + n - 512)) floppy_dir_write \<and>
    fat_ok s \<and> chain_ok s [m] \<and> m \<in> free_clusters st \<and> free_clusters s = free_clusters st - {m} \<and>
    (\<forall>st' ds e. appended s st' m ds 0 e \<and> 0 < length e \<longrightarrow>
       appended st st' c (m # ds) (unat (position f)) (take (512 - unat (position f)) (drop off b) @ e))"
proof -
  let ?p = "unat (position f)" and ?m = "unat (position f) + n - 512"
  define d where "d = take (512 - ?p) (drop off b)"
  define st1 where "st1 = st\<lparr>disk := (disk st)[31 + c := take ?p (disk st ! (31 + c)) @ d]\<rparr>"
  have un: "unat (of_nat n :: u32) = n" using assms(5) by (simp add: unat_of_nat)
  have p: "?p < 512" "currentCluster f = of_nat c" using assms(3) by (auto simp: stands_at_def)
  have h: "2 \<le> c" "c < 0xFF0" "31 + c < length (disk st)" using assms(2) by auto
  have F: "512 \<le> ?p + n" using assms(4) by simp
  note fl = fill_last [OF assms(1-3) F assms(5,6) d_def st1_def]
  have "?m < 2 ^ 32" "?m \<noteq> 0" using assms(4,5) p(1) by linarith+
  moreover have "(of_nat k :: u32) \<noteq> 0" if "k < 2 ^ 32" "k \<noteq> 0" for k
    using that by (auto simp: word_unat_eq_iff unat_of_nat)
  ultimately have m0: "(of_nat ?m :: u32) \<noteq> 0" by blast
  have fr: "free_clusters st1 = free_clusters st" using fl(6) by (auto simp: free_clusters_def st1_def)
  have "fat_entry st1 c \<noteq> 0" "c \<noteq> 0" using fl(5) h by auto
  then obtain m s where
    o: "fat12fsys_occupy_free_cluster (fat_loaded st1 c) c = Some (m, s)" "fat_frame st1 s"
      "m \<in> free_clusters st1" "m \<noteq> c" "fat_entry s c = of_nat m" "fat_entry s m = 0xFF8"
      "\<forall>k < 0xFF0. k \<noteq> c \<and> k \<noteq> m \<longrightarrow> fat_entry s k = fat_entry st1 k"
      "free_clusters s = free_clusters st1 - {m}"
    using occupy_on_disk [of "fat_loaded st1 c" c] h(2) fl(4) assms(7) fr by auto
  have m': "2 \<le> m" "m < 0xFF0" "31 + m < length (disk s)" "fat_ok s"
    using o(2,3) by (auto simp: free_clusters_def fat_frame_def)
  have "fat12fsys_rw st f b off (of_nat n) floppy_dir_write =
      fat12fsys_rw s (f\<lparr>currentCluster := of_nat m, position := 0\<rparr>) b (off + (512 - ?p)) (of_nat ?m) floppy_dir_write"
    using rw_leaves [OF fl(1) p(1), unfolded un, OF F, unfolded left_over [OF p(1) F],
        OF next_write_last(2) [OF fl(4,5) p(2) m0, unfolded o(1) Option.bind_lunit prod.case]]
      small_cluster(4) [OF m'(1,2)] by simp
  moreover have "chain_ok s [m]" using m' o(6) by simp
  moreover have "appended st st' c (m # ds) ?p (d @ e)" if "appended s st' m ds 0 e" "0 < length e" for st' ds e
    by (rule append_next [OF that(1) o(2,8,3,4) h o(5,7) st1_def assms(1) refl fl(3,2) that(2)])
  ultimately show ?thesis using m'(4) o(3,8) unfolding fr d_def by blast
qed

lemma rw_append:
  assumes "fat_ok st" and "chain_ok st [c]" and "stands_at f [c]" and "f_flags f \<noteq> FS_DIRECTORY"
    and "unat (position f) + n \<le> unat (fileLength f)" and "off + n \<le> length b"
    and "(unat (position f) + n - 1) div 512 \<le> card (free_clusters st)"
  shows "\<exists>f' ds st'. fat12fsys_rw st f b off (of_nat n) floppy_dir_write = Some (f', b, st') \<and>
    appended st st' c ds (unat (position f)) (take n (drop off b))"
  using assms
proof (induction "(unat (position f) + n) div 512" arbitrary: st f off n c)
  case 0
  then have "unat (position f) + n < 512" by auto
  then show ?case using append_inside [OF 0(2-5) _ 0(6,7)] by blast
next
  case (Suc q)
  let ?p = "unat (position f)" and ?m = "unat (position f) + n - 512"
  note prems = Suc.prems
  have F: "512 \<le> ?p + n" using Suc.hyps(2) by (metis Suc_neq_Zero div_less not_le)
  have p: "?p < 512" using prems(3) by (simp add: stands_at_def)
  have n: "n < 2 ^ 32" using prems(5) unat_u32 [of "fileLength f"] by linarith
  show ?case
  proof (cases "?p + n = 512")
    case True
    then show ?thesis using append_exact [OF prems(1-3) True prems(6)] by blast
  next
    case False
    then have G: "512 < ?p + n" using F by simp
    have "?m - 1 = ?p + n - 1 - 512" "512 \<le> ?p + n - 1" using G by linarith+
    then have room: "(?m - 1) div 512 + 1 \<le> card (free_clusters st)"
      using prems(7) le_div_geq [of 512 "?p + n - 1"] by simp
    then have "free_clusters st \<noteq> {}" by auto
    from append_beyond [OF prems(1-3) G n prems(6) this] obtain m s where
      o: "fat12fsys_rw st f b off (of_nat n) floppy_dir_write =
          fat12fsys_rw s (f\<lparr>currentCluster := of_nat m, position := 0\<rparr>) b (off + (512 - ?p)) (of_nat ?m) floppy_dir_write"
        "fat_ok s" "chain_ok s [m]" "m \<in> free_clusters st" "free_clusters s = free_clusters st - {m}" and
      a: "\<forall>st' ds e. appended s st' m ds 0 e \<and> 0 < length e \<longrightarrow>
        appended st st' c (m # ds) ?p (take (512 - ?p) (drop off b) @ e)" by blast
    let ?f = "f\<lparr>currentCluster := of_nat m, position := 0\<rparr>" and ?e = "take ?m (drop (off + (512 - ?p)) b)"
    have "(?m - 1) div 512 \<le> card (free_clusters s)" using room o(4,5) by simp
    moreover have "q = (unat (position ?f) + ?m) div 512" using Suc.hyps(2) F le_div_geq [of 512 "?p + n"] by simp
    moreover have "unat (position ?f) + ?m \<le> unat (fileLength ?f)" using prems(5) by simp
    moreover have "off + (512 - ?p) + ?m \<le> length b" using prems(6) F p by simp
    ultimately obtain f' ds st' where
      i: "fat12fsys_rw s ?f b (off + (512 - ?p)) (of_nat ?m) floppy_dir_write = Some (f', b, st')"
        "appended s st' m ds 0 ?e"
      using Suc.hyps(1) [of ?f ?m s m "off + (512 - ?p)"] o(2,3) prems(4) by (auto simp: stands_at_def)
    have "0 < length ?e" using G prems(6) p by simp
    then have "appended st st' c (m # ds) ?p (take (512 - ?p) (drop off b) @ ?e)" using a i(2) by blast
    moreover have "take (512 - ?p) (drop off b) @ ?e = take n (drop off b)"
    proof -
      have "take n (drop off b) = take ((512 - ?p) + ?m) (drop off b)" using F p by simp
      then show ?thesis by (simp add: take_add add.commute)
    qed
    ultimately show ?thesis using o(1) i(1) by auto
  qed
qed

section \<open>Properties of files\<close>

text \<open>
  C17: reading from an open file delivers the bytes of its chain of clusters that follow its
  position, changes nothing on the disk, and leaves the file standing where the rest of the bytes
  follow; the end of file is set exactly when the chain is exhausted.
\<close>

theorem fat12_read_stream:
  assumes "fat_ok st" and "chain_ok st cs" and "stands_at f cs" and "f_flags f \<noteq> FS_DIRECTORY"
    and "n \<le> length (remaining st f cs)" and "unat (position f) + n \<le> unat (fileLength f)"
    and "n \<le> length b" and "0 < n" and "eof f = 0"
  shows "\<exists>f' st'. fat12fsys_read st f b (of_nat n) = Some (f', take n (remaining st f cs) @ drop n b, st') \<and>
    disk st' = disk st \<and> (eof f' = 1 \<longleftrightarrow> n = length (remaining st f cs)) \<and>
    (n < length (remaining st f cs) \<longrightarrow> (\<exists>cs'. chain_ok st' cs' \<and> stands_at f' cs' \<and>
       remaining st' f' cs' = drop n (remaining st f cs)))"
proof -
  have "0 + n \<le> length b" using assms(7) by simp
  from rw_read [OF assms(1-6) this] obtain f' st' where
    r: "fat12fsys_rw st f b 0 (of_nat n) floppy_dir_read = Some (f', put_at b 0 (take n (remaining st f cs)), st')"
      "disk st' = disk st"
      "if n < length (remaining st f cs) then eof f' = eof f \<and>
         (\<exists>cs'. chain_ok st cs' \<and> stands_at f' cs' \<and> remaining st f' cs' = drop n (remaining st f cs))
       else n = 0 \<or> eof f' = 1" unfolding reads_def by blast
  have e: "fat_entry st' = fat_entry st" by (simp add: fun_eq_iff fat_entry_def fat_word_def fat_byte_def r(2))
  have "chain_ok st' = chain_ok st" "remaining st' = remaining st"
    using chain_ok_same [OF e] by (auto simp: r(2) remaining_def chain_bytes_def fun_eq_iff)
  moreover have "put_at b 0 (take n (remaining st f cs)) = take n (remaining st f cs) @ drop n b"
    using assms(5) by (simp add: put_at_def)
  ultimately show ?thesis using r assms(5,8,9) by (auto simp: fat12fsys_read_def split: if_splits)
qed

text \<open>
  C16: writing at the end of a file extends its chain by exactly the clusters that are needed, all
  of them free before, leaves every other chain alone, and whoever opens the file afterwards reads
  the written bytes back from the same place.
\<close>

theorem fat12_write_reads_back:
  assumes "fat_ok st" and "chain_ok st [c]" and "stands_at f [c]" and "f_flags f \<noteq> FS_DIRECTORY"
    and "holds (f_name f) s" and "s \<noteq> []" and "parentCluster f + 31 = int ps" and "14 \<le> ps" and "ps < 33"
    and "position f \<le> abs_position f" and "unat (abs_position f) + n < 2 ^ 32" and "n \<le> length b"
    and "(unat (position f) + n - 1) div 512 \<le> card (free_clusters st)"
  shows "\<exists>f' ds st'. fat12fsys_write st f b (of_nat n) = Some (f', st') \<and>
    chain_ok st' (c # ds) \<and> set ds \<subseteq> free_clusters st \<and> length ds = (unat (position f) + n - 1) div 512 \<and>
    (\<forall>k < 0xFF0. 2 \<le> k \<and> k \<noteq> c \<and> k \<notin> set ds \<longrightarrow>
       fat_entry st' k = fat_entry st k \<and> disk st' ! (31 + k) = disk st ! (31 + k)) \<and>
    (\<forall>g. stands_at g (c # ds) \<and> position g = position f \<and> f_flags g \<noteq> FS_DIRECTORY \<and>
       unat (position f) + n \<le> unat (fileLength g) \<longrightarrow>
       (\<exists>g' st''. fat12fsys_read st' g (replicate n 0) (of_nat n) = Some (g', take n b, st'')))"
proof -
  let ?p = "unat (position f)"
  have nl: "n < 2 ^ 32" using assms(11) by linarith
  then have un: "unat (of_nat n :: u32) = n" by (simp add: unat_of_nat)
  have ab: "unat (abs_position f + of_nat n) = unat (abs_position f) + n" using assms(11) un by (simp add: unat_word_ariths)
  have l33: "33 \<le> length (disk st)" using chain_ok_hd [OF assms(2)] by simp
  define f1 where "f1 = f\<lparr>abs_position := abs_position f + of_nat n,
    fileLength := if abs_position f + of_nat n > fileLength f then abs_position f + of_nat n else fileLength f\<rparr>"
  have f1: "stands_at f1 [c]" "f_flags f1 \<noteq> FS_DIRECTORY" "position f1 = position f" "?p + n \<le> unat (fileLength f1)"
    using assms(3,4,10) ab by (auto simp: f1_def stands_at_def word_le_nat_alt word_less_nat_alt)
  obtain x where x: "length x = 512" and st1: "(if f_flags f \<noteq> FS_DIRECTORY then do {
          let file = f\<lparr>abs_position := abs_position f + of_nat n\<rparr>;
          if abs_position file > fileLength file then do {
            let file = file\<lparr>fileLength := abs_position file\<rparr>;
            st \<leftarrow> fat12fsys_update_flen st file (abs_position file);
            Some (file, st) }
          else Some (file, st) }
        else Some (f, st)) = Some (f1, st\<lparr>disk := (disk st)[ps := x]\<rparr>)"
  proof (cases "abs_position f + of_nat n > fileLength f")
    case True
    let ?g = "f\<lparr>abs_position := abs_position f + of_nat n, fileLength := abs_position f + of_nat n\<rparr>"
    have "\<exists>x. fat12fsys_update_flen st ?g (abs_position f + of_nat n) = Some (st\<lparr>disk := (disk st)[ps := x]\<rparr>) \<and> length x = 512"
      by (rule update_flen_ok [OF assms(1), of _ s]) (use assms(5-9) l33 in simp_all)
    then show thesis using that True assms(4) by (auto simp: f1_def Let_def)
  next
    case False
    have "length (disk st ! ps) = 512" using sector_length [OF assms(1)] assms(9) l33 by simp
    then show thesis using that [of "disk st ! ps"] False assms(4) by (simp add: f1_def Let_def)
  qed
  let ?s = "st\<lparr>disk := (disk st)[ps := x]\<rparr>"
  have "ps < length (disk st)" using assms(9) l33 by linarith
  note ds = data_sector_stored [OF assms(1,8) this x]
  have c: "c < 0xFF0" "2 \<le> c" using chain_ok_hd [OF assms(2)] by auto
  have "chain_ok ?s [c]" using assms(2) ds(2) [OF c(1)] by simp
  moreover have fs: "free_clusters ?s = free_clusters st" using ds(2) by (auto simp: free_clusters_def)
  moreover have sec: "disk ?s ! (31 + k) = disk st ! (31 + k)" if "2 \<le> k" for k
    using assms(9) that by simp
  moreover have "0 + n \<le> length b" using assms(12) by simp
  ultimately obtain f' ds' st' where
    w: "fat12fsys_rw ?s f1 b 0 (of_nat n) floppy_dir_write = Some (f', b, st')" and
    a: "appended ?s st' c ds' ?p (take n b)"
    using rw_append [OF ds(1) _ f1(1,2), of n 0 b] f1(3,4) assms(13) by auto
  have ln: "length (take n b) = n" using assms(12) by simp
  have a1: "fat_ok st'" "chain_ok st' (c # ds')" "set ds' \<subseteq> free_clusters st" "length ds' = (?p + n - 1) div 512"
    "take (?p + n) (chain_bytes st' (c # ds')) = take ?p (disk st ! (31 + c)) @ take n b"
    using a unfolding appended_def ln fs sec [OF c(2)] by blast+
  have fr: "fat_entry st' k = fat_entry st k \<and> disk st' ! (31 + k) = disk st ! (31 + k)"
    if "k < 0xFF0" "2 \<le> k" "k \<noteq> c" "k \<notin> set ds'" for k
    using a that ds(2) sec unfolding appended_def by metis
  have lc: "length (take ?p (disk st ! (31 + c))) = ?p"
    using sector_length [OF assms(1), of "31 + c"] chain_ok_hd [OF assms(2)] assms(3) by (auto simp: stands_at_def)
  have lb: "?p + n \<le> length (chain_bytes st' (c # ds'))"
    using arg_cong [OF a1(5), of length] lc ln by simp
  have rem: "take n (drop ?p (chain_bytes st' (c # ds'))) = take n b"
  proof -
    have "take n (drop ?p (chain_bytes st' (c # ds'))) = drop ?p (take (?p + n) (chain_bytes st' (c # ds')))"
      by (simp add: drop_take)
    also have "\<dots> = take n b" unfolding a1(5) using lc by simp
    finally show ?thesis .
  qed
  have "\<exists>g' st''. fat12fsys_read st' g (replicate n 0) (of_nat n) = Some (g', take n b, st'')"
    if g: "stands_at g (c # ds')" "position g = position f" "f_flags g \<noteq> FS_DIRECTORY" "?p + n \<le> unat (fileLength g)" for g
  proof -
    have "n \<le> length (remaining st' g (c # ds'))" using lb g(2) by (simp add: remaining_def)
    moreover have "unat (position g) + n \<le> unat (fileLength g)" "0 + n \<le> length (replicate n (0 :: u8))"
      using g(2,4) by simp_all
    ultimately have "reads st' g (c # ds') (replicate n 0) 0 n
        (fat12fsys_rw st' g (replicate n 0) 0 (of_nat n) floppy_dir_read)"
      by (rule rw_read [OF a1(1,2) g(1,3)])
    moreover have "take n (remaining st' g (c # ds')) = take n b" using rem g(2) by (simp add: remaining_def)
    moreover have "put_at (replicate n 0) 0 (take n b) = take n b" using assms(12) by (simp add: put_at_def)
    ultimately show ?thesis unfolding reads_def fat12fsys_read_def by (metis (no_types))
  qed
  moreover have "fat12fsys_write st f b (of_nat n) = Some (f', st')"
    unfolding fat12fsys_write_def st1 by (simp add: w)
  ultimately show ?thesis using a1(2-4) fr by blast
qed

lemma sample_sectors:
  "disk sample_floppy ! 33 = replicate 512 65" "disk sample_floppy ! 34 = replicate 512 66"
  "disk sample_floppy ! 19 = blank"
  by (simp_all add: sample_floppy_def nth_append)

lemma sample_chain: "chain_ok sample_floppy [2, 3]" "chain_ok sample_floppy [3]"
  using sample_entry_2 sample_entry_3 by (simp_all add: sample_floppy_def)

definition sample_file :: "u32 \<Rightarrow> u32 \<Rightarrow> fobj" where
  "sample_file cluster pos = invalid_file\<lparr>f_name := [65, 0], f_flags := FS_FILE, fileLength := 1024,
     currentCluster := cluster, position := pos, abs_position := 1012, parentCluster := - 12\<rparr>"

lemma sample_file_fields [simp]:
  "f_flags (sample_file c p) = FS_FILE" "position (sample_file c p) = p" "fileLength (sample_file c p) = 1024"
  "eof (sample_file c p) = 0" "currentCluster (sample_file c p) = c" "f_name (sample_file c p) = [65, 0]"
  "abs_position (sample_file c p) = 1012" "parentCluster (sample_file c p) = - 12"
  by (simp_all add: sample_file_def invalid_file_def)

theorem fat12_read_stream_witness:
  "\<exists>f' st'. fat12fsys_read sample_floppy (sample_file 2 0) (replicate 513 0) 513 =
    Some (f', replicate 512 65 @ [66], st')"
proof -
  have r: "remaining sample_floppy (sample_file 2 0) [2, 3] = replicate 512 65 @ replicate 512 66"
    by (simp add: remaining_def chain_bytes_def sample_sectors)
  have s: "stands_at (sample_file 2 0) [2, 3]" by (simp add: stands_at_def)
  have t: "take 513 (replicate 512 (65 :: u8) @ replicate 512 66) = replicate 512 65 @ [66]" by (simp add: min_def)
  have "513 \<le> length (remaining sample_floppy (sample_file 2 0) [2, 3])" unfolding r by simp
  moreover have "unat (position (sample_file 2 0)) + 513 \<le> unat (fileLength (sample_file 2 0))" by simp
  moreover have "f_flags (sample_file 2 0) \<noteq> FS_DIRECTORY" "513 \<le> length (replicate 513 (0 :: u8))" by simp_all
  ultimately obtain f' st' where
    "fat12fsys_read sample_floppy (sample_file 2 0) (replicate 513 0) (of_nat 513) =
      Some (f', take 513 (remaining sample_floppy (sample_file 2 0) [2, 3]) @ drop 513 (replicate 513 0), st')"
    using fat12_read_stream [OF sample_floppy_ok sample_chain(1) s, of 513 "replicate 513 0"] by auto
  then show ?thesis unfolding r t by simp
qed

theorem fat12_write_reads_back_witness:
  "\<exists>f' ds st'. fat12fsys_write sample_floppy (sample_file 3 500) (replicate 20 67) 20 = Some (f', st') \<and>
    length ds = 1 \<and> chain_ok st' (3 # ds) \<and> fat_entry st' 2 = 3"
proof -
  have s: "stands_at (sample_file 3 500) [3]" by (simp add: stands_at_def)
  have "4 \<in> free_clusters sample_floppy" using sample_entry_4 by (simp add: free_clusters_def sample_floppy_def)
  then have "1 \<le> card (free_clusters sample_floppy)" using card_gt_0_iff [of "free_clusters sample_floppy"] by fastforce
  then have room: "(unat (position (sample_file 3 500)) + 20 - 1) div 512 \<le> card (free_clusters sample_floppy)" by simp
  have h: "holds (f_name (sample_file 3 500)) [65]" by (simp add: holds_def)
  have "\<exists>f' ds st'. fat12fsys_write sample_floppy (sample_file 3 500) (replicate 20 67) (of_nat 20) = Some (f', st') \<and>
    chain_ok st' (3 # ds) \<and> set ds \<subseteq> free_clusters sample_floppy \<and>
    length ds = (unat (position (sample_file 3 500)) + 20 - 1) div 512 \<and>
    (\<forall>k < 0xFF0. 2 \<le> k \<and> k \<noteq> 3 \<and> k \<notin> set ds \<longrightarrow>
       fat_entry st' k = fat_entry sample_floppy k \<and> disk st' ! (31 + k) = disk sample_floppy ! (31 + k))"
    using fat12_write_reads_back [OF sample_floppy_ok sample_chain(2) s _ h, of 19 20 "replicate 20 67"] room
    by (simp add: word_le_nat_alt) blast
  then obtain f' ds st' where
    w: "fat12fsys_write sample_floppy (sample_file 3 500) (replicate 20 67) (of_nat 20) = Some (f', st')"
      "chain_ok st' (3 # ds)" "set ds \<subseteq> free_clusters sample_floppy" "length ds = 1"
      "\<forall>k < 0xFF0. 2 \<le> k \<and> k \<noteq> 3 \<and> k \<notin> set ds \<longrightarrow> fat_entry st' k = fat_entry sample_floppy k" by auto
  have "2 \<notin> set ds" using w(3) sample_entry_2 by (auto simp: free_clusters_def)
  then have "fat_entry st' 2 = 3" using w(5) sample_entry_2 by simp
  then show ?thesis using w(1,2,4) by auto
qed

end
