(* ===== verification/Fatdirs.thy ===== *)
theory Fatdirs
  imports Fatfiles
begin

text \<open>Creating a name in the root directory and finding it again.\<close>

section \<open>Creating a file\<close>

lemma find_slot_ok:
  assumes "length b = 512" and "take 11 dos = n"
  shows "find_slot b dos i = Some r \<Longrightarrow>
    (case r of Free m \<Rightarrow> i \<le> m \<and> m < 16 \<and> (\<forall>k. i \<le> k \<and> k < m \<longrightarrow> name_at b k \<noteq> n)
     | NoSlot \<Rightarrow> \<forall>k. i \<le> k \<and> k < 16 \<longrightarrow> name_at b k \<noteq> n | Taken \<Rightarrow> True)"
proof (induction "16 - i" arbitrary: i)
  case 0
  then show ?case by (subst (asm) find_slot.simps) auto
next
  case (Suc d)
  then have i: "i < 16" by linarith
  obtain c where c: "FirstCluster b i = Some c"
    using assms(1) i by (simp add: FirstCluster_def get16_def)
  have e: "find_slot b dos i = (if c = 0 then Some (Free i) else if name_at b i = n then Some Taken
      else find_slot b dos (i + 1))"
    using assms(2) by (subst find_slot.simps) (auto simp: i c entry_name_at [OF assms(1) i])
  have ge: "i \<le> k \<longleftrightarrow> k = i \<or> i + 1 \<le> k" for k by linarith
  show ?case
  proof (cases "c = 0 \<or> name_at b i = n")
    case True
    then show ?thesis using Suc.prems i unfolding e by (auto split: if_splits)
  next
    case False
    then have "find_slot b dos (i + 1) = Some r" using Suc.prems unfolding e by simp
    moreover have "d = 16 - (i + 1)" using Suc.hyps(2) by simp
    ultimately show ?thesis using Suc.hyps(1) [of "i + 1"] False by (cases r) (auto simp: ge)
  qed
qed

lemma new_entry_length: "length dos \<ge> 11 \<Longrightarrow> length (new_entry dos flags c) = 32"
  by (simp add: new_entry_def)

lemma name_at_put:
  assumes "length b = 512" and "i < 16" and "j < 16" and "length e = 32"
  shows "name_at (put_at b (32 * i) e) j = (if j = i then take 11 e else name_at b j)"
proof -
  consider "j = i" | "j < i" | "i < j" by linarith
  then show ?thesis
  proof cases
    case 2
    then have "32 * j + 32 \<le> 32 * i" by simp
    then have "take 11 (drop (32 * j) (take (32 * i) b @ x)) = take 11 (drop (32 * j) b)" for x
      using assms(1,2) by (simp add: drop_take)
    then have "name_at (put_at b (32 * i) e) j = name_at b j" unfolding name_at_def put_at_def .
    then show ?thesis using 2 by simp
  next
    case 3
    then have "32 * i + 32 \<le> 32 * j" by simp
    then have "drop (32 * j) (put_at b (32 * i) e) = drop (32 * j) b"
      using assms by (simp add: put_at_def)
    then show ?thesis using 3 by (simp add: name_at_def)
  qed (use assms in \<open>simp add: name_at_def put_at_def\<close>)
qed

lemma nth_put_at: "i + length e \<le> length b \<Longrightarrow> k < length e \<Longrightarrow> put_at b i e ! (i + k) = e ! k"
  by (simp add: put_at_def nth_append)

lemma read_new_entry:
  assumes "length b = 512" and "i < 16" and "11 \<le> length dos"
  shows "read_dir_entry f (put_at b (32 * i) (new_entry dos flags c)) i =
    Some (f\<lparr>f_id := 0, currentCluster := ucast c, eof := 0, position := 0, fileLength := 0,
      DateCreated := 0, TimeCreated := 0,
      f_flags := if flags = FS_DIRECTORY then FS_DIRECTORY else FS_FILE\<rparr>)"
proof -
  let ?e = "new_entry dos flags c" and ?b = "put_at b (32 * i) (new_entry dos flags c)"
  have l: "length ?e = 32" by (rule new_entry_length [OF assms(3)])
  then have lb: "length ?b = 512" using assms(1,2) by (subst length_put_at) simp_all
  have g: "aget ?b (32 * i + k) = Some (?e ! k)" if "k < 32" for k
    using nth_put_at [of "32 * i" ?e b k] that l lb assms(1,2) by simp
  have n: "?e ! 11 = (if flags = FS_DIRECTORY then 0x10 else 0)" "?e ! 26 = ucast c" "?e ! 27 = ucast (drop_bit 8 c)"
    "?e ! 14 = 0" "?e ! 15 = 0" "?e ! 16 = 0" "?e ! 17 = 0" "?e ! 28 = 0" "?e ! 29 = 0" "?e ! 30 = 0" "?e ! 31 = 0"
    using assms(3) by (simp_all add: new_entry_def nth_append)
  have g16: "get16 ?b (32 * i + k) = Some (word16 (?e ! k) (?e ! (k + 1)))" if "k + 1 < 32" for k
    using g [of k] g [of "k + 1"] that by (simp add: get16_def)
  have "FirstCluster ?b i = Some c" using g16 [of 26] n word16_bytes [of c] by (simp add: FirstCluster_def)
  moreover have "get16 ?b (32 * i + 14) = Some 0" "get16 ?b (32 * i + 16) = Some 0"
    "get32 ?b (32 * i + 28) = Some 0"
    using g16 [of 14] g16 [of 16] g16 [of 28] g16 [of 30] n
    by (simp_all add: get32_def word16_def add.commute)
  moreover have "aget ?b (32 * i + 11) = Some (if flags = FS_DIRECTORY then 0x10 else 0)" using g [of 11] n by simp
  ultimately show ?thesis by (simp add: read_dir_entry_def)
qed

lemma root_search_skip:
  assumes "\<forall>j. a \<le> j \<and> j < k \<longrightarrow> find_entry (disk st ! (unat (rootOffset (mount st)) + j)) dos 0 = Some None"
    and "a \<le> k" and "k < 14" and "unat (rootOffset (mount st)) + 14 \<le> length (disk st)"
  shows "root_search file st dos name a = root_search file st dos name k"
  using assms
proof (induction "k - a" arbitrary: a)
  case (Suc n)
  then have "root_search file st dos name (a + 1) = root_search file st dos name k" by (intro Suc.hyps(1)) auto
  then show ?case using Suc.hyps(2) Suc.prems
    by (subst root_search.simps) (simp add: flpydsk_read_sector_def)
qed simp

lemma create_skip:
  assumes "\<forall>j. a \<le> j \<and> j < k \<longrightarrow> find_slot (disk st ! (unat (rootOffset (mount st)) + j)) dos 0 = Some NoSlot"
    and "a \<le> k" and "k < 14" and "unat (rootOffset (mount st)) + 14 \<le> length (disk st)"
  shows "create_in_root junk st dos flags a = create_in_root junk st dos flags k"
  using assms
proof (induction "k - a" arbitrary: a)
  case (Suc n)
  then have "create_in_root junk st dos flags (a + 1) = create_in_root junk st dos flags k" by (intro Suc.hyps(1)) auto
  then show ?case using Suc.hyps(2) Suc.prems
    by (subst create_in_root.simps) (simp add: flpydsk_read_sector_def)
qed simp

text \<open>Filling a slot of the root directory, for a file or a directory.\<close>

lemma clear_new_dir:
  assumes "fat_ok st" and "chain_ok st [m]"
  shows "\<exists>f st'. fat12fsys_write st (junk\<lparr>currentCluster := of_nat m, eof := 0, position := 0,
        fileLength := 0, f_flags := FS_DIRECTORY\<rparr>) (replicate 512 0) 512 = Some (f, st') \<and>
      (\<forall>j. j \<noteq> 31 + m \<longrightarrow> disk st' ! j = disk st ! j) \<and> mount st' = mount st \<and>
      length (disk st') = length (disk st) \<and> (\<forall>k < 0xFF0. fat_entry st' k = fat_entry st k)"
proof -
  let ?f = "junk\<lparr>currentCluster := of_nat m, eof := 0, position := 0, fileLength := 0, f_flags := FS_DIRECTORY\<rparr>"
  let ?b = "replicate 512 0 :: u8 list"
  have h: "2 \<le> m" "m < 0xFF0" "31 + m < length (disk st)" "0xFF8 \<le> fat_entry st m" using assms(2) by auto
  have l: "length (disk st ! (31 + m)) = 512" using sector_length [OF assms(1) h(3)] .
  have "transfer st ?f ?b 0 512 floppy_dir_write =
      Some (?b, st\<lparr>disk := (disk st)[31 + m := put_at (disk st ! (31 + m)) (unat (position ?f))
        (take (min (unat (512 :: u32)) (512 - unat (position ?f))) (drop 0 ?b))]\<rparr>)"
    by (rule transfer_write [OF assms(1) _ h(1-3)]) simp_all
  then obtain x where t: "transfer st ?f ?b 0 512 floppy_dir_write = Some (?b, st\<lparr>disk := (disk st)[31 + m := x]\<rparr>)"
    and x: "length x = 512" using l by (auto simp: put_at_def)
  let ?s = "st\<lparr>disk := (disk st)[31 + m := x]\<rparr>"
  have "14 \<le> 31 + m" by simp
  note ds = data_sector_stored [OF assms(1) this h(3) x]
  have "chain_ok ?s [m]" using h ds(2) [OF h(2)] by simp
  from next_write_last(1) [OF ds(1) this, of ?f] have "next_cluster ?s ?f (512 - (512 - position ?f)) floppy_dir_write =
      Some (None, fat_loaded ?s m)" by simp
  from rw_leaves [OF t _ _ this] have
    "fat12fsys_rw st ?f ?b 0 512 floppy_dir_write = Some (?f\<lparr>eof := 1\<rparr>, ?b, fat_loaded ?s m)" by simp
  then show ?thesis using ds(2) by (simp add: fat12fsys_write_def)
qed

lemma fill_root_slot:
  assumes "fat_ok st" and "free_clusters st \<noteq> {}" and "14 \<le> sec" and "sec < 33" and "33 \<le> length (disk st)"
    and "length buf = 512" and "i < 16" and "11 \<le> length dos"
  shows "\<exists>m st'. fill_slot junk st None sec buf i dos flags = Some st' \<and> m \<in> free_clusters st \<and>
    fat_entry st' m = 0xFF8 \<and> mount st' = mount st \<and> length (disk st') = length (disk st) \<and>
    disk st' ! sec = put_at buf (32 * i) (new_entry dos flags (of_nat m)) \<and>
    (\<forall>j. 14 \<le> j \<and> j < 33 \<and> j \<noteq> sec \<longrightarrow> disk st' ! j = disk st ! j)"
proof -
  have "(0 :: nat) < 0xFF0" by simp
  from occupy_ok [OF assms(1) this] obtain m s where
    o: "fat12fsys_occupy_free_cluster st 0 = Some (m, s)" "fat_frame st s" "2 \<le> m" "m \<le> 0xFF0"
      "\<forall>k. 2 \<le> k \<and> k < m \<longrightarrow> fat_entry st k \<noteq> 0" "m < 0xFF0 \<longrightarrow> fat_entry st m = 0"
      "\<forall>k < 0xFF0. fat_entry s k = (if k = m then 0xFF8 else fat_entry st k)" by auto
  obtain k where k: "2 \<le> k" "k < 0xFF0" "31 + k < length (disk st)" "fat_entry st k = 0"
    using assms(2) by (auto simp: free_clusters_def)
  then have "m \<le> k" using o(5) by (metis not_less)
  then have m: "m < 0xFF0" "31 + m < length (disk st)" "m \<in> free_clusters st" using k o(3,6) by (auto simp: free_clusters_def)
  let ?e = "new_entry dos flags (of_nat m)"
  have w: "overwrite buf (32 * i) ?e = Some (put_at buf (32 * i) ?e)"
    using assms(6,7) new_entry_length [OF assms(8)] by (intro overwrite_fits) simp
  have l: "length (put_at buf (32 * i) ?e) = 512"
    using assms(6,7) new_entry_length [OF assms(8)] by (subst length_put_at) simp_all
  have s: "fat_ok s" "length (disk s) = length (disk st)" "mount s = mount st"
    "\<And>j. 14 \<le> j \<Longrightarrow> disk s ! j = disk st ! j" using o(2) by (auto simp: fat_frame_def)
  let ?s = "s\<lparr>disk := (disk s)[sec := put_at buf (32 * i) ?e]\<rparr>"
  have sec: "sec < length (disk s)" using assms(4,5) s(2) by linarith
  have ws: "flpydsk_write_sector s sec (put_at buf (32 * i) ?e) = Some ?s"
    using l sec by (simp add: flpydsk_write_sector_def slice_of_def)
  note ds = data_sector_stored [OF s(1) assms(3) sec l]
  have c: "chain_ok ?s [m]" using o(3,7) m(1,2) s(2) ds(2) by simp
  show ?thesis
  proof (cases "flags = FS_DIRECTORY")
    case True
    from clear_new_dir [OF ds(1) c, of junk] obtain f st' where
      "fat12fsys_write ?s (junk\<lparr>currentCluster := of_nat m, eof := 0, position := 0,
        fileLength := 0, f_flags := FS_DIRECTORY\<rparr>) (replicate 512 0) 512 = Some (f, st')"
      "\<forall>j. j \<noteq> 31 + m \<longrightarrow> disk st' ! j = disk ?s ! j" "mount st' = mount ?s"
      "length (disk st') = length (disk ?s)" "\<forall>k < 0xFF0. fat_entry st' k = fat_entry ?s k" by blast
    then show ?thesis using True o(1,3,7) m w ws s assms(4,5) ds(2) sec
      by (intro exI [of _ m] exI [of _ st']) (auto simp: fill_slot_def)
  next
    case False
    then show ?thesis using o(1,7) m w ws s ds(2) sec
      by (intro exI [of _ m] exI [of _ ?s]) (auto simp: fill_slot_def)
  qed
qed

lemma find_entry_None:
  assumes "length b = 512" and "0 \<notin> set n" and "length n = 11" and "\<forall>j < 16. name_at b j \<noteq> n"
  shows "find_entry b (n @ [0]) 0 = Some None"
proof -
  from find_entry_ok [OF assms(1-3), of 0] obtain q where q: "find_entry b (n @ [0]) 0 = Some q"
    "case q of None \<Rightarrow> \<forall>k. 0 \<le> k \<and> k < 16 \<longrightarrow> name_at b k \<noteq> n
     | Some m \<Rightarrow> 0 \<le> m \<and> m < 16 \<and> name_at b m = n \<and> (\<forall>k. 0 \<le> k \<and> k < m \<longrightarrow> name_at b k \<noteq> n)" by blast
  then show ?thesis using assms(4) by (cases q) auto
qed

lemma find_entry_first:
  assumes "length b = 512" and "0 \<notin> set n" and "length n = 11" and "i < 16" and "name_at b i = n"
    and "\<forall>j < i. name_at b j \<noteq> n"
  shows "find_entry b (n @ [0]) 0 = Some (Some i)"
proof -
  from find_entry_ok [OF assms(1-3), of 0] obtain q where q: "find_entry b (n @ [0]) 0 = Some q"
    "case q of None \<Rightarrow> \<forall>k. 0 \<le> k \<and> k < 16 \<longrightarrow> name_at b k \<noteq> n
     | Some m \<Rightarrow> 0 \<le> m \<and> m < 16 \<and> name_at b m = n \<and> (\<forall>k. 0 \<le> k \<and> k < m \<longrightarrow> name_at b k \<noteq> n)" by blast
  show ?thesis
  proof (cases q)
    case None
    then show ?thesis using q assms(4,5) by auto
  next
    case (Some x)
    then have x: "name_at b x = n" "\<forall>k < x. name_at b k \<noteq> n" using q(2) by auto
    then have "x = i" using assms(5,6) by (metis linorder_neqE_nat)
    then show ?thesis using q(1) Some by simp
  qed
qed

text \<open>
  C20: a name that is created in the root directory is found there afterwards: opening it yields an
  empty file or directory whose single cluster was free before and ends its chain.
\<close>

theorem fat12_create_then_open:
  assumes "fat_ok st" and "rootOffset (mount st) = 19" and "33 \<le> length (disk st)" and "free_clusters st \<noteq> {}"
    and "f_flags dir = FS_DIRECTORY" and "is_root_path (f_name dir) = Some True"
    and "holds name s" and "s \<noteq> []" and "length s < 32" and "length (dos_base s) \<le> 8" and "length (dos_ext s) \<le> 3"
    and "k < 14" and "\<forall>j < k. find_slot (disk st ! (19 + j)) (dos_name s @ [0]) 0 = Some NoSlot"
    and "find_slot (disk st ! (19 + k)) (dos_name s @ [0]) 0 = Some (Free i)"
    and "flags = FS_FILE \<or> flags = FS_DIRECTORY"
  shows "\<exists>m st' f. fat12fsys_create junk st dir name flags = Some st' \<and> m \<in> free_clusters st \<and>
    fat_entry st' m = 0xFF8 \<and> fat12fsys_root_open junk' st' name = Some f \<and> currentCluster f = of_nat m \<and>
    f_flags f = flags \<and> fileLength f = 0 \<and> position f = 0 \<and> eof f = 0"
proof -
  let ?d = "dos_name s @ [0]"
  have r: "unat (rootOffset (mount st)) = 19" using assms(2) by simp
  have z: "0 \<notin> set (dos_name s)" "length (dos_name s) = 11"
    using dos_name_nonzero [of s] assms(7,8) length_dos_name assms(10,11) by (auto simp: holds_def)
  have dos: "ToDosFileName name = Some (Some ?d)" using ToDosFileName_holds [OF assms(7,8)] assms(10,11) by simp
  have len: "length (disk st ! (19 + j)) = 512" if "j < 14" for j
    using sector_length [OF assms(1), of "19 + j"] that assms(3) by simp
  note slot = find_slot_ok [OF len [OF assms(12)], of ?d "dos_name s", OF _ assms(14)]
  have i: "i < 16" "\<forall>j < i. name_at (disk st ! (19 + k)) j \<noteq> dos_name s" using slot z(2) by simp_all
  have "14 \<le> 19 + k" "19 + k < 33" "11 \<le> length ?d" using assms(12) z(2) by simp_all
  from fill_root_slot [OF assms(1,4) this(1,2) assms(3) len [OF assms(12)] i(1) this(3), of junk flags]
  obtain m st' where
    f: "fill_slot junk st None (19 + k) (disk st ! (19 + k)) i ?d flags = Some st'" and
    m: "m \<in> free_clusters st" "fat_entry st' m = 0xFF8" and
    st': "mount st' = mount st" "length (disk st') = length (disk st)"
      "disk st' ! (19 + k) = put_at (disk st ! (19 + k)) (32 * i) (new_entry ?d flags (of_nat m))"
      "\<forall>j. 14 \<le> j \<and> j < 33 \<and> j \<noteq> 19 + k \<longrightarrow> disk st' ! j = disk st ! j" by blast
  have "create_in_root junk st ?d flags 0 = create_in_root junk st ?d flags k"
    by (rule create_skip) (use assms(3,12,13) r in auto)
  also have "\<dots> = Some st'" using assms(3,12,14) r f
    by (subst create_in_root.simps) (simp add: flpydsk_read_sector_def)
  finally have c: "fat12fsys_create junk st dir name flags = Some st'"
    by (simp add: fat12fsys_create_def assms(5,6) dos)
  have before: "find_entry (disk st' ! (19 + j)) ?d 0 = Some None" if j: "j < k" for j
  proof (rule find_entry_None [OF _ z])
    have e: "disk st' ! (19 + j) = disk st ! (19 + j)" using st'(4) j assms(12) by simp
    show l: "length (disk st' ! (19 + j)) = 512" unfolding e using len j assms(12) by simp
    have "find_slot (disk st ! (19 + j)) ?d 0 = Some NoSlot" using assms(13) j by blast
    from find_slot_ok [OF l [unfolded e] _ this, of "dos_name s"] z(2)
    show "\<forall>n < 16. name_at (disk st' ! (19 + j)) n \<noteq> dos_name s" unfolding e by simp
  qed
  let ?b = "disk st' ! (19 + k)"
  have el: "length (new_entry ?d flags (of_nat m)) = 32" by (rule new_entry_length) (simp add: z(2))
  have lb: "length ?b = 512" using len [OF assms(12)] i(1) el unfolding st'(3) by (subst length_put_at) simp_all
  have n: "name_at ?b j = (if j = i then dos_name s else name_at (disk st ! (19 + k)) j)" if "j < 16" for j
    using name_at_put [OF len [OF assms(12)] i(1) that el] z(2) unfolding st'(3) by (simp add: new_entry_def)
  have at: "find_entry ?b ?d 0 = Some (Some i)"
    by (rule find_entry_first [OF lb z i(1)]) (use n i in simp_all)
  have sn: "set_name junk' name = Some (junk'\<lparr>f_name := take (length s + 1) name @ drop (length s + 1) (f_name junk')\<rparr>)"
    using strlen_holds [OF assms(7)] assms(9) by (simp add: set_name_def)
  have "root_search junk' st' ?d name 0 = root_search junk' st' ?d name k"
    by (rule root_search_skip) (use before assms(3,12) st'(1,2) r in auto)
  moreover obtain g where "root_search junk' st' ?d name k = Some g" "currentCluster g = of_nat m"
    "f_flags g = flags" "fileLength g = 0" "position g = 0" "eof g = 0"
  proof -
    have rd: "read_dir_entry f ?b i = Some (f\<lparr>f_id := 0, currentCluster := ucast (of_nat m :: u16), eof := 0,
        position := 0, fileLength := 0, DateCreated := 0, TimeCreated := 0,
        f_flags := if flags = FS_DIRECTORY then FS_DIRECTORY else FS_FILE\<rparr>)" for f
      unfolding st'(3) by (rule read_new_entry [OF len [OF assms(12)] i(1)]) (simp add: z(2))
    have "(ucast (of_nat m :: u16) :: u32) = of_nat m" using m(1) small_cluster(4) by (simp add: free_clusters_def)
    then show thesis using that assms(3,12,15) st'(1,2) r at sn rd
      by (subst (asm) root_search.simps) (auto simp: flpydsk_read_sector_def)
  qed
  ultimately show ?thesis using c m by (auto simp: fat12fsys_root_open_def dos)
qed

theorem fat12_create_then_open_witness:
  "\<exists>st' f. fat12fsys_create invalid_file sample_floppy
      (invalid_file\<lparr>f_name := [92, 0], f_flags := FS_DIRECTORY\<rparr>) [97, 0] FS_FILE = Some st' \<and>
    fat12fsys_root_open invalid_file st' [97, 0] = Some f \<and> f_flags f = FS_FILE"
proof -
  let ?d = "invalid_file\<lparr>f_name := [92, 0], f_flags := FS_DIRECTORY\<rparr>"
  have h: "holds [97, 0] [97]" by (simp add: holds_def)
  have "4 \<in> free_clusters sample_floppy" using sample_entry_4 by (simp add: free_clusters_def sample_floppy_def)
  then have f: "free_clusters sample_floppy \<noteq> {}" by auto
  have "strcmp (f_name ?d) str_backslash = Some True" using strcmp_holds [of "[92, 0]" "[92]" "[92, 0]" "[92]"]
    by (simp add: holds_def)
  then have r: "is_root_path (f_name ?d) = Some True" by (simp add: is_root_path_def)
  have s: "find_slot (disk sample_floppy ! (19 + 0)) (dos_name [97] @ [0]) 0 = Some (Free 0)"
    by (subst find_slot.simps) (simp add: sample_sectors blank_def FirstCluster_def get16_def word16_def)
  have l: "length (dos_base [97]) \<le> 8" "length (dos_ext [97]) \<le> 3"
    by (simp_all add: dos_base_def dos_ext_def split_on_cons onto_first_def)
  have "rootOffset (mount sample_floppy) = 19" "33 \<le> length (disk sample_floppy)" by (simp_all add: sample_floppy_def)
  from fat12_create_then_open [OF sample_floppy_ok this f _ r h _ _ l _ _ s, of FS_FILE invalid_file invalid_file]
  show ?thesis by auto
qed

end
