(* ===== verification/Graphics.thy ===== *)
theory Graphics
  imports Memory Events
begin

text \<open>
  Drawing (\<^verbatim>\<open>utils/graphics.c\<close>): pixels of three bytes in the linear frame buffer of 1280 by 1024
  pixels, rectangles, gradients and the characters of the bitmap font.  A pixel is written with a
  32-bit read-modify-write that keeps the byte after it.

  The first part is the code; the second part describes any block of memory that holds a picture
  (the frame buffer, and the buffers of the windows, which have the same format) and what the
  loops do to its pixels.  \<^verbatim>\<open>outline_circle\<close> computes with floating point numbers and is not
  modelled.
\<close>

abbreviation PIXEL_WIDTH :: int where "PIXEL_WIDTH \<equiv> 1280"
abbreviation PIXEL_HEIGHT :: int where "PIXEL_HEIGHT \<equiv> 1024"
abbreviation VIDEO_ADDRESS :: u32 where "VIDEO_ADDRESS \<equiv> 0xCD000000"

section \<open>The code\<close>

definition write_pixel :: "memory \<Rightarrow> u32 \<Rightarrow> u32 \<Rightarrow> memory" where
  "write_pixel m a color = (
     let m = store32 m a (load32 m a AND 0xFF000000)
     in store32 m a (load32 m a OR (color AND 0xFFFFFF)))"

definition set_pixel :: "memory \<Rightarrow> int \<Rightarrow> int \<Rightarrow> u32 \<Rightarrow> memory" where
  "set_pixel m x y color =
     (if x \<ge> PIXEL_WIDTH \<or> y \<ge> PIXEL_HEIGHT \<or> x < 0 \<or> y < 0 then m
      else write_pixel m (VIDEO_ADDRESS + word_of_int ((y * PIXEL_WIDTH + x) * 3)) color)"

definition get_pixel :: "memory \<Rightarrow> int \<Rightarrow> int \<Rightarrow> u32" where
  "get_pixel m x y =
     (if x \<ge> PIXEL_WIDTH \<or> y \<ge> PIXEL_HEIGHT \<or> x < 0 \<or> y < 0 then 0
      else load32 m (VIDEO_ADDRESS + word_of_int ((y * PIXEL_WIDTH + x) * 3)))"

fun fill_row :: "memory \<Rightarrow> u32 \<Rightarrow> u32 \<Rightarrow> nat \<Rightarrow> memory" where
  "fill_row m vram color 0 = m"
| "fill_row m vram color (Suc n) = fill_row (write_pixel m vram color) (vram + 3) color n"

fun fill_rows :: "memory \<Rightarrow> u32 \<Rightarrow> u32 \<Rightarrow> nat \<Rightarrow> nat \<Rightarrow> memory" where
  "fill_rows m vram color width 0 = m"
| "fill_rows m vram color width (Suc n) =
     fill_rows (fill_row m vram color width) (vram + word_of_int (PIXEL_WIDTH * 3)) color width n"

text \<open>The clipping that \<^verbatim>\<open>fill_rect\<close> and \<^verbatim>\<open>fill_gradient\<close> start with.\<close>

definition clip_rect :: "int \<Rightarrow> int \<Rightarrow> int \<Rightarrow> int \<Rightarrow> int \<times> int \<times> int \<times> int" where
  "clip_rect x y width height = (
     let (x, width) = (if x < 0 then (0, width + x) else (x, width));
         (y, height) = (if y < 0 then (0, height + y) else (y, height));
         width = (if x + width \<ge> PIXEL_WIDTH then PIXEL_WIDTH - x else width);
         height = (if y + height \<ge> PIXEL_HEIGHT then PIXEL_HEIGHT - y else height)
     in (x, y, width, height))"

definition fill_rect :: "memory \<Rightarrow> int \<Rightarrow> int \<Rightarrow> int \<Rightarrow> int \<Rightarrow> u32 \<Rightarrow> memory" where
  "fill_rect m x y width height color =
     (if x \<ge> PIXEL_WIDTH \<or> y \<ge> PIXEL_HEIGHT then m
      else (let (x, y, width, height) = clip_rect x y width height
            in fill_rows m (VIDEO_ADDRESS + word_of_int ((y * PIXEL_WIDTH + x) * 3)) color
                 (nat width) (nat height)))"

definition outline_rect :: "memory \<Rightarrow> int \<Rightarrow> int \<Rightarrow> int \<Rightarrow> int \<Rightarrow> int \<Rightarrow> u32 \<Rightarrow> memory" where
  "outline_rect m x y width height sz color = (
     let m = fill_rect m (x - sz) (y - sz) (width + sz * 2) sz color;
         m = fill_rect m (x - sz) (y + height) (width + sz * 2) sz color;
         m = fill_rect m (x - sz) y sz height color
     in fill_rect m (x + width) y sz height color)"

text \<open>One channel of the gradient; the channels are \<^verbatim>\<open>int32_t\<close> and the quotient truncates.\<close>

definition channel :: "u32 \<Rightarrow> nat \<Rightarrow> int" where
  "channel color k = uint (drop_bit k color AND 0xFF)"

definition gradient_color :: "u32 \<Rightarrow> u32 \<Rightarrow> int \<Rightarrow> int \<Rightarrow> u32" where
  "gradient_color start_color end_color width j = (
     let r = channel start_color 0 + cdiv ((channel end_color 0 - channel start_color 0) * j) width;
         g = channel start_color 8 + cdiv ((channel end_color 8 - channel start_color 8) * j) width;
         b = channel start_color 16 + cdiv ((channel end_color 16 - channel start_color 16) * j) width
     in word_of_int r OR push_bit 8 (word_of_int g) OR push_bit 16 (word_of_int b))"

fun gradient_row :: "memory \<Rightarrow> u32 \<Rightarrow> u32 \<Rightarrow> u32 \<Rightarrow> int \<Rightarrow> nat \<Rightarrow> nat \<Rightarrow> memory" where
  "gradient_row m vram c1 c2 width j 0 = m"
| "gradient_row m vram c1 c2 width j (Suc n) =
     gradient_row (write_pixel m (vram + of_nat (j * 3)) (gradient_color c1 c2 width (int j))) vram c1 c2 width (Suc j) n"

fun gradient_rows :: "memory \<Rightarrow> u32 \<Rightarrow> u32 \<Rightarrow> u32 \<Rightarrow> int \<Rightarrow> nat \<Rightarrow> memory" where
  "gradient_rows m vram c1 c2 width 0 = m"
| "gradient_rows m vram c1 c2 width (Suc n) =
     gradient_rows (gradient_row m vram c1 c2 width 0 (nat width)) (vram + word_of_int (PIXEL_WIDTH * 3)) c1 c2 width n"

definition fill_gradient :: "memory \<Rightarrow> int \<Rightarrow> int \<Rightarrow> int \<Rightarrow> int \<Rightarrow> u32 \<Rightarrow> u32 \<Rightarrow> memory" where
  "fill_gradient m x y width height start_color end_color =
     (if x \<ge> PIXEL_WIDTH \<or> y \<ge> PIXEL_HEIGHT then m
      else (let (x, y, width, height) = clip_rect x y width height
            in gradient_rows m (VIDEO_ADDRESS + word_of_int ((y * PIXEL_WIDTH + x) * 3))
                 start_color end_color width (nat height)))"

text \<open>
  Characters.  The glyph of \<open>c\<close> is at \<open>font_buff + c * 16\<close>, with \<open>c\<close> a signed \<^verbatim>\<open>char\<close>; the bits of
  a row are taken from the lowest.
\<close>

definition glyph_addr :: "u32 \<Rightarrow> u8 \<Rightarrow> u32" where
  "glyph_addr font_buff c = font_buff + word_of_int (sint c * 16)"

fun char_row :: "memory \<Rightarrow> u8 \<Rightarrow> int \<Rightarrow> int \<Rightarrow> u32 \<Rightarrow> nat \<Rightarrow> nat \<Rightarrow> memory" where
  "char_row m tmp x y fgcolor j 0 = m"
| "char_row m tmp x y fgcolor j (Suc n) =
     char_row (if tmp mod 2 \<noteq> 0 then set_pixel m (x + int j) y fgcolor else m) (tmp div 2) x y fgcolor (Suc j) n"

fun char_rows :: "memory \<Rightarrow> u32 \<Rightarrow> int \<Rightarrow> int \<Rightarrow> u32 \<Rightarrow> nat \<Rightarrow> nat \<Rightarrow> memory" where
  "char_rows m src x y fgcolor row 0 = m"
| "char_rows m src x y fgcolor row (Suc n) =
     char_rows (char_row m (m src) x (y + int row) fgcolor 0 8) (src + 1) x y fgcolor (Suc row) n"

definition display_psf1_8x16_char :: "memory \<Rightarrow> u32 \<Rightarrow> u8 \<Rightarrow> int \<Rightarrow> int \<Rightarrow> u32 \<Rightarrow> memory" where
  "display_psf1_8x16_char m font_buff c x y fgcolor =
     (if x + CHAR_WIDTH > PIXEL_WIDTH \<or> y + CHAR_HEIGHT > PIXEL_HEIGHT \<or> x < 0 \<or> y < 0 then m
      else char_rows m (glyph_addr font_buff c) x y fgcolor 0 16)"

fun char_bg_row :: "memory \<Rightarrow> u8 \<Rightarrow> int \<Rightarrow> int \<Rightarrow> u32 \<Rightarrow> u32 \<Rightarrow> nat \<Rightarrow> nat \<Rightarrow> memory" where
  "char_bg_row m tmp x y bgcolor fgcolor j 0 = m"
| "char_bg_row m tmp x y bgcolor fgcolor j (Suc n) =
     char_bg_row (set_pixel m (x + int j) y (if tmp mod 2 \<noteq> 0 then fgcolor else bgcolor)) (tmp div 2)
       x y bgcolor fgcolor (Suc j) n"

fun char_bg_rows :: "memory \<Rightarrow> u32 \<Rightarrow> int \<Rightarrow> int \<Rightarrow> u32 \<Rightarrow> u32 \<Rightarrow> nat \<Rightarrow> nat \<Rightarrow> memory" where
  "char_bg_rows m src x y bgcolor fgcolor row 0 = m"
| "char_bg_rows m src x y bgcolor fgcolor row (Suc n) =
     char_bg_rows (char_bg_row m (m src) x (y + int row) bgcolor fgcolor 0 8) (src + 1) x y bgcolor fgcolor (Suc row) n"

definition display_psf1_8x16_char_bg :: "memory \<Rightarrow> u32 \<Rightarrow> u8 \<Rightarrow> int \<Rightarrow> int \<Rightarrow> u32 \<Rightarrow> u32 \<Rightarrow> memory" where
  "display_psf1_8x16_char_bg m font_buff c x y bgcolor fgcolor =
     (if x + CHAR_WIDTH > PIXEL_WIDTH \<or> y + CHAR_HEIGHT > PIXEL_HEIGHT \<or> x < 0 \<or> y < 0 then m
      else char_bg_rows m (glyph_addr font_buff c) x y bgcolor fgcolor 0 16)"

text \<open>The font is mirrored when it is loaded, because its rows have the leftmost pixel highest.\<close>

definition reverse :: "u8 \<Rightarrow> u8" where
  "reverse b = (
     let b = drop_bit 4 (b AND 0xF0) OR push_bit 4 (b AND 0x0F);
         b = drop_bit 2 (b AND 0xCC) OR push_bit 2 (b AND 0x33)
     in drop_bit 1 (b AND 0xAA) OR push_bit 1 (b AND 0x55))"

definition load_font_to_buffer :: "memory \<Rightarrow> u32 \<Rightarrow> u32 \<Rightarrow> memory" where
  "load_font_to_buffer m font_buff buff = memcpy m buff font_buff (256 * 16)"

section \<open>Pixels\<close>

text \<open>The three bytes of a pixel, as a colour.\<close>

definition pixel :: "memory \<Rightarrow> u32 \<Rightarrow> u32" where
  "pixel m a = ucast (m a) OR push_bit 8 (ucast (m (a + 1))) OR push_bit 16 (ucast (m (a + 2)))"

lemma write_pixel_eq:
  "write_pixel m a c = m(a := ucast c, a + 1 := ucast (drop_bit 8 c), a + 2 := ucast (drop_bit 16 c))"
proof -
  have h: "(0xFF000000 :: u32) = push_bit 24 (mask 8)" "(0xFFFFFF :: u32) = mask 24"
    by (simp_all add: mask_eq_exp_minus_1)
  have b0: "ucast ((v AND 0xFF000000) OR (c AND 0xFFFFFF) :: u32) = (ucast c :: u8)" for v
    unfolding h by (rule bit_word_eqI) (auto simp: bit_simps)
  have b1: "ucast (drop_bit 8 ((v AND 0xFF000000) OR (c AND 0xFFFFFF) :: u32)) = (ucast (drop_bit 8 c) :: u8)" for v
    unfolding h by (rule bit_word_eqI) (auto simp: bit_simps)
  have b2: "ucast (drop_bit 16 ((v AND 0xFF000000) OR (c AND 0xFFFFFF) :: u32)) = (ucast (drop_bit 16 c) :: u8)" for v
    unfolding h by (rule bit_word_eqI) (auto simp: bit_simps)
  have b3: "ucast (drop_bit 24 ((load32 m a AND 0xFF000000) OR (c AND 0xFFFFFF) :: u32)) = m (a + 3)"
    unfolding h by (rule bit_word_eqI) (auto simp: bit_simps load32_def dest: bit_imp_le_length)
  show ?thesis
    unfolding write_pixel_def Let_def load_store32 store32_def [of "store32 m a _"] b0 b1 b2 b3
    by (rule ext) (simp add: store32_def)
qed

lemma pixel_write_same: "pixel (write_pixel m a c) a = c AND 0xFFFFFF"
proof -
  have h: "(0xFFFFFF :: u32) = mask 24" by (simp add: mask_eq_exp_minus_1)
  have "ucast (ucast c :: u8) OR push_bit 8 (ucast (ucast (drop_bit 8 c) :: u8)) OR
      push_bit 16 (ucast (ucast (drop_bit 16 c) :: u8)) = c AND mask 24"
  proof (rule bit_word_eqI)
    fix n :: nat
    assume n: "n < LENGTH(32)"
    consider "n < 8" | "8 \<le> n" "n < 16" | "16 \<le> n" "n < 24" | "24 \<le> n" by linarith
    then show "bit (ucast (ucast c :: u8) OR push_bit 8 (ucast (ucast (drop_bit 8 c) :: u8)) OR
      push_bit 16 (ucast (ucast (drop_bit 16 c) :: u8)) :: u32) n = bit (c AND mask 24) n"
      using n by cases (auto simp: bit_simps)
  qed
  then show ?thesis unfolding h by (simp add: pixel_def write_pixel_eq)
qed

lemma write_pixel_other: "b \<noteq> a \<Longrightarrow> b \<noteq> a + 1 \<Longrightarrow> b \<noteq> a + 2 \<Longrightarrow> write_pixel m a c b = m b"
  by (simp add: write_pixel_eq)

lemma pixel_cong: "m' a = m a \<Longrightarrow> m' (a + 1) = m (a + 1) \<Longrightarrow> m' (a + 2) = m (a + 2) \<Longrightarrow> pixel m' a = pixel m a"
  by (simp add: pixel_def)

text \<open>
  The value \<^verbatim>\<open>get_pixel\<close> returns is the colour in its low three bytes, and the first byte of the
  next pixel above them.
\<close>

lemma load32_pixel: "load32 m a = pixel m a OR push_bit 24 (ucast (m (a + 3)))"
  by (simp add: load32_def pixel_def or.assoc)

section \<open>Pictures in memory\<close>

text \<open>
  A picture of \<open>w\<close> by \<open>h\<close> pixels, row by row from an address.  \<open>painted\<close> says that the picture has
  become \<open>f\<close> and that no byte outside it has changed.
\<close>

definition pixel_at :: "u32 \<Rightarrow> int \<Rightarrow> int \<Rightarrow> int \<Rightarrow> u32" where
  "pixel_at base w x y = base + word_of_int ((y * w + x) * 3)"

definition pic :: "u32 \<Rightarrow> int \<Rightarrow> memory \<Rightarrow> int \<Rightarrow> int \<Rightarrow> u32" where
  "pic base w m x y = pixel m (pixel_at base w x y)"

definition inside :: "int \<Rightarrow> int \<Rightarrow> int \<Rightarrow> int \<Rightarrow> bool" where
  "inside w h x y \<longleftrightarrow> 0 \<le> x \<and> x < w \<and> 0 \<le> y \<and> y < h"

definition outside :: "u32 \<Rightarrow> int \<Rightarrow> int \<Rightarrow> u32 \<Rightarrow> bool" where
  "outside base w h a \<longleftrightarrow> 3 * w * h \<le> uint (a - base)"

definition painted :: "u32 \<Rightarrow> int \<Rightarrow> int \<Rightarrow> memory \<Rightarrow> memory \<Rightarrow> (int \<Rightarrow> int \<Rightarrow> u32) \<Rightarrow> bool" where
  "painted base w h m m' f \<longleftrightarrow>
     (\<forall>x y. inside w h x y \<longrightarrow> pic base w m' x y = f x y) \<and> (\<forall>a. outside base w h a \<longrightarrow> m' a = m a)"

text \<open>The pixels of a rectangle.\<close>

definition in_rect :: "int \<Rightarrow> int \<Rightarrow> int \<Rightarrow> int \<Rightarrow> int \<Rightarrow> int \<Rightarrow> bool" where
  "in_rect x y w h px py \<longleftrightarrow> x \<le> px \<and> px < x + w \<and> y \<le> py \<and> py < y + h"

lemma pixel_at_right: "pixel_at base w x y + 3 = pixel_at base w (x + 1) y"
proof -
  have "(y * w + (x + 1)) * 3 = (y * w + x) * 3 + 3" by simp
  then show ?thesis by (simp only: pixel_at_def wi_hom_add [symmetric]) simp
qed

lemma pixel_at_below: "pixel_at base w x y + word_of_int (w * 3) = pixel_at base w x (y + 1)"
proof -
  have "((y + 1) * w + x) * 3 = (y * w + x) * 3 + w * 3" by (simp add: algebra_simps)
  then show ?thesis by (simp only: pixel_at_def wi_hom_add [symmetric] add.assoc)
qed

lemma same_pixel:
  assumes "0 \<le> x" "x < w" "0 \<le> x'" "x' < w" "0 \<le> (k::int)" "k < 3" "0 \<le> k'" "k' < 3"
    and e: "(y * w + x) * 3 + k = (y' * w + x') * 3 + k'"
  shows "x = x' \<and> y = y' \<and> k = k'"
proof -
  have k: "k = k'" and p: "y * w + x = y' * w + x'" using assms by presburger+
  have "(y * w + x) mod w = x" "(y' * w + x') mod w = x'" using assms(1-4) by simp_all
  then have x: "x = x'" using p by simp
  have "w \<noteq> 0" using assms(1,2) by linarith
  with p x k show ?thesis by simp
qed

locale canvas =
  fixes base :: u32 and w h :: int
  assumes width: "0 < w" and height: "0 \<le> h" and fit: "3 * w * h \<le> 2 ^ 32"
begin

lemma offset_bound:
  assumes "inside w h x y" and "0 \<le> k" and "k < 3"
  shows "0 \<le> (y * w + x) * 3 + k" and "(y * w + x) * 3 + k < 3 * w * h"
proof -
  have i: "0 \<le> x" "x < w" "0 \<le> y" "y < h" using assms(1) by (simp_all add: inside_def)
  have "0 \<le> y * w" using i width by simp
  then show "0 \<le> (y * w + x) * 3 + k" using i assms(2) by simp
  have "(y + 1) * w \<le> h * w" using i width by (intro mult_right_mono) simp_all
  then have p: "y * w + x + 1 \<le> h * w" using i(2) by (simp add: distrib_right)
  have "p * 3 + k < 3 * q" if "p + 1 \<le> q" for p q :: int using that assms(3) by linarith
  from this [OF p] have "(y * w + x) * 3 + k < 3 * (h * w)" .
  then show "(y * w + x) * 3 + k < 3 * w * h" by (simp only: mult.commute [of h w] mult.assoc)
qed

lemma offset:
  assumes "inside w h x y" and "0 \<le> k" and "k < 3"
  shows "uint (pixel_at base w x y + word_of_int k - base) = (y * w + x) * 3 + k"
proof -
  have "pixel_at base w x y + word_of_int k - base = word_of_int ((y * w + x) * 3 + k)"
    by (simp only: pixel_at_def wi_hom_add [symmetric]) simp
  moreover have "(y * w + x) * 3 + k < 2 ^ 32" using offset_bound(2) [OF assms] fit by linarith
  ultimately show ?thesis using offset_bound(1) [OF assms]
    by (simp only: uint_word_of_int mod_pos_pos_trivial len_num1 len_bit0 mult_2 numeral_eq_Suc) simp
qed

lemma bytes_differ:
  assumes "inside w h x y" and "inside w h x' y'" and "(x, y) \<noteq> (x', y')"
    and "0 \<le> k" and "k < 3" and "0 \<le> k'" and "k' < 3"
  shows "pixel_at base w x y + word_of_int k \<noteq> pixel_at base w x' y' + word_of_int k'"
proof
  assume "pixel_at base w x y + word_of_int k = pixel_at base w x' y' + word_of_int k'"
  then have "(y * w + x) * 3 + k = (y' * w + x') * 3 + k'"
    using offset [OF assms(1,4,5)] offset [OF assms(2,6,7)] by simp
  then show False using same_pixel [of x w x' k k' y y'] assms by (auto simp: inside_def)
qed

lemma outside_differs:
  assumes "inside w h x y" and "outside base w h a" and "0 \<le> k" and "k < 3"
  shows "a \<noteq> pixel_at base w x y + word_of_int k"
proof
  assume "a = pixel_at base w x y + word_of_int k"
  then have "uint (a - base) = (y * w + x) * 3 + k" using offset [OF assms(1,3,4)] by simp
  then show False using offset_bound(2) [OF assms(1,3,4)] assms(2) by (simp add: outside_def)
qed

lemma pic_write:
  assumes "inside w h x y" and "inside w h x' y'"
  shows "pic base w (write_pixel m (pixel_at base w x y) c) x' y' =
    (if x' = x \<and> y' = y then c AND 0xFFFFFF else pic base w m x' y')"
proof (cases "x' = x \<and> y' = y")
  case True
  then show ?thesis by (simp add: pic_def pixel_write_same)
next
  case False
  then have ne: "(x', y') \<noteq> (x, y)" by simp
  note d = bytes_differ [OF assms(2,1) ne]
  have "pixel (write_pixel m (pixel_at base w x y) c) (pixel_at base w x' y') = pixel m (pixel_at base w x' y')"
    using d [of 0 0] d [of 0 1] d [of 0 2] d [of 1 0] d [of 1 1] d [of 1 2] d [of 2 0] d [of 2 1] d [of 2 2]
    by (intro pixel_cong write_pixel_other) simp_all
  with False show ?thesis by (auto simp: pic_def)
qed

lemma write_outside:
  assumes "inside w h x y" and "outside base w h a"
  shows "write_pixel m (pixel_at base w x y) c a = m a"
  using outside_differs [OF assms, of 0] outside_differs [OF assms, of 1] outside_differs [OF assms, of 2]
  by (intro write_pixel_other) simp_all

lemma painted_write:
  assumes "inside w h x y"
  shows "painted base w h m (write_pixel m (pixel_at base w x y) c)
    (\<lambda>px py. if px = x \<and> py = y then c AND 0xFFFFFF else pic base w m px py)"
  using assms by (simp add: painted_def pic_write write_outside)

end

lemma painted_refl: "painted base w h m m (pic base w m)"
  by (simp add: painted_def)

lemma painted_trans:
  assumes "painted base w h m m' f" and "painted base w h m' m'' g"
    and "\<And>x y. inside w h x y \<Longrightarrow> (pic base w m' x y = f x y \<Longrightarrow> g x y = k x y)"
  shows "painted base w h m m'' k"
  using assms by (simp add: painted_def)

lemma painted_cong:
  "painted base w h m m' f \<Longrightarrow> (\<And>x y. inside w h x y \<Longrightarrow> f x y = g x y) \<Longrightarrow> painted base w h m m' g"
  by (simp add: painted_def)

lemma painted_pic: "painted base w h m m' f \<Longrightarrow> inside w h x y \<Longrightarrow> pic base w m' x y = f x y"
  by (simp add: painted_def)

context canvas begin

lemma fill_row_painted:
  "inside w h x y \<or> n = 0 \<Longrightarrow> x + int n \<le> w \<Longrightarrow>
    painted base w h m (fill_row m (pixel_at base w x y) c n)
      (\<lambda>px py. if in_rect x y (int n) 1 px py then c AND 0xFFFFFF else pic base w m px py)"
proof (induction n arbitrary: m x)
  case 0
  have "painted base w h m m (\<lambda>px py. if in_rect x y (int 0) 1 px py then c AND 0xFFFFFF else pic base w m px py)"
    by (rule painted_cong [OF painted_refl]) (auto simp: in_rect_def)
  then show ?case by simp
next
  case (Suc n)
  from Suc.prems have i: "inside w h x y" by simp
  have "painted base w h (write_pixel m (pixel_at base w x y) c)
      (fill_row m (pixel_at base w x y) c (Suc n))
      (\<lambda>px py. if in_rect (x + 1) y (int n) 1 px py then c AND 0xFFFFFF
        else pic base w (write_pixel m (pixel_at base w x y) c) px py)"
    using Suc.IH [of "x + 1" "write_pixel m (pixel_at base w x y) c"] Suc.prems i
    by (cases "n = 0") (simp_all add: pixel_at_right inside_def)
  then show ?case by (rule painted_trans [OF painted_write [OF i]]) (auto simp: in_rect_def)
qed

end

interpretation screen: canvas VIDEO_ADDRESS PIXEL_WIDTH PIXEL_HEIGHT
  by unfold_locales simp_all

lemma fill_rows_painted:
  "0 \<le> x \<Longrightarrow> x < PIXEL_WIDTH \<Longrightarrow> x + int wd \<le> PIXEL_WIDTH \<Longrightarrow> 0 \<le> y \<Longrightarrow> y + int n \<le> PIXEL_HEIGHT \<Longrightarrow>
    painted VIDEO_ADDRESS PIXEL_WIDTH PIXEL_HEIGHT m
      (fill_rows m (pixel_at VIDEO_ADDRESS PIXEL_WIDTH x y) c wd n)
      (\<lambda>px py. if in_rect x y (int wd) (int n) px py then c AND 0xFFFFFF
        else pic VIDEO_ADDRESS PIXEL_WIDTH m px py)"
proof (induction n arbitrary: m y)
  case 0
  have "painted VIDEO_ADDRESS PIXEL_WIDTH PIXEL_HEIGHT m m (\<lambda>px py. if in_rect x y (int wd) (int 0) px py
      then c AND 0xFFFFFF else pic VIDEO_ADDRESS PIXEL_WIDTH m px py)"
    by (rule painted_cong [OF painted_refl]) (auto simp: in_rect_def)
  then show ?case by simp
next
  case (Suc n)
  let ?m = "fill_row m (pixel_at VIDEO_ADDRESS PIXEL_WIDTH x y) c wd"
  have "painted VIDEO_ADDRESS PIXEL_WIDTH PIXEL_HEIGHT m ?m
      (\<lambda>px py. if in_rect x y (int wd) 1 px py then c AND 0xFFFFFF else pic VIDEO_ADDRESS PIXEL_WIDTH m px py)"
    using Suc.prems by (intro screen.fill_row_painted) (simp_all add: inside_def)
  moreover have "painted VIDEO_ADDRESS PIXEL_WIDTH PIXEL_HEIGHT ?m
      (fill_rows m (pixel_at VIDEO_ADDRESS PIXEL_WIDTH x y) c wd (Suc n))
      (\<lambda>px py. if in_rect x (y + 1) (int wd) (int n) px py then c AND 0xFFFFFF
        else pic VIDEO_ADDRESS PIXEL_WIDTH ?m px py)"
    using Suc.IH [of "y + 1" ?m] Suc.prems pixel_at_below [of VIDEO_ADDRESS PIXEL_WIDTH x y] by simp
  ultimately show ?case by (rule painted_trans) (auto simp: in_rect_def)
qed

text \<open>Clipping keeps exactly the pixels of the rectangle that are on the screen.\<close>

lemma clip_rect_spec:
  assumes "clip_rect x y width height = (x', y', width', height')" and "x < PIXEL_WIDTH" and "y < PIXEL_HEIGHT"
  shows "0 \<le> x' \<and> x' < PIXEL_WIDTH \<and> x' + width' \<le> PIXEL_WIDTH \<and> 0 \<le> y' \<and> y' < PIXEL_HEIGHT \<and>
    y' + height' \<le> PIXEL_HEIGHT \<and>
    (\<forall>px py. inside PIXEL_WIDTH PIXEL_HEIGHT px py \<longrightarrow>
      in_rect x' y' width' height' px py = in_rect x y width height px py)"
  using assms by (auto simp: clip_rect_def Let_def inside_def in_rect_def split: if_splits)

lemma in_rect_nat: "in_rect x y (int (nat w)) (int (nat h)) px py = in_rect x y w h px py"
  by (auto simp: in_rect_def)

lemma fill_rect_painted:
  "painted VIDEO_ADDRESS PIXEL_WIDTH PIXEL_HEIGHT m (fill_rect m x y width height c)
     (\<lambda>px py. if in_rect x y width height px py then c AND 0xFFFFFF
       else pic VIDEO_ADDRESS PIXEL_WIDTH m px py)"
proof (cases "x \<ge> PIXEL_WIDTH \<or> y \<ge> PIXEL_HEIGHT")
  case True
  then have "fill_rect m x y width height c = m" by (simp add: fill_rect_def)
  moreover have "painted VIDEO_ADDRESS PIXEL_WIDTH PIXEL_HEIGHT m m (\<lambda>px py. if in_rect x y width height px py
      then c AND 0xFFFFFF else pic VIDEO_ADDRESS PIXEL_WIDTH m px py)"
    using True by (intro painted_cong [OF painted_refl]) (auto simp: in_rect_def inside_def)
  ultimately show ?thesis by simp
next
  case False
  obtain x' y' w' h' where c: "clip_rect x y width height = (x', y', w', h')"
    by (cases "clip_rect x y width height")
  have s: "0 \<le> x'" "x' < PIXEL_WIDTH" "x' + w' \<le> PIXEL_WIDTH" "0 \<le> y'" "y' < PIXEL_HEIGHT"
    "y' + h' \<le> PIXEL_HEIGHT"
    and r: "\<forall>px py. inside PIXEL_WIDTH PIXEL_HEIGHT px py \<longrightarrow>
      in_rect x' y' w' h' px py = in_rect x y width height px py"
    using clip_rect_spec [OF c] False by auto
  have f: "fill_rect m x y width height c =
      fill_rows m (pixel_at VIDEO_ADDRESS PIXEL_WIDTH x' y') c (nat w') (nat h')"
    using False c by (simp add: fill_rect_def pixel_at_def)
  have "x' + int (nat w') \<le> PIXEL_WIDTH" "y' + int (nat h') \<le> PIXEL_HEIGHT" using s by auto
  from fill_rows_painted [OF s(1,2) this(1) s(4) this(2), of m c] show ?thesis
    unfolding f by (rule painted_cong) (simp only: in_rect_nat r [rule_format])
qed

abbreviation on_screen :: "int \<Rightarrow> int \<Rightarrow> bool" where "on_screen \<equiv> inside PIXEL_WIDTH PIXEL_HEIGHT"
abbreviation spic :: "memory \<Rightarrow> int \<Rightarrow> int \<Rightarrow> u32" where "spic \<equiv> pic VIDEO_ADDRESS PIXEL_WIDTH"
abbreviation spainted :: "memory \<Rightarrow> memory \<Rightarrow> (int \<Rightarrow> int \<Rightarrow> u32) \<Rightarrow> bool" where
  "spainted \<equiv> painted VIDEO_ADDRESS PIXEL_WIDTH PIXEL_HEIGHT"
abbreviation off_screen :: "u32 \<Rightarrow> bool" where "off_screen \<equiv> outside VIDEO_ADDRESS PIXEL_WIDTH PIXEL_HEIGHT"

lemma set_pixel_painted:
  "spainted m (set_pixel m x y c) (\<lambda>px py. if px = x \<and> py = y then c AND 0xFFFFFF else spic m px py)"
proof (cases "on_screen x y")
  case True
  then have "set_pixel m x y c = write_pixel m (pixel_at VIDEO_ADDRESS PIXEL_WIDTH x y) c"
    by (simp add: set_pixel_def pixel_at_def inside_def)
  then show ?thesis using screen.painted_write [OF True, of m c] by simp
next
  case False
  then have "set_pixel m x y c = m" by (auto simp: set_pixel_def inside_def)
  moreover have "spainted m m (\<lambda>px py. if px = x \<and> py = y then c AND 0xFFFFFF else spic m px py)"
    using False by (intro painted_cong [OF painted_refl]) auto
  ultimately show ?thesis by simp
qed

lemma fill_rect_pic:
  "on_screen px py \<Longrightarrow> spic (fill_rect m x y width height c) px py =
    (if in_rect x y width height px py then c AND 0xFFFFFF else spic m px py)"
  by (rule painted_pic [OF fill_rect_painted])

lemma fill_rect_off: "off_screen a \<Longrightarrow> fill_rect m x y width height c a = m a"
  using fill_rect_painted [of m x y width height c] by (simp add: painted_def)

lemma outline_rect_painted:
  "spainted m (outline_rect m x y width height sz c)
     (\<lambda>px py. if in_rect (x - sz) (y - sz) (width + sz * 2) sz px py \<or>
          in_rect (x - sz) (y + height) (width + sz * 2) sz px py \<or>
          in_rect (x - sz) y sz height px py \<or> in_rect (x + width) y sz height px py
        then c AND 0xFFFFFF else spic m px py)"
  unfolding outline_rect_def Let_def painted_def by (simp add: fill_rect_pic fill_rect_off)

section \<open>Glyphs\<close>

lemma low_bit: "(t :: u8) mod 2 \<noteq> 0 \<longleftrightarrow> bit t 0"
  by (simp add: bit_0 odd_iff_mod_2_eq_one even_iff_mod_2_eq_zero)

lemma shifted_bit:
  "x + int (Suc j) \<le> px \<Longrightarrow> bit ((t :: u8) div 2) (nat (px - x - int (Suc j))) = bit t (nat (px - x - int j))"
proof -
  assume "x + int (Suc j) \<le> px"
  then have "nat (px - x - int j) = Suc (nat (px - x - int (Suc j)))" by simp
  then show ?thesis by (simp only: bit_Suc)
qed

lemma row_step:
  "(py = y \<and> x + int j \<le> px \<and> px < x + int j + int (Suc n) \<and> bit (t :: u8) (nat (px - x - int j))) \<longleftrightarrow>
    (px = x + int j \<and> py = y \<and> bit t 0) \<or>
    (py = y \<and> x + int (Suc j) \<le> px \<and> px < x + int (Suc j) + int n \<and> bit (t div 2) (nat (px - x - int (Suc j))))"
proof (cases "x + int (Suc j) \<le> px")
  case True
  then show ?thesis unfolding shifted_bit [OF True] by auto
next
  case False
  then show ?thesis by auto
qed

lemma char_row_painted:
  "spainted m (char_row m t x y c j n)
     (\<lambda>px py. if py = y \<and> x + int j \<le> px \<and> px < x + int j + int n \<and> bit t (nat (px - x - int j))
        then c AND 0xFFFFFF else spic m px py)"
proof (induction n arbitrary: m t j)
  case 0
  have "spainted m m (\<lambda>px py. if py = y \<and> x + int j \<le> px \<and> px < x + int j + int 0 \<and> bit t (nat (px - x - int j))
      then c AND 0xFFFFFF else spic m px py)" by (rule painted_cong [OF painted_refl]) auto
  then show ?case by simp
next
  case (Suc n)
  let ?m = "if t mod 2 \<noteq> 0 then set_pixel m (x + int j) y c else m"
  have 1: "spainted m ?m (\<lambda>px py. if px = x + int j \<and> py = y \<and> bit t 0 then c AND 0xFFFFFF else spic m px py)"
    unfolding low_bit using set_pixel_painted [of m "x + int j" y c] painted_refl by auto
  show ?case unfolding char_row.simps
    by (rule painted_trans [OF 1 Suc.IH]) (simp only: row_step split: if_split, blast)
qed

lemma char_bg_row_painted:
  "spainted m (char_bg_row m t x y bg c j n)
     (\<lambda>px py. if py = y \<and> x + int j \<le> px \<and> px < x + int j + int n
        then (if bit t (nat (px - x - int j)) then c AND 0xFFFFFF else bg AND 0xFFFFFF) else spic m px py)"
proof (induction n arbitrary: m t j)
  case 0
  have "spainted m m (\<lambda>px py. if py = y \<and> x + int j \<le> px \<and> px < x + int j + int 0
      then (if bit t (nat (px - x - int j)) then c AND 0xFFFFFF else bg AND 0xFFFFFF) else spic m px py)"
    by (rule painted_cong [OF painted_refl]) auto
  then show ?case by simp
next
  case (Suc n)
  let ?m = "set_pixel m (x + int j) y (if t mod 2 \<noteq> 0 then c else bg)"
  have 1: "spainted m ?m (\<lambda>px py. if px = x + int j \<and> py = y
      then (if bit t 0 then c AND 0xFFFFFF else bg AND 0xFFFFFF) else spic m px py)"
    unfolding low_bit using set_pixel_painted [of m "x + int j" y] by auto
  show ?case unfolding char_bg_row.simps
  proof (rule painted_trans [OF 1 Suc.IH])
    fix px py
    assume m: "spic ?m px py = (if px = x + int j \<and> py = y
      then (if bit t 0 then c AND 0xFFFFFF else bg AND 0xFFFFFF) else spic m px py)"
    show "(if py = y \<and> x + int (Suc j) \<le> px \<and> px < x + int (Suc j) + int n
        then (if bit (t div 2) (nat (px - x - int (Suc j))) then c AND 0xFFFFFF else bg AND 0xFFFFFF)
        else spic ?m px py) =
      (if py = y \<and> x + int j \<le> px \<and> px < x + int j + int (Suc n)
        then (if bit t (nat (px - x - int j)) then c AND 0xFFFFFF else bg AND 0xFFFFFF) else spic m px py)"
    proof (cases "x + int (Suc j) \<le> px")
      case True
      then show ?thesis unfolding m shifted_bit [OF True] by auto
    next
      case False
      then show ?thesis unfolding m by auto
    qed
  qed
qed

text \<open>The bit of a glyph at a column and a row.\<close>

definition glyph_bit :: "memory \<Rightarrow> u32 \<Rightarrow> int \<Rightarrow> int \<Rightarrow> bool" where
  "glyph_bit m src px py \<longleftrightarrow> bit (m (src + word_of_int py)) (nat px)"

lemma glyph_bit_next: "glyph_bit m (src + 1) px py = glyph_bit m src px (py + 1)"
  by (simp add: glyph_bit_def add.commute add.left_commute)

lemma glyph_bit_next_row:
  assumes "spainted m m' f" and o: "\<And>i. i < n \<Longrightarrow> off_screen (src + 1 + of_nat i)"
    and "in_rect x (y + int (Suc row)) 8 (int n) px py"
  shows "glyph_bit m' (src + 1) (px - x) (py - y - int (Suc row)) = glyph_bit m src (px - x) (py - y - int row)"
proof -
  have k: "py - y - int (Suc row) = int (nat (py - y - int (Suc row)))" "nat (py - y - int (Suc row)) < n"
    using assms(3) by (auto simp: in_rect_def)
  have "m' (src + 1 + word_of_int (py - y - int (Suc row))) = m (src + 1 + word_of_int (py - y - int (Suc row)))"
    using assms(1) o [OF k(2)] k(1) unfolding painted_def by (metis of_int_of_nat_eq)
  then have "glyph_bit m' (src + 1) (px - x) (py - y - int (Suc row)) =
      glyph_bit m (src + 1) (px - x) (py - y - int (Suc row))" by (simp only: glyph_bit_def)
  moreover have "py - y - int (Suc row) + 1 = py - y - int row" by simp
  ultimately show ?thesis by (simp only: glyph_bit_next)
qed

lemma glyph_bit_top:
  "in_rect x (y + int row) 8 1 px py \<Longrightarrow> glyph_bit m src (px - x) (py - y - int row) = bit (m src) (nat (px - x))"
proof -
  assume "in_rect x (y + int row) 8 1 px py"
  then have "py - y - int row = 0" by (simp add: in_rect_def)
  then show ?thesis by (simp add: glyph_bit_def)
qed

lemma char_rows_painted:
  "(\<And>i. i < n \<Longrightarrow> off_screen (src + of_nat i)) \<Longrightarrow>
   spainted m (char_rows m src x y c row n)
     (\<lambda>px py. if in_rect x (y + int row) 8 (int n) px py \<and> glyph_bit m src (px - x) (py - y - int row)
        then c AND 0xFFFFFF else spic m px py)"
proof (induction n arbitrary: m src row)
  case 0
  have "spainted m m (\<lambda>px py. if in_rect x (y + int row) 8 (int 0) px py \<and> glyph_bit m src (px - x) (py - y - int row)
      then c AND 0xFFFFFF else spic m px py)" by (rule painted_cong [OF painted_refl]) (auto simp: in_rect_def)
  then show ?case by simp
next
  case (Suc n)
  let ?m = "char_row m (m src) x (y + int row) c 0 8"
  have 1: "spainted m ?m (\<lambda>px py. if in_rect x (y + int row) 8 1 px py \<and> bit (m src) (nat (px - x))
      then c AND 0xFFFFFF else spic m px py)"
    using char_row_painted [of m "m src" x "y + int row" c 0 8] by (rule painted_cong) (auto simp: in_rect_def)
  have o: "off_screen (src + 1 + of_nat i)" if "i < n" for i using Suc.prems [of "Suc i"] that by (simp add: add.assoc)
  have g: "glyph_bit ?m (src + 1) (px - x) (py - y - int (Suc row)) = glyph_bit m src (px - x) (py - y - int row)"
    if "in_rect x (y + int (Suc row)) 8 (int n) px py" for px py
    by (rule glyph_bit_next_row [OF 1 o that])
  have e: "(in_rect x (y + int row) 8 (int (Suc n)) px py \<and> glyph_bit m src (px - x) (py - y - int row)) \<longleftrightarrow>
      (in_rect x (y + int row) 8 1 px py \<and> bit (m src) (nat (px - x))) \<or>
      (in_rect x (y + int (Suc row)) 8 (int n) px py \<and> glyph_bit ?m (src + 1) (px - x) (py - y - int (Suc row)))"
    for px py
  proof -
    have "in_rect x (y + int row) 8 (int (Suc n)) px py \<longleftrightarrow>
        in_rect x (y + int row) 8 1 px py \<or> in_rect x (y + int (Suc row)) 8 (int n) px py"
      by (auto simp: in_rect_def)
    then show ?thesis using g glyph_bit_top [of x y row px py m src] by blast
  qed
  show ?case unfolding char_rows.simps
    by (rule painted_trans [OF 1 Suc.IH [OF o]]) (assumption, simp only: e split: if_split, blast)
qed

lemma char_bg_rows_painted:
  "(\<And>i. i < n \<Longrightarrow> off_screen (src + of_nat i)) \<Longrightarrow>
   spainted m (char_bg_rows m src x y bg c row n)
     (\<lambda>px py. if in_rect x (y + int row) 8 (int n) px py
        then (if glyph_bit m src (px - x) (py - y - int row) then c AND 0xFFFFFF else bg AND 0xFFFFFF)
        else spic m px py)"
proof (induction n arbitrary: m src row)
  case 0
  have "spainted m m (\<lambda>px py. if in_rect x (y + int row) 8 (int 0) px py
      then (if glyph_bit m src (px - x) (py - y - int row) then c AND 0xFFFFFF else bg AND 0xFFFFFF)
      else spic m px py)" by (rule painted_cong [OF painted_refl]) (auto simp: in_rect_def)
  then show ?case by simp
next
  case (Suc n)
  let ?m = "char_bg_row m (m src) x (y + int row) bg c 0 8"
  have 1: "spainted m ?m (\<lambda>px py. if in_rect x (y + int row) 8 1 px py
      then (if bit (m src) (nat (px - x)) then c AND 0xFFFFFF else bg AND 0xFFFFFF) else spic m px py)"
    using char_bg_row_painted [of m "m src" x "y + int row" bg c 0 8] by (rule painted_cong) (auto simp: in_rect_def)
  have o: "off_screen (src + 1 + of_nat i)" if "i < n" for i using Suc.prems [of "Suc i"] that by (simp add: add.assoc)
  have g: "glyph_bit ?m (src + 1) (px - x) (py - y - int (Suc row)) = glyph_bit m src (px - x) (py - y - int row)"
    if "in_rect x (y + int (Suc row)) 8 (int n) px py" for px py
    by (rule glyph_bit_next_row [OF 1 o that])
  show ?case unfolding char_bg_rows.simps
  proof (rule painted_trans [OF 1 Suc.IH [OF o]], assumption)
    fix px py
    assume m: "spic ?m px py = (if in_rect x (y + int row) 8 1 px py
      then (if bit (m src) (nat (px - x)) then c AND 0xFFFFFF else bg AND 0xFFFFFF) else spic m px py)"
    consider (below) "in_rect x (y + int (Suc row)) 8 (int n) px py" |
      (here) "in_rect x (y + int row) 8 1 px py" "\<not> in_rect x (y + int (Suc row)) 8 (int n) px py" |
      (no) "\<not> in_rect x (y + int row) 8 1 px py" "\<not> in_rect x (y + int (Suc row)) 8 (int n) px py" by blast
    then show "(if in_rect x (y + int (Suc row)) 8 (int n) px py
        then (if glyph_bit ?m (src + 1) (px - x) (py - y - int (Suc row)) then c AND 0xFFFFFF else bg AND 0xFFFFFF)
        else spic ?m px py) =
      (if in_rect x (y + int row) 8 (int (Suc n)) px py
        then (if glyph_bit m src (px - x) (py - y - int row) then c AND 0xFFFFFF else bg AND 0xFFFFFF)
        else spic m px py)"
    proof cases
      case below
      then have "in_rect x (y + int row) 8 (int (Suc n)) px py" by (auto simp: in_rect_def)
      with below g [OF below] show ?thesis by (simp only: if_True)
    next
      case here
      then have "in_rect x (y + int row) 8 (int (Suc n)) px py" by (auto simp: in_rect_def)
      with here m glyph_bit_top [OF here(1)] show ?thesis by (simp only: if_True if_False)
    next
      case no
      then have "\<not> in_rect x (y + int row) 8 (int (Suc n)) px py" by (auto simp: in_rect_def)
      with no m show ?thesis by (simp only: if_False)
    qed
  qed
qed

section \<open>Gradients\<close>

lemma gradient_row_painted:
  "on_screen x y \<or> n = 0 \<Longrightarrow> x + int (j + n) \<le> PIXEL_WIDTH \<Longrightarrow>
    spainted m (gradient_row m (pixel_at VIDEO_ADDRESS PIXEL_WIDTH x y) c1 c2 wd j n)
      (\<lambda>px py. if in_rect (x + int j) y (int n) 1 px py then gradient_color c1 c2 wd (px - x) AND 0xFFFFFF
        else spic m px py)"
proof (induction n arbitrary: m j)
  case 0
  have "spainted m m (\<lambda>px py. if in_rect (x + int j) y (int 0) 1 px py
      then gradient_color c1 c2 wd (px - x) AND 0xFFFFFF else spic m px py)"
    by (rule painted_cong [OF painted_refl]) (auto simp: in_rect_def)
  then show ?case by simp
next
  case (Suc n)
  from Suc.prems have i: "on_screen (x + int j) y" by (simp add: inside_def)
  have "(y * 1280 + (x + int j)) * 3 = (y * 1280 + x) * 3 + int (j * 3)" by simp
  then have a: "pixel_at VIDEO_ADDRESS PIXEL_WIDTH x y + of_nat (j * 3) = pixel_at VIDEO_ADDRESS PIXEL_WIDTH (x + int j) y"
    by (simp only: pixel_at_def wi_hom_add [symmetric] of_int_of_nat_eq add.assoc)
  let ?m = "write_pixel m (pixel_at VIDEO_ADDRESS PIXEL_WIDTH (x + int j) y) (gradient_color c1 c2 wd (int j))"
  have "spainted ?m (gradient_row m (pixel_at VIDEO_ADDRESS PIXEL_WIDTH x y) c1 c2 wd j (Suc n))
      (\<lambda>px py. if in_rect (x + int (Suc j)) y (int n) 1 px py
        then gradient_color c1 c2 wd (px - x) AND 0xFFFFFF else spic ?m px py)"
    using Suc.IH [of "Suc j" ?m] Suc.prems unfolding gradient_row.simps a by (cases "n = 0") simp_all
  then show ?case by (rule painted_trans [OF screen.painted_write [OF i]]) (auto simp: in_rect_def)
qed

lemma gradient_rows_painted:
  "0 \<le> x \<Longrightarrow> x < PIXEL_WIDTH \<Longrightarrow> x + wd \<le> PIXEL_WIDTH \<Longrightarrow> 0 \<le> y \<Longrightarrow> y + int n \<le> PIXEL_HEIGHT \<Longrightarrow>
    spainted m (gradient_rows m (pixel_at VIDEO_ADDRESS PIXEL_WIDTH x y) c1 c2 wd n)
      (\<lambda>px py. if in_rect x y wd (int n) px py then gradient_color c1 c2 wd (px - x) AND 0xFFFFFF else spic m px py)"
proof (induction n arbitrary: m y)
  case 0
  have "spainted m m (\<lambda>px py. if in_rect x y wd (int 0) px py then gradient_color c1 c2 wd (px - x) AND 0xFFFFFF
      else spic m px py)" by (rule painted_cong [OF painted_refl]) (auto simp: in_rect_def)
  then show ?case by simp
next
  case (Suc n)
  let ?m = "gradient_row m (pixel_at VIDEO_ADDRESS PIXEL_WIDTH x y) c1 c2 wd 0 (nat wd)"
  have "x + int (0 + nat wd) \<le> PIXEL_WIDTH" using Suc.prems by simp
  then have "spainted m ?m (\<lambda>px py. if in_rect (x + int 0) y (int (nat wd)) 1 px py
      then gradient_color c1 c2 wd (px - x) AND 0xFFFFFF else spic m px py)"
    using Suc.prems by (intro gradient_row_painted) (simp_all add: inside_def)
  then have 1: "spainted m ?m (\<lambda>px py. if in_rect x y wd 1 px py
      then gradient_color c1 c2 wd (px - x) AND 0xFFFFFF else spic m px py)"
    by (rule painted_cong) (auto simp: in_rect_def)
  have "spainted ?m (gradient_rows m (pixel_at VIDEO_ADDRESS PIXEL_WIDTH x y) c1 c2 wd (Suc n))
      (\<lambda>px py. if in_rect x (y + 1) wd (int n) px py then gradient_color c1 c2 wd (px - x) AND 0xFFFFFF
        else spic ?m px py)"
    using Suc.IH [of "y + 1" ?m] Suc.prems pixel_at_below [of VIDEO_ADDRESS PIXEL_WIDTH x y] by simp
  with 1 show ?case by (rule painted_trans) (auto simp: in_rect_def)
qed

text \<open>The width that the colours are spread over is the clipped one.\<close>

lemma fill_gradient_painted:
  "\<exists>x' wd. spainted m (fill_gradient m x y width height c1 c2)
     (\<lambda>px py. if in_rect x y width height px py then gradient_color c1 c2 wd (px - x') AND 0xFFFFFF
       else spic m px py) \<and>
     (0 \<le> x \<and> x + width < PIXEL_WIDTH \<longrightarrow> x' = x \<and> wd = width)"
proof (cases "x \<ge> PIXEL_WIDTH \<or> y \<ge> PIXEL_HEIGHT")
  case True
  then have "fill_gradient m x y width height c1 c2 = m" by (simp add: fill_gradient_def)
  moreover have "spainted m m (\<lambda>px py. if in_rect x y width height px py
      then gradient_color c1 c2 width (px - x) AND 0xFFFFFF else spic m px py)"
    using True by (intro painted_cong [OF painted_refl]) (auto simp: in_rect_def inside_def)
  ultimately show ?thesis by auto
next
  case False
  obtain x' y' w' h' where c: "clip_rect x y width height = (x', y', w', h')"
    by (cases "clip_rect x y width height")
  have s: "0 \<le> x'" "x' < PIXEL_WIDTH" "x' + w' \<le> PIXEL_WIDTH" "0 \<le> y'" "y' < PIXEL_HEIGHT"
    "y' + h' \<le> PIXEL_HEIGHT"
    and r: "\<forall>px py. on_screen px py \<longrightarrow> in_rect x' y' w' h' px py = in_rect x y width height px py"
    using clip_rect_spec [OF c] False by auto
  have f: "fill_gradient m x y width height c1 c2 =
      gradient_rows m (pixel_at VIDEO_ADDRESS PIXEL_WIDTH x' y') c1 c2 w' (nat h')"
    using False c by (simp add: fill_gradient_def pixel_at_def)
  have h: "in_rect x' y' w' (int (nat h')) px py = in_rect x' y' w' h' px py" for px py
    by (auto simp: in_rect_def)
  have "y' + int (nat h') \<le> PIXEL_HEIGHT" using s by auto
  from gradient_rows_painted [OF s(1-4) this, of m c1 c2]
  have "spainted m (fill_gradient m x y width height c1 c2)
     (\<lambda>px py. if in_rect x y width height px py then gradient_color c1 c2 w' (px - x') AND 0xFFFFFF
       else spic m px py)"
    unfolding f by (rule painted_cong) (simp only: h r [rule_format])
  moreover have "0 \<le> x \<and> x + width < PIXEL_WIDTH \<longrightarrow> x' = x \<and> w' = width"
    using c by (auto simp: clip_rect_def Let_def split: if_splits)
  ultimately show ?thesis by blast
qed

lemma sgn_mult_le: "\<bar>d\<bar> \<le> e \<Longrightarrow> 0 \<le> j \<Longrightarrow> 0 < w \<Longrightarrow> j < w \<Longrightarrow> \<bar>d * j\<bar> div w \<le> \<bar>d :: int\<bar>"
proof -
  assume a: "0 \<le> j" "0 < w" "j < w"
  have "\<bar>d * j\<bar> \<le> \<bar>d\<bar> * w" using a by (simp add: abs_mult mult_left_mono)
  then have "\<bar>d * j\<bar> div w \<le> \<bar>d\<bar> * w div w" using a(2) by (rule zdiv_mono1)
  with a(2) show ?thesis by simp
qed

text \<open>The colour of a column lies, channel by channel, between the two ends.\<close>

lemma gradient_between:
  assumes "0 \<le> j" and "j < w"
  shows "min a b \<le> a + cdiv ((b - a) * j) w \<and> a + cdiv ((b - a) * j) w \<le> max a b"
proof (cases "a \<le> b")
  case True
  have "0 \<le> (b - a) * j" using True assms by simp
  then have "cdiv ((b - a) * j) w = (b - a) * j div w" "0 \<le> (b - a) * j div w"
    using assms by (simp_all add: pos_imp_zdiv_nonneg_iff)
  moreover have "(b - a) * j div w \<le> b - a"
    using sgn_mult_le [of "b - a" "b - a" j w] True assms by simp
  ultimately show ?thesis using True by simp
next
  case False
  show ?thesis
  proof (cases "j = 0")
    case True
    then show ?thesis by (simp add: cdiv_def)
  next
    case j: False
    have n: "(b - a) * j < 0" using False j assms by (intro mult_neg_pos) simp_all
    have "cdiv ((b - a) * j) w = - (\<bar>(b - a) * j\<bar> div w)" using n assms by (simp add: cdiv_def)
    moreover have "0 \<le> \<bar>(b - a) * j\<bar> div w" using assms by (intro pos_imp_zdiv_nonneg_iff [THEN iffD2]) simp_all
    moreover have "\<bar>(b - a) * j\<bar> div w \<le> a - b"
      using sgn_mult_le [of "b - a" "a - b" j w] False assms by simp
    ultimately show ?thesis using False by simp
  qed
qed

lemma display_char_painted:
  assumes "0 \<le> x" and "x + CHAR_WIDTH \<le> PIXEL_WIDTH" and "0 \<le> y" and "y + CHAR_HEIGHT \<le> PIXEL_HEIGHT"
    and "\<And>i. i < 16 \<Longrightarrow> off_screen (glyph_addr font_buff c + of_nat i)"
  shows "spainted m (display_psf1_8x16_char m font_buff c x y fg)
    (\<lambda>px py. if in_rect x y CHAR_WIDTH CHAR_HEIGHT px py \<and> glyph_bit m (glyph_addr font_buff c) (px - x) (py - y)
       then fg AND 0xFFFFFF else spic m px py)"
  using char_rows_painted [of 16 "glyph_addr font_buff c" m x y fg 0] assms
  by (simp add: display_psf1_8x16_char_def)

lemma display_char_bg_painted:
  assumes "0 \<le> x" and "x + CHAR_WIDTH \<le> PIXEL_WIDTH" and "0 \<le> y" and "y + CHAR_HEIGHT \<le> PIXEL_HEIGHT"
    and "\<And>i. i < 16 \<Longrightarrow> off_screen (glyph_addr font_buff c + of_nat i)"
  shows "spainted m (display_psf1_8x16_char_bg m font_buff c x y bg fg)
    (\<lambda>px py. if in_rect x y CHAR_WIDTH CHAR_HEIGHT px py
       then (if glyph_bit m (glyph_addr font_buff c) (px - x) (py - y) then fg AND 0xFFFFFF else bg AND 0xFFFFFF)
       else spic m px py)"
  using char_bg_rows_painted [of 16 "glyph_addr font_buff c" m x y bg fg 0] assms
  by (simp add: display_psf1_8x16_char_bg_def cong: if_cong)

text \<open>A character above 127 is negative as a \<^verbatim>\<open>char\<close>: its glyph is read from before the font.\<close>

lemma glyph_before_font: "glyph_addr font_buff 0xE1 = font_buff - 496"
  by (simp add: glyph_addr_def)

text \<open>The mirroring of the font reverses the bits of a row.\<close>

lemma reverse_bit: "bit (reverse b) n \<longleftrightarrow> n < 8 \<and> bit b (7 - n)"
proof -
  have m: "(0xF0 :: u8) = push_bit 4 (mask 4)" "(0x0F :: u8) = mask 4"
    by (simp_all add: mask_eq_exp_minus_1)
  have s: "n = 0 \<or> n = 1 \<or> n = 2 \<or> n = 3 \<or> n = 4 \<or> n = 5 \<or> n = 6 \<or> n = 7 \<or> 8 \<le> n" by linarith
  show ?thesis
  proof (cases "8 \<le> n")
    case True
    then show ?thesis by (auto dest: bit_imp_le_length)
  next
    case False
    have d: "bit (x * 2 :: u8) k \<longleftrightarrow> k < 8 \<and> 0 < k \<and> bit x (k - 1)" for x k
      using bit_double_iff [of x k] by (auto simp: mult.commute)
    from s False show ?thesis
      by (elim disjE) (simp_all add: reverse_def Let_def bit_simps d)
  qed
qed

lemma reverse_reverse: "reverse (reverse b) = b"
  by (rule bit_word_eqI) (auto simp: reverse_bit)

section \<open>Properties\<close>

text \<open>
  Filling a rectangle, wherever it lies and whatever its size, sets exactly the pixels of the
  screen that are inside it to the 24-bit colour, and changes no byte of memory outside the frame
  buffer.
\<close>

theorem fill_rect_exact:
  "spainted m (fill_rect m x y width height color)
     (\<lambda>px py. if x \<le> px \<and> px < x + width \<and> y \<le> py \<and> py < y + height then color AND 0xFFFFFF
       else spic m px py)"
  using fill_rect_painted [of m x y width height color] by (simp add: in_rect_def)

text \<open>
  C25: drawing a character at a place where it fits on the screen paints its box of 8 by 16
  pixels, the foreground colour where the glyph's bit is set and the background colour elsewhere,
  and nothing else, as long as the glyph is not itself in the frame buffer.
\<close>

theorem display_char_bg_exact:
  assumes "0 \<le> x" and "x + CHAR_WIDTH \<le> PIXEL_WIDTH" and "0 \<le> y" and "y + CHAR_HEIGHT \<le> PIXEL_HEIGHT"
    and "\<forall>i < 16. off_screen (glyph_addr font_buff c + of_nat i)"
  shows "spainted m (display_psf1_8x16_char_bg m font_buff c x y bg fg)
    (\<lambda>px py. if x \<le> px \<and> px < x + CHAR_WIDTH \<and> y \<le> py \<and> py < y + CHAR_HEIGHT
       then (if bit (m (glyph_addr font_buff c + word_of_int (py - y))) (nat (px - x))
         then fg AND 0xFFFFFF else bg AND 0xFFFFFF)
       else spic m px py)"
  using display_char_bg_painted [OF assms(1-4), of font_buff c m bg fg] assms(5)
  by (simp add: in_rect_def glyph_bit_def cong: if_cong)

theorem display_char_bg_exact_witness:
  "spic (display_psf1_8x16_char_bg ((\<lambda>a. 0)(0xC0000413 := 0x18)) 0xC0000000 0x41 100 50 0x112233 0xFFFFFFFF) 103 53 =
    0xFFFFFF"
proof -
  have o: "\<forall>i < 16. off_screen (glyph_addr 0xC0000000 0x41 + of_nat i)"
  proof (intro allI impI)
    fix i :: nat
    assume "i < 16"
    have "glyph_addr 0xC0000000 0x41 + of_nat i - VIDEO_ADDRESS = word_of_int (0xF3000410 + int i)"
      by (simp add: glyph_addr_def)
    moreover have "uint (word_of_int (0xF3000410 + int i) :: u32) = 0xF3000410 + int i"
      using \<open>i < 16\<close> by (subst uint_word_of_int) simp
    ultimately show "off_screen (glyph_addr 0xC0000000 0x41 + of_nat i)" by (simp add: outside_def)
  qed
  have "on_screen 103 53" by (simp add: inside_def)
  from painted_pic [OF display_char_bg_exact [OF _ _ _ _ o, of 100 50
      "(\<lambda>a. 0)(0xC0000413 := 0x18)" "0x112233" "0xFFFFFFFF"] this]
  show ?thesis by (simp add: glyph_addr_def)
qed

end
