(* ===== verification/Painting.thy ===== *)
theory Painting
  imports Graphics
begin

text \<open>
  What the window system (\<^verbatim>\<open>kernel/window_sys.c\<close>) does to the frame buffer: the mouse cursor
  with the saved pixels under it, the sections of window buffers that are copied to the screen, the
  frames, and the repainting of what a window covers.

  The state is the memory, the address of the font, and the variables of the cursor.  The title of
  a window is read from memory up to its terminating 0; a title that has none and never reaches
  the right edge is drawn for ever (\<open>None\<close>).
\<close>

record screen =
  vmem :: memory
  font_buff :: u32
  winsys_mousex :: int
  winsys_mousey :: int
  mouse_placeholder_buffer :: "u8 list list"
  mouse_enabled :: bool
  mouse_installed :: bool

abbreviation MOUSE_WIDTH :: int where "MOUSE_WIDTH \<equiv> 10"
abbreviation MOUSE_HEIGHT :: int where "MOUSE_HEIGHT \<equiv> 18"

section \<open>The mouse cursor\<close>

definition mouse_bitmap :: "nat list list" where
  "mouse_bitmap = [
     [1, 0, 0, 0, 0, 0, 0, 0, 0, 0],
     [1, 1, 0, 0, 0, 0, 0, 0, 0, 0],
     [1, 2, 1, 0, 0, 0, 0, 0, 0, 0],
     [1, 2, 2, 1, 0, 0, 0, 0, 0, 0],
     [1, 2, 2, 2, 1, 0, 0, 0, 0, 0],
     [1, 2, 2, 2, 2, 1, 0, 0, 0, 0],
     [1, 2, 2, 2, 2, 2, 1, 0, 0, 0],
     [1, 2, 2, 2, 2, 2, 2, 1, 0, 0],
     [1, 2, 2, 2, 2, 2, 2, 2, 1, 0],
     [1, 2, 2, 2, 2, 2, 1, 1, 1, 1],
     [1, 2, 2, 1, 2, 2, 1, 0, 0, 0],
     [1, 2, 1, 1, 2, 2, 1, 0, 0, 0],
     [1, 1, 0, 0, 1, 2, 1, 0, 0, 0],
     [1, 0, 0, 0, 0, 1, 2, 1, 0, 0],
     [0, 0, 0, 0, 0, 1, 2, 1, 0, 0],
     [0, 0, 0, 0, 0, 0, 1, 2, 1, 0],
     [0, 0, 0, 0, 0, 0, 1, 2, 1, 0],
     [0, 0, 0, 0, 0, 0, 0, 1, 0, 0]]"

definition disable_mouse :: "screen \<Rightarrow> screen" where
  "disable_mouse s = (if \<not> mouse_installed s then s else s\<lparr>mouse_enabled := False\<rparr>)"

definition enable_mouse :: "screen \<Rightarrow> screen" where
  "enable_mouse s = (if \<not> mouse_installed s then s else s\<lparr>mouse_enabled := True\<rparr>)"

definition mouse_vram :: "screen \<Rightarrow> u32" where
  "mouse_vram s = VIDEO_ADDRESS + word_of_int ((winsys_mousey s * PIXEL_WIDTH + winsys_mousex s) * 3)"

fun save_rows :: "memory \<Rightarrow> u32 \<Rightarrow> nat \<Rightarrow> u8 list list" where
  "save_rows m vram 0 = []"
| "save_rows m vram (Suc n) =
     map (\<lambda>j. m (vram + of_nat j)) [0..<30] # save_rows m (vram + word_of_int (PIXEL_WIDTH * 3)) n"

definition winsys_save_to_mouse_buffer :: "screen \<Rightarrow> screen" where
  "winsys_save_to_mouse_buffer s = s\<lparr>mouse_placeholder_buffer := save_rows (vmem s) (mouse_vram s) 18\<rparr>"

fun print_mouse_row :: "memory \<Rightarrow> int \<Rightarrow> int \<Rightarrow> nat list \<Rightarrow> memory" where
  "print_mouse_row m x y [] = m"
| "print_mouse_row m x y (b # bs) =
     print_mouse_row
       (if b = 1 then set_pixel m x y 0xFFFFFF else if b = 2 then set_pixel m x y 0 else m) (x + 1) y bs"

fun print_mouse_rows :: "memory \<Rightarrow> int \<Rightarrow> int \<Rightarrow> nat list list \<Rightarrow> memory" where
  "print_mouse_rows m x y [] = m"
| "print_mouse_rows m x y (r # rs) = print_mouse_rows (print_mouse_row m x y r) x (y + 1) rs"

definition winsys_print_mouse :: "screen \<Rightarrow> screen" where
  "winsys_print_mouse s = s\<lparr>vmem := print_mouse_rows (vmem s) (winsys_mousex s) (winsys_mousey s) mouse_bitmap\<rparr>"

fun put_bytes :: "memory \<Rightarrow> u32 \<Rightarrow> u8 list \<Rightarrow> memory" where
  "put_bytes m a [] = m"
| "put_bytes m a (b # bs) = put_bytes (m(a := b)) (a + 1) bs"

fun restore_rows :: "memory \<Rightarrow> u32 \<Rightarrow> u8 list list \<Rightarrow> memory" where
  "restore_rows m vram [] = m"
| "restore_rows m vram (r # rs) = restore_rows (put_bytes m vram r) (vram + word_of_int (PIXEL_WIDTH * 3)) rs"

definition winsys_clear_mouse :: "screen \<Rightarrow> screen" where
  "winsys_clear_mouse s = s\<lparr>vmem := restore_rows (vmem s) (mouse_vram s) (mouse_placeholder_buffer s)\<rparr>"

definition winsys_disable_mouse :: "screen \<Rightarrow> screen" where
  "winsys_disable_mouse s = winsys_clear_mouse (disable_mouse s)"

definition winsys_enable_mouse :: "screen \<Rightarrow> screen" where
  "winsys_enable_mouse s = enable_mouse (winsys_print_mouse (winsys_save_to_mouse_buffer s))"

definition winsys_move_mouse_operation :: "screen \<Rightarrow> int \<Rightarrow> int \<Rightarrow> screen" where
  "winsys_move_mouse_operation s x y =
     winsys_print_mouse (winsys_save_to_mouse_buffer
       ((winsys_clear_mouse s)\<lparr>winsys_mousex := x, winsys_mousey := y\<rparr>))"

section \<open>Sections and frames\<close>

text \<open>
  The rows of a section: the whole words first and then the bytes that remain; \<open>n\<close> is the number
  of bytes, \<^verbatim>\<open>(lim_x - max_x) * 3\<close>, and the remainder is kept in a \<^verbatim>\<open>uint8_t\<close>.
\<close>

definition copy_row :: "memory \<Rightarrow> u32 \<Rightarrow> u32 \<Rightarrow> int \<Rightarrow> memory" where
  "copy_row m vram buff n = (
     let m = memcpy_dword m vram buff (cdiv n 4);
         discrepancy = word_of_int (cmod n 4) :: u8
     in memcpy m (vram + word_of_int n - ucast discrepancy) (buff + word_of_int n - ucast discrepancy)
          (uint discrepancy))"

fun copy_rows :: "memory \<Rightarrow> u32 \<Rightarrow> u32 \<Rightarrow> int \<Rightarrow> int \<Rightarrow> nat \<Rightarrow> memory" where
  "copy_rows m vram buff n stride 0 = m"
| "copy_rows m vram buff n stride (Suc k) =
     copy_rows (copy_row m vram buff n) (vram + word_of_int (PIXEL_WIDTH * 3)) (buff + word_of_int stride) n stride k"

definition paint_buffer :: "window \<Rightarrow> u32" where
  "paint_buffer w = (if is_user w then wsys_buffer w else w_buffer w)"

definition winsys_paint_window_section :: "screen \<Rightarrow> window option \<Rightarrow> int \<Rightarrow> int \<Rightarrow> int \<Rightarrow> int \<Rightarrow> screen" where
  "winsys_paint_window_section s win x y width height =
     (case win of
        None \<Rightarrow> s
      | Some w \<Rightarrow>
          if x + width > win_w w \<or> y + height > win_h w \<or> x \<ge> win_w w \<or> y \<ge> win_h w then s
          else (
            let max_x = max x (- win_x w);
                max_y = max y (- win_y w);
                min_height = min (win_h w - max_y) height;
                min_width = min (win_w w - max_x) width;
                lim_x = min (max_x + min_width) (PIXEL_WIDTH - win_x w);
                lim_y = min (max_y + min_height) (PIXEL_HEIGHT - win_y w);
                buff = paint_buffer w + word_of_int ((max_y * win_w w + max_x) * 3);
                vram = VIDEO_ADDRESS + word_of_int (((win_y w + max_y) * PIXEL_WIDTH + win_x w + max_x) * 3);
                hide_mouse = winsys_check_collide_rect_rect (win_x w + max_x) (win_y w + max_y) min_width min_height
                  (winsys_mousex s) (winsys_mousey s) MOUSE_WIDTH MOUSE_HEIGHT;
                s = (if hide_mouse then winsys_disable_mouse s else s);
                s = s\<lparr>vmem := copy_rows (vmem s) vram buff ((lim_x - max_x) * 3) (win_w w * 3) (nat (lim_y - max_y))\<rparr>
            in if hide_mouse then winsys_enable_mouse s else s))"

abbreviation WIN_FRAME_COLOR :: u32 where "WIN_FRAME_COLOR \<equiv> 0xdfdfdf"
abbreviation TITLE_NAME_COLOR :: u32 where "TITLE_NAME_COLOR \<equiv> 0xFFFFFF"
abbreviation WORKING_TITLE_COLOR_LEFT :: u32 where "WORKING_TITLE_COLOR_LEFT \<equiv> 0x7b"
abbreviation WORKING_TITLE_COLOR_RIGHT :: u32 where "WORKING_TITLE_COLOR_RIGHT \<equiv> 0x1b88d4"
abbreviation BG_COLOR :: u32 where "BG_COLOR \<equiv> 0x247171"

text \<open>
  The loop that draws the title; \<open>name_x\<close> is unsigned, and so is the comparison with the right
  edge.  The fuel is one more than the addresses of the address space.
\<close>

fun title_loop :: "nat \<Rightarrow> memory \<Rightarrow> u32 \<Rightarrow> u32 \<Rightarrow> u32 \<Rightarrow> u32 \<Rightarrow> u32 \<Rightarrow> memory option" where
  "title_loop 0 m font tmp name_x name_y lim = None"
| "title_loop (Suc f) m font tmp name_x name_y lim =
     (if m tmp \<noteq> 0 \<and> name_x + word_of_int (CHAR_WIDTH * 2) < lim
      then title_loop f (display_psf1_8x16_char m font (m tmp) (sint name_x) (sint name_y) TITLE_NAME_COLOR)
             font (tmp + 1) (name_x + word_of_int CHAR_WIDTH) name_y lim
      else Some m)"

definition winsys_paint_window_frame :: "screen \<Rightarrow> u32 \<Rightarrow> window option \<Rightarrow> screen option" where
  "winsys_paint_window_frame s working win =
     (case win of
        None \<Rightarrow> Some s
      | Some w \<Rightarrow> (
          let x = win_x w; y = win_y w; wd = win_w w; ht = win_h w;
              m = (if w_addr w = working
                   then fill_gradient (vmem s) x (y - TITLE_BAR_HEIGHT + WIN_FRAME_SIZE) wd
                          (TITLE_BAR_HEIGHT - WIN_FRAME_SIZE) WORKING_TITLE_COLOR_LEFT WORKING_TITLE_COLOR_RIGHT
                   else fill_gradient (vmem s) x (y - TITLE_BAR_HEIGHT + WIN_FRAME_SIZE) wd
                          (TITLE_BAR_HEIGHT - WIN_FRAME_SIZE) 0 WIN_FRAME_COLOR);
              m = fill_rect m x (y - WIN_FRAME_SIZE) wd WIN_FRAME_SIZE WIN_FRAME_COLOR;
              m = fill_rect m x (y - TITLE_BAR_HEIGHT) wd WIN_FRAME_SIZE WIN_FRAME_COLOR;
              m = fill_rect m (x - WIN_FRAME_SIZE) (y - TITLE_BAR_HEIGHT) WIN_FRAME_SIZE (ht + TITLE_BAR_HEIGHT) WIN_FRAME_COLOR;
              m = fill_rect m (x + wd) (y - TITLE_BAR_HEIGHT) WIN_FRAME_SIZE (ht + TITLE_BAR_HEIGHT) WIN_FRAME_COLOR;
              m = fill_rect m (x - WIN_FRAME_SIZE) (y + ht) (wd + WIN_FRAME_SIZE * 2) WIN_FRAME_SIZE WIN_FRAME_COLOR;
              name_y = word_of_int (y - cdiv (TITLE_BAR_HEIGHT + CHAR_HEIGHT) 2) :: u32
          in do {
            m \<leftarrow> title_loop (2 ^ 32 + 1) m (font_buff s) (w_name w) (word_of_int x) name_y (word_of_int (x + wd));
            Some (s\<lparr>vmem := (if closable w
              then display_psf1_8x16_char_bg m (font_buff s) 0x78 (x + wd - CHAR_WIDTH) (sint name_y) WIN_FRAME_COLOR 0
              else m)\<rparr>) }))"

definition winsys_paint_window :: "screen \<Rightarrow> u32 \<Rightarrow> window option \<Rightarrow> screen option" where
  "winsys_paint_window s working win =
     (case win of
        None \<Rightarrow> Some s
      | Some w \<Rightarrow> do {
          let s = winsys_disable_mouse (winsys_paint_window_section s (Some w) 0 0 (win_w w) (win_h w));
          s \<leftarrow> (if has_frame w then winsys_paint_window_frame s working (Some w) else Some s);
          Some (winsys_enable_mouse s) })"

section \<open>Repainting what is above a window, and what a window uncovers\<close>

text \<open>The part of the section of \<open>win\<close> that the window \<open>tmp\<close> above it covers, repainted.\<close>

definition repaint_section :: "screen \<Rightarrow> window \<Rightarrow> window \<Rightarrow> int \<Rightarrow> int \<Rightarrow> int \<Rightarrow> int \<Rightarrow> screen" where
  "repaint_section s win tmp x y width height = (
     let overlap_x = max (win_x win) (win_x tmp);
         overlap_y = max (win_y win) (win_y tmp);
         overlap_w = min (win_x win + win_w win) (win_x tmp + win_w tmp) - overlap_x;
         overlap_h = min (win_y win + win_h win) (win_y tmp + win_h tmp) - overlap_y
     in if overlap_w > 0 \<and> overlap_h > 0 then (
          let sect_x = win_x win + max x 0;
              sect_y = win_y win + max y 0;
              sect_w = min (win_w win) width;
              sect_h = min (win_h win) height;
              overlap_sect_x = max overlap_x sect_x;
              overlap_sect_y = max overlap_y sect_y;
              overlap_sect_w = min (overlap_x + overlap_w) (sect_x + sect_w) - overlap_sect_x;
              overlap_sect_h = min (overlap_y + overlap_h) (sect_y + sect_h) - overlap_sect_y
          in if overlap_sect_w > 0 \<and> overlap_sect_h > 0
             then winsys_paint_window_section s (Some tmp) (overlap_sect_x - win_x tmp) (overlap_sect_y - win_y tmp)
                    overlap_sect_w overlap_sect_h
             else s)
        else s)"

text \<open>\<open>next\<close> is the part of the window list behind \<open>win\<close>, the windows above it.\<close>

fun repaint_section_above :: "screen \<Rightarrow> u32 \<Rightarrow> window \<Rightarrow> int \<Rightarrow> int \<Rightarrow> int \<Rightarrow> int \<Rightarrow> window list \<Rightarrow> screen option" where
  "repaint_section_above s working win x y width height [] = Some s"
| "repaint_section_above s working win x y width height (tmp # next) = do {
     let s = (if winsys_check_collide (Some win) (Some tmp) then repaint_section s win tmp x y width height else s);
     s \<leftarrow> (if winsys_check_collide_rect_rect (win_x win) (win_y win) (win_w win) (win_h win)
               (win_x tmp - WIN_FRAME_SIZE) (win_y tmp - TITLE_BAR_HEIGHT)
               (win_w tmp + WIN_FRAME_SIZE * 2) TITLE_BAR_HEIGHT \<and> has_frame tmp
          then do { s \<leftarrow> winsys_paint_window_frame (winsys_disable_mouse s) working (Some tmp); Some (winsys_enable_mouse s) }
          else Some s);
     repaint_section_above s working win x y width height next }"

definition winsys_display_window_section_operation ::
  "screen \<Rightarrow> u32 \<Rightarrow> window option \<Rightarrow> window list \<Rightarrow> int \<Rightarrow> int \<Rightarrow> int \<Rightarrow> int \<Rightarrow> screen option" where
  "winsys_display_window_section_operation s working win next x y width height =
     (case win of
        None \<Rightarrow> Some s
      | Some w \<Rightarrow> repaint_section_above (winsys_paint_window_section s (Some w) x y width height)
                    working w x y width height next)"

text \<open>The part of a window that the frame of another overlaps, repainted.\<close>

definition repaint_overlap :: "screen \<Rightarrow> window \<Rightarrow> window \<Rightarrow> screen" where
  "repaint_overlap s win tmp = (
     let overlap_x = max (win_x win - WIN_FRAME_SIZE) (win_x tmp);
         overlap_y = max (win_y win - TITLE_BAR_HEIGHT) (win_y tmp);
         overlap_w = min (win_x win + win_w win + WIN_FRAME_SIZE * 2) (win_x tmp + win_w tmp) - overlap_x;
         overlap_h = min (win_y win + win_h win + TITLE_BAR_HEIGHT + WIN_FRAME_SIZE) (win_y tmp + win_h tmp) - overlap_y
     in if overlap_w > 0 \<and> overlap_h > 0
        then winsys_paint_window_section s (Some tmp) (overlap_x - win_x tmp) (overlap_y - win_y tmp) overlap_w overlap_h
        else s)"

fun repaint_above :: "screen \<Rightarrow> u32 \<Rightarrow> window \<Rightarrow> window list \<Rightarrow> screen option" where
  "repaint_above s working win [] = Some s"
| "repaint_above s working win (tmp # next) = do {
     let s = (if winsys_check_collide (Some win) (Some tmp) then repaint_overlap s win tmp else s);
     s \<leftarrow> (if winsys_check_collide_rect_rect (win_x win - WIN_FRAME_SIZE) (win_y win - TITLE_BAR_HEIGHT)
               (win_w win + WIN_FRAME_SIZE * 2) (win_h win + TITLE_BAR_HEIGHT + WIN_FRAME_SIZE)
               (win_x tmp - WIN_FRAME_SIZE) (win_y tmp - TITLE_BAR_HEIGHT)
               (win_w tmp + WIN_FRAME_SIZE * 2) TITLE_BAR_HEIGHT \<and> has_frame tmp \<and> has_frame win
          then winsys_paint_window_frame s working (Some tmp) else Some s);
     repaint_above s working win next }"

definition winsys_display_window_operation ::
  "screen \<Rightarrow> u32 \<Rightarrow> window option \<Rightarrow> window list \<Rightarrow> screen option" where
  "winsys_display_window_operation s working win next =
     (case win of
        None \<Rightarrow> Some s
      | Some w \<Rightarrow> do { s \<leftarrow> winsys_paint_window s working (Some w); repaint_above s working w next })"

text \<open>
  The loop over the whole list, which also repaints a window that the frame of its predecessor in
  the list has overpainted; windows are compared by address.
\<close>

fun collided_loop :: "screen \<Rightarrow> u32 \<Rightarrow> window \<Rightarrow> window option \<Rightarrow> window list \<Rightarrow> screen option" where
  "collided_loop s working win prev [] = Some s"
| "collided_loop s working win prev (tmp # next) = do {
     s \<leftarrow> (if w_addr tmp \<noteq> w_addr win \<and> winsys_check_collide_whole (Some win) (Some tmp)
          then (let s = repaint_overlap s win tmp
                in if has_frame tmp then winsys_paint_window_frame s working (Some tmp) else Some s)
          else Some s);
     let s = (case prev of
         None \<Rightarrow> s
       | Some p \<Rightarrow>
           if w_addr tmp \<noteq> w_addr win \<and> w_addr p \<noteq> w_addr win \<and> has_frame p \<and>
              winsys_check_collide_whole (Some win) (Some p)
           then repaint_overlap s p tmp else s);
     collided_loop s working win (Some tmp) next }"

definition winsys_display_collided_windows :: "screen \<Rightarrow> u32 \<Rightarrow> window option \<Rightarrow> window list \<Rightarrow> screen option" where
  "winsys_display_collided_windows s working win ws =
     (case win of None \<Rightarrow> Some s | Some w \<Rightarrow> collided_loop s working w None ws)"

section \<open>Clearing\<close>

definition winsys_clear_window :: "screen \<Rightarrow> window \<Rightarrow> screen" where
  "winsys_clear_window s w = s\<lparr>vmem := fill_rect (vmem s) (win_x w) (win_y w) (win_w w) (win_h w) BG_COLOR\<rparr>"

definition winsys_clear_window_frame :: "screen \<Rightarrow> window \<Rightarrow> screen" where
  "winsys_clear_window_frame s w = (
     let m = fill_rect (vmem s) (win_x w - WIN_FRAME_SIZE) (win_y w - TITLE_BAR_HEIGHT)
               (win_w w + WIN_FRAME_SIZE * 2) TITLE_BAR_HEIGHT BG_COLOR;
         m = fill_rect m (win_x w - WIN_FRAME_SIZE) (win_y w) WIN_FRAME_SIZE (win_h w) BG_COLOR;
         m = fill_rect m (win_x w + win_w w) (win_y w) WIN_FRAME_SIZE (win_h w) BG_COLOR;
         m = fill_rect m (win_x w - WIN_FRAME_SIZE) (win_y w + win_h w) (win_w w + WIN_FRAME_SIZE * 2) WIN_FRAME_SIZE BG_COLOR
     in s\<lparr>vmem := m\<rparr>)"

definition winsys_clear_whole_window :: "screen \<Rightarrow> window \<Rightarrow> screen" where
  "winsys_clear_whole_window s w = (
     let s = winsys_disable_mouse s;
         s = s\<lparr>vmem := fill_rect (vmem s) (win_x w - WIN_FRAME_SIZE) (win_y w - TITLE_BAR_HEIGHT)
           (win_w w + WIN_FRAME_SIZE * 2) (win_h w + TITLE_BAR_HEIGHT + WIN_FRAME_SIZE) BG_COLOR\<rparr>
     in winsys_enable_mouse s)"

section \<open>The cursor leaves no trace\<close>

lemma put_bytes_map:
  "put_bytes m' (v + of_nat k) (map (\<lambda>j. m (v + of_nat j)) [k..<k + n]) a =
    (if \<exists>j. k \<le> j \<and> j < k + n \<and> a = v + of_nat j then m a else m' a)"
proof (induction n arbitrary: m' k)
  case 0
  show ?case by auto
next
  case (Suc n)
  have "[k..<k + Suc n] = k # [Suc k..<Suc k + n]" by (simp add: upt_conv_Cons)
  moreover have "v + of_nat k + 1 = v + of_nat (Suc k)" by simp
  ultimately have "put_bytes m' (v + of_nat k) (map (\<lambda>j. m (v + of_nat j)) [k..<k + Suc n]) a =
      put_bytes (m'(v + of_nat k := m (v + of_nat k))) (v + of_nat (Suc k)) (map (\<lambda>j. m (v + of_nat j)) [Suc k..<Suc k + n]) a"
    by (simp only: list.map put_bytes.simps)
  also have "\<dots> = (if \<exists>j. Suc k \<le> j \<and> j < Suc k + n \<and> a = v + of_nat j then m a
      else (m'(v + of_nat k := m (v + of_nat k))) a)" by (rule Suc.IH)
  also have "\<dots> = (if \<exists>j. k \<le> j \<and> j < k + Suc n \<and> a = v + of_nat j then m a else m' a)"
  proof -
    have "(\<exists>j. k \<le> j \<and> j < k + Suc n \<and> a = v + of_nat j) \<longleftrightarrow>
        a = v + of_nat k \<or> (\<exists>j. Suc k \<le> j \<and> j < Suc k + n \<and> a = v + of_nat j)"
    proof
      assume "\<exists>j. k \<le> j \<and> j < k + Suc n \<and> a = v + of_nat j"
      then obtain j where "k \<le> j" "j < k + Suc n" "a = v + of_nat j" by blast
      then show "a = v + of_nat k \<or> (\<exists>j. Suc k \<le> j \<and> j < Suc k + n \<and> a = v + of_nat j)"
        by (cases "j = k") (auto intro: exI [of _ j])
    next
      assume "a = v + of_nat k \<or> (\<exists>j. Suc k \<le> j \<and> j < Suc k + n \<and> a = v + of_nat j)"
      then show "\<exists>j. k \<le> j \<and> j < k + Suc n \<and> a = v + of_nat j" by (elim disjE exE) (use le_add1 in \<open>fastforce\<close>, metis Suc_leD add_Suc_shift)
    qed
    then show ?thesis by auto
  qed
  finally show ?case .
qed

text \<open>The addresses of the saved block.\<close>

definition mouse_block :: "u32 \<Rightarrow> nat \<Rightarrow> u32 \<Rightarrow> bool" where
  "mouse_block v n a \<longleftrightarrow> (\<exists>i j. i < n \<and> j < 30 \<and> a = v + of_nat (i * 3840 + j))"

lemma mouse_block_Suc: "mouse_block v (Suc n) a \<longleftrightarrow> (\<exists>j < 30. a = v + of_nat j) \<or> mouse_block (v + 3840) n a"
proof -
  have "v + 3840 + of_nat (i * 3840 + j) = v + of_nat (Suc i * 3840 + j)" for i j by (simp add: add.assoc)
  then have "mouse_block (v + 3840) n a \<longleftrightarrow> (\<exists>i j. i < n \<and> j < 30 \<and> a = v + of_nat (Suc i * 3840 + j))"
    by (simp only: mouse_block_def)
  moreover have "(\<exists>i. i < Suc n \<and> P i) \<longleftrightarrow> P 0 \<or> (\<exists>i. i < n \<and> P (Suc i))" for P
    by (auto simp: less_Suc_eq_0_disj)
  ultimately show ?thesis by (simp add: mouse_block_def)
qed

lemma restore_saved: "restore_rows m' v (save_rows m v n) a = (if mouse_block v n a then m a else m' a)"
proof (induction n arbitrary: m' v)
  case 0
  then show ?case by (simp add: mouse_block_def)
next
  case (Suc n)
  have "put_bytes m' v (map (\<lambda>j. m (v + of_nat j)) [0..<30]) a = (if \<exists>j < 30. a = v + of_nat j then m a else m' a)"
    using put_bytes_map [of m' v 0 m 30 a] by simp
  then show ?case by (simp add: Suc.IH mouse_block_Suc) blast
qed

lemma set_pixel_elsewhere:
  "(\<And>k. k < 3 \<Longrightarrow> a \<noteq> VIDEO_ADDRESS + word_of_int ((y * PIXEL_WIDTH + x) * 3) + of_nat k) \<Longrightarrow> set_pixel m x y c a = m a"
proof -
  let ?p = "VIDEO_ADDRESS + word_of_int ((y * PIXEL_WIDTH + x) * 3)"
  assume k: "\<And>k. k < 3 \<Longrightarrow> a \<noteq> ?p + of_nat k"
  have "write_pixel m ?p c a = m a" using k [of 0] k [of 1] k [of 2] by (intro write_pixel_other) simp_all
  then show ?thesis by (simp add: set_pixel_def)
qed

lemma print_row_elsewhere:
  "\<forall>j < length bs. \<forall>k < 3. a \<noteq> VIDEO_ADDRESS + word_of_int ((y * PIXEL_WIDTH + (x + int j)) * 3) + of_nat k \<Longrightarrow>
    print_mouse_row m x y bs a = m a"
proof (induction bs arbitrary: m x)
  case Nil
  then show ?case by simp
next
  case (Cons b bs)
  have h: "\<And>k. k < 3 \<Longrightarrow> a \<noteq> VIDEO_ADDRESS + word_of_int ((y * PIXEL_WIDTH + x) * 3) + of_nat k"
    using Cons.prems [rule_format, of 0] by simp
  have t: "\<forall>j < length bs. \<forall>k < 3. a \<noteq> VIDEO_ADDRESS + word_of_int ((y * PIXEL_WIDTH + (x + 1 + int j)) * 3) + of_nat k"
  proof (intro allI impI)
    fix j k :: nat
    assume j: "j < length bs" "k < 3"
    have "x + 1 + int j = x + int (Suc j)" by simp
    with Cons.prems j show "a \<noteq> VIDEO_ADDRESS + word_of_int ((y * PIXEL_WIDTH + (x + 1 + int j)) * 3) + of_nat k"
      by (metis Suc_less_eq length_Cons)
  qed
  show ?case using Cons.IH [OF t] set_pixel_elsewhere [OF h] by simp
qed

lemma print_rows_elsewhere:
  "\<forall>r \<in> set rs. length r \<le> 10 \<Longrightarrow>
   \<not> mouse_block (VIDEO_ADDRESS + word_of_int ((y * PIXEL_WIDTH + x) * 3)) (length rs) a \<Longrightarrow>
    print_mouse_rows m x y rs a = m a"
proof (induction rs arbitrary: m y)
  case Nil
  then show ?case by simp
next
  case (Cons r rs)
  let ?v = "VIDEO_ADDRESS + word_of_int ((y * PIXEL_WIDTH + x) * 3)"
  have "?v + 3840 = VIDEO_ADDRESS + word_of_int (((y + 1) * PIXEL_WIDTH + x) * 3)"
    using pixel_at_below [of VIDEO_ADDRESS PIXEL_WIDTH x y] by (simp add: pixel_at_def)
  then have n: "\<not> mouse_block (VIDEO_ADDRESS + word_of_int (((y + 1) * PIXEL_WIDTH + x) * 3)) (length rs) a"
    and f: "\<forall>j < 30. a \<noteq> ?v + of_nat j"
    using Cons.prems(2) by (simp_all add: mouse_block_Suc)
  have "\<forall>j < length r. \<forall>k < 3. a \<noteq> VIDEO_ADDRESS + word_of_int ((y * PIXEL_WIDTH + (x + int j)) * 3) + of_nat k"
  proof (intro allI impI)
    fix j k :: nat
    assume j: "j < length r" and k: "k < 3"
    have "length r \<le> 10" using Cons.prems(1) by simp
    then have "3 * j + k < 30" using j k by simp
    moreover have "(y * PIXEL_WIDTH + (x + int j)) * 3 = (y * PIXEL_WIDTH + x) * 3 + int (3 * j)" by simp
    then have "VIDEO_ADDRESS + word_of_int ((y * PIXEL_WIDTH + (x + int j)) * 3) + of_nat k = ?v + of_nat (3 * j + k)"
      by (simp only: wi_hom_add [symmetric] of_int_of_nat_eq add.assoc of_nat_add)
    ultimately show "a \<noteq> VIDEO_ADDRESS + word_of_int ((y * PIXEL_WIDTH + (x + int j)) * 3) + of_nat k" using f by metis
  qed
  then show ?case using Cons.IH [OF _ n] Cons.prems(1) by (simp add: print_row_elsewhere)
qed

lemma print_outside_block: "\<not> mouse_block (mouse_vram s) 18 a \<Longrightarrow> vmem (winsys_print_mouse s) a = vmem s a"
proof -
  assume a: "\<not> mouse_block (mouse_vram s) 18 a"
  have "\<forall>r \<in> set mouse_bitmap. length r \<le> 10" "length mouse_bitmap = 18" by (simp_all add: mouse_bitmap_def)
  with a show ?thesis
    using print_rows_elsewhere [of mouse_bitmap "winsys_mousey s" "winsys_mousex s" a "vmem s"]
    by (simp add: winsys_print_mouse_def mouse_vram_def)
qed

lemma mouse_fields [simp]:
  "winsys_mousex (winsys_print_mouse s) = winsys_mousex s" "winsys_mousey (winsys_print_mouse s) = winsys_mousey s"
  "winsys_mousex (winsys_save_to_mouse_buffer s) = winsys_mousex s"
  "winsys_mousey (winsys_save_to_mouse_buffer s) = winsys_mousey s"
  "vmem (winsys_save_to_mouse_buffer s) = vmem s" "font_buff (winsys_print_mouse s) = font_buff s"
  "mouse_placeholder_buffer (winsys_print_mouse s) = mouse_placeholder_buffer s"
  "vmem (enable_mouse s) = vmem s" "vmem (disable_mouse s) = vmem s"
  "mouse_vram (disable_mouse s) = mouse_vram s" "mouse_vram (enable_mouse s) = mouse_vram s"
  "mouse_placeholder_buffer (disable_mouse s) = mouse_placeholder_buffer s"
  "mouse_placeholder_buffer (enable_mouse s) = mouse_placeholder_buffer s"
  "winsys_mousex (enable_mouse s) = winsys_mousex s" "winsys_mousey (enable_mouse s) = winsys_mousey s"
  "winsys_mousex (disable_mouse s) = winsys_mousex s" "winsys_mousey (disable_mouse s) = winsys_mousey s"
  "font_buff (winsys_save_to_mouse_buffer s) = font_buff s"
  "font_buff (enable_mouse s) = font_buff s" "font_buff (disable_mouse s) = font_buff s"
  by (simp_all add: winsys_print_mouse_def winsys_save_to_mouse_buffer_def enable_mouse_def disable_mouse_def mouse_vram_def)

definition show_mouse :: "screen \<Rightarrow> screen" where
  "show_mouse s = winsys_print_mouse (winsys_save_to_mouse_buffer s)"

lemma clear_shown: "vmem (winsys_clear_mouse (show_mouse s)) = vmem s"
proof
  fix a
  let ?s = "winsys_save_to_mouse_buffer s"
  have v: "mouse_vram (winsys_print_mouse ?s) = mouse_vram s" "mouse_vram ?s = mouse_vram s"
    by (simp_all add: mouse_vram_def)
  have b: "mouse_placeholder_buffer ?s = save_rows (vmem s) (mouse_vram s) 18"
    by (simp add: winsys_save_to_mouse_buffer_def)
  have "vmem (winsys_clear_mouse (winsys_print_mouse ?s)) a =
      (if mouse_block (mouse_vram s) 18 a then vmem s a else vmem (winsys_print_mouse ?s) a)"
    by (simp add: winsys_clear_mouse_def v b restore_saved)
  also have "\<dots> = vmem s a" using print_outside_block [of ?s a] v(2) by simp
  finally show "vmem (winsys_clear_mouse (show_mouse s)) a = vmem s a" by (simp add: show_mouse_def)
qed

lemma show_mouse_cong:
  "vmem s = vmem t \<Longrightarrow> winsys_mousex s = winsys_mousex t \<Longrightarrow> winsys_mousey s = winsys_mousey t \<Longrightarrow>
    vmem (show_mouse s) = vmem (show_mouse t)"
  by (simp add: show_mouse_def winsys_print_mouse_def winsys_save_to_mouse_buffer_def)

lemma move_shown:
  "\<exists>t. vmem t = vmem s \<and> winsys_move_mouse_operation (show_mouse s) x y = show_mouse t \<and>
    winsys_mousex t = x \<and> winsys_mousey t = y"
proof -
  let ?t = "(winsys_clear_mouse (show_mouse s))\<lparr>winsys_mousex := x, winsys_mousey := y\<rparr>"
  have "vmem ?t = vmem s" using clear_shown [of s] by simp
  then show ?thesis by (intro exI [of _ ?t]) (simp add: winsys_move_mouse_operation_def show_mouse_def)
qed

lemma moves_shown:
  "\<exists>t. vmem t = vmem s \<and> foldl (\<lambda>s (x, y). winsys_move_mouse_operation s x y) (show_mouse s) ps = show_mouse t \<and>
    (winsys_mousex t, winsys_mousey t) = (if ps = [] then (winsys_mousex s, winsys_mousey s) else last ps)"
proof (induction ps arbitrary: s)
  case Nil
  then show ?case by auto
next
  case (Cons p ps)
  obtain x y where p: "p = (x, y)" by (cases p)
  obtain u where u: "vmem u = vmem s" "winsys_move_mouse_operation (show_mouse s) x y = show_mouse u"
    "winsys_mousex u = x" "winsys_mousey u = y" using move_shown [of s x y] by blast
  obtain t where "vmem t = vmem u" "foldl (\<lambda>s (x, y). winsys_move_mouse_operation s x y) (show_mouse u) ps = show_mouse t"
    "(winsys_mousex t, winsys_mousey t) = (if ps = [] then (winsys_mousex u, winsys_mousey u) else last ps)"
    using Cons.IH [of u] by blast
  then show ?case using u p by (intro exI [of _ t]) (auto split: if_splits)
qed

section \<open>Copying a section\<close>

text \<open>A buffer of a window: a picture that lies outside the frame buffer.\<close>

definition buffer_ok :: "u32 \<Rightarrow> int \<Rightarrow> int \<Rightarrow> bool" where
  "buffer_ok b w h \<longleftrightarrow> canvas w h \<and> (\<forall>n. 0 \<le> n \<and> n < 3 * w * h \<longrightarrow> off_screen (b + word_of_int n))"

lemma buffer_byte_off_screen:
  assumes "buffer_ok b w h" and "inside w h x y" and "0 \<le> k" and "k < 3"
  shows "off_screen (pixel_at b w x y + word_of_int k)"
proof -
  have c: "canvas w h" using assms(1) by (simp add: buffer_ok_def)
  have "pixel_at b w x y + word_of_int k = b + word_of_int ((y * w + x) * 3 + k)"
    by (simp only: pixel_at_def wi_hom_add [symmetric] add.assoc)
  then show ?thesis
    using assms(1) canvas.offset_bound [OF c assms(2-4)] unfolding buffer_ok_def by metis
qed

text \<open>Painting the screen does not change a buffer.\<close>

lemma buffer_pic:
  assumes "buffer_ok b w h" and "spainted m m' f" and "inside w h x y"
  shows "pic b w m' x y = pic b w m x y"
proof -
  have "m' (pixel_at b w x y + word_of_int k) = m (pixel_at b w x y + word_of_int k)" if "0 \<le> k" "k < 3" for k
    using buffer_byte_off_screen [OF assms(1,3) that] assms(2) by (simp add: painted_def)
  from this [of 0] this [of 1] this [of 2] show ?thesis unfolding pic_def by (intro pixel_cong) simp_all
qed

lemma off_screen_distance:
  assumes "on_screen x y" and "0 \<le> n" and "x + n \<le> PIXEL_WIDTH" and "off_screen a"
  shows "3 * n \<le> uint (a - pixel_at VIDEO_ADDRESS PIXEL_WIDTH x y)"
proof -
  let ?o = "(y * PIXEL_WIDTH + x) * 3"
  have i: "0 \<le> x" "0 \<le> y" "y \<le> 1023" using assms(1) by (auto simp: inside_def)
  have o: "0 \<le> ?o" "?o + 3 * n \<le> 3932160" using i assms(2,3) by simp_all
  have A: "3932160 \<le> uint (a - VIDEO_ADDRESS)" using assms(4) by (simp add: outside_def)
  have "a - pixel_at VIDEO_ADDRESS PIXEL_WIDTH x y = word_of_int (uint (a - VIDEO_ADDRESS) - ?o)"
    by (simp only: pixel_at_def wi_hom_sub [symmetric] word_of_int_uint) simp
  moreover have "0 \<le> uint (a - VIDEO_ADDRESS) - ?o" using A o assms(2) by linarith
  moreover have "uint (a - VIDEO_ADDRESS) - ?o < 2 ^ 32" using o uint_lt2p [of "a - VIDEO_ADDRESS"] by simp
  ultimately have "uint (a - pixel_at VIDEO_ADDRESS PIXEL_WIDTH x y) = uint (a - VIDEO_ADDRESS) - ?o"
    by (simp only: uint_word_of_int) simp
  then show ?thesis using A o by linarith
qed

lemma uint_small_less:
  assumes "- 3932160 \<le> d" and "d < 3932160" and "m \<le> 3840"
  shows "uint (word_of_int d :: u32) < m \<longleftrightarrow> 0 \<le> d \<and> d < m"
proof -
  have u: "uint (word_of_int d :: u32) = d mod 2 ^ 32" by (simp only: uint_word_of_int) simp
  show ?thesis
  proof (cases "0 \<le> d")
    case True
    then have "d mod 2 ^ 32 = d" using assms by (intro mod_pos_pos_trivial) simp_all
    then show ?thesis unfolding u using True by simp
  next
    case False
    have "d mod 2 ^ 32 = (d + 2 ^ 32) mod 2 ^ 32" by simp
    also have "\<dots> = d + 2 ^ 32" using assms False by (intro mod_pos_pos_trivial) simp_all
    finally show ?thesis unfolding u using False assms by simp
  qed
qed

lemma on_screen_distance:
  assumes "on_screen x y" and "on_screen px py" and "0 \<le> n" and "x + n \<le> PIXEL_WIDTH" and "0 \<le> k" and "k < 3"
  shows "uint (pixel_at VIDEO_ADDRESS PIXEL_WIDTH px py + word_of_int k - pixel_at VIDEO_ADDRESS PIXEL_WIDTH x y) < 3 * n
    \<longleftrightarrow> in_rect x y n 1 px py"
    and "in_rect x y n 1 px py \<Longrightarrow>
      pixel_at VIDEO_ADDRESS PIXEL_WIDTH px py + word_of_int k - pixel_at VIDEO_ADDRESS PIXEL_WIDTH x y =
      word_of_int ((px - x) * 3 + k)"
proof -
  let ?d = "(py * PIXEL_WIDTH + px) * 3 + k - (y * PIXEL_WIDTH + x) * 3"
  have e: "pixel_at VIDEO_ADDRESS PIXEL_WIDTH px py + word_of_int k - pixel_at VIDEO_ADDRESS PIXEL_WIDTH x y = word_of_int ?d"
    by (simp only: pixel_at_def wi_hom_add [symmetric] wi_hom_sub [symmetric]) simp
  have i: "0 \<le> x" "x < 1280" "0 \<le> y" "y < 1024" "0 \<le> px" "px < 1280" "0 \<le> py" "py < 1024"
    using assms(1,2) by (auto simp: inside_def)
  have r: "in_rect x y n 1 px py \<longleftrightarrow> 0 \<le> ?d \<and> ?d < 3 * n"
  proof
    assume "in_rect x y n 1 px py"
    then have "py = y" "x \<le> px" "px < x + n" by (auto simp: in_rect_def)
    then show "0 \<le> ?d \<and> ?d < 3 * n" using assms(5,6) by simp
  next
    assume "0 \<le> ?d \<and> ?d < 3 * n"
    then have d: "0 \<le> 3840 * py + 3 * px + k - 3840 * y - 3 * x" "3840 * py + 3 * px + k - 3840 * y - 3 * x < 3 * n"
      by (simp_all add: algebra_simps)
    have "py = y"
    proof (rule ccontr)
      assume "py \<noteq> y"
      then consider "py + 1 \<le> y" | "y + 1 \<le> py" by linarith
      then show False using d i assms(3-6) by cases linarith+
    qed
    then show "in_rect x y n 1 px py" using d assms(5,6) by (simp add: in_rect_def)
  qed
  have "?d = 3840 * py + 3 * px + k - 3840 * y - 3 * x" by (simp add: algebra_simps)
  then have b: "- 3932160 \<le> ?d" "?d < 3932160" "3 * n \<le> 3840" using i assms(3-6) by linarith+
  show "uint (pixel_at VIDEO_ADDRESS PIXEL_WIDTH px py + word_of_int k - pixel_at VIDEO_ADDRESS PIXEL_WIDTH x y) < 3 * n
      \<longleftrightarrow> in_rect x y n 1 px py"
    unfolding e r by (rule uint_small_less [OF b])
  show "in_rect x y n 1 px py \<Longrightarrow>
      pixel_at VIDEO_ADDRESS PIXEL_WIDTH px py + word_of_int k - pixel_at VIDEO_ADDRESS PIXEL_WIDTH x y =
      word_of_int ((px - x) * 3 + k)"
  proof -
    assume "in_rect x y n 1 px py"
    then have "?d = (px - x) * 3 + k" by (simp add: in_rect_def)
    then show ?thesis unfolding e by simp
  qed
qed

lemma no_overlap_mono: "no_overlap d b n \<Longrightarrow> k \<le> n \<Longrightarrow> no_overlap d b k"
  unfolding no_overlap_def by (meson le_trans less_le_trans)

lemma copy_row_bytes: "no_overlap v b n \<Longrightarrow> copy_row m v b (int n) = memcpy_loop m v b n"
proof -
  assume a: "no_overlap v b n"
  let ?q = "4 * (n div 4)" and ?r = "n mod 4"
  have n: "?q + ?r = n" by simp
  have r: "?r < 4" by simp
  have d: "cdiv (int n) 4 = int (n div 4)" "cmod (int n) 4 = int ?r" by (simp_all add: zdiv_int zmod_int)
  have u: "uint (of_nat ?r :: u8) = int ?r" using r by (simp add: unsigned_of_nat take_bit_nat_eq_self)
  have w: "(ucast (of_nat ?r :: u8) :: u32) = of_nat ?r"
    using r by (intro word_uint_eqI) (simp add: unsigned_of_nat take_bit_nat_eq_self unsigned_ucast_eq)
  have "(of_nat n :: u32) = of_nat ?q + of_nat ?r" using n by (metis of_nat_add)
  then have e: "v + of_nat n - of_nat ?r = v + of_nat ?q" "b + of_nat n - of_nat ?r = b + of_nat ?q"
    by (simp_all only: add.assoc [symmetric] add_diff_cancel_right')
  have "copy_row m v b (int n) = memcpy_loop (memcpy_dword_loop m v b (n div 4)) (v + of_nat ?q) (b + of_nat ?q) ?r"
    unfolding copy_row_def Let_def d memcpy_def memcpy_dword_def of_int_of_nat_eq
    by (simp only: u w e of_int_of_nat_eq nat_int)
  also have "memcpy_dword_loop m v b (n div 4) = memcpy_loop m v b ?q"
    by (rule memcpy_dword_bytes [OF no_overlap_mono [OF a]]) simp
  also have "memcpy_loop (memcpy_loop m v b ?q) (v + of_nat ?q) (b + of_nat ?q) ?r = memcpy_loop m v b (?q + ?r)"
    by (simp only: memcpy_loop_add)
  finally show ?thesis unfolding n .
qed

text \<open>One row of a section.\<close>

lemma copy_row_painted:
  assumes ok: "buffer_ok b w h" and s: "on_screen x y" "inside w h sx sy" and n: "0 \<le> n" "x + n \<le> PIXEL_WIDTH" "sx + n \<le> w"
  shows "spainted m (copy_row m (pixel_at VIDEO_ADDRESS PIXEL_WIDTH x y) (pixel_at b w sx sy) (n * 3))
    (\<lambda>px py. if in_rect x y n 1 px py then pic b w m (sx + (px - x)) sy else spic m px py)"
proof -
  let ?v = "pixel_at VIDEO_ADDRESS PIXEL_WIDTH x y" and ?b = "pixel_at b w sx sy"
  let ?n = "nat (n * 3)"
  have c: "canvas w h" using ok by (simp add: buffer_ok_def)
  have in_n: "int ?n = 3 * n" using n by simp
  have bytes: "?b + word_of_int ((px - x) * 3 + k) = pixel_at b w (sx + (px - x)) sy + word_of_int k" for px k
  proof -
    have "(sy * w + (sx + (px - x))) * 3 + k = (sy * w + sx) * 3 + ((px - x) * 3 + k)" by (simp add: algebra_simps)
    then have "(word_of_int ((sy * w + (sx + (px - x))) * 3) + word_of_int k :: u32) =
        word_of_int ((sy * w + sx) * 3) + word_of_int ((px - x) * 3 + k)" by (simp only: wi_hom_add)
    then show ?thesis by (simp only: pixel_at_def add.assoc)
  qed
  have ap: "no_overlap ?v ?b ?n" unfolding no_overlap_def
  proof (intro conjI allI impI)
    have "n * 3 \<le> 3840" using n s(1) unfolding inside_def by linarith
    then show "?n \<le> 2 ^ 32" unfolding nat_le_iff by simp
    fix i assume i: "i < ?n"
    let ?px = "int i div 3" and ?k = "int i mod 3"
    have "int i < 3 * n" using i n by linarith
    then have px: "0 \<le> ?px" "?px < n" by (simp_all add: div_less_iff_less_mult)
    have "int i = (x + ?px - x) * 3 + ?k" by simp
    then have "?b + of_nat i = pixel_at b w (sx + ?px) sy + word_of_int ?k"
      using bytes [of "x + ?px" ?k] by (metis add_diff_cancel_left' of_int_of_nat_eq)
    moreover have "inside w h (sx + ?px) sy" using s(2) n px by (simp add: inside_def)
    ultimately have "off_screen (?b + of_nat i)" using buffer_byte_off_screen [OF ok, of "sx + ?px" sy ?k] by simp
    from off_screen_distance [OF s(1) n(1,2) this] have "int ?n \<le> int (unat (?b + of_nat i - ?v))"
      unfolding in_n by simp
    then show "?n \<le> unat (?b + of_nat i - ?v)" by (simp only: of_nat_le_iff)
  qed
  have n3: "n * 3 = int ?n" using in_n by simp
  have row: "copy_row m ?v ?b (n * 3) = memcpy_loop m ?v ?b ?n"
    by (subst n3) (rule copy_row_bytes [OF ap])
  note spec = memcpy_loop_spec [OF ap, of m]
  have lt: "unat (a - ?v) < ?n \<longleftrightarrow> uint (a - ?v) < 3 * n" for a
    unfolding in_n [symmetric] by (simp only: uint_nat of_nat_less_iff)
  let ?m = "memcpy_loop m ?v ?b ?n"
  have "?m a = m a" if "off_screen a" for a
    using off_screen_distance [OF s(1) n(1,2) that] by (simp add: spec lt)
  moreover have "spic ?m px py = (if in_rect x y n 1 px py then pic b w m (sx + (px - x)) sy else spic m px py)"
    if p: "on_screen px py" for px py
  proof -
    have byte: "?m (pixel_at VIDEO_ADDRESS PIXEL_WIDTH px py + word_of_int k) =
        (if in_rect x y n 1 px py then m (pixel_at b w (sx + (px - x)) sy + word_of_int k)
         else m (pixel_at VIDEO_ADDRESS PIXEL_WIDTH px py + word_of_int k))" if "0 \<le> k" "k < 3" for k
    proof (cases "in_rect x y n 1 px py")
      case True
      have "?m (pixel_at VIDEO_ADDRESS PIXEL_WIDTH px py + word_of_int k) =
          m (?b + (pixel_at VIDEO_ADDRESS PIXEL_WIDTH px py + word_of_int k - ?v))"
        using True unfolding spec lt on_screen_distance(1) [OF s(1) p n(1,2) that] by (simp only: if_True)
      with True show ?thesis
        unfolding on_screen_distance(2) [OF s(1) p n(1,2) that True] bytes by (simp only: if_True)
    next
      case False
      then show ?thesis unfolding spec lt on_screen_distance(1) [OF s(1) p n(1,2) that] by (simp only: if_False)
    qed
    from byte [of 0] byte [of 1] byte [of 2] show ?thesis unfolding pic_def pixel_def by simp
  qed
  ultimately show ?thesis unfolding row painted_def by blast
qed

lemma copy_rows_painted:
  assumes ok: "buffer_ok b w h"
  shows "\<lbrakk>0 \<le> x; x \<le> PIXEL_WIDTH; 0 \<le> y; y + int k \<le> PIXEL_HEIGHT; 0 \<le> sx; sx \<le> w; 0 \<le> sy; sy + int k \<le> h;
      0 \<le> n; x + n \<le> PIXEL_WIDTH; sx + n \<le> w; n = 0 \<or> x < PIXEL_WIDTH \<and> sx < w\<rbrakk> \<Longrightarrow>
    spainted m (copy_rows m (pixel_at VIDEO_ADDRESS PIXEL_WIDTH x y) (pixel_at b w sx sy) (n * 3) (w * 3) k)
      (\<lambda>px py. if in_rect x y n (int k) px py then pic b w m (sx + (px - x)) (sy + (py - y)) else spic m px py)"
proof (induction k arbitrary: m y sy)
  case 0
  have "spainted m m (\<lambda>px py. if in_rect x y n (int 0) px py then pic b w m (sx + (px - x)) (sy + (py - y)) else spic m px py)"
    by (rule painted_cong [OF painted_refl]) (auto simp: in_rect_def)
  then show ?case by simp
next
  case (Suc k)
  let ?v = "pixel_at VIDEO_ADDRESS PIXEL_WIDTH x y" and ?b = "pixel_at b w sx sy"
  let ?m = "copy_row m ?v ?b (n * 3)"
  have 1: "spainted m ?m (\<lambda>px py. if in_rect x y n 1 px py then pic b w m (sx + (px - x)) sy else spic m px py)"
  proof (cases "n = 0")
    case True
    have "?m = m" unfolding True by (simp add: copy_row_def memcpy_def memcpy_dword_def cdiv_def cmod_def)
    moreover have "spainted m m (\<lambda>px py. if in_rect x y n 1 px py then pic b w m (sx + (px - x)) sy else spic m px py)"
      using True by (intro painted_cong [OF painted_refl]) (auto simp: in_rect_def)
    ultimately show ?thesis by simp
  next
    case False
    then show ?thesis using Suc.prems by (intro copy_row_painted [OF ok]) (auto simp: inside_def)
  qed
  have 2: "spainted ?m (copy_rows m ?v ?b (n * 3) (w * 3) (Suc k))
      (\<lambda>px py. if in_rect x (y + 1) n (int k) px py then pic b w ?m (sx + (px - x)) (sy + 1 + (py - (y + 1)))
        else spic ?m px py)"
    using Suc.IH [of "y + 1" "sy + 1" ?m] Suc.prems
    by (simp add: pixel_at_below [of VIDEO_ADDRESS PIXEL_WIDTH x y, simplified] pixel_at_below [of b w sx sy, simplified])
  show ?case
  proof (rule painted_trans [OF 1 2])
    fix px py
    assume p: "on_screen px py"
      and e: "spic ?m px py = (if in_rect x y n 1 px py then pic b w m (sx + (px - x)) sy else spic m px py)"
    consider (below) "in_rect x (y + 1) n (int k) px py" | (here) "in_rect x y n 1 px py" "\<not> in_rect x (y + 1) n (int k) px py" |
      (no) "\<not> in_rect x y n 1 px py" "\<not> in_rect x (y + 1) n (int k) px py" by blast
    then show "(if in_rect x (y + 1) n (int k) px py then pic b w ?m (sx + (px - x)) (sy + 1 + (py - (y + 1)))
        else spic ?m px py) =
      (if in_rect x y n (int (Suc k)) px py then pic b w m (sx + (px - x)) (sy + (py - y)) else spic m px py)"
    proof cases
      case below
      then have r: "in_rect x y n (int (Suc k)) px py" by (auto simp: in_rect_def)
      have "inside w h (sx + (px - x)) (sy + (py - y))" using below Suc.prems by (auto simp: in_rect_def inside_def)
      from buffer_pic [OF ok 1 this] below r show ?thesis by simp
    next
      case here
      then have "in_rect x y n (int (Suc k)) px py" "py = y" by (auto simp: in_rect_def)
      with here e show ?thesis by simp
    next
      case no
      then have "\<not> in_rect x y n (int (Suc k)) px py" by (auto simp: in_rect_def)
      with no e show ?thesis by simp
    qed
  qed
qed

section \<open>Painting a section\<close>

text \<open>A section of a window, cut at the left and the top edge of the screen as the code does it.\<close>

definition visible :: "window \<Rightarrow> int \<Rightarrow> int \<Rightarrow> int \<Rightarrow> int \<Rightarrow> int \<Rightarrow> int \<Rightarrow> bool" where
  "visible w x y width height px py \<longleftrightarrow> (
     let max_x = max x (- win_x w); max_y = max y (- win_y w)
     in in_rect (win_x w + max_x) (win_y w + max_y) (min (win_w w - max_x) width) (min (win_h w - max_y) height) px py)"

definition section_ok :: "window \<Rightarrow> int \<Rightarrow> int \<Rightarrow> int \<Rightarrow> int \<Rightarrow> bool" where
  "section_ok w x y width height \<longleftrightarrow>
     0 \<le> x \<and> x < win_w w \<and> 0 \<le> width \<and> x + width \<le> win_w w \<and>
     0 \<le> y \<and> y < win_h w \<and> y + height \<le> win_h w \<and>
     win_x w + x \<le> PIXEL_WIDTH \<and> 0 \<le> win_x w + win_w w"

definition mouse_away :: "screen \<Rightarrow> window \<Rightarrow> int \<Rightarrow> int \<Rightarrow> int \<Rightarrow> int \<Rightarrow> bool" where
  "mouse_away s w x y width height \<longleftrightarrow> (
     let max_x = max x (- win_x w); max_y = max y (- win_y w)
     in \<not> winsys_check_collide_rect_rect (win_x w + max_x) (win_y w + max_y)
          (min (win_w w - max_x) width) (min (win_h w - max_y) height)
          (winsys_mousex s) (winsys_mousey s) MOUSE_WIDTH MOUSE_HEIGHT)"

definition window_ok :: "window \<Rightarrow> bool" where
  "window_ok w \<longleftrightarrow> buffer_ok (paint_buffer w) (win_w w) (win_h w)"

definition window_pixel :: "memory \<Rightarrow> window \<Rightarrow> int \<Rightarrow> int \<Rightarrow> u32" where
  "window_pixel m w px py = pic (paint_buffer w) (win_w w) m (px - win_x w) (py - win_y w)"

lemma paint_section:
  assumes ok: "window_ok w" and sec: "section_ok w x y width height" and away: "mouse_away s w x y width height"
  shows "\<exists>m. winsys_paint_window_section s (Some w) x y width height = s\<lparr>vmem := m\<rparr> \<and>
    spainted (vmem s) m
      (\<lambda>px py. if visible w x y width height px py then window_pixel (vmem s) w px py else spic (vmem s) px py)"
proof -
  define mx where "mx = max x (- win_x w)"
  define my where "my = max y (- win_y w)"
  define mh where "mh = min (win_h w - my) height"
  define mw where "mw = min (win_w w - mx) width"
  define n where "n = min (mx + mw) (PIXEL_WIDTH - win_x w) - mx"
  define k where "k = nat (min (my + mh) (PIXEL_HEIGHT - win_y w) - my)"
  let ?b = "paint_buffer w"
  let ?m = "copy_rows (vmem s) (pixel_at VIDEO_ADDRESS PIXEL_WIDTH (win_x w + mx) (win_y w + my))
    (pixel_at ?b (win_w w) mx my) (n * 3) (win_w w * 3) k"
  have sec': "0 \<le> x" "x < win_w w" "0 \<le> width" "x + width \<le> win_w w" "0 \<le> y" "y < win_h w"
    "y + height \<le> win_h w" "win_x w + x \<le> PIXEL_WIDTH" "0 \<le> win_x w + win_w w"
    using sec by (auto simp: section_ok_def)
  have eq: "winsys_paint_window_section s (Some w) x y width height = s\<lparr>vmem := ?m\<rparr>"
    using sec' away
    unfolding winsys_paint_window_section_def mouse_away_def Let_def option.case mx_def [symmetric] my_def [symmetric]
      mh_def [symmetric] mw_def [symmetric] n_def [symmetric] k_def [symmetric]
    by (simp add: pixel_at_def add.assoc)
  have vis: "visible w x y width height px py = in_rect (win_x w + mx) (win_y w + my) mw mh px py" for px py
    by (simp add: visible_def Let_def mx_def my_def mw_def mh_def)
  have rect: "in_rect (win_x w + mx) (win_y w + my) n (int k) px py = in_rect (win_x w + mx) (win_y w + my) mw mh px py"
    if "on_screen px py" for px py
    using that unfolding in_rect_def inside_def n_def k_def by auto
  have src: "pic ?b (win_w w) m (mx + (px - (win_x w + mx))) (my + (py - (win_y w + my))) = window_pixel m w px py" for m px py
    by (simp add: window_pixel_def)
  have "spainted (vmem s) ?m
      (\<lambda>px py. if in_rect (win_x w + mx) (win_y w + my) n (int k) px py
        then pic ?b (win_w w) (vmem s) (mx + (px - (win_x w + mx))) (my + (py - (win_y w + my))) else spic (vmem s) px py)"
  proof (cases "k = 0")
    case True
    show ?thesis unfolding True copy_rows.simps
      by (rule painted_cong [OF painted_refl]) (auto simp: in_rect_def)
  next
    case False
    then have lim: "my < min (my + mh) (PIXEL_HEIGHT - win_y w)" and ik: "int k = min (my + mh) (PIXEL_HEIGHT - win_y w) - my"
      unfolding k_def by auto
    have x: "0 \<le> win_x w + mx" "win_x w + mx \<le> PIXEL_WIDTH" "0 \<le> mx" "mx \<le> win_w w"
      unfolding mx_def using sec' by auto
    have mw: "0 \<le> mw" "mx + mw \<le> win_w w" unfolding mw_def using x sec' by auto
    have n: "0 \<le> n" "win_x w + mx + n \<le> PIXEL_WIDTH" "mx + n \<le> win_w w" unfolding n_def using x mw by auto
    have n0: "n = 0 \<or> win_x w + mx < PIXEL_WIDTH \<and> mx < win_w w" using n by linarith
    have y: "0 \<le> win_y w + my" "0 \<le> my" unfolding my_def using sec' by auto
    have yk: "win_y w + my + int k \<le> PIXEL_HEIGHT" "my + int k \<le> win_h w"
      unfolding ik mh_def by auto
    show ?thesis
      using ok x y yk n n0 by (intro copy_rows_painted) (simp_all add: window_ok_def)
  qed
  then have "spainted (vmem s) ?m
      (\<lambda>px py. if visible w x y width height px py then window_pixel (vmem s) w px py else spic (vmem s) px py)"
    by (rule painted_cong) (simp only: rect vis src)
  with eq show ?thesis by blast
qed

section \<open>Composing the windows above\<close>

definition covers :: "window \<Rightarrow> int \<Rightarrow> int \<Rightarrow> bool" where
  "covers w px py \<longleftrightarrow> in_rect (win_x w) (win_y w) (win_w w) (win_h w) px py"

text \<open>A section of \<open>win\<close> that begins on the screen, and no cursor over it.\<close>

definition shown_section :: "screen \<Rightarrow> window \<Rightarrow> int \<Rightarrow> int \<Rightarrow> int \<Rightarrow> int \<Rightarrow> bool" where
  "shown_section s w x y width height \<longleftrightarrow> section_ok w x y width height \<and> 0 \<le> height \<and>
     0 \<le> win_x w + x \<and> 0 \<le> win_y w + y \<and>
     \<not> winsys_check_collide_rect_rect (win_x w + x) (win_y w + y) width height
        (winsys_mousex s) (winsys_mousey s) MOUSE_WIDTH MOUSE_HEIGHT"

lemma paint_shown_section:
  assumes "window_ok w" and "shown_section s w x y width height"
  shows "\<exists>m. winsys_paint_window_section s (Some w) x y width height = s\<lparr>vmem := m\<rparr> \<and>
    spainted (vmem s) m
      (\<lambda>px py. if in_rect (win_x w + x) (win_y w + y) width height px py then window_pixel (vmem s) w px py
        else spic (vmem s) px py)"
proof -
  have m: "max x (- win_x w) = x" "max y (- win_y w) = y" "min (win_w w - x) width = width" "min (win_h w - y) height = height"
    using assms(2) by (auto simp: shown_section_def section_ok_def)
  have "visible w x y width height px py = in_rect (win_x w + x) (win_y w + y) width height px py" for px py
    by (simp add: visible_def m)
  moreover have "section_ok w x y width height" "mouse_away s w x y width height"
    using assms(2) by (simp_all add: shown_section_def mouse_away_def m)
  ultimately show ?thesis using paint_section [OF assms(1), of x y width height s] by simp
qed

lemma collide_sub:
  "winsys_check_collide_rect_rect a b c d mx my mw mh \<Longrightarrow> x \<le> a \<Longrightarrow> a + c \<le> x + w \<Longrightarrow> y \<le> b \<Longrightarrow> b + d \<le> y + h \<Longrightarrow>
    winsys_check_collide_rect_rect x y w h mx my mw mh"
  by (auto simp: winsys_check_collide_rect_rect_def)

text \<open>One window above: exactly the pixels of the section that it covers.\<close>

lemma repaint_one:
  assumes sec: "shown_section s w x y width height" and v: "window_ok v" "win_x v \<le> PIXEL_WIDTH"
  shows "\<exists>m. (if winsys_check_collide (Some w) (Some v) then repaint_section s w v x y width height else s) = s\<lparr>vmem := m\<rparr> \<and>
    spainted (vmem s) m
      (\<lambda>px py. if in_rect (win_x w + x) (win_y w + y) width height px py \<and> covers v px py
        then window_pixel (vmem s) v px py else spic (vmem s) px py)"
    (is "\<exists>m. ?s = _ \<and> _")
proof -
  define ox where "ox = max (win_x w) (win_x v)"
  define oy where "oy = max (win_y w) (win_y v)"
  define ow where "ow = min (win_x w + win_w w) (win_x v + win_w v) - ox"
  define oh where "oh = min (win_y w + win_h w) (win_y v + win_h v) - oy"
  define sx where "sx = max ox (win_x w + x)"
  define sy where "sy = max oy (win_y w + y)"
  define sw where "sw = min (ox + ow) (win_x w + x + width) - sx"
  define sh where "sh = min (oy + oh) (win_y w + y + height) - sy"
  note defs = ox_def oy_def ow_def oh_def sx_def sy_def sw_def sh_def
  have sec': "0 \<le> x" "x < win_w w" "0 \<le> width" "x + width \<le> win_w w" "0 \<le> y" "y < win_h w" "0 \<le> height"
    "y + height \<le> win_h w" "win_x w + x \<le> PIXEL_WIDTH" "0 \<le> win_x w + x" "0 \<le> win_y w + y"
    "\<not> winsys_check_collide_rect_rect (win_x w + x) (win_y w + y) width height
        (winsys_mousex s) (winsys_mousey s) MOUSE_WIDTH MOUSE_HEIGHT"
    using sec by (auto simp: shown_section_def section_ok_def)
  have m: "max x 0 = x" "max y 0 = y" "min (win_w w) width = width" "min (win_h w) height = height" using sec' by auto
  have both: "in_rect (win_x w + x) (win_y w + y) width height px py \<and> covers v px py \<longleftrightarrow> in_rect sx sy sw sh px py" for px py
    unfolding covers_def in_rect_def defs using sec' by auto
  show ?thesis
  proof (cases "winsys_check_collide (Some w) (Some v) \<and> ow > 0 \<and> oh > 0 \<and> sw > 0 \<and> sh > 0")
    case True
    then have pos: "ow > 0" "oh > 0" "sw > 0" "sh > 0" by simp_all
    have e: "?s = winsys_paint_window_section s (Some v) (sx - win_x v) (sy - win_y v) sw sh"
      using True unfolding repaint_section_def Let_def m ox_def [symmetric] oy_def [symmetric] ow_def [symmetric]
        oh_def [symmetric] sx_def [symmetric] sy_def [symmetric] sw_def [symmetric] sh_def [symmetric] by simp
    have r: "win_x w + x \<le> sx" "sx + sw \<le> win_x w + x + width" "win_y w + y \<le> sy" "sy + sh \<le> win_y w + y + height"
      unfolding defs by auto
    have "shown_section s v (sx - win_x v) (sy - win_y v) sw sh"
    proof -
      have "\<not> winsys_check_collide_rect_rect sx sy sw sh (winsys_mousex s) (winsys_mousey s) MOUSE_WIDTH MOUSE_HEIGHT"
        using collide_sub [OF _ r] sec'(12) by blast
      moreover have "win_x v \<le> sx" "sx + sw \<le> win_x v + win_w v" "win_y v \<le> sy" "sy + sh \<le> win_y v + win_h v"
        unfolding defs by auto
      moreover have "sx \<le> PIXEL_WIDTH" unfolding sx_def ox_def using sec'(1,9) v(2) by auto
      ultimately show ?thesis using pos r sec'(10,11) by (simp add: shown_section_def section_ok_def)
    qed
    from paint_shown_section [OF v(1) this] show ?thesis unfolding e both by simp
  next
    case False
    have "?s = s"
      using False unfolding repaint_section_def Let_def m ox_def [symmetric] oy_def [symmetric] ow_def [symmetric]
        oh_def [symmetric] sx_def [symmetric] sy_def [symmetric] sw_def [symmetric] sh_def [symmetric] by auto
    moreover have "\<not> in_rect sx sy sw sh px py" for px py
    proof
      assume i: "in_rect sx sy sw sh px py"
      then have "sw > 0" "sh > 0" by (auto simp: in_rect_def)
      moreover from i have "in_rect ox oy ow oh px py" unfolding in_rect_def defs by auto
      then have "ow > 0" "oh > 0" by (auto simp: in_rect_def)
      moreover from this have "winsys_check_collide (Some w) (Some v)"
        unfolding ow_def oh_def ox_def oy_def by (auto simp: winsys_check_collide_def winsys_check_collide_rect_rect_def)
      ultimately show False using False by blast
    qed
    ultimately show ?thesis unfolding both by (intro exI [of _ "vmem s"]) (simp add: painted_refl)
  qed
qed

text \<open>No title bar of a framed window above lies over the window.\<close>

definition no_title_over :: "window \<Rightarrow> window \<Rightarrow> bool" where
  "no_title_over w v \<longleftrightarrow> \<not> (winsys_check_collide_rect_rect (win_x w) (win_y w) (win_w w) (win_h w)
     (win_x v - WIN_FRAME_SIZE) (win_y v - TITLE_BAR_HEIGHT) (win_w v + WIN_FRAME_SIZE * 2) TITLE_BAR_HEIGHT \<and> has_frame v)"

text \<open>The topmost of the windows that cover a pixel.\<close>

definition topmost :: "window \<Rightarrow> window list \<Rightarrow> int \<Rightarrow> int \<Rightarrow> window" where
  "topmost w vs px py = last (w # filter (\<lambda>v. covers v px py) vs)"

lemma topmost_Cons: "topmost w (v # vs) px py = topmost (if covers v px py then v else w) vs px py"
  by (simp add: topmost_def)

lemma topmost_in: "topmost w vs px py = w \<or> (topmost w vs px py \<in> set vs \<and> covers (topmost w vs px py) px py)"
proof (cases "filter (\<lambda>v. covers v px py) vs = []")
  case False
  then have "last (filter (\<lambda>v. covers v px py) vs) \<in> set (filter (\<lambda>v. covers v px py) vs)" by (rule last_in_set)
  with False show ?thesis by (simp add: topmost_def)
qed (simp add: topmost_def)

lemma topmost_covers: "v \<in> set vs \<Longrightarrow> covers v px py \<Longrightarrow> topmost w vs px py \<in> set vs \<and> covers (topmost w vs px py) px py"
proof -
  assume v: "v \<in> set vs" "covers v px py"
  then have ne: "filter (\<lambda>v. covers v px py) vs \<noteq> []" by (auto simp: filter_empty_conv)
  then have "last (filter (\<lambda>v. covers v px py) vs) \<in> set (filter (\<lambda>v. covers v px py) vs)" by (rule last_in_set)
  with ne show ?thesis by (simp add: topmost_def)
qed

lemma window_pixel_painted:
  "window_ok w \<Longrightarrow> spainted m m' f \<Longrightarrow> covers w px py \<Longrightarrow> window_pixel m' w px py = window_pixel m w px py"
  unfolding window_pixel_def window_ok_def
  by (rule buffer_pic) (auto simp: covers_def in_rect_def inside_def)

lemma shown_section_vmem [simp]: "shown_section (s\<lparr>vmem := m\<rparr>) w x y width height = shown_section s w x y width height"
  by (simp add: shown_section_def)

lemma repaint_all:
  "shown_section s w x y width height \<Longrightarrow>
   \<forall>v \<in> set vs. window_ok v \<and> win_x v \<le> PIXEL_WIDTH \<and> no_title_over w v \<Longrightarrow>
    \<exists>m. repaint_section_above s working w x y width height vs = Some (s\<lparr>vmem := m\<rparr>) \<and>
      spainted (vmem s) m
        (\<lambda>px py. if in_rect (win_x w + x) (win_y w + y) width height px py \<and> (\<exists>v \<in> set vs. covers v px py)
          then window_pixel (vmem s) (topmost w vs px py) px py else spic (vmem s) px py)"
proof (induction vs arbitrary: s)
  case Nil
  show ?case by (intro exI [of _ "vmem s"]) (simp add: painted_refl)
next
  case (Cons v vs)
  then have v: "window_ok v" "win_x v \<le> PIXEL_WIDTH" "no_title_over w v" by simp_all
  let ?s = "if winsys_check_collide (Some w) (Some v) then repaint_section s w v x y width height else s"
  let ?S = "\<lambda>px py. in_rect (win_x w + x) (win_y w + y) width height px py"
  obtain m1 where m1: "?s = s\<lparr>vmem := m1\<rparr>"
    and p1: "spainted (vmem s) m1
      (\<lambda>px py. if ?S px py \<and> covers v px py then window_pixel (vmem s) v px py else spic (vmem s) px py)"
    using repaint_one [OF Cons.prems(1) v(1,2)] by blast
  have "\<exists>m. repaint_section_above (s\<lparr>vmem := m1\<rparr>) working w x y width height vs = Some (s\<lparr>vmem := m1\<rparr>\<lparr>vmem := m\<rparr>) \<and>
      spainted (vmem (s\<lparr>vmem := m1\<rparr>)) m (\<lambda>px py. if ?S px py \<and> (\<exists>v \<in> set vs. covers v px py)
        then window_pixel (vmem (s\<lparr>vmem := m1\<rparr>)) (topmost w vs px py) px py else spic (vmem (s\<lparr>vmem := m1\<rparr>)) px py)"
    using Cons.prems by (intro Cons.IH) simp_all
  then obtain m2 where m2: "repaint_section_above (s\<lparr>vmem := m1\<rparr>) working w x y width height vs = Some (s\<lparr>vmem := m2\<rparr>)"
    and p2: "spainted m1 m2 (\<lambda>px py. if ?S px py \<and> (\<exists>v \<in> set vs. covers v px py)
        then window_pixel m1 (topmost w vs px py) px py else spic m1 px py)" by (auto cong: if_cong)
  have "repaint_section_above s working w x y width height (v # vs) = Some (s\<lparr>vmem := m2\<rparr>)"
    using m1 m2 v(3) by (auto simp: no_title_over_def Let_def)
  moreover have "spainted (vmem s) m2 (\<lambda>px py. if ?S px py \<and> (\<exists>u \<in> set (v # vs). covers u px py)
      then window_pixel (vmem s) (topmost w (v # vs) px py) px py else spic (vmem s) px py)"
  proof (rule painted_trans [OF p1 p2])
    fix px py
    assume e: "spic m1 px py = (if ?S px py \<and> covers v px py then window_pixel (vmem s) v px py else spic (vmem s) px py)"
    show "(if ?S px py \<and> (\<exists>v \<in> set vs. covers v px py) then window_pixel m1 (topmost w vs px py) px py else spic m1 px py) =
        (if ?S px py \<and> (\<exists>u \<in> set (v # vs). covers u px py)
         then window_pixel (vmem s) (topmost w (v # vs) px py) px py else spic (vmem s) px py)"
    proof (cases "\<exists>u \<in> set vs. covers u px py")
      case True
      then have t: "topmost w' vs px py \<in> set vs \<and> covers (topmost w' vs px py) px py" for w'
        using topmost_covers by blast
      have "topmost w (v # vs) px py = topmost w vs px py"
        using True by (auto simp: topmost_def filter_empty_conv)
      moreover have "window_pixel m1 (topmost w vs px py) px py = window_pixel (vmem s) (topmost w vs px py) px py"
        using t [of w] Cons.prems(2) by (intro window_pixel_painted [OF _ p1]) auto
      ultimately show ?thesis using True e by auto
    next
      case False
      then have "topmost v vs px py = v" by (simp add: topmost_def filter_empty_conv)
      then show ?thesis using False e by (simp add: topmost_Cons)
    qed
  qed
  ultimately show ?case by blast
qed

lemma display_section:
  assumes w: "window_ok w" and sec: "shown_section s w x y width height"
    and vs: "\<forall>v \<in> set vs. window_ok v \<and> win_x v \<le> PIXEL_WIDTH \<and> no_title_over w v"
  shows "\<exists>m. winsys_display_window_section_operation s working (Some w) vs x y width height = Some (s\<lparr>vmem := m\<rparr>) \<and>
    spainted (vmem s) m
      (\<lambda>px py. if in_rect (win_x w + x) (win_y w + y) width height px py
        then window_pixel (vmem s) (topmost w vs px py) px py else spic (vmem s) px py)"
proof -
  let ?S = "\<lambda>px py. in_rect (win_x w + x) (win_y w + y) width height px py"
  obtain m1 where m1: "winsys_paint_window_section s (Some w) x y width height = s\<lparr>vmem := m1\<rparr>"
    and p1: "spainted (vmem s) m1 (\<lambda>px py. if ?S px py then window_pixel (vmem s) w px py else spic (vmem s) px py)"
    using paint_shown_section [OF w sec] by blast
  obtain m2 where m2: "repaint_section_above (s\<lparr>vmem := m1\<rparr>) working w x y width height vs = Some (s\<lparr>vmem := m1, vmem := m2\<rparr>)"
    and p2: "spainted m1 m2 (\<lambda>px py. if ?S px py \<and> (\<exists>v \<in> set vs. covers v px py)
        then window_pixel m1 (topmost w vs px py) px py else spic m1 px py)"
    using repaint_all [of "s\<lparr>vmem := m1\<rparr>" w x y width height vs working] sec vs by (auto cong: if_cong)
  have "winsys_display_window_section_operation s working (Some w) vs x y width height = Some (s\<lparr>vmem := m2\<rparr>)"
    using m1 m2 by (simp add: winsys_display_window_section_operation_def)
  moreover have "spainted (vmem s) m2
      (\<lambda>px py. if ?S px py then window_pixel (vmem s) (topmost w vs px py) px py else spic (vmem s) px py)"
  proof (rule painted_trans [OF p1 p2])
    fix px py
    assume e: "spic m1 px py = (if ?S px py then window_pixel (vmem s) w px py else spic (vmem s) px py)"
    show "(if ?S px py \<and> (\<exists>v \<in> set vs. covers v px py) then window_pixel m1 (topmost w vs px py) px py else spic m1 px py) =
        (if ?S px py then window_pixel (vmem s) (topmost w vs px py) px py else spic (vmem s) px py)"
    proof (cases "\<exists>u \<in> set vs. covers u px py")
      case True
      then have t: "topmost w vs px py \<in> set vs \<and> covers (topmost w vs px py) px py"
        using topmost_covers by blast
      then have "window_pixel m1 (topmost w vs px py) px py = window_pixel (vmem s) (topmost w vs px py) px py"
        using vs by (intro window_pixel_painted [OF _ p1]) auto
      then show ?thesis using True e by simp
    next
      case False
      then have "topmost w vs px py = w" by (simp add: topmost_def filter_empty_conv)
      then show ?thesis using False e by simp
    qed
  qed
  ultimately show ?thesis by blast
qed

lemma move_enabled:
  "winsys_move_mouse_operation (enable_mouse s) x y = enable_mouse (winsys_move_mouse_operation s x y)"
  by (simp add: winsys_move_mouse_operation_def enable_mouse_def winsys_clear_mouse_def winsys_save_to_mouse_buffer_def
      winsys_print_mouse_def mouse_vram_def)

lemma moves_enabled:
  "foldl (\<lambda>s (x, y). winsys_move_mouse_operation s x y) (enable_mouse s) ps =
    enable_mouse (foldl (\<lambda>s (x, y). winsys_move_mouse_operation s x y) s ps)"
  by (induction ps arbitrary: s) (auto simp: move_enabled)

lemma clear_flags: "vmem (winsys_disable_mouse (enable_mouse s)) = vmem (winsys_clear_mouse s)"
  by (simp add: winsys_disable_mouse_def winsys_clear_mouse_def)

section \<open>Properties\<close>

text \<open>A screen and windows without frames, whose buffers are in low memory.\<close>

definition sample_screen :: screen where
  "sample_screen = \<lparr>vmem = (\<lambda>a. 0), font_buff = 0xC0400000, winsys_mousex = 500, winsys_mousey = 500,
     mouse_placeholder_buffer = [], mouse_enabled = True, mouse_installed = True\<rparr>"

definition low_window :: "int \<Rightarrow> int \<Rightarrow> int \<Rightarrow> window" where
  "low_window i x y = (sample_window i x y)\<lparr>has_frame := False, w_buffer := 0x100000\<rparr>"

lemma low_window_ok: "window_ok (low_window i x y)"
proof -
  have "off_screen (0x100000 + word_of_int n)" if "0 \<le> n" "n < 24000" for n
  proof -
    have "0x100000 + word_of_int n - VIDEO_ADDRESS = word_of_int (0x33100000 + n)"
      by (simp only: wi_hom_add [symmetric]) simp
    moreover have "uint (word_of_int (0x33100000 + n) :: u32) = 0x33100000 + n"
      using that by (subst uint_word_of_int) simp
    ultimately have "uint (0x100000 + word_of_int n - VIDEO_ADDRESS) = 0x33100000 + n" by (simp only:)
    then show ?thesis unfolding outside_def using that by linarith
  qed
  then show ?thesis
    by (simp add: window_ok_def low_window_def sample_window_def paint_buffer_def buffer_ok_def canvas_def)
qed

text \<open>
  C23: the cursor leaves no trace: however often it is moved while it is shown, hiding it restores
  every byte of memory to what it was before the cursor was first drawn, also where the block of
  saved bytes reaches over the edge of the screen; and what is on the screen meanwhile is what
  drawing the cursor once at its last place gives.
\<close>

theorem mouse_leaves_no_trace:
  "\<exists>t. vmem t = vmem s \<and>
    (winsys_mousex t, winsys_mousey t) = (if ps = [] then (winsys_mousex s, winsys_mousey s) else last ps) \<and>
    vmem (foldl (\<lambda>s (x, y). winsys_move_mouse_operation s x y) (winsys_enable_mouse s) ps) = vmem (winsys_enable_mouse t) \<and>
    vmem (winsys_disable_mouse (foldl (\<lambda>s (x, y). winsys_move_mouse_operation s x y) (winsys_enable_mouse s) ps)) = vmem s"
proof -
  obtain t where t: "vmem t = vmem s"
    "foldl (\<lambda>s (x, y). winsys_move_mouse_operation s x y) (show_mouse s) ps = show_mouse t"
    "(winsys_mousex t, winsys_mousey t) = (if ps = [] then (winsys_mousex s, winsys_mousey s) else last ps)"
    using moves_shown [of s ps] by blast
  have e: "winsys_enable_mouse u = enable_mouse (show_mouse u)" for u
    by (simp add: winsys_enable_mouse_def show_mouse_def)
  show ?thesis
    by (rule exI [of _ t]) (simp add: e moves_enabled t clear_flags clear_shown)
qed

text \<open>
  C21: a section of a window is shown as it should be: each pixel of the section takes its colour
  from the topmost of the windows that cover it, and no other pixel of the screen and no byte
  outside the frame buffer changes.  This is for a section that begins on the screen, away from the
  cursor, and windows above whose title bars do not lie over the window.
\<close>

theorem section_shows_topmost:
  assumes "window_ok w" and "shown_section s w x y width height"
    and "\<forall>v \<in> set vs. window_ok v \<and> win_x v \<le> PIXEL_WIDTH \<and> no_title_over w v"
  shows "\<exists>m. winsys_display_window_section_operation s working (Some w) vs x y width height = Some (s\<lparr>vmem := m\<rparr>) \<and>
    spainted (vmem s) m
      (\<lambda>px py. if in_rect (win_x w + x) (win_y w + y) width height px py
        then window_pixel (vmem s) (topmost w vs px py) px py else spic (vmem s) px py)"
  by (rule display_section [OF assms])

theorem section_shows_topmost_witness:
  "\<exists>m. winsys_display_window_section_operation sample_screen 0 (Some (low_window 1 0 40)) [low_window 2 50 60] 0 0 100 80 =
      Some (sample_screen\<lparr>vmem := m\<rparr>) \<and>
    spic m 60 70 = window_pixel (\<lambda>a. 0) (low_window 2 50 60) 60 70 \<and>
    spic m 10 50 = window_pixel (\<lambda>a. 0) (low_window 1 0 40) 10 50"
proof -
  have "\<forall>v \<in> set [low_window 2 50 60]. window_ok v \<and> win_x v \<le> PIXEL_WIDTH \<and> no_title_over (low_window 1 0 40) v"
    by (simp add: low_window_ok) (simp add: no_title_over_def low_window_def sample_window_def)
  moreover have "shown_section sample_screen (low_window 1 0 40) 0 0 100 80"
    by (simp add: shown_section_def section_ok_def sample_screen_def low_window_def sample_window_def
        winsys_check_collide_rect_rect_def)
  ultimately obtain m where m: "winsys_display_window_section_operation sample_screen 0 (Some (low_window 1 0 40))
      [low_window 2 50 60] 0 0 100 80 = Some (sample_screen\<lparr>vmem := m\<rparr>)"
    and p: "spainted (vmem sample_screen) m
      (\<lambda>px py. if in_rect (win_x (low_window 1 0 40) + 0) (win_y (low_window 1 0 40) + 0) 100 80 px py
        then window_pixel (vmem sample_screen) (topmost (low_window 1 0 40) [low_window 2 50 60] px py) px py
        else spic (vmem sample_screen) px py)"
    using section_shows_topmost [OF low_window_ok, of sample_screen 1 0 40 0 0 100 80 "[low_window 2 50 60]" 0] by blast
  have "on_screen 60 70" "on_screen 10 50" by (simp_all add: inside_def)
  from this [THEN painted_pic [OF p]]
  have "spic m 60 70 = window_pixel (\<lambda>a. 0) (low_window 2 50 60) 60 70"
    "spic m 10 50 = window_pixel (\<lambda>a. 0) (low_window 1 0 40) 10 50"
    by (simp_all add: in_rect_def topmost_def covers_def low_window_def sample_window_def sample_screen_def)
  with m show ?thesis by blast
qed

text \<open>
  C24: wherever a window lies, at most its own right edge off the left of the screen, painting a
  section of it copies to the screen the pixels of the section that are on the screen, and never
  writes outside the frame buffer.
\<close>

theorem paint_section_exact:
  assumes "window_ok w" and "section_ok w x y width height" and "mouse_away s w x y width height"
  shows "\<exists>m. winsys_paint_window_section s (Some w) x y width height = s\<lparr>vmem := m\<rparr> \<and>
    spainted (vmem s) m
      (\<lambda>px py. if visible w x y width height px py then window_pixel (vmem s) w px py else spic (vmem s) px py)"
  by (rule paint_section [OF assms])

theorem paint_section_exact_witness:
  "\<exists>m. winsys_paint_window_section sample_screen (Some (low_window 1 (- 20) 40)) 0 0 100 80 = sample_screen\<lparr>vmem := m\<rparr> \<and>
    spic m 3 41 = window_pixel (\<lambda>a. 0) (low_window 1 (- 20) 40) 3 41"
proof -
  have "section_ok (low_window 1 (- 20) 40) 0 0 100 80" "mouse_away sample_screen (low_window 1 (- 20) 40) 0 0 100 80"
    by (simp_all add: section_ok_def mouse_away_def low_window_def sample_window_def sample_screen_def
        winsys_check_collide_rect_rect_def)
  then obtain m where m: "winsys_paint_window_section sample_screen (Some (low_window 1 (- 20) 40)) 0 0 100 80 =
      sample_screen\<lparr>vmem := m\<rparr>"
    and p: "spainted (vmem sample_screen) m (\<lambda>px py. if visible (low_window 1 (- 20) 40) 0 0 100 80 px py
      then window_pixel (vmem sample_screen) (low_window 1 (- 20) 40) px py else spic (vmem sample_screen) px py)"
    using paint_section_exact [OF low_window_ok, of 1 "- 20" 40 0 0 100 80 sample_screen] by blast
  have "on_screen 3 41" by (simp add: inside_def)
  from painted_pic [OF p this] m show ?thesis
    by (intro exI [of _ m]) (simp add: visible_def in_rect_def low_window_def sample_window_def sample_screen_def)
qed

text \<open>
  A window whose left edge is off the right of the screen: the number of bytes to copy is
  negative, its remainder is kept in an unsigned byte, and 253 bytes from before the window's
  buffer are written over each row.
\<close>

lemma copy_row_negative: "copy_row m v b (- 3) = memcpy m (v - 256) (b - 256) 253"
  by (simp add: copy_row_def cdiv_def cmod_def memcpy_dword_def)

end
