(* ===== verification/Winops.thy ===== *)
theory Winops
  imports Painting Proc
begin

text \<open>
  The window system as a whole (\<^verbatim>\<open>kernel/window_sys.c\<close>): creating, raising, moving and removing
  windows with everything they do to the window list, the heap, the page tables and the screen, the
  dispatch of the queued operations, and the mouse (\<^verbatim>\<open>drivers/mouse.c\<close>) that starts them.

  The state is the kernel's, with the cursor and the pointers of the mouse driver.  There is one
  memory: what is painted is painted into \<open>heap_mem\<close>.  The shared mapping of a user window's
  buffer is made in the page tables; the aliasing of the two addresses is not seen in the memory.
\<close>

record 's desktop =
  kn :: "'s kernel"
  scr :: screen
  MOUSEX :: int
  MOUSEY :: int
  PREVX :: int
  PREVY :: int
  dragging_window :: u32

abbreviation ws :: "'s desktop \<Rightarrow> winsys" where "ws d \<equiv> wsys (kn d)"

definition set_ws :: "'s desktop \<Rightarrow> winsys \<Rightarrow> 's desktop" where
  "set_ws d w = d\<lparr>kn := (kn d)\<lparr>wsys := w\<rparr>\<rparr>"

definition memory_of :: "'s desktop \<Rightarrow> memory" where
  "memory_of d = heap_mem (kh (kn d))"

text \<open>Painting: an operation on the screen, run on the kernel's memory.\<close>

definition on_scr :: "(screen \<Rightarrow> screen option) \<Rightarrow> 's desktop \<Rightarrow> 's desktop option" where
  "on_scr f d = do {
     s \<leftarrow> f ((scr d)\<lparr>vmem := memory_of d\<rparr>);
     Some (d\<lparr>scr := s, kn := (kn d)\<lparr>kh := (kh (kn d))\<lparr>heap_mem := vmem s\<rparr>\<rparr>\<rparr>) }"

text \<open>A window known by its address; \<open>None\<close> is a dangling pointer.\<close>

definition window_ptr :: "winsys \<Rightarrow> u32 \<Rightarrow> window option" where
  "window_ptr st a = find (\<lambda>w. w_addr w = a) (win_list st)"

definition windows_above :: "winsys \<Rightarrow> window \<Rightarrow> window list" where
  "windows_above st w = (case split_window (w_id w) (win_list st) of None \<Rightarrow> [] | Some (pre, v, post) \<Rightarrow> post)"

section \<open>Creating windows\<close>

abbreviation sizeof_WINDOW :: u32 where "sizeof_WINDOW \<equiv> 128"

definition no_events :: "event list" where
  "no_events = replicate EVENT_HANDLER_QUEUE_SIZE \<lparr>event_type = EVENT_INVALID, event_data = 0\<rparr>"

definition new_window :: "u32 \<Rightarrow> int \<Rightarrow> int \<Rightarrow> int \<Rightarrow> int \<Rightarrow> window" where
  "new_window a x y width height = \<lparr>w_addr = a, win_x = x, win_y = y, win_w = width, win_h = height,
     w_buffer = 0, wsys_buffer = 0, w_name = 0, w_id = 0, parent_pid = 0, is_user = False, closable = True,
     has_frame = True, events = no_events, event_mask = 0\<rparr>"

definition k_strdup0 :: "'s kernel \<Rightarrow> u8 list \<Rightarrow> (u32 \<times> 's kernel) option" where
  "k_strdup0 st name = do {
     (a, st) \<leftarrow> k_calloc st (of_nat (length name + 1));
     Some (a, st\<lparr>kh := (kh st)\<lparr>heap_mem := write_bytes (heap_mem (kh st)) a (name @ [0])\<rparr>\<rparr>) }"

definition link_and_raise :: "'s desktop \<Rightarrow> window \<Rightarrow> 's desktop option" where
  "link_and_raise d w = do {
     st \<leftarrow> link_window (ws d) w;
     r \<leftarrow> running_id (kn d);
     st \<leftarrow> winsys_set_working_window st r (w_id w);
     Some (set_ws d st) }"

definition winsys_create_win ::
  "'s desktop \<Rightarrow> int \<Rightarrow> int \<Rightarrow> int \<Rightarrow> int \<Rightarrow> u8 list \<Rightarrow> bool \<Rightarrow> (window \<times> 's desktop) option" where
  "winsys_create_win d x y width height name is_closable = do {
     (a, k) \<leftarrow> k_calloc (kn d) sizeof_WINDOW;
     r \<leftarrow> running_id k;
     (buff, h) \<leftarrow> kcalloc (kh k) (word_of_int (width * height * 3));
     (nm, k) \<leftarrow> k_strdup0 (k\<lparr>kh := h\<rparr>) name;
     let w = (new_window a x y width height)\<lparr>closable := is_closable,
               parent_pid := (case r of None \<Rightarrow> 0 | Some i \<Rightarrow> i),
               w_buffer := buff, w_name := nm, w_id := winsys_get_free_id (wsys k)\<rparr>;
     d \<leftarrow> link_and_raise (d\<lparr>kn := k\<rparr>) w;
     Some (w, d) }"

fun map_shared :: "vmm \<Rightarrow> u32 \<Rightarrow> u32 \<Rightarrow> u32 \<Rightarrow> nat \<Rightarrow> vmm option" where
  "map_shared v pdir from to 0 = Some v"
| "map_shared v pdir from to (Suc n) = do {
     v \<leftarrow> vmmngr_mmap_virt2virt v (vmmngr_get_directory v) pdir from to I86_WRITABLE (I86_WRITABLE OR I86_PTE_PAT);
     map_shared v pdir (from + 4096) (to + 4096) n }"

abbreviation USER_SPACE :: u32 where "USER_SPACE \<equiv> 0xA0000000"

text \<open>
  The window of a user process: its buffer is allocated in the running address space and mapped
  into the window system's as well.  \<open>emask\<close> and \<open>name\<close> are what the caller's structure holds;
  the new structure is copied back over it at the end.
\<close>

definition winsys_create_win_user ::
  "'s desktop \<Rightarrow> u32 \<Rightarrow> u8 list \<Rightarrow> int \<Rightarrow> int \<Rightarrow> int \<Rightarrow> int \<Rightarrow> (window \<times> 's desktop) option" where
  "winsys_create_win_user d emask name x y width height = do {
     (a, k) \<leftarrow> k_calloc (kn d) sizeof_WINDOW;
     r \<leftarrow> running_id k;
     pid \<leftarrow> r;
     let w = (new_window a x y width height)\<lparr>parent_pid := pid, is_user := True, event_mask := emask\<rparr>;
     let n = get_win_page_amt w;
     (buff, v) \<leftarrow> allocate_user_space_pages (vm k) (sint n);
     guard (buff \<noteq> 0 \<or> width * height * 3 \<le> 0);
     let k = k\<lparr>vm := v, kh := (kh k)\<lparr>heap_mem := memset (heap_mem (kh k)) buff 0 (width * height * 3)\<rparr>\<rparr>;
     server \<leftarrow> getProcessByID k (winsys_pid (wsys k));
     sp \<leftarrow> procs k server;
     shared \<leftarrow> find_user_space_pages_by_pdir (vm k) (pageDirectory sp) USER_SPACE (sint n);
     v \<leftarrow> map_shared (vm k) (pageDirectory sp) buff shared (unat n);
     let k = k\<lparr>vm := v\<rparr>;
     let i = winsys_get_free_id (wsys k);
     (nm, k) \<leftarrow> k_strdup0 k name;
     let w = w\<lparr>w_buffer := buff, wsys_buffer := shared, w_name := nm, w_id := i\<rparr>;
     d \<leftarrow> link_and_raise (d\<lparr>kn := k\<rparr>) w;
     Some (w, d) }"

section \<open>The operations of the window system's thread\<close>

text \<open>
  Raising a window: the window that loses the focus and the one that gains it are painted, unless
  the list is left as it is.
\<close>

definition paint_window :: "window \<Rightarrow> 's desktop \<Rightarrow> 's desktop option" where
  "paint_window w d = on_scr (\<lambda>s. winsys_paint_window s (working_window (ws d)) (Some w)) d"

definition desk_set_working_window :: "'s desktop \<Rightarrow> int \<Rightarrow> (int \<times> 's desktop) option" where
  "desk_set_working_window d i = do {
     guard (\<not> winsys_win_list_lock (ws d));
     case split_window i (win_list (ws d)) of
       None \<Rightarrow> Some (0, d)
     | Some (pre, w, post) \<Rightarrow> do {
         let old = working_window (ws d);
         let d = set_ws d ((ws d)\<lparr>working_window := w_addr w\<rparr>);
         if w_addr w = old \<or> length (win_list (ws d)) = 1 then Some (1, d)
         else do {
           let d = set_ws d ((ws d)\<lparr>win_list := pre @ post @ [w]\<rparr>);
           d \<leftarrow> (if old \<noteq> 0 then do { v \<leftarrow> window_ptr (ws d) old; paint_window v d } else Some d);
           d \<leftarrow> paint_window w d;
           Some (1, d) } } }"

definition desk_move_window :: "'s desktop \<Rightarrow> window option \<Rightarrow> int \<Rightarrow> int \<Rightarrow> 's desktop option" where
  "desk_move_window d win x y =
     (case win of
        None \<Rightarrow> Some d
      | Some w \<Rightarrow> do {
          d \<leftarrow> on_scr (\<lambda>s. Some (winsys_clear_whole_window s w)) d;
          d \<leftarrow> on_scr (\<lambda>s. winsys_display_collided_windows s (working_window (ws d)) (Some w) (win_list (ws d))) d;
          st \<leftarrow> set_window (ws d) (w_id w) (\<lambda>w. w\<lparr>win_x := x, win_y := y\<rparr>);
          let d = set_ws d st;
          if working_window (ws d) \<noteq> w_addr w
          then do { (r, d) \<leftarrow> desk_set_working_window d (w_id w); Some d }
          else paint_window (w\<lparr>win_x := x, win_y := y\<rparr>) d })"

text \<open>The identifier that \<^verbatim>\<open>working_window->id\<close> reads; \<open>w\<close> has just been unlinked.\<close>

definition working_id :: "'s desktop \<Rightarrow> window \<Rightarrow> int option" where
  "working_id d w =
     (if working_window (ws d) = w_addr w then Some (w_id w)
      else map_option w_id (window_ptr (ws d) (working_window (ws d))))"

definition desk_free :: "'s desktop \<Rightarrow> u32 \<Rightarrow> 's desktop option" where
  "desk_free d a = do { k \<leftarrow> k_free (kn d) a; Some (d\<lparr>kn := k\<rparr>) }"

fun unmap_shared :: "vmm \<Rightarrow> u32 \<Rightarrow> nat \<Rightarrow> vmm option" where
  "unmap_shared v a 0 = Some v"
| "unmap_shared v a (Suc n) = do {
     v \<leftarrow> vmmngr_free_virt v (vmmngr_get_directory v) a;
     unmap_shared v (a + 4096) n }"

text \<open>
  When the window of a user process that is removed was the working window, the code walks the
  list that is left without looking whether it is empty.
\<close>

definition winsys_remove_window_user :: "'s desktop \<Rightarrow> window option \<Rightarrow> 's desktop option" where
  "winsys_remove_window_user d win =
     (case win of
        None \<Rightarrow> Some d
      | Some w \<Rightarrow> do {
          v \<leftarrow> unmap_shared (vm (kn d)) (wsys_buffer w) (unat (get_win_page_amt w));
          let d = d\<lparr>kn := (kn d)\<lparr>vm := v\<rparr>\<rparr>;
          d \<leftarrow> on_scr (\<lambda>s. Some (winsys_clear_whole_window s w)) d;
          st \<leftarrow> unlink_window (ws d) w;
          let d = set_ws d st;
          i \<leftarrow> working_id d w;
          d \<leftarrow> (if i = w_id w then do {
                  let d = set_ws d ((ws d)\<lparr>working_window := 0\<rparr>);
                  guard (win_list (ws d) \<noteq> []);
                  (r, d) \<leftarrow> desk_set_working_window d (w_id (last (win_list (ws d))));
                  Some d }
                else Some d);
          d \<leftarrow> on_scr (\<lambda>s. winsys_display_collided_windows s (working_window (ws d)) (Some w) (win_list (ws d))) d;
          d \<leftarrow> desk_free d (w_name w);
          desk_free d (w_addr w) })"

definition winsys_remove_window_operation :: "'s desktop \<Rightarrow> window option \<Rightarrow> 's desktop option" where
  "winsys_remove_window_operation d win =
     (case win of
        None \<Rightarrow> Some d
      | Some w \<Rightarrow>
          if is_user w then winsys_remove_window_user d (Some w)
          else do {
            d \<leftarrow> on_scr (\<lambda>s. Some (winsys_clear_whole_window s w)) d;
            st \<leftarrow> unlink_window (ws d) w;
            let d = set_ws d st;
            i \<leftarrow> working_id d w;
            d \<leftarrow> (if i = w_id w then do {
                    let d = set_ws d ((ws d)\<lparr>working_window := 0\<rparr>);
                    if win_list (ws d) \<noteq> [] then do {
                      (r, d) \<leftarrow> desk_set_working_window d (w_id (last (win_list (ws d))));
                      Some d }
                    else Some d }
                  else Some d);
            d \<leftarrow> on_scr (\<lambda>s. winsys_display_collided_windows s (working_window (ws d)) (Some w) (win_list (ws d))) d;
            d \<leftarrow> desk_free d (w_buffer w);
            d \<leftarrow> desk_free d (w_name w);
            desk_free d (w_addr w) })"

definition winsys_do_operation :: "'s desktop \<Rightarrow> winsysop \<Rightarrow> 's desktop option" where
  "winsys_do_operation d op = (
     let win = winsys_get_window_by_id (ws d) (wid op);
         above = (case win of None \<Rightarrow> [] | Some w \<Rightarrow> windows_above (ws d) w);
         working = working_window (ws d)
     in case op_kind op of
          WINSYS_DISPLAY_WINDOW \<Rightarrow> on_scr (\<lambda>s. winsys_display_window_operation s working win above) d
        | WINSYS_DISPLAY_WINDOW_SECTION \<Rightarrow>
            on_scr (\<lambda>s. winsys_display_window_section_operation s working win above (op_x op) (op_y op) (op_w op) (op_h op)) d
        | WINSYS_MOVE_WINDOW \<Rightarrow> desk_move_window d win (op_x op) (op_y op)
        | WINSYS_SET_WORKING_WINDOW \<Rightarrow> do { (r, d) \<leftarrow> desk_set_working_window d (wid op); Some d }
        | WINSYS_REMOVE_WINDOW \<Rightarrow> winsys_remove_window_operation d win
        | WINSYS_EMPTY \<Rightarrow> Some d)"

text \<open>One round of the listener, once an operation is queued.\<close>

definition winsys_listener :: "'s desktop \<Rightarrow> 's desktop option" where
  "winsys_listener d = do {
     (op, st) \<leftarrow> winsys_dequeue_from_winsys_listener (ws d);
     winsys_do_operation (set_ws d st) op }"

text \<open>The events of a window, taken by its process.\<close>

definition winsys_dequeue_from_event_handler_user :: "winsys \<Rightarrow> int \<Rightarrow> (event \<times> winsys) option" where
  "winsys_dequeue_from_event_handler_user st i = do {
     w \<leftarrow> winsys_get_window_by_id st i;
     (e, evs) \<leftarrow> winsys_dequeue_from_event_handler (events w);
     st \<leftarrow> set_window st i (\<lambda>w. w\<lparr>events := evs\<rparr>);
     Some (e, st) }"

section \<open>The window list under the operations\<close>

lemma on_scr_ws: "on_scr f d = Some d' \<Longrightarrow> ws d' = ws d"
  by (auto simp: on_scr_def c_simps)

lemma paint_window_ws: "paint_window w d = Some d' \<Longrightarrow> ws d' = ws d"
  unfolding paint_window_def by (rule on_scr_ws)

lemma desk_free_ws: "desk_free d a = Some d' \<Longrightarrow> ws d' = ws d"
  by (auto simp: desk_free_def k_free_def c_simps)

lemma set_ws_ws [simp]: "ws (set_ws d w) = w"
  by (simp add: set_ws_def)

text \<open>Raising does to the list what the operation on the list alone does.\<close>

lemma desk_set_working_ws:
  assumes "desk_set_working_window d i = Some (r, d')"
  shows "winsys_set_working_window_operation (ws d) i = Some (r, ws d')"
proof -
  from assms have free: "\<not> winsys_win_list_lock (ws d)"
    by (auto simp: desk_set_working_window_def c_simps)
  show ?thesis
  proof (cases "split_window i (win_list (ws d))")
    case None
    with assms free show ?thesis
      by (simp add: desk_set_working_window_def winsys_set_working_window_operation_def)
  next
    case (Some t)
    obtain pre w post where t: "t = (pre, w, post)" by (cases t)
    show ?thesis
    proof (cases "w_addr w = working_window (ws d) \<or> length (win_list (ws d)) = 1")
      case True
      with assms free Some t show ?thesis
        by (auto simp: desk_set_working_window_def winsys_set_working_window_operation_def)
    next
      case False
      with assms free Some t obtain d1 where
        1: "(if working_window (ws d) \<noteq> 0 then do {
              v \<leftarrow> window_ptr ((ws d)\<lparr>working_window := w_addr w, win_list := pre @ post @ [w]\<rparr>) (working_window (ws d));
              paint_window v (set_ws (set_ws d ((ws d)\<lparr>working_window := w_addr w\<rparr>))
                ((ws d)\<lparr>working_window := w_addr w, win_list := pre @ post @ [w]\<rparr>)) }
            else Some (set_ws (set_ws d ((ws d)\<lparr>working_window := w_addr w\<rparr>))
                ((ws d)\<lparr>working_window := w_addr w, win_list := pre @ post @ [w]\<rparr>))) = Some d1"
        and 2: "paint_window w d1 = Some d'" "r = 1"
        by (auto simp: desk_set_working_window_def Let_def c_simps cong: if_cong)
      from 1 have "ws d1 = (ws d)\<lparr>working_window := w_addr w, win_list := pre @ post @ [w]\<rparr>"
        by (auto simp: c_simps split: if_splits dest: paint_window_ws)
      then have "ws d' = (ws d)\<lparr>working_window := w_addr w, win_list := pre @ post @ [w]\<rparr>"
        using paint_window_ws [OF 2(1)] by simp
      with free Some t False 2(2) show ?thesis
        by (simp add: winsys_set_working_window_operation_def)
    qed
  qed
qed

definition windows_inv :: "winsys \<Rightarrow> bool" where
  "windows_inv st \<longleftrightarrow> distinct (map w_id (win_list st)) \<and> distinct (map w_addr (win_list st)) \<and>
     (working_window st = 0 \<or> working_window st \<in> w_addr ` set (win_list st)) \<and> \<not> winsys_win_list_lock st"

lemma set_working_inv:
  assumes "windows_inv st" and "winsys_set_working_window_operation st i = Some (r, st')"
  shows "windows_inv st'"
proof (cases "split_window i (win_list st)")
  case None
  with assms show ?thesis by (simp add: winsys_set_working_window_operation_def c_simps)
next
  case (Some t)
  obtain pre w post where t: "t = (pre, w, post)" by (cases t)
  then have l: "win_list st = pre @ w # post" using Some by (simp add: split_window_Some)
  have free: "\<not> winsys_win_list_lock st" using assms(1) by (simp add: windows_inv_def)
  let ?u = "st\<lparr>working_window := w_addr w\<rparr>" and ?v = "st\<lparr>working_window := w_addr w, win_list := pre @ post @ [w]\<rparr>"
  have "st' = ?u \<or> st' = ?v"
    using assms(2) Some t free by (auto simp: winsys_set_working_window_operation_def split: if_splits)
  moreover have "windows_inv ?u" using assms(1) l by (simp add: windows_inv_def)
  moreover have "windows_inv ?v"
  proof -
    have "distinct (map w_id (pre @ w # post))" "distinct (map w_addr (pre @ w # post))"
      using assms(1) l by (simp_all add: windows_inv_def)
    then show ?thesis using free unfolding windows_inv_def by auto
  qed
  ultimately show ?thesis by blast
qed

lemma set_window_same:
  assumes "windows_inv st" and "set_window st i (\<lambda>w. w\<lparr>win_x := x, win_y := y\<rparr>) = Some st'"
  shows "windows_inv st'"
proof -
  from assms(2) obtain pre w post where s: "split_window i (win_list st) = Some (pre, w, post)"
    and st': "st' = st\<lparr>win_list := pre @ (w\<lparr>win_x := x, win_y := y\<rparr>) # post\<rparr>"
    by (auto simp: set_window_def c_simps split: prod.splits)
  have l: "win_list st = pre @ w # post" using s by (simp add: split_window_Some)
  have "map w_id (win_list st') = map w_id (win_list st)" "map w_addr (win_list st') = map w_addr (win_list st)"
    by (simp_all add: st' l)
  moreover have "w_addr ` set (win_list st') = w_addr ` set (win_list st)" by (simp add: st' l)
  moreover have "working_window st' = working_window st" "winsys_win_list_lock st' = winsys_win_list_lock st"
    by (simp_all add: st')
  ultimately show ?thesis using assms(1) unfolding windows_inv_def by metis
qed

text \<open>After the window \<open>w\<close> has been unlinked, the working window may still be \<open>w\<close>.\<close>

lemma unlink_inv:
  assumes "windows_inv st" and "unlink_window st w = Some st'"
    and "\<forall>v \<in> set (win_list st). w_id v = w_id w \<longrightarrow> working_window st \<noteq> w_addr v"
  shows "windows_inv st'"
  using assms by (auto simp: unlink_window_def c_simps split_window_Some windows_inv_def split: prod.splits)

lemma unlink_inv0:
  assumes "windows_inv st" and "unlink_window st w = Some st'"
  shows "windows_inv (st'\<lparr>working_window := 0\<rparr>)"
  using assms by (auto simp: unlink_window_def c_simps split_window_Some windows_inv_def split: prod.splits)

text \<open>What both removals do to the list, once the window \<open>w\<close> of the list is unlinked.\<close>

lemma removed_inv:
  assumes inv: "windows_inv st" and w: "w \<in> set (win_list st)"
    and u: "unlink_window st w = Some st'" and d: "ws d = st'" and i: "working_id d w = Some i"
  shows "i = w_id w \<Longrightarrow> windows_inv (st'\<lparr>working_window := 0\<rparr>)" and "i \<noteq> w_id w \<Longrightarrow> windows_inv st'"
proof -
  show "windows_inv (st'\<lparr>working_window := 0\<rparr>)" by (rule unlink_inv0 [OF inv u])
  assume ne: "i \<noteq> w_id w"
  have "working_window st' = working_window st" using u by (auto simp: unlink_window_def c_simps)
  then have "working_window st \<noteq> w_addr w" using ne i d by (auto simp: working_id_def split: if_splits)
  moreover have "v = w" if "v \<in> set (win_list st)" "w_id v = w_id w" for v
    using inv w that by (auto simp: windows_inv_def distinct_map inj_on_def)
  ultimately show "windows_inv st'" by (intro unlink_inv [OF inv u]) auto
qed

lemma raise_last_inv:
  assumes "windows_inv (ws d)" and "desk_set_working_window d i = Some (r, d')"
  shows "windows_inv (ws d')"
  using set_working_inv [OF assms(1) desk_set_working_ws [OF assms(2)]] .

lemma remove_operation_inv:
  assumes inv: "windows_inv (ws d)" and w: "w \<in> set (win_list (ws d))" and k: "\<not> is_user w"
    and r: "winsys_remove_window_operation d (Some w) = Some d'"
  shows "windows_inv (ws d')"
proof -
  from r k obtain d1 st i d2 d3 d4 d5 where
    1: "on_scr (\<lambda>s. Some (winsys_clear_whole_window s w)) d = Some d1"
    and 2: "unlink_window (ws d1) w = Some st"
    and 3: "working_id (set_ws d1 st) w = Some i"
    and 4: "(if i = w_id w then (let d = set_ws (set_ws d1 st) (st\<lparr>working_window := 0\<rparr>)
        in if win_list (ws d) \<noteq> [] then do {
             (r, d) \<leftarrow> desk_set_working_window d (w_id (last (win_list (ws d)))); Some d } else Some d)
        else Some (set_ws d1 st)) = Some d2"
    and 5: "on_scr (\<lambda>s. winsys_display_collided_windows s (working_window (ws d2)) (Some w) (win_list (ws d2))) d2 = Some d3"
    and 6: "desk_free d3 (w_buffer w) = Some d4" "desk_free d4 (w_name w) = Some d5" "desk_free d5 (w_addr w) = Some d'"
    by (auto simp: winsys_remove_window_operation_def c_simps Let_def cong: if_cong)
  have e: "ws d1 = ws d" by (rule on_scr_ws [OF 1])
  have inv1: "windows_inv (ws d1)" and w1: "w \<in> set (win_list (ws d1))" using inv w e by simp_all
  note rm = removed_inv [OF inv1 w1 2 set_ws_ws 3]
  have "windows_inv (ws d2)"
  proof (cases "i = w_id w")
    case True
    let ?d = "set_ws (set_ws d1 st) (st\<lparr>working_window := 0\<rparr>)"
    have z: "windows_inv (ws ?d)" using rm(1) [OF True] by simp
    show ?thesis
    proof (cases "win_list (ws ?d) = []")
      case True
      then have "d2 = ?d" using 4 \<open>i = w_id w\<close> by (simp add: Let_def)
      with z show ?thesis by simp
    next
      case False
      then obtain r where "desk_set_working_window ?d (w_id (last (win_list (ws ?d)))) = Some (r, d2)"
        using 4 \<open>i = w_id w\<close> by (auto simp: Let_def c_simps)
      from raise_last_inv [OF z this] show ?thesis .
    qed
  next
    case False
    then show ?thesis using 4 rm(2) by auto
  qed
  then show ?thesis using on_scr_ws [OF 5] 6 [THEN desk_free_ws] by simp
qed

lemma remove_user_inv:
  assumes inv: "windows_inv (ws d)" and w: "w \<in> set (win_list (ws d))"
    and r: "winsys_remove_window_user d (Some w) = Some d'"
  shows "windows_inv (ws d')"
proof -
  from r obtain v d1 st i d2 d3 d4 where
    1: "on_scr (\<lambda>s. Some (winsys_clear_whole_window s w)) (d\<lparr>kn := (kn d)\<lparr>vm := v\<rparr>\<rparr>) = Some d1"
    and 2: "unlink_window (ws d1) w = Some st"
    and 3: "working_id (set_ws d1 st) w = Some i"
    and 4: "(if i = w_id w then (let d = set_ws (set_ws d1 st) (st\<lparr>working_window := 0\<rparr>)
        in do { guard (win_list (ws d) \<noteq> []);
             (r, d) \<leftarrow> desk_set_working_window d (w_id (last (win_list (ws d)))); Some d })
        else Some (set_ws d1 st)) = Some d2"
    and 5: "on_scr (\<lambda>s. winsys_display_collided_windows s (working_window (ws d2)) (Some w) (win_list (ws d2))) d2 = Some d3"
    and 6: "desk_free d3 (w_name w) = Some d4" "desk_free d4 (w_addr w) = Some d'"
    by (auto simp: winsys_remove_window_user_def c_simps Let_def cong: if_cong)
  have e: "ws d1 = ws d" using on_scr_ws [OF 1] by simp
  have inv1: "windows_inv (ws d1)" and w1: "w \<in> set (win_list (ws d1))" using inv w e by simp_all
  note rm = removed_inv [OF inv1 w1 2 set_ws_ws 3]
  have "windows_inv (ws d2)"
  proof (cases "i = w_id w")
    case True
    let ?d = "set_ws (set_ws d1 st) (st\<lparr>working_window := 0\<rparr>)"
    have z: "windows_inv (ws ?d)" using rm(1) [OF True] by simp
    obtain r where "desk_set_working_window ?d (w_id (last (win_list (ws ?d)))) = Some (r, d2)"
      using 4 True by (auto simp: Let_def c_simps)
    from raise_last_inv [OF z this] show ?thesis .
  next
    case False
    then show ?thesis using 4 rm(2) by auto
  qed
  then show ?thesis using on_scr_ws [OF 5] 6 [THEN desk_free_ws] by simp
qed

lemma get_window_in: "winsys_get_window_by_id st i = Some w \<Longrightarrow> w \<in> set (win_list st) \<and> w_id w = i"
  by (auto simp: winsys_get_window_by_id_def find_Some_iff)

lemma move_inv:
  assumes inv: "windows_inv (ws d)" and r: "desk_move_window d (Some w) x y = Some d'"
  shows "windows_inv (ws d')"
proof -
  from r obtain d1 d2 st where
    1: "on_scr (\<lambda>s. Some (winsys_clear_whole_window s w)) d = Some d1"
    and 2: "on_scr (\<lambda>s. winsys_display_collided_windows s (working_window (ws d1)) (Some w) (win_list (ws d1))) d1 = Some d2"
    and 3: "set_window (ws d2) (w_id w) (\<lambda>w. w\<lparr>win_x := x, win_y := y\<rparr>) = Some st"
    and 4: "(if working_window st \<noteq> w_addr w
        then do { (r, d) \<leftarrow> desk_set_working_window (set_ws d2 st) (w_id w); Some d }
        else paint_window (w\<lparr>win_x := x, win_y := y\<rparr>) (set_ws d2 st)) = Some d'"
    by (auto simp: desk_move_window_def c_simps Let_def cong: if_cong)
  have "windows_inv (ws d2)" using inv on_scr_ws [OF 1] on_scr_ws [OF 2] by simp
  then have z: "windows_inv (ws (set_ws d2 st))" using set_window_same [OF _ 3] by simp
  show ?thesis
  proof (cases "working_window st \<noteq> w_addr w")
    case True
    then obtain r where "desk_set_working_window (set_ws d2 st) (w_id w) = Some (r, d')"
      using 4 by (auto simp: c_simps)
    from raise_last_inv [OF z this] show ?thesis .
  next
    case False
    then show ?thesis using 4 paint_window_ws [of "w\<lparr>win_x := x, win_y := y\<rparr>" "set_ws d2 st" d'] z by simp
  qed
qed

lemma do_operation_inv:
  assumes inv: "windows_inv (ws d)" and r: "winsys_do_operation d op = Some d'"
  shows "windows_inv (ws d')"
proof -
  let ?w = "winsys_get_window_by_id (ws d) (wid op)"
  show ?thesis
  proof (cases "op_kind op")
    case WINSYS_EMPTY
    with r inv show ?thesis by (simp add: winsys_do_operation_def)
  next
    case WINSYS_DISPLAY_WINDOW_SECTION
    with r inv show ?thesis by (auto simp: winsys_do_operation_def Let_def dest!: on_scr_ws)
  next
    case WINSYS_DISPLAY_WINDOW
    with r inv show ?thesis by (auto simp: winsys_do_operation_def Let_def dest!: on_scr_ws)
  next
    case WINSYS_MOVE_WINDOW
    with r inv show ?thesis
      by (cases ?w) (auto simp: winsys_do_operation_def Let_def desk_move_window_def [of d None] dest: move_inv)
  next
    case WINSYS_SET_WORKING_WINDOW
    with r inv show ?thesis by (auto simp: winsys_do_operation_def Let_def c_simps dest: raise_last_inv)
  next
    case WINSYS_REMOVE_WINDOW
    show ?thesis
    proof (cases ?w)
      case None
      with r inv WINSYS_REMOVE_WINDOW show ?thesis
        by (simp add: winsys_do_operation_def Let_def winsys_remove_window_operation_def)
    next
      case (Some w)
      have rr: "winsys_remove_window_operation d (Some w) = Some d'"
        using r WINSYS_REMOVE_WINDOW Some by (simp add: winsys_do_operation_def Let_def)
      have w: "w \<in> set (win_list (ws d))" using get_window_in [OF Some] by simp
      show ?thesis
      proof (cases "is_user w")
        case True
        then have "winsys_remove_window_user d (Some w) = Some d'"
          using rr by (simp add: winsys_remove_window_operation_def)
        from remove_user_inv [OF inv w this] show ?thesis .
      next
        case False
        from remove_operation_inv [OF inv w False rr] show ?thesis .
      qed
    qed
  qed
qed

section \<open>Which windows there are\<close>

definition ids :: "winsys \<Rightarrow> int set" where
  "ids st = w_id ` set (win_list st)"

lemma set_working_ids:
  assumes "winsys_set_working_window_operation st i = Some (r, st')"
  shows "ids st' = ids st"
proof (cases "split_window i (win_list st)")
  case None
  with assms show ?thesis by (simp add: winsys_set_working_window_operation_def c_simps)
next
  case (Some t)
  obtain pre w post where t: "t = (pre, w, post)" by (cases t)
  then have l: "win_list st = pre @ w # post" using Some by (simp add: split_window_Some)
  have "st' = st\<lparr>working_window := w_addr w\<rparr> \<or> st' = st\<lparr>working_window := w_addr w, win_list := pre @ post @ [w]\<rparr>"
    using assms Some t by (auto simp: winsys_set_working_window_operation_def c_simps split: if_splits)
  then show ?thesis using l by (auto simp: ids_def)
qed

lemma raise_ids: "desk_set_working_window d i = Some (r, d') \<Longrightarrow> ids (ws d') = ids (ws d)"
  by (rule set_working_ids [OF desk_set_working_ws])

lemma set_window_ids:
  "set_window st i (\<lambda>w. w\<lparr>win_x := x, win_y := y\<rparr>) = Some st' \<Longrightarrow> ids st' = ids st"
  by (auto simp: set_window_def c_simps split_window_Some ids_def split: prod.splits)

lemma unlink_ids:
  assumes "windows_inv st" and "unlink_window st w = Some st'"
  shows "ids st' = ids st - {w_id w}"
proof -
  from assms(2) obtain pre v post where s: "split_window (w_id w) (win_list st) = Some (pre, v, post)"
    and st': "st' = st\<lparr>win_list := pre @ post\<rparr>" by (auto simp: unlink_window_def c_simps split: prod.splits)
  have l: "win_list st = pre @ v # post" "w_id v = w_id w" using s by (simp_all add: split_window_Some)
  have "distinct (map w_id (pre @ v # post))" using assms(1) l by (simp add: windows_inv_def)
  then have "w_id w \<notin> w_id ` set pre" "w_id w \<notin> w_id ` set post" using l(2) by auto
  moreover have "ids st = insert (w_id w) (w_id ` set pre \<union> w_id ` set post)" using l by (simp add: ids_def image_Un)
  moreover have "ids st' = w_id ` set pre \<union> w_id ` set post" by (simp add: ids_def st' image_Un)
  ultimately show ?thesis by (simp only: insert_Diff1 Un_iff Diff_insert_absorb simp_thms)
qed

lemma ids_working [simp]: "ids (st\<lparr>working_window := a\<rparr>) = ids st"
  by (simp add: ids_def)

lemma move_ids:
  assumes "desk_move_window d (Some w) x y = Some d'"
  shows "ids (ws d') = ids (ws d)"
proof -
  from assms obtain d1 d2 st where
    1: "on_scr (\<lambda>s. Some (winsys_clear_whole_window s w)) d = Some d1"
    and 2: "on_scr (\<lambda>s. winsys_display_collided_windows s (working_window (ws d1)) (Some w) (win_list (ws d1))) d1 = Some d2"
    and 3: "set_window (ws d2) (w_id w) (\<lambda>w. w\<lparr>win_x := x, win_y := y\<rparr>) = Some st"
    and 4: "(if working_window st \<noteq> w_addr w
        then do { (r, d) \<leftarrow> desk_set_working_window (set_ws d2 st) (w_id w); Some d }
        else paint_window (w\<lparr>win_x := x, win_y := y\<rparr>) (set_ws d2 st)) = Some d'"
    by (auto simp: desk_move_window_def c_simps Let_def cong: if_cong)
  have "ids (ws d') = ids st"
    using 4 by (auto simp: c_simps dest: raise_ids paint_window_ws split: if_splits)
  then show ?thesis using set_window_ids [OF 3] on_scr_ws [OF 1] on_scr_ws [OF 2] by simp
qed

lemma remove_operation_ids:
  assumes inv: "windows_inv (ws d)" and k: "\<not> is_user w"
    and r: "winsys_remove_window_operation d (Some w) = Some d'"
  shows "ids (ws d') = ids (ws d) - {w_id w}"
proof -
  from r k obtain d1 st i d2 d3 d4 d5 where
    1: "on_scr (\<lambda>s. Some (winsys_clear_whole_window s w)) d = Some d1"
    and 2: "unlink_window (ws d1) w = Some st"
    and 4: "(if i = w_id w then (let d = set_ws (set_ws d1 st) (st\<lparr>working_window := 0\<rparr>)
        in if win_list (ws d) \<noteq> [] then do {
             (r, d) \<leftarrow> desk_set_working_window d (w_id (last (win_list (ws d)))); Some d } else Some d)
        else Some (set_ws d1 st)) = Some d2"
    and 5: "on_scr (\<lambda>s. winsys_display_collided_windows s (working_window (ws d2)) (Some w) (win_list (ws d2))) d2 = Some d3"
    and 6: "desk_free d3 (w_buffer w) = Some d4" "desk_free d4 (w_name w) = Some d5" "desk_free d5 (w_addr w) = Some d'"
    by (auto simp: winsys_remove_window_operation_def c_simps Let_def cong: if_cong)
  have "ids (ws d2) = ids st"
  proof (cases "i = w_id w")
    case True
    let ?d = "set_ws (set_ws d1 st) (st\<lparr>working_window := 0\<rparr>)"
    have "d2 = ?d \<or> (\<exists>r. desk_set_working_window ?d (w_id (last (win_list (ws ?d)))) = Some (r, d2))"
      using 4 True by (auto simp: Let_def c_simps split: if_splits)
    then show ?thesis using raise_ids [of ?d] by auto
  next
    case False
    then show ?thesis using 4 by auto
  qed
  then show ?thesis
    using unlink_ids [OF _ 2] inv on_scr_ws [OF 1] on_scr_ws [OF 5] 6 [THEN desk_free_ws] by simp
qed

lemma remove_user_ids:
  assumes inv: "windows_inv (ws d)" and r: "winsys_remove_window_user d (Some w) = Some d'"
  shows "ids (ws d') = ids (ws d) - {w_id w}"
proof -
  from r obtain v d1 st i d2 d3 d4 where
    1: "on_scr (\<lambda>s. Some (winsys_clear_whole_window s w)) (d\<lparr>kn := (kn d)\<lparr>vm := v\<rparr>\<rparr>) = Some d1"
    and 2: "unlink_window (ws d1) w = Some st"
    and 4: "(if i = w_id w then (let d = set_ws (set_ws d1 st) (st\<lparr>working_window := 0\<rparr>)
        in do { guard (win_list (ws d) \<noteq> []);
             (r, d) \<leftarrow> desk_set_working_window d (w_id (last (win_list (ws d)))); Some d })
        else Some (set_ws d1 st)) = Some d2"
    and 5: "on_scr (\<lambda>s. winsys_display_collided_windows s (working_window (ws d2)) (Some w) (win_list (ws d2))) d2 = Some d3"
    and 6: "desk_free d3 (w_name w) = Some d4" "desk_free d4 (w_addr w) = Some d'"
    by (auto simp: winsys_remove_window_user_def c_simps Let_def cong: if_cong)
  have "ids (ws d2) = ids st"
  proof (cases "i = w_id w")
    case True
    let ?d = "set_ws (set_ws d1 st) (st\<lparr>working_window := 0\<rparr>)"
    have "d2 = ?d \<or> (\<exists>r. desk_set_working_window ?d (w_id (last (win_list (ws ?d)))) = Some (r, d2))"
      using 4 True by (auto simp: Let_def c_simps split: if_splits)
    then show ?thesis using raise_ids [of ?d] by auto
  next
    case False
    then show ?thesis using 4 by auto
  qed
  then show ?thesis
    using unlink_ids [OF _ 2] inv on_scr_ws [OF 1] on_scr_ws [OF 5] 6 [THEN desk_free_ws] by simp
qed

lemma ids_none: "winsys_get_window_by_id st i = None \<Longrightarrow> i \<notin> ids st"
  by (auto simp: winsys_get_window_by_id_def find_None_iff ids_def)

lemma do_operation_ids:
  assumes inv: "windows_inv (ws d)" and r: "winsys_do_operation d op = Some d'"
  shows "ids (ws d') = ids (ws d) - (if op_kind op = WINSYS_REMOVE_WINDOW then {wid op} else {})"
proof -
  let ?w = "winsys_get_window_by_id (ws d) (wid op)"
  show ?thesis
  proof (cases "op_kind op")
    case WINSYS_EMPTY
    with r show ?thesis by (simp add: winsys_do_operation_def)
  next
    case WINSYS_DISPLAY_WINDOW_SECTION
    with r show ?thesis by (auto simp: winsys_do_operation_def Let_def dest!: on_scr_ws)
  next
    case WINSYS_DISPLAY_WINDOW
    with r show ?thesis by (auto simp: winsys_do_operation_def Let_def dest!: on_scr_ws)
  next
    case WINSYS_MOVE_WINDOW
    with r show ?thesis
      by (cases ?w) (auto simp: winsys_do_operation_def Let_def desk_move_window_def [of d None] dest!: move_ids)
  next
    case WINSYS_SET_WORKING_WINDOW
    with r show ?thesis by (auto simp: winsys_do_operation_def Let_def c_simps dest!: raise_ids)
  next
    case WINSYS_REMOVE_WINDOW
    show ?thesis
    proof (cases ?w)
      case None
      with r WINSYS_REMOVE_WINDOW ids_none [OF None] show ?thesis
        by (simp add: winsys_do_operation_def Let_def winsys_remove_window_operation_def)
    next
      case (Some w)
      have rr: "winsys_remove_window_operation d (Some w) = Some d'"
        using r WINSYS_REMOVE_WINDOW Some by (simp add: winsys_do_operation_def Let_def)
      have i: "w_id w = wid op" using get_window_in [OF Some] by simp
      show ?thesis
      proof (cases "is_user w")
        case True
        then have "winsys_remove_window_user d (Some w) = Some d'"
          using rr by (simp add: winsys_remove_window_operation_def)
        from remove_user_ids [OF inv this] i WINSYS_REMOVE_WINDOW show ?thesis by simp
      next
        case False
        from remove_operation_ids [OF inv False rr] i WINSYS_REMOVE_WINDOW show ?thesis by simp
      qed
    qed
  qed
qed

text \<open>The operations of a sequence, one after the other.\<close>

fun serve :: "'s desktop \<Rightarrow> winsysop list \<Rightarrow> 's desktop option" where
  "serve d [] = Some d"
| "serve d (op # ops) = do { d \<leftarrow> winsys_do_operation d op; serve d ops }"

definition removed_ids :: "winsysop list \<Rightarrow> int set" where
  "removed_ids ops = wid ` {op \<in> set ops. op_kind op = WINSYS_REMOVE_WINDOW}"

lemma serve_inv:
  "windows_inv (ws d) \<Longrightarrow> serve d ops = Some d' \<Longrightarrow> windows_inv (ws d') \<and> ids (ws d') = ids (ws d) - removed_ids ops"
proof (induction ops arbitrary: d)
  case Nil
  then show ?case by (simp add: removed_ids_def)
next
  case (Cons op ops)
  then obtain d1 where 1: "winsys_do_operation d op = Some d1" "serve d1 ops = Some d'" by (auto simp: c_simps)
  have "removed_ids (op # ops) = (if op_kind op = WINSYS_REMOVE_WINDOW then {wid op} else {}) \<union> removed_ids ops"
    by (auto simp: removed_ids_def)
  then show ?case
    using Cons.IH [OF do_operation_inv [OF Cons.prems(1) 1(1)] 1(2)] do_operation_ids [OF Cons.prems(1) 1(1)] by auto
qed

text \<open>The listener's round is one step of serving the ring.\<close>

lemma listener_serves:
  "winsys_dequeue_from_winsys_listener (ws d) = Some (op, st) \<Longrightarrow> winsys_listener d = serve (set_ws d st) [op]"
  by (simp add: winsys_listener_def)

section \<open>Properties\<close>

definition sample_desktop :: "window list \<Rightarrow> u32 \<Rightarrow> nat desktop" where
  "sample_desktop wins working = \<lparr>
     kn = sample_kernel\<lparr>wsys := (winsys_init winsys_boot)\<lparr>win_list := wins, working_window := working\<rparr>\<rparr>,
     scr = sample_screen, MOUSEX = 500, MOUSEY = 500, PREVX = 500, PREVY = 500, dragging_window = 0\<rparr>"



text \<open>
  Removing the window of a user process when it is the working window and the only window
  dereferences the null list: the operation faults, whatever is on the screen.
\<close>

theorem remove_last_user_window_faults:
  assumes "win_list (ws d) = [w]" and "working_window (ws d) = w_addr w" and "is_user w"
  shows "winsys_remove_window_operation d (Some w) = None"
proof (rule ccontr)
  assume "winsys_remove_window_operation d (Some w) \<noteq> None"
  then obtain d' where "winsys_remove_window_user d (Some w) = Some d'"
    using assms(3) by (auto simp: winsys_remove_window_operation_def)
  then obtain v d1 st i d2 where
    1: "on_scr (\<lambda>s. Some (winsys_clear_whole_window s w)) (d\<lparr>kn := (kn d)\<lparr>vm := v\<rparr>\<rparr>) = Some d1"
    and 2: "unlink_window (ws d1) w = Some st"
    and 3: "working_id (set_ws d1 st) w = Some i"
    and 4: "(if i = w_id w then (let d = set_ws (set_ws d1 st) (st\<lparr>working_window := 0\<rparr>)
        in do { guard (win_list (ws d) \<noteq> []);
             (r, d) \<leftarrow> desk_set_working_window d (w_id (last (win_list (ws d)))); Some d })
        else Some (set_ws d1 st)) = Some d2"
    by (auto simp: winsys_remove_window_user_def c_simps Let_def cong: if_cong)
  have "ws d1 = ws d" using on_scr_ws [OF 1] by simp
  then have "win_list st = [] \<and> working_window st = w_addr w"
    using 2 assms(1,2) by (auto simp: unlink_window_def c_simps)
  then show False using 3 4 by (simp add: working_id_def)
qed

theorem remove_last_user_window_faults_witness:
  "winsys_remove_window_operation (sample_desktop [(low_window 1 0 40)\<lparr>is_user := True\<rparr>] 0xC0400100)
     (Some ((low_window 1 0 40)\<lparr>is_user := True\<rparr>)) = None"
  by (rule remove_last_user_window_faults)
    (simp_all add: sample_desktop_def winsys_init_def winsys_boot_def low_window_def sample_window_def)

end
