(* ===== verification/Mouse.thy ===== *)
theory Mouse
  imports Winops
begin

text \<open>
  The mouse interrupt (\<^verbatim>\<open>drivers/mouse.c\<close>) from the four bytes of a packet on: the position of the
  cursor, raising and dragging windows, the close button and the events of the working window.  The
  port reads and the set-up of the controller are not modelled.  The drivers \<open>drv\<close>, the callback
  \<open>hook\<close> and the stack pointer \<open>esp\<close> are those of the process termination that a click on a close
  button starts.
\<close>

abbreviation GENERAL_EVENT_MOUSE :: u32 where "GENERAL_EVENT_MOUSE \<equiv> 2"
abbreviation TOP :: int where "TOP \<equiv> 1"

definition int16 :: "int \<Rightarrow> int" where
  "int16 z = sint (word_of_int z :: u16)"

text \<open>The relative movement is an \<^verbatim>\<open>int8_t\<close>: the sign bit of the packet is cut off again.\<close>

definition rel_x :: "u8 \<Rightarrow> u8 \<Rightarrow> int" where
  "rel_x flags xmov = sint (word_of_int (uint xmov - uint (push_bit 4 (ucast flags :: u32) AND 0x100)) :: u8)"

definition rel_y :: "u8 \<Rightarrow> u8 \<Rightarrow> int" where
  "rel_y flags ymov = sint (word_of_int (uint ymov - uint (push_bit 3 (ucast flags :: u32) AND 0x100)) :: u8)"

definition move_cursor :: "'s desktop \<Rightarrow> int \<Rightarrow> int \<Rightarrow> 's desktop" where
  "move_cursor d rx ry = (
     let x = int16 (MOUSEX d + rx * 2);
         x = (if x < 0 then 0 else if x \<ge> PIXEL_WIDTH then PIXEL_WIDTH - 1 else x);
         y = int16 (MOUSEY d - ry * 2);
         y = (if y < TOP * CHAR_HEIGHT then TOP * CHAR_HEIGHT else if y \<ge> PIXEL_HEIGHT then PIXEL_HEIGHT - 1 else y)
     in d\<lparr>MOUSEX := x, MOUSEY := y, PREVX := x, PREVY := y\<rparr>)"

text \<open>The title bar under a point; a click on its close button ends the owner of the window.\<close>

definition winsys_get_window_from_title_collision ::
  "(u32 \<Rightarrow> 's driver) \<Rightarrow> (u32 \<Rightarrow> 's kernel \<Rightarrow> 's kernel option) \<Rightarrow> u32 \<Rightarrow> 's desktop \<Rightarrow> int \<Rightarrow> int \<Rightarrow>
    (window option \<times> 's desktop) option" where
  "winsys_get_window_from_title_collision drv hook esp d x y =
     (case top_collision (\<lambda>w. winsys_check_title_collide w x y) None (win_list (ws d)) of
        None \<Rightarrow> Some (None, d)
      | Some w \<Rightarrow>
          if winsys_check_close_collide w x y then do {
            k \<leftarrow> (if is_user w then terminateProcessById drv (kn d) (parent_pid w) esp
                  else if parent_pid w \<noteq> 0 then terminateKernelProcessById hook (kn d) (parent_pid w) esp
                  else do {
                    r \<leftarrow> running_id (kn d);
                    st \<leftarrow> winsys_remove_window (ws d) r (Some w);
                    Some ((kn d)\<lparr>wsys := st\<rparr>) });
            Some (None, d\<lparr>kn := k\<rparr>) }
          else Some (Some w, d))"

text \<open>The window that is dragged is known by its pointer only.\<close>

definition drag :: "'s desktop \<Rightarrow> 's desktop option" where
  "drag d = do {
     v \<leftarrow> window_ptr (ws d) (dragging_window d);
     r \<leftarrow> running_id (kn d);
     st \<leftarrow> winsys_move_window (ws d) r (Some v) (MOUSEX d - cdiv (win_w v) 2)
       (max (MOUSEY d + cdiv TITLE_BAR_HEIGHT 2) (CHAR_HEIGHT + TITLE_BAR_HEIGHT));
     Some (set_ws d st) }"

definition grab ::
  "(u32 \<Rightarrow> 's driver) \<Rightarrow> (u32 \<Rightarrow> 's kernel \<Rightarrow> 's kernel option) \<Rightarrow> u32 \<Rightarrow> 's desktop \<Rightarrow> 's desktop option" where
  "grab drv hook esp d = do {
     (t, d) \<leftarrow> winsys_get_window_from_title_collision drv hook esp d (MOUSEX d) (MOUSEY d);
     Some (case t of None \<Rightarrow> d | Some v \<Rightarrow> d\<lparr>dragging_window := w_addr v\<rparr>) }"

definition left_click ::
  "(u32 \<Rightarrow> 's driver) \<Rightarrow> (u32 \<Rightarrow> 's kernel \<Rightarrow> 's kernel option) \<Rightarrow> u32 \<Rightarrow> 's desktop \<Rightarrow> 's desktop option" where
  "left_click drv hook esp d = (
     let win = winsys_get_window_from_collision (ws d) (MOUSEX d) (MOUSEY d)
     in if (case win of None \<Rightarrow> False | Some w \<Rightarrow> winsys_get_working_window (ws d) \<noteq> w_addr w)
        then do {
          w \<leftarrow> win;
          r \<leftarrow> running_id (kn d);
          st \<leftarrow> winsys_set_working_window (ws d) r (w_id w);
          Some (set_ws d st) }
        else if dragging_window d = 0 then grab drv hook esp d else drag d)"

definition mouse_event :: "'s desktop \<Rightarrow> window \<Rightarrow> bool \<Rightarrow> bool \<Rightarrow> bool \<Rightarrow> event" where
  "mouse_event d w left right moved = (
     let t = 0;
         t = (if left then t OR EVENT_MOUSE_LEFT_CLICK else t);
         t = (if right then t OR EVENT_MOUSE_RIGHT_CLICK else t);
         t = (if moved then t OR EVENT_MOUSE_MOVE else t);
         win_relx = word_of_int (MOUSEX d - win_x w) :: u16;
         win_rely = word_of_int (MOUSEY d - win_y w) :: u16
     in \<lparr>event_type = t, event_data = ucast win_relx OR push_bit 16 (ucast win_rely)\<rparr>)"

text \<open>The event goes to the queue of the window, and the threads of its process are woken.\<close>

definition send_event :: "'s desktop \<Rightarrow> window \<Rightarrow> event \<Rightarrow> 's desktop option" where
  "send_event d w e = do {
     evs \<leftarrow> winsys_enqueue_to_event_handler (events w) e;
     let d = set_ws d ((ws d)\<lparr>win_list := map (\<lambda>v. if w_addr v = w_addr w then v\<lparr>events := evs\<rparr> else v) (win_list (ws d))\<rparr>);
     proc \<leftarrow> getProcessByID (kn d) (parent_pid w);
     k \<leftarrow> unsuspend_suspended_threads (kn d) proc;
     Some (d\<lparr>kn := k\<rparr>) }"

definition mouse_handler ::
  "(u32 \<Rightarrow> 's driver) \<Rightarrow> (u32 \<Rightarrow> 's kernel \<Rightarrow> 's kernel option) \<Rightarrow> u32 \<Rightarrow> 's desktop \<Rightarrow> u8 \<Rightarrow> u8 \<Rightarrow> u8 \<Rightarrow> u8 \<Rightarrow>
    's desktop option" where
  "mouse_handler drv hook esp d flags xmov ymov zmov =
     (if \<not> mouse_enabled (scr d) \<or> \<not> mouse_installed (scr d) then Some d
      else (
        let rx = rel_x flags xmov;
            ry = rel_y flags ymov;
            d = move_cursor d rx ry;
            left = flag flags 1;
            right = flag flags 2
        in if rx = 0 \<and> ry = 0 \<and> \<not> left \<and> \<not> right then Some d
           else do {
             d \<leftarrow> (if left then left_click drv hook esp d else Some (d\<lparr>dragging_window := 0\<rparr>));
             if working_window (ws d) = 0 then Some d
             else do {
               w \<leftarrow> window_ptr (ws d) (working_window (ws d));
               d \<leftarrow> (if flag (event_mask w) GENERAL_EVENT_MOUSE
                     then send_event d w (mouse_event d w left right (rx \<noteq> 0 \<or> ry \<noteq> 0)) else Some d);
               if rx \<noteq> 0 \<or> ry \<noteq> 0
               then on_scr (\<lambda>s. Some (winsys_move_mouse_operation s (MOUSEX d) (MOUSEY d))) d
               else Some d } }))"

section \<open>The cursor stays on the screen\<close>

definition cursor_ok :: "'s desktop \<Rightarrow> bool" where
  "cursor_ok d \<longleftrightarrow> 0 \<le> MOUSEX d \<and> MOUSEX d < PIXEL_WIDTH \<and> CHAR_HEIGHT \<le> MOUSEY d \<and> MOUSEY d < PIXEL_HEIGHT"

lemma move_cursor_ok: "cursor_ok (move_cursor d rx ry)"
  by (simp add: cursor_ok_def move_cursor_def Let_def)

lemma desktop_pos:
  "MOUSEX (set_ws d st) = MOUSEX d" "MOUSEY (set_ws d st) = MOUSEY d"
  by (simp_all add: set_ws_def)

lemma on_scr_pos: "on_scr f d = Some d' \<Longrightarrow> MOUSEX d' = MOUSEX d \<and> MOUSEY d' = MOUSEY d"
  by (auto simp: on_scr_def c_simps)

lemma title_pos:
  "winsys_get_window_from_title_collision drv hook esp d x y = Some (t, d') \<Longrightarrow> MOUSEX d' = MOUSEX d \<and> MOUSEY d' = MOUSEY d"
  by (auto simp: winsys_get_window_from_title_collision_def c_simps split: option.splits if_splits)

lemma left_click_pos: "left_click drv hook esp d = Some d' \<Longrightarrow> MOUSEX d' = MOUSEX d \<and> MOUSEY d' = MOUSEY d"
  by (auto simp: left_click_def drag_def grab_def Let_def c_simps desktop_pos dest!: title_pos
      split: option.splits if_splits prod.splits)

lemma send_event_pos: "send_event d w e = Some d' \<Longrightarrow> MOUSEX d' = MOUSEX d \<and> MOUSEY d' = MOUSEY d"
  by (auto simp: send_event_def Let_def c_simps desktop_pos)

lemma cursor_cong: "MOUSEX d' = MOUSEX d \<and> MOUSEY d' = MOUSEY d \<Longrightarrow> cursor_ok d' = cursor_ok d"
  by (simp add: cursor_ok_def)

lemma mouse_handler_ok:
  assumes "cursor_ok d" and "mouse_handler drv hook esp d flags xmov ymov zmov = Some d'"
  shows "cursor_ok d'"
proof (cases "\<not> mouse_enabled (scr d) \<or> \<not> mouse_installed (scr d)")
  case True
  with assms show ?thesis by (simp add: mouse_handler_def)
next
  case False
  define rx where "rx = rel_x flags xmov"
  define ry where "ry = rel_y flags ymov"
  define d1 where "d1 = move_cursor d rx ry"
  have ok: "cursor_ok d1" unfolding d1_def by (rule move_cursor_ok)
  from assms(2) False have h: "(if rx = 0 \<and> ry = 0 \<and> \<not> flag flags 1 \<and> \<not> flag flags 2 then Some d1
      else do {
        d \<leftarrow> (if flag flags 1 then left_click drv hook esp d1 else Some (d1\<lparr>dragging_window := 0\<rparr>));
        if working_window (ws d) = 0 then Some d
        else do {
          w \<leftarrow> window_ptr (ws d) (working_window (ws d));
          d \<leftarrow> (if flag (event_mask w) GENERAL_EVENT_MOUSE
                then send_event d w (mouse_event d w (flag flags 1) (flag flags 2) (rx \<noteq> 0 \<or> ry \<noteq> 0)) else Some d);
          if rx \<noteq> 0 \<or> ry \<noteq> 0 then on_scr (\<lambda>s. Some (winsys_move_mouse_operation s (MOUSEX d) (MOUSEY d))) d
          else Some d } }) = Some d'"
    unfolding mouse_handler_def Let_def rx_def [symmetric] ry_def [symmetric] d1_def [symmetric] by simp
  show ?thesis
  proof (cases "rx = 0 \<and> ry = 0 \<and> \<not> flag flags 1 \<and> \<not> flag flags 2")
    case True
    with h ok show ?thesis by simp
  next
    case n: False
    with h obtain d2 where d2: "(if flag flags 1 then left_click drv hook esp d1 else Some (d1\<lparr>dragging_window := 0\<rparr>)) = Some d2"
      and r: "(if working_window (ws d2) = 0 then Some d2
        else do {
          w \<leftarrow> window_ptr (ws d2) (working_window (ws d2));
          d \<leftarrow> (if flag (event_mask w) GENERAL_EVENT_MOUSE
                then send_event d2 w (mouse_event d2 w (flag flags 1) (flag flags 2) (rx \<noteq> 0 \<or> ry \<noteq> 0)) else Some d2);
          if rx \<noteq> 0 \<or> ry \<noteq> 0 then on_scr (\<lambda>s. Some (winsys_move_mouse_operation s (MOUSEX d) (MOUSEY d))) d
          else Some d }) = Some d'"
      by (simp only: if_False bind_Some_iff) blast
    have ok2: "cursor_ok d2" using d2 ok
      by (auto simp: cursor_ok_def dest!: left_click_pos split: if_splits)
    show ?thesis
    proof (cases "working_window (ws d2) = 0")
      case True
      with r ok2 show ?thesis by simp
    next
      case False
      with r obtain w d3 where d3: "(if flag (event_mask w) GENERAL_EVENT_MOUSE
            then send_event d2 w (mouse_event d2 w (flag flags 1) (flag flags 2) (rx \<noteq> 0 \<or> ry \<noteq> 0)) else Some d2) = Some d3"
        and e: "(if rx \<noteq> 0 \<or> ry \<noteq> 0 then on_scr (\<lambda>s. Some (winsys_move_mouse_operation s (MOUSEX d3) (MOUSEY d3))) d3
          else Some d3) = Some d'"
        by (simp only: if_False bind_Some_iff) blast
      have "cursor_ok d3"
      proof (cases "flag (event_mask w) GENERAL_EVENT_MOUSE")
        case True
        then show ?thesis using d3 cursor_cong [OF send_event_pos] ok2 by (simp only: if_True) blast
      next
        case False
        then show ?thesis using d3 ok2 by simp
      qed
      then show ?thesis using e cursor_cong [OF on_scr_pos] by (cases "rx \<noteq> 0 \<or> ry \<noteq> 0") auto
    qed
  qed
qed

fun packets ::
  "(u32 \<Rightarrow> 's driver) \<Rightarrow> (u32 \<Rightarrow> 's kernel \<Rightarrow> 's kernel option) \<Rightarrow> u32 \<Rightarrow> 's desktop \<Rightarrow> (u8 \<times> u8 \<times> u8 \<times> u8) list \<Rightarrow>
    's desktop option" where
  "packets drv hook esp d [] = Some d"
| "packets drv hook esp d ((f, x, y, z) # ps) = do {
     d \<leftarrow> mouse_handler drv hook esp d f x y z;
     packets drv hook esp d ps }"

lemma packets_ok: "cursor_ok d \<Longrightarrow> packets drv hook esp d ps = Some d' \<Longrightarrow> cursor_ok d'"
proof (induction ps arbitrary: d)
  case Nil
  then show ?case by simp
next
  case (Cons p ps)
  obtain f x y z where p: "p = (f, x, y, z)" by (cases p) auto
  with Cons.prems obtain d1 where "mouse_handler drv hook esp d f x y z = Some d1" "packets drv hook esp d1 ps = Some d'"
    by (auto simp: c_simps)
  with Cons.IH mouse_handler_ok [OF Cons.prems(1)] show ?case by blast
qed

text \<open>
  The sign bit of the packet never counts: a movement of 200 to the right, which the packet gives
  as 200 with a clear sign bit, moves the cursor to the left.
\<close>

lemma rel_x_low_byte: "rel_x flags xmov = sint xmov"
proof -
  have "uint (push_bit 4 (ucast flags :: u32) AND 0x100) = (if bit flags 4 then 256 else 0)"
  proof -
    have "push_bit 4 (ucast flags :: u32) AND 0x100 = (if bit flags 4 then 0x100 else 0)"
    proof (rule bit_word_eqI)
      fix n :: nat
      assume "n < LENGTH(32)"
      have "bit (push_bit 8 1 :: u32) n \<longleftrightarrow> n = 8" unfolding bit_push_bit_iff bit_1_iff by auto
      moreover have "(push_bit 8 1 :: u32) = 0x100" by simp
      ultimately have h: "bit (0x100 :: u32) n \<longleftrightarrow> n = 8" by (simp only:)
      show "bit (push_bit 4 (ucast flags :: u32) AND 0x100) n = bit (if bit flags 4 then 0x100 else 0 :: u32) n"
      proof (cases "n = 8")
        case True
        then show ?thesis using h by (simp add: bit_and_iff bit_push_bit_iff bit_ucast_iff)
      next
        case False
        then have "\<not> bit (0x100 :: u32) n" unfolding h .
        then show ?thesis by (cases "bit flags 4") (simp_all only: bit_and_iff simp_thms if_True if_False bit_0_eq bot_apply bot_bool_def)
      qed
    qed
    then show ?thesis by simp
  qed
  moreover have "(256 :: u8) = 0" by (rule word_uint_eqI) simp
  then have "xmov - 256 = xmov - 0" by (simp only:)
  then have m: "xmov - 256 = xmov" by (simp only: diff_zero)
  ultimately show ?thesis by (simp add: rel_x_def m)
qed

lemma fast_movement_turns_back: "rel_x 0 200 = - 56"
  by (simp add: rel_x_low_byte)

section \<open>Properties\<close>

text \<open>
  Whatever packets the mouse sends, the cursor never leaves the screen nor enters the text row
  at its top.
\<close>

theorem cursor_stays_on_screen:
  assumes "cursor_ok d" and "packets drv hook esp d ps = Some d'"
  shows "0 \<le> MOUSEX d' \<and> MOUSEX d' < PIXEL_WIDTH \<and> CHAR_HEIGHT \<le> MOUSEY d' \<and> MOUSEY d' < PIXEL_HEIGHT"
  using packets_ok [OF assms] by (simp add: cursor_ok_def)

theorem cursor_stays_on_screen_witness:
  "\<forall>drv hook. \<exists>d'. packets drv hook 0 (sample_desktop [] 0) [(0, 100, 3, 0), (0, 127, 130, 0)] = Some d' \<and>
    MOUSEX d' = 954 \<and> MOUSEY d' < PIXEL_HEIGHT"
proof (intro allI)
  fix drv :: "u32 \<Rightarrow> nat driver" and hook :: "u32 \<Rightarrow> nat kernel \<Rightarrow> nat kernel option"
  let ?ps = "[(0, 100, 3, 0), (0, 127, 130, 0)] :: (u8 \<times> u8 \<times> u8 \<times> u8) list"
  have r: "rel_x 0 100 = 100" "rel_x 0 127 = 127" "rel_y 0 3 = 3" "rel_y 0 130 = - 126"
    by (simp_all add: rel_x_low_byte) (simp_all add: rel_y_def)
  define d' where "d' = ((sample_desktop [] 0)\<lparr>MOUSEX := 954, MOUSEY := 746, PREVX := 954, PREVY := 746\<rparr>)"
  have p: "packets drv hook 0 (sample_desktop [] 0) ?ps = Some d'"
    by (simp add: d'_def mouse_handler_def Let_def r sample_desktop_def sample_screen_def move_cursor_def int16_def
        winsys_init_def winsys_boot_def flag_def)
  have "cursor_ok (sample_desktop [] 0)" by (simp add: cursor_ok_def sample_desktop_def)
  from cursor_stays_on_screen [OF this p] have "MOUSEY d' < PIXEL_HEIGHT" by simp
  with p show "\<exists>d'. packets drv hook 0 (sample_desktop [] 0) ?ps = Some d' \<and> MOUSEX d' = 954 \<and> MOUSEY d' < PIXEL_HEIGHT"
    by (intro exI [of _ d']) (simp add: d'_def)
qed

end
