(* ===== verification/Textwin.thy ===== *)
theory Textwin
  imports Winops
begin

text \<open>
  Drawing and printing into the buffer of a window (the \<^verbatim>\<open>gfx_\<close> functions of
  \<^verbatim>\<open>kernel/window_sys.c\<close>): pixels, rectangles, characters, the text cursor with its line breaks,
  backspaces and scrolling, and the line that is being typed.

  A window that has to scroll while a thread runs waits for a key; in the model no other thread
  runs meanwhile, so only a key press that is already queued ends the wait (\<open>None\<close> otherwise).
\<close>

record inpinfo =
  cursor_input_row :: u32
  cursor_input_col :: u32
  cursor_offset_x :: u32
  cursor_offset_y :: u32
  is_taking_input :: bool
  input_buffer_index :: u32
  input_buffer_limit :: u32
  input_buffer :: u32
  did_scroll :: bool

section \<open>Drawing\<close>

definition gfx_set_pixel :: "memory \<Rightarrow> window \<Rightarrow> int \<Rightarrow> int \<Rightarrow> u32 \<Rightarrow> memory" where
  "gfx_set_pixel m w x y color =
     (if x \<ge> win_w w \<or> y \<ge> win_h w \<or> x < 0 \<or> y < 0 then m
      else write_pixel m (w_buffer w + word_of_int ((y * win_w w + x) * 3)) color)"

fun gfx_fill_row :: "memory \<Rightarrow> u32 \<Rightarrow> int \<Rightarrow> int \<Rightarrow> u32 \<Rightarrow> nat \<Rightarrow> nat \<Rightarrow> memory" where
  "gfx_fill_row m buff ww x color j 0 = m"
| "gfx_fill_row m buff ww x color j (Suc n) =
     gfx_fill_row (if x + int j \<ge> ww \<or> x + int j < 0 then m else write_pixel m (buff + of_nat (j * 3)) color)
       buff ww x color (Suc j) n"

fun gfx_fill_rows :: "memory \<Rightarrow> u32 \<Rightarrow> window \<Rightarrow> int \<Rightarrow> int \<Rightarrow> int \<Rightarrow> u32 \<Rightarrow> nat \<Rightarrow> nat \<Rightarrow> memory" where
  "gfx_fill_rows m buff w x y width color i 0 = m"
| "gfx_fill_rows m buff w x y width color i (Suc n) =
     gfx_fill_rows (if y + int i < win_h w \<and> y + int i \<ge> 0 then gfx_fill_row m buff (win_w w) x color 0 (nat width) else m)
       (buff + word_of_int (win_w w * 3)) w x y width color (Suc i) n"

definition gfx_fill_rect :: "memory \<Rightarrow> window option \<Rightarrow> int \<Rightarrow> int \<Rightarrow> int \<Rightarrow> int \<Rightarrow> u32 \<Rightarrow> memory option" where
  "gfx_fill_rect m win x y width height color = do {
     w \<leftarrow> win;
     Some (if x \<ge> win_w w \<or> y \<ge> win_h w then m
           else (
             let width = (if x + width \<ge> win_w w then win_w w - x else width);
                 height = (if y + height \<ge> win_h w then win_h w - y else height)
             in gfx_fill_rows m (w_buffer w + word_of_int ((y * win_w w + x) * 3)) w x y width color 0 (nat height))) }"

definition gfx_clear_win :: "memory \<Rightarrow> window option \<Rightarrow> memory option" where
  "gfx_clear_win m win = do { w \<leftarrow> win; gfx_fill_rect m win 0 0 (win_w w) (win_h w) 0 }"

text \<open>The colour of a character is not cut to 24 bits when it is written.\<close>

definition or_pixel :: "memory \<Rightarrow> u32 \<Rightarrow> u32 \<Rightarrow> memory" where
  "or_pixel m a color = (
     let m = store32 m a (load32 m a AND 0xFF000000)
     in store32 m a (load32 m a OR color))"

fun gfx_char_row :: "memory \<Rightarrow> u32 \<Rightarrow> window \<Rightarrow> u8 \<Rightarrow> int \<Rightarrow> int \<Rightarrow> u32 \<Rightarrow> nat \<Rightarrow> nat \<Rightarrow> memory" where
  "gfx_char_row m dest w col x y fgcolor j 0 = m"
| "gfx_char_row m dest w col x y fgcolor j (Suc n) =
     gfx_char_row
       (if col mod 2 \<noteq> 0 \<and> x + int j < win_w w \<and> x + int j \<ge> 0 \<and> y \<ge> 0 \<and> y < win_h w
        then or_pixel m (dest + of_nat (j * 3)) fgcolor else m)
       dest w (col div 2) x y fgcolor (Suc j) n"

fun gfx_char_rows :: "memory \<Rightarrow> u32 \<Rightarrow> u32 \<Rightarrow> window \<Rightarrow> int \<Rightarrow> int \<Rightarrow> u32 \<Rightarrow> nat \<Rightarrow> nat \<Rightarrow> memory" where
  "gfx_char_rows m src dest w x y fgcolor row 0 = m"
| "gfx_char_rows m src dest w x y fgcolor row (Suc n) =
     gfx_char_rows (gfx_char_row m dest w (m src) x (y + int row) fgcolor 0 8) (src + 1)
       (dest + word_of_int (win_w w * 3)) w x y fgcolor (Suc row) n"

definition gfx_paint_char :: "memory \<Rightarrow> u32 \<Rightarrow> window \<Rightarrow> u8 \<Rightarrow> int \<Rightarrow> int \<Rightarrow> u32 \<Rightarrow> memory" where
  "gfx_paint_char m font w c x y fgcolor =
     (if x + CHAR_WIDTH > win_w w \<or> y + CHAR_HEIGHT > win_h w \<or> x < 0 \<or> y < 0 then m
      else gfx_char_rows m (glyph_addr font c) (w_buffer w + word_of_int ((y * win_w w + x) * 3)) w x y fgcolor 0 16)"

fun gfx_char_bg_row :: "memory \<Rightarrow> u32 \<Rightarrow> window \<Rightarrow> u8 \<Rightarrow> int \<Rightarrow> int \<Rightarrow> u32 \<Rightarrow> u32 \<Rightarrow> nat \<Rightarrow> nat \<Rightarrow> memory" where
  "gfx_char_bg_row m dest w col x y bgcolor fgcolor j 0 = m"
| "gfx_char_bg_row m dest w col x y bgcolor fgcolor j (Suc n) =
     gfx_char_bg_row
       (if x + int j < win_w w \<and> x + int j \<ge> 0 \<and> y \<ge> 0 \<and> y < win_h w
        then write_pixel m (dest + of_nat (j * 3)) (if col mod 2 \<noteq> 0 then fgcolor else bgcolor) else m)
       dest w (col div 2) x y bgcolor fgcolor (Suc j) n"

fun gfx_char_bg_rows :: "memory \<Rightarrow> u32 \<Rightarrow> u32 \<Rightarrow> window \<Rightarrow> int \<Rightarrow> int \<Rightarrow> u32 \<Rightarrow> u32 \<Rightarrow> nat \<Rightarrow> nat \<Rightarrow> memory" where
  "gfx_char_bg_rows m src dest w x y bgcolor fgcolor row 0 = m"
| "gfx_char_bg_rows m src dest w x y bgcolor fgcolor row (Suc n) =
     gfx_char_bg_rows (gfx_char_bg_row m dest w (m src) x (y + int row) bgcolor fgcolor 0 8) (src + 1)
       (dest + word_of_int (win_w w * 3)) w x y bgcolor fgcolor (Suc row) n"

definition gfx_paint_char_bg :: "memory \<Rightarrow> u32 \<Rightarrow> window \<Rightarrow> u8 \<Rightarrow> int \<Rightarrow> int \<Rightarrow> u32 \<Rightarrow> u32 \<Rightarrow> memory" where
  "gfx_paint_char_bg m font w c x y bgcolor fgcolor =
     (if x + CHAR_WIDTH > win_w w \<or> y + CHAR_HEIGHT > win_h w \<or> x < 0 \<or> y < 0 then m
      else gfx_char_bg_rows m (glyph_addr font c) (w_buffer w + word_of_int ((y * win_w w + x) * 3)) w x y
             bgcolor fgcolor 0 16)"

section \<open>Rows and columns\<close>

definition gfx_get_win_x :: "int \<Rightarrow> int" where "gfx_get_win_x col = col * CHAR_WIDTH"
definition gfx_get_win_y :: "int \<Rightarrow> int" where "gfx_get_win_y row = row * CHAR_HEIGHT"
definition gfx_get_logical_row :: "int \<Rightarrow> int" where "gfx_get_logical_row y = cdiv y CHAR_HEIGHT"
definition gfx_get_logical_col :: "int \<Rightarrow> int" where "gfx_get_logical_col x = cdiv x CHAR_WIDTH"

section \<open>Scrolling\<close>

abbreviation SCROLL_ROWS :: int where "SCROLL_ROWS \<equiv> 5"

text \<open>The lines are moved up one by one.\<close>

fun scroll_lines :: "memory \<Rightarrow> u32 \<Rightarrow> u32 \<Rightarrow> u32 \<Rightarrow> nat \<Rightarrow> memory" where
  "scroll_lines m buff diff line 0 = m"
| "scroll_lines m buff diff line (Suc n) =
     scroll_lines (memcpy m buff (buff + diff) (sint line)) (buff + line) diff line n"

definition scroll_window :: "memory \<Rightarrow> window \<Rightarrow> memory option" where
  "scroll_window m w = (
     let char_line_size = word_of_int (win_w w * CHAR_HEIGHT * 3) :: u32;
         scroll_diff_size = word_of_int SCROLL_ROWS * char_line_size;
         m = scroll_lines m (w_buffer w) scroll_diff_size char_line_size
               (nat (gfx_get_logical_row (win_h w) - SCROLL_ROWS))
     in gfx_fill_rect m (Some w) 0 (win_h w - CHAR_HEIGHT * SCROLL_ROWS) (win_w w) (CHAR_HEIGHT * SCROLL_ROWS) 0)"

text \<open>
  Waiting for a key press: the queue holds ten events, so a fuel of eleven is enough to take them
  all.
\<close>

fun wait_press :: "nat \<Rightarrow> event list \<Rightarrow> event list option" where
  "wait_press 0 evs = None"
| "wait_press (Suc n) evs = do {
     e \<leftarrow> aget evs 0;
     guard (\<not> is_invalid e);
     (e, evs) \<leftarrow> winsys_dequeue_from_event_handler evs;
     if flag (event_type e) EVENT_KBD_PRESS then Some evs else wait_press n evs }"

definition set_memory :: "'s desktop \<Rightarrow> memory \<Rightarrow> 's desktop" where
  "set_memory d m = d\<lparr>kn := (kn d)\<lparr>kh := (kh (kn d))\<lparr>heap_mem := m\<rparr>\<rparr>\<rparr>"

text \<open>The three dots that ask for a key, the wait, and their removal.\<close>

definition ask_for_key :: "'s desktop \<Rightarrow> window \<Rightarrow> int \<Rightarrow> 's desktop option" where
  "ask_for_key d w offset_y = do {
     let dot = (\<lambda>m col. gfx_paint_char_bg m (font_buff (scr d)) w 0x2E (gfx_get_win_x col) (gfx_get_win_y offset_y) 0 0xaa0000);
     let d = set_memory d (dot (dot (dot (memory_of d) 0) 1) 2);
     r \<leftarrow> running_id (kn d);
     st \<leftarrow> winsys_display_window (ws d) r (Some w);
     let d = set_ws d st;
     evs \<leftarrow> wait_press 11 (events w);
     st \<leftarrow> set_window (ws d) (w_id w) (\<lambda>w. w\<lparr>events := evs\<rparr>);
     let d = set_ws d st;
     m \<leftarrow> gfx_fill_rect (memory_of d) (Some w) 0 (win_h w - CHAR_HEIGHT) (CHAR_WIDTH * 3) CHAR_HEIGHT 0;
     Some (set_memory d m) }"

definition gfx_handle_scrolling :: "'s desktop \<Rightarrow> window \<Rightarrow> inpinfo \<Rightarrow> int \<Rightarrow> (int \<times> inpinfo \<times> 's desktop) option" where
  "gfx_handle_scrolling d w inp offset_y =
     (if offset_y < gfx_get_logical_row (win_h w) - 1 then Some (offset_y, inp, d)
      else do {
        d \<leftarrow> (if get_current_task (kn d) \<noteq> 0 then ask_for_key d w offset_y else Some d);
        m \<leftarrow> scroll_window (memory_of d) w;
        let inp = inp\<lparr>cursor_input_row := cursor_input_row inp - word_of_int SCROLL_ROWS, did_scroll := True\<rparr>;
        Some (offset_y - SCROLL_ROWS, inp, set_memory d m) })"

section \<open>Printing\<close>

text \<open>
  One character other than a tab.  The parameter \<^verbatim>\<open>char color\<close> is a signed byte, and an
  \<^verbatim>\<open>uint32_t\<close> again when it reaches the pixels; 0 stands for the colour 15.
\<close>

definition print_plain ::
  "'s desktop \<Rightarrow> window \<Rightarrow> inpinfo \<Rightarrow> u8 \<Rightarrow> int \<Rightarrow> int \<Rightarrow> u8 \<Rightarrow> (inpinfo \<times> 's desktop) option" where
  "print_plain d w inp c offset_x offset_y color =
     (if c = 0x08 then do {
        let offset_x = offset_x - 1;
        let (offset_x, offset_y) = (if offset_x < 0 then (gfx_get_logical_col (win_w w) - 1, offset_y - 1)
                                    else (offset_x, offset_y));
        let (offset_x, offset_y) = (if offset_y < 0 then (0, 0) else (offset_x, offset_y));
        m \<leftarrow> gfx_fill_rect (memory_of d) (Some w) (gfx_get_win_x offset_x) (gfx_get_win_y offset_y) CHAR_WIDTH CHAR_HEIGHT 0;
        Some (inp\<lparr>cursor_offset_x := word_of_int offset_x, cursor_offset_y := word_of_int offset_y\<rparr>, set_memory d m) }
      else do {
        (offset_x, offset_y, d) \<leftarrow>
          (if c = 0x0A then Some (0, offset_y + 1, d)
           else do {
             m \<leftarrow> gfx_fill_rect (memory_of d) (Some w) (gfx_get_win_x offset_x) (gfx_get_win_y offset_y) CHAR_WIDTH CHAR_HEIGHT 0;
             let m = gfx_paint_char m (font_buff (scr d)) w c (gfx_get_win_x offset_x) (gfx_get_win_y offset_y)
                       (word_of_int (sint color));
             Some (offset_x + 1, offset_y, set_memory d m) });
        let (offset_x, offset_y) = (if offset_x \<ge> gfx_get_logical_col (win_w w) then (0, offset_y + 1)
                                    else (offset_x, offset_y));
        Some (inp\<lparr>cursor_offset_x := word_of_int offset_x, cursor_offset_y := word_of_int offset_y\<rparr>, d) })"

definition print_at :: "'s desktop \<Rightarrow> window \<Rightarrow> inpinfo \<Rightarrow> int \<Rightarrow> int \<Rightarrow> int \<times> int" where
  "print_at d w inp row col =
     (if col \<ge> 0 \<and> row \<ge> 0 then (gfx_get_win_x col, gfx_get_win_y row)
      else (sint (cursor_offset_x inp), sint (cursor_offset_y inp)))"

text \<open>A tab is four spaces, each printed at the cursor in white.\<close>

fun print_char_fuel ::
  "nat \<Rightarrow> 's desktop \<Rightarrow> window \<Rightarrow> inpinfo \<Rightarrow> u8 \<Rightarrow> int \<Rightarrow> int \<Rightarrow> u8 \<Rightarrow> (inpinfo \<times> 's desktop) option" where
  "print_char_fuel n d w inp c row col color =
     (if c = 27 \<or> c = 0x0D then Some (inp, d)
      else do {
        let color = (if color = 0 then 0xF else color);
        let (offset_x, offset_y) = print_at d w inp row col;
        (offset_y, inp, d) \<leftarrow> gfx_handle_scrolling d w inp offset_y;
        w \<leftarrow> window_ptr (ws d) (w_addr w);
        if c \<noteq> 0x09 then print_plain d w inp c offset_x offset_y color
        else (case n of
            0 \<Rightarrow> None
          | Suc n \<Rightarrow> do {
              (inp, d) \<leftarrow> print_char_fuel n d w inp 0x20 (- 1) (- 1) 0xFF;
              (inp, d) \<leftarrow> print_char_fuel n d w inp 0x20 (- 1) (- 1) 0xFF;
              (inp, d) \<leftarrow> print_char_fuel n d w inp 0x20 (- 1) (- 1) 0xFF;
              print_char_fuel n d w inp 0x20 (- 1) (- 1) 0xFF }) })"

definition gfx_print_char ::
  "'s desktop \<Rightarrow> window \<Rightarrow> inpinfo \<Rightarrow> u8 \<Rightarrow> int \<Rightarrow> int \<Rightarrow> u8 \<Rightarrow> (inpinfo \<times> 's desktop) option" where
  "gfx_print_char = print_char_fuel 1"

definition gfx_putchar :: "'s desktop \<Rightarrow> window \<Rightarrow> inpinfo \<Rightarrow> u8 \<Rightarrow> (inpinfo \<times> 's desktop) option" where
  "gfx_putchar d w inp c = gfx_print_char d w inp c (- 1) (- 1) 0xFF"

fun gfx_print_color :: "'s desktop \<Rightarrow> window \<Rightarrow> inpinfo \<Rightarrow> u8 list \<Rightarrow> u32 \<Rightarrow> (inpinfo \<times> 's desktop) option" where
  "gfx_print_color d w inp [] color = Some (inp, d)"
| "gfx_print_color d w inp (c # cs) color = do {
     (inp, d) \<leftarrow> gfx_print_char d w inp c (- 1) (- 1) (ucast color);
     gfx_print_color d w inp cs color }"

definition gfx_print :: "'s desktop \<Rightarrow> window \<Rightarrow> inpinfo \<Rightarrow> u8 list \<Rightarrow> (inpinfo \<times> 's desktop) option" where
  "gfx_print d w inp s = gfx_print_color d w inp s 0xFFFFFF"

section \<open>The line that is typed\<close>

definition gfx_keyboard_input :: "inpinfo \<Rightarrow> int \<Rightarrow> int \<Rightarrow> u32 \<Rightarrow> int \<Rightarrow> inpinfo" where
  "gfx_keyboard_input inp col row buffer bf_size = (
     let row = (if row < 0 then sint (cursor_offset_y inp) else row);
         col = (if col < 0 then sint (cursor_offset_x inp) else col)
     in inp\<lparr>cursor_input_row := word_of_int row, cursor_input_col := word_of_int col, input_buffer_index := 0,
         input_buffer_limit := word_of_int bf_size, input_buffer := buffer, is_taking_input := True\<rparr>)"

definition gfx_keyboard_input_character :: "memory \<Rightarrow> inpinfo \<Rightarrow> u8 \<Rightarrow> int \<times> inpinfo \<times> memory" where
  "gfx_keyboard_input_character m inp c = (
     let inp = inp\<lparr>cursor_offset_x := cursor_input_col inp, cursor_offset_y := cursor_input_row inp\<rparr>
     in if c = 0x08 then
          (if input_buffer_index inp = 0 then (- 1, inp, m)
           else (0, inp\<lparr>input_buffer_index := input_buffer_index inp - 1\<rparr>, m))
        else if c = 0x0A then
          (1, inp\<lparr>is_taking_input := False\<rparr>, m(input_buffer inp + input_buffer_index inp := 0))
        else if input_buffer_index inp = input_buffer_limit inp - 1 then (- 1, inp, m)
        else (0, inp\<lparr>input_buffer_index := input_buffer_index inp + 1\<rparr>,
              m(input_buffer inp + input_buffer_index inp := c)))"

section \<open>Rectangles in a window\<close>

context canvas begin

lemma fill_row_clipped:
  assumes y: "0 \<le> y" "y < h"
  shows "painted base w h m (gfx_fill_row m (pixel_at base w x y) w x c j n)
    (\<lambda>px py. if in_rect (x + int j) y (int n) 1 px py then c AND 0xFFFFFF else pic base w m px py)"
proof (induction n arbitrary: m j)
  case 0
  have "painted base w h m m (\<lambda>px py. if in_rect (x + int j) y (int 0) 1 px py then c AND 0xFFFFFF else pic base w m px py)"
    by (rule painted_cong [OF painted_refl]) (auto simp: in_rect_def)
  then show ?case by simp
next
  case (Suc n)
  have "(y * w + (x + int j)) * 3 = (y * w + x) * 3 + int (j * 3)" by (simp add: algebra_simps)
  then have "(word_of_int ((y * w + (x + int j)) * 3) :: u32) = word_of_int ((y * w + x) * 3) + of_nat (j * 3)"
    by (simp only: of_int_add of_int_of_nat_eq)
  then have a: "pixel_at base w x y + of_nat (j * 3) = pixel_at base w (x + int j) y"
    by (simp only: pixel_at_def add.assoc)
  let ?m = "if x + int j \<ge> w \<or> x + int j < 0 then m else write_pixel m (pixel_at base w x y + of_nat (j * 3)) c"
  have 1: "painted base w h m ?m (\<lambda>px py. if px = x + int j \<and> py = y then c AND 0xFFFFFF else pic base w m px py)"
  proof (cases "x + int j \<ge> w \<or> x + int j < 0")
    case True
    then show ?thesis by (simp, intro painted_cong [OF painted_refl]) (auto simp: inside_def)
  next
    case False
    then have "inside w h (x + int j) y" using y by (simp add: inside_def)
    from painted_write [OF this, of m c] False show ?thesis unfolding a by simp
  qed
  show ?case unfolding gfx_fill_row.simps
    by (rule painted_trans [OF 1 Suc.IH]) (auto simp: in_rect_def)
qed

lemma fill_rows_clipped:
  assumes ww: "win_w v = w" "win_h v = h"
  shows "painted base w h m (gfx_fill_rows m (pixel_at base w x (y + int i)) v x y wd c i n)
    (\<lambda>px py. if in_rect x (y + int i) wd (int n) px py then c AND 0xFFFFFF else pic base w m px py)"
proof (induction n arbitrary: m i)
  case 0
  have "painted base w h m m (\<lambda>px py. if in_rect x (y + int i) wd (int 0) px py then c AND 0xFFFFFF else pic base w m px py)"
    by (rule painted_cong [OF painted_refl]) (auto simp: in_rect_def)
  then show ?case by simp
next
  case (Suc n)
  let ?m = "if y + int i < win_h v \<and> y + int i \<ge> 0
    then gfx_fill_row m (pixel_at base w x (y + int i)) (win_w v) x c 0 (nat wd) else m"
  have 1: "painted base w h m ?m (\<lambda>px py. if in_rect x (y + int i) wd 1 px py then c AND 0xFFFFFF else pic base w m px py)"
  proof (cases "y + int i < win_h v \<and> y + int i \<ge> 0")
    case True
    then have "painted base w h m ?m (\<lambda>px py. if in_rect (x + int 0) (y + int i) (int (nat wd)) 1 px py
        then c AND 0xFFFFFF else pic base w m px py)"
      using fill_row_clipped [of "y + int i" m x c 0 "nat wd"] ww by simp
    then show ?thesis by (rule painted_cong) (auto simp: in_rect_def)
  next
    case False
    then have "?m = m" by auto
    moreover have "painted base w h m m (\<lambda>px py. if in_rect x (y + int i) wd 1 px py then c AND 0xFFFFFF else pic base w m px py)"
      using False ww by (intro painted_cong [OF painted_refl]) (auto simp: in_rect_def inside_def)
    ultimately show ?thesis by simp
  qed
  have b: "pixel_at base w x (y + int i) + word_of_int (win_w v * 3) = pixel_at base w x (y + int (Suc i))"
  proof -
    have "y + int (Suc i) = y + int i + 1" by simp
    then show ?thesis using pixel_at_below [of base w x "y + int i"] ww by (simp only:)
  qed
  show ?case unfolding gfx_fill_rows.simps b
    by (rule painted_trans [OF 1 Suc.IH]) (auto simp: in_rect_def)
qed

end

lemma gfx_fill_rect_painted:
  assumes "canvas (win_w w) (win_h w)"
  shows "\<exists>m'. gfx_fill_rect m (Some w) x y width height c = Some m' \<and>
    painted (w_buffer w) (win_w w) (win_h w) m m'
      (\<lambda>px py. if in_rect x y width height px py then c AND 0xFFFFFF else pic (w_buffer w) (win_w w) m px py)"
proof (cases "x \<ge> win_w w \<or> y \<ge> win_h w")
  case True
  then have "gfx_fill_rect m (Some w) x y width height c = Some m" by (simp add: gfx_fill_rect_def)
  moreover have "painted (w_buffer w) (win_w w) (win_h w) m m
      (\<lambda>px py. if in_rect x y width height px py then c AND 0xFFFFFF else pic (w_buffer w) (win_w w) m px py)"
    using True by (intro painted_cong [OF painted_refl]) (auto simp: in_rect_def inside_def)
  ultimately show ?thesis by blast
next
  case False
  define wd where "wd = (if x + width \<ge> win_w w then win_w w - x else width)"
  define ht where "ht = (if y + height \<ge> win_h w then win_h w - y else height)"
  let ?m = "gfx_fill_rows m (pixel_at (w_buffer w) (win_w w) x (y + int 0)) w x y wd c 0 (nat ht)"
  have "gfx_fill_rect m (Some w) x y width height c = Some ?m"
    using False by (simp add: gfx_fill_rect_def pixel_at_def wd_def ht_def)
  moreover have "painted (w_buffer w) (win_w w) (win_h w) m ?m
      (\<lambda>px py. if in_rect x y width height px py then c AND 0xFFFFFF else pic (w_buffer w) (win_w w) m px py)"
  proof (rule painted_cong [OF canvas.fill_rows_clipped [OF assms refl refl]])
    fix px py
    assume "inside (win_w w) (win_h w) px py"
    then have "in_rect x (y + int 0) wd (int (nat ht)) px py = in_rect x y width height px py"
      by (auto simp: in_rect_def inside_def wd_def ht_def)
    then show "(if in_rect x (y + int 0) wd (int (nat ht)) px py then c AND 0xFFFFFF else pic (w_buffer w) (win_w w) m px py) =
        (if in_rect x y width height px py then c AND 0xFFFFFF else pic (w_buffer w) (win_w w) m px py)" by simp
  qed
  ultimately show ?thesis by blast
qed

section \<open>Scrolling moves the lines up\<close>

lemma unat_small: "n < 2 ^ 32 \<Longrightarrow> unat (of_nat n :: u32) = n"
  by (simp add: unat_of_nat)

lemma scroll_lines_spec:
  assumes "0 < L" and "(n + 6) * L \<le> 2 ^ 31"
  shows "scroll_lines m b (5 * of_nat L) (of_nat L) n a =
    (if unat (a - b) < n * L then m (a + 5 * of_nat L) else m a)"
  using assms
proof (induction n arbitrary: m b)
  case 0
  then show ?case by simp
next
  case (Suc n)
  have nL: "n * L + 7 * L \<le> 2 ^ 31" using Suc.prems(2) by (simp add: algebra_simps)
  then have L: "L < 2 ^ 31" "6 * L \<le> 2 ^ 31" using Suc.prems(1) by linarith+
  have s: "sint (of_nat L :: u32) = int L" using L by (simp add: sint_of_nat)
  let ?m = "memcpy m b (b + 5 * of_nat L) (int L)"
  have ap: "no_overlap b (b + 5 * of_nat L) L" unfolding no_overlap_def
  proof (intro conjI allI impI)
    show "L \<le> 2 ^ 32" using L by simp
    fix i assume i: "i < L"
    have "b + 5 * of_nat L + of_nat i - b = (of_nat (5 * L + i) :: u32)" by simp
    moreover have "5 * L + i < 2 ^ 32" using L i by simp
    ultimately have "unat (b + 5 * of_nat L + of_nat i - b) = 5 * L + i"
      by (simp only: unat_of_nat) (simp only: len_num1 len_bit0 mod_less, simp)
    then show "L \<le> unat (b + 5 * of_nat L + of_nat i - b)" by simp
  qed
  have m1: "?m a = (if unat (a - b) < L then m (a + 5 * of_nat L) else m a)" for a
  proof -
    have "b + 5 * of_nat L + (a - b) = a + 5 * of_nat L" by simp
    then show ?thesis using memcpy_loop_spec [OF ap, of m a] by (simp add: memcpy_def add.commute)
  qed
  have ih: "scroll_lines ?m (b + of_nat L) (5 * of_nat L) (of_nat L) n a =
      (if unat (a - (b + of_nat L)) < n * L then ?m (a + 5 * of_nat L) else ?m a)"
    using Suc.prems(1) nL by (intro Suc.IH) (simp_all add: distrib_right)
  define u where "u = unat (a - b)"
  have u: "a - b = of_nat u" "u < 2 ^ 32" unfolding u_def using unat_u32 by simp_all
  have d1: "unat (a - (b + of_nat L)) = (if L \<le> u then u - L else u + 2 ^ 32 - L)"
  proof -
    have e: "a - (b + of_nat L) = of_nat u - of_nat L" using u(1) by (simp add: diff_diff_eq [symmetric])
    show ?thesis
    proof (cases "L \<le> u")
      case True
      then have eq: "a - (b + of_nat L) = of_nat (u - L)" using e by (simp add: of_nat_diff)
      have "u - L < 2 ^ 32" using u(2) by simp
      from unat_small [OF this] True show ?thesis unfolding eq by (simp only: if_True)
    next
      case False
      have "(of_nat (u + 2 ^ 32 - L) :: u32) = of_nat (u + 2 ^ 32) - of_nat L"
        using L by (intro of_nat_diff) simp
      moreover have "(of_nat (u + 2 ^ 32) :: u32) = of_nat u" by simp
      ultimately have eq: "a - (b + of_nat L) = of_nat (u + 2 ^ 32 - L)" using e by (simp only:)
      have "u + 2 ^ 32 - L < 2 ^ 32" using False by auto
      from unat_small [OF this] False show ?thesis unfolding eq by (simp only: if_False)
    qed
  qed
  have d2: "\<not> unat (a + 5 * of_nat L - b) < L" if "L \<le> u" "u < n * L + L"
  proof -
    have eq: "a + 5 * of_nat L - b = of_nat (u + 5 * L)" using u(1) by (simp add: algebra_simps)
    have "u + 5 * L < 2 ^ 32" using that nL by simp
    then have "unat (a + 5 * of_nat L - b) = u + 5 * L" unfolding eq by (rule unat_small)
    then show ?thesis using that by simp
  qed
  have "scroll_lines m b (5 * of_nat L) (of_nat L) (Suc n) a =
      (if unat (a - (b + of_nat L)) < n * L then ?m (a + 5 * of_nat L) else ?m a)"
    unfolding scroll_lines.simps s ih ..
  also have "\<dots> = (if u < Suc n * L then m (a + 5 * of_nat L) else m a)"
  proof (cases "L \<le> u")
    case True
    then have "unat (a - (b + of_nat L)) < n * L \<longleftrightarrow> u < n * L + L" unfolding d1 by auto
    then show ?thesis using d2 [OF True] True m1 u_def by auto
  next
    case False
    then have "\<not> unat (a - (b + of_nat L)) < n * L" unfolding d1 using nL by simp
    then show ?thesis using False m1 [of a] u_def by simp
  qed
  finally show ?case unfolding u_def .
qed

text \<open>The lines of a window that fits into memory.\<close>

definition text_window :: "window \<Rightarrow> bool" where
  "text_window w \<longleftrightarrow> 0 < win_w w \<and> 0 \<le> win_h w \<and> 3 * win_w w * (win_h w + 96) \<le> 2 ^ 31"

lemma text_window_canvas: "text_window w \<Longrightarrow> canvas (win_w w) (win_h w)"
proof -
  assume t: "text_window w"
  then have p: "0 < win_w w" "0 \<le> win_h w" "3 * win_w w * (win_h w + 96) \<le> 2 ^ 31"
    by (simp_all add: text_window_def)
  have "3 * win_w w * win_h w \<le> 3 * win_w w * (win_h w + 96)" using p by (intro mult_left_mono) simp_all
  then have "3 * win_w w * win_h w \<le> 2 ^ 31" using p(3) by (rule order_trans)
  then have "3 * win_w w * win_h w \<le> 2 ^ 32" by simp
  with p(1,2) show ?thesis unfolding canvas_def by blast
qed

lemma scroll_painted:
  assumes t: "text_window w"
  shows "\<exists>m'. scroll_window m w = Some m' \<and>
    painted (w_buffer w) (win_w w) (win_h w) m m'
      (\<lambda>px py. if win_h w - 80 \<le> py then 0
        else if py < (win_h w div 16 - 5) * 16 then pic (w_buffer w) (win_w w) m px (py + 80)
        else pic (w_buffer w) (win_w w) m px py)"
proof -
  let ?b = "w_buffer w" and ?W = "win_w w" and ?H = "win_h w"
  define L where "L = nat (?W * 48)"
  define n where "n = nat (?H div 16 - 5)"
  have W: "0 < ?W" "0 \<le> ?H" "3 * ?W * (?H + 96) \<le> 2 ^ 31" using t by (simp_all add: text_window_def)
  have c: "canvas ?W ?H" by (rule text_window_canvas [OF t])
  have L: "int L = ?W * 48" "0 < L" unfolding L_def using W by simp_all
  have n: "int n = max 0 (?H div 16 - 5)" unfolding n_def by simp
  have n16: "int n * 16 \<le> ?H" using n W(2) by linarith
  have "(int n + 6) * (?W * 48) = 3 * ?W * (int n * 16 + 96)" by (simp add: algebra_simps)
  also have "\<dots> \<le> 3 * ?W * (?H + 96)" using n16 W by (intro mult_left_mono) simp_all
  finally have "(int n + 6) * int L \<le> 2 ^ 31" using L(1) W(3) by simp
  then have fit: "(n + 6) * L \<le> 2 ^ 31"
    by (metis of_nat_le_iff of_nat_mult of_nat_add of_nat_numeral of_nat_power)
  have line: "word_of_int (?W * CHAR_HEIGHT * 3) = (of_nat L :: u32)"
  proof -
    have "?W * CHAR_HEIGHT * 3 = int L" using L(1) by simp
    then show ?thesis by (simp only: of_int_of_nat_eq)
  qed
  have cnt: "nat (gfx_get_logical_row ?H - SCROLL_ROWS) = n"
    using W(2) by (simp add: gfx_get_logical_row_def n_def)
  let ?m = "scroll_lines m ?b (5 * of_nat L) (of_nat L) n"
  note spec = scroll_lines_spec [OF L(2) fit, of m ?b]
  have moved: "pic ?b ?W ?m px py = (if py < int n * 16 then pic ?b ?W m px (py + 80) else pic ?b ?W m px py)"
    if p: "inside ?W ?H px py" for px py
  proof -
    have byte: "?m (pixel_at ?b ?W px py + word_of_int k) =
        m (pixel_at ?b ?W px (if py < int n * 16 then py + 80 else py) + word_of_int k)" if k: "0 \<le> k" "k < 3" for k
    proof -
      let ?a = "pixel_at ?b ?W px py + word_of_int k"
      have off: "uint (?a - ?b) = (py * ?W + px) * 3 + k" by (rule canvas.offset [OF c p k])
      have q: "0 \<le> px" "px < ?W" "0 \<le> py" using p by (simp_all add: inside_def)
      have lt: "unat (?a - ?b) < n * L \<longleftrightarrow> py < int n * 16"
      proof -
        have "unat (?a - ?b) < n * L \<longleftrightarrow> uint (?a - ?b) < int n * (?W * 48)"
          unfolding uint_nat L(1) [symmetric] of_nat_mult [symmetric] of_nat_less_iff ..
        also have "\<dots> \<longleftrightarrow> (py * ?W + px) * 3 + k < (int n * 16 * ?W) * 3" unfolding off by (simp add: algebra_simps)
        also have "\<dots> \<longleftrightarrow> py < int n * 16"
        proof
          assume a: "(py * ?W + px) * 3 + k < (int n * 16 * ?W) * 3"
          moreover have "A < B" if "(A + px) * 3 + k < B * 3" for A B :: int
          proof -
            have "(A + px) * 3 = A * 3 + px * 3" by simp
            then show ?thesis using that q k by linarith
          qed
          ultimately have "py * ?W < int n * 16 * ?W" by blast
          then show "py < int n * 16" using W(1) by simp
        next
          assume "py < int n * 16"
          then have "(py + 1) * ?W \<le> int n * 16 * ?W" using W(1) by (intro mult_right_mono) simp_all
          then have e: "py * ?W + ?W \<le> int n * 16 * ?W" by (simp add: distrib_right)
          have "(A + px) * 3 + k < B * 3" if "A + ?W \<le> B" for A B :: int
          proof -
            have "(A + px) * 3 = A * 3 + px * 3" by simp
            then show ?thesis using that q k by linarith
          qed
          from this [OF e] show "(py * ?W + px) * 3 + k < (int n * 16 * ?W) * 3" .
        qed
        finally show ?thesis .
      qed
      have up: "?a + 5 * of_nat L = pixel_at ?b ?W px (py + 80) + word_of_int k"
      proof -
        have "((py + 80) * ?W + px) * 3 = (py * ?W + px) * 3 + 5 * int L" unfolding L(1) by (simp add: algebra_simps)
        then have "(word_of_int (((py + 80) * ?W + px) * 3) :: u32) = word_of_int ((py * ?W + px) * 3) + 5 * of_nat L"
          by (simp only: of_int_add of_int_mult of_int_of_nat_eq of_int_numeral)
        then show ?thesis by (simp only: pixel_at_def add.assoc add.commute add.left_commute)
      qed
      show ?thesis unfolding spec lt up by simp
    qed
    from byte [of 0] byte [of 1] byte [of 2] show ?thesis unfolding pic_def pixel_def by simp
  qed
  have kept: "?m a = m a" if "outside ?b ?W ?H a" for a
  proof -
    have "int n * (?W * 48) = 3 * ?W * (int n * 16)" by (simp add: algebra_simps)
    also have "\<dots> \<le> 3 * ?W * ?H" using n16 W by (intro mult_left_mono) simp_all
    also have "\<dots> \<le> uint (a - ?b)" using that by (simp add: outside_def)
    finally have "int (n * L) \<le> int (unat (a - ?b))" by (simp add: L(1))
    then have "\<not> unat (a - ?b) < n * L" by (simp only: of_nat_le_iff not_less)
    then show ?thesis unfolding spec by simp
  qed
  have p1: "painted ?b ?W ?H m ?m (\<lambda>px py. if py < int n * 16 then pic ?b ?W m px (py + 80) else pic ?b ?W m px py)"
    using moved kept by (simp add: painted_def)
  obtain m' where m': "gfx_fill_rect ?m (Some w) 0 (?H - CHAR_HEIGHT * SCROLL_ROWS) ?W (CHAR_HEIGHT * SCROLL_ROWS) 0 = Some m'"
    and p2: "painted ?b ?W ?H ?m m' (\<lambda>px py. if in_rect 0 (?H - CHAR_HEIGHT * SCROLL_ROWS) ?W (CHAR_HEIGHT * SCROLL_ROWS) px py
      then 0 AND 0xFFFFFF else pic ?b ?W ?m px py)"
    using gfx_fill_rect_painted [OF c] by blast
  have "scroll_window m w = Some m'"
    unfolding scroll_window_def Let_def line cnt using m' by simp
  moreover have "painted ?b ?W ?H m m'
      (\<lambda>px py. if ?H - 80 \<le> py then 0 else if py < (?H div 16 - 5) * 16 then pic ?b ?W m px (py + 80)
        else pic ?b ?W m px py)"
    by (rule painted_trans [OF p1 p2]) (auto simp: in_rect_def inside_def n)
  ultimately show ?thesis by blast
qed

section \<open>The text cursor stays in the window\<close>

abbreviation cols :: "window \<Rightarrow> int" where "cols w \<equiv> win_w w div 8"
abbreviation rows :: "window \<Rightarrow> int" where "rows w \<equiv> win_h w div 16"

text \<open>A window with at least one column and six rows, that the list still has at its address.\<close>

definition geo :: "window \<Rightarrow> u32 \<times> int \<times> int \<times> u32" where
  "geo w = (w_addr w, win_w w, win_h w, w_buffer w)"

definition live :: "'s desktop \<Rightarrow> window \<Rightarrow> bool" where
  "live d w \<longleftrightarrow> map_option geo (window_ptr (ws d) (w_addr w)) = Some (geo w)"

definition roomy :: "window \<Rightarrow> bool" where
  "roomy w \<longleftrightarrow> text_window w \<and> 1 \<le> cols w \<and> 6 \<le> rows w"

definition text_cursor :: "window \<Rightarrow> inpinfo \<Rightarrow> bool" where
  "text_cursor w inp \<longleftrightarrow> 0 \<le> sint (cursor_offset_x inp) \<and> sint (cursor_offset_x inp) < cols w \<and>
     0 \<le> sint (cursor_offset_y inp) \<and> sint (cursor_offset_y inp) < rows w"

lemma logical [simp]:
  "text_window w \<Longrightarrow> gfx_get_logical_col (win_w w) = cols w" "text_window w \<Longrightarrow> gfx_get_logical_row (win_h w) = rows w"
  by (simp_all add: text_window_def gfx_get_logical_col_def gfx_get_logical_row_def)

lemma text_bounds:
  assumes "text_window w"
  shows "cols w < 2 ^ 31" and "rows w < 2 ^ 31"
proof -
  from assms have p: "0 < win_w w" "0 \<le> win_h w" "3 * win_w w * (win_h w + 96) \<le> 2 ^ 31"
    by (simp_all add: text_window_def)
  have "win_w w * 1 \<le> win_w w * (3 * (win_h w + 96))" using p by (intro mult_left_mono) simp_all
  then have "win_w w \<le> 2 ^ 31" using p(3) by (simp add: algebra_simps)
  then show "cols w < 2 ^ 31" by simp
  have "1 * (3 * (win_h w + 96)) \<le> win_w w * (3 * (win_h w + 96))" using p by (intro mult_right_mono) simp_all
  then have "3 * (win_h w + 96) \<le> 2 ^ 31" using p(3) by (simp add: algebra_simps)
  then show "rows w < 2 ^ 31" by simp
qed

lemma sint_small: "0 \<le> v \<Longrightarrow> v < 2 ^ 31 \<Longrightarrow> sint (word_of_int v :: u32) = v"
  using sint_of_nat [of "nat v"] by simp

lemma text_cursorI:
  assumes "text_window w" and "0 \<le> x" and "x < cols w" and "0 \<le> y" and "y < rows w"
  shows "text_cursor w (inp\<lparr>cursor_offset_x := word_of_int x, cursor_offset_y := word_of_int y\<rparr>)"
proof -
  have "sint (word_of_int x :: u32) = x" "sint (word_of_int y :: u32) = y"
    using text_bounds [OF assms(1)] assms by (intro sint_small; simp)+
  then show ?thesis using assms by (simp add: text_cursor_def)
qed

lemma text_cursor_geo: "geo v = geo w \<Longrightarrow> text_cursor v inp = text_cursor w inp"
  by (simp add: text_cursor_def geo_def)

lemma roomy_geo: "geo v = geo w \<Longrightarrow> roomy v = roomy w"
  by (simp add: roomy_def text_window_def geo_def)

lemma live_geo: "geo v = geo w \<Longrightarrow> live d v = live d w"
  by (simp add: live_def geo_def)

lemma set_memory_ws [simp]: "ws (set_memory d m) = ws d" "currentTask (kn (set_memory d m)) = currentTask (kn d)"
  by (simp_all add: set_memory_def)

lemma live_memory [simp]: "live (set_memory d m) w = live d w"
  by (simp add: live_def)

lemma fill_Some: "\<exists>m'. gfx_fill_rect m (Some w) x y width height c = Some m'"
  by (simp add: gfx_fill_rect_def)

lemma scroll_Some: "\<exists>m'. scroll_window m w = Some m'"
  unfolding scroll_window_def Let_def by (rule fill_Some)

text \<open>A character printed at a place above the last row.\<close>

lemma print_plain_ok:
  assumes r: "roomy w" and x: "0 \<le> x" "x < cols w" and y: "0 \<le> y" "y + 1 < rows w"
  shows "\<exists>inp' m. print_plain d w inp c x y color = Some (inp', set_memory d m) \<and> text_cursor w inp'"
proof -
  have t: "text_window w" "1 \<le> cols w" "6 \<le> rows w" using r by (simp_all add: roomy_def)
  obtain m1 where m1: "gfx_fill_rect (memory_of d) (Some w) (gfx_get_win_x x) (gfx_get_win_y y) CHAR_WIDTH CHAR_HEIGHT 0 = Some m1"
    using fill_Some by blast
  consider (bs) "c = 0x08" | (line) "c = 0x0A" | (other) "c \<noteq> 0x08" "c \<noteq> 0x0A" by blast
  then show ?thesis
  proof cases
    case bs
    define bx where "bx = (if x - 1 < 0 then if y - 1 < 0 then 0 else cols w - 1 else x - 1)"
    define b_y where "b_y = (if x - 1 < 0 then if y - 1 < 0 then 0 else y - 1 else y)"
    obtain m2 where m2: "gfx_fill_rect (memory_of d) (Some w) (gfx_get_win_x bx) (gfx_get_win_y b_y) CHAR_WIDTH CHAR_HEIGHT 0 = Some m2"
      using fill_Some by blast
    have "print_plain d w inp c x y color =
        Some (inp\<lparr>cursor_offset_x := word_of_int bx, cursor_offset_y := word_of_int b_y\<rparr>, set_memory d m2)"
      using bs m2 t y(1) by (simp add: print_plain_def bx_def b_y_def split: if_splits)
    moreover have "text_cursor w (inp\<lparr>cursor_offset_x := word_of_int bx, cursor_offset_y := word_of_int b_y\<rparr>)"
      using t x y by (intro text_cursorI) (auto simp: bx_def b_y_def)
    ultimately show ?thesis by blast
  next
    case line
    have e: "set_memory d (memory_of d) = d" by (simp add: set_memory_def memory_of_def)
    have "print_plain d w inp c x y color =
        Some (inp\<lparr>cursor_offset_x := word_of_int 0, cursor_offset_y := word_of_int (y + 1)\<rparr>, set_memory d (memory_of d))"
      using line t unfolding e by (simp add: print_plain_def)
    moreover have "text_cursor w (inp\<lparr>cursor_offset_x := word_of_int 0, cursor_offset_y := word_of_int (y + 1)\<rparr>)"
      using t x y by (intro text_cursorI) auto
    ultimately show ?thesis by blast
  next
    case other
    define nx where "nx = (if x + 1 \<ge> cols w then 0 else x + 1)"
    define ny where "ny = (if x + 1 \<ge> cols w then y + 1 else y)"
    have "\<exists>m. print_plain d w inp c x y color =
        Some (inp\<lparr>cursor_offset_x := word_of_int nx, cursor_offset_y := word_of_int ny\<rparr>, set_memory d m)"
      using other m1 t by (auto simp: print_plain_def nx_def ny_def)
    moreover have "text_cursor w (inp\<lparr>cursor_offset_x := word_of_int nx, cursor_offset_y := word_of_int ny\<rparr>)"
      using t x y by (intro text_cursorI) (auto simp: nx_def ny_def)
    ultimately show ?thesis by blast
  qed
qed

lemma find_geo:
  "map geo vs = map geo us \<Longrightarrow>
    map_option geo (find (\<lambda>w. w_addr w = a) vs) = map_option geo (find (\<lambda>w. w_addr w = a) us)"
proof (induction vs arbitrary: us)
  case Nil
  then show ?case by simp
next
  case (Cons v vs)
  then obtain u us' where u: "us = u # us'" "geo v = geo u" "map geo vs = map geo us'" by auto
  then have "w_addr v = w_addr u" by (simp add: geo_def)
  then show ?case using Cons.IH [OF u(3)] u by simp
qed

lemma live_list: "map geo (win_list (ws d')) = map geo (win_list (ws d)) \<Longrightarrow> live d' w = live d w"
  unfolding live_def window_ptr_def using find_geo by metis

lemma enqueue_list: "winsys_enqueue_to_winsys_listener st r op = Some st' \<Longrightarrow> win_list st' = win_list st"
  by (auto simp: winsys_enqueue_to_winsys_listener_def Let_def c_simps split: if_splits)

lemma ask_list:
  assumes "ask_for_key d w oy = Some d'"
  shows "map geo (win_list (ws d')) = map geo (win_list (ws d))"
proof -
  define m where "m = gfx_paint_char_bg (gfx_paint_char_bg (gfx_paint_char_bg (memory_of d) (font_buff (scr d)) w 0x2E
    (gfx_get_win_x 0) (gfx_get_win_y oy) 0 0xaa0000) (font_buff (scr d)) w 0x2E
    (gfx_get_win_x 1) (gfx_get_win_y oy) 0 0xaa0000) (font_buff (scr d)) w 0x2E
    (gfx_get_win_x 2) (gfx_get_win_y oy) 0 0xaa0000"
  from assms obtain r st evs st' m' where
    1: "winsys_display_window (ws d) r (Some w) = Some st"
    and 2: "set_window st (w_id w) (\<lambda>w. w\<lparr>events := evs\<rparr>) = Some st'"
    and 3: "d' = set_memory (set_ws (set_ws (set_memory d m) st) st') m'"
    unfolding ask_for_key_def Let_def m_def [symmetric] by (auto simp: c_simps)
  have l1: "win_list st = win_list (ws d)" using 1 by (simp add: winsys_display_window_def enqueue_list)
  obtain pre v post where s: "split_window (w_id w) (win_list st) = Some (pre, v, post)"
    and st': "st' = st\<lparr>win_list := pre @ v\<lparr>events := evs\<rparr> # post\<rparr>"
    using 2 by (auto simp: set_window_def c_simps split: prod.splits)
  have l2: "win_list (ws d) = pre @ v # post" using s l1 by (simp add: split_window_Some)
  have "geo (v\<lparr>events := evs\<rparr>) = geo v" by (simp add: geo_def)
  then show ?thesis unfolding 3 l2 by (simp add: st')
qed

text \<open>After the scrolling the row is above the last one.\<close>

lemma scrolling_ok:
  assumes r: "roomy w" and l: "live d w" and y: "0 \<le> y" "y < rows w"
    and s: "gfx_handle_scrolling d w inp y = Some (y', inp', d')"
  shows "0 \<le> y' \<and> y' + 1 < rows w \<and> live d' w"
proof (cases "y < rows w - 1")
  case True
  then show ?thesis using r l y s by (auto simp: gfx_handle_scrolling_def roomy_def)
next
  case False
  then obtain d1 m where "(if get_current_task (kn d) \<noteq> 0 then ask_for_key d w y else Some d) = Some d1"
    "y' = y - 5" "d' = set_memory d1 m"
    using r s by (auto simp: gfx_handle_scrolling_def roomy_def c_simps)
  moreover from this(1) have "live d1 w"
  proof (cases "get_current_task (kn d) \<noteq> 0")
    case True
    then have "ask_for_key d w y = Some d1" using \<open>(if _ then _ else _) = Some d1\<close> by simp
    from live_list [OF ask_list [OF this]] l show ?thesis by simp
  next
    case False
    then show ?thesis using \<open>(if _ then _ else _) = Some d1\<close> l by simp
  qed
  ultimately show ?thesis using False y r by (simp add: roomy_def)
qed

lemma scrolling_returns:
  "currentTask (kn d) = 0 \<Longrightarrow> \<exists>y' inp' m. gfx_handle_scrolling d w inp y = Some (y', inp', set_memory d m)"
  using scroll_Some [of "memory_of d" w]
  by (auto simp: gfx_handle_scrolling_def get_current_task_def set_memory_def memory_of_def intro: exI [of _ "heap_mem (kh (kn d))"])

definition print_ok :: "'s desktop \<Rightarrow> window \<Rightarrow> (inpinfo \<times> 's desktop) option \<Rightarrow> bool" where
  "print_ok d w r \<longleftrightarrow>
     (\<forall>inp' d'. r = Some (inp', d') \<longrightarrow> text_cursor w inp' \<and> live d' w \<and>
        (currentTask (kn d) = 0 \<longrightarrow> currentTask (kn d') = 0)) \<and>
     (currentTask (kn d) = 0 \<longrightarrow> r \<noteq> None)"

lemma scrolling_task:
  "currentTask (kn d) = 0 \<Longrightarrow> gfx_handle_scrolling d w inp y = Some (y', inp', d') \<Longrightarrow> currentTask (kn d') = 0"
  using scrolling_returns [of d w inp y] by auto

lemma print_simple:
  assumes r: "roomy w" and l: "live d w" and c: "text_cursor w inp" and n: "c \<noteq> 0x09"
  shows "print_ok d w (print_char_fuel n d w inp c (- 1) (- 1) color)"
proof (cases "c = 27 \<or> c = 0x0D")
  case True
  then show ?thesis using l c by (cases n) (simp_all add: print_ok_def)
next
  case False
  let ?x = "sint (cursor_offset_x inp)" and ?y = "sint (cursor_offset_y inp)"
  let ?col = "if color = 0 then 0xF else color"
  have xy: "0 \<le> ?x" "?x < cols w" "0 \<le> ?y" "?y < rows w" using c by (simp_all add: text_cursor_def)
  have e: "print_char_fuel n d w inp c (- 1) (- 1) color = do {
      (y, inp, d) \<leftarrow> gfx_handle_scrolling d w inp ?y;
      v \<leftarrow> window_ptr (ws d) (w_addr w);
      print_plain d v inp c ?x y ?col }"
    using False n by (cases n) (simp_all add: print_at_def)
  show ?thesis
  proof (cases "gfx_handle_scrolling d w inp ?y")
    case None
    then have "currentTask (kn d) \<noteq> 0" using scrolling_returns [of d w inp ?y] by auto
    then show ?thesis unfolding e None by (simp add: print_ok_def)
  next
    case (Some t)
    obtain y inp1 d1 where t: "t = (y, inp1, d1)" by (cases t) auto
    note s = scrolling_ok [OF r l xy(3,4) Some [unfolded t]]
    from s have "live d1 w" by blast
    then obtain v where v: "window_ptr (ws d1) (w_addr w) = Some v" "geo v = geo w" unfolding live_def by blast
    have "win_w v = win_w w" "win_h v = win_h w" using v(2) by (simp_all add: geo_def)
    then have rv: "roomy v" "cols v = cols w" "rows v = rows w" using r roomy_geo [OF v(2)] by simp_all
    have b: "?x < cols v" "0 \<le> y" "y + 1 < rows v" using s xy rv by simp_all
    obtain inp2 m where p: "print_plain d1 v inp1 c ?x y ?col = Some (inp2, set_memory d1 m)" "text_cursor v inp2"
      using print_plain_ok [OF rv(1) xy(1) b] by blast
    have "print_char_fuel n d w inp c (- 1) (- 1) color = Some (inp2, set_memory d1 m)"
      unfolding e Some t using v(1) p(1) by simp
    moreover have "text_cursor w inp2" using p(2) text_cursor_geo [OF v(2)] by simp
    moreover have "currentTask (kn d) = 0 \<longrightarrow> currentTask (kn d1) = 0" using scrolling_task Some t by blast
    ultimately show ?thesis using \<open>live d1 w\<close> by (simp add: print_ok_def)
  qed
qed

lemma print_ok_bind:
  assumes "print_ok d w r" and "\<And>inp' d'. text_cursor w inp' \<Longrightarrow> live d' w \<Longrightarrow> print_ok d' w (f inp' d')"
  shows "print_ok d w (do { (inp', d') \<leftarrow> r; f inp' d' })"
proof (cases r)
  case None
  with assms(1) show ?thesis by (simp add: print_ok_def)
next
  case (Some t)
  obtain inp' d' where t: "t = (inp', d')" by (cases t)
  with assms(1) Some have "text_cursor w inp'" "live d' w" "currentTask (kn d) = 0 \<longrightarrow> currentTask (kn d') = 0"
    by (simp_all add: print_ok_def)
  with assms(2) [of inp' d'] Some t show ?thesis unfolding print_ok_def by auto
qed

lemma print_char_ok:
  assumes r: "roomy w" and l: "live d w" and c: "text_cursor w inp"
  shows "print_ok d w (gfx_print_char d w inp c (- 1) (- 1) color)"
proof (cases "c = 0x09")
  case False
  then show ?thesis unfolding gfx_print_char_def by (rule print_simple [OF r l c])
next
  case True
  let ?y = "sint (cursor_offset_y inp)"
  have y: "0 \<le> ?y" "?y < rows w" using c by (simp_all add: text_cursor_def)
  define four where "four v d inp = do {
      (inp, d) \<leftarrow> print_char_fuel 0 d v inp 0x20 (- 1) (- 1) 0xFF;
      (inp, d) \<leftarrow> print_char_fuel 0 d v inp 0x20 (- 1) (- 1) 0xFF;
      (inp, d) \<leftarrow> print_char_fuel 0 d v inp 0x20 (- 1) (- 1) 0xFF;
      print_char_fuel 0 d v inp 0x20 (- 1) (- 1) 0xFF }" for v and d :: "'a desktop" and inp
  have e: "gfx_print_char d w inp c (- 1) (- 1) color = do {
      (y, inp, d) \<leftarrow> gfx_handle_scrolling d w inp ?y;
      v \<leftarrow> window_ptr (ws d) (w_addr w);
      four v d inp }"
    using True unfolding four_def gfx_print_char_def One_nat_def by (simp add: print_at_def)
  have one: "print_ok d v (print_char_fuel 0 d v inp 0x20 (- 1) (- 1) 0xFF)"
    if "roomy v" "live d v" "text_cursor v inp" for v inp and d :: "'a desktop"
    using that by (intro print_simple) simp_all
  have four: "print_ok d v (four v d inp)" if "roomy v" "live d v" "text_cursor v inp" for v inp and d :: "'a desktop"
    unfolding four_def using that by (intro print_ok_bind one)
  show ?thesis
  proof (cases "gfx_handle_scrolling d w inp ?y")
    case None
    then have "currentTask (kn d) \<noteq> 0" using scrolling_returns [of d w inp ?y] by auto
    then show ?thesis unfolding e None by (simp add: print_ok_def)
  next
    case (Some t)
    obtain y' inp1 d1 where t: "t = (y', inp1, d1)" by (cases t) auto
    have l1: "live d1 w" using scrolling_ok [OF r l y Some [unfolded t]] by blast
    then obtain v where v: "window_ptr (ws d1) (w_addr w) = Some v" "geo v = geo w" unfolding live_def by blast
    have i1: "cursor_offset_x inp1 = cursor_offset_x inp" "cursor_offset_y inp1 = cursor_offset_y inp"
      using Some t by (auto simp: gfx_handle_scrolling_def c_simps split: if_splits)
    have "text_cursor w inp1" using c by (simp add: text_cursor_def i1)
    then have "text_cursor v inp1" using text_cursor_geo [OF v(2)] by blast
    moreover have "roomy v" using r roomy_geo [OF v(2)] by blast
    moreover have "live d1 v" using l1 live_geo [OF v(2), of d1] by blast
    ultimately have "print_ok d1 v (four v d1 inp1)" by (intro four)
    then have ok: "print_ok d1 w (four v d1 inp1)"
      unfolding print_ok_def live_geo [OF v(2)] text_cursor_geo [OF v(2)] .
    have f: "gfx_print_char d w inp c (- 1) (- 1) color = four v d1 inp1"
      unfolding e Some t using v(1) by simp
    have "currentTask (kn d) = 0 \<longrightarrow> currentTask (kn d1) = 0" using scrolling_task Some t by blast
    with ok show ?thesis unfolding f print_ok_def by simp
  qed
qed

lemma print_string_ok:
  "roomy w \<Longrightarrow> live d w \<Longrightarrow> text_cursor w inp \<Longrightarrow> print_ok d w (gfx_print_color d w inp s color)"
proof (induction s arbitrary: d inp)
  case Nil
  then show ?case by (simp add: print_ok_def)
next
  case (Cons c s)
  show ?case unfolding gfx_print_color.simps
    by (rule print_ok_bind [OF print_char_ok [OF Cons.prems]]) (rule Cons.IH [OF Cons.prems(1)])
qed

text \<open>
  A character's colour is the signed byte: white arrives as \<^verbatim>\<open>0xFFFFFFFF\<close>, and each pixel of the
  glyph sets the first byte of the pixel to its right.
\<close>

lemma or_pixel_spills: "or_pixel m a (word_of_int (sint (0xFF :: u8))) (a + 3) = 0xFF"
proof -
  have c: "(word_of_int (sint (0xFF :: u8)) :: u32) = 0xFFFFFFFF" by simp
  have "v OR (0xFFFFFFFF :: u32) = 0xFFFFFFFF" for v
  proof -
    have "(0xFFFFFFFF :: u32) = - 1" by simp
    then show ?thesis by (simp only: bit.disj_one_right)
  qed
  then show ?thesis unfolding or_pixel_def c Let_def store32_def by simp
qed

section \<open>Properties\<close>

text \<open>
  Filling a rectangle of a window, wherever it lies, sets exactly the pixels of the window's
  buffer that are inside it, and changes no byte outside the buffer.
\<close>

theorem gfx_fill_rect_exact:
  assumes "0 < win_w w" and "0 \<le> win_h w" and "3 * win_w w * win_h w \<le> 2 ^ 32"
  shows "\<exists>m'. gfx_fill_rect m (Some w) x y width height c = Some m' \<and>
    painted (w_buffer w) (win_w w) (win_h w) m m'
      (\<lambda>px py. if in_rect x y width height px py then c AND 0xFFFFFF else pic (w_buffer w) (win_w w) m px py)"
  using gfx_fill_rect_painted [of w m x y width height c] assms by (simp add: canvas_def)

theorem gfx_fill_rect_exact_witness:
  "\<exists>m'. gfx_fill_rect (\<lambda>a. 0) (Some (low_window 1 0 40)) (- 5) 70 20 30 0x112233 = Some m' \<and>
    pic 0x100000 100 m' 14 79 = 0x112233"
proof -
  let ?w = "low_window 1 0 40"
  have g: "win_w ?w = 100" "win_h ?w = 80" "w_buffer ?w = 0x100000"
    by (simp_all add: low_window_def sample_window_def)
  obtain m' where "gfx_fill_rect (\<lambda>a. 0) (Some ?w) (- 5) 70 20 30 0x112233 = Some m'"
    and p: "painted 0x100000 100 80 (\<lambda>a. 0) m'
      (\<lambda>px py. if in_rect (- 5) 70 20 30 px py then 0x112233 AND 0xFFFFFF else pic 0x100000 100 (\<lambda>a. 0) px py)"
    using gfx_fill_rect_exact [of ?w "\<lambda>a. 0" "- 5" 70 20 30 "0x112233"] unfolding g by auto
  moreover have "inside 100 80 14 79" by (simp add: inside_def)
  from painted_pic [OF p this] have "pic 0x100000 100 m' 14 79 = 0x112233" by (simp add: in_rect_def)
  ultimately show ?thesis by blast
qed

text \<open>
  C26: scrolling moves every line of the text up by five lines and leaves the last five lines of the
  window black; what is below the last whole line and above those five lines stays.
\<close>

theorem scroll_exact:
  assumes "text_window w"
  shows "\<exists>m'. scroll_window m w = Some m' \<and>
    painted (w_buffer w) (win_w w) (win_h w) m m'
      (\<lambda>px py. if win_h w - 80 \<le> py then 0
        else if py < (win_h w div 16 - 5) * 16 then pic (w_buffer w) (win_w w) m px (py + 80)
        else pic (w_buffer w) (win_w w) m px py)"
  by (rule scroll_painted [OF assms])

theorem scroll_exact_witness:
  "\<exists>m'. scroll_window (\<lambda>a. ucast a) ((low_window 1 0 40)\<lparr>win_h := 160\<rparr>) = Some m' \<and>
    pic 0x100000 100 m' 7 3 = pic 0x100000 100 (\<lambda>a. ucast a) 7 83 \<and> pic 0x100000 100 m' 7 90 = 0"
proof -
  let ?w = "(low_window 1 0 40)\<lparr>win_h := 160\<rparr>"
  have g: "win_w ?w = 100" "win_h ?w = 160" "w_buffer ?w = 0x100000"
    by (simp_all add: low_window_def sample_window_def)
  have "text_window ?w" by (simp add: text_window_def g)
  from scroll_exact [OF this, of "\<lambda>a. ucast a"] obtain m' where
    "scroll_window (\<lambda>a. ucast a) ?w = Some m'"
    and p: "painted 0x100000 100 160 (\<lambda>a. ucast a) m' (\<lambda>px py. if 160 - 80 \<le> py then 0
        else if py < (160 div 16 - 5) * 16 then pic 0x100000 100 (\<lambda>a. ucast a) px (py + 80)
        else pic 0x100000 100 (\<lambda>a. ucast a) px py)" unfolding g by blast
  moreover have "inside 100 160 7 3" "inside 100 160 7 90" by (simp_all add: inside_def)
  from this [THEN painted_pic [OF p]]
  have "pic 0x100000 100 m' 7 3 = pic 0x100000 100 (\<lambda>a. ucast a) 7 83" "pic 0x100000 100 m' 7 90 = 0" by simp_all
  ultimately show ?thesis by blast
qed


definition sample_inp :: inpinfo where
  "sample_inp = \<lparr>cursor_input_row = 0, cursor_input_col = 0, cursor_offset_x = 11, cursor_offset_y = 9,
     is_taking_input = False, input_buffer_index = 0, input_buffer_limit = 0, input_buffer = 0, did_scroll = False\<rparr>"


end
