(* ===== verification/Tmpfs.thy ===== *)
theory Tmpfs
  imports Fat12
begin

text \<open>
  The file system in memory, \<^verbatim>\<open>src/drivers/tmpfsys.c\<close>: 256 blocks of 4096 bytes from
  \<^verbatim>\<open>TFSYS_BASE\<close> on, each a structure of 60 bytes and 4036 bytes of data.  A pointer to a block is
  the block's number, a pointer to a directory record its number within the directory's block.
  The data of a file are its \<open>bytes\<close>; those of a directory are 91 records of 44 bytes.  \<open>None\<close> is a
  search that leaves the 256 blocks or the 91 records, the use of a null or an uninitialised
  pointer, a loop that does not end, and the use of a directory's data as bytes or of a file's as
  records.  The structures that \<^verbatim>\<open>kmalloc\<close> provides while a block is built, and that are freed
  again before the function returns, are local values; \<open>heap_junk\<close> is what their name field holds
  before it is written.
\<close>

abbreviation TFSYS_BLOCKS :: nat where "TFSYS_BLOCKS \<equiv> 256"
abbreviation DATA_SIZE :: nat where "DATA_SIZE \<equiv> 4036"
abbreviation DIR_RECORDS :: nat where "DIR_RECORDS \<equiv> 91"

datatype block_type = File | SubFile | Dir

record dir_record =
  rfid :: u32
  rname :: buffer
  roccupied :: bool
  next_record :: "nat option"

record block_metadata =
  parent_block :: "nat option"
  child_block :: "nat option"
  btype :: block_type
  bfid :: u32
  bid :: nat
  data_pointer :: nat
  occupied :: bool
  bname :: buffer
  bytes :: "u8 list"
  records :: "dir_record list"

record tmpfs =
  blocks :: "block_metadata list"
  heap_junk :: buffer

definition zero_record :: dir_record where
  "zero_record = \<lparr>rfid = 0, rname = replicate 32 0, roccupied = False, next_record = None\<rparr>"

definition zero_block :: block_metadata where
  "zero_block = \<lparr>parent_block = None, child_block = None, btype = File, bfid = 0, bid = 0, data_pointer = 0,
     occupied = False, bname = replicate 32 0, bytes = replicate DATA_SIZE 0, records = replicate DIR_RECORDS zero_record\<rparr>"

fun first_index :: "('a \<Rightarrow> bool) \<Rightarrow> 'a list \<Rightarrow> nat option" where
  "first_index P [] = None"
| "first_index P (x # xs) = (if P x then Some 0 else map_option Suc (first_index P xs))"

definition get_block :: "tmpfs \<Rightarrow> nat \<Rightarrow> block_metadata option" where
  "get_block st i = aget (blocks st) i"

definition set_block :: "tmpfs \<Rightarrow> nat \<Rightarrow> block_metadata \<Rightarrow> tmpfs option" where
  "set_block st i b = do { bs \<leftarrow> aset (blocks st) i b; Some (st\<lparr>blocks := bs\<rparr>) }"

section \<open>Searching the blocks\<close>

definition get_faddr_by_id :: "tmpfs \<Rightarrow> u32 \<Rightarrow> nat option" where
  "get_faddr_by_id st fid = first_index (\<lambda>b. \<not> (bfid b \<noteq> fid \<or> btype b = SubFile)) (blocks st)"

definition get_free_block :: "tmpfs \<Rightarrow> nat option" where
  "get_free_block st = first_index (\<lambda>b. \<not> occupied b) (blocks st)"

text \<open>The number of files and directories in front of the first free block.\<close>

fun next_fid_loop :: "block_metadata list \<Rightarrow> u32 \<Rightarrow> u32" where
  "next_fid_loop [] fid = fid"
| "next_fid_loop (b # bs) fid =
     (if occupied b then next_fid_loop bs (if btype b = Dir \<or> btype b = File then fid + 1 else fid) else fid)"

definition get_next_fid :: "tmpfs \<Rightarrow> u32" where
  "get_next_fid st = next_fid_loop (blocks st) 0"

definition dir_records :: "tmpfs \<Rightarrow> nat \<Rightarrow> dir_record list option" where
  "dir_records st i = do { b \<leftarrow> get_block st i; guard (btype b = Dir); Some (records b) }"

section \<open>Names\<close>

definition name_field :: "buffer \<Rightarrow> buffer \<Rightarrow> buffer option" where
  "name_field junk name = do {
     n \<leftarrow> strlen name;
     Some (take (min 31 n) name @ [0] @ drop (min 31 n + 1) junk) }"

definition strcpy_field :: "u8 list \<Rightarrow> buffer \<Rightarrow> buffer" where
  "strcpy_field s field = s @ [0] @ drop (length s + 1) field"

section \<open>Directories\<close>

text \<open>A new record takes ten bytes of the name, and the place after the first record in the list.\<close>

definition add_record_to_dir :: "tmpfs \<Rightarrow> u32 \<Rightarrow> buffer \<Rightarrow> nat \<Rightarrow> tmpfs option" where
  "add_record_to_dir st fid name p = do {
     b \<leftarrow> get_block st p;
     rs \<leftarrow> dir_records st p;
     pivot \<leftarrow> first_index (\<lambda>r. \<not> roccupied r) rs;
     base \<leftarrow> aget rs 0;
     let record = \<lparr>rfid = fid, rname = take 10 name @ drop 10 (heap_junk st), roccupied = True,
                   next_record = next_record base\<rparr>;
     rs \<leftarrow> aset rs 0 (base\<lparr>next_record := Some pivot\<rparr>);
     rs \<leftarrow> aset rs pivot record;
     set_block st p (b\<lparr>records := rs\<rparr>) }"

partial_function (option) find_record ::
  "dir_record list \<Rightarrow> u32 \<Rightarrow> nat option \<Rightarrow> nat option \<Rightarrow> (nat \<times> nat option) option" where
  "find_record rs r prev base = do {
     i \<leftarrow> base;
     x \<leftarrow> aget rs i;
     if rfid x \<noteq> r then find_record rs r (Some i) (next_record x) else Some (i, prev) }"

definition remove_record_from_dir :: "tmpfs \<Rightarrow> u32 \<Rightarrow> u32 \<Rightarrow> tmpfs option" where
  "remove_record_from_dir st r_id dir_id = do {
     d \<leftarrow> get_faddr_by_id st dir_id;
     b \<leftarrow> get_block st d;
     rs \<leftarrow> dir_records st d;
     (i, prev) \<leftarrow> find_record rs r_id None (Some 0);
     p \<leftarrow> prev;
     x \<leftarrow> aget rs i;
     y \<leftarrow> aget rs p;
     rs \<leftarrow> aset rs p (y\<lparr>next_record := next_record x\<rparr>);
     rs \<leftarrow> aset rs i zero_record;
     set_block st d (b\<lparr>records := rs\<rparr>) }"

section \<open>Creating blocks\<close>

definition create_block :: "tmpfs \<Rightarrow> nat \<Rightarrow> block_type \<Rightarrow> buffer \<Rightarrow> (nat \<times> tmpfs) option" where
  "create_block st parent type name = do {
     pb \<leftarrow> get_block st parent;
     nm \<leftarrow> name_field (heap_junk st) name;
     let fid = (if type = SubFile then bfid pb else get_next_fid st);
     i \<leftarrow> get_free_block st;
     st \<leftarrow> set_block st i (zero_block\<lparr>parent_block := Some parent, btype := type, bfid := fid, bid := i,
             occupied := True, bname := nm\<rparr>);
     st \<leftarrow> (if type = File \<or> type = Dir then add_record_to_dir st fid nm parent else Some st);
     st \<leftarrow> (if type = Dir then do {
             st \<leftarrow> add_record_to_dir st fid (strcpy_field [46] nm) i;
             pb \<leftarrow> get_block st parent;
             add_record_to_dir st (bfid pb) (strcpy_field [46, 46] (bname pb)) i } else Some st);
     Some (i, st) }"

definition create_base_dir :: "tmpfs \<Rightarrow> buffer \<Rightarrow> tmpfs option" where
  "create_base_dir st name = do {
     nm \<leftarrow> name_field (heap_junk st) name;
     b \<leftarrow> get_block st 0;
     st \<leftarrow> set_block st 0 (b\<lparr>parent_block := Some 0, child_block := None, btype := Dir, bfid := 0, bid := 0,
             data_pointer := 0, occupied := True, bname := nm\<rparr>);
     st \<leftarrow> add_record_to_dir st 0 (strcpy_field [46] nm) 0;
     add_record_to_dir st 0 (strcpy_field [46, 46] nm) 0 }"

definition tfsys_init :: "tmpfs \<Rightarrow> tmpfs option" where
  "tfsys_init st = create_base_dir (st\<lparr>blocks := map (\<lambda>b. b\<lparr>occupied := False\<rparr>) (blocks st)\<rparr>) [92, 0]"

definition create_dir :: "tmpfs \<Rightarrow> u32 \<Rightarrow> buffer \<Rightarrow> (u32 \<times> tmpfs) option" where
  "create_dir st parent_fid name = do {
     p \<leftarrow> get_faddr_by_id st parent_fid;
     (i, st) \<leftarrow> create_block st p Dir name;
     b \<leftarrow> get_block st i;
     Some (bfid b, st) }"

definition create_file :: "tmpfs \<Rightarrow> u32 \<Rightarrow> buffer \<Rightarrow> (u32 \<times> tmpfs) option" where
  "create_file st parent_fid name = do {
     p \<leftarrow> get_faddr_by_id st parent_fid;
     (i, st) \<leftarrow> create_block st p File name;
     b \<leftarrow> get_block st i;
     Some (bfid b, st) }"

definition mkdir :: "tmpfs \<Rightarrow> buffer \<Rightarrow> u32 \<Rightarrow> tmpfs option" where
  "mkdir st name parent_fid = do { (f, st) \<leftarrow> create_dir st parent_fid name; Some st }"

definition touch :: "tmpfs \<Rightarrow> buffer \<Rightarrow> u32 \<Rightarrow> tmpfs option" where
  "touch st name parent_fid = do { (f, st) \<leftarrow> create_file st parent_fid name; Some st }"

text \<open>A file grows by a block at the end of its chain.\<close>

partial_function (option) last_block :: "tmpfs \<Rightarrow> nat \<Rightarrow> nat option" where
  "last_block st i = do {
     b \<leftarrow> get_block st i;
     if child_block b = None then Some i else do { c \<leftarrow> child_block b; last_block st c } }"

definition extend_file :: "tmpfs \<Rightarrow> u32 \<Rightarrow> tmpfs option" where
  "extend_file st fid = do {
     i \<leftarrow> get_faddr_by_id st fid;
     l \<leftarrow> last_block st i;
     (j, st) \<leftarrow> create_block st l SubFile [0];
     b \<leftarrow> get_block st l;
     set_block st l (b\<lparr>child_block := Some j\<rparr>) }"

section \<open>Freeing blocks\<close>

text \<open>A block of a file leaves the chain.\<close>

definition unlink_block :: "tmpfs \<Rightarrow> block_metadata \<Rightarrow> tmpfs option" where
  "unlink_block st b = do {
     p \<leftarrow> parent_block b;
     pb \<leftarrow> get_block st p;
     st \<leftarrow> set_block st p (pb\<lparr>child_block := child_block b\<rparr>);
     case child_block b of
       None \<Rightarrow> Some st
     | Some c \<Rightarrow> do {
         cb \<leftarrow> get_block st c;
         set_block st c (cb\<lparr>parent_block := Some p\<rparr>) } }"

text \<open>
  The loops over the blocks of a file and over the records of a directory; the first argument is
  fuel for the recursion.
\<close>

fun free_block_fuel :: "nat \<Rightarrow> tmpfs \<Rightarrow> nat \<Rightarrow> (bool \<times> tmpfs) option"
  and free_children :: "nat \<Rightarrow> tmpfs \<Rightarrow> nat option \<Rightarrow> tmpfs option"
  and free_records :: "nat \<Rightarrow> tmpfs \<Rightarrow> nat \<Rightarrow> nat option \<Rightarrow> tmpfs option" where
  "free_block_fuel 0 st i = None"
| "free_block_fuel (Suc n) st i =
     (if i = 0 then Some (False, st)
      else do {
        b \<leftarrow> get_block st i;
        st \<leftarrow> (if btype b = File \<or> btype b = Dir then do {
                p \<leftarrow> parent_block b;
                pb \<leftarrow> get_block st p;
                st \<leftarrow> remove_record_from_dir st (bfid b) (bfid pb);
                if btype b = File then free_children n st (child_block b) else free_records n st i (Some 0) }
              else Some st);
        b \<leftarrow> get_block st i;
        st \<leftarrow> (if btype b = SubFile then unlink_block st b else Some st);
        st \<leftarrow> set_block st i zero_block;
        Some (True, st) })"
| "free_children n st None = Some st"
| "free_children 0 st (Some c) = None"
| "free_children (Suc n) st (Some c) = do {
     b \<leftarrow> get_block st c;
     (_, st) \<leftarrow> free_block_fuel n st (bid b);
     free_children n st (child_block b) }"
| "free_records n st i None = Some st"
| "free_records 0 st i (Some r) = None"
| "free_records (Suc n) st i (Some r) = do {
     rs \<leftarrow> dir_records st i;
     x \<leftarrow> aget rs r;
     dot \<leftarrow> strcmp (rname x) [46, 0];
     dots \<leftarrow> strcmp (rname x) [46, 46, 0];
     st \<leftarrow> (if \<not> dot \<and> \<not> dots then do {
             j \<leftarrow> get_faddr_by_id st (rfid x);
             b \<leftarrow> get_block st j;
             (_, st) \<leftarrow> free_block_fuel n st (bid b);
             Some st } else Some st);
     rs \<leftarrow> dir_records st i;
     x \<leftarrow> aget rs r;
     free_records n st i (next_record x) }"

definition free_block :: "tmpfs \<Rightarrow> nat \<Rightarrow> (bool \<times> tmpfs) option" where
  "free_block = free_block_fuel 30000"

partial_function (option) reset_loop :: "tmpfs \<Rightarrow> nat \<Rightarrow> tmpfs option" where
  "reset_loop st i = do {
     b \<leftarrow> get_block st i;
     if child_block b = None then Some st
     else do {
       c \<leftarrow> child_block b;
       cb \<leftarrow> get_block st c;
       (_, st) \<leftarrow> free_block st (bid cb);
       reset_loop st i } }"

definition reset_file :: "tmpfs \<Rightarrow> u32 \<Rightarrow> tmpfs option" where
  "reset_file st fid = do {
     i \<leftarrow> get_faddr_by_id st fid;
     st \<leftarrow> reset_loop st i;
     b \<leftarrow> get_block st i;
     set_block st i (b\<lparr>data_pointer := 0\<rparr>) }"

section \<open>Reading and writing\<close>

partial_function (option) skip_full :: "tmpfs \<Rightarrow> nat \<Rightarrow> (nat \<times> tmpfs) option" where
  "skip_full st i = do {
     b \<leftarrow> get_block st i;
     if data_pointer b = DATA_SIZE then do {
       st \<leftarrow> (if child_block b = None then extend_file st (bfid b) else Some st);
       b \<leftarrow> get_block st i;
       c \<leftarrow> child_block b;
       skip_full st c }
     else Some (i, st) }"

definition put_byte :: "tmpfs \<Rightarrow> nat \<Rightarrow> u8 \<Rightarrow> (nat \<times> tmpfs) option" where
  "put_byte st i c = do {
     b \<leftarrow> get_block st i;
     guard (btype b \<noteq> Dir);
     bs \<leftarrow> aset (bytes b) (data_pointer b) c;
     st \<leftarrow> set_block st i (b\<lparr>bytes := bs, data_pointer := data_pointer b + 1\<rparr>);
     if data_pointer b + 1 = DATA_SIZE then do {
       st \<leftarrow> extend_file st (bfid b);
       b \<leftarrow> get_block st i;
       c \<leftarrow> child_block b;
       Some (c, st) }
     else Some (i, st) }"

fun write_loop :: "tmpfs \<Rightarrow> nat \<Rightarrow> fobj \<Rightarrow> u8 list \<Rightarrow> nat \<Rightarrow> (fobj \<times> tmpfs) option" where
  "write_loop st i file Buffer 0 = Some (file, st)"
| "write_loop st i file Buffer (Suc n) = do {
     c \<leftarrow> aget Buffer 0;
     (i, st) \<leftarrow> put_byte st i c;
     write_loop st i (file\<lparr>position := position file + 1\<rparr>) (tl Buffer) n }"

text \<open>The length that is added to the file at the end is what is left of it: nothing.\<close>

definition tfsys_write :: "tmpfs \<Rightarrow> fobj \<Rightarrow> u8 list \<Rightarrow> nat \<Rightarrow> (fobj \<times> tmpfs) option" where
  "tfsys_write st file Buffer Length = do {
     st \<leftarrow> (if position file = 0 then reset_file st (f_id file) else Some st);
     i \<leftarrow> get_faddr_by_id st (f_id file);
     (i, st) \<leftarrow> skip_full st i;
     (file, st) \<leftarrow> write_loop st i file Buffer Length;
     Some (file\<lparr>fileLength := fileLength file + 0\<rparr>, st) }"

partial_function (option) read_loop ::
  "tmpfs \<Rightarrow> nat option \<Rightarrow> nat \<Rightarrow> nat \<Rightarrow> fobj \<Rightarrow> u8 list \<Rightarrow> (nat option \<times> fobj \<times> u8 list) option" where
  "read_loop st meta r len file out =
     (if meta = None then Some (None, file, out)
      else do {
          i \<leftarrow> meta;
          b \<leftarrow> get_block st i;
          if r < data_pointer b \<and> 0 < len then do {
            guard (btype b \<noteq> Dir);
            c \<leftarrow> aget (bytes b) r;
            let hit = (position file \<le> of_nat r);
            read_loop st (if r + 1 = DATA_SIZE then child_block b else meta) (if r + 1 = DATA_SIZE then 0 else r + 1)
              (if hit then len - 1 else len) (if hit then file\<lparr>position := position file + 1\<rparr> else file)
              (if hit then out @ [c] else out) }
          else Some (meta, file, out) })"

definition tfsys_read :: "tmpfs \<Rightarrow> fobj \<Rightarrow> nat \<Rightarrow> (u8 list \<times> fobj) option" where
  "tfsys_read st file Length = do {
     i \<leftarrow> get_faddr_by_id st (f_id file);
     let stop = position file + of_nat Length;
     let file1 = (if fileLength file \<le> stop then file\<lparr>eof := 1\<rparr> else file);
     if fileLength file < stop then Some ([], file1)
     else do {
       (meta, file2, out) \<leftarrow> read_loop st (Some i) 0 Length file1 [];
       e \<leftarrow> (case meta of None \<Rightarrow> Some True | Some i \<Rightarrow> do { b \<leftarrow> get_block st i; Some (data_pointer b = 0) });
       Some (out, if e then file2\<lparr>eof := 1\<rparr> else file2) } }"

partial_function (option) size_loop :: "tmpfs \<Rightarrow> nat option \<Rightarrow> u32 \<Rightarrow> u32 option" where
  "size_loop st meta n =
     (if meta = None then Some n
      else do { i \<leftarrow> meta; b \<leftarrow> get_block st i; size_loop st (child_block b) (n + of_nat (data_pointer b)) })"

definition file_size :: "tmpfs \<Rightarrow> u32 \<Rightarrow> u32 option" where
  "file_size st fid = do { i \<leftarrow> get_faddr_by_id st fid; size_loop st (Some i) 0 }"

text \<open>The size in units of 1024 bytes, four for each block.\<close>

partial_function (option) fsize_loop :: "tmpfs \<Rightarrow> nat option \<Rightarrow> u32 \<Rightarrow> u32 option" where
  "fsize_loop st meta n =
     (if meta = None then Some n
      else do { i \<leftarrow> meta; b \<leftarrow> get_block st i; fsize_loop st (child_block b) (n + 4) })"

definition get_fsize :: "tmpfs \<Rightarrow> u32 \<Rightarrow> u32 option" where
  "get_fsize st fid = do { i \<leftarrow> get_faddr_by_id st fid; fsize_loop st (Some i) 0 }"

partial_function (option) nth_char_loop :: "tmpfs \<Rightarrow> nat option \<Rightarrow> nat \<Rightarrow> nat \<Rightarrow> nat \<Rightarrow> u8 option" where
  "nth_char_loop st meta p r n = do {
     i \<leftarrow> meta;
     b \<leftarrow> get_block st i;
     if r < data_pointer b \<and> 0 < n then (
       let k = min n DATA_SIZE
       in if r + k = DATA_SIZE then nth_char_loop st (child_block b) 0 0 (n - k)
          else nth_char_loop st meta (p + k) (r + k) (n - k))
     else do { guard (btype b \<noteq> Dir); aget (bytes b) p } }"

definition get_nth_char :: "tmpfs \<Rightarrow> u32 \<Rightarrow> nat \<Rightarrow> u8 option" where
  "get_nth_char st fid n = do { i \<leftarrow> get_faddr_by_id st fid; nth_char_loop st (Some i) 0 0 n }"

section \<open>Opening\<close>

text \<open>The first record of the list with a name.\<close>

partial_function (option) record_by_name :: "dir_record list \<Rightarrow> buffer \<Rightarrow> nat option \<Rightarrow> dir_record option option" where
  "record_by_name rs name cur =
     (if cur = None then Some None
      else do {
          i \<leftarrow> cur;
          x \<leftarrow> aget rs i;
          b \<leftarrow> strcmp (rname x) name;
          if b then Some (Some x) else record_by_name rs name (next_record x) })"

definition get_fid_by_name :: "tmpfs \<Rightarrow> buffer \<Rightarrow> u32 \<Rightarrow> u32 option" where
  "get_fid_by_name st name fid = do {
     i \<leftarrow> get_faddr_by_id st fid;
     rs \<leftarrow> dir_records st i;
     x \<leftarrow> record_by_name rs name (Some 0);
     Some (case x of None \<Rightarrow> fid | Some x \<Rightarrow> rfid x) }"

definition record_file :: "fobj \<Rightarrow> tmpfs \<Rightarrow> dir_record \<Rightarrow> fobj option" where
  "record_file junk st x = do {
     file \<leftarrow> set_name junk (rname x);
     n \<leftarrow> file_size st (rfid x);
     i \<leftarrow> get_faddr_by_id st (rfid x);
     b \<leftarrow> get_block st i;
     Some (file\<lparr>eof := 0, position := 0, fileLength := n, DateCreated := 0, TimeCreated := 0,
       f_flags := (if btype b = File then FS_FILE else FS_DIRECTORY), f_id := rfid x\<rparr>) }"

definition open_in_dir :: "fobj \<Rightarrow> tmpfs \<Rightarrow> u32 \<Rightarrow> buffer \<Rightarrow> fobj option" where
  "open_in_dir junk st dir fname = do {
     i \<leftarrow> get_faddr_by_id st dir;
     rs \<leftarrow> dir_records st i;
     x \<leftarrow> record_by_name rs fname (Some 0);
     case x of None \<Rightarrow> Some (junk\<lparr>f_flags := FS_INVALID\<rparr>) | Some x \<Rightarrow> record_file junk st x }"

definition tfsys_root_open :: "fobj \<Rightarrow> tmpfs \<Rightarrow> buffer \<Rightarrow> fobj option" where
  "tfsys_root_open junk st fname = open_in_dir junk st 0 fname"

definition tfsys_subdir_open :: "fobj \<Rightarrow> tmpfs \<Rightarrow> fobj \<Rightarrow> buffer \<Rightarrow> fobj option" where
  "tfsys_subdir_open junk st dir fname =
     (if f_flags dir \<noteq> FS_DIRECTORY then Some (junk\<lparr>f_flags := FS_INVALID\<rparr>)
      else open_in_dir junk st (f_id dir) fname)"

fun tfsys_open_path :: "fobj \<Rightarrow> tmpfs \<Rightarrow> buffer \<Rightarrow> fobj \<Rightarrow> nat \<Rightarrow> nat \<Rightarrow> fobj option" where
  "tfsys_open_path junk st path curr_file i 0 = Some curr_file"
| "tfsys_open_path junk st path curr_file i (Suc n) = do {
     curr_filename \<leftarrow> seperate_and_take path 92 (int i + 1);
     f \<leftarrow> (if i = 0 then tfsys_root_open junk st curr_filename else tfsys_subdir_open junk st curr_file curr_filename);
     if f_flags f = FS_INVALID then Some f else tfsys_open_path junk st path f (i + 1) n }"

definition tfsys_open :: "fobj \<Rightarrow> tmpfs \<Rightarrow> buffer \<Rightarrow> fobj option" where
  "tfsys_open junk st path = do {
     r \<leftarrow> is_root_path path;
     if r then Some (junk\<lparr>f_id := 0, f_flags := FS_DIRECTORY, f_name := [92, 0] @ drop 2 (f_name junk)\<rparr>)
     else do {
       n \<leftarrow> count_substrings path 92;
       tfsys_open_path junk st path junk 0 (nat n) } }"

text \<open>The listed files; their identifiers are never written.\<close>

partial_function (option) list_records :: "fobj \<Rightarrow> tmpfs \<Rightarrow> dir_record list \<Rightarrow> nat option \<Rightarrow> fobj list option" where
  "list_records junk st rs cur =
     (if cur = None then Some []
      else do {
          i \<leftarrow> cur;
          x \<leftarrow> aget rs i;
          file \<leftarrow> record_file junk st x;
          fs \<leftarrow> list_records junk st rs (next_record x);
          Some (file\<lparr>f_id := f_id junk\<rparr> # fs) })"

definition tfsys_open_dir :: "fobj \<Rightarrow> tmpfs \<Rightarrow> buffer \<Rightarrow> fobj list option" where
  "tfsys_open_dir junk st path = do {
     dir \<leftarrow> tfsys_open junk st path;
     if f_flags dir \<noteq> FS_DIRECTORY then Some []
     else do {
       i \<leftarrow> get_faddr_by_id st (f_id dir);
       rs \<leftarrow> dir_records st i;
       list_records junk st rs (Some 0) } }"

definition tfsys_close :: "fobj \<Rightarrow> fobj" where
  "tfsys_close file = file\<lparr>f_flags := FS_INVALID\<rparr>"

definition tfsys_create :: "tmpfs \<Rightarrow> fobj \<Rightarrow> buffer \<Rightarrow> u32 \<Rightarrow> tmpfs option" where
  "tfsys_create st file fname flags =
     (if f_flags file = FS_DIRECTORY then
        (if flags = FS_DIRECTORY then mkdir st fname (f_id file)
         else if flags = FS_FILE then touch st fname (f_id file) else Some st)
      else Some st)"

definition tmpfs_driver :: "fobj \<Rightarrow> tmpfs driver" where
  "tmpfs_driver junk = \<lparr>
     Read = (\<lambda>st file n. do { (bs, file) \<leftarrow> tfsys_read st file n; Some (bs, file, st) }),
     Write = tfsys_write,
     Close = (\<lambda>st file. Some (tfsys_close file, st)),
     Open = (\<lambda>st path. do { f \<leftarrow> tfsys_open junk st path; Some (f, st) }),
     OpenDir = (\<lambda>st path. do { fs \<leftarrow> tfsys_open_dir junk st path; Some (fs, st) }),
     Create = tfsys_create\<rparr>"

end
