(* ===== verification/Tmpfiles.thy ===== *)
theory Tmpfiles
  imports Tmpfs
begin

text \<open>
  What the file system in memory does to a file: the chain of its blocks, writing, reading and
  freeing it, and opening a file that was created.
\<close>

section \<open>Searches and single blocks\<close>

lemma first_index_Some:
  "first_index P xs = Some i \<longleftrightarrow> i < length xs \<and> P (xs ! i) \<and> (\<forall>j < i. \<not> P (xs ! j))"
proof (induction xs arbitrary: i)
  case Nil
  then show ?case by simp
next
  case (Cons x xs)
  show ?case
  proof (cases i)
    case 0
    then show ?thesis by auto
  next
    case (Suc k)
    then show ?thesis using Cons.IH [of k] by (auto simp: less_Suc_eq_0_disj)
  qed
qed

lemma first_index_None: "first_index P xs = None \<longleftrightarrow> (\<forall>x \<in> set xs. \<not> P x)"
  by (induction xs) auto

lemma get_block_Some [c_simps]: "get_block st i = Some b \<longleftrightarrow> i < length (blocks st) \<and> b = blocks st ! i"
  by (simp add: get_block_def c_simps)

lemma get_block_in [simp]: "i < length (blocks st) \<Longrightarrow> get_block st i = Some (blocks st ! i)"
  by (simp add: get_block_def)

lemma set_block_in [simp]: "i < length (blocks st) \<Longrightarrow> set_block st i b = Some (st\<lparr>blocks := (blocks st)[i := b]\<rparr>)"
  by (simp add: set_block_def)

definition found :: "tmpfs \<Rightarrow> u32 \<Rightarrow> nat \<Rightarrow> bool" where
  "found st f i \<longleftrightarrow> get_faddr_by_id st f = Some i"

lemma found_iff:
  "found st f i \<longleftrightarrow> i < length (blocks st) \<and> bfid (blocks st ! i) = f \<and> btype (blocks st ! i) \<noteq> SubFile \<and>
    (\<forall>j < i. bfid (blocks st ! j) = f \<longrightarrow> btype (blocks st ! j) = SubFile)"
  by (auto simp: found_def get_faddr_by_id_def first_index_Some)

definition named :: "u32 \<Rightarrow> block_metadata \<Rightarrow> bool" where
  "named f b \<longleftrightarrow> bfid b = f \<and> btype b \<noteq> SubFile"

lemma found_named:
  "found st f i \<longleftrightarrow> i < length (blocks st) \<and> named f (blocks st ! i) \<and> (\<forall>j < i. \<not> named f (blocks st ! j))"
  by (auto simp: found_iff named_def)

lemma found_update:
  assumes "found st f i" and "named f b = named f (blocks st ! j)"
  shows "found (st\<lparr>blocks := (blocks st)[j := b]\<rparr>) f i"
proof -
  have "named f ((blocks st)[j := b] ! x) = named f (blocks st ! x)" if "x < length (blocks st)" for x
    using that assms(2) by (cases "x = j") simp_all
  then show ?thesis using assms(1) unfolding found_named by simp
qed

lemma found_other:
  assumes "found st f i" and "j \<noteq> i" and "\<not> named f b"
  shows "found (st\<lparr>blocks := (blocks st)[j := b]\<rparr>) f i"
proof -
  have "\<not> named f ((blocks st)[j := b] ! x)" if "x < i" for x
    using that assms(1,3) by (cases "x = j") (simp_all add: found_named)
  then show ?thesis using assms(1,2) unfolding found_named by simp
qed

definition free_blocks :: "tmpfs \<Rightarrow> nat" where
  "free_blocks st = card {i. i < length (blocks st) \<and> \<not> occupied (blocks st ! i)}"

lemma free_blocks_take:
  assumes "i < length (blocks st)" and "\<not> occupied (blocks st ! i)" and "occupied b"
  shows "Suc (free_blocks (st\<lparr>blocks := (blocks st)[i := b]\<rparr>)) = free_blocks st"
proof -
  let ?F = "\<lambda>st. {i. i < length (blocks st) \<and> \<not> occupied (blocks st ! i)}"
  have "?F (st\<lparr>blocks := (blocks st)[i := b]\<rparr>) = ?F st - {i}"
    using assms by (auto simp: nth_list_update split: if_splits)
  moreover have "i \<in> ?F st" "finite (?F st)" using assms by simp_all
  ultimately show ?thesis unfolding free_blocks_def by (metis card_Suc_Diff1)
qed

lemma free_blocks_same:
  assumes "i < length (blocks st)" and "occupied b = occupied (blocks st ! i)"
  shows "free_blocks (st\<lparr>blocks := (blocks st)[i := b]\<rparr>) = free_blocks st"
  unfolding free_blocks_def using assms by (auto simp: nth_list_update intro!: arg_cong [where f = card])

lemma free_blocks_give:
  assumes "i < length (blocks st)" and "occupied (blocks st ! i)" and "\<not> occupied b"
  shows "free_blocks (st\<lparr>blocks := (blocks st)[i := b]\<rparr>) = Suc (free_blocks st)"
proof -
  let ?st = "st\<lparr>blocks := (blocks st)[i := b]\<rparr>"
  have "Suc (free_blocks (?st\<lparr>blocks := (blocks ?st)[i := blocks st ! i]\<rparr>)) = free_blocks ?st"
    using assms by (intro free_blocks_take) simp_all
  then show ?thesis using assms by simp
qed

lemma free_block_exists:
  assumes "0 < free_blocks st"
  obtains j where "get_free_block st = Some j" "j < length (blocks st)" "\<not> occupied (blocks st ! j)"
proof (cases "get_free_block st")
  case None
  then have "{i. i < length (blocks st) \<and> \<not> occupied (blocks st ! i)} = {}"
    by (auto simp: get_free_block_def first_index_None)
  with assms show ?thesis by (simp add: free_blocks_def)
next
  case (Some j)
  then have "j < length (blocks st)" "\<not> occupied (blocks st ! j)"
    by (simp_all add: get_free_block_def first_index_Some)
  with Some show ?thesis by (rule that)
qed

section \<open>The chain of a file\<close>

text \<open>
  The blocks \<open>cs\<close> of the file \<open>f\<close>, linked both ways, all full but the last one, which holds \<open>p\<close>
  bytes; and the bytes of the file.
\<close>

definition in_chain :: "tmpfs \<Rightarrow> u32 \<Rightarrow> nat list \<Rightarrow> nat \<Rightarrow> nat \<Rightarrow> bool" where
  "in_chain st f cs p k \<longleftrightarrow> (let b = blocks st ! (cs ! k)
     in cs ! k < length (blocks st) \<and> occupied b \<and> bfid b = f \<and> bid b = cs ! k \<and> length (bytes b) = DATA_SIZE \<and>
        btype b = (if k = 0 then File else SubFile) \<and>
        child_block b = (if k + 1 < length cs then Some (cs ! (k + 1)) else None) \<and>
        (0 < k \<longrightarrow> parent_block b = Some (cs ! (k - 1))) \<and>
        data_pointer b = (if k + 1 < length cs then DATA_SIZE else p))"

definition fchain :: "nat \<Rightarrow> tmpfs \<Rightarrow> u32 \<Rightarrow> nat list \<Rightarrow> bool" where
  "fchain p st f cs \<longleftrightarrow> cs \<noteq> [] \<and> distinct cs \<and> found st f (hd cs) \<and> p \<le> DATA_SIZE \<and> (\<forall>k < length cs. in_chain st f cs p k)"

definition block_text :: "tmpfs \<Rightarrow> nat \<Rightarrow> u8 list" where
  "block_text st i = take (data_pointer (blocks st ! i)) (bytes (blocks st ! i))"

definition content :: "tmpfs \<Rightarrow> nat list \<Rightarrow> u8 list" where
  "content st cs = concat (map (block_text st) cs)"

text \<open>Everything outside the blocks \<open>S\<close> is as it was.\<close>

definition only_blocks :: "nat set \<Rightarrow> tmpfs \<Rightarrow> tmpfs \<Rightarrow> bool" where
  "only_blocks S st st' \<longleftrightarrow> length (blocks st') = length (blocks st) \<and> (\<forall>i. i \<notin> S \<longrightarrow> blocks st' ! i = blocks st ! i)"

lemma only_blocks_refl [simp]: "only_blocks S st st"
  by (simp add: only_blocks_def)

lemma only_blocks_trans: "only_blocks S st st1 \<Longrightarrow> only_blocks S st1 st2 \<Longrightarrow> only_blocks S st st2"
  by (simp add: only_blocks_def)

lemma only_blocks_mono: "only_blocks S st st' \<Longrightarrow> S \<subseteq> T \<Longrightarrow> only_blocks T st st'"
  by (auto simp: only_blocks_def)

lemma only_blocks_update: "i \<in> S \<Longrightarrow> only_blocks S st (st\<lparr>blocks := (blocks st)[i := b]\<rparr>)"
  by (auto simp: only_blocks_def) (metis nth_list_update_neq)

lemma chain_in: "fchain p st f cs \<Longrightarrow> k < length cs \<Longrightarrow> in_chain st f cs p k"
  by (simp add: fchain_def)

lemma chain_occupied: "fchain p st f cs \<Longrightarrow> i \<in> set cs \<Longrightarrow> i < length (blocks st) \<and> occupied (blocks st ! i)"
  by (auto simp: in_set_conv_nth fchain_def in_chain_def Let_def)

lemma last_nth: "cs \<noteq> [] \<Longrightarrow> last cs = cs ! (length cs - 1)"
  by (rule last_conv_nth)

lemma tail_block:
  assumes "fchain p st f cs"
  shows "last cs < length (blocks st)" "occupied (blocks st ! last cs)" "bfid (blocks st ! last cs) = f"
    "length (bytes (blocks st ! last cs)) = DATA_SIZE" "btype (blocks st ! last cs) \<noteq> Dir"
    "child_block (blocks st ! last cs) = None" "data_pointer (blocks st ! last cs) = p"
proof -
  have "cs \<noteq> []" using assms by (simp add: fchain_def)
  then have "in_chain st f cs p (length cs - 1)" "cs ! (length cs - 1) = last cs"
    using chain_in [OF assms, of "length cs - 1"] by (simp_all add: last_nth)
  then show "last cs < length (blocks st)" "occupied (blocks st ! last cs)" "bfid (blocks st ! last cs) = f"
    "length (bytes (blocks st ! last cs)) = DATA_SIZE" "btype (blocks st ! last cs) \<noteq> Dir"
    "child_block (blocks st ! last cs) = None" "data_pointer (blocks st ! last cs) = p"
    by (auto simp: in_chain_def Let_def split: if_splits)
qed

lemma last_block_chain:
  assumes "fchain p st f cs" and "k < length cs"
  shows "last_block st (cs ! k) = Some (last cs)"
  using assms(2)
proof (induction "length cs - k" arbitrary: k)
  case 0
  then show ?case by simp
next
  case (Suc n)
  note c = chain_in [OF assms(1) Suc.prems]
  show ?case
  proof (cases "k + 1 < length cs")
    case True
    then have "last_block st (cs ! k) = last_block st (cs ! (k + 1))"
      using c by (subst last_block.simps) (simp add: in_chain_def Let_def)
    then show ?thesis using Suc.hyps True by simp
  next
    case False
    then have "k = length cs - 1" using Suc.prems by simp
    moreover have "cs \<noteq> []" using Suc.prems by auto
    ultimately have "cs ! k = last cs" by (simp add: last_conv_nth)
    then show ?thesis using c False by (subst last_block.simps) (simp add: in_chain_def Let_def)
  qed
qed

text \<open>A change of the last block that keeps its place in the chain.\<close>

lemma chain_update_last:
  assumes c: "fchain p st f cs" and q: "q \<le> DATA_SIZE"
    and b: "b = (blocks st ! last cs)\<lparr>bytes := bs, data_pointer := q\<rparr>" "length bs = DATA_SIZE"
  shows "fchain q (st\<lparr>blocks := (blocks st)[last cs := b]\<rparr>) f cs"
proof -
  let ?st = "st\<lparr>blocks := (blocks st)[last cs := b]\<rparr>"
  have ne: "cs \<noteq> []" and d: "distinct cs" using c by (simp_all add: fchain_def)
  have l: "last cs = cs ! (length cs - 1)" using ne by (rule last_nth)
  have "in_chain ?st f cs q k" if k: "k < length cs" for k
  proof (cases "k = length cs - 1")
    case True
    then show ?thesis using chain_in [OF c k] b l by (auto simp: in_chain_def Let_def)
  next
    case False
    then have "cs ! k \<noteq> last cs" using d k l ne by (simp add: nth_eq_iff_index_eq)
    moreover have "k + 1 < length cs" using False k by simp
    ultimately show ?thesis using chain_in [OF c k] by (simp add: in_chain_def Let_def)
  qed
  moreover have "found ?st f (hd cs)" using c b(1) by (intro found_update) (simp_all add: fchain_def named_def)
  ultimately show ?thesis using c q by (simp add: fchain_def)
qed

lemma content_update_last:
  assumes "distinct cs" and "cs \<noteq> []" and "last cs < length (blocks st)"
  shows "content (st\<lparr>blocks := (blocks st)[last cs := b]\<rparr>) cs = content st (butlast cs) @ take (data_pointer b) (bytes b)"
proof -
  obtain xs i where cs: "cs = xs @ [i]" using assms(2) by (cases cs rule: rev_cases) auto
  have "block_text (st\<lparr>blocks := (blocks st)[i := b]\<rparr>) x = block_text st x" if "x \<in> set xs" for x
  proof -
    have "i \<noteq> x" using that assms(1) cs by auto
    then show ?thesis by (simp add: block_text_def)
  qed
  then have m: "map (block_text (st\<lparr>blocks := (blocks st)[i := b]\<rparr>)) xs = map (block_text st) xs" by simp
  have b: "block_text (st\<lparr>blocks := (blocks st)[i := b]\<rparr>) i = take (data_pointer b) (bytes b)"
    using assms(3) cs by (simp add: block_text_def)
  show ?thesis
    unfolding cs content_def last_snoc butlast_snoc by (simp only: map_append concat_append m) (simp add: b)
qed

lemma content_last: "cs \<noteq> [] \<Longrightarrow> content st cs = content st (butlast cs) @ block_text st (last cs)"
  by (cases cs rule: rev_cases) (simp_all add: content_def)

section \<open>Growing a file\<close>

lemma extend_chain:
  assumes c: "fchain DATA_SIZE st f cs" and fr: "0 < free_blocks st"
  obtains st' j where "extend_file st f = Some st'" "fchain 0 st' f (cs @ [j])" "content st' (cs @ [j]) = content st cs"
    "Suc (free_blocks st') = free_blocks st" "only_blocks (set (cs @ [j])) st st'"
    "child_block (blocks st' ! last cs) = Some j" "heap_junk st' = heap_junk st" "j \<notin> set cs" "\<not> occupied (blocks st ! j)"
proof -
  obtain j where j: "get_free_block st = Some j" "j < length (blocks st)" "\<not> occupied (blocks st ! j)"
    by (rule free_block_exists [OF fr])
  have ne: "cs \<noteq> []" and d: "distinct cs" and fo: "found st f (hd cs)" using c by (simp_all add: fchain_def)
  have jn: "j \<notin> set cs" using chain_occupied [OF c] j(3) by blast
  let ?l = "last cs"
  note l = tail_block [OF c]
  have lj: "?l \<noteq> j" using jn ne by auto
  define nb where "nb = zero_block\<lparr>parent_block := Some ?l, btype := SubFile, bfid := f, bid := j,
    occupied := True, bname := 0 # drop 1 (heap_junk st)\<rparr>"
  define lb where "lb = (blocks st ! ?l)\<lparr>child_block := Some j\<rparr>"
  define st1 where "st1 = st\<lparr>blocks := (blocks st)[j := nb]\<rparr>"
  define st2 where "st2 = st1\<lparr>blocks := (blocks st1)[?l := lb]\<rparr>"
  have nm: "name_field (heap_junk st) [0] = Some (0 # drop 1 (heap_junk st))"
    by (simp add: name_field_def strlen_def) (subst strlen_from.simps, simp)
  have cb: "create_block st ?l SubFile [0] = Some (j, st1)"
    using l(1,3) j nm by (simp add: create_block_def Let_def st1_def nb_def)
  have l1: "blocks st1 ! ?l = blocks st ! ?l" using lj by (simp add: st1_def)
  have "get_faddr_by_id st f = Some (hd cs)" using fo by (simp add: found_def)
  moreover have "last_block st (hd cs) = Some ?l" using last_block_chain [OF c, of 0] ne by (simp add: hd_conv_nth)
  moreover have "?l < length (blocks st1)" using l(1) by (simp add: st1_def)
  ultimately have e: "extend_file st f = Some st2" using cb l1 by (simp add: extend_file_def st2_def lb_def)
  have b2: "blocks st2 ! j = nb" "blocks st2 ! ?l = lb" "x \<noteq> j \<Longrightarrow> x \<noteq> ?l \<Longrightarrow> blocks st2 ! x = blocks st ! x" for x
    using j(2) l(1) lj by (simp_all add: st2_def st1_def)
  have len: "length (blocks st2) = length (blocks st)" by (simp add: st2_def st1_def)
  have lc: "?l = cs ! (length cs - 1)" using ne by (rule last_nth)
  have "in_chain st2 f (cs @ [j]) 0 k" if k: "k < length (cs @ [j])" for k
  proof -
    have a: "(cs @ [j]) ! i = cs ! i" if "i < length cs" for i using that by (simp add: nth_append)
    consider "k = length cs" | "k = length cs - 1" "k < length cs" | "k + 1 < length cs" using k by fastforce
    then show ?thesis
    proof cases
      case 1
      have "(cs @ [j]) ! (length cs - 1) = ?l" using ne lc by (simp add: nth_append)
      then show ?thesis using 1 b2(1) j(2) len ne by (simp add: in_chain_def Let_def nb_def zero_block_def)
    next
      case 2
      then have "(cs @ [j]) ! k = ?l" using lc by (simp add: nth_append)
      moreover have "(cs @ [j]) ! (k + 1) = j" using 2 ne by (simp add: nth_append)
      moreover have "(cs @ [j]) ! (k - 1) = cs ! (k - 1)" using 2(2) by (intro a) linarith
      moreover have "k + 1 < length (cs @ [j])" "\<not> k + 1 < length cs" "cs ! k = ?l" using 2 lc by simp_all
      ultimately show ?thesis using chain_in [OF c 2(2)] b2(2) len
        by (simp add: in_chain_def Let_def lb_def)
    next
      case 3
      have k1: "k < length cs" "(cs @ [j]) ! k = cs ! k" "(cs @ [j]) ! (k + 1) = cs ! (k + 1)" "(cs @ [j]) ! (k - 1) = cs ! (k - 1)"
        using 3 by (linarith, intro a, linarith, intro a, linarith, intro a, linarith)
      have "cs ! k \<noteq> j" using jn k1(1) by auto
      moreover have "cs ! k \<noteq> ?l" using d 3 lc by (simp add: nth_eq_iff_index_eq)
      ultimately have "blocks st2 ! (cs ! k) = blocks st ! (cs ! k)" by (rule b2(3))
      then show ?thesis using chain_in [OF c k1(1)] 3 k1 len by (simp add: in_chain_def Let_def)
    qed
  qed
  moreover have "found st2 f (hd (cs @ [j]))"
  proof -
    have "hd cs \<noteq> j" using jn ne by (metis hd_in_set)
    then have "found st1 f (hd cs)" unfolding st1_def by (intro found_other fo) (simp_all add: nb_def named_def)
    then have "found st2 f (hd cs)" unfolding st2_def by (rule found_update) (simp add: lb_def l1 named_def)
    then show ?thesis using ne by simp
  qed
  ultimately have c2: "fchain 0 st2 f (cs @ [j])" using d jn by (simp add: fchain_def)
  have bt: "block_text st2 x = block_text st x" if "x \<in> set cs" for x
  proof (cases "x = ?l")
    case True
    then show ?thesis by (simp add: block_text_def b2(2) lb_def)
  next
    case False
    moreover have "x \<noteq> j" using that jn by auto
    ultimately show ?thesis by (simp add: block_text_def b2(3))
  qed
  then have m: "map (block_text st2) cs = map (block_text st) cs" by (rule map_cong [OF refl])
  have "content st2 (cs @ [j]) = content st cs @ block_text st2 j"
    unfolding content_def map_append concat_append m by simp
  then have t2: "content st2 (cs @ [j]) = content st cs" by (simp add: block_text_def b2(1) nb_def zero_block_def)
  have "Suc (free_blocks st1) = free_blocks st" unfolding st1_def using j by (intro free_blocks_take) (simp_all add: nb_def)
  moreover have "free_blocks st2 = free_blocks st1"
    unfolding st2_def
  proof (rule free_blocks_same)
    show "?l < length (blocks st1)" using l(1) by (simp add: st1_def)
    show "occupied lb = occupied (blocks st1 ! ?l)" by (simp add: lb_def l1)
  qed
  ultimately have f2: "Suc (free_blocks st2) = free_blocks st" by simp
  have o: "only_blocks (set (cs @ [j])) st st2"
    unfolding only_blocks_def
  proof (intro conjI allI impI)
    show "length (blocks st2) = length (blocks st)" by (rule len)
    fix i
    assume "i \<notin> set (cs @ [j])"
    then have "i \<noteq> ?l" "i \<noteq> j" using ne by auto
    then show "blocks st2 ! i = blocks st ! i" by (intro b2(3))
  qed
  show ?thesis using that [OF e c2 t2 f2 o] b2(2) jn j(3) by (simp add: lb_def st2_def st1_def)
qed

lemma put_byte_chain:
  assumes c: "fchain p st f cs" and p: "p < DATA_SIZE" and fr: "p + 1 = DATA_SIZE \<Longrightarrow> 0 < free_blocks st"
  obtains st' cs' q where "put_byte st (last cs) x = Some (last cs', st')" "fchain q st' f cs'" "q < DATA_SIZE" "hd cs' = hd cs"
    "content st' cs' = content st cs @ [x]" "DATA_SIZE * free_blocks st' + p + 1 = DATA_SIZE * free_blocks st + q"
    "only_blocks (set cs') st st'" "set cs \<subseteq> set cs'"
    "\<forall>i \<in> set cs'. i \<in> set cs \<or> \<not> occupied (blocks st ! i)"
proof -
  have ne: "cs \<noteq> []" and d: "distinct cs" using c by (simp_all add: fchain_def)
  note l = tail_block [OF c]
  let ?l = "last cs"
  let ?b = "blocks st ! ?l"
  define b where "b = ?b\<lparr>bytes := (bytes ?b)[p := x], data_pointer := p + 1\<rparr>"
  define st1 where "st1 = st\<lparr>blocks := (blocks st)[?l := b]\<rparr>"
  have c1: "fchain (p + 1) st1 f cs" unfolding st1_def by (rule chain_update_last [OF c _ b_def]) (use l p in simp_all)
  have "content st1 cs = content st (butlast cs) @ take (p + 1) ((bytes ?b)[p := x])"
    unfolding st1_def using content_update_last [OF d ne l(1), of b] by (simp add: b_def)
  also have "take (p + 1) ((bytes ?b)[p := x]) = take p (bytes ?b) @ [x]"
    using l(4) p by (simp add: take_Suc_conv_app_nth)
  finally have t1: "content st1 cs = content st cs @ [x]"
    using content_last [OF ne, of st] l(7) by (simp add: block_text_def)
  have f1: "free_blocks st1 = free_blocks st" unfolding st1_def using l(1) by (intro free_blocks_same) (simp_all add: b_def)
  have o1: "only_blocks (set cs) st st1" unfolding st1_def using ne by (intro only_blocks_update) simp
  have pb: "put_byte st ?l x = (if p + 1 = DATA_SIZE then do {
      st \<leftarrow> extend_file st1 f; b \<leftarrow> get_block st ?l; c \<leftarrow> child_block b; Some (c, st) } else Some (?l, st1))"
    using l p by (simp add: put_byte_def st1_def b_def)
  show ?thesis
  proof (cases "p + 1 = DATA_SIZE")
    case False
    then show ?thesis using that [of cs st1 "p + 1"] pb c1 t1 f1 o1 p by simp
  next
    case True
    have c1': "fchain DATA_SIZE st1 f cs" using c1 unfolding True .
    obtain st2 j where 2: "extend_file st1 f = Some st2" "fchain 0 st2 f (cs @ [j])" "content st2 (cs @ [j]) = content st1 cs"
      "Suc (free_blocks st2) = free_blocks st1" "only_blocks (set (cs @ [j])) st1 st2"
      "child_block (blocks st2 ! ?l) = Some j" "j \<notin> set cs" "\<not> occupied (blocks st1 ! j)"
      by (rule extend_chain [OF c1']) (use fr [OF True] f1 in auto)
    have "?l < length (blocks st2)" using 2(5) l(1) by (simp add: only_blocks_def st1_def)
    then have "put_byte st ?l x = Some (last (cs @ [j]), st2)" using pb True 2(1,6) by simp
    moreover have "DATA_SIZE * free_blocks st2 + p + 1 = DATA_SIZE * free_blocks st + 0" using 2(4) f1 True by simp
    moreover have "only_blocks (set (cs @ [j])) st st2"
      using only_blocks_trans [OF only_blocks_mono [OF o1] 2(5)] by auto
    moreover have "j \<noteq> ?l" using 2(7) ne by auto
    then have "blocks st1 ! j = blocks st ! j" by (simp add: st1_def)
    ultimately show ?thesis using that [of "cs @ [j]" st2 0] 2 t1 ne by auto
  qed
qed

lemma write_loop_chain:
  "fchain p st f cs \<Longrightarrow> p < DATA_SIZE \<Longrightarrow> p + length bs < DATA_SIZE * (free_blocks st + 1) \<Longrightarrow>
    \<exists>st' cs' q. write_loop st (last cs) fo bs (length bs) =
        Some (fo\<lparr>position := position fo + of_nat (length bs)\<rparr>, st') \<and>
      fchain q st' f cs' \<and> q < DATA_SIZE \<and> hd cs' = hd cs \<and> content st' cs' = content st cs @ bs \<and>
      only_blocks (set cs') st st' \<and> set cs \<subseteq> set cs' \<and>
      (\<forall>i \<in> set cs'. i \<in> set cs \<or> \<not> occupied (blocks st ! i))"
proof (induction bs arbitrary: p st cs fo)
  case Nil
  then show ?case by auto
next
  case (Cons x bs)
  have fr: "p + 1 = DATA_SIZE \<Longrightarrow> 0 < free_blocks st" using Cons.prems(3) by (cases "free_blocks st") auto
  obtain st1 cs1 q where 1: "put_byte st (last cs) x = Some (last cs1, st1)" "fchain q st1 f cs1" "q < DATA_SIZE" "hd cs1 = hd cs"
    "content st1 cs1 = content st cs @ [x]" "DATA_SIZE * free_blocks st1 + p + 1 = DATA_SIZE * free_blocks st + q"
    "only_blocks (set cs1) st st1" "set cs \<subseteq> set cs1" "\<forall>i \<in> set cs1. i \<in> set cs \<or> \<not> occupied (blocks st ! i)"
    by (rule put_byte_chain [OF Cons.prems(1,2) fr, of x]) simp_all
  have "q + length bs < DATA_SIZE * (free_blocks st1 + 1)" using Cons.prems(3) 1(6) by simp
  from Cons.IH [OF 1(2,3) this, of "fo\<lparr>position := position fo + 1\<rparr>"] obtain st2 cs2 q2 where
    2: "write_loop st1 (last cs1) (fo\<lparr>position := position fo + 1\<rparr>) bs (length bs) =
        Some (fo\<lparr>position := position fo + 1 + of_nat (length bs)\<rparr>, st2)"
      "fchain q2 st2 f cs2" "q2 < DATA_SIZE" "hd cs2 = hd cs1" "content st2 cs2 = content st1 cs1 @ bs"
      "only_blocks (set cs2) st1 st2" "set cs1 \<subseteq> set cs2" "\<forall>i \<in> set cs2. i \<in> set cs1 \<or> \<not> occupied (blocks st1 ! i)" by auto
  have "write_loop st (last cs) fo (x # bs) (length (x # bs)) =
      Some (fo\<lparr>position := position fo + of_nat (length (x # bs))\<rparr>, st2)"
    using 1(1) 2(1) by (simp add: add.assoc)
  moreover have "only_blocks (set cs2) st st2"
    using only_blocks_trans [OF only_blocks_mono [OF 1(7) 2(7)] 2(6)] .
  moreover have "\<forall>i \<in> set cs2. i \<in> set cs \<or> \<not> occupied (blocks st ! i)"
  proof
    fix i assume i: "i \<in> set cs2"
    show "i \<in> set cs \<or> \<not> occupied (blocks st ! i)"
    proof (cases "i \<in> set cs1")
      case True
      then show ?thesis using 1(9) by blast
    next
      case False
      then have "blocks st1 ! i = blocks st ! i" using 1(7) by (simp add: only_blocks_def)
      then show ?thesis using 2(8) i False by auto
    qed
  qed
  ultimately show ?case using 1(4,5,8) 2(2-5,7) by (intro exI [of _ st2] exI [of _ cs2] exI [of _ q2]) auto
qed

section \<open>Freeing the blocks of a file\<close>

lemma free_subfile:
  assumes "c \<noteq> 0" and "c < length (blocks st)" and "btype (blocks st ! c) = SubFile"
  shows "free_block st c = do { st \<leftarrow> unlink_block st (blocks st ! c); st \<leftarrow> set_block st c zero_block; Some (True, st) }"
proof -
  have "(30000 :: nat) = Suc 29999" by simp
  then show ?thesis unfolding free_block_def using assms by (simp only: free_block_fuel.simps) simp
qed

text \<open>The second block of a file leaves the chain.\<close>

lemma free_second:
  assumes c: "fchain p st f (i # c # rest)" and f: "f \<noteq> 0" and c0: "c \<noteq> 0"
  obtains st' where "free_block st (bid (blocks st ! c)) = Some (True, st')"
    "fchain (if rest = [] then DATA_SIZE else p) st' f (i # rest)" "free_blocks st' = free_blocks st + 1"
    "only_blocks (set (i # c # rest)) st st'" "heap_junk st' = heap_junk st"
proof -
  let ?cs = "i # c # rest"
  have d: "distinct ?cs" and fo: "found st f i" and p: "p \<le> DATA_SIZE" using c by (simp_all add: fchain_def)
  have ii: "in_chain st f ?cs p 0" and ic: "in_chain st f ?cs p 1" using chain_in [OF c] by simp_all
  have i: "i < length (blocks st)" "child_block (blocks st ! i) = Some c" "data_pointer (blocks st ! i) = DATA_SIZE"
    using ii by (simp_all add: in_chain_def Let_def)
  have cc: "c < length (blocks st)" "bid (blocks st ! c) = c" "btype (blocks st ! c) = SubFile" "parent_block (blocks st ! c) = Some i"
      "occupied (blocks st ! c)" "child_block (blocks st ! c) = (case rest of [] \<Rightarrow> None | e # _ \<Rightarrow> Some e)"
    using ic by (simp_all add: in_chain_def Let_def split: list.splits)
  define st1 where "st1 = st\<lparr>blocks := (blocks st)[i := (blocks st ! i)\<lparr>child_block := child_block (blocks st ! c)\<rparr>]\<rparr>"
  define st2 where "st2 = (case rest of [] \<Rightarrow> st1 | e # _ \<Rightarrow> st1\<lparr>blocks := (blocks st1)[e := (blocks st1 ! e)\<lparr>parent_block := Some i\<rparr>]\<rparr>)"
  define st3 where "st3 = st2\<lparr>blocks := (blocks st2)[c := zero_block]\<rparr>"
  have e: "e < length (blocks st)" if "rest = e # r" for e r
    using chain_in [OF c, of 2] that by (simp add: in_chain_def Let_def)
  have u: "unlink_block st (blocks st ! c) = Some st2"
    using cc i e by (auto simp: unlink_block_def st2_def st1_def split: list.splits)
  have len: "length (blocks st2) = length (blocks st)" "length (blocks st3) = length (blocks st)"
    by (simp_all add: st3_def st2_def st1_def split: list.splits)
  have fr: "free_block st (bid (blocks st ! c)) = Some (True, st3)"
    using free_subfile [OF c0 cc(1,3)] u cc(1,2) len by (simp add: st3_def)
  have nc: "blocks st3 ! i = (blocks st ! i)\<lparr>child_block := child_block (blocks st ! c)\<rparr>"
    using d i(1) e by (auto simp: st3_def st2_def st1_def split: list.splits)
  have ne: "blocks st3 ! e = (blocks st ! e)\<lparr>parent_block := Some i\<rparr>" if "rest = e # r" for e r
    using d that e [OF that] by (auto simp: st3_def st2_def st1_def)
  have no: "blocks st3 ! x = blocks st ! x" if "x \<noteq> i" "x \<noteq> c" "rest = [] \<or> x \<noteq> hd rest" for x
    using that by (auto simp: st3_def st2_def st1_def split: list.splits)
  define q where "q = (if rest = [] then DATA_SIZE else p)"
  have "in_chain st3 f (i # rest) q k" if k: "k < length (i # rest)" for k
  proof -
    consider "k = 0" | "k = 1" | m where "k = Suc (Suc m)" by (metis One_nat_def not0_implies_Suc)
    then show ?thesis
    proof cases
      case 1
      then show ?thesis using ii nc len cc(6)
        by (cases rest) (simp_all add: in_chain_def Let_def q_def)
    next
      case 2
      with k obtain e r where r: "rest = e # r" by (cases rest) auto
      then show ?thesis using chain_in [OF c, of 2] 2 ne [OF r] len
        by (auto simp: in_chain_def Let_def q_def)
    next
      case 3
      with k obtain e r where r: "rest = e # r" "m < length r" by (cases rest) auto
      have m: "r ! m \<noteq> i" "r ! m \<noteq> c" "r ! m \<noteq> e" using d r nth_mem [OF r(2)] by auto
      then have "blocks st3 ! (r ! m) = blocks st ! (r ! m)" using r(1) by (intro no) simp_all
      then show ?thesis using chain_in [OF c, of "Suc (Suc (Suc m))"] 3 r len
        by (simp add: in_chain_def Let_def q_def nth_Cons')
    qed
  qed
  moreover have "found st3 f i"
  proof -
    have "found st1 f i" unfolding st1_def by (rule found_update [OF fo]) (simp add: named_def)
    then have "found st2 f i" unfolding st2_def
      by (cases rest) (simp_all add: found_update named_def)
    then show ?thesis unfolding st3_def using d f by (intro found_other) (simp_all add: named_def zero_block_def)
  qed
  ultimately have c3: "fchain q st3 f (i # rest)" using d p by (simp add: fchain_def q_def)
  have "free_blocks st1 = free_blocks st" unfolding st1_def using i(1) by (intro free_blocks_same) simp_all
  moreover have "free_blocks st2 = free_blocks st1"
  proof (cases rest)
    case Nil
    then show ?thesis by (simp add: st2_def)
  next
    case (Cons x r)
    then have "x < length (blocks st1)" using e by (simp add: st1_def)
    then show ?thesis using Cons by (simp add: st2_def free_blocks_same)
  qed
  moreover have "occupied (blocks st2 ! c)"
    using d cc(5) by (auto simp: st2_def st1_def nth_list_update split: list.splits)
  then have "free_blocks st3 = Suc (free_blocks st2)"
    unfolding st3_def using cc(1) len by (intro free_blocks_give) (simp_all add: zero_block_def)
  ultimately have n3: "free_blocks st3 = free_blocks st + 1" by simp
  have "only_blocks (set ?cs) st st3"
    unfolding only_blocks_def using len no by (cases rest) auto
  moreover have "heap_junk st3 = heap_junk st" by (simp add: st3_def st2_def st1_def split: list.splits)
  ultimately show ?thesis using that fr c3 n3 unfolding q_def by blast
qed

lemma reset_loop_chain:
  "fchain p st f (i # cs) \<Longrightarrow> f \<noteq> 0 \<Longrightarrow> 0 \<notin> set cs \<Longrightarrow>
    \<exists>st' q. reset_loop st i = Some st' \<and> fchain q st' f [i] \<and> free_blocks st' = free_blocks st + length cs \<and>
      only_blocks (set (i # cs)) st st'"
proof (induction cs arbitrary: p st)
  case Nil
  have "i < length (blocks st)" "child_block (blocks st ! i) = None" using tail_block [OF Nil(1)] by simp_all
  then have "reset_loop st i = Some st" by (subst reset_loop.simps) simp
  then show ?case using Nil by auto
next
  case (Cons c cs)
  obtain st1 where 1: "free_block st (bid (blocks st ! c)) = Some (True, st1)"
    "fchain (if cs = [] then DATA_SIZE else p) st1 f (i # cs)" "free_blocks st1 = free_blocks st + 1"
    "only_blocks (set (i # c # cs)) st st1"
    by (rule free_second [OF Cons.prems(1,2)]) (use Cons.prems(3) in auto)
  have "in_chain st f (i # c # cs) p 0" "in_chain st f (i # c # cs) p 1" using chain_in [OF Cons.prems(1)] by simp_all
  then have "reset_loop st i = reset_loop st1 i"
    using 1(1) by (subst reset_loop.simps) (simp add: in_chain_def Let_def)
  moreover obtain st2 q where "reset_loop st1 i = Some st2" "fchain q st2 f [i]" "free_blocks st2 = free_blocks st1 + length cs"
    "only_blocks (set (i # cs)) st1 st2"
    using Cons.IH [OF 1(2) Cons.prems(2)] Cons.prems(3) by auto
  ultimately show ?case using 1(3,4) only_blocks_trans [OF 1(4)] only_blocks_mono [of "set (i # cs)" st1 st2 "set (i # c # cs)"]
    by (intro exI [of _ st2] exI [of _ q]) auto
qed

lemma reset_file_chain:
  assumes c: "fchain p st f cs" and f: "f \<noteq> 0" and z: "0 \<notin> set (tl cs)"
  obtains st' where "reset_file st f = Some st'" "fchain 0 st' f [hd cs]" "content st' [hd cs] = []"
    "free_blocks st' + 1 = free_blocks st + length cs" "only_blocks (set cs) st st'"
proof -
  obtain i r where cs: "cs = i # r" using c by (cases cs) (auto simp: fchain_def)
  have fo: "get_faddr_by_id st f = Some i" using c cs by (simp add: fchain_def found_def)
  obtain st1 q where 1: "reset_loop st i = Some st1" "fchain q st1 f [i]" "free_blocks st1 = free_blocks st + length r"
    "only_blocks (set cs) st st1" using reset_loop_chain c f z cs by (metis list.sel(3))
  define b where "b = (blocks st1 ! i)\<lparr>data_pointer := 0\<rparr>"
  define st2 where "st2 = st1\<lparr>blocks := (blocks st1)[i := b]\<rparr>"
  have l: "i < length (blocks st1)" "length (bytes (blocks st1 ! i)) = DATA_SIZE" using tail_block [OF 1(2)] by simp_all
  have "fchain 0 (st1\<lparr>blocks := (blocks st1)[last [i] := b]\<rparr>) f [i]"
    by (rule chain_update_last [OF 1(2), where bs = "bytes (blocks st1 ! i)"]) (use l in \<open>simp_all add: b_def\<close>)
  then have c2: "fchain 0 st2 f [i]" by (simp add: st2_def)
  have "reset_file st f = Some st2" using fo 1(1) l(1) by (simp add: reset_file_def st2_def b_def)
  moreover have "content st2 [i] = []" using l(1) by (simp add: content_def block_text_def st2_def b_def)
  moreover have "free_blocks st2 = free_blocks st1" unfolding st2_def using l(1) by (intro free_blocks_same) (simp_all add: b_def)
  moreover have "only_blocks (set cs) st st2"
    unfolding st2_def using only_blocks_trans [OF 1(4)] only_blocks_update [of i "set cs"] cs by simp
  ultimately show ?thesis using that c2 1(3) cs by simp
qed

section \<open>Writing\<close>

lemma skip_full_chain:
  assumes "fchain p st f cs" and "p < DATA_SIZE" and "k < length cs"
  shows "skip_full st (cs ! k) = Some (last cs, st)"
  using assms(3)
proof (induction "length cs - k" arbitrary: k)
  case 0
  then show ?case by simp
next
  case (Suc n)
  note c = chain_in [OF assms(1) Suc.prems]
  show ?case
  proof (cases "k + 1 < length cs")
    case True
    then have "skip_full st (cs ! k) = skip_full st (cs ! (k + 1))"
      using c by (subst skip_full.simps) (simp add: in_chain_def Let_def)
    then show ?thesis using Suc.hyps True by simp
  next
    case False
    then have "k = length cs - 1" using Suc.prems by simp
    moreover have "cs \<noteq> []" using Suc.prems by auto
    ultimately have "cs ! k = last cs" by (simp add: last_conv_nth)
    then show ?thesis using c False assms(2) by (subst skip_full.simps) (simp add: in_chain_def Let_def)
  qed
qed

lemma write_content:
  assumes c: "fchain p st f cs" and p: "p < DATA_SIZE" and f: "f \<noteq> 0" "f_id fo = f" and z: "0 \<notin> set (tl cs)"
    and room: "length bs < DATA_SIZE * (free_blocks st + (if position fo = 0 then length cs else 1)) - (if position fo = 0 then 0 else p)"
  shows "\<exists>st' cs' q. tfsys_write st fo bs (length bs) =
      Some (fo\<lparr>position := position fo + of_nat (length bs)\<rparr>, st') \<and> fchain q st' f cs' \<and> q < DATA_SIZE \<and> hd cs' = hd cs \<and>
    content st' cs' = (if position fo = 0 then [] else content st cs) @ bs \<and>
    (\<forall>i. i \<notin> set cs \<longrightarrow> occupied (blocks st ! i) \<longrightarrow> blocks st' ! i = blocks st ! i)"
proof -
  have ne: "cs \<noteq> []" using c by (simp add: fchain_def)
  obtain st1 cs1 p1 where 1: "(if position fo = 0 then reset_file st f else Some st) = Some st1" "fchain p1 st1 f cs1"
    "p1 < DATA_SIZE" "hd cs1 = hd cs" "content st1 cs1 = (if position fo = 0 then [] else content st cs)"
    "p1 + length bs < DATA_SIZE * (free_blocks st1 + 1)" "only_blocks (set cs) st st1" "set cs1 \<subseteq> set cs"
  proof (cases "position fo = 0")
    case True
    obtain st1 where 1: "reset_file st f = Some st1" "fchain 0 st1 f [hd cs]" "content st1 [hd cs] = []"
      "free_blocks st1 + 1 = free_blocks st + length cs" "only_blocks (set cs) st st1"
      by (rule reset_file_chain [OF c f(1) z])
    then show ?thesis using that [of st1 0 "[hd cs]"] True room ne by simp
  next
    case False
    then show ?thesis using that [of st p cs] c p room by simp
  qed
  have fo1: "get_faddr_by_id st1 f = Some (hd cs1)" and ne1: "cs1 \<noteq> []" using 1(2) by (simp_all add: fchain_def found_def)
  have sk: "skip_full st1 (hd cs1) = Some (last cs1, st1)"
    using skip_full_chain [OF 1(2,3), of 0] ne1 by (simp add: hd_conv_nth)
  obtain st2 cs2 q where 2: "write_loop st1 (last cs1) fo bs (length bs) = Some (fo\<lparr>position := position fo + of_nat (length bs)\<rparr>, st2)"
    "fchain q st2 f cs2" "q < DATA_SIZE" "hd cs2 = hd cs1" "content st2 cs2 = content st1 cs1 @ bs" "only_blocks (set cs2) st1 st2"
    "\<forall>i \<in> set cs2. i \<in> set cs1 \<or> \<not> occupied (blocks st1 ! i)"
    using write_loop_chain [OF 1(2,3,6), of fo] by blast
  have "tfsys_write st fo bs (length bs) = Some (fo\<lparr>position := position fo + of_nat (length bs)\<rparr>, st2)"
    unfolding tfsys_write_def f(2) 1(1) using fo1 sk 2(1) by simp
  moreover have "blocks st2 ! i = blocks st ! i" if "i \<notin> set cs" "occupied (blocks st ! i)" for i
  proof -
    have s: "blocks st1 ! i = blocks st ! i" using 1(7) that(1) by (simp add: only_blocks_def)
    then have "i \<notin> set cs2" using 2(7) 1(8) that by auto
    then show ?thesis using 2(6) s by (simp add: only_blocks_def)
  qed
  ultimately show ?thesis using 1(4,5) 2(2-5) by (intro exI [of _ st2] exI [of _ cs2] exI [of _ q]) simp
qed

section \<open>Reading\<close>

lemma read_skip:
  assumes c: "fchain p st f [i]" and p: "p < DATA_SIZE" and n: "0 < n"
  shows "r \<le> unat (position fo) \<Longrightarrow> unat (position fo) \<le> p \<Longrightarrow>
    read_loop st (Some i) r n fo out = read_loop st (Some i) (unat (position fo)) n fo out"
proof (induction "unat (position fo) - r" arbitrary: r)
  case 0
  then show ?case by simp
next
  case (Suc d)
  then have r: "r < unat (position fo)" "r < p" by simp_all
  have "r < 2 ^ 32" using r(2) p by simp
  then have "\<not> position fo \<le> of_nat r" using r(1) by (simp add: word_le_nat_alt unat_of_nat)
  then have "read_loop st (Some i) r n fo out = read_loop st (Some i) (r + 1) n fo out"
    using tail_block [OF c] r p n by (subst read_loop.simps) (simp add: Let_def)
  also have "\<dots> = read_loop st (Some i) (unat (position fo)) n fo out" using Suc by (intro Suc.hyps(1)) simp_all
  finally show ?case .
qed

lemma read_take:
  assumes c: "fchain p st f [i]" and p: "p < DATA_SIZE"
  shows "unat (position fo) = r \<Longrightarrow> r \<le> p \<Longrightarrow> read_loop st (Some i) r n fo out =
    Some (Some i, fo\<lparr>position := position fo + of_nat (min n (p - r))\<rparr>, out @ take n (drop r (block_text st i)))"
proof (induction "p - r" arbitrary: r n fo out)
  case 0
  then have "r = p" by simp
  moreover have "block_text st i = take p (bytes (blocks st ! i))" using tail_block [OF c] by (simp add: block_text_def)
  ultimately show ?case using tail_block [OF c] by (subst read_loop.simps) simp
next
  case (Suc d)
  then have r: "r < p" by simp
  note l = tail_block [OF c]
  have bt: "block_text st i = take p (bytes (blocks st ! i))" using l by (simp add: block_text_def)
  show ?case
  proof (cases n)
    case 0
    then show ?thesis using l by (subst read_loop.simps) simp
  next
    case (Suc m)
    let ?fo = "fo\<lparr>position := position fo + 1\<rparr>"
    have "unat (of_nat r :: u32) = r" using r p by (simp add: unat_of_nat)
    then have h: "position fo \<le> of_nat r" using Suc.prems(1) by (simp add: word_le_nat_alt)
    let ?x = "bytes (blocks st ! i) ! r"
    have "read_loop st (Some i) r n fo out = read_loop st (Some i) (r + 1) m ?fo (out @ [?x])"
      using l r p h Suc by (subst read_loop.simps) (simp add: Let_def)
    also have "\<dots> = Some (Some i, ?fo\<lparr>position := position ?fo + of_nat (min m (p - (r + 1)))\<rparr>,
        (out @ [?x]) @ take m (drop (r + 1) (block_text st i)))"
    proof (rule Suc.hyps(1))
      show "d = p - (r + 1)" using Suc.hyps(2) by simp
      have "unat (position fo) + 1 < 2 ^ 32" using Suc.prems r p by simp
      then show "unat (position ?fo) = r + 1" using Suc.prems(1) by (simp add: unat_word_ariths)
      show "r + 1 \<le> p" using r by simp
    qed
    also have "\<dots> = Some (Some i, fo\<lparr>position := position fo + of_nat (min n (p - r))\<rparr>, out @ take n (drop r (block_text st i)))"
    proof -
      have "min n (p - r) = Suc (min m (p - (r + 1)))" using r \<open>n = Suc m\<close> by simp
      moreover have "drop r (block_text st i) = ?x # drop (r + 1) (block_text st i)"
        unfolding bt using r p l(4) by (simp add: Cons_nth_drop_Suc [symmetric])
      ultimately show ?thesis using \<open>n = Suc m\<close> by (simp add: add.assoc)
    qed
    finally show ?thesis .
  qed
qed

lemma read_one_block:
  assumes c: "fchain p st f [i]" and p: "p < DATA_SIZE" and fo: "f_id fo = f" "unat (fileLength fo) = p"
    and n: "unat (position fo) + n \<le> p"
  shows "\<exists>fo'. tfsys_read st fo n = Some (take n (drop (unat (position fo)) (content st [i])), fo') \<and>
    position fo' = position fo + of_nat n"
proof -
  let ?pos = "unat (position fo)"
  have s: "unat (position fo + of_nat n) = ?pos + n"
    using n p by (simp add: unat_word_ariths unat_of_nat)
  have nl: "\<not> fileLength fo < position fo + of_nat n" using s n fo(2) by (simp add: word_less_nat_alt)
  define fo1 where "fo1 = (if fileLength fo \<le> position fo + of_nat n then fo\<lparr>eof := 1\<rparr> else fo)"
  have p1: "position fo1 = position fo" by (simp add: fo1_def)
  have fd: "get_faddr_by_id st f = Some i" using c by (simp add: fchain_def found_def)
  have "read_loop st (Some i) 0 n fo1 [] =
      Some (Some i, fo1\<lparr>position := position fo + of_nat n\<rparr>, take n (drop ?pos (block_text st i)))"
  proof (cases "n = 0")
    case True
    then show ?thesis using tail_block [OF c] p1 by (subst read_loop.simps) (simp add: fo1_def)
  next
    case False
    have "read_loop st (Some i) 0 n fo1 [] = read_loop st (Some i) ?pos n fo1 []"
      using read_skip [OF c p, of n 0 fo1 "[]"] False n p1 by simp
    also have "\<dots> = Some (Some i, fo1\<lparr>position := position fo1 + of_nat (min n (p - ?pos))\<rparr>, [] @ take n (drop ?pos (block_text st i)))"
      using n p1 by (intro read_take [OF c p]) simp_all
    also have "min n (p - ?pos) = n" using n by simp
    finally show ?thesis using p1 by simp
  qed
  then show ?thesis
    using tail_block [OF c] nl fd fo(1) unfolding tfsys_read_def fo1_def [symmetric] Let_def
    by (simp add: fo1_def [symmetric] content_def)
qed

text \<open>From position 4036 on nothing is read: the count starts again in every block.\<close>

lemma read_behind_first:
  assumes c: "fchain p st f cs" and pos: "DATA_SIZE \<le> unat (position fo)"
  shows "k < length cs \<Longrightarrow> r < DATA_SIZE \<Longrightarrow> \<exists>m. read_loop st (Some (cs ! k)) r n fo out = Some (m, fo, out) \<and>
    (m = None \<or> (\<exists>i \<in> set cs. m = Some i))"
proof (induction "DATA_SIZE * (length cs - k) - r" arbitrary: k r rule: less_induct)
  case less
  note b = chain_in [OF c less.prems(1)]
  let ?b = "blocks st ! (cs ! k)"
  have in_k: "cs ! k \<in> set cs" using less.prems(1) by simp
  have bl: "cs ! k < length (blocks st)" "length (bytes ?b) = DATA_SIZE" "btype ?b \<noteq> Dir"
    using b by (auto simp: in_chain_def Let_def split: if_splits)
  show ?case
  proof (cases "r < data_pointer ?b \<and> 0 < n")
    case False
    then have "read_loop st (Some (cs ! k)) r n fo out = Some (Some (cs ! k), fo, out)"
      using bl by (subst read_loop.simps) (simp only: option.simps if_False get_block_in Option.bind.simps)
    then show ?thesis using in_k by auto
  next
    case True
    have "unat (of_nat r :: u32) = r" using less.prems(2) by (simp add: unat_of_nat)
    then have h: "\<not> position fo \<le> of_nat r" using pos less.prems(2) by (simp add: word_le_nat_alt)
    have s: "read_loop st (Some (cs ! k)) r n fo out =
      read_loop st (if r + 1 = DATA_SIZE then child_block ?b else Some (cs ! k)) (if r + 1 = DATA_SIZE then 0 else r + 1) n fo out"
      using bl True h less.prems by (subst read_loop.simps) (simp add: Let_def)
    show ?thesis
    proof (cases "r + 1 = DATA_SIZE")
      case False
      then show ?thesis using less.hyps [of k "r + 1"] less.prems s by simp
    next
      case r: True
      show ?thesis
      proof (cases "k + 1 < length cs")
        case True
        then have "child_block ?b = Some (cs ! (k + 1))" using b by (simp add: in_chain_def Let_def)
        moreover have "DATA_SIZE * (length cs - (k + 1)) - 0 < DATA_SIZE * (length cs - k) - r"
        proof -
          have "length cs - k = Suc (length cs - (k + 1))" using True by simp
          then show ?thesis using less.prems(2) by simp
        qed
        ultimately show ?thesis using less.hyps [of "k + 1" 0] True s r by simp
      next
        case False
        then have "child_block ?b = None" using b by (simp add: in_chain_def Let_def)
        then have "read_loop st (Some (cs ! k)) r n fo out = Some (None, fo, out)"
          using s r by (simp add: read_loop.simps [of st None])
        then show ?thesis by auto
      qed
    qed
  qed
qed

lemma read_nothing_behind_first:
  assumes c: "fchain p st f cs" and fo: "f_id fo = f" and pos: "DATA_SIZE \<le> unat (position fo)"
  shows "\<exists>fo'. tfsys_read st fo n = Some ([], fo') \<and> position fo' = position fo"
proof -
  have ne: "cs \<noteq> []" and fd: "get_faddr_by_id st f = Some (cs ! 0)" using c by (simp_all add: fchain_def found_def hd_conv_nth)
  define fo1 where "fo1 = (if fileLength fo \<le> position fo + of_nat n then fo\<lparr>eof := 1\<rparr> else fo)"
  have p1: "position fo1 = position fo" by (simp add: fo1_def)
  obtain m where m: "read_loop st (Some (cs ! 0)) 0 n fo1 [] = Some (m, fo1, [])" "m = None \<or> (\<exists>i \<in> set cs. m = Some i)"
    using read_behind_first [OF c, of fo1 0 0 n "[]"] pos p1 ne by auto
  have "\<exists>e. (case m of None \<Rightarrow> Some True | Some i \<Rightarrow> do { b \<leftarrow> get_block st i; Some (data_pointer b = 0) }) = Some e"
    using m(2) chain_occupied [OF c] by auto
  then show ?thesis
    using m(1) fd fo p1 unfolding tfsys_read_def fo1_def [symmetric] Let_def by (auto simp: fo1_def [symmetric])
qed

section \<open>Creating a file\<close>

lemma holds_take: "holds (s @ 0 # r) s \<Longrightarrow> length s < n \<Longrightarrow> holds (take n (s @ 0 # r) @ t) s"
  by (auto simp: holds_def take_Cons' min_def)

lemma name_field_holds:
  assumes "holds b s" and "length s \<le> 9"
  obtains nm where "name_field junk b = Some nm" "holds (take 10 nm @ t) s"
proof -
  have "take (min 31 (length s)) b = s" using assms by (auto simp: holds_def)
  then have "name_field junk b = Some (s @ [0] @ drop (length s + 1) junk)"
    using assms by (simp add: name_field_def strlen_holds)
  moreover have "holds (take 10 (s @ 0 # drop (length s + 1) junk) @ t) s"
    using assms by (intro holds_take) (auto simp: holds_def)
  ultimately show ?thesis using that by simp
qed

text \<open>A root directory with a free record whose first record is the directory itself.\<close>

definition root_ok :: "tmpfs \<Rightarrow> bool" where
  "root_ok st \<longleftrightarrow> blocks st \<noteq> [] \<and> btype (blocks st ! 0) = Dir \<and> bfid (blocks st ! 0) = 0 \<and> occupied (blocks st ! 0) \<and>
     records (blocks st ! 0) \<noteq> [] \<and> roccupied (records (blocks st ! 0) ! 0) \<and>
     holds (rname (records (blocks st ! 0) ! 0)) [46] \<and> (\<exists>x \<in> set (records (blocks st ! 0)). \<not> roccupied x)"

definition fresh_fid :: "tmpfs \<Rightarrow> bool" where
  "fresh_fid st \<longleftrightarrow> (\<forall>b \<in> set (blocks st). btype b \<noteq> SubFile \<longrightarrow> bfid b \<noteq> get_next_fid st)"

lemma create_file_in_root:
  assumes r: "root_ok st" and fr: "0 < free_blocks st" and n: "holds fname s" "length s \<le> 9"
  obtains st' j k x where "touch st fname 0 = Some st'" "j \<noteq> 0" "j < length (blocks st)" "\<not> occupied (blocks st ! j)"
    "blocks st' ! j = zero_block\<lparr>parent_block := Some 0, btype := File, bfid := get_next_fid st, bid := j, occupied := True, bname := bname (blocks st' ! j)\<rparr>"
    "blocks st' ! 0 = (blocks st ! 0)\<lparr>records := records (blocks st' ! 0)\<rparr>"
    "\<forall>i. i \<noteq> 0 \<longrightarrow> i \<noteq> j \<longrightarrow> blocks st' ! i = blocks st ! i" "length (blocks st') = length (blocks st)"
    "k \<noteq> 0" "k < length (records (blocks st' ! 0))" "records (blocks st' ! 0) ! k = x" "rfid x = get_next_fid st" "holds (rname x) s"
    "records (blocks st' ! 0) ! 0 = (records (blocks st ! 0) ! 0)\<lparr>next_record := Some k\<rparr>"
proof -
  let ?r = "blocks st ! 0"
  let ?rs = "records ?r"
  let ?fid = "get_next_fid st"
  have r0: "0 < length (blocks st)" "btype ?r = Dir" "bfid ?r = 0" "occupied ?r" "0 < length ?rs" "roccupied (?rs ! 0)"
    using r by (simp_all add: root_ok_def)
  obtain j where j: "get_free_block st = Some j" "j < length (blocks st)" "\<not> occupied (blocks st ! j)"
    by (rule free_block_exists [OF fr])
  have j0: "j \<noteq> 0" by (rule ccontr) (use j(3) r0(4) in simp)
  obtain nm where nm: "name_field (heap_junk st) fname = Some nm" "holds (take 10 nm @ drop 10 (heap_junk st)) s"
    by (rule name_field_holds [OF n])
  obtain k where k: "first_index (\<lambda>x. \<not> roccupied x) ?rs = Some k"
    using r first_index_None [of "\<lambda>x. \<not> roccupied x" ?rs] by (cases "first_index (\<lambda>x. \<not> roccupied x) ?rs") (auto simp: root_ok_def)
  then have kl: "k < length ?rs" "\<not> roccupied (?rs ! k)" by (simp_all add: first_index_Some)
  have k0: "k \<noteq> 0" by (rule ccontr) (use kl(2) r0(6) in simp)
  have fo: "get_faddr_by_id st 0 = Some 0" using r0 by (simp add: get_faddr_by_id_def first_index_Some)
  define nb where "nb = zero_block\<lparr>parent_block := Some 0, btype := File, bfid := ?fid, bid := j, occupied := True, bname := nm\<rparr>"
  define x where "x = \<lparr>rfid = ?fid, rname = take 10 nm @ drop 10 (heap_junk st), roccupied = True, next_record = next_record (?rs ! 0)\<rparr>"
  define rs where "rs = ?rs[0 := (?rs ! 0)\<lparr>next_record := Some k\<rparr>, k := x]"
  define st1 where "st1 = st\<lparr>blocks := (blocks st)[j := nb]\<rparr>"
  define st2 where "st2 = st1\<lparr>blocks := (blocks st1)[0 := ?r\<lparr>records := rs\<rparr>]\<rparr>"
  have b1: "blocks st1 ! 0 = ?r" "length (blocks st1) = length (blocks st)" using j0 by (simp_all add: st1_def)
  have "add_record_to_dir st1 ?fid nm 0 = Some st2"
    using b1 r0 k kl k0 by (simp add: add_record_to_dir_def dir_records_def st2_def rs_def x_def) (simp add: st1_def)
  moreover have "set_block st j nb = Some st1" using j(2) by (simp add: st1_def)
  ultimately have "create_block st 0 File fname = Some (j, st2)"
    using r0(1) nm(1) j(1) by (simp add: create_block_def Let_def nb_def)
  moreover have "j < length (blocks st2)" using j(2) b1 by (simp add: st2_def)
  ultimately have t: "touch st fname 0 = Some st2" using fo by (simp add: touch_def create_file_def)
  have bj: "blocks st2 ! j = nb" using j0 j(2) by (simp add: st2_def st1_def)
  have b0: "blocks st2 ! 0 = ?r\<lparr>records := rs\<rparr>" using r0(1) b1 by (simp add: st2_def)
  show ?thesis
  proof (rule that [OF t j0 j(2,3), of k x])
    show "blocks st2 ! j = zero_block\<lparr>parent_block := Some 0, btype := File, bfid := ?fid, bid := j, occupied := True, bname := bname (blocks st2 ! j)\<rparr>"
      unfolding bj by (simp add: nb_def)
    show "blocks st2 ! 0 = ?r\<lparr>records := records (blocks st2 ! 0)\<rparr>" unfolding b0 by simp
    show "\<forall>i. i \<noteq> 0 \<longrightarrow> i \<noteq> j \<longrightarrow> blocks st2 ! i = blocks st ! i" by (simp add: st2_def st1_def)
    show "length (blocks st2) = length (blocks st)" by (simp add: st2_def st1_def)
    show "k \<noteq> 0" by (rule k0)
    show "k < length (records (blocks st2 ! 0))" unfolding b0 using kl by (simp add: rs_def)
    show "records (blocks st2 ! 0) ! k = x" unfolding b0 using kl by (simp add: rs_def)
    show "rfid x = ?fid" "holds (rname x) s" using nm(2) by (simp_all add: x_def)
    show "records (blocks st2 ! 0) ! 0 = (?rs ! 0)\<lparr>next_record := Some k\<rparr>" unfolding b0 using k0 r0(5) by (simp add: rs_def)
  qed
qed

lemma create_then_open:
  assumes r: "root_ok st" and fr: "0 < free_blocks st" "fresh_fid st" and n: "holds fname s" "length s \<le> 9" "s \<noteq> [46]"
    and d: "f_flags dir = FS_DIRECTORY" "f_id dir = 0"
  shows "\<exists>st' f j. tfsys_create st dir fname FS_FILE = Some st' \<and> tfsys_root_open junk st' fname = Some f \<and>
    f_flags f = FS_FILE \<and> position f = 0 \<and> fileLength f = 0 \<and> f_id f = get_next_fid st \<and> f_id f \<noteq> 0 \<and>
    fchain 0 st' (f_id f) [j] \<and> free_blocks st' + 1 = free_blocks st"
proof -
  let ?fid = "get_next_fid st"
  obtain st' j k x where t: "touch st fname 0 = Some st'" "j \<noteq> 0" "j < length (blocks st)" "\<not> occupied (blocks st ! j)"
    "blocks st' ! j = zero_block\<lparr>parent_block := Some 0, btype := File, bfid := ?fid, bid := j, occupied := True, bname := bname (blocks st' ! j)\<rparr>"
    and b0: "blocks st' ! 0 = (blocks st ! 0)\<lparr>records := records (blocks st' ! 0)\<rparr>"
    and bo: "\<forall>i. i \<noteq> 0 \<longrightarrow> i \<noteq> j \<longrightarrow> blocks st' ! i = blocks st ! i" "length (blocks st') = length (blocks st)"
    and k: "k \<noteq> 0" "k < length (records (blocks st' ! 0))" "records (blocks st' ! 0) ! k = x" "rfid x = ?fid" "holds (rname x) s"
    "records (blocks st' ! 0) ! 0 = (records (blocks st ! 0) ! 0)\<lparr>next_record := Some k\<rparr>"
    by (rule create_file_in_root [OF r fr(1) n(1,2)])
  have r0: "0 < length (blocks st)" "btype (blocks st ! 0) = Dir" "bfid (blocks st ! 0) = 0" "occupied (blocks st ! 0)"
    "holds (rname (records (blocks st ! 0) ! 0)) [46]" using r by (simp_all add: root_ok_def)
  have fid0: "?fid \<noteq> 0" using fr(2) r0(1,2,3) by (auto simp: fresh_fid_def dest!: bspec [OF _ nth_mem])
  have key: "bfid (blocks st' ! i) = bfid (blocks st ! i) \<and> btype (blocks st' ! i) = btype (blocks st ! i)" if "i \<noteq> j" for i
  proof (cases "i = 0")
    case True
    then show ?thesis unfolding True by (subst b0, subst b0) simp
  next
    case False
    then show ?thesis using bo(1) that by simp
  qed
  have nj: "bfid (blocks st' ! j) = ?fid" "btype (blocks st' ! j) = File" "bid (blocks st' ! j) = j" "occupied (blocks st' ! j)"
    "child_block (blocks st' ! j) = None" "data_pointer (blocks st' ! j) = 0" "length (bytes (blocks st' ! j)) = DATA_SIZE"
    by (subst t(5), simp add: zero_block_def)+
  have "\<not> (bfid (blocks st' ! i) = ?fid \<and> btype (blocks st' ! i) \<noteq> SubFile)" if "i < j" for i
    using fr(2) that t(3) key [of i] by (auto simp: fresh_fid_def)
  then have fo: "found st' ?fid j" using t(3) nj bo(2) by (auto simp: found_iff)
  then have fc: "fchain 0 st' ?fid [j]" using nj t(3) bo(2) by (simp add: fchain_def in_chain_def)
  have fj: "get_faddr_by_id st' ?fid = Some j" using fo by (simp add: found_def)
  have z: "btype (blocks st' ! 0) = Dir" "bfid (blocks st' ! 0) = 0" using key [of 0] t(2) r0 by simp_all
  then have f0: "get_faddr_by_id st' 0 = Some 0" using r0(1) bo(2) by (simp add: get_faddr_by_id_def first_index_Some)
  let ?rs = "records (blocks st' ! 0)"
  have rec: "record_by_name ?rs fname (Some 0) = Some (Some x)"
  proof -
    have "strcmp (rname (?rs ! 0)) fname = Some False" unfolding k(6) using strcmp_holds [OF r0(5) n(1)] n(3) by simp
    moreover have "strcmp (rname x) fname = Some True" using strcmp_holds [OF k(5) n(1)] by simp
    moreover have "0 < length ?rs" using k(2) by linarith
    ultimately have "record_by_name ?rs fname (Some 0) = record_by_name ?rs fname (Some k)"
      by (subst record_by_name.simps) (simp add: k(6))
    also have "\<dots> = Some (Some x)" using k(2,3) \<open>strcmp (rname x) fname = Some True\<close> by (subst record_by_name.simps) simp
    finally show ?thesis .
  qed
  have jl: "j < length (blocks st')" using t(3) bo(2) by simp
  have sz: "file_size st' ?fid = Some 0"
    using fj jl nj by (simp add: file_size_def size_loop.simps [of st' "Some j"] size_loop.simps [of st' None])
  obtain f1 where f1: "set_name junk (rname x) = Some f1" using k(5) n(2) by (simp add: set_name_def strlen_holds)
  define f where "f = f1\<lparr>eof := 0, position := 0, fileLength := 0, DateCreated := 0, TimeCreated := 0, f_flags := FS_FILE, f_id := ?fid\<rparr>"
  have "record_file junk st' x = Some f"
    using f1 sz fj jl nj(2) k(4) by (simp add: record_file_def f_def)
  then have o: "tfsys_root_open junk st' fname = Some f"
    using f0 r0(1) bo(2) z rec by (simp add: tfsys_root_open_def open_in_dir_def dir_records_def)
  have c: "tfsys_create st dir fname FS_FILE = Some st'" using d t(1) by (simp add: tfsys_create_def)
  have "occupied (blocks st' ! 0) = occupied (blocks st ! 0)" by (subst b0) simp
  then have oc: "occupied (blocks st' ! i) = (i = j \<or> occupied (blocks st ! i))" for i
    using bo(1) nj(4) t(2) by (cases "i = 0"; cases "i = j") auto
  have fb: "free_blocks st' + 1 = free_blocks st"
  proof -
    have nfree: "\<not> occupied (blocks st ! j)" by (rule t(4))
    let ?F = "\<lambda>st. {i. i < length (blocks st) \<and> \<not> occupied (blocks st ! i)}"
    have F: "?F st' = ?F st - {j}" using oc bo(2) by auto
    have "j \<in> ?F st" using t(3) nfree by simp
    then have "card (?F st) = Suc (card (?F st - {j}))" by (intro card.remove) simp_all
    then show ?thesis unfolding free_blocks_def F by simp
  qed
  show ?thesis
    by (rule exI [of _ st'], rule exI [of _ f], rule exI [of _ j]) (use c o fid0 fc fb in \<open>simp add: f_def\<close>)
qed

section \<open>Sizes\<close>

lemma block_text_length:
  assumes "fchain p st f cs" and "k < length cs"
  shows "length (block_text st (cs ! k)) = (if k + 1 < length cs then DATA_SIZE else p)"
  using chain_in [OF assms] assms(1) by (simp add: in_chain_def Let_def block_text_def fchain_def)

lemma size_loop_chain:
  assumes c: "fchain p st f cs"
  shows "k < length cs \<Longrightarrow> size_loop st (Some (cs ! k)) n = Some (n + of_nat (length (content st (drop k cs))))"
proof (induction "length cs - k" arbitrary: k n)
  case (Suc m)
  note i = chain_in [OF c Suc.prems, unfolded in_chain_def Let_def]
  have t: "length (block_text st (cs ! k)) = data_pointer (blocks st ! (cs ! k))"
    using block_text_length [OF c Suc.prems] i by simp
  have d: "content st (drop k cs) = block_text st (cs ! k) @ content st (drop (k + 1) cs)"
    using Suc.prems by (simp add: content_def Cons_nth_drop_Suc [symmetric])
  show ?case
  proof (cases "k + 1 < length cs")
    case True
    have "size_loop st (Some (cs ! (k + 1))) (n + of_nat (data_pointer (blocks st ! (cs ! k)))) =
        Some (n + of_nat (data_pointer (blocks st ! (cs ! k))) + of_nat (length (content st (drop (k + 1) cs))))"
      using Suc.hyps(2) True by (intro Suc.hyps(1)) simp_all
    then show ?thesis using i True d t by (subst size_loop.simps) (simp add: add.assoc)
  next
    case False
    then have "content st (drop (k + 1) cs) = []" by (simp add: content_def)
    then show ?thesis using i False d t by (subst size_loop.simps) (simp add: size_loop.simps [of st None])
  qed
qed simp

lemma file_size_chain:
  assumes c: "fchain p st f cs"
  shows "file_size st f = Some (of_nat (length (content st cs)))"
proof -
  have "cs \<noteq> []" and "get_faddr_by_id st f = Some (cs ! 0)" using c by (simp_all add: fchain_def found_def hd_conv_nth)
  then show ?thesis using size_loop_chain [OF c, of 0 0] by (simp add: file_size_def)
qed

lemma short_chain:
  assumes c: "fchain p st f cs" and l: "length (content st cs) < DATA_SIZE"
  shows "cs = [hd cs]" "p = length (content st cs)"
proof -
  obtain i js where cs: "cs = i # js" using c by (cases cs) (simp_all add: fchain_def)
  have t: "length (block_text st i) = (if js \<noteq> [] then DATA_SIZE else p)" using block_text_length [OF c, of 0] cs by simp
  then have "js = []" using l cs by (cases "js = []") (simp_all add: content_def)
  then show "cs = [hd cs]" "p = length (content st cs)" using cs t by (simp_all add: content_def)
qed

lemma write_then_read:
  assumes c: "fchain p st f cs" and p: "p < DATA_SIZE" and f: "f \<noteq> 0" "f_id fo = f" "position fo = 0" and z: "0 \<notin> set (tl cs)"
    and bs: "length bs < DATA_SIZE"
    and fr: "f_id fr = f" "fileLength fr = of_nat (length bs)" "unat (position fr) + n \<le> length bs"
  shows "\<exists>fo' st' fr'. tfsys_write st fo bs (length bs) = Some (fo', st') \<and> file_size st' f = Some (of_nat (length bs)) \<and>
    tfsys_read st' fr n = Some (take n (drop (unat (position fr)) bs), fr') \<and> position fr' = position fr + of_nat n"
proof -
  have ne: "cs \<noteq> []" using c by (simp add: fchain_def)
  have "DATA_SIZE * 1 \<le> DATA_SIZE * (free_blocks st + length cs)" using ne by (intro mult_le_mono2) (cases cs; simp)
  then have "length bs < DATA_SIZE * (free_blocks st + (if position fo = 0 then length cs else 1)) - (if position fo = 0 then 0 else p)"
    using bs f(3) by simp
  from write_content [OF c p f(1,2) z this] obtain st' cs' q where
    w: "tfsys_write st fo bs (length bs) = Some (fo\<lparr>position := position fo + of_nat (length bs)\<rparr>, st')"
      "fchain q st' f cs'" "q < DATA_SIZE" "content st' cs' = bs" using f(3) by auto
  have s: "cs' = [hd cs']" "q = length bs" using short_chain [OF w(2)] w(4) bs by simp_all
  have u: "unat (fileLength fr) = q" using fr(2) s(2) bs by (simp add: unat_of_nat)
  have "content st' [hd cs'] = bs" using w(4) s(1) by simp
  moreover have "fchain q st' f [hd cs']" using w(2) s(1) by simp
  ultimately have "\<exists>fr'. tfsys_read st' fr n = Some (take n (drop (unat (position fr)) bs), fr') \<and> position fr' = position fr + of_nat n"
    using read_one_block [of q st' f "hd cs'" fr n] w(3) fr(1,3) u s(2) by simp
  moreover have "file_size st' f = Some (of_nat (length bs))" using file_size_chain [OF w(2)] w(4) by simp
  ultimately show ?thesis using w(1) by auto
qed

section \<open>Properties\<close>

text \<open>Three blocks: the root directory with its first record, an empty file, and a free block.\<close>

definition sample_fs :: tmpfs where
  "sample_fs = \<lparr>blocks =
     [zero_block\<lparr>parent_block := Some 0, btype := Dir, occupied := True,
        records := (zero_record\<lparr>rname := [46, 0], roccupied := True\<rparr>) # replicate 90 zero_record\<rparr>,
      zero_block\<lparr>parent_block := Some 0, bfid := 1, bid := 1, occupied := True\<rparr>,
      zero_block], heap_junk = replicate 32 0\<rparr>"

definition sample_file :: fobj where
  "sample_file = \<lparr>f_name = [97, 0], f_flags = FS_FILE, fileLength = 0, f_id = 1, eof = 0, position = 0, abs_position = 0,
     currentCluster = 0, deviceID = 0, TimeCreated = 0, DateCreated = 0, parentCluster = 0\<rparr>"

lemma sample_file_chain: "fchain 0 sample_fs 1 [1]"
  by (simp add: fchain_def in_chain_def sample_fs_def zero_block_def found_iff less_Suc_eq)

lemma sample_free: "free_blocks sample_fs = 1"
proof -
  have "{i. i < length (blocks sample_fs) \<and> \<not> occupied (blocks sample_fs ! i)} = {2}"
    by (auto simp: sample_fs_def zero_block_def less_Suc_eq numeral_2_eq_2)
  then show ?thesis by (simp add: free_blocks_def)
qed

lemma sample_root: "root_ok sample_fs" "get_next_fid sample_fs = 2" "fresh_fid sample_fs"
  by (simp_all add: root_ok_def fresh_fid_def sample_fs_def zero_block_def zero_record_def get_next_fid_def holds_def)

text \<open>
  C29: writing to a file in memory replaces its content when the position is 0, and appends to it
  otherwise, over as many new blocks as the bytes need: the file's chain of blocks then holds
  exactly these bytes, the position moves by their number, and no occupied block of another file
  or directory changes.
\<close>

theorem tmpfs_write_content:
  assumes "fchain p st f cs" and "p < DATA_SIZE" and "f \<noteq> 0" and "f_id fo = f" and "0 \<notin> set (tl cs)"
    and "length bs < DATA_SIZE * (free_blocks st + (if position fo = 0 then length cs else 1)) - (if position fo = 0 then 0 else p)"
  shows "\<exists>st' cs' q. tfsys_write st fo bs (length bs) =
      Some (fo\<lparr>position := position fo + of_nat (length bs)\<rparr>, st') \<and> fchain q st' f cs' \<and> q < DATA_SIZE \<and> hd cs' = hd cs \<and>
    content st' cs' = (if position fo = 0 then [] else content st cs) @ bs \<and>
    (\<forall>i. i \<notin> set cs \<longrightarrow> occupied (blocks st ! i) \<longrightarrow> blocks st' ! i = blocks st ! i)"
  by (rule write_content [OF assms])

theorem tmpfs_write_content_witness:
  "\<exists>st' cs' q. tfsys_write sample_fs sample_file [65, 66] (length [65 :: u8, 66]) =
      Some (sample_file\<lparr>position := position sample_file + of_nat (length [65 :: u8, 66])\<rparr>, st') \<and>
    fchain q st' 1 cs' \<and> q < DATA_SIZE \<and> hd cs' = hd [1] \<and>
    content st' cs' = (if position sample_file = 0 then [] else content sample_fs [1]) @ [65, 66] \<and>
    (\<forall>i. i \<notin> set [1] \<longrightarrow> occupied (blocks sample_fs ! i) \<longrightarrow> blocks st' ! i = blocks sample_fs ! i)"
  by (rule tmpfs_write_content [OF sample_file_chain]) (simp_all add: sample_file_def sample_free)

text \<open>
  C30: up to 4035 bytes written to a file in memory from position 0 on are read back: the size
  that a later opening computes is their number, and reading any part of them returns these
  bytes and moves the position behind them.
\<close>

theorem tmpfs_write_read:
  assumes "fchain p st f cs" and "p < DATA_SIZE" and "f \<noteq> 0" and "f_id fo = f" and "position fo = 0" and "0 \<notin> set (tl cs)"
    and "length bs < DATA_SIZE"
    and "f_id fr = f" and "fileLength fr = of_nat (length bs)" and "unat (position fr) + n \<le> length bs"
  shows "\<exists>fo' st' fr'. tfsys_write st fo bs (length bs) = Some (fo', st') \<and> file_size st' f = Some (of_nat (length bs)) \<and>
    tfsys_read st' fr n = Some (take n (drop (unat (position fr)) bs), fr') \<and> position fr' = position fr + of_nat n"
  by (rule write_then_read [OF assms])

theorem tmpfs_write_read_witness:
  "\<exists>fo' st' fr'. tfsys_write sample_fs sample_file [65, 66, 67] (length [65 :: u8, 66, 67]) = Some (fo', st') \<and>
    file_size st' 1 = Some (of_nat (length [65 :: u8, 66, 67])) \<and>
    tfsys_read st' (sample_file\<lparr>fileLength := 3, position := 1\<rparr>) 2 =
      Some (take 2 (drop (unat (position (sample_file\<lparr>fileLength := 3, position := 1\<rparr>))) [65, 66, 67]), fr') \<and>
    position fr' = position (sample_file\<lparr>fileLength := 3, position := 1\<rparr>) + of_nat 2"
  by (rule tmpfs_write_read [OF sample_file_chain]) (simp_all add: sample_file_def)

text \<open>
  C31: creating a file in the root directory with a name of up to nine characters succeeds while a
  block and a record are free, and opening the name afterwards finds the new file: empty, at
  position 0, with the identifier the creation chose, in one new block.
\<close>

theorem tmpfs_create_open:
  assumes "root_ok st" and "0 < free_blocks st" and "fresh_fid st" and "holds fname s" and "length s \<le> 9" and "s \<noteq> [46]"
    and "f_flags dir = FS_DIRECTORY" and "f_id dir = 0"
  shows "\<exists>st' f j. tfsys_create st dir fname FS_FILE = Some st' \<and> tfsys_root_open junk st' fname = Some f \<and>
    f_flags f = FS_FILE \<and> position f = 0 \<and> fileLength f = 0 \<and> f_id f = get_next_fid st \<and> f_id f \<noteq> 0 \<and>
    fchain 0 st' (f_id f) [j] \<and> free_blocks st' + 1 = free_blocks st"
  by (rule create_then_open [OF assms])

theorem tmpfs_create_open_witness:
  "\<exists>st' f j. tfsys_create sample_fs (sample_file\<lparr>f_flags := FS_DIRECTORY, f_id := 0\<rparr>) [98, 0] FS_FILE = Some st' \<and>
    tfsys_root_open sample_file st' [98, 0] = Some f \<and>
    f_flags f = FS_FILE \<and> position f = 0 \<and> fileLength f = 0 \<and> f_id f = get_next_fid sample_fs \<and> f_id f \<noteq> 0 \<and>
    fchain 0 st' (f_id f) [j] \<and> free_blocks st' + 1 = free_blocks sample_fs"
  by (rule tmpfs_create_open [OF sample_root(1) _ sample_root(3), where s = "[98]"]) (simp_all add: sample_free holds_def)

text \<open>
  From position 4036 on nothing of a file in memory can be read, whatever it contains: the
  reading succeeds and returns no bytes, because the count of the bytes passed starts again in
  every block.
\<close>

theorem tmpfs_reads_first_block_only:
  assumes "fchain p st f cs" and "f_id fo = f" and "DATA_SIZE \<le> unat (position fo)"
  shows "\<exists>fo'. tfsys_read st fo n = Some ([], fo') \<and> position fo' = position fo"
  by (rule read_nothing_behind_first [OF assms])

theorem tmpfs_reads_first_block_only_witness:
  "\<exists>fo'. tfsys_read sample_fs (sample_file\<lparr>position := 5000, fileLength := 6000\<rparr>) 1 = Some ([], fo') \<and>
    position fo' = position (sample_file\<lparr>position := 5000, fileLength := 6000\<rparr>)"
  by (rule tmpfs_reads_first_block_only [OF sample_file_chain]) (simp_all add: sample_file_def)

end
