(* ===== verification/Format.thy ===== *)
theory Format
  imports Cstr
begin

text \<open>
  Formatted output: \<^verbatim>\<open>gfx_vprintf\<close> of \<^verbatim>\<open>kernel/window_sys.c\<close>, \<^verbatim>\<open>screen_vprintf\<close> of
  \<^verbatim>\<open>drivers/screen.c\<close>, \<^verbatim>\<open>sprintf\<close> of \<^verbatim>\<open>utils/strings.c\<close> and \<^verbatim>\<open>deprecated_printf\<close> of
  \<^verbatim>\<open>root/cstdlib/stdio.c\<close>.  All four walk the format in the same way; they differ in the
  conversions they know and in the backslashes they drop.  The walk delivers the characters in the
  order in which they are printed or stored, and the index of the directive that stopped it, if
  one is unknown.  An argument is an \<^verbatim>\<open>int\<close> or a string; \<open>None\<close> is the use of one as the other, a
  missing argument, or a number whose text does not fit.  \<open>buff\<close> is the uninitialised local buffer
  of 30 bytes, \<open>addr\<close> the address of the format.
\<close>

datatype arg = AInt int | AStr "buffer option"

section \<open>Conversions\<close>

definition c_text :: "buffer \<Rightarrow> u8 list option" where
  "c_text b = do { n \<leftarrow> strlen b; Some (take n b) }"

definition number :: "buffer option \<Rightarrow> u8 list option" where
  "number b = do { b \<leftarrow> b; c_text b }"

abbreviation kernel_directives :: "u8 list" where "kernel_directives \<equiv> [100, 117, 85, 99, 115, 120, 88, 98]"
abbreviation sprintf_directives :: "u8 list" where "sprintf_directives \<equiv> [100, 99, 115, 120, 98]"
abbreviation user_directives :: "u8 list" where "user_directives \<equiv> [100, 117, 85, 99, 115, 120, 98]"

text \<open>\<^verbatim>\<open>%d %u %U %c %x %X %b\<close> take a number, \<^verbatim>\<open>%s\<close> a string.\<close>

fun kernel_conv :: "buffer \<Rightarrow> u8 \<Rightarrow> arg \<Rightarrow> u8 list option" where
  "kernel_conv buff k (AInt n) =
     (if k = 100 then number (int_to_str n buff 10)
      else if k = 117 then number (uint_to_str n buff 10)
      else if k = 85 then number (uint_to_str n buff 16)
      else if k = 99 then Some [word_of_int n]
      else if k = 120 then number (int_to_str n buff 16)
      else if k = 88 then number (byte_to_str (word_of_int n) buff 16)
      else if k = 98 then number (int_to_str n buff 2)
      else None)"
| "kernel_conv buff k (AStr s) = (if k = 115 then number s else None)"

text \<open>The \<^verbatim>\<open>strlen\<close> that \<^verbatim>\<open>sprintf\<close> calls gives 0 for a null pointer.\<close>

fun sprintf_conv :: "buffer \<Rightarrow> u8 \<Rightarrow> arg \<Rightarrow> u8 list option" where
  "sprintf_conv buff k (AInt n) =
     (if k = 100 then number (int_to_str n buff 10)
      else if k = 99 then Some [word_of_int n]
      else if k = 120 then number (int_to_str n buff 16)
      else if k = 98 then number (int_to_str n buff 2)
      else None)"
| "sprintf_conv buff k (AStr s) =
     (if k = 115 then (case s of None \<Rightarrow> Some [] | Some b \<Rightarrow> c_text b) else None)"

text \<open>The user library prints a character as a string of one byte.\<close>

fun user_conv :: "buffer \<Rightarrow> u8 \<Rightarrow> arg \<Rightarrow> u8 list option" where
  "user_conv buff k (AInt n) =
     (if k = 100 then number (itoa n buff 10)
      else if k = 117 then number (uitoa (word_of_int n) buff 10)
      else if k = 85 then number (uitoa (word_of_int n) buff 16)
      else if k = 99 then c_text [word_of_int n, 0]
      else if k = 120 then number (itoa n buff 16)
      else if k = 98 then number (itoa n buff 2)
      else None)"
| "user_conv buff k (AStr s) = (if k = 115 then number s else None)"

section \<open>The walk over the format\<close>

text \<open>
  A percent sign starts a directive unless a backslash precedes it.  A backslash is dropped in front
  of a percent sign, or everywhere (\<open>every\<close>).
\<close>

definition drops_backslash :: "bool \<Rightarrow> buffer \<Rightarrow> nat \<Rightarrow> u8 \<Rightarrow> bool option" where
  "drops_backslash every fmt i c =
     (if c \<noteq> 92 then Some False else if every then Some True else do { d \<leftarrow> aget fmt (i + 1); Some (d = 37) })"

function format_loop ::
  "(u8 \<Rightarrow> arg \<Rightarrow> u8 list option) \<Rightarrow> u8 list \<Rightarrow> bool \<Rightarrow> buffer \<Rightarrow> nat \<Rightarrow> arg list \<Rightarrow> (u8 list \<times> nat option) option" where
  "format_loop conv known every fmt i args = do {
     c \<leftarrow> aget fmt i;
     if c = 0 then Some ([], None)
     else if c = 37 \<and> (i = 0 \<or> fmt ! (i - 1) \<noteq> 92) then do {
       k \<leftarrow> aget fmt (i + 1);
       if k \<in> set known then do {
         guard (args \<noteq> []);
         t \<leftarrow> conv k (hd args);
         (out, u) \<leftarrow> format_loop conv known every fmt (i + 2) (tl args);
         Some (t @ out, u) }
       else Some ([], Some (i + 1)) }
     else do {
       d \<leftarrow> drops_backslash every fmt i c;
       (out, u) \<leftarrow> format_loop conv known every fmt (i + 1) args;
       Some (if d then out else c # out, u) } }"
  by pat_completeness auto
termination by (relation "measure (\<lambda>(conv, known, every, fmt, i, args). length fmt - i)")
  (auto simp: aget_def split: if_splits)

declare format_loop.simps [simp del]

text \<open>\<^verbatim>\<open>Unknown format type %\<close>, and the low byte of the directive's address as a character.\<close>

definition unknown_format :: "u32 \<Rightarrow> u8 list" where
  "unknown_format p =
     [85, 110, 107, 110, 111, 119, 110, 32, 102, 111, 114, 109, 97, 116, 32, 116, 121, 112, 101, 32, 37, ucast p]"

definition print_format :: "(u8 \<Rightarrow> arg \<Rightarrow> u8 list option) \<Rightarrow> u8 list \<Rightarrow> bool \<Rightarrow> buffer \<Rightarrow> u32 \<Rightarrow> arg list \<Rightarrow> u8 list option" where
  "print_format conv known every fmt addr args = do {
     (out, u) \<leftarrow> format_loop conv known every fmt 0 args;
     Some (case u of None \<Rightarrow> out | Some i \<Rightarrow> out @ unknown_format (addr + of_nat i)) }"

definition gfx_vprintf_text :: "buffer \<Rightarrow> buffer \<Rightarrow> u32 \<Rightarrow> arg list \<Rightarrow> u8 list option" where
  "gfx_vprintf_text buff fmt addr args = print_format (kernel_conv buff) kernel_directives False fmt addr args"

definition screen_vprintf_text :: "buffer \<Rightarrow> buffer \<Rightarrow> u32 \<Rightarrow> arg list \<Rightarrow> u8 list option" where
  "screen_vprintf_text buff fmt addr args = print_format (kernel_conv buff) kernel_directives False fmt addr args"

definition deprecated_printf_text :: "buffer \<Rightarrow> buffer \<Rightarrow> u32 \<Rightarrow> arg list \<Rightarrow> u8 list option" where
  "deprecated_printf_text buff fmt addr args = print_format (user_conv buff) user_directives True fmt addr args"

text \<open>Bytes copied one after another into a buffer.\<close>

fun put_chars :: "buffer \<Rightarrow> nat \<Rightarrow> u8 list \<Rightarrow> buffer option" where
  "put_chars b i [] = Some b"
| "put_chars b i (c # cs) = do { b \<leftarrow> aset b i c; put_chars b (i + 1) cs }"

text \<open>An unknown directive ends it with \<^verbatim>\<open>STDERR\<close>, a message on the terminal and no terminator.\<close>

definition sprintf :: "buffer \<Rightarrow> buffer \<Rightarrow> buffer \<Rightarrow> arg list \<Rightarrow> (int \<times> buffer) option" where
  "sprintf buff str fmt args = do {
     (out, u) \<leftarrow> format_loop (sprintf_conv buff) sprintf_directives True fmt 0 args;
     str \<leftarrow> put_chars str 0 out;
     if u = None then do { str \<leftarrow> aset str (length out) 0; Some (0, str) } else Some (- 1, str) }"

section \<open>What a format means\<close>

text \<open>
  A format as a list of characters and directives, its text, and the characters it stands for.
\<close>

datatype piece = Lit u8 | Dir u8

fun fmt_text :: "piece list \<Rightarrow> u8 list" where
  "fmt_text [] = []"
| "fmt_text (Lit c # ps) = (if c = 37 then [92, 37] else [c]) @ fmt_text ps"
| "fmt_text (Dir k # ps) = [37, k] @ fmt_text ps"

definition piece_ok :: "u8 list \<Rightarrow> piece \<Rightarrow> bool" where
  "piece_ok known p = (case p of Lit c \<Rightarrow> c \<noteq> 0 \<and> c \<noteq> 92 | Dir k \<Rightarrow> k \<in> set known \<and> k \<noteq> 92)"

fun meaning :: "(u8 \<Rightarrow> arg \<Rightarrow> u8 list option) \<Rightarrow> piece list \<Rightarrow> arg list \<Rightarrow> u8 list option" where
  "meaning conv [] args = Some []"
| "meaning conv (Lit c # ps) args = do { t \<leftarrow> meaning conv ps args; Some (c # t) }"
| "meaning conv (Dir k # ps) [] = None"
| "meaning conv (Dir k # ps) (a # args) = do { s \<leftarrow> conv k a; t \<leftarrow> meaning conv ps args; Some (s @ t) }"

text \<open>A directive is known at its place, a literal character is copied.\<close>

lemma format_dir:
  assumes "i = length pre" and "pre = [] \<or> last pre \<noteq> 92" and "k \<in> set known"
  shows "format_loop conv known every (pre @ 37 # k # rest) i (a # args) = do {
     t \<leftarrow> conv k a;
     (out, u) \<leftarrow> format_loop conv known every (pre @ 37 # k # rest) (i + 2) args;
     Some (t @ out, u) }"
proof -
  have l: "i = 0 \<or> (pre @ 37 # k # rest) ! (i - 1) \<noteq> 92"
    using assms(1,2) by (cases pre rule: rev_cases) (auto simp: nth_append)
  have n: "(pre @ 37 # k # rest) ! i = 37" "(pre @ 37 # k # rest) ! (i + 1) = k"
    using assms(1) by (simp_all add: nth_append)
  show ?thesis using l n assms(1,3) by (subst format_loop.simps) simp
qed

lemma format_lit:
  assumes "i = length pre" and "c \<noteq> 0" and "c \<noteq> 92" and "c \<noteq> 37 \<or> (pre \<noteq> [] \<and> last pre = 92)"
  shows "format_loop conv known every (pre @ c # rest) i args = do {
     (out, u) \<leftarrow> format_loop conv known every (pre @ c # rest) (i + 1) args;
     Some (c # out, u) }"
proof -
  have l: "\<not> (c = 37 \<and> (i = 0 \<or> (pre @ c # rest) ! (i - 1) \<noteq> 92))"
    using assms(1,4) by (cases pre rule: rev_cases) (auto simp: nth_append)
  have n: "(pre @ c # rest) ! i = c" using assms(1) by (simp add: nth_append)
  show ?thesis using l n assms(1-3) by (subst format_loop.simps) (auto simp: drops_backslash_def)
qed

lemma format_escape:
  assumes "i = length pre"
  shows "format_loop conv known every (pre @ 92 # 37 # rest) i args =
    format_loop conv known every (pre @ 92 # 37 # rest) (i + 1) args"
proof -
  have n: "(pre @ 92 # 37 # rest) ! i = 92" "(pre @ 92 # 37 # rest) ! (i + 1) = 37"
    using assms by (simp_all add: nth_append)
  have d: "drops_backslash every (pre @ 92 # 37 # rest) i 92 = Some True"
    using assms n by (simp add: drops_backslash_def)
  show ?thesis using assms n d by (subst format_loop.simps) simp
qed

lemma format_end:
  assumes "i = length pre"
  shows "format_loop conv known every (pre @ 0 # rest) i args = Some ([], None)"
  using assms by (subst format_loop.simps) (simp add: nth_append)

lemma format_meaning:
  "\<forall>p \<in> set ps. piece_ok known p \<Longrightarrow> pre = [] \<or> last pre \<noteq> 92 \<Longrightarrow> meaning conv ps args = Some t \<Longrightarrow>
    format_loop conv known every (pre @ fmt_text ps @ 0 # rest) (length pre) args = Some (t, None)"
proof (induction ps arbitrary: pre args t)
  case Nil
  then show ?case using format_end [OF refl, of conv known every pre rest args] by simp
next
  case (Cons p ps)
  show ?case
  proof (cases p)
    case (Lit c)
    then have c: "c \<noteq> 0" "c \<noteq> 92" using Cons.prems(1) by (simp_all add: piece_ok_def)
    obtain t' where t: "t = c # t'" "meaning conv ps args = Some t'"
      using Cons.prems(3) Lit by (auto simp: c_simps)
    show ?thesis
    proof (cases "c = 37")
      case False
      have "format_loop conv known every ((pre @ [c]) @ fmt_text ps @ 0 # rest) (length (pre @ [c])) args = Some (t', None)"
        using Cons.prems(1) c t(2) by (intro Cons.IH) simp_all
      then show ?thesis
        using format_lit [OF refl c, of pre conv known every "fmt_text ps @ 0 # rest" args] False Lit t(1) by simp
    next
      case True
      have "format_loop conv known every ((pre @ [92, 37]) @ fmt_text ps @ 0 # rest) (length (pre @ [92, 37])) args = Some (t', None)"
        using Cons.prems(1) t(2) by (intro Cons.IH) simp_all
      then show ?thesis
        using format_escape [OF refl, of conv known every pre "fmt_text ps @ 0 # rest" args]
          format_lit [of "length pre + 1" "pre @ [92]" 37 conv known every "fmt_text ps @ 0 # rest" args] True Lit t(1) by simp
    qed
  next
    case (Dir k)
    then have k: "k \<in> set known" "k \<noteq> 92" using Cons.prems(1) by (simp_all add: piece_ok_def)
    obtain a args' s t' where a: "args = a # args'" "conv k a = Some s" "meaning conv ps args' = Some t'" "t = s @ t'"
      using Cons.prems(3) Dir by (cases args) (auto simp: c_simps)
    have "format_loop conv known every ((pre @ [37, k]) @ fmt_text ps @ 0 # rest) (length (pre @ [37, k])) args' = Some (t', None)"
      using Cons.prems(1) a(3) k(2) by (intro Cons.IH) simp_all
    then show ?thesis
      using format_dir [OF refl Cons.prems(2) k(1), of conv every "fmt_text ps @ 0 # rest" a args'] Dir a by simp
  qed
qed

lemma put_chars_all: "i + length cs \<le> length b \<Longrightarrow> put_chars b i cs = Some (take i b @ cs @ drop (i + length cs) b)"
proof (induction cs arbitrary: b i)
  case (Cons c cs)
  have "put_chars (b[i := c]) (i + 1) cs = Some (take (i + 1) (b[i := c]) @ cs @ drop (i + 1 + length cs) (b[i := c]))"
    using Cons.prems by (intro Cons.IH) simp
  moreover have "take (i + 1) (b[i := c]) = take i b @ [c]" using Cons.prems by (simp add: take_Suc_conv_app_nth)
  ultimately show ?case using Cons.prems by simp
qed simp

lemma c_text_holds: "holds b s \<Longrightarrow> c_text b = Some s"
  by (auto simp: c_text_def strlen_holds holds_def)

lemma sprintf_meaning:
  assumes "\<forall>p \<in> set ps. piece_ok sprintf_directives p" and "meaning (sprintf_conv buff) ps args = Some t"
    and "length t < length str"
  shows "sprintf buff str (fmt_text ps @ 0 # rest) args = Some (0, t @ 0 # drop (length t + 1) str)"
proof -
  have f: "format_loop (sprintf_conv buff) sprintf_directives True (fmt_text ps @ 0 # rest) 0 args = Some (t, None)"
    using format_meaning [OF assms(1) _ assms(2), of "[]" True rest] by simp
  have p: "put_chars str 0 t = Some (t @ drop (length t) str)" using put_chars_all [of 0 t str] assms(3) by simp
  obtain x where "drop (length t) str = x # drop (length t + 1) str"
    using assms(3) by (metis Cons_nth_drop_Suc Suc_eq_plus1)
  then show ?thesis using f p by (simp add: sprintf_def)
qed

section \<open>Properties\<close>

text \<open>The text of the message is what printing its format gives.\<close>

lemma unknown_format_text:
  "gfx_vprintf_text buff (fmt_text [Lit 85, Lit 110, Lit 107, Lit 110, Lit 111, Lit 119, Lit 110, Lit 32, Lit 102, Lit 111, Lit 114,
     Lit 109, Lit 97, Lit 116, Lit 32, Lit 116, Lit 121, Lit 112, Lit 101, Lit 32, Lit 37, Dir 99] @ [0]) addr [AInt (uint p)] =
   Some (unknown_format p)"
proof -
  define ps where "ps = [Lit 85, Lit 110, Lit 107, Lit 110, Lit 111, Lit 119, Lit 110, Lit 32, Lit 102, Lit 111, Lit 114,
     Lit 109, Lit 97, Lit 116, Lit 32, Lit 116, Lit 121, Lit 112, Lit 101, Lit 32, Lit 37, Dir 99]"
  have m: "meaning (kernel_conv buff) ps [AInt (uint p)] = Some (unknown_format p)"
    by (simp add: ps_def unknown_format_def)
  have k: "\<forall>p \<in> set ps. piece_ok kernel_directives p" by (simp add: ps_def piece_ok_def)
  from format_meaning [OF k _ m, of "[]" False "[]"] show ?thesis
    unfolding ps_def [symmetric] by (simp add: gfx_vprintf_text_def print_format_def)
qed



end
