(* ===== verification/Shell.thy ===== *)
theory Shell
  imports Proc Format
begin

text \<open>
  The shell, \<^verbatim>\<open>kernel/shell.c\<close>: the history of commands and the keys that recall them, the joining
  and splitting of paths, and the commands themselves, which work on the volumes and processes of
  the kernel.  What a command prints is appended to \<open>printed\<close>.  The strings that the code allocates
  and frees within a function are local values; a command line is edited in its own buffer.

  The parts of the kernel that the shell only calls are the fields of \<open>services\<close>: starting a
  program (\<^verbatim>\<open>createProcess\<close>), waiting for it, the clock, and the commands that only draw, report or
  switch off the machine (\<^verbatim>\<open>reboot shutdown cls stats ps img\<close>).
\<close>

text \<open>A string literal: its characters, and its bytes with the terminator.\<close>

definition lit :: "string \<Rightarrow> u8 list" where
  "lit s = map of_char s"

abbreviation cstr :: "string \<Rightarrow> buffer" where "cstr s \<equiv> lit s @ [0]"

record 's shell =
  kern :: "'s kernel"
  shell_path :: buffer
  cmd_history :: "buffer option list"
  cmd_history_ptr :: int
  printed :: "u8 list"

record 's services =
  create_process :: "'s kernel \<Rightarrow> buffer \<Rightarrow> buffer option \<Rightarrow> (int \<times> 's kernel) option"
  wait_process :: "'s kernel \<Rightarrow> int \<Rightarrow> 's kernel option"
  get_ticks :: "'s kernel \<Rightarrow> u32"
  other_command :: "u8 list \<Rightarrow> buffer \<Rightarrow> 's shell \<Rightarrow> 's shell option"
  drivers :: "u32 \<Rightarrow> 's driver"
  on_exit :: "u32 \<Rightarrow> 's kernel \<Rightarrow> 's kernel option"
  stack_pointer :: u32

definition env_path :: buffer where
  "env_path = [97, 58, 92, 98, 105, 110, 59, 0]"

abbreviation CMD_HISTORY_SIZE :: nat where "CMD_HISTORY_SIZE \<equiv> 10"

section \<open>The history\<close>

definition reset_cmd_history_ptr :: "'s shell \<Rightarrow> 's shell" where
  "reset_cmd_history_ptr st = st\<lparr>cmd_history_ptr := - 1\<rparr>"

definition increment_cmd_history_ptr :: "'s shell \<Rightarrow> bool \<times> 's shell" where
  "increment_cmd_history_ptr st =
     (if cmd_history_ptr st + 1 = int CMD_HISTORY_SIZE then (False, st)
      else (True, st\<lparr>cmd_history_ptr := cmd_history_ptr st + 1\<rparr>))"

definition decrement_cmd_history_ptr :: "'s shell \<Rightarrow> bool \<times> 's shell" where
  "decrement_cmd_history_ptr st =
     (if cmd_history_ptr st - 1 < 0 then (False, st\<lparr>cmd_history_ptr := 0\<rparr>)
      else (True, st\<lparr>cmd_history_ptr := cmd_history_ptr st - 1\<rparr>))"

definition get_cmd_from_history :: "'s shell \<Rightarrow> buffer option option" where
  "get_cmd_from_history st = do { guard (0 \<le> cmd_history_ptr st); aget (cmd_history st) (nat (cmd_history_ptr st)) }"

text \<open>\<^verbatim>\<open>strlen\<close> gives 0 for a null pointer, so a null entry equals the empty command.\<close>

definition same_cmd :: "buffer option \<Rightarrow> buffer \<Rightarrow> bool option" where
  "same_cmd h cmd = (case h of None \<Rightarrow> do { n \<leftarrow> strlen cmd; Some (n = 0) } | Some b \<Rightarrow> strcmp b cmd)"

fun shift_history :: "'a list \<Rightarrow> nat \<Rightarrow> 'a list option" where
  "shift_history hs 0 = Some hs"
| "shift_history hs (Suc i) = do {
     h \<leftarrow> aget hs i;
     hs \<leftarrow> aset hs (Suc i) h;
     shift_history hs i }"

definition push_cmd_to_history :: "buffer \<Rightarrow> 's shell \<Rightarrow> 's shell option" where
  "push_cmd_to_history cmd st = do {
     h \<leftarrow> aget (cmd_history st) 0;
     same \<leftarrow> same_cmd h cmd;
     if same then Some (reset_cmd_history_ptr st)
     else do {
       hs \<leftarrow> shift_history (cmd_history st) (CMD_HISTORY_SIZE - 1);
       s \<leftarrow> c_text cmd;
       hs \<leftarrow> aset hs 0 (Some (s @ [0]));
       Some (reset_cmd_history_ptr (st\<lparr>cmd_history := hs\<rparr>)) } }"

text \<open>The keys up and down: the command that replaces the input, if any.\<close>

definition key_up :: "'s shell \<Rightarrow> (buffer option \<times> 's shell) option" where
  "key_up st = (
     let (success, st) = increment_cmd_history_ptr st
     in if success then do {
          cmd \<leftarrow> get_cmd_from_history st;
          Some (cmd, if cmd = None then snd (decrement_cmd_history_ptr st) else st) }
        else Some (None, st))"

definition key_down :: "'s shell \<Rightarrow> (buffer option \<times> 's shell) option" where
  "key_down st = (
     let (success, st) = decrement_cmd_history_ptr st
     in if success then do { cmd \<leftarrow> get_cmd_from_history st; Some (cmd, st) } else Some (None, st))"

section \<open>Paths and words\<close>

definition join_path :: "buffer \<Rightarrow> buffer \<Rightarrow> buffer option" where
  "join_path p ext = do {
     n \<leftarrow> count_substrings ext 92;
     es \<leftarrow> c_text ext;
     if n = 1 then do {
       ps \<leftarrow> c_text p;
       guard (ps \<noteq> []);
       Some (ps @ (if last ps = 92 then [] else [92]) @ es @ [0]) }
     else Some (es @ [0]) }"

text \<open>The search for the last backslash, from the end.\<close>

fun last_backslash :: "buffer \<Rightarrow> nat \<Rightarrow> nat option option" where
  "last_backslash b 0 = Some None"
| "last_backslash b (Suc i) = do { c \<leftarrow> aget b i; if c = 92 then Some (Some i) else last_backslash b i }"

text \<open>The folder's path, and the name behind it; without a backslash the name is a null pointer.\<close>

definition split_path :: "buffer \<Rightarrow> (buffer \<times> buffer option) option" where
  "split_path p = do {
     n \<leftarrow> strlen p;
     i \<leftarrow> last_backslash p n;
     Some (case i of None \<Rightarrow> (p, None) | Some i \<Rightarrow> (p[i := 0], Some (drop (i + 1) p))) }"

text \<open>A parameter of the command, stripped of blanks.\<close>

definition word_param :: "buffer \<Rightarrow> buffer option" where
  "word_param cmd_buff = do {
     param \<leftarrow> seperate_and_take cmd_buff 32 1;
     param \<leftarrow> strip_from_start param 32;
     strip_from_end param 32 }"

text \<open>What follows the first blank, or a null pointer.\<close>

function skip_word :: "buffer \<Rightarrow> nat \<Rightarrow> buffer option option" where
  "skip_word b i = do {
     c \<leftarrow> aget b i;
     if c = 0 then Some None
     else if c = 32 then Some (Some (drop (i + 1) b))
     else skip_word b (i + 1) }"
  by pat_completeness auto
termination by (relation "measure (\<lambda>(b, i). length b - i)") (auto simp: aget_def split: if_splits)

declare skip_word.simps [simp del]

section \<open>Printing\<close>

definition sh_print :: "u8 list \<Rightarrow> 's shell \<Rightarrow> 's shell" where
  "sh_print t st = st\<lparr>printed := printed st @ t\<rparr>"

definition sh_printf :: "buffer \<Rightarrow> string \<Rightarrow> arg list \<Rightarrow> 's shell \<Rightarrow> 's shell option" where
  "sh_printf buff fmt args st = do {
     t \<leftarrow> gfx_vprintf_text buff (cstr fmt) 0 args;
     Some (sh_print t st) }"

section \<open>Files and directories\<close>

definition set_files :: "'s shell \<Rightarrow> 's vfs \<Rightarrow> 's shell" where
  "set_files st v = st\<lparr>kern := (kern st)\<lparr>files := v\<rparr>\<rparr>"

definition handle_cd :: "'s services \<Rightarrow> buffer \<Rightarrow> 's shell \<Rightarrow> 's shell option" where
  "handle_cd sv cmd_buff st = do {
     n \<leftarrow> count_substrings cmd_buff 32;
     if n \<noteq> 2 then Some st
     else do {
       param \<leftarrow> word_param cmd_buff;
       new_path \<leftarrow> join_path (shell_path st) param;
       (f, v) \<leftarrow> volOpenFile (drivers sv) (files (kern st)) (Some new_path);
       (_, v) \<leftarrow> volCloseFile (drivers sv) v (Some f);
       Some (set_files (if f_flags f = FS_DIRECTORY then st\<lparr>shell_path := new_path\<rparr> else st) v) } }"

text \<open>\<^verbatim>\<open>handle_mkdir\<close> and \<^verbatim>\<open>handle_touch\<close> differ in the flag only.\<close>

definition create_entry :: "'s services \<Rightarrow> u32 \<Rightarrow> buffer \<Rightarrow> 's shell \<Rightarrow> 's shell option" where
  "create_entry sv flags cmd_buff st = do {
     n \<leftarrow> count_substrings cmd_buff 32;
     if n \<noteq> 2 then Some st
     else do {
       param \<leftarrow> word_param cmd_buff;
       new_path \<leftarrow> join_path (shell_path st) param;
       (fpath, name) \<leftarrow> split_path new_path;
       (fold, v) \<leftarrow> volOpenFile (drivers sv) (files (kern st)) (Some fpath);
       v \<leftarrow> (if f_flags fold = FS_DIRECTORY
             then do { nm \<leftarrow> name; volCreateFile (drivers sv) v (Some fold) nm flags } else Some v);
       (_, v) \<leftarrow> volCloseFile (drivers sv) v (Some fold);
       Some (set_files st v) } }"

definition handle_mkdir :: "'s services \<Rightarrow> buffer \<Rightarrow> 's shell \<Rightarrow> 's shell option" where
  "handle_mkdir sv = create_entry sv FS_DIRECTORY"

definition handle_touch :: "'s services \<Rightarrow> buffer \<Rightarrow> 's shell \<Rightarrow> 's shell option" where
  "handle_touch sv = create_entry sv FS_FILE"

definition handle_size :: "'s services \<Rightarrow> buffer \<Rightarrow> buffer \<Rightarrow> 's shell \<Rightarrow> 's shell option" where
  "handle_size sv buff cmd_buff st = do {
     n \<leftarrow> count_substrings cmd_buff 32;
     if n \<noteq> 2 then Some st
     else do {
       param \<leftarrow> word_param cmd_buff;
       file_path \<leftarrow> join_path (shell_path st) param;
       (f, v) \<leftarrow> volOpenFile (drivers sv) (files (kern st)) (Some file_path);
       st \<leftarrow> (if f_flags f \<noteq> FS_INVALID
              then sh_printf buff ''file %s has size %d bytes'' [AStr (Some (f_name f)), AInt (sint (fileLength f))] st
              else Some st);
       (_, v) \<leftarrow> volCloseFile (drivers sv) v (Some f);
       Some (set_files st v) } }"

text \<open>The list: a line for every file, then the totals.  The date's month and year are cut out of
  the wrong bits.\<close>

definition ls_line :: "buffer \<Rightarrow> fobj \<Rightarrow> 's shell \<Rightarrow> 's shell option" where
  "ls_line buff f st =
     sh_printf buff (''%s    %d %d-%d-%d'' @ [CHR 0x0A])
       [AStr (Some (f_name f)), AInt (sint (fileLength f)), AInt (uint (DateCreated f AND 0x1F)),
        AInt (uint (drop_bit 5 (DateCreated f AND 0x1F0))), AInt (uint (drop_bit 10 (DateCreated f AND 0xFE00)))] st"

fun ls_loop ::
  "'s services \<Rightarrow> buffer \<Rightarrow> fobj list \<Rightarrow> u32 \<Rightarrow> u32 \<Rightarrow> u32 \<Rightarrow> 's shell \<Rightarrow> (u32 \<times> u32 \<times> u32 \<times> 's shell) option" where
  "ls_loop sv buff [] sz fls dirs st = Some (sz, fls, dirs, st)"
| "ls_loop sv buff (f # fs) sz fls dirs st = do {
     st \<leftarrow> ls_line buff f st;
     (_, v) \<leftarrow> volCloseFile (drivers sv) (files (kern st)) (Some f);
     ls_loop sv buff fs (sz + fileLength f) (if f_flags f = FS_DIRECTORY then fls else fls + 1)
       (if f_flags f = FS_DIRECTORY then dirs + 1 else dirs) (set_files st v) }"

definition handle_ls :: "'s services \<Rightarrow> buffer \<Rightarrow> 's shell \<Rightarrow> 's shell option" where
  "handle_ls sv buff st = do {
     (lst, v) \<leftarrow> volOpenDir (drivers sv) (files (kern st)) (Some (shell_path st));
     (sz, fls, dirs, st) \<leftarrow> ls_loop sv buff lst 0 0 0 (set_files st v);
     st \<leftarrow> sh_printf buff (''%d File(s)    %d Bytes.'' @ [CHR 0x0A]) [AInt (sint fls), AInt (sint sz)] st;
     sh_printf buff ''%d Dir(s)'' [AInt (sint dirs)] st }"

section \<open>Programs and processes\<close>

text \<open>The program in the directories of \<open>env_path\<close>, with a suffix; 0 is not found.\<close>

fun search_env ::
  "'s services \<Rightarrow> buffer \<Rightarrow> u8 list \<Rightarrow> buffer option \<Rightarrow> nat \<Rightarrow> nat \<Rightarrow> 's kernel \<Rightarrow> (int \<times> 's kernel) option" where
  "search_env sv name suffix args i 0 k = Some (0, k)"
| "search_env sv name suffix args i (Suc n) k = do {
     subpath \<leftarrow> seperate_and_take env_path 59 (int i);
     p \<leftarrow> join_path subpath name;
     s \<leftarrow> c_text p;
     (pid, k) \<leftarrow> create_process sv k (s @ suffix @ [0]) args;
     if pid \<noteq> 0 then Some (pid, k) else search_env sv name suffix args (i + 1) n k }"

definition search_path :: "'s services \<Rightarrow> buffer \<Rightarrow> u8 list \<Rightarrow> buffer option \<Rightarrow> 's kernel \<Rightarrow> (int \<times> 's kernel) option" where
  "search_path sv name suffix args k = do {
     n \<leftarrow> count_substrings env_path 59;
     search_env sv name suffix args 0 (nat n) k }"

definition execute :: "'s services \<Rightarrow> buffer \<Rightarrow> buffer \<Rightarrow> 's shell \<Rightarrow> (int \<times> 's shell) option" where
  "execute sv buff cmd_buff st = do {
     param \<leftarrow> word_param cmd_buff;
     new_path \<leftarrow> join_path (shell_path st) param;
     args \<leftarrow> skip_word cmd_buff 0;
     (pid, k) \<leftarrow> create_process sv (kern st) new_path args;
     (pid, k) \<leftarrow> (if pid = 0 then search_path sv param [] args k else Some (pid, k));
     let st = st\<lparr>kern := k\<rparr>;
     st \<leftarrow> (if pid = 0 then sh_printf buff ''process %s doesn't exist'' [AStr (Some new_path)] st else Some st);
     Some (pid, st) }"

definition handle_exec :: "'s services \<Rightarrow> buffer \<Rightarrow> buffer \<Rightarrow> 's shell \<Rightarrow> 's shell option" where
  "handle_exec sv buff cmd_buff st = do {
     n \<leftarrow> count_substrings cmd_buff 32;
     if n < 2 then Some st
     else do {
       (pid, st) \<leftarrow> execute sv buff cmd_buff st;
       k \<leftarrow> wait_process sv (kern st) pid;
       Some (st\<lparr>kern := k\<rparr>) } }"

definition handle_execbg :: "'s services \<Rightarrow> buffer \<Rightarrow> buffer \<Rightarrow> 's shell \<Rightarrow> 's shell option" where
  "handle_execbg sv buff cmd_buff st = do {
     n \<leftarrow> count_substrings cmd_buff 32;
     if n < 2 then Some st
     else do { (pid, st) \<leftarrow> execute sv buff cmd_buff st; Some st } }"

definition handle_kill :: "'s services \<Rightarrow> buffer \<Rightarrow> 's shell \<Rightarrow> 's shell option" where
  "handle_kill sv cmd_buff st = do {
     n \<leftarrow> count_substrings cmd_buff 32;
     if n \<noteq> 2 then Some st
     else do {
       param \<leftarrow> word_param cmd_buff;
       pid \<leftarrow> decimal_to_uint param;
       proc \<leftarrow> getProcessByID (kern st) (sint pid);
       if proc = 0 then Some st
       else do {
         p \<leftarrow> procs (kern st) proc;
         k \<leftarrow> (if is_kernel p then terminateKernelProcessById (on_exit sv) (kern st) (sint pid) (stack_pointer sv)
               else terminateProcessById (drivers sv) (kern st) (sint pid) (stack_pointer sv));
         Some (st\<lparr>kern := k\<rparr>) } } }"

section \<open>Help\<close>

definition help_names :: "string list" where
  "help_names = [''help'', ''reboot'', ''shutdown'', ''ls'', ''cd'', ''mkdir'', ''touch'', ''write'', ''cat'', ''cls'', ''rm'',
     ''size'', ''concat'', ''stats'', ''exec'', ''execbg'', ''ps'', ''img'', ''kill'', ''time'']"

fun help_index_from :: "string list \<Rightarrow> int \<Rightarrow> buffer \<Rightarrow> int option" where
  "help_index_from [] i cmd = Some (- 1)"
| "help_index_from (s # ss) i cmd = do { b \<leftarrow> strcmp cmd (cstr s); if b then Some i else help_index_from ss (i + 1) cmd }"

definition get_help_index :: "buffer \<Rightarrow> int option" where
  "get_help_index cmd = help_index_from help_names 0 cmd"

abbreviation NL :: char where "NL \<equiv> CHR 0x0A"

definition help_strings :: "string list" where
  "help_strings = [
     ''Provides help for a certain command'' @ NL # ''Usage: help CMD'',
     ''Reboots the computer.'' @ NL # ''Usage: reboot'',
     ''Shuts down the computer'' @ NL # ''Usage: shutdown'',
     ''Lists the files in the current directory'' @ NL # ''Usage: ls'',
     ''Changes directory to the specified directory'' @ NL # ''Usage: cd DIR'',
     ''Creates a new directory in the current directory with the specified name'' @ NL # ''Usage: mkdir PATH'',
     ''Makes a new file in the current directory with the specified name'' @ NL # ''Usage: touch PATH'',
     ''Opens a text editor to write text to a file with the specified name, press esc to exit it'' @ NL #
       ''Usage: write PATH'' @ NL # ''2nd optional parameter is -o to override the previous contents of the file.'',
     ''Prints out the contents of a file'' @ NL # ''Usage: cat PATH'',
     ''Clears the screen'' @ NL # ''Usage: cls'',
     ''Removes a file or directory within the current directory with the specified name'' @ NL # ''Usage: rm PATH'',
     ''Gives the size of the specified file in bytes'' @ NL # ''Usage: size PATH'',
     ''Concatenates 2 files and stores them in a destination file'' @ NL # ''Usage: concat DEST F1 F2'',
     ''Displays various stats'' @ NL # ''Usage: stats'',
     ''Executes a PE program'' @ NL # ''Usage: exec PATH'',
     ''Executes a PE program in the background'' @ NL # ''Usage: execbg PATH'',
     ''Prints out the list of processes'' @ NL # ''Usage: ps'',
     ''Opens a 16 color bmp image for viewing'' @ NL # ''Usage: img PATH'',
     ''Kills the process with id PID'' @ NL # ''Usage: kill PID'',
     ''Prints elapsed time of command'' @ NL # ''Usage: time COMMAND'']"

definition handle_help :: "buffer \<Rightarrow> buffer \<Rightarrow> 's shell \<Rightarrow> 's shell option" where
  "handle_help buff cmd_buff st = do {
     n \<leftarrow> count_substrings cmd_buff 32;
     if n > 2 then Some (sh_print (lit ''too many parameters.'') st)
     else if n = 1 then
       Some (sh_print (lit ''Available commands:'' @ concat (map (\<lambda>s. 10 # lit s) help_names)) st)
     else do {
       param \<leftarrow> seperate_and_take cmd_buff 32 1;
       i \<leftarrow> get_help_index param;
       if i = - 1 then sh_printf buff ''Help for command %s not found.'' [AStr (Some param)] st
       else do { h \<leftarrow> aget help_strings (nat i); sh_printf buff ''%s'' [AStr (Some (cstr h))] st } } }"

section \<open>The command line\<close>

text \<open>
  The comparisons with the names of the commands, in their order; the result is the name, or
  nothing for the name of a program.
\<close>

definition command_names :: "string list" where
  "command_names = [''help'', ''reboot'', ''shutdown'', ''ls'', ''cd'', ''mkdir'', ''touch'', ''cls'', ''rm'', ''size'', ''stats'',
     ''exec'', ''execbg'', ''ps'', ''img'', ''kill'', ''time'']"

fun which_command :: "string list \<Rightarrow> buffer \<Rightarrow> string option option" where
  "which_command [] cmd = Some None"
| "which_command (s # ss) cmd = do { b \<leftarrow> strcmp cmd (cstr s); if b then Some (Some s) else which_command ss cmd }"

definition run_program :: "'s services \<Rightarrow> buffer \<Rightarrow> buffer \<Rightarrow> buffer \<Rightarrow> 's shell \<Rightarrow> 's shell option" where
  "run_program sv buff cmd cmd_buff st = do {
     (pid, k) \<leftarrow> search_path sv cmd (lit ''.exe'') (Some cmd_buff) (kern st);
     let st = st\<lparr>kern := k\<rparr>;
     if pid = 0 then
       sh_printf buff ''Unknown command '%s'. type 'help' for a list of available commands.'' [AStr (Some cmd)] st
     else do { k \<leftarrow> wait_process sv (kern st) pid; Some (st\<lparr>kern := k\<rparr>) } }"

text \<open>\<^verbatim>\<open>handle_time\<close> hands the rest of the line to \<open>run\<close>, which is \<^verbatim>\<open>handle_command\<close>.\<close>

definition handle_time ::
  "(buffer \<Rightarrow> 's shell \<Rightarrow> 's shell option) \<Rightarrow> 's services \<Rightarrow> buffer \<Rightarrow> buffer \<Rightarrow> 's shell \<Rightarrow> 's shell option" where
  "handle_time run sv buff cmd_buff st = do {
     let ticks = get_ticks sv (kern st);
     rest \<leftarrow> skip_word cmd_buff 0;
     case rest of
       None \<Rightarrow> Some st
     | Some b \<Rightarrow> do {
         st \<leftarrow> run b st;
         sh_printf buff (NL # ''elapsed time: %dms'')
           [AInt (sint ((get_ticks sv (kern st) - ticks) * (1000 div 100)))] st } }"

text \<open>
  \<^verbatim>\<open>handle_command\<close> and \<^verbatim>\<open>handle_time\<close>, which call each other on shorter and shorter commands; the
  first argument bounds the depth.
\<close>

fun command_fuel :: "nat \<Rightarrow> 's services \<Rightarrow> buffer \<Rightarrow> buffer \<Rightarrow> 's shell \<Rightarrow> 's shell option" where
  "command_fuel 0 sv buff cmd_buff st = None"
| "command_fuel (Suc n) sv buff cmd_buff st = do {
     cmd_buff \<leftarrow> strip_from_start cmd_buff 32;
     cmd_buff \<leftarrow> strip_from_end cmd_buff 32;
     cmd \<leftarrow> seperate_and_take cmd_buff 32 0;
     cmd \<leftarrow> to_lower cmd;
     w \<leftarrow> which_command command_names cmd;
     case w of
       None \<Rightarrow> run_program sv buff cmd cmd_buff st
     | Some s \<Rightarrow>
         (if s = ''help'' then handle_help buff cmd_buff st
          else if s = ''ls'' then handle_ls sv buff st
          else if s = ''cd'' then handle_cd sv cmd_buff st
          else if s = ''mkdir'' then handle_mkdir sv cmd_buff st
          else if s = ''touch'' then handle_touch sv cmd_buff st
          else if s = ''rm'' then Some st
          else if s = ''size'' then handle_size sv buff cmd_buff st
          else if s = ''exec'' then handle_exec sv buff cmd_buff st
          else if s = ''execbg'' then handle_execbg sv buff cmd_buff st
          else if s = ''kill'' then handle_kill sv cmd_buff st
          else if s = ''time'' then handle_time (\<lambda>b st. command_fuel n sv buff b st) sv buff cmd_buff st
          else other_command sv (lit s) cmd_buff st) }"

definition handle_command :: "'s services \<Rightarrow> buffer \<Rightarrow> buffer \<Rightarrow> 's shell \<Rightarrow> 's shell option" where
  "handle_command sv buff cmd_buff st = command_fuel (length cmd_buff + 1) sv buff cmd_buff st"

section \<open>The shell's process\<close>

text \<open>\<^verbatim>\<open>memcmp\<close> of the path with \<^verbatim>\<open>a:\home\<close>: it stops at the first difference.\<close>

fun same_bytes :: "buffer \<Rightarrow> u8 list \<Rightarrow> nat \<Rightarrow> bool option" where
  "same_bytes b [] i = Some True"
| "same_bytes b (c # cs) i = do { d \<leftarrow> aget b i; if d \<noteq> c then Some False else same_bytes b cs (i + 1) }"

definition shell_prompt :: "buffer \<Rightarrow> 's shell \<Rightarrow> 's shell option" where
  "shell_prompt buff st = do {
     b \<leftarrow> same_bytes (shell_path st) [97, 58, 92, 104, 111, 109, 101] 0;
     if b then sh_printf buff (NL # ''~> '') [] st
     else sh_printf buff (NL # ''%s> '') [AStr (Some (shell_path st))] st }"

text \<open>One line of input; then the start of the shell.\<close>

definition shell_line :: "'s services \<Rightarrow> buffer \<Rightarrow> buffer \<Rightarrow> 's shell \<Rightarrow> 's shell option" where
  "shell_line sv buff cmd_buff st = do {
     st \<leftarrow> push_cmd_to_history cmd_buff st;
     handle_command sv buff cmd_buff st }"

definition shell_start :: "'s services \<Rightarrow> 's kernel \<Rightarrow> 's shell option" where
  "shell_start sv k =
     handle_cd sv (cstr ''cd home'')
       \<lparr>kern = k, shell_path = [97, 58, 92, 0], cmd_history = replicate CMD_HISTORY_SIZE None, cmd_history_ptr = - 1,
        printed = []\<rparr>"

end
