(* ===== verification/Shellcmds.thy ===== *)
theory Shellcmds
  imports Shell
begin

text \<open>
  What the shell does: the history is the last ten commands without repetitions, paths are joined
  and split at the right place, and the commands reach the operations they name.
\<close>

section \<open>The history\<close>

text \<open>The commands a history holds, the latest first.\<close>

definition history_of :: "'s shell \<Rightarrow> u8 list list \<Rightarrow> bool" where
  "history_of st hs \<longleftrightarrow> length hs \<le> CMD_HISTORY_SIZE \<and> (\<forall>h \<in> set hs. 0 \<notin> set h) \<and>
     cmd_history st = map (\<lambda>h. Some (h @ [0])) hs @ replicate (CMD_HISTORY_SIZE - length hs) None"

definition remember :: "u8 list list \<Rightarrow> u8 list \<Rightarrow> u8 list list" where
  "remember hs c = (if (case hs of [] \<Rightarrow> c = [] | h # _ \<Rightarrow> h = c) then hs else take CMD_HISTORY_SIZE (c # hs))"

lemma shift_history_spec:
  "n < length hs \<Longrightarrow> shift_history hs n = Some (hs ! 0 # take n hs @ drop (n + 1) hs)"
proof (induction n arbitrary: hs)
  case 0
  then show ?case by (cases hs) simp_all
next
  case (Suc i)
  let ?hs = "hs[Suc i := hs ! i]"
  have "shift_history hs (Suc i) = shift_history ?hs i" using Suc.prems by simp
  also have "\<dots> = Some (?hs ! 0 # take i ?hs @ drop (i + 1) ?hs)" using Suc.prems by (intro Suc.IH) simp
  also have "drop (i + 1) ?hs = hs ! i # drop (i + 2) hs"
    using Suc.prems by (simp add: drop_update_swap Cons_nth_drop_Suc [symmetric])
  also have "take i ?hs @ hs ! i # drop (i + 2) hs = take (Suc i) hs @ drop (Suc i + 1) hs"
    using Suc.prems by (simp add: take_Suc_conv_app_nth)
  also have "?hs ! 0 = hs ! 0" by simp
  finally show ?case .
qed

lemma push_history:
  assumes h: "history_of st hs" and b: "holds b c"
  shows "\<exists>st'. push_cmd_to_history b st = Some st' \<and> history_of st' (remember hs c) \<and> cmd_history_ptr st' = - 1"
proof -
  have l: "length (cmd_history st) = CMD_HISTORY_SIZE" and ln: "length hs \<le> CMD_HISTORY_SIZE"
    using h by (simp_all add: history_of_def)
  have z: "0 \<notin> set c" using b by (simp add: holds_def)
  have same: "same_cmd (cmd_history st ! 0) b = Some (case hs of [] \<Rightarrow> c = [] | h # _ \<Rightarrow> h = c)"
  proof (cases hs)
    case Nil
    then show ?thesis using h b by (simp add: history_of_def same_cmd_def strlen_holds)
  next
    case (Cons x xs)
    then have "holds (x @ [0]) x" using h by (simp add: history_of_def holds_def)
    then show ?thesis using Cons h b by (simp add: history_of_def same_cmd_def strcmp_holds)
  qed
  show ?thesis
  proof (cases "case hs of [] \<Rightarrow> c = [] | h # _ \<Rightarrow> h = c")
    case True
    then show ?thesis using l same h by (simp add: push_cmd_to_history_def remember_def reset_cmd_history_ptr_def history_of_def)
  next
    case False
    let ?H = "cmd_history st"
    have s: "shift_history ?H 9 = Some (?H ! 0 # take 9 ?H)" using shift_history_spec [of 9 ?H] l by simp
    have t: "take 9 ?H = map (\<lambda>h. Some (h @ [0])) (take 9 hs) @ replicate (9 - length hs) None"
      using h ln by (simp add: history_of_def take_map)
    have n: "9 - length hs = 10 - Suc (min (length hs) 9)" by simp
    have "Some (c @ [0]) # take 9 ?H = map (\<lambda>h. Some (h @ [0])) (take 10 (c # hs)) @ replicate (10 - length (take 10 (c # hs))) None"
      unfolding t by (simp add: n numeral_eq_Suc)
    moreover have "\<forall>h \<in> set (take 10 (c # hs)). 0 \<notin> set h" using h z by (auto simp: history_of_def dest!: in_set_takeD)
    ultimately show ?thesis
      using l same False s b unfolding push_cmd_to_history_def remember_def
      by (simp add: c_text_holds reset_cmd_history_ptr_def history_of_def)
  qed
qed

fun push_all :: "buffer list \<Rightarrow> 's shell \<Rightarrow> 's shell option" where
  "push_all [] st = Some st"
| "push_all (b # bs) st = do { st \<leftarrow> push_cmd_to_history b st; push_all bs st }"

lemma push_all_history:
  "history_of st hs \<Longrightarrow> list_all2 holds bs cs \<Longrightarrow> cmd_history_ptr st = - 1 \<Longrightarrow>
    \<exists>st'. push_all bs st = Some st' \<and> history_of st' (foldl remember hs cs) \<and> cmd_history_ptr st' = - 1"
proof (induction bs arbitrary: st hs cs)
  case (Cons b bs)
  then obtain c cs' where cs: "cs = c # cs'" "holds b c" "list_all2 holds bs cs'" by (cases cs) auto
  obtain st1 where 1: "push_cmd_to_history b st = Some st1" "history_of st1 (remember hs c)" "cmd_history_ptr st1 = - 1"
    using push_history [OF Cons.prems(1) cs(2)] by auto
  from Cons.IH [OF 1(2) cs(3) 1(3)] show ?case using 1(1) cs(1) by simp
qed simp

fun press_up :: "nat \<Rightarrow> 's shell \<Rightarrow> (buffer option \<times> 's shell) option" where
  "press_up 0 st = Some (None, st)"
| "press_up (Suc n) st = do { (_, st) \<leftarrow> press_up n st; key_up st }"

lemma press_up_recalls:
  "history_of st hs \<Longrightarrow> cmd_history_ptr st = - 1 \<Longrightarrow> k \<le> length hs \<Longrightarrow>
    press_up k st = Some (if k = 0 then None else Some (hs ! (k - 1) @ [0]), st\<lparr>cmd_history_ptr := int k - 1\<rparr>)"
proof (induction k)
  case 0
  then show ?case by simp
next
  case (Suc k)
  let ?st = "st\<lparr>cmd_history_ptr := int k - 1\<rparr>"
  have k: "k < length hs" "length hs \<le> 10" using Suc.prems by (simp_all add: history_of_def)
  have "press_up (Suc k) st = key_up ?st" using Suc by simp
  also have "\<dots> = Some (Some (hs ! k @ [0]), st\<lparr>cmd_history_ptr := int k\<rparr>)"
    using k Suc.prems(1) by (simp add: key_up_def increment_cmd_history_ptr_def get_cmd_from_history_def history_of_def nth_append)
  finally show ?case by simp
qed

section \<open>Paths\<close>

lemma length_split_on: "length (split_on sep s) = Suc (length (filter (\<lambda>c. c = sep) s))"
proof (induction s)
  case (Cons c s)
  then show ?case by (simp add: split_on_cons)
qed simp

lemma count_one: "holds b s \<Longrightarrow> count_substrings b sep = Some (int (length (filter (\<lambda>c. c = sep) (tl s))) + 1)"
proof (cases s)
  case Nil
  assume "holds b s"
  then have "strlen b = Some 0" using Nil by (simp add: strlen_holds)
  then have "count_substrings_loop b sep 1 1 = Some 1" by (subst count_substrings_loop.simps) simp
  then show ?thesis using Nil by (simp add: count_substrings_def)
next
  case (Cons x xs)
  assume "holds b s"
  then show ?thesis using Cons count_substrings_loop_holds [of b s 1 sep 1]
    by (simp add: count_substrings_def length_split_on)
qed

lemma no_separator: "filter (\<lambda>c. c = x) s = [] \<longleftrightarrow> x \<notin> set s"
  by (auto simp: filter_empty_conv)

definition joined :: "u8 list \<Rightarrow> u8 list \<Rightarrow> u8 list" where
  "joined ps es = (if 92 \<in> set (tl es) then es else ps @ (if last ps = 92 then [] else [92]) @ es)"

lemma join_path_holds:
  assumes "holds p ps" and "ps \<noteq> []" and "holds ext es"
  shows "join_path p ext = Some (joined ps es @ [0])"
  using assms by (simp add: join_path_def count_one c_text_holds joined_def no_separator)

lemma last_backslash_at:
  assumes "92 \<notin> set name"
  shows "j \<le> length name \<Longrightarrow> last_backslash (pre @ 92 # name @ rest) (length pre + 1 + j) = Some (Some (length pre))"
proof (induction j)
  case (Suc j)
  then have j: "j < length name" by simp
  then have "name ! j \<noteq> 92" using assms nth_mem by metis
  then have "(pre @ 92 # name @ rest) ! (length pre + 1 + j) \<noteq> 92" using j by (simp add: nth_append)
  then show ?case using Suc j by simp
qed (simp add: nth_append)

lemma split_path_at:
  assumes "0 \<notin> set pre" and "0 \<notin> set name" and "92 \<notin> set name"
  shows "split_path (pre @ 92 # name @ [0]) = Some (pre @ 0 # name @ [0], Some (name @ [0]))"
proof -
  have "holds (pre @ 92 # name @ [0]) (pre @ 92 # name)" using assms by (simp add: holds_def)
  then have "strlen (pre @ 92 # name @ [0]) = Some (length pre + 1 + length name)" by (simp add: strlen_holds)
  then show ?thesis using last_backslash_at [OF assms(3), of "length name" pre "[0]"]
    by (simp add: split_path_def list_update_append)
qed

lemma strip_id:
  assumes "holds b s" and "ch \<notin> set s"
  shows "strip_from_start b ch = Some b" "strip_from_end b ch = Some b"
proof -
  have "b ! 0 \<noteq> ch" if "s \<noteq> []"
    using that holds_nth [OF assms(1), of 0] assms(2) by (cases s) auto
  then show "strip_from_start b ch = Some b"
    using assms(1) holds_length [OF assms(1)]
    by (cases "s = []") (auto simp: strip_from_start_def strlen_holds strip_from_start_loop.simps [of b ch 0] aget_def)
  show "strip_from_end b ch = Some b"
    using strip_end_stop [of b s "[]" ch "int (length s) - 1" "length s"] assms
    by (simp add: strip_from_end_def strlen_holds)
qed

lemma split_word: "32 \<notin> set w \<Longrightarrow> split_on 32 (w @ 32 # rest) = w # split_on 32 rest"
  by (induction w) (simp_all add: split_on_cons)

lemma split_none: "32 \<notin> set w \<Longrightarrow> split_on 32 w = [w]"
  by (induction w) (simp_all add: split_on_cons)

text \<open>A command with one parameter.\<close>

lemma two_words:
  assumes "holds b (w @ 32 # name)" and "32 \<notin> set w" and "32 \<notin> set name" and "w \<noteq> []"
  shows "count_substrings b 32 = Some 2" "word_param b = Some (name @ [0])"
proof -
  have "filter (\<lambda>c. c = 32) (tl (w @ 32 # name)) = [32]"
    using assms(2-4) no_separator [of 32 name] no_separator [of 32 "tl w"] by (cases w) simp_all
  then show "count_substrings b 32 = Some 2" using count_one [OF assms(1), of 32] by simp
  have "seperate_and_take b 32 1 = Some (name @ [0])"
    using seperate_and_take_piece [OF assms(1), of 32 1] assms(2,3) by (simp add: split_word split_none)
  moreover have "holds (name @ [0]) name" using assms(1) by (simp add: holds_def)
  ultimately show "word_param b = Some (name @ [0])"
    using strip_id [OF _ assms(3)] by (simp add: word_param_def)
qed

section \<open>Creating files and directories\<close>

definition folder_of :: "u8 list \<Rightarrow> u8 list" where
  "folder_of ps = (if last ps = 92 then butlast ps else ps)"

lemma joined_folder: "ps \<noteq> [] \<Longrightarrow> 92 \<notin> set name \<Longrightarrow> joined ps name = folder_of ps @ 92 # name"
  by (cases ps rule: rev_cases; cases name) (auto simp: joined_def folder_of_def)

text \<open>Opening the folder, creating one entry in it if it is a directory, and closing it.\<close>

definition create_in :: "'s services \<Rightarrow> u8 list \<Rightarrow> u8 list \<Rightarrow> u32 \<Rightarrow> 's shell \<Rightarrow> 's shell option" where
  "create_in sv folder name flags st = do {
     (f, v) \<leftarrow> volOpenFile (drivers sv) (files (kern st)) (Some (folder @ 0 # name @ [0]));
     v \<leftarrow> (if f_flags f = FS_DIRECTORY then volCreateFile (drivers sv) v (Some f) (name @ [0]) flags else Some v);
     (_, v) \<leftarrow> volCloseFile (drivers sv) v (Some f);
     Some (set_files st v) }"

lemma create_entry_in_path:
  assumes b: "holds b (w @ 32 # name)" "32 \<notin> set w" "32 \<notin> set name" "w \<noteq> []" "92 \<notin> set name"
    and p: "holds (shell_path st) ps" "ps \<noteq> []"
  shows "create_entry sv flags b st = create_in sv (folder_of ps) name flags st"
proof -
  have n: "holds (name @ [0]) name" using b(1) by (simp add: holds_def)
  have j: "join_path (shell_path st) (name @ [0]) = Some (folder_of ps @ 92 # name @ [0])"
    using join_path_holds [OF p n] joined_folder [OF p(2) b(5)] by simp
  have "0 \<notin> set (folder_of ps)" using p(1) by (auto simp: folder_of_def holds_def dest!: in_set_butlastD)
  then have "split_path (folder_of ps @ 92 # name @ [0]) = Some (folder_of ps @ 0 # name @ [0], Some (name @ [0]))"
    using b(1,5) by (intro split_path_at) (simp_all add: holds_def)
  then show ?thesis using j two_words [OF b(1-4)] by (simp add: create_entry_def create_in_def cong: if_cong)
qed

section \<open>Names of commands\<close>

lemma which_command_find:
  "holds cmd t \<Longrightarrow> \<forall>s \<in> set ss. 0 \<notin> set (lit s) \<Longrightarrow> which_command ss cmd = Some (find (\<lambda>s. lit s = t) ss)"
proof (induction ss)
  case (Cons s ss)
  then have "holds (cstr s) (lit s)" by (simp add: holds_def)
  then have "strcmp cmd (cstr s) = Some (t = lit s)" using Cons.prems(1) by (rule strcmp_holds [rotated])
  then show ?case using Cons by auto
qed simp

lemma help_index_spec:
  "holds cmd t \<Longrightarrow> \<forall>s \<in> set ss. 0 \<notin> set (lit s) \<Longrightarrow>
    help_index_from ss i cmd = Some (if t \<in> lit ` set ss then i + int (length (takeWhile (\<lambda>s. lit s \<noteq> t) ss)) else - 1)"
proof (induction ss arbitrary: i)
  case (Cons s ss)
  then have "holds (cstr s) (lit s)" by (simp add: holds_def)
  then have "strcmp cmd (cstr s) = Some (t = lit s)" using Cons.prems(1) by (rule strcmp_holds [rotated])
  then show ?case using Cons by auto
qed simp

lemma command_names_nonzero: "\<forall>s \<in> set command_names. 0 \<notin> set (lit s)"
  by (simp add: command_names_def lit_def)

section \<open>The depth of commands\<close>

lemma strip_end_shorter:
  "holds b s \<Longrightarrow> i < int (length s) \<Longrightarrow> length s \<le> len \<Longrightarrow> len < length b \<Longrightarrow>
    \<exists>b' s'. strip_from_end_loop b ch i len = Some b' \<and> holds b' s' \<and> length s' \<le> length s"
proof (induction "nat (i + 1)" arbitrary: i b s rule: less_induct)
  case less
  show ?case
  proof (cases "0 \<le> i")
    case False
    then show ?thesis using less.prems(1) by (subst strip_from_end_loop.simps) auto
  next
    case True
    then have i: "nat i < length s" "nat i < length b" using less.prems by simp_all
    show ?thesis
    proof (cases "b ! nat i = ch")
      case False
      then show ?thesis using True i less.prems(1) by (subst strip_from_end_loop.simps) auto
    next
      case c: True
      let ?s = "take (nat i) s @ drop (Suc (nat i)) s"
      obtain b1 where b1: "shift_left b (nat i) len = Some b1" "holds b1 ?s" "length b1 = length b"
        using shift_left_holds [OF less.prems(1) i(1) less.prems(3,4)] by auto
      have ls: "length ?s = length s - 1" using i(1) by simp
      have "nat (i - 1 - 1 + 1) < nat (i + 1)" "i - 1 - 1 < int (length ?s)" "length ?s \<le> len" "len < length b1"
        using True i ls less.prems(2-4) b1(3) by linarith+
      from less.hyps [OF this(1) b1(2) this(2-4)] obtain b' s' where
        r: "strip_from_end_loop b1 ch (i - 1 - 1) len = Some b'" "holds b' s'" "length s' \<le> length ?s" by auto
      have "strip_from_end_loop b ch i len = Some b'"
        using True c i b1(1) r(1) by (subst strip_from_end_loop.simps) simp
      then show ?thesis using r(2,3) ls by auto
    qed
  qed
qed

lemma stripped_shorter:
  assumes "holds b s"
  shows "\<exists>b1 b2 s2. strip_from_start b 32 = Some b1 \<and> strip_from_end b1 32 = Some b2 \<and> holds b2 s2 \<and> length s2 \<le> length s"
proof -
  obtain b1 where b1: "strip_from_start b 32 = Some b1" "holds b1 (dropWhile (\<lambda>c. c = 32) s)"
    using strip_removes [OF assms, of 32] by auto
  have "\<exists>b' s'. strip_from_end b1 32 = Some b' \<and> holds b' s' \<and> length s' \<le> length (dropWhile (\<lambda>c. c = 32) s)"
    using strip_end_shorter [OF b1(2) _ order_refl holds_length [OF b1(2)], of "int (length (dropWhile (\<lambda>c. c = 32) s)) - 1" 32]
      b1(2) by (simp add: strip_from_end_def strlen_holds)
  then show ?thesis using b1(1) length_dropWhile_le [of "\<lambda>c. c = 32" s] by (auto intro: order_trans)
qed

lemma skip_word_spec:
  "holds b s \<Longrightarrow> i \<le> length s \<Longrightarrow> 32 \<notin> set (take n (drop i s)) \<Longrightarrow> i + n \<le> length s \<Longrightarrow>
    skip_word b i = skip_word b (i + n)"
proof (induction n arbitrary: i)
  case (Suc n)
  then have i: "i < length s" by simp
  have "s ! i \<in> set (take (Suc n) (drop i s))" using i by (simp add: Cons_nth_drop_Suc [symmetric])
  then have c: "b ! i \<noteq> 32" "b ! i \<noteq> 0"
    using Suc.prems(1,3) holds_nth [OF Suc.prems(1) i] holds_nonzero [OF Suc.prems(1) i] by auto
  have "32 \<notin> set (take n (drop (i + 1) s))" using Suc.prems(3) i by (simp add: Cons_nth_drop_Suc [symmetric])
  then have "skip_word b (i + 1) = skip_word b (i + 1 + n)" using Suc.prems(1,4) by (intro Suc.IH) simp_all
  then show ?case using c i holds_length [OF Suc.prems(1)] by (subst skip_word.simps) simp
qed simp

lemma skip_word_shorter:
  "holds b s \<Longrightarrow> i \<le> length s \<Longrightarrow>
    skip_word b i = Some None \<or> (\<exists>r s'. skip_word b i = Some (Some r) \<and> holds r s' \<and> length s' < length s)"
proof (induction "length s - i" arbitrary: i)
  case 0
  then have "i = length s" by simp
  then show ?case using holds_end [OF 0(2)] holds_length [OF 0(2)] by (subst (1 2) skip_word.simps) simp
next
  case (Suc n)
  then have i: "i < length s" by simp
  show ?case
  proof (cases "b ! i = 32")
    case True
    have "holds (drop (i + 1) b) (drop (i + 1) s)"
      using Suc.prems(1) i by (auto simp: holds_def dest: in_set_dropD)
    then show ?thesis using True i holds_length [OF Suc.prems(1)]
      by (subst (1 2) skip_word.simps) (auto intro!: exI [of _ "drop (i + 1) s"])
  next
    case False
    have "skip_word b i = skip_word b (i + 1)"
      using False i holds_nonzero [OF Suc.prems(1) i] holds_length [OF Suc.prems(1)] by (subst skip_word.simps) simp
    then show ?thesis using Suc.hyps(1) [of "i + 1"] Suc.hyps(2) Suc.prems(1) i by simp
  qed
qed

lemma command_depth:
  "holds b s \<Longrightarrow> length s < n \<Longrightarrow> length s < m \<Longrightarrow> command_fuel n sv buff b st = command_fuel m sv buff b st"
proof (induction n arbitrary: m b s st)
  case (Suc n)
  obtain m' where m: "m = Suc m'" using Suc.prems(3) by (cases m) auto
  obtain b1 b2 s2 where b: "strip_from_start b 32 = Some b1" "strip_from_end b1 32 = Some b2" "holds b2 s2" "length s2 \<le> length s"
    using stripped_shorter [OF Suc.prems(1)] by auto
  have r: "command_fuel n sv buff r st = command_fuel m' sv buff r st" if "skip_word b2 0 = Some (Some r)" for r st
  proof -
    have "\<exists>s'. holds r s' \<and> length s' < length s2"
      using skip_word_shorter [OF b(3), of 0] by (simp add: that)
    then obtain s' where "holds r s'" "length s' < length s2" by auto
    then show ?thesis using b(4) Suc.prems(2,3) m by (intro Suc.IH) auto
  qed
  have t: "handle_time (\<lambda>b st. command_fuel n sv buff b st) sv buff b2 st = handle_time (\<lambda>b st. command_fuel m' sv buff b st) sv buff b2 st"
  proof (cases "skip_word b2 0")
    case (Some w)
    then show ?thesis using r by (cases w) (simp_all add: handle_time_def)
  qed (simp add: handle_time_def)
  show ?case unfolding m command_fuel.simps by (simp add: b(1,2) t Let_def cong: if_cong option.case_cong)
qed simp

section \<open>The command time\<close>

lemma strip_start_first:
  assumes "holds b s" and "s \<noteq> []" and "hd s \<noteq> ch"
  shows "strip_from_start b ch = Some b"
  using assms holds_nth [OF assms(1), of 0] holds_length [OF assms(1)]
  by (cases s) (auto simp: strip_from_start_def strlen_holds strip_from_start_loop.simps [of b ch 0] aget_def)

lemma strip_end_last:
  assumes "holds b s" and "s \<noteq> []" and "last s \<noteq> ch"
  shows "strip_from_end b ch = Some b"
proof -
  have l: "length s - 1 < length s" using assms(2) by (cases s) auto
  then have "b ! (length s - 1) \<noteq> ch" using holds_nth [OF assms(1) l] assms(2,3) by (simp add: last_conv_nth)
  moreover have "nat (int (length s) - 1) = length s - 1" "0 \<le> int (length s) - 1" using assms(2) by (cases s; simp)+
  moreover have "length s - 1 < length b" using holds_length [OF assms(1)] by simp
  ultimately show ?thesis using assms(1,2)
    by (simp add: strip_from_end_def strlen_holds strip_from_end_loop.simps [of b ch "int (length s) - 1"])
qed

lemma lower_lit: "map lower (lit ''time'') = lit ''time''"
  by (simp add: lit_def lower_def)

lemma lower_nonzero: "c \<noteq> 0 \<Longrightarrow> lower c \<noteq> 0"
proof -
  assume "c \<noteq> 0"
  moreover have "c + 32 \<noteq> 0" if "c \<le> 90"
  proof
    assume "c + 32 = 0"
    then have "c = - 32" by (simp add: eq_neg_iff_add_eq_0)
    then show False using that by simp
  qed
  ultimately show ?thesis by (auto simp: lower_def)
qed

lemma find_time: "find (\<lambda>s. lit s = lit ''time'') command_names = Some ''time''"
  by (simp add: command_names_def lit_def)

lemma time_runs:
  assumes b: "holds b (lit ''time'' @ 32 # c)" and c: "c \<noteq> []" "last c \<noteq> 32"
  shows "holds (drop 5 b) c"
    and "handle_command sv buff b st = do {
      st' \<leftarrow> handle_command sv buff (drop 5 b) st;
      sh_printf buff (NL # ''elapsed time: %dms'')
        [AInt (sint ((get_ticks sv (kern st') - get_ticks sv (kern st)) * (1000 div 100)))] st' }"
proof -
  have t: "lit ''time'' = [116, 105, 109, 101]" by (simp add: lit_def)
  show h: "holds (drop 5 b) c" using b unfolding t by (auto simp: holds_def)
  have s: "strip_from_start b 32 = Some b" "strip_from_end b 32 = Some b"
    using c by (simp_all add: strip_start_first [OF b] strip_end_last [OF b] t)
  have "seperate_and_take b 32 0 = Some (lit ''time'' @ [0])"
    using seperate_and_take_piece [OF b, of 32 0] split_word [of "lit ''time''" c] by (simp add: t)
  moreover have "holds (lit ''time'' @ [0]) (lit ''time'')" by (simp add: t holds_def)
  then obtain cmd where "to_lower (lit ''time'' @ [0]) = Some cmd" "holds cmd (lit ''time'')"
    using change_case_holds [of lower "lit ''time'' @ [0]" "lit ''time''" 0] lower_nonzero lower_lit
    by (auto simp: to_lower_def)
  moreover have "which_command command_names cmd = Some (Some ''time'')"
    using which_command_find [OF \<open>holds cmd (lit ''time'')\<close> command_names_nonzero] find_time by simp
  moreover have "skip_word b 0 = Some (Some (drop 5 b))"
  proof -
    have "skip_word b 0 = skip_word b 4" using skip_word_spec [OF b, of 0 4] by (simp add: t)
    also have "\<dots> = Some (Some (drop 5 b))"
      using holds_nth [OF b, of 4] holds_length [OF b] by (subst skip_word.simps) (simp add: t)
    finally show ?thesis .
  qed
  moreover have "command_fuel (length b) sv buff (drop 5 b) st = handle_command sv buff (drop 5 b) st"
    unfolding handle_command_def using holds_length [OF h] by (intro command_depth [OF h]) simp_all
  ultimately show "handle_command sv buff b st = do {
      st' \<leftarrow> handle_command sv buff (drop 5 b) st;
      sh_printf buff (NL # ''elapsed time: %dms'')
        [AInt (sint ((get_ticks sv (kern st') - get_ticks sv (kern st)) * (1000 div 100)))] st' }"
    unfolding handle_command_def [of sv buff b] using s by (simp add: Let_def handle_time_def)
qed

section \<open>Unknown commands\<close>

text \<open>
  The search path ends with a separator, so its second directory is the empty string, and joining
  a name to it reads the byte in front of the string.
\<close>

lemma unknown_program:
  assumes "\<And>k p a. create_process sv k p a = Some (0, k)" and "holds cmd w" and "92 \<notin> set (tl w)"
  shows "run_program sv buff cmd cmd_buff st = None"
proof -
  have e: "holds env_path [97, 58, 92, 98, 105, 110, 59]" by (simp add: env_path_def holds_def)
  have n: "count_substrings env_path 59 = Some 2" using count_one [OF e, of 59] by simp
  have p: "seperate_and_take env_path 59 0 = Some [97, 58, 92, 98, 105, 110, 0]" "seperate_and_take env_path 59 1 = Some [0]"
    using seperate_and_take_piece [OF e, of 59 0] seperate_and_take_piece [OF e, of 59 1] by (simp_all add: split_on_cons)
  have h: "holds [97, 58, 92, 98, 105, 110, 0] [97, 58, 92, 98, 105, 110 :: u8]" by (simp add: holds_def)
  have j1: "join_path [97, 58, 92, 98, 105, 110, 0] cmd = Some (joined [97, 58, 92, 98, 105, 110] w @ [0])"
    by (rule join_path_holds [OF h _ assms(2)]) simp
  have j2: "join_path [0] cmd = None"
  proof -
    have "c_text [0] = Some []" by (rule c_text_holds) (simp add: holds_def)
    moreover have "count_substrings cmd 92 = Some 1" using count_one [OF assms(2), of 92] assms(3) by (simp add: no_separator)
    ultimately show ?thesis using c_text_holds [OF assms(2)] by (simp add: join_path_def)
  qed
  have "\<exists>s. c_text (joined [97, 58, 92, 98, 105, 110] w @ [0]) = Some s"
    using c_text_holds [of "joined [97, 58, 92, 98, 105, 110] w @ [0]" "joined [97, 58, 92, 98, 105, 110] w"] assms(2)
    by (auto simp: holds_def joined_def)
  then obtain s where "c_text (joined [97, 58, 92, 98, 105, 110] w @ [0]) = Some s" by auto
  then have "search_env sv cmd (lit ''.exe'') (Some cmd_buff) 0 2 (kern st) = None"
    using p j1 j2 assms(1) by (simp add: numeral_2_eq_2)
  then show ?thesis using n by (simp add: run_program_def search_path_def)
qed

section \<open>Properties\<close>

text \<open>
  Two findings: the key down before any key up moves the pointer to 0, so the next key up shows
  the last command but one; and the month of a listed file loses three of its four bits.
\<close>

lemma down_first_skips_latest:
  assumes "history_of st hs" and "cmd_history_ptr st = - 1" and "1 < length hs"
  shows "do { (c, st) \<leftarrow> key_down st; key_up st } = Some (Some (hs ! 1 @ [0]), st\<lparr>cmd_history_ptr := 1\<rparr>)"
  using assms by (simp add: key_down_def key_up_def decrement_cmd_history_ptr_def increment_cmd_history_ptr_def
      get_cmd_from_history_def history_of_def nth_append)

lemma ls_month_truncated: "drop_bit 5 ((0x0180 :: u16) AND 0x1F0) = 12" "drop_bit 5 ((0x0200 :: u16) AND 0x1F0) = 0"
  by simp_all

definition sample_services :: "nat services" where
  "sample_services = \<lparr>create_process = (\<lambda>k p a. Some (0, k)), wait_process = (\<lambda>k p. Some k), get_ticks = (\<lambda>k. 0),
     other_command = (\<lambda>c b st. Some st), drivers = (\<lambda>p. sample_driver), on_exit = (\<lambda>p k. Some k), stack_pointer = 0\<rparr>"

definition sample_shell :: "nat shell" where
  "sample_shell = \<lparr>kern = fd_kernel, shell_path = [97, 58, 92, 0], cmd_history = replicate CMD_HISTORY_SIZE None,
     cmd_history_ptr = - 1, printed = []\<rparr>"

lemma sample_history: "history_of sample_shell []" "cmd_history_ptr sample_shell = - 1"
  by (simp_all add: history_of_def sample_shell_def)

text \<open>
  C33: the history holds the last ten commands, the latest first, without immediate repetitions
  and without a leading empty command, and after any commands the key up pressed \<open>k + 1\<close> times
  shows exactly the command at place \<open>k\<close>.
\<close>

theorem history_recalls:
  assumes "history_of st []" and "cmd_history_ptr st = - 1" and "list_all2 holds bs cs"
  shows "\<exists>st'. push_all bs st = Some st' \<and> length (foldl remember [] cs) \<le> CMD_HISTORY_SIZE \<and>
    (\<forall>k. k < length (foldl remember [] cs) \<longrightarrow>
      press_up (k + 1) st' = Some (Some (foldl remember [] cs ! k @ [0]), st'\<lparr>cmd_history_ptr := int k\<rparr>))"
proof -
  obtain st' where st': "push_all bs st = Some st'" "history_of st' (foldl remember [] cs)" "cmd_history_ptr st' = - 1"
    using push_all_history [OF assms(1,3,2)] by auto
  moreover have "press_up (k + 1) st' = Some (Some (foldl remember [] cs ! k @ [0]), st'\<lparr>cmd_history_ptr := int k\<rparr>)"
    if "k < length (foldl remember [] cs)" for k
    using press_up_recalls [OF st'(2,3), of "k + 1"] that by (simp del: press_up.simps)
  ultimately show ?thesis by (auto simp: history_of_def simp del: press_up.simps)
qed

theorem history_recalls_witness:
  "\<exists>st'. push_all [[108, 115, 0], [108, 115, 0], [99, 100, 0]] sample_shell = Some st' \<and>
    press_up 1 st' = Some (Some [99, 100, 0], st'\<lparr>cmd_history_ptr := 0\<rparr>) \<and>
    press_up 2 st' = Some (Some [108, 115, 0], st'\<lparr>cmd_history_ptr := 1\<rparr>)"
proof -
  have r: "foldl remember [] [[108, 115], [108, 115], [99, 100]] = [[99, 100], [108, 115]]"
    by (simp add: remember_def)
  have "list_all2 holds [[108, 115, 0], [108, 115, 0], [99, 100, 0]] [[108, 115], [108, 115], [99, 100]]"
    by (simp add: holds_def)
  from history_recalls [OF sample_history this] obtain st' where
    "push_all [[108, 115, 0], [108, 115, 0], [99, 100, 0]] sample_shell = Some st'"
    and k: "\<forall>k. k < 2 \<longrightarrow> press_up (k + 1) st' = Some (Some ([[99, 100], [108, 115]] ! k @ [0]), st'\<lparr>cmd_history_ptr := int k\<rparr>)"
    unfolding r by (auto simp del: press_up.simps)
  then show ?thesis using k [THEN spec, of 0] k [THEN spec, of 1] by (simp del: press_up.simps add: numeral_2_eq_2)
qed

text \<open>
  \<^verbatim>\<open>mkdir NAME\<close> and \<^verbatim>\<open>touch NAME\<close> open the current path without the backslash at its end, create
  exactly the entry NAME there, as a directory or as a file, if it is a directory, and close it.
\<close>

theorem shell_creates_entry:
  assumes "holds b (w @ 32 # name)" and "32 \<notin> set w" and "32 \<notin> set name" and "w \<noteq> []" and "92 \<notin> set name"
    and "holds (shell_path st) ps" and "ps \<noteq> []"
  shows "handle_mkdir sv b st = create_in sv (folder_of ps) name FS_DIRECTORY st \<and>
    handle_touch sv b st = create_in sv (folder_of ps) name FS_FILE st"
  using create_entry_in_path [OF assms] by (simp add: handle_mkdir_def handle_touch_def)

theorem shell_creates_entry_witness:
  "handle_mkdir sample_services [109, 32, 120, 0] sample_shell = create_in sample_services [97, 58] [120] FS_DIRECTORY sample_shell"
proof -
  have "holds [109, 32, 120, 0] ([109] @ 32 # [120 :: u8])" "holds (shell_path sample_shell) [97, 58, 92]"
    by (simp_all add: holds_def sample_shell_def)
  from shell_creates_entry [OF this(1) _ _ _ _ this(2), of sample_services] show ?thesis by (simp add: folder_of_def)
qed

text \<open>
  C34: \<^verbatim>\<open>time COMMAND\<close> does exactly what the command alone does, to any depth of nesting, and then
  prints the time between the two readings of the clock.
\<close>

theorem time_runs_command:
  assumes "holds b (lit ''time'' @ 32 # c)" and "c \<noteq> []" and "last c \<noteq> 32"
  shows "holds (drop 5 b) c \<and> handle_command sv buff b st = do {
      st' \<leftarrow> handle_command sv buff (drop 5 b) st;
      sh_printf buff (NL # ''elapsed time: %dms'')
        [AInt (sint ((get_ticks sv (kern st') - get_ticks sv (kern st)) * (1000 div 100)))] st' }"
  using time_runs [OF assms] by simp

theorem time_runs_command_witness:
  "handle_command sample_services (replicate 30 0) [116, 105, 109, 101, 32, 108, 115, 0] sample_shell = do {
      st' \<leftarrow> handle_command sample_services (replicate 30 0) [108, 115, 0] sample_shell;
      sh_printf (replicate 30 0) (NL # ''elapsed time: %dms'')
        [AInt (sint ((get_ticks sample_services (kern st') - get_ticks sample_services (kern sample_shell)) * (1000 div 100)))] st' }"
proof -
  have "holds [116, 105, 109, 101, 32, 108, 115, 0] (lit ''time'' @ 32 # [108, 115 :: u8])"
    by (simp add: lit_def holds_def)
  from time_runs_command [OF this, of sample_services "replicate 30 0" sample_shell] show ?thesis by simp
qed

text \<open>
  When no directory of the search path has the program, the shell does not print that the
  command is unknown: the path ends with a separator, so its last directory is the empty string,
  and joining the name to it reads the byte in front of the string.
\<close>

theorem unknown_command_reads_before_path:
  assumes "\<forall>k p a. create_process sv k p a = Some (0, k)" and "holds cmd w" and "92 \<notin> set (tl w)"
  shows "run_program sv buff cmd cmd_buff st = None"
  using assms by (intro unknown_program) simp_all

theorem unknown_command_reads_before_path_witness:
  "run_program sample_services (replicate 30 0) [120, 0] [120, 0] sample_shell = None"
  by (rule unknown_command_reads_before_path [where w = "[120]"]) (simp_all add: sample_services_def holds_def)

end
