(* ===== verification/Tedit.thy ===== *)
theory Tedit
  imports Prelude
begin

text \<open>
  The text editor \<^verbatim>\<open>src/root/bin/tedit.c\<close>.  A document is a doubly linked list of lines, a line a
  doubly linked list of regions of 128 bytes each; the first region is part of the line's own
  structure.  Both lists are Isabelle lists here: \<open>prev\<close> and \<open>next\<close> of a node are its neighbours,
  a pointer to a line or to a region of the current line is its index, and a pointer that may be
  null is an index that may lie behind the last region.  A \<^verbatim>\<open>size_t\<close> is a \<open>nat\<close> below \<open>2 ^ 32\<close>
  with the wrap-around of its subtractions written out (\<open>wsub\<close>).  \<open>None\<close> is a read or write outside
  a buffer, the use of a null pointer or of a freed line.  Allocations are taken to succeed.
\<close>

abbreviation TEXT_REGION_BUFFER_SIZE :: nat where "TEXT_REGION_BUFFER_SIZE \<equiv> 128"
abbreviation WIDTH :: int where "WIDTH \<equiv> 800"
abbreviation HEIGHT :: int where "HEIGHT \<equiv> 500"
abbreviation CR :: u8 where "CR \<equiv> 0x0D"
abbreviation LF :: u8 where "LF \<equiv> 0x0A"
abbreviation BS :: u8 where "BS \<equiv> 0x08"

definition wsub :: "nat \<Rightarrow> nat \<Rightarrow> nat" where
  "wsub a b = (a + 2 ^ 32 - b) mod 2 ^ 32"

lemma wsub_le [simp]:
  assumes "b \<le> a" and "a < 2 ^ 32"
  shows "wsub a b = a - b"
proof -
  have "a + 2 ^ 32 - b = (a - b) + 2 ^ 32" by (rule diff_add_assoc2 [OF assms(1)])
  moreover have "a - b < 2 ^ 32" using assms(2) by (rule le_less_trans [OF diff_le_self])
  ultimately show ?thesis by (simp only: wsub_def mod_add_self2 mod_less)
qed

record region =
  rbuf :: "u8 list"
  rpos :: nat

record tline =
  regs :: "region list"
  lno :: nat

type_synonym document = "tline list"

definition alloc_text_region :: region where
  "alloc_text_region = \<lparr>rbuf = replicate TEXT_REGION_BUFFER_SIZE 0, rpos = 0\<rparr>"

definition alloc_line_text_region :: tline where
  "alloc_line_text_region = \<lparr>regs = [alloc_text_region], lno = 0\<rparr>"

section \<open>Bytes of the regions of a line\<close>

definition rd :: "region list \<Rightarrow> nat \<Rightarrow> nat \<Rightarrow> u8 option" where
  "rd rs t i = do { r \<leftarrow> aget rs t; aget (rbuf r) i }"

definition wr :: "region list \<Rightarrow> nat \<Rightarrow> nat \<Rightarrow> u8 \<Rightarrow> region list option" where
  "wr rs t i c = do { r \<leftarrow> aget rs t; b \<leftarrow> aset (rbuf r) i c; aset rs t (r\<lparr>rbuf := b\<rparr>) }"

definition set_pos :: "region list \<Rightarrow> nat \<Rightarrow> nat \<Rightarrow> region list option" where
  "set_pos rs t p = do { r \<leftarrow> aget rs t; aset rs t (r\<lparr>rpos := p\<rparr>) }"

definition pos_of :: "region list \<Rightarrow> nat \<Rightarrow> nat option" where
  "pos_of rs t = do { r \<leftarrow> aget rs t; Some (rpos r) }"

text \<open>
  One more byte at the end of a line, and a new region as soon as the last one is full: the step
  that loading a file, splitting a line and joining two lines share.
\<close>

definition push_char :: "region list \<Rightarrow> u8 \<Rightarrow> region list option" where
  "push_char rs c = do {
     let t = length rs - 1;
     p \<leftarrow> pos_of rs t;
     rs \<leftarrow> wr rs t p c;
     rs \<leftarrow> set_pos rs t (p + 1);
     Some (if p + 1 = TEXT_REGION_BUFFER_SIZE then rs @ [alloc_text_region] else rs) }"

fun push_chars :: "region list \<Rightarrow> u8 list \<Rightarrow> region list option" where
  "push_chars rs [] = Some rs"
| "push_chars rs (c # cs) = do { rs \<leftarrow> push_char rs c; push_chars rs cs }"

section \<open>Loading and writing\<close>

text \<open>The bytes that the file delivers one by one, stored in the last line.\<close>

definition load_char :: "document \<Rightarrow> u8 \<Rightarrow> document option" where
  "load_char doc c = do {
     let i = length doc - 1;
     l \<leftarrow> aget doc i;
     rs \<leftarrow> push_char (regs l) c;
     doc \<leftarrow> aset doc i (l\<lparr>regs := rs\<rparr>);
     Some (if c = LF then doc @ [alloc_line_text_region\<lparr>lno := lno l + 1\<rparr>] else doc) }"

fun load_chars :: "document \<Rightarrow> u8 list \<Rightarrow> document option" where
  "load_chars doc [] = Some doc"
| "load_chars doc (c # cs) = do { doc \<leftarrow> load_char doc c; load_chars doc cs }"

definition load_file :: "u8 list \<Rightarrow> document option" where
  "load_file bs = load_chars [alloc_line_text_region] bs"

text \<open>The buffers that are written, one after another.\<close>

fun write_regions :: "region list \<Rightarrow> u8 list list" where
  "write_regions [] = []"
| "write_regions (tr # next) = take (rpos tr) (rbuf tr) # write_regions next"

fun write_file :: "document \<Rightarrow> u8 list list" where
  "write_file [] = []"
| "write_file (ltr # next_line) = write_regions (regs ltr) @ write_file next_line"

section \<open>Moving the cursor\<close>

record cursor =
  cur_line :: nat
  cur_region :: nat
  cursor_line :: nat
  cursor_col :: nat

fun sum_pos :: "region list \<Rightarrow> nat" where
  "sum_pos [] = 0"
| "sum_pos (tr # next) = rpos tr + sum_pos next"

definition advance_cursor_left :: "document \<Rightarrow> cursor \<Rightarrow> (bool \<times> cursor) option" where
  "advance_cursor_left doc cu = (
     if cursor_col cu = 0 then
       (if cur_line cu = 0 then Some (False, cu)
        else do {
          l \<leftarrow> aget doc (cur_line cu - 1);
          Some (True, \<lparr>cur_line = cur_line cu - 1, cur_region = length (regs l) - 1,
            cursor_line = wsub (cursor_line cu) 1, cursor_col = wsub (sum_pos (regs l)) 2\<rparr>) })
     else do {
       r \<leftarrow> (if cursor_col cu mod TEXT_REGION_BUFFER_SIZE = 0
             then do { guard (0 < cur_region cu); Some (cur_region cu - 1) } else Some (cur_region cu));
       Some (True, cu\<lparr>cur_region := r, cursor_col := cursor_col cu - 1\<rparr>) })"

text \<open>The two tests for the end of a line; in an empty region they read the byte before its buffer.\<close>

definition before_newline :: "region \<Rightarrow> nat \<Rightarrow> nat \<Rightarrow> bool option" where
  "before_newline tr col k =
     (if col mod TEXT_REGION_BUFFER_SIZE = wsub (rpos tr) k
      then do { c \<leftarrow> aget (rbuf tr) (wsub (rpos tr) 1); Some (c = LF) } else Some False)"

definition behind_text :: "region \<Rightarrow> nat \<Rightarrow> bool option" where
  "behind_text tr col =
     (if col mod TEXT_REGION_BUFFER_SIZE = rpos tr
      then do { c \<leftarrow> aget (rbuf tr) (wsub (rpos tr) 1); Some (c \<noteq> LF) } else Some False)"

definition at_line_end :: "region \<Rightarrow> nat \<Rightarrow> nat \<Rightarrow> bool option" where
  "at_line_end tr col k = do {
     b \<leftarrow> before_newline tr col k;
     if b then Some True else behind_text tr col }"

definition advance_cursor_right :: "document \<Rightarrow> cursor \<Rightarrow> (bool \<times> cursor) option" where
  "advance_cursor_right doc cu = do {
     l \<leftarrow> aget doc (cur_line cu);
     tr \<leftarrow> aget (regs l) (cur_region cu);
     e \<leftarrow> at_line_end tr (cursor_col cu) 1;
     if e then
       (if cur_line cu + 1 < length doc
        then Some (True, \<lparr>cur_line = cur_line cu + 1, cur_region = 0, cursor_line = cursor_line cu + 1, cursor_col = 0\<rparr>)
        else Some (False, cu))
     else
       Some (True, cu\<lparr>cursor_col := cursor_col cu + 1,
         cur_region := (if (cursor_col cu + 1) mod TEXT_REGION_BUFFER_SIZE = 0 then cur_region cu + 1 else cur_region cu)\<rparr>) }"

text \<open>Going to a column of another line: the region is searched from the line's first one.\<close>

fun seek_col :: "region list \<Rightarrow> nat \<Rightarrow> nat \<Rightarrow> nat \<Rightarrow> nat \<times> nat" where
  "seek_col (tr # tr' # next) t pos_read col =
     (if pos_read < col then seek_col (tr' # next) (t + 1) (pos_read + rpos tr) col else (t, pos_read))"
| "seek_col rs t pos_read col = (t, pos_read)"

definition enter_line :: "document \<Rightarrow> nat \<Rightarrow> nat \<Rightarrow> nat \<Rightarrow> cursor option" where
  "enter_line doc i ln col = do {
     l \<leftarrow> aget doc i;
     let (t, p) = seek_col (regs l) 0 0 col;
     tr \<leftarrow> aget (regs l) t;
     let p = p + rpos tr;
     col \<leftarrow> (if p < col
            then do { c \<leftarrow> aget (rbuf tr) (wsub (rpos tr) 1); Some (if c = LF then wsub p 1 else p) }
            else Some (if col \<le> p \<and> wsub p 2 < col then wsub p 1 else col));
     Some \<lparr>cur_line = i, cur_region = t, cursor_line = ln, cursor_col = col\<rparr> }"

definition advance_cursor_up :: "document \<Rightarrow> cursor \<Rightarrow> (bool \<times> cursor) option" where
  "advance_cursor_up doc cu =
     (if cur_line cu = 0 then Some (False, cu)
      else do { cu \<leftarrow> enter_line doc (cur_line cu - 1) (wsub (cursor_line cu) 1) (cursor_col cu); Some (True, cu) })"

definition advance_cursor_down :: "document \<Rightarrow> cursor \<Rightarrow> (bool \<times> cursor) option" where
  "advance_cursor_down doc cu =
     (if cur_line cu + 1 < length doc
      then do { cu \<leftarrow> enter_line doc (cur_line cu + 1) (cursor_line cu + 1) (cursor_col cu); Some (True, cu) }
      else Some (False, cu))"

section \<open>Typing a character\<close>

text \<open>
  The bytes of a region from \<open>n - 1\<close> down to \<open>k\<close> move one place up; the last byte of a full region
  moves to the front of the next one.
\<close>

fun shift_up :: "region list \<Rightarrow> nat \<Rightarrow> nat \<Rightarrow> nat \<Rightarrow> region list option" where
  "shift_up rs t k 0 = Some rs"
| "shift_up rs t k (Suc i) =
     (if i < k then Some rs
      else do {
        c \<leftarrow> rd rs t i;
        rs \<leftarrow> (if i + 1 \<noteq> TEXT_REGION_BUFFER_SIZE then wr rs t (i + 1) c else wr rs (t + 1) 0 c);
        shift_up rs t k i })"

fun shift_regions :: "region list \<Rightarrow> nat \<Rightarrow> nat \<Rightarrow> region list option" where
  "shift_regions rs tr 0 = Some rs"
| "shift_regions rs tr (Suc n) = do {
     p \<leftarrow> pos_of rs (tr + Suc n);
     rs \<leftarrow> shift_up rs (tr + Suc n) 0 p;
     shift_regions rs tr n }"

definition append_char :: "region list \<Rightarrow> nat \<Rightarrow> nat \<Rightarrow> u8 \<Rightarrow> region list option" where
  "append_char rs tr col c = do {
     guard (tr < length rs);
     p \<leftarrow> pos_of rs (length rs - 1);
     let rs = (if p = TEXT_REGION_BUFFER_SIZE then rs @ [alloc_text_region] else rs);
     let last_tr = length rs - 1;
     rs \<leftarrow> shift_regions rs tr (last_tr - tr);
     p \<leftarrow> pos_of rs tr;
     rs \<leftarrow> shift_up rs tr (col mod TEXT_REGION_BUFFER_SIZE) p;
     rs \<leftarrow> wr rs tr (col mod TEXT_REGION_BUFFER_SIZE) c;
     p \<leftarrow> pos_of rs last_tr;
     set_pos rs last_tr (p + 1) }"

text \<open>
  A new line takes the bytes behind the cursor; the old one ends there with CR and LF.  The new
  line's number is that of the old one, and it and all lines behind it are counted up.
\<close>

definition first_part :: "region \<Rightarrow> nat \<Rightarrow> region option" where
  "first_part tr k = do {
     b \<leftarrow> aset (rbuf tr) k CR;
     b \<leftarrow> aset b (k + 1) LF;
     Some \<lparr>rbuf = b, rpos = k + 2\<rparr> }"

definition moved_part :: "region \<Rightarrow> nat \<Rightarrow> region option" where
  "moved_part tr k = do {
     guard (rpos tr \<le> TEXT_REGION_BUFFER_SIZE \<and> rpos tr \<le> length (rbuf tr));
     let cs = drop k (take (rpos tr) (rbuf tr));
     Some \<lparr>rbuf = cs @ drop (length cs) (rbuf alloc_text_region), rpos = wsub (rpos tr) k\<rparr> }"

fun push_regions :: "region list \<Rightarrow> region list \<Rightarrow> region list option" where
  "push_regions rs [] = Some rs"
| "push_regions rs (tr # next) = do {
     guard (rpos tr \<le> length (rbuf tr));
     rs \<leftarrow> push_chars rs (take (rpos tr) (rbuf tr));
     push_regions rs next }"

definition split_line :: "document \<Rightarrow> nat \<Rightarrow> nat \<Rightarrow> nat \<Rightarrow> document option" where
  "split_line doc i t col = do {
     l \<leftarrow> aget doc i;
     let k = col mod TEXT_REGION_BUFFER_SIZE;
     tr \<leftarrow> aget (regs l) t;
     new_tr \<leftarrow> moved_part tr k;
     new_rs \<leftarrow> push_regions [new_tr] (drop (t + 1) (regs l));
     tr \<leftarrow> first_part tr k;
     let l1 = l\<lparr>regs := take t (regs l) @ [tr]\<rparr>;
     let l2 = \<lparr>regs = new_rs, lno = lno l + 1\<rparr>;
     Some (take i doc @ [l1, l2] @ map (\<lambda>l. l\<lparr>lno := lno l + 1\<rparr>) (drop (i + 1) doc)) }"

section \<open>Removing a character\<close>

text \<open>The bytes from \<open>i\<close> up to the region's end move one place down.\<close>

fun shift_down :: "region list \<Rightarrow> nat \<Rightarrow> nat \<Rightarrow> nat \<Rightarrow> region list option" where
  "shift_down rs t i 0 = Some rs"
| "shift_down rs t i (Suc n) = do {
     rs \<leftarrow> (if i + 1 < TEXT_REGION_BUFFER_SIZE then do { c \<leftarrow> rd rs t (i + 1); wr rs t i c }
           else if t + 1 < length rs then do { c \<leftarrow> rd rs (t + 1) 0; wr rs t i c }
           else Some rs);
     shift_down rs t (i + 1) n }"

fun shift_down_regions :: "region list \<Rightarrow> nat \<Rightarrow> nat \<Rightarrow> region list option" where
  "shift_down_regions rs t 0 = Some rs"
| "shift_down_regions rs t (Suc n) = do {
     p \<leftarrow> pos_of rs t;
     rs \<leftarrow> shift_down rs t 0 p;
     shift_down_regions rs (t + 1) n }"

definition remove_char :: "region list \<Rightarrow> nat \<Rightarrow> nat \<Rightarrow> (bool \<times> region list) option" where
  "remove_char rs tr col = do {
     let k = (col - 1) mod TEXT_REGION_BUFFER_SIZE;
     p \<leftarrow> pos_of rs tr;
     rs \<leftarrow> shift_down rs tr k (p - k);
     rs \<leftarrow> shift_down_regions rs (tr + 1) (length rs - (tr + 1));
     let last_tr = length rs - 1;
     p \<leftarrow> pos_of rs last_tr;
     if p = 0 then (if 0 < last_tr then Some (True, butlast rs) else Some (False, rs))
     else do { rs \<leftarrow> set_pos rs last_tr (p - 1); Some (True, rs) } }"

definition join_lines :: "document \<Rightarrow> nat \<Rightarrow> (bool \<times> document) option" where
  "join_lines doc i = (
     if i = 0 then Some (False, doc)
     else do {
       l \<leftarrow> aget doc i;
       prev \<leftarrow> aget doc (i - 1);
       let t = length (regs prev) - 1;
       p \<leftarrow> pos_of (regs prev) t;
       rs \<leftarrow> set_pos (regs prev) t (wsub p 2);
       rs \<leftarrow> push_regions rs (regs l);
       Some (True, take (i - 1) doc @ [prev\<lparr>regs := rs\<rparr>] @ map (\<lambda>l. l\<lparr>lno := wsub (lno l) 1\<rparr>) (drop (i + 1) doc)) })"

definition remove_at_position :: "document \<Rightarrow> nat \<Rightarrow> nat \<Rightarrow> nat \<Rightarrow> (bool \<times> document) option" where
  "remove_at_position doc i tr col = (
     if col = 0 then join_lines doc i
     else do {
       l \<leftarrow> aget doc i;
       (b, rs) \<leftarrow> remove_char (regs l) tr col;
       Some (b, doc[i := l\<lparr>regs := rs\<rparr>]) })"

definition append_at_position :: "document \<Rightarrow> nat \<Rightarrow> nat \<Rightarrow> nat \<Rightarrow> u8 \<Rightarrow> (bool \<times> document) option" where
  "append_at_position doc i tr col c = (
     if c = BS then remove_at_position doc i tr col
     else if c \<noteq> LF then do {
       l \<leftarrow> aget doc i;
       rs \<leftarrow> append_char (regs l) tr col c;
       Some (True, doc[i := l\<lparr>regs := rs\<rparr>]) }
     else do { doc \<leftarrow> split_line doc i tr col; Some (True, doc) })"

definition insert_at_position :: "document \<Rightarrow> nat \<Rightarrow> nat \<Rightarrow> nat \<Rightarrow> u8 \<Rightarrow> (bool \<times> document) option" where
  "insert_at_position doc i tr col c = (
     if c = LF \<or> c = BS then append_at_position doc i tr col c
     else do {
       l \<leftarrow> aget doc i;
       r \<leftarrow> aget (regs l) tr;
       e \<leftarrow> at_line_end r col 2;
       if e then append_at_position doc i tr col c
       else do {
         rs \<leftarrow> wr (regs l) tr (col mod TEXT_REGION_BUFFER_SIZE) c;
         Some (True, doc[i := l\<lparr>regs := rs\<rparr>]) } })"

section \<open>The visible part, and the keys\<close>

definition to_int :: "nat \<Rightarrow> int" where
  "to_int n = sint (of_nat n :: u32)"

definition fit_screen_to_cursor :: "nat \<Rightarrow> nat \<Rightarrow> nat \<Rightarrow> nat \<Rightarrow> nat \<times> nat" where
  "fit_screen_to_cursor line col top_line left_col = (
     let screen_cursor_row = to_int (wsub line top_line * 16);
         screen_cursor_col = to_int (wsub col left_col * 8)
     in if screen_cursor_row < 0 then (line, left_col)
        else if screen_cursor_row > HEIGHT then (wsub line (nat (HEIGHT div 16)), left_col)
        else if screen_cursor_col < 0 then (top_line, col)
        else if screen_cursor_col > WIDTH then (top_line, (wsub col (nat (WIDTH div 8)) + 1) mod 2 ^ 32)
        else (top_line, left_col))"

text \<open>
  A key that stands for a character.  After a backspace at the front of a line the current line has
  been freed, and \<^verbatim>\<open>advance_cursor_left\<close> starts from it.
\<close>

definition type_key :: "bool \<Rightarrow> document \<Rightarrow> cursor \<Rightarrow> u8 \<Rightarrow> (bool \<times> document \<times> cursor) option" where
  "type_key is_insert doc cu c = do {
     (action, doc) \<leftarrow> (if is_insert then insert_at_position else append_at_position) doc (cur_line cu) (cur_region cu) (cursor_col cu) c;
     if \<not> action then Some (False, doc, cu)
     else do {
       guard (c \<noteq> BS \<or> cursor_col cu \<noteq> 0);
       (_, cu) \<leftarrow> (if c = BS then advance_cursor_left doc cu else advance_cursor_right doc cu);
       Some (True, doc, cu) } }"

section \<open>A line as one array\<close>

text \<open>
  The regions of a line with the fill counts \<open>ps\<close>; all their buffers in a row; and the invariant of
  a line: every region but the last is full.
\<close>

definition shape :: "region list \<Rightarrow> nat list \<Rightarrow> bool" where
  "shape rs ps \<longleftrightarrow> map rpos rs = ps \<and> (\<forall>r \<in> set rs. length (rbuf r) = 128)"

definition flat :: "region list \<Rightarrow> u8 list" where
  "flat rs = concat (map rbuf rs)"

definition chain :: "nat \<Rightarrow> nat \<Rightarrow> region list \<Rightarrow> bool" where
  "chain n p rs \<longleftrightarrow> shape rs (replicate n 128 @ [p]) \<and> p \<le> 128"

definition ltext :: "region list \<Rightarrow> u8 list" where
  "ltext rs = concat (write_regions rs)"

lemma concat_row_nth:
  "\<forall>x \<in> set xss. length x = n \<Longrightarrow> t < length xss \<Longrightarrow> i < n \<Longrightarrow> concat xss ! (n * t + i) = xss ! t ! i"
proof (induction xss arbitrary: t)
  case Nil
  then show ?case by simp
next
  case (Cons x xss)
  show ?case using Cons by (cases t) (simp_all add: nth_append)
qed

lemma concat_row_length: "\<forall>x \<in> set xss. length x = n \<Longrightarrow> length (concat xss) = n * length xss"
  by (induction xss) simp_all

lemma concat_row_update:
  "\<forall>x \<in> set xss. length x = n \<Longrightarrow> t < length xss \<Longrightarrow> i < n \<Longrightarrow>
    concat (xss[t := (xss ! t)[i := c]]) = (concat xss)[n * t + i := c]"
proof (induction xss arbitrary: t)
  case Nil
  then show ?case by simp
next
  case (Cons x xss)
  show ?case using Cons by (cases t) (simp_all add: list_update_append)
qed

lemma all_update: "\<forall>x \<in> set xs. P x \<Longrightarrow> P y \<Longrightarrow> \<forall>x \<in> set (xs[t := y]). P x"
  using set_update_subset_insert [of xs t y] by blast

lemma shape_length: "shape rs ps \<Longrightarrow> length rs = length ps"
  by (auto simp: shape_def)

lemma shape_buf: "shape rs ps \<Longrightarrow> t < length ps \<Longrightarrow> length (rbuf (rs ! t)) = 128"
  by (auto simp: shape_def)

lemma shape_pos: "shape rs ps \<Longrightarrow> t < length ps \<Longrightarrow> rpos (rs ! t) = ps ! t"
  by (auto simp: shape_def)

lemma flat_length: "shape rs ps \<Longrightarrow> length (flat rs) = 128 * length ps"
  unfolding flat_def by (subst concat_row_length [of _ 128]) (auto simp: shape_def)

lemma pos_of_shape: "shape rs ps \<Longrightarrow> t < length ps \<Longrightarrow> pos_of rs t = Some (ps ! t)"
  by (simp add: pos_of_def shape_length shape_pos)

lemma rd_flat:
  assumes "shape rs ps" and "t < length ps" and "i < 128"
  shows "rd rs t i = Some (flat rs ! (128 * t + i))"
proof -
  have "flat rs ! (128 * t + i) = rbuf (rs ! t) ! i"
    unfolding flat_def using assms by (subst concat_row_nth [of _ 128]) (auto simp: shape_def)
  then show ?thesis using assms by (simp add: rd_def shape_length shape_buf)
qed

lemma wr_flat:
  assumes "shape rs ps" and "t < length ps" and "i < 128"
  obtains rs' where "wr rs t i c = Some rs'" "shape rs' ps" "flat rs' = (flat rs)[128 * t + i := c]"
proof
  let ?r = "rs ! t"
  let ?rs = "rs[t := ?r\<lparr>rbuf := (rbuf ?r)[i := c]\<rparr>]"
  have t: "t < length rs" using assms by (simp add: shape_length)
  show "wr rs t i c = Some ?rs" using assms t by (simp add: wr_def shape_buf)
  have "map rpos ?rs = map rpos rs" using t by (simp add: map_update list_update_same_conv)
  moreover have "\<forall>r \<in> set ?rs. length (rbuf r) = 128"
    using assms t by (intro all_update) (auto simp: shape_def)
  ultimately show "shape ?rs ps" using assms by (simp add: shape_def)
  have "map rbuf ?rs = (map rbuf rs)[t := (map rbuf rs ! t)[i := c]]" using t by (simp add: map_update)
  then show "flat ?rs = (flat rs)[128 * t + i := c]"
    unfolding flat_def using assms t by (simp only:) (subst concat_row_update [of _ 128]; auto simp: shape_def)
qed

lemma set_pos_flat:
  assumes "shape rs ps" and "t < length ps"
  obtains rs' where "set_pos rs t p = Some rs'" "shape rs' (ps[t := p])" "flat rs' = flat rs"
proof
  let ?rs = "rs[t := (rs ! t)\<lparr>rpos := p\<rparr>]"
  have t: "t < length rs" using assms by (simp add: shape_length)
  show "set_pos rs t p = Some ?rs" using t by (simp add: set_pos_def)
  have "\<forall>r \<in> set ?rs. length (rbuf r) = 128"
    using assms t by (intro all_update) (auto simp: shape_def)
  then show "shape ?rs (ps[t := p])" using assms by (simp add: shape_def map_update)
  have "map rbuf ?rs = map rbuf rs" using t by (simp add: map_update list_update_same_conv)
  then show "flat ?rs = flat rs" by (simp add: flat_def)
qed

lemma shape_alloc: "shape rs ps \<Longrightarrow> shape (rs @ [alloc_text_region]) (ps @ [0])"
  by (auto simp: shape_def alloc_text_region_def)

lemma flat_alloc: "flat (rs @ [alloc_text_region]) = flat rs @ replicate 128 0"
  by (simp add: flat_def alloc_text_region_def)

lemma chain_length: "chain n p rs \<Longrightarrow> length rs = n + 1"
  by (auto simp: chain_def dest: shape_length)

lemma chain_flat: "chain n p rs \<Longrightarrow> length (flat rs) = 128 * n + 128"
  by (auto simp: chain_def dest: flat_length)

lemma chain_text: "chain n p rs \<Longrightarrow> ltext rs = take (128 * n + p) (flat rs)"
proof (induction n arbitrary: rs)
  case 0
  then show ?case by (auto simp: chain_def shape_def ltext_def flat_def)
next
  case (Suc n)
  then obtain r rs' where rs: "rs = r # rs'" "rpos r = 128" "length (rbuf r) = 128" "chain n p rs'"
    by (cases rs) (auto simp: chain_def shape_def)
  then show ?case using Suc.IH [OF rs(4)] by (simp add: ltext_def flat_def)
qed

lemma chain_text_length: "chain n p rs \<Longrightarrow> length (ltext rs) = 128 * n + p"
  using chain_flat [of n p rs] by (simp add: chain_text) (simp add: chain_def)

lemma chain_sum: "chain n p rs \<Longrightarrow> sum_pos rs = 128 * n + p"
proof (induction n arbitrary: rs)
  case 0
  then show ?case by (auto simp: chain_def shape_def)
next
  case (Suc n)
  then obtain r rs' where "rs = r # rs'" "rpos r = 128" "chain n p rs'"
    by (cases rs) (auto simp: chain_def shape_def)
  with Suc.IH show ?case by simp
qed

lemma chain_alloc: "chain n 128 rs \<Longrightarrow> chain (n + 1) 0 (rs @ [alloc_text_region])"
  using shape_alloc [of rs "replicate n 128 @ [128]"] by (simp add: chain_def replicate_append_same)

lemma text_alloc: "ltext (rs @ [alloc_text_region]) = ltext rs"
proof -
  have "write_regions (xs @ ys) = write_regions xs @ write_regions ys" for xs ys by (induction xs) simp_all
  then show ?thesis by (simp add: ltext_def alloc_text_region_def)
qed

section \<open>Adding a byte at the end\<close>

lemma push_char_text:
  assumes "chain n p rs" and "p < 128"
  obtains n' p' rs' where "push_char rs c = Some rs'" "chain n' p' rs'" "p' < 128" "ltext rs' = ltext rs @ [c]"
proof -
  have sh: "shape rs (replicate n 128 @ [p])" using assms by (simp add: chain_def)
  have l: "length rs - 1 = n" using chain_length [OF assms(1)] by simp
  obtain rs1 where 1: "wr rs n p c = Some rs1" "shape rs1 (replicate n 128 @ [p])" "flat rs1 = (flat rs)[128 * n + p := c]"
    using wr_flat [OF sh, of n p c] assms(2) by auto
  obtain rs2 where 2: "set_pos rs1 n (p + 1) = Some rs2" "shape rs2 (replicate n 128 @ [p + 1])" "flat rs2 = flat rs1"
    using set_pos_flat [OF 1(2), of n "p + 1"] by (auto simp: list_update_append)
  have c2: "chain n (p + 1) rs2" using 2 assms(2) by (simp add: chain_def)
  have "128 * n + p < length (flat rs)" using chain_flat [OF assms(1)] assms(2) by simp
  then have t2: "ltext rs2 = ltext rs @ [c]"
    unfolding chain_text [OF c2] chain_text [OF assms(1)] 2(3) 1(3) by (simp add: take_Suc_conv_app_nth)
  have "pos_of rs n = Some p" using pos_of_shape [OF sh, of n] by (simp add: nth_append)
  then have e: "push_char rs c = Some (if p + 1 = 128 then rs2 @ [alloc_text_region] else rs2)"
    unfolding push_char_def Let_def l using 1(1) 2(1) by simp
  show ?thesis
  proof (cases "p + 1 = 128")
    case True
    with chain_alloc c2 have "chain (n + 1) 0 (rs2 @ [alloc_text_region])" by metis
    then show ?thesis using that [of "rs2 @ [alloc_text_region]" "n + 1" 0] e True t2 by (simp add: text_alloc)
  next
    case False
    then show ?thesis using that [of rs2 n "p + 1"] e c2 t2 assms(2) by simp
  qed
qed

lemma push_chars_text:
  "chain n p rs \<Longrightarrow> p < 128 \<Longrightarrow>
    \<exists>n' p' rs'. push_chars rs cs = Some rs' \<and> chain n' p' rs' \<and> p' < 128 \<and> ltext rs' = ltext rs @ cs"
proof (induction cs arbitrary: n p rs)
  case Nil
  then show ?case by auto
next
  case (Cons c cs)
  obtain n1 p1 rs1 where 1: "push_char rs c = Some rs1" "chain n1 p1 rs1" "p1 < 128" "ltext rs1 = ltext rs @ [c]"
    by (rule push_char_text [OF Cons.prems])
  from Cons.IH [OF 1(2,3)] 1(1,4) show ?case by simp
qed

lemma push_regions_text:
  "chain n p rs \<Longrightarrow> p < 128 \<Longrightarrow> \<forall>r \<in> set tr. rpos r \<le> length (rbuf r) \<Longrightarrow>
    \<exists>n' p' rs'. push_regions rs tr = Some rs' \<and> chain n' p' rs' \<and> p' < 128 \<and> ltext rs' = ltext rs @ ltext tr"
proof (induction tr arbitrary: n p rs)
  case Nil
  then show ?case by (auto simp: ltext_def)
next
  case (Cons r tr)
  obtain n1 p1 rs1 where 1: "push_chars rs (take (rpos r) (rbuf r)) = Some rs1" "chain n1 p1 rs1" "p1 < 128"
      "ltext rs1 = ltext rs @ take (rpos r) (rbuf r)"
    using push_chars_text [OF Cons.prems(1,2)] by blast
  from Cons.IH [OF 1(2,3)] Cons.prems(3) 1(1,4) show ?case by (simp add: ltext_def)
qed

section \<open>Moving bytes up and down\<close>

fun move_up :: "u8 list \<Rightarrow> nat \<Rightarrow> nat \<Rightarrow> u8 list" where
  "move_up f lo 0 = f"
| "move_up f lo (Suc m) = move_up (f[lo + m + 1 := f ! (lo + m)]) lo m"

fun move_down :: "u8 list \<Rightarrow> nat \<Rightarrow> nat \<Rightarrow> u8 list" where
  "move_down f lo 0 = f"
| "move_down f lo (Suc m) = move_down (f[lo := f ! (lo + 1)]) (lo + 1) m"

lemma length_move [simp]: "length (move_up f lo m) = length f" "length (move_down f lo m) = length f"
proof -
  show "length (move_up f lo m) = length f" by (induction m arbitrary: f) simp_all
  show "length (move_down f lo m) = length f" by (induction m arbitrary: f lo) simp_all
qed

lemma nth_move_up:
  "lo + m < length f \<Longrightarrow> j < length f \<Longrightarrow>
    move_up f lo m ! j = (if lo < j \<and> j \<le> lo + m then f ! (j - 1) else f ! j)"
proof (induction m arbitrary: f)
  case 0
  then show ?case by auto
next
  case (Suc m)
  then show ?case by (auto simp: nth_list_update)
qed

lemma nth_move_down:
  "lo + m < length f \<Longrightarrow> j < length f \<Longrightarrow>
    move_down f lo m ! j = (if lo \<le> j \<and> j < lo + m then f ! (j + 1) else f ! j)"
proof (induction m arbitrary: f lo)
  case 0
  then show ?case by auto
next
  case (Suc m)
  then show ?case by (auto simp: nth_list_update)
qed

lemma move_up_add:
  "lo + m + n < length f \<Longrightarrow> move_up (move_up f (lo + m) n) lo m = move_up f lo (m + n)"
  by (rule nth_equalityI) (auto simp: nth_move_up)

lemma move_down_add:
  "lo + m + n < length f \<Longrightarrow> move_down (move_down f lo m) (lo + m) n = move_down f lo (m + n)"
  by (rule nth_equalityI) (auto simp: nth_move_down)

lemma move_up_insert:
  assumes "cc \<le> L" and "L < length f"
  shows "take (L + 1) ((move_up f cc (L - cc))[cc := c]) = take cc (take L f) @ [c] @ drop cc (take L f)"
proof (rule nth_equalityI)
  show "length (take (L + 1) ((move_up f cc (L - cc))[cc := c])) = length (take cc (take L f) @ [c] @ drop cc (take L f))"
    using assms by simp
  fix j assume "j < length (take (L + 1) ((move_up f cc (L - cc))[cc := c]))"
  then have j: "j < L + 1" "j < length f" using assms by simp_all
  consider "j < cc" | "j = cc" | "cc < j" by linarith
  then show "take (L + 1) ((move_up f cc (L - cc))[cc := c]) ! j = (take cc (take L f) @ [c] @ drop cc (take L f)) ! j"
  proof cases
    case 3
    then have "drop cc (take L f) ! (j - cc - 1) = f ! (j - 1)" using j assms by simp
    then show ?thesis using 3 j assms by (simp add: nth_append nth_move_up nth_Cons')
  qed (use j assms in \<open>simp_all add: nth_append nth_move_up\<close>)
qed

lemma move_down_remove:
  assumes "k < L" and "L - 1 \<le> k + m" and "k + m < length f"
  shows "take (L - 1) (move_down f k m) = take k (take L f) @ drop (k + 1) (take L f)"
proof (rule nth_equalityI)
  show "length (take (L - 1) (move_down f k m)) = length (take k (take L f) @ drop (k + 1) (take L f))"
    using assms by simp
  fix j assume "j < length (take (L - 1) (move_down f k m))"
  then have j: "j < L - 1" using assms by simp
  then show "take (L - 1) (move_down f k m) ! j = (take k (take L f) @ drop (k + 1) (take L f)) ! j"
    using assms by (auto simp: nth_append nth_move_down)
qed

section \<open>The loops of the editor on the array\<close>

lemma shift_up_flat:
  assumes "shape rs ps" and "t < length ps" and "k \<le> n" and "n \<le> 128" and "n = 128 \<Longrightarrow> t + 1 < length ps"
  shows "\<exists>rs'. shift_up rs t k n = Some rs' \<and> shape rs' ps \<and> flat rs' = move_up (flat rs) (128 * t + k) (n - k)"
  using assms
proof (induction n arbitrary: rs)
  case 0
  then show ?case by simp
next
  case (Suc i)
  show ?case
  proof (cases "i < k")
    case True
    then show ?thesis using Suc.prems(1) by simp
  next
    case False
    let ?c = "flat rs ! (128 * t + i)"
    have r: "rd rs t i = Some ?c" using rd_flat [OF Suc.prems(1,2)] Suc.prems(4) by simp
    obtain rs1 where w: "(if i + 1 \<noteq> 128 then wr rs t (i + 1) ?c else wr rs (t + 1) 0 ?c) = Some rs1" "shape rs1 ps"
      "flat rs1 = (flat rs)[128 * t + i + 1 := ?c]"
    proof (cases "i + 1 = 128")
      case True
      with Suc.prems(5) have "t + 1 < length ps" by simp
      from wr_flat [OF Suc.prems(1) this, of 0 ?c] obtain rs1 where
        "wr rs (t + 1) 0 ?c = Some rs1" "shape rs1 ps" "flat rs1 = (flat rs)[128 * (t + 1) := ?c]" by auto
      moreover have "128 * (t + 1) = 128 * t + i + 1" using True by simp
      ultimately show ?thesis using that True by simp
    next
      case False
      with Suc.prems(4) have "i + 1 < 128" by simp
      from wr_flat [OF Suc.prems(1,2) this, of ?c] False that show ?thesis by auto
    qed
    from Suc.IH [OF w(2) Suc.prems(2)] False Suc.prems obtain rs2 where
      2: "shift_up rs1 t k i = Some rs2" "shape rs2 ps" "flat rs2 = move_up (flat rs1) (128 * t + k) (i - k)" by auto
    have "Suc i - k = Suc (i - k)" "128 * t + k + (i - k) = 128 * t + i" using False by simp_all
    then have "flat rs2 = move_up (flat rs) (128 * t + k) (Suc i - k)" using 2(3) w(3) by simp
    then show ?thesis using False r w(1) 2 by simp
  qed
qed

lemma shift_regions_flat:
  assumes "shape rs (replicate n 128 @ [p])" and "p < 128" and "t + m \<le> n"
    and "q = (if t + m = n then p else 128)"
  shows "\<exists>rs'. shift_regions rs t m = Some rs' \<and> shape rs' (replicate n 128 @ [p]) \<and>
    flat rs' = move_up (flat rs) (128 * (t + 1)) (if m = 0 then 0 else 128 * (m - 1) + q)"
  using assms
proof (induction m arbitrary: rs q)
  case 0
  then show ?case by simp
next
  case (Suc m)
  let ?ps = "replicate n 128 @ [p]"
  have l: "length (flat rs) = 128 * (n + 1)" using flat_length [OF Suc.prems(1)] by simp
  have q: "?ps ! (t + Suc m) = q" "q \<le> 128" using Suc.prems by (simp_all add: nth_append)
  have "pos_of rs (t + Suc m) = Some q" using pos_of_shape [OF Suc.prems(1), of "t + Suc m"] Suc.prems(3) q by simp
  moreover obtain rs1 where 1: "shift_up rs (t + Suc m) 0 q = Some rs1" "shape rs1 ?ps"
      "flat rs1 = move_up (flat rs) (128 * (t + Suc m)) q"
    using shift_up_flat [OF Suc.prems(1), of "t + Suc m" 0 q] Suc.prems q by (auto split: if_splits)
  moreover obtain rs2 where 2: "shift_regions rs1 t m = Some rs2" "shape rs2 ?ps"
      "flat rs2 = move_up (flat rs1) (128 * (t + 1)) (if m = 0 then 0 else 128 * (m - 1) + 128)"
    using Suc.IH [OF 1(2) Suc.prems(2), of 128] Suc.prems(3) by auto
  moreover have "flat rs2 = move_up (flat rs) (128 * (t + 1)) (128 * m + q)"
  proof -
    have "(if m = 0 then 0 else 128 * (m - 1) + 128) = 128 * m" by (cases m) simp_all
    moreover have "128 * (t + Suc m) = 128 * (t + 1) + 128 * m" by simp
    moreover have "128 * (t + 1) + 128 * m + q < length (flat rs)" using l Suc.prems q(2) by (auto split: if_splits)
    ultimately show ?thesis unfolding 2(3) 1(3) by (simp only: move_up_add)
  qed
  ultimately show ?case by simp
qed

lemma append_open:
  assumes c: "chain n p rs" and p: "p < 128" and cc: "cc \<le> 128 * n + p" "t = cc div 128"
  shows "\<exists>rs1 rs2 rs3 rs4. shift_regions rs t (n - t) = Some rs1 \<and> pos_of rs1 t = Some (if t = n then p else 128) \<and>
    shift_up rs1 t (cc mod 128) (if t = n then p else 128) = Some rs2 \<and> wr rs2 t (cc mod 128) b = Some rs3 \<and>
    pos_of rs3 n = Some p \<and> set_pos rs3 n (p + 1) = Some rs4 \<and> chain n (p + 1) rs4 \<and>
    ltext rs4 = take cc (ltext rs) @ [b] @ drop cc (ltext rs)"
proof -
  let ?ps = "replicate n 128 @ [p]"
  let ?L = "128 * n + p"
  let ?q = "if t = n then p else 128"
  let ?k = "cc mod 128"
  have sh: "shape rs ?ps" using c by (simp add: chain_def)
  have l: "length (flat rs) = 128 * n + 128" using chain_flat [OF c] .
  have tn: "t \<le> n" "128 * t + ?k = cc" "?k < 128" using cc p by (auto simp: less_mult_imp_div_less)
  have kq: "?k \<le> ?q"
  proof (cases "t = n")
    case True
    then have "128 * n + ?k \<le> 128 * n + p" using tn(2) cc(1) by simp
    then show ?thesis using True by simp
  next
    case False
    then show ?thesis using tn(3) by simp
  qed
  have qb: "?q \<le> 128" "?q = 128 \<Longrightarrow> t + 1 < length ?ps" using tn(1) p by (auto split: if_splits)
  have tq: "?ps ! t = ?q" using tn by (simp add: nth_append)
  obtain rs1 where 1: "shift_regions rs t (n - t) = Some rs1" "shape rs1 ?ps"
      "flat rs1 = move_up (flat rs) (128 * (t + 1)) (if n - t = 0 then 0 else 128 * (n - t - 1) + p)"
    using shift_regions_flat [OF sh p, of t "n - t" p] tn by auto
  obtain rs2 where 2: "shift_up rs1 t ?k ?q = Some rs2" "shape rs2 ?ps" "flat rs2 = move_up (flat rs1) cc (?q - ?k)"
    using shift_up_flat [OF 1(2) _ kq qb] tn(1,2) by auto
  obtain rs3 where 3: "wr rs2 t ?k b = Some rs3" "shape rs3 ?ps" "flat rs3 = (flat rs2)[cc := b]"
    using wr_flat [OF 2(2), of t ?k b] tn by auto
  obtain rs4 where 4: "set_pos rs3 n (p + 1) = Some rs4" "shape rs4 (replicate n 128 @ [p + 1])" "flat rs4 = flat rs3"
    using set_pos_flat [OF 3(2), of n "p + 1"] by (auto simp: list_update_append)
  have f2: "flat rs2 = move_up (flat rs) cc (?L - cc)"
  proof (cases "t = n")
    case True
    then have "?L - cc = p - ?k" using tn(2) by linarith
    then show ?thesis using 1(3) 2(3) True by simp
  next
    case False
    then have lt: "t < n" using tn by simp
    have a: "128 * (t + 1) = cc + (128 - ?k)" using tn by simp
    have s: "cc + (128 - ?k) + (128 * (n - t - 1) + p) < length (flat rs)" unfolding l a [symmetric] using lt p by simp
    have e: "128 - ?k + (128 * (n - t - 1) + p) = ?L - cc" using lt tn by simp
    show ?thesis using False lt 1(3) 2(3) move_up_add [OF s] a e by simp
  qed
  have "chain n (p + 1) rs4" using 4(2) p by (simp add: chain_def)
  moreover have "ltext rs4 = take cc (ltext rs) @ [b] @ drop cc (ltext rs)"
    unfolding chain_text [OF \<open>chain n (p + 1) rs4\<close>] chain_text [OF c] 4(3) 3(3) f2
    using move_up_insert [of cc ?L "flat rs" b] cc l p by simp
  moreover have "pos_of rs1 t = Some ?q" using pos_of_shape [OF 1(2), of t] tn tq by simp
  moreover have "pos_of rs3 n = Some p" using pos_of_shape [OF 3(2), of n] by (simp add: nth_append)
  ultimately show ?thesis using 1(1) 2(1) 3(1) 4(1) by blast
qed

lemma append_char_text:
  assumes c: "chain n p rs" and cc: "cc \<le> 128 * n + p" "t = cc div 128" "t \<le> n"
  shows "\<exists>n' p' rs'. append_char rs t cc b = Some rs' \<and> chain n' p' rs' \<and>
    ltext rs' = take cc (ltext rs) @ [b] @ drop cc (ltext rs)"
proof -
  have l: "length rs = n + 1" using chain_length [OF c] .
  have sh: "shape rs (replicate n 128 @ [p])" and p: "p \<le> 128" using c by (simp_all add: chain_def)
  have pn: "pos_of rs n = Some p" using pos_of_shape [OF sh, of n] by (simp add: nth_append)
  define rs0 where "rs0 = (if p = 128 then rs @ [alloc_text_region] else rs)"
  obtain n0 p0 where 0: "chain n0 p0 rs0" "p0 < 128" "cc \<le> 128 * n0 + p0" "ltext rs0 = ltext rs" "n \<le> n0"
  proof (cases "p = 128")
    case True
    then have "chain (n + 1) 0 rs0" using chain_alloc c by (simp add: rs0_def)
    then show ?thesis using that [of "n + 1" 0] True cc by (simp add: rs0_def text_alloc)
  next
    case False
    then show ?thesis using that [of n p] c cc p by (simp add: rs0_def)
  qed
  have l0: "length rs0 = Suc n0" using chain_length [OF 0(1)] by simp
  from append_open [OF 0(1,2,3) cc(2), of b] obtain rs1 rs2 rs3 rs4 where
    s: "shift_regions rs0 t (n0 - t) = Some rs1" "pos_of rs1 t = Some (if t = n0 then p0 else 128)"
      "shift_up rs1 t (cc mod 128) (if t = n0 then p0 else 128) = Some rs2" "wr rs2 t (cc mod 128) b = Some rs3"
      "pos_of rs3 n0 = Some p0" "set_pos rs3 n0 (p0 + 1) = Some rs4"
    and 4: "chain n0 (p0 + 1) rs4" "ltext rs4 = take cc (ltext rs0) @ [b] @ drop cc (ltext rs0)" by blast
  have "append_char rs t cc b = Some rs4"
    using s l cc(3) l0 unfolding append_char_def l by (simp add: pn rs0_def [symmetric] Let_def)
  with 4 0(4) show ?thesis by auto
qed

lemma shift_down_flat:
  assumes "shape rs ps" and "t < length ps" and "i + n \<le> 128" and "i + n = 128 \<Longrightarrow> t + 1 < length ps"
  shows "\<exists>rs'. shift_down rs t i n = Some rs' \<and> shape rs' ps \<and> flat rs' = move_down (flat rs) (128 * t + i) n"
  using assms
proof (induction n arbitrary: rs i)
  case 0
  then show ?case by simp
next
  case (Suc n)
  let ?c = "flat rs ! (128 * t + i + 1)"
  obtain rs1 where w: "(if i + 1 < 128 then do { c \<leftarrow> rd rs t (i + 1); wr rs t i c }
           else if t + 1 < length rs then do { c \<leftarrow> rd rs (t + 1) 0; wr rs t i c } else Some rs) = Some rs1"
      "shape rs1 ps" "flat rs1 = (flat rs)[128 * t + i := ?c]"
  proof -
    obtain rs1 where w: "wr rs t i ?c = Some rs1" "shape rs1 ps" "flat rs1 = (flat rs)[128 * t + i := ?c]"
      using wr_flat [OF Suc.prems(1,2), of i ?c] Suc.prems(3) by auto
    show ?thesis
    proof (cases "i + 1 < 128")
      case True
      have "rd rs t (i + 1) = Some ?c" using rd_flat [OF Suc.prems(1,2) True] by (simp add: add.assoc)
      then show ?thesis using that w True by simp
    next
      case False
      then have i: "i + 1 = 128" "t + 1 < length ps" using Suc.prems by simp_all
      have "128 * (t + 1) + 0 = 128 * t + i + 1" using i by simp
      then have "rd rs (t + 1) 0 = Some ?c" using rd_flat [OF Suc.prems(1) i(2), of 0] by simp
      then show ?thesis using that w False i(2) shape_length [OF Suc.prems(1)] by simp
    qed
  qed
  from Suc.IH [OF w(2) Suc.prems(2), of "i + 1"] Suc.prems w(1,3) show ?case by (auto simp: add.assoc)
qed

lemma shift_down_snoc:
  "shift_down rs t i (Suc m) = do { rs \<leftarrow> shift_down rs t i m; shift_down rs t (i + m) 1 }"
proof (induction m arbitrary: rs i)
  case 0
  then show ?case by simp
next
  case (Suc m)
  let ?body = "if i + 1 < 128 then do { c \<leftarrow> rd rs t (i + 1); wr rs t i c }
           else if t + 1 < length rs then do { c \<leftarrow> rd rs (t + 1) 0; wr rs t i c } else Some rs"
  have "shift_down rs t i (Suc (Suc m)) = do { rs \<leftarrow> ?body; shift_down rs t (i + 1) (Suc m) }"
    by (rule shift_down.simps(2))
  also have "\<dots> = do { rs \<leftarrow> ?body; rs \<leftarrow> shift_down rs t (i + 1) m; shift_down rs t (i + 1 + m) 1 }"
    by (simp only: Suc.IH)
  also have "\<dots> = do { rs \<leftarrow> do { rs \<leftarrow> ?body; shift_down rs t (i + 1) m }; shift_down rs t (i + Suc m) 1 }"
    by (simp only: Option.bind_assoc add.assoc plus_1_eq_Suc)
  also have "\<dots> = do { rs \<leftarrow> shift_down rs t i (Suc m); shift_down rs t (i + Suc m) 1 }"
    by (simp only: shift_down.simps(2))
  finally show ?case .
qed

lemma last_down_flat:
  assumes "shape rs ps" and "t + 1 = length ps" and "i + n \<le> 128"
  shows "\<exists>rs'. shift_down rs t i n = Some rs' \<and> shape rs' ps \<and>
    flat rs' = move_down (flat rs) (128 * t + i) (if i + n = 128 then n - 1 else n)"
proof (cases "i + n = 128 \<and> n \<noteq> 0")
  case False
  then show ?thesis using shift_down_flat [OF assms(1), of t i n] assms by (auto split: if_splits)
next
  case True
  then obtain m where m: "n = Suc m" by (cases n) auto
  obtain rs1 where 1: "shift_down rs t i m = Some rs1" "shape rs1 ps" "flat rs1 = move_down (flat rs) (128 * t + i) m"
    using shift_down_flat [OF assms(1), of t i m] assms True m by auto
  have "shift_down rs t i n = shift_down rs1 t (i + m) 1" using shift_down_snoc [of rs t i m] 1(1) m by simp
  moreover have "i + m + 1 = 128" using True m by simp
  ultimately show ?thesis using 1 assms(2) m True shape_length [OF 1(2)] by simp
qed

lemma shift_down_regions_flat:
  assumes "shape rs (replicate n 128 @ [p])" and "p \<le> 128" and "m \<le> n + 1" and "e = (if p = 128 then 127 else p)"
  shows "\<exists>rs'. shift_down_regions rs (n + 1 - m) m = Some rs' \<and> shape rs' (replicate n 128 @ [p]) \<and>
    flat rs' = move_down (flat rs) (128 * (n + 1 - m)) (if m = 0 then 0 else 128 * (m - 1) + e)"
  using assms(1,3)
proof (induction m arbitrary: rs)
  case 0
  then show ?case by simp
next
  case (Suc m)
  let ?ps = "replicate n 128 @ [p]"
  let ?t = "n + 1 - Suc m"
  have t: "?t < length ?ps" "?t + 1 = n + 1 - m" using Suc.prems by simp_all
  have l: "length (flat rs) = 128 * (n + 1)" using flat_length [OF Suc.prems(1)] by simp
  show ?case
  proof (cases m)
    case 0
    then have "pos_of rs ?t = Some p" using pos_of_shape [OF Suc.prems(1) t(1)] by (simp add: nth_append)
    moreover obtain rs1 where "shift_down rs ?t 0 p = Some rs1" "shape rs1 ?ps"
      "flat rs1 = move_down (flat rs) (128 * ?t) (if p = 128 then p - 1 else p)"
      using last_down_flat [OF Suc.prems(1), of ?t 0 p] assms(2) 0 by auto
    ultimately show ?thesis using 0 assms(4) by auto
  next
    case (Suc m')
    then have tn: "?t < n" using Suc.prems by simp
    then have "pos_of rs ?t = Some 128" using pos_of_shape [OF Suc.prems(1) t(1)] by (simp add: nth_append)
    moreover obtain rs1 where 1: "shift_down rs ?t 0 128 = Some rs1" "shape rs1 ?ps"
      "flat rs1 = move_down (flat rs) (128 * ?t) 128"
      using shift_down_flat [OF Suc.prems(1) t(1), of 0 128] tn by auto
    moreover obtain rs2 where 2: "shift_down_regions rs1 (n + 1 - m) m = Some rs2" "shape rs2 ?ps"
        "flat rs2 = move_down (flat rs1) (128 * (n + 1 - m)) (128 * (m - 1) + e)"
      using Suc.IH [OF 1(2)] Suc.prems \<open>m = Suc m'\<close> by auto
    moreover have "flat rs2 = move_down (flat rs) (128 * ?t) (128 * m + e)"
    proof -
      have a: "128 * (n + 1 - m) = 128 * ?t + 128" using t(2) by linarith
      have b: "128 + (128 * (m - 1) + e) = 128 * m + e" using \<open>m = Suc m'\<close> by simp
      have "e < 128" using assms(2,4) by (auto split: if_splits)
      then have "128 * ?t + 128 + (128 * (m - 1) + e) < length (flat rs)"
        unfolding l a [symmetric] using Suc.prems \<open>m = Suc m'\<close> by simp
      from move_down_add [OF this] show ?thesis unfolding 2(3) 1(3) a b .
    qed
    ultimately show ?thesis using t(2) by simp
  qed
qed

lemma remove_char_text:
  assumes c: "chain n p rs" and cc: "0 < cc" "cc \<le> 128 * n + p" "t = cc div 128" "cc mod 128 \<noteq> 0" and p: "p \<noteq> 0"
  shows "\<exists>rs'. remove_char rs t cc = Some (True, rs') \<and> chain n (p - 1) rs' \<and>
    ltext rs' = take (cc - 1) (ltext rs) @ drop cc (ltext rs)"
proof -
  let ?ps = "replicate n 128 @ [p]"
  let ?k = "(cc - 1) mod 128"
  define e where "e = (if p = 128 then 127 else p)"
  have sh: "shape rs ?ps" and p1: "p \<le> 128" using c by (simp_all add: chain_def)
  have l: "length (flat rs) = 128 * n + 128" using chain_flat [OF c] .
  have k: "?k = cc mod 128 - 1" "128 * t + ?k = cc - 1" "?k < 128"
  proof -
    obtain j where j: "cc mod 128 = Suc j" using cc(4) by (cases "cc mod 128") auto
    have d: "cc = 128 * t + Suc j" using div_mult_mod_eq [of cc 128] j cc(3) by linarith
    have "j < 128" using mod_less_divisor [of 128 cc] j by linarith
    then have "(cc - 1) mod 128 = j" unfolding d by simp
    then show "?k = cc mod 128 - 1" "128 * t + ?k = cc - 1" "?k < 128" using j d by simp_all
  qed
  have tn: "t \<le> n"
  proof (rule ccontr)
    assume "\<not> t \<le> n"
    then have "n + 1 \<le> t" by simp
    then have "128 * n + 128 \<le> 128 * t" by simp
    moreover obtain m where "0 < m" "cc = 128 * t + m"
    proof
      show "0 < cc mod 128" using cc(4) by simp
      show "cc = 128 * t + cc mod 128" using cc(3) by simp
    qed
    ultimately show False using cc(2) p1 by linarith
  qed
  have e: "e < 128" "p - 1 \<le> e" using p1 by (auto simp: e_def)
  have "pos_of rs t = Some (?ps ! t)" using pos_of_shape [OF sh, of t] tn by simp
  then have pt: "pos_of rs t = Some (if t = n then p else 128)" using tn by (simp add: nth_append)
  have "\<exists>rs1 rs2. shift_down rs t ?k ((if t = n then p else 128) - ?k) = Some rs1 \<and> length rs1 = n + 1 \<and>
    shift_down_regions rs1 (t + 1) (n - t) = Some rs2 \<and> shape rs2 ?ps \<and> flat rs2 = move_down (flat rs) (cc - 1) (128 * n + e - (cc - 1))"
  proof (cases "t = n")
    case True
    have kp: "?k \<le> p" using k(2) cc(1,2) True by linarith
    obtain rs1 where 1: "shift_down rs n ?k (p - ?k) = Some rs1" "shape rs1 ?ps"
      "flat rs1 = move_down (flat rs) (128 * n + ?k) (if ?k + (p - ?k) = 128 then p - ?k - 1 else p - ?k)"
      using last_down_flat [OF sh, of n ?k "p - ?k"] kp p1 by auto
    have "(if ?k + (p - ?k) = 128 then p - ?k - 1 else p - ?k) = 128 * n + e - (cc - 1)"
    proof -
      have "cc - 1 = 128 * n + ?k" using k(2) True by simp
      then have "128 * n + e - (cc - 1) = e - ?k" by linarith
      then show ?thesis using kp by (auto simp: e_def)
    qed
    with 1 k(2) True show ?thesis using shape_length [OF 1(2)] by simp
  next
    case False
    then have lt: "t < n" using tn by simp
    obtain rs1 where 1: "shift_down rs t ?k (128 - ?k) = Some rs1" "shape rs1 ?ps"
      "flat rs1 = move_down (flat rs) (cc - 1) (128 - ?k)"
      using shift_down_flat [OF sh, of t ?k "128 - ?k"] lt k by auto
    obtain rs2 where 2: "shift_down_regions rs1 (t + 1) (n - t) = Some rs2" "shape rs2 ?ps"
      "flat rs2 = move_down (flat rs1) (128 * (t + 1)) (128 * (n - t - 1) + e)"
    proof -
      have "n - t \<le> n + 1" "n + 1 - (n - t) = t + 1" "n - t \<noteq> 0" using lt by simp_all
      with shift_down_regions_flat [OF 1(2) p1, of "n - t" e] that show ?thesis by (auto simp: e_def)
    qed
    have "128 * t + 128 = (128 * t + ?k) + (128 - ?k)" using k(3) by simp
    then have a: "128 * (t + 1) = cc - 1 + (128 - ?k)" by (simp only: k(2)) simp
    have s: "cc - 1 + (128 - ?k) + (128 * (n - t - 1) + e) < length (flat rs)" unfolding l a [symmetric] using lt e by simp
    have "128 - ?k + (128 * (n - t - 1) + e) = 128 * n + e - (cc - 1)"
    proof -
      obtain j where j: "n = t + 1 + j" using lt by (auto simp: less_iff_Suc_add)
      then have "128 * n + e = (cc - 1 + (128 - ?k)) + (128 * j + e)" unfolding a [symmetric] by simp
      then show ?thesis using j by simp
    qed
    then have "flat rs2 = move_down (flat rs) (cc - 1) (128 * n + e - (cc - 1))"
      using 2(3) 1(3) move_down_add [OF s] a by simp
    then show ?thesis using False 1 2 shape_length [OF 1(2)] by simp
  qed
  then obtain rs1 rs2 where 2: "shift_down rs t ?k ((if t = n then p else 128) - ?k) = Some rs1" "length rs1 = n + 1"
    "shift_down_regions rs1 (t + 1) (n - t) = Some rs2" "shape rs2 ?ps"
    "flat rs2 = move_down (flat rs) (cc - 1) (128 * n + e - (cc - 1))" by blast
  have l2: "length rs2 = n + 1" using shape_length [OF 2(4)] by simp
  have p2: "pos_of rs2 n = Some p" using pos_of_shape [OF 2(4), of n] by (simp add: nth_append)
  obtain rs3 where 3: "set_pos rs2 n (p - 1) = Some rs3" "shape rs3 (replicate n 128 @ [p - 1])" "flat rs3 = flat rs2"
    using set_pos_flat [OF 2(4), of n "p - 1"] by (auto simp: list_update_append)
  have c3: "chain n (p - 1) rs3" using 3(2) p1 by (simp add: chain_def)
  have r: "remove_char rs t cc = Some (True, rs3)"
    unfolding remove_char_def Let_def using pt 2(1,2,3) l2 p2 p 3(1) by simp
  have "take (128 * n + p - 1) (flat rs2) = take (cc - 1) (take (128 * n + p) (flat rs)) @ drop (cc - 1 + 1) (take (128 * n + p) (flat rs))"
    unfolding 2(5) using cc e p l by (intro move_down_remove) simp_all
  then have "ltext rs3 = take (cc - 1) (ltext rs) @ drop cc (ltext rs)"
    unfolding chain_text [OF c3] chain_text [OF c] 3(3) using cc(1) p by simp
  with r c3 show ?thesis by blast
qed

section \<open>Lines that are split and joined\<close>

lemma ltext_append: "ltext (xs @ ys) = ltext xs @ ltext ys"
proof -
  have "write_regions (xs @ ys) = write_regions xs @ write_regions ys" by (induction xs) simp_all
  then show ?thesis by (simp add: ltext_def)
qed

lemma ltext_one: "ltext [r] = take (rpos r) (rbuf r)"
  by (simp add: ltext_def)

text \<open>A line seen from one of its regions.\<close>

lemma chain_at:
  assumes c: "chain n p rs" and t: "t \<le> n"
  shows "rs = take t rs @ rs ! t # drop (t + 1) rs" and "length (ltext (take t rs)) = 128 * t"
    and "shape (take t rs) (replicate t 128)" and "length (rbuf (rs ! t)) = 128"
    and "rpos (rs ! t) = (if t = n then p else 128)"
proof -
  have sh: "shape rs (replicate n 128 @ [p])" using c by (simp add: chain_def)
  have l: "t < length rs" using chain_length [OF c] t by simp
  show "rs = take t rs @ rs ! t # drop (t + 1) rs" using id_take_nth_drop [OF l] by simp
  show s: "shape (take t rs) (replicate t 128)"
    using sh t unfolding shape_def by (auto simp: take_map [symmetric] dest: in_set_takeD)
  show "length (ltext (take t rs)) = 128 * t"
  proof (cases t)
    case 0
    then show ?thesis by (simp add: ltext_def)
  next
    case (Suc u)
    then have "chain u 128 (take t rs)" using s by (simp add: chain_def replicate_append_same)
    from chain_text_length [OF this] Suc show ?thesis by simp
  qed
  show "length (rbuf (rs ! t)) = 128" using shape_buf [OF sh, of t] t by simp
  show "rpos (rs ! t) = (if t = n then p else 128)" using shape_pos [OF sh, of t] t by (simp add: nth_append)
qed

lemma chain_fill: "chain n p rs \<Longrightarrow> r \<in> set rs \<Longrightarrow> rpos r \<le> length (rbuf r)"
proof -
  assume c: "chain n p rs" and r: "r \<in> set rs"
  then obtain t where "t < length rs" "r = rs ! t" by (auto simp: in_set_conv_nth)
  moreover from this have "t \<le> n" using chain_length [OF c] by simp
  ultimately show ?thesis using chain_at(4,5) [OF c \<open>t \<le> n\<close>] c by (simp add: chain_def)
qed

lemma chain_last: "chain n p rs \<Longrightarrow> rpos (last rs) = p"
  using chain_at(5) [of n p rs n] chain_length [of n p rs] by (cases rs) (auto simp: last_conv_nth)

definition doc_ok :: "document \<Rightarrow> bool" where
  "doc_ok doc \<longleftrightarrow> doc \<noteq> [] \<and> (\<forall>i < length doc. (\<exists>n p. chain n p (regs (doc ! i))) \<and> lno (doc ! i) = i)"

definition abs_doc :: "document \<Rightarrow> u8 list list" where
  "abs_doc doc = map (\<lambda>l. ltext (regs l)) doc"

lemma doc_line:
  assumes "doc_ok doc" and "i < length doc"
  obtains n p where "chain n p (regs (doc ! i))"
  using assms by (auto simp: doc_ok_def)

lemma doc_ok_update:
  "doc_ok doc \<Longrightarrow> i < length doc \<Longrightarrow> chain n p rs \<Longrightarrow> doc_ok (doc[i := (doc ! i)\<lparr>regs := rs\<rparr>])"
  unfolding doc_ok_def by (auto simp: nth_list_update)

lemma abs_update:
  "i < length doc \<Longrightarrow> abs_doc (doc[i := (doc ! i)\<lparr>regs := rs\<rparr>]) = (abs_doc doc)[i := ltext rs]"
  by (simp add: abs_doc_def map_update)

lemma split_regions:
  assumes c: "chain n p rs" and cc: "cc \<le> 128 * n + p" "t = cc div 128" "t \<le> n"
    and k: "cc mod 128 \<noteq> 127" "cc mod 128 = 0 \<Longrightarrow> t = n"
  shows "\<exists>new_tr new_rs tr n' p'. moved_part (rs ! t) (cc mod 128) = Some new_tr \<and>
    push_regions [new_tr] (drop (t + 1) rs) = Some new_rs \<and> first_part (rs ! t) (cc mod 128) = Some tr \<and>
    chain t (cc mod 128 + 2) (take t rs @ [tr]) \<and> ltext (take t rs @ [tr]) = take cc (ltext rs) @ [CR, LF] \<and>
    chain n' p' new_rs \<and> ltext new_rs = drop cc (ltext rs)"
proof -
  let ?k = "cc mod 128"
  let ?tr = "rs ! t"
  note at = chain_at [OF c cc(3)]
  define q where "q = rpos ?tr"
  have q: "q = (if t = n then p else 128)" "q \<le> 128" using at(5) c by (simp_all add: q_def chain_def)
  have ccd: "cc = 128 * t + ?k" using cc(2) by simp
  have kq: "?k \<le> q"
  proof (cases "t = n")
    case True
    then have "128 * n + ?k \<le> 128 * n + p" using ccd cc(1) by simp
    then show ?thesis using q(1) True by simp
  next
    case False
    then show ?thesis using q by simp
  qed
  have k2: "?k + 1 < 128" using k(1) mod_less_divisor [of 128 cc] by linarith
  define cs where "cs = drop ?k (take q (rbuf ?tr))"
  define new_tr where "new_tr = \<lparr>rbuf = cs @ drop (length cs) (rbuf alloc_text_region), rpos = q - ?k\<rparr>"
  have lcs: "length cs = q - ?k" using at(4) q by (simp add: cs_def)
  have "wsub q ?k = q - ?k" using kq q by simp
  then have m: "moved_part ?tr ?k = Some new_tr"
    using q(2) at(4) unfolding moved_part_def q_def [symmetric] new_tr_def cs_def Let_def by simp
  have nc: "chain 0 (q - ?k) [new_tr]"
    using lcs q(2) by (simp add: chain_def shape_def new_tr_def alloc_text_region_def)
  have nt: "ltext [new_tr] = cs" using lcs by (simp add: ltext_one new_tr_def)
  have "\<exists>n' p' new_rs. push_regions [new_tr] (drop (t + 1) rs) = Some new_rs \<and> chain n' p' new_rs \<and>
    ltext new_rs = cs @ ltext (drop (t + 1) rs)"
  proof (cases "t = n")
    case True
    then have "drop (t + 1) rs = []" using chain_length [OF c] by simp
    then show ?thesis using nc nt by (auto simp: ltext_def)
  next
    case False
    then have "0 < ?k" using k(2) by (cases "?k") simp_all
    then have "q - ?k < 128" using q(2) by simp
    moreover have "\<forall>r \<in> set (drop (t + 1) rs). rpos r \<le> length (rbuf r)"
      using chain_fill [OF c] by (auto dest: in_set_dropD)
    ultimately show ?thesis using push_regions_text [OF nc] nt by fastforce
  qed
  then obtain n' p' new_rs where n: "push_regions [new_tr] (drop (t + 1) rs) = Some new_rs" "chain n' p' new_rs"
    "ltext new_rs = cs @ ltext (drop (t + 1) rs)" by blast
  define tr where "tr = \<lparr>rbuf = (rbuf ?tr)[?k := CR, ?k + 1 := LF], rpos = ?k + 2\<rparr>"
  have f: "first_part ?tr ?k = Some tr" using k2 at(4) by (simp add: first_part_def tr_def)
  have "shape (take t rs @ [tr]) (replicate t 128 @ [?k + 2])" using at(3,4) by (auto simp: shape_def tr_def)
  then have c1: "chain t (?k + 2) (take t rs @ [tr])" using k2 by (simp add: chain_def)
  have "ltext rs = ltext (take t rs) @ ltext [?tr] @ ltext (drop (t + 1) rs)"
    using arg_cong [OF at(1), of ltext] ltext_append [of "take t rs" "?tr # drop (t + 1) rs"]
      ltext_append [of "[?tr]" "drop (t + 1) rs"] by simp
  then have tx: "ltext rs = ltext (take t rs) @ take q (rbuf ?tr) @ ltext (drop (t + 1) rs)"
    by (simp add: ltext_one q_def)
  have "take (?k + 2) ((rbuf ?tr)[?k := CR, ?k + 1 := LF]) = take ?k (rbuf ?tr) @ [CR, LF]"
  proof -
    have "rbuf ?tr = take ?k (rbuf ?tr) @ rbuf ?tr ! ?k # rbuf ?tr ! (?k + 1) # drop (?k + 2) (rbuf ?tr)"
      using id_take_nth_drop [of ?k "rbuf ?tr"] id_take_nth_drop [of 0 "drop (?k + 1) (rbuf ?tr)"] k2 at(4)
      by (simp add: drop_drop)
    moreover define a where "a = take ?k (rbuf ?tr)"
    moreover have "length a = ?k" using k2 at(4) by (simp add: a_def)
    ultimately show ?thesis by (metis (no_types, lifting) append_Cons append_Nil append_assoc list_update_length
      length_append_singleton Suc_eq_plus1 add_2_eq_Suc' append_eq_conv_conj take_append take_0 length_Cons)
  qed
  moreover have "cc - 128 * t = ?k" using ccd by linarith
  ultimately have t1: "ltext (take t rs @ [tr]) = take cc (ltext rs) @ [CR, LF]"
    unfolding ltext_append ltext_one tx using at(2,4) kq q(2) \<open>cc - 128 * t = ?k\<close> ccd by (simp add: tr_def min_def)
  have t2: "ltext new_rs = drop cc (ltext rs)"
    unfolding n(3) tx cs_def using at(2,4) kq q(2) \<open>cc - 128 * t = ?k\<close> ccd by simp
  from m n f c1 t1 t2 show ?thesis by blast
qed

lemma join_regions:
  assumes c: "chain n p prev" and p: "2 \<le> p" and c2: "chain n2 p2 rs"
  shows "\<exists>prev' new n' p'. pos_of prev (length prev - 1) = Some p \<and> set_pos prev (length prev - 1) (wsub p 2) = Some prev' \<and>
    push_regions prev' rs = Some new \<and> chain n' p' new \<and> ltext new = take (length (ltext prev) - 2) (ltext prev) @ ltext rs"
proof -
  have sh: "shape prev (replicate n 128 @ [p])" and p1: "p \<le> 128" using c by (simp_all add: chain_def)
  have l: "length prev - 1 = n" using chain_length [OF c] by simp
  have w: "wsub p 2 = p - 2" using p p1 by simp
  obtain prev' where 1: "set_pos prev n (p - 2) = Some prev'" "shape prev' (replicate n 128 @ [p - 2])" "flat prev' = flat prev"
    using set_pos_flat [OF sh, of n "p - 2"] by (auto simp: list_update_append)
  have c1: "chain n (p - 2) prev'" using 1(2) p1 by (simp add: chain_def)
  have "128 * n + (p - 2) = length (ltext prev) - 2" "128 * n + (p - 2) \<le> 128 * n + p"
    using chain_text_length [OF c] p by simp_all
  then have "ltext prev' = take (length (ltext prev) - 2) (ltext prev)"
    unfolding chain_text [OF c1] chain_text [OF c] 1(3) by (simp add: take_take)
  moreover have "\<forall>r \<in> set rs. rpos r \<le> length (rbuf r)" using chain_fill [OF c2] by blast
  moreover have "p - 2 < 128" using p1 by simp
  moreover have "pos_of prev n = Some p" using pos_of_shape [OF sh, of n] by (simp add: nth_append)
  ultimately show ?thesis using push_regions_text [OF c1] 1(1) unfolding l w by fastforce
qed

section \<open>The editor of lines\<close>

text \<open>
  What a key does to a document that is a list of lines of bytes, where the cursor stands at a place
  of the current line; and the places where the regions do what the lines would do.
\<close>

definition edit :: "u8 list list \<Rightarrow> nat \<Rightarrow> nat \<Rightarrow> u8 \<Rightarrow> u8 list list" where
  "edit ls i cc c = (
     let t = ls ! i
     in if c = BS then
          (if cc = 0
           then take (i - 1) ls @ [take (length (ls ! (i - 1)) - 2) (ls ! (i - 1)) @ t] @ drop (i + 1) ls
           else ls[i := take (cc - 1) t @ drop cc t])
        else if c \<noteq> LF then ls[i := take cc t @ [c] @ drop cc t]
        else take i ls @ [take cc t @ [CR, LF], drop cc t] @ drop (i + 1) ls)"

definition cursor_at :: "document \<Rightarrow> nat \<Rightarrow> nat \<Rightarrow> nat \<Rightarrow> bool" where
  "cursor_at doc i t cc \<longleftrightarrow> i < length doc \<and> t = cc div 128 \<and> t < length (regs (doc ! i)) \<and>
     cc \<le> length (ltext (regs (doc ! i)))"

definition safe_edit :: "document \<Rightarrow> nat \<Rightarrow> nat \<Rightarrow> nat \<Rightarrow> u8 \<Rightarrow> bool" where
  "safe_edit doc i t cc c \<longleftrightarrow>
     (if c = BS then
        (if cc = 0 then 0 < i \<and> 2 \<le> rpos (last (regs (doc ! (i - 1))))
         else cc mod 128 \<noteq> 0 \<and> rpos (last (regs (doc ! i))) \<noteq> 0)
      else c = LF \<longrightarrow> cc mod 128 \<noteq> 127 \<and> (cc mod 128 = 0 \<longrightarrow> t + 1 = length (regs (doc ! i))))"

lemma split_doc:
  assumes d: "doc_ok doc" and i: "i < length doc" and t: "t \<le> n" "cc \<le> 128 * n + p" "t = cc div 128"
    and c: "chain n p (regs (doc ! i))"
    and k: "cc mod 128 \<noteq> 127" "cc mod 128 = 0 \<Longrightarrow> t = n"
  shows "\<exists>doc'. split_line doc i t cc = Some doc' \<and> doc_ok doc' \<and>
    abs_doc doc' = take i (abs_doc doc) @ [take cc (abs_doc doc ! i) @ [CR, LF], drop cc (abs_doc doc ! i)] @ drop (i + 1) (abs_doc doc)"
proof -
  let ?l = "doc ! i"
  from split_regions [OF c t(2,3,1) k] obtain new_tr new_rs tr n' p' where s:
    "moved_part (regs ?l ! t) (cc mod 128) = Some new_tr" "push_regions [new_tr] (drop (t + 1) (regs ?l)) = Some new_rs"
    "first_part (regs ?l ! t) (cc mod 128) = Some tr"
    "chain t (cc mod 128 + 2) (take t (regs ?l) @ [tr])"
    "ltext (take t (regs ?l) @ [tr]) = take cc (ltext (regs ?l)) @ [CR, LF]"
    "chain n' p' new_rs" "ltext new_rs = drop cc (ltext (regs ?l))" by blast
  define doc' where "doc' = take i doc @ [?l\<lparr>regs := take t (regs ?l) @ [tr]\<rparr>, \<lparr>regs = new_rs, lno = lno ?l + 1\<rparr>] @
    map (\<lambda>l. l\<lparr>lno := lno l + 1\<rparr>) (drop (i + 1) doc)"
  have tl: "t < length (regs ?l)" using chain_length [OF c] t(1) by simp
  have "split_line doc i t cc = Some doc'" using s i tl by (simp add: split_line_def Let_def doc'_def)
  moreover have "doc_ok doc'"
    unfolding doc_ok_def
  proof (intro conjI allI impI)
    show "doc' \<noteq> []" by (simp add: doc'_def)
    fix j assume j: "j < length doc'"
    have old: "(\<exists>n p. chain n p (regs (doc ! m))) \<and> lno (doc ! m) = m" if "m < length doc" for m
      using d that by (simp add: doc_ok_def)
    consider "j < i" | "j = i" | "j = i + 1" | "i + 1 < j" by linarith
    then have "(\<exists>n p. chain n p (regs (doc' ! j))) \<and> lno (doc' ! j) = j"
    proof cases
      case 1
      then show ?thesis using old [of j] i by (simp add: doc'_def nth_append)
    next
      case 2
      then show ?thesis using old [of i] i s(4) by (auto simp: doc'_def nth_append)
    next
      case 3
      then show ?thesis using old [of i] i s(6) by (auto simp: doc'_def nth_append)
    next
      case 4
      then have m: "j - 1 < length doc" "i + 1 \<le> j - 1" using j i by (simp_all add: doc'_def)
      have "doc' ! j = (doc ! (j - 1))\<lparr>lno := lno (doc ! (j - 1)) + 1\<rparr>"
      proof -
        obtain u where "j = i + 2 + u" using 4 by (auto simp: less_iff_Suc_add)
        then show ?thesis using i m by (simp add: doc'_def nth_append min_def)
      qed
      then show ?thesis using old [OF m(1)] 4 by simp
    qed
    then show "\<exists>n p. chain n p (regs (doc' ! j))" "lno (doc' ! j) = j" by blast+
  qed
  moreover have "abs_doc doc' = take i (abs_doc doc) @ [take cc (abs_doc doc ! i) @ [CR, LF], drop cc (abs_doc doc ! i)] @ drop (i + 1) (abs_doc doc)"
    using s(5,7) i by (simp add: abs_doc_def doc'_def take_map drop_map)
  ultimately show ?thesis by blast
qed

lemma join_doc:
  assumes d: "doc_ok doc" and i: "0 < i" "i < length doc" "length doc < 2 ^ 32" and p: "2 \<le> rpos (last (regs (doc ! (i - 1))))"
  shows "\<exists>doc'. join_lines doc i = Some (True, doc') \<and> doc_ok doc' \<and> abs_doc doc' = edit (abs_doc doc) i 0 BS"
proof -
  let ?l = "doc ! i" and ?p = "doc ! (i - 1)"
  have i1: "i - 1 < length doc" using i by simp
  obtain n q where c: "chain n q (regs ?p)" by (rule doc_line [OF d i1])
  obtain n2 q2 where c2: "chain n2 q2 (regs ?l)" by (rule doc_line [OF d i(2)])
  have "2 \<le> q" using p chain_last [OF c] by simp
  from join_regions [OF c this c2] obtain prev' new n' p' where s:
    "pos_of (regs ?p) (length (regs ?p) - 1) = Some q" "set_pos (regs ?p) (length (regs ?p) - 1) (wsub q 2) = Some prev'"
    "push_regions prev' (regs ?l) = Some new" "chain n' p' new"
    "ltext new = take (length (ltext (regs ?p)) - 2) (ltext (regs ?p)) @ ltext (regs ?l)" by blast
  define doc' where "doc' = take (i - 1) doc @ [?p\<lparr>regs := new\<rparr>] @ map (\<lambda>l. l\<lparr>lno := wsub (lno l) 1\<rparr>) (drop (i + 1) doc)"
  have "join_lines doc i = Some (True, doc')" using s i by (simp add: join_lines_def Let_def doc'_def)
  moreover have "doc_ok doc'"
    unfolding doc_ok_def
  proof (intro conjI allI impI)
    show "doc' \<noteq> []" by (simp add: doc'_def)
    fix j assume j: "j < length doc'"
    have old: "(\<exists>n p. chain n p (regs (doc ! m))) \<and> lno (doc ! m) = m" if "m < length doc" for m
      using d that by (simp add: doc_ok_def)
    consider "j < i - 1" | "j = i - 1" | "i - 1 < j" by linarith
    then have "(\<exists>n p. chain n p (regs (doc' ! j))) \<and> lno (doc' ! j) = j"
    proof cases
      case 1
      then show ?thesis using old [of j] i by (simp add: doc'_def nth_append)
    next
      case 2
      then show ?thesis using old [of "i - 1"] i s(4) by (auto simp: doc'_def nth_append)
    next
      case 3
      then have m: "j + 1 < length doc" "i \<le> j" using j i by (simp_all add: doc'_def)
      have "doc' ! j = (doc ! (j + 1))\<lparr>lno := wsub (lno (doc ! (j + 1))) 1\<rparr>"
        using 3 m i by (simp add: doc'_def nth_append nth_Cons' min_def)
      moreover have "wsub (j + 1) 1 = j" using m i(3) by (subst wsub_le) simp_all
      ultimately show ?thesis using old [OF m(1)] by simp
    qed
    then show "\<exists>n p. chain n p (regs (doc' ! j))" "lno (doc' ! j) = j" by blast+
  qed
  moreover have "abs_doc doc' = edit (abs_doc doc) i 0 BS"
    using s(5) i by (simp add: edit_def Let_def abs_doc_def doc'_def take_map drop_map)
  ultimately show ?thesis by blast
qed

lemma tedit_refines:
  assumes d: "doc_ok doc" and at: "cursor_at doc i t cc" and s: "safe_edit doc i t cc c" and l: "length doc < 2 ^ 32"
  shows "\<exists>doc'. append_at_position doc i t cc c = Some (True, doc') \<and> doc_ok doc' \<and> abs_doc doc' = edit (abs_doc doc) i cc c"
proof -
  have i: "i < length doc" and t: "t = cc div 128" "t < length (regs (doc ! i))" "cc \<le> length (ltext (regs (doc ! i)))"
    using at by (simp_all add: cursor_at_def)
  obtain n p where c: "chain n p (regs (doc ! i))" by (rule doc_line [OF d i])
  have tn: "t \<le> n" "cc \<le> 128 * n + p" using t chain_length [OF c] chain_text_length [OF c] by simp_all
  have ai: "abs_doc doc ! i = ltext (regs (doc ! i))" using i by (simp add: abs_doc_def)
  consider (join) "c = BS" "cc = 0" | (del) "c = BS" "cc \<noteq> 0" | (ins) "c \<noteq> BS" "c \<noteq> LF" | (new) "c = LF" by blast
  then show ?thesis
  proof cases
    case join
    then show ?thesis using join_doc [OF d _ i l] s by (simp add: safe_edit_def append_at_position_def remove_at_position_def)
  next
    case del
    then have "cc mod 128 \<noteq> 0" "p \<noteq> 0" using s chain_last [OF c] by (simp_all add: safe_edit_def)
    with remove_char_text [OF c _ tn(2) t(1)] del obtain rs' where r: "remove_char (regs (doc ! i)) t cc = Some (True, rs')"
      "chain n (p - 1) rs'" "ltext rs' = take (cc - 1) (ltext (regs (doc ! i))) @ drop cc (ltext (regs (doc ! i)))" by auto
    then show ?thesis using del i doc_ok_update [OF d i r(2)] abs_update [OF i, of rs'] ai
      by (simp add: append_at_position_def remove_at_position_def edit_def Let_def)
  next
    case ins
    from append_char_text [OF c tn(2) t(1) tn(1), of c] obtain n' p' rs' where r:
      "append_char (regs (doc ! i)) t cc c = Some rs'" "chain n' p' rs'"
      "ltext rs' = take cc (ltext (regs (doc ! i))) @ [c] @ drop cc (ltext (regs (doc ! i)))" by blast
    then show ?thesis using ins i doc_ok_update [OF d i r(2)] abs_update [OF i, of rs'] ai
      by (simp add: append_at_position_def edit_def Let_def)
  next
    case new
    then have "cc mod 128 \<noteq> 127" "cc mod 128 = 0 \<Longrightarrow> t = n" using s chain_length [OF c] by (simp_all add: safe_edit_def)
    from split_doc [OF d i tn t(1) c this] new show ?thesis
      by (auto simp: append_at_position_def edit_def Let_def)
  qed
qed

section \<open>Loading a file\<close>

text \<open>The lines of a file, each with its line feed.\<close>

fun lines_of :: "u8 list \<Rightarrow> u8 list list" where
  "lines_of [] = [[]]"
| "lines_of (c # cs) = (if c = LF then [c] # lines_of cs else (c # hd (lines_of cs)) # tl (lines_of cs))"

lemma lines_of_nonempty [simp]: "lines_of bs \<noteq> []"
  by (cases bs) simp_all

lemma concat_lines_of: "concat (lines_of bs) = bs"
  by (induction bs) (simp_all, metis concat.simps(2) list.collapse lines_of_nonempty)

text \<open>The last line has room for one more byte while a file is loaded.\<close>

definition load_open :: "document \<Rightarrow> bool" where
  "load_open doc \<longleftrightarrow> doc_ok doc \<and> (\<exists>n p. chain n p (regs (last doc)) \<and> p < 128)"

lemma chain_new: "chain 0 0 (regs alloc_line_text_region)"
  by (simp add: chain_def shape_def alloc_line_text_region_def alloc_text_region_def)

lemma load_char_open:
  assumes "load_open doc"
  obtains doc' where "load_char doc c = Some doc'" "load_open doc'"
    "abs_doc doc' = butlast (abs_doc doc) @ (if c = LF then [last (abs_doc doc) @ [c], []] else [last (abs_doc doc) @ [c]])"
proof -
  have d: "doc_ok doc" and ne: "doc \<noteq> []" using assms by (simp_all add: load_open_def doc_ok_def)
  obtain n p where c: "chain n p (regs (last doc))" "p < 128" using assms by (auto simp: load_open_def)
  obtain n' p' rs where r: "push_char (regs (last doc)) c = Some rs" "chain n' p' rs" "p' < 128" "ltext rs = ltext (regs (last doc)) @ [c]"
    by (rule push_char_text [OF c])
  let ?i = "length doc - 1"
  have i: "?i < length doc" "last doc = doc ! ?i" using ne by (simp_all add: last_conv_nth)
  define doc1 where "doc1 = doc[?i := (doc ! ?i)\<lparr>regs := rs\<rparr>]"
  have d1: "doc_ok doc1" using doc_ok_update [OF d i(1) r(2)] by (simp add: doc1_def)
  have ne1: "doc1 \<noteq> []" using ne by (simp add: doc1_def)
  have l1: "last doc1 = (doc ! ?i)\<lparr>regs := rs\<rparr>" using ne i(1) by (simp add: doc1_def last_list_update)
  have a1: "abs_doc doc1 = butlast (abs_doc doc) @ [last (abs_doc doc) @ [c]]"
  proof -
    have "abs_doc doc1 = (abs_doc doc)[length (abs_doc doc) - 1 := ltext rs]"
      using abs_update [OF i(1), of rs] by (simp add: doc1_def abs_doc_def)
    also have "\<dots> = butlast (abs_doc doc) @ [ltext rs]"
      using ne by (cases doc rule: rev_cases) (simp_all add: abs_doc_def list_update_append)
    finally show ?thesis using ne r(4) by (simp add: abs_doc_def last_map)
  qed
  define doc2 where "doc2 = (if c = LF then doc1 @ [alloc_line_text_region\<lparr>lno := lno (last doc) + 1\<rparr>] else doc1)"
  have "load_char doc c = Some doc2"
    using r(1) i by (simp add: load_char_def Let_def doc2_def doc1_def)
  moreover have "load_open doc2"
  proof (cases "c = LF")
    case True
    have "lno (last doc) + 1 = length doc1" using d i by (simp add: doc_ok_def doc1_def)
    then have "doc_ok doc2"
      using d1 chain_new True unfolding doc_ok_def doc2_def
      by (auto simp: nth_append less_Suc_eq)
    moreover have "\<exists>n p. chain n p (regs alloc_line_text_region) \<and> p < 128"
      by (rule exI [of _ 0], rule exI [of _ 0]) (simp add: chain_new)
    ultimately show ?thesis using True by (simp add: load_open_def doc2_def)
  next
    case False
    then show ?thesis using d1 l1 r(2,3) by (auto simp: load_open_def doc2_def)
  qed
  moreover have "abs_doc doc2 = butlast (abs_doc doc) @ (if c = LF then [last (abs_doc doc) @ [c], []] else [last (abs_doc doc) @ [c]])"
    using a1 by (simp add: doc2_def abs_doc_def ltext_one alloc_line_text_region_def alloc_text_region_def)
  ultimately show ?thesis using that by blast
qed

lemma load_chars_open:
  "load_open doc \<Longrightarrow> \<exists>doc'. load_chars doc bs = Some doc' \<and> load_open doc' \<and>
    abs_doc doc' = butlast (abs_doc doc) @ [last (abs_doc doc) @ hd (lines_of bs)] @ tl (lines_of bs)"
proof (induction bs arbitrary: doc)
  case Nil
  then have "abs_doc doc \<noteq> []" by (simp add: load_open_def doc_ok_def abs_doc_def)
  then show ?case using Nil by simp
next
  case (Cons c bs)
  obtain doc1 where 1: "load_char doc c = Some doc1" "load_open doc1"
    "abs_doc doc1 = butlast (abs_doc doc) @ (if c = LF then [last (abs_doc doc) @ [c], []] else [last (abs_doc doc) @ [c]])"
    by (rule load_char_open [OF Cons.prems])
  from Cons.IH [OF 1(2)] obtain doc2 where 2: "load_chars doc1 bs = Some doc2" "load_open doc2"
    "abs_doc doc2 = butlast (abs_doc doc1) @ [last (abs_doc doc1) @ hd (lines_of bs)] @ tl (lines_of bs)" by blast
  have "abs_doc doc2 = butlast (abs_doc doc) @ [last (abs_doc doc) @ hd (lines_of (c # bs))] @ tl (lines_of (c # bs))"
    unfolding 2(3) 1(3) by (simp add: butlast_append)
  then show ?case using 1(1) 2(1,2) by simp
qed

lemma load_file_lines:
  "\<exists>doc. load_file bs = Some doc \<and> doc_ok doc \<and> abs_doc doc = lines_of bs \<and> concat (write_file doc) = bs"
proof -
  have "load_open [alloc_line_text_region]"
    using chain_new by (auto simp: load_open_def doc_ok_def alloc_line_text_region_def intro!: exI [of _ 0])
  from load_chars_open [OF this, of bs] obtain doc where d: "load_file bs = Some doc" "load_open doc"
    "abs_doc doc = butlast (abs_doc [alloc_line_text_region]) @ [last (abs_doc [alloc_line_text_region]) @ hd (lines_of bs)] @ tl (lines_of bs)"
    unfolding load_file_def by blast
  have "abs_doc [alloc_line_text_region] = [[]]"
    by (simp add: abs_doc_def ltext_one alloc_line_text_region_def alloc_text_region_def)
  with d(3) have a: "abs_doc doc = lines_of bs" by simp
  have "concat (write_file doc) = concat (abs_doc doc)" for doc
    by (induction doc) (simp_all add: abs_doc_def ltext_def)
  then show ?thesis using d a concat_lines_of [of bs] by (auto simp: load_open_def)
qed

section \<open>Where the regions show\<close>

text \<open>
  A line that is 128 bytes long without a line feed has no second region: stepping behind its last
  byte leaves a null pointer, and the next key uses it.
\<close>

lemma full_line_ends_editor:
  assumes c: "chain 0 128 (regs l)" and b: "rbuf (hd (regs l)) ! 127 \<noteq> LF"
  shows "advance_cursor_right [l] \<lparr>cur_line = 0, cur_region = 0, cursor_line = 0, cursor_col = 127\<rparr> =
      Some (True, \<lparr>cur_line = 0, cur_region = 1, cursor_line = 0, cursor_col = 128\<rparr>)"
    and "x \<noteq> BS \<Longrightarrow> x \<noteq> LF \<Longrightarrow> append_at_position [l] 0 1 128 x = None"
proof -
  obtain r where r: "regs l = [r]" "rpos r = 128" "length (rbuf r) = 128"
    using c by (auto simp: chain_def shape_def)
  then show "advance_cursor_right [l] \<lparr>cur_line = 0, cur_region = 0, cursor_line = 0, cursor_col = 127\<rparr> =
      Some (True, \<lparr>cur_line = 0, cur_region = 1, cursor_line = 0, cursor_col = 128\<rparr>)"
    using b by (simp add: advance_cursor_right_def at_line_end_def before_newline_def behind_text_def)
  show "x \<noteq> BS \<Longrightarrow> x \<noteq> LF \<Longrightarrow> append_at_position [l] 0 1 128 x = None"
    using r by (simp add: append_at_position_def append_char_def)
qed

text \<open>Enter at the last place of a region writes its line feed behind the buffer.\<close>

lemma newline_behind_buffer: "length (rbuf tr) = 128 \<Longrightarrow> first_part tr 127 = None"
  by (simp add: first_part_def)

text \<open>Going left into a line that is only a line feed sets the column to \<open>2 ^ 32 - 1\<close>.\<close>

lemma left_of_short_line:
  assumes "load_file [LF] = Some doc"
  shows "advance_cursor_left doc \<lparr>cur_line = 1, cur_region = 0, cursor_line = 1, cursor_col = 0\<rparr> =
    Some (True, \<lparr>cur_line = 0, cur_region = 0, cursor_line = 0, cursor_col = 2 ^ 32 - 1\<rparr>)"
proof -
  have "load_file [LF] = Some [\<lparr>regs = [\<lparr>rbuf = LF # replicate 127 0, rpos = 1\<rparr>], lno = 0\<rparr>, \<lparr>regs = [alloc_text_region], lno = 1\<rparr>]"
    by (simp add: load_file_def load_char_def Let_def push_char_def pos_of_def wr_def set_pos_def
        alloc_line_text_region_def alloc_text_region_def numeral_eq_Suc)
  with assms show ?thesis by (auto simp: advance_cursor_left_def wsub_def)
qed

text \<open>After a backspace at the front of a line the editor goes on from the line it has freed.\<close>

lemma join_uses_freed_line:
  "cursor_col cu = 0 \<Longrightarrow> join_lines doc (cur_line cu) = Some (True, doc') \<Longrightarrow> type_key False doc cu BS = None"
  by (simp add: type_key_def append_at_position_def remove_at_position_def)

section \<open>Properties\<close>

text \<open>
  C32: loading a file and writing it back without a change gives its bytes; in between the document
  holds the lines of the file, numbered from 0, in regions that are all full but the last of a line.
\<close>

theorem tedit_load_write:
  "\<exists>doc. load_file bs = Some doc \<and> doc_ok doc \<and> abs_doc doc = lines_of bs \<and> concat (write_file doc) = bs"
  by (rule load_file_lines)

text \<open>
  C28: a key edits the list of the document's lines - a character is inserted at the cursor, a
  backspace removes the byte before it or joins two lines, Enter splits the line - and keeps the
  document well formed, wherever the cursor is not at one of the region boundaries that
  \<open>safe_edit\<close> names.
\<close>

theorem tedit_key_refines:
  assumes "doc_ok doc" and "cursor_at doc i t cc" and "safe_edit doc i t cc c" and "length doc < 2 ^ 32"
  shows "\<exists>doc'. append_at_position doc i t cc c = Some (True, doc') \<and> doc_ok doc' \<and>
    abs_doc doc' = edit (abs_doc doc) i cc c"
  by (rule tedit_refines [OF assms])

theorem tedit_key_refines_witness:
  "\<exists>doc doc'. load_file [0x61, 0x62, CR, LF, 0x63] = Some doc \<and> append_at_position doc 0 0 1 0x78 = Some (True, doc') \<and>
    abs_doc doc' = [[0x61, 0x78, 0x62, CR, LF], [0x63]]"
proof -
  let ?bs = "[0x61, 0x62, CR, LF, 0x63]"
  obtain doc where d: "load_file ?bs = Some doc" "doc_ok doc" "abs_doc doc = lines_of ?bs" using load_file_lines by blast
  have l: "length doc = 2" using arg_cong [OF d(3), of length] by (simp add: abs_doc_def)
  have "ltext (regs (doc ! 0)) = abs_doc doc ! 0" using l by (simp add: abs_doc_def)
  also have "\<dots> = [0x61, 0x62, CR, LF]" by (simp add: d(3))
  finally have t: "ltext (regs (doc ! 0)) = [0x61, 0x62, CR, LF]" .
  obtain n p where c: "chain n p (regs (doc ! 0))" using doc_line [OF d(2), of 0] l by auto
  have "cursor_at doc 0 0 1" using t l chain_length [OF c] by (simp add: cursor_at_def)
  moreover have "safe_edit doc 0 0 1 0x78" by (simp add: safe_edit_def)
  ultimately have "\<exists>doc'. append_at_position doc 0 0 1 0x78 = Some (True, doc') \<and> doc_ok doc' \<and>
      abs_doc doc' = edit (abs_doc doc) 0 1 0x78"
    by (intro tedit_key_refines [OF d(2)]) (simp_all add: l)
  then obtain doc' where "append_at_position doc 0 0 1 0x78 = Some (True, doc')" "abs_doc doc' = edit (abs_doc doc) 0 1 0x78"
    by blast
  moreover have "edit (abs_doc doc) 0 1 0x78 = [[0x61, 0x78, 0x62, CR, LF], [0x63]]"
    unfolding d(3) by (simp add: edit_def)
  ultimately show ?thesis using d(1) by auto
qed

end
