(* ===== verification/Console.thy ===== *)
theory Console
  imports Painting Vfs Format
begin

text \<open>
  The text console, \<^verbatim>\<open>drivers/screen.c\<close>, which prints before there are windows, and the loading of
  the font (\<^verbatim>\<open>load_psf1_8x16\<close> of \<^verbatim>\<open>utils/graphics.c\<close>).  The console's state is its cursor, in
  characters, the cursor of the input, and whether it is initialised; it draws into the frame
  buffer.  The macros \<^verbatim>\<open>MAX_ROWS\<close> and \<^verbatim>\<open>MAX_COLS\<close> are quotients without parentheses, so an
  expression that divides or takes remainders by them is expanded here as the compiler does.
\<close>

record console =
  con_x :: u32
  con_y :: u32
  con_input_row :: u16
  con_input_col :: u16
  screen_initialized :: bool

abbreviation MAX_COLS :: int where "MAX_COLS \<equiv> 160"
abbreviation MAX_ROWS :: int where "MAX_ROWS \<equiv> 64"
abbreviation CON_TOP :: int where "CON_TOP \<equiv> 1"

section \<open>Coordinates and cursors\<close>

definition get_screen_offset :: "int \<Rightarrow> int \<Rightarrow> int" where
  "get_screen_offset row col = cdiv (row * PIXEL_WIDTH) CHAR_WIDTH * CHAR_HEIGHT * CHAR_WIDTH + col * CHAR_WIDTH"

definition get_screen_x :: "int \<Rightarrow> int" where "get_screen_x col = col * CHAR_WIDTH"
definition get_screen_y :: "int \<Rightarrow> int" where "get_screen_y row = row * CHAR_HEIGHT"
definition get_logical_row :: "int \<Rightarrow> int" where "get_logical_row y = cdiv y CHAR_HEIGHT"
definition get_logical_col :: "int \<Rightarrow> int" where "get_logical_col x = cdiv x CHAR_WIDTH"

definition get_cursor_row :: "console \<Rightarrow> int" where "get_cursor_row con = sint (con_y con)"
definition get_cursor_col :: "console \<Rightarrow> int" where "get_cursor_col con = sint (con_x con)"

text \<open>\<^verbatim>\<open>cursor_offset_y*PIXEL_WIDTH/CHAR_WIDTH + cursor_offset_x\<close>, and
  \<^verbatim>\<open>offset%PIXEL_WIDTH/CHAR_WIDTH\<close> and \<^verbatim>\<open>offset/PIXEL_WIDTH/CHAR_WIDTH\<close>.\<close>

definition get_cursor :: "console \<Rightarrow> int" where
  "get_cursor con = sint (con_y con * word_of_int PIXEL_WIDTH div word_of_int CHAR_WIDTH + con_x con)"

definition set_cursor :: "console \<Rightarrow> int \<Rightarrow> console" where
  "set_cursor con offset =
     con\<lparr>con_x := word_of_int (cdiv (cmod offset PIXEL_WIDTH) CHAR_WIDTH),
       con_y := word_of_int (cdiv (cdiv offset PIXEL_WIDTH) CHAR_WIDTH)\<rparr>"

definition set_cursor_coords :: "console \<Rightarrow> int \<Rightarrow> int \<Rightarrow> console" where
  "set_cursor_coords con col row = con\<lparr>con_x := word_of_int col, con_y := word_of_int row\<rparr>"

definition set_cursor_row :: "console \<Rightarrow> int \<Rightarrow> console" where
  "set_cursor_row con row = con\<lparr>con_y := word_of_int row\<rparr>"

definition set_cursor_input_coords :: "console \<Rightarrow> u8 \<Rightarrow> u8 \<Rightarrow> console" where
  "set_cursor_input_coords con row col = con\<lparr>con_input_row := ucast row, con_input_col := ucast col\<rparr>"

definition set_cursor_input_row :: "console \<Rightarrow> u8 \<Rightarrow> console" where
  "set_cursor_input_row con row = con\<lparr>con_input_row := ucast row\<rparr>"

definition attach_cursor_to_input :: "console \<Rightarrow> console" where
  "attach_cursor_to_input con = set_cursor_coords con (uint (con_input_col con)) (uint (con_input_row con))"

section \<open>Printing\<close>

text \<open>Scrolling was given up: whatever the row is, the next character goes to row 1.\<close>

definition handle_scrolling :: "int \<Rightarrow> int" where
  "handle_scrolling offset_y = 1"

text \<open>A backspace clears the character before the cursor; a tab is handled by the caller.\<close>

definition print_backspace :: "console \<Rightarrow> memory \<Rightarrow> int \<Rightarrow> int \<Rightarrow> console \<times> memory" where
  "print_backspace con m x y = (
     let x = x - 1;
         (x, y) = (if x < 0 then (MAX_COLS - 1, y - 1) else (x, y));
         (x, y) = (if y < CON_TOP then (0, CON_TOP) else (x, y))
     in (set_cursor_coords con x y, fill_rect m (get_screen_x x) (get_screen_y y) CHAR_WIDTH CHAR_HEIGHT 0))"

definition print_glyph :: "u32 \<Rightarrow> console \<Rightarrow> memory \<Rightarrow> u8 \<Rightarrow> int \<Rightarrow> int \<Rightarrow> u8 \<Rightarrow> console \<times> memory" where
  "print_glyph font con m c x y color = (
     let y = handle_scrolling y;
         (x, y, m) = (if c = 10 then (0, y + 1, m)
           else (let m = fill_rect m (get_screen_x x) (get_screen_y y) CHAR_WIDTH CHAR_HEIGHT 0
                 in (x + 1, y, display_psf1_8x16_char m font c (get_screen_x x) (get_screen_y y) (word_of_int (sint color)))));
         (x, y) = (if x \<ge> MAX_COLS then (0, y + 1) else (x, y))
     in (set_cursor_coords con x y, m))"

definition print_simple :: "u32 \<Rightarrow> console \<Rightarrow> memory \<Rightarrow> u8 \<Rightarrow> int \<Rightarrow> int \<Rightarrow> u8 \<Rightarrow> console \<times> memory" where
  "print_simple font con m c row col color =
     (if c = 27 \<or> c = 13 \<or> \<not> screen_initialized con then (con, m)
      else (
        let color = (if color = 0 then 0xF else color);
            (x, y) = (if col \<ge> 0 \<and> row \<ge> 0 then (get_screen_x col, get_screen_y row)
                      else (get_cursor_col con, get_cursor_row con))
        in if c = 8 then print_backspace con m x y else print_glyph font con m c x y color))"

definition screen_print_char :: "u32 \<Rightarrow> console \<Rightarrow> memory \<Rightarrow> u8 \<Rightarrow> int \<Rightarrow> int \<Rightarrow> u8 \<Rightarrow> console \<times> memory" where
  "screen_print_char font con m c row col color =
     (if c = 9 \<and> screen_initialized con
      then ((\<lambda>(con, m). print_simple font con m 32 (- 1) (- 1) 0xF) ^^ 4) (con, m)
      else print_simple font con m c row col color)"

definition screen_putchar :: "u32 \<Rightarrow> console \<Rightarrow> memory \<Rightarrow> u8 \<Rightarrow> console \<times> memory" where
  "screen_putchar font con m c = screen_print_char font con m c (- 1) (- 1) 0xF"

definition screen_putchar_at :: "u32 \<Rightarrow> console \<Rightarrow> memory \<Rightarrow> u8 \<Rightarrow> int \<Rightarrow> int \<Rightarrow> int \<Rightarrow> console \<times> memory" where
  "screen_putchar_at font con m c row col attr =
     screen_print_char font (if col \<ge> 0 \<and> row \<ge> 0 then set_cursor_coords con col row else con) m c (- 1) (- 1) (word_of_int attr)"

fun print_chars :: "u32 \<Rightarrow> console \<Rightarrow> memory \<Rightarrow> u8 list \<Rightarrow> u8 \<Rightarrow> console \<times> memory" where
  "print_chars font con m [] color = (con, m)"
| "print_chars font con m (c # cs) color = (
     let (con, m) = screen_print_char font con m c (- 1) (- 1) color in print_chars font con m cs color)"

definition screen_print_at :: "u32 \<Rightarrow> console \<Rightarrow> memory \<Rightarrow> buffer \<Rightarrow> int \<Rightarrow> int \<Rightarrow> int \<Rightarrow> (console \<times> memory) option" where
  "screen_print_at font con m msg row col attr = do {
     s \<leftarrow> c_text msg;
     Some (print_chars font (if col \<ge> 0 \<and> row \<ge> 0 then set_cursor_coords con col row else con) m s (word_of_int attr)) }"

definition screen_print :: "u32 \<Rightarrow> console \<Rightarrow> memory \<Rightarrow> buffer \<Rightarrow> (console \<times> memory) option" where
  "screen_print font con m msg = screen_print_at font con m msg (- 1) (- 1) 0"

definition screen_print_color :: "u32 \<Rightarrow> console \<Rightarrow> memory \<Rightarrow> buffer \<Rightarrow> int \<Rightarrow> (console \<times> memory) option" where
  "screen_print_color font con m msg attr = screen_print_at font con m msg (- 1) (- 1) attr"

text \<open>The colour of a formatted text's characters and of its numbers and strings is the same.\<close>

definition screen_vprintf :: "u32 \<Rightarrow> console \<Rightarrow> memory \<Rightarrow> buffer \<Rightarrow> buffer \<Rightarrow> u32 \<Rightarrow> arg list \<Rightarrow> (console \<times> memory) option" where
  "screen_vprintf font con m buff fmt addr args = do {
     t \<leftarrow> screen_vprintf_text buff fmt addr args;
     Some (print_chars font con m t 0xF) }"

section \<open>Clearing and initialising\<close>

definition clear_viewport :: "screen \<Rightarrow> screen" where
  "clear_viewport s = (
     let s = disable_mouse s
     in enable_mouse (s\<lparr>vmem := fill_rect (vmem s) 0 (CON_TOP * CHAR_HEIGHT) PIXEL_WIDTH (PIXEL_HEIGHT - CON_TOP * CHAR_HEIGHT) 0\<rparr>))"

definition clear_screen :: "memory \<Rightarrow> u32 \<Rightarrow> memory" where
  "clear_screen m bg_color = fill_rect m 0 0 PIXEL_WIDTH PIXEL_HEIGHT bg_color"

fun bar_blanks :: "u32 \<Rightarrow> u32 \<Rightarrow> memory \<Rightarrow> nat \<Rightarrow> nat \<Rightarrow> memory" where
  "bar_blanks font bar m i 0 = m"
| "bar_blanks font bar m i (Suc n) =
     bar_blanks font bar (display_psf1_8x16_char_bg m font 32 (get_screen_x (int i)) (get_screen_y 0) bar 0) (i + 1) n"

definition init_screen :: "u32 \<Rightarrow> u32 \<Rightarrow> u32 \<Rightarrow> console \<Rightarrow> memory \<Rightarrow> console \<times> memory" where
  "init_screen font bg_color bar con m = (
     let m = clear_screen m bg_color;
         m = display_psf1_8x16_char_bg m font 97 (get_screen_x 0) (get_screen_y 0) bar 0;
         m = display_psf1_8x16_char_bg m font 107 (get_screen_x 1) (get_screen_y 0) bar 0;
         m = display_psf1_8x16_char_bg m font 111 (get_screen_x 2) (get_screen_y 0) bar 0;
         m = display_psf1_8x16_char_bg m font 115 (get_screen_x 3) (get_screen_y 0) bar 0;
         m = bar_blanks font bar m 4 156
     in ((set_cursor_coords con 0 CON_TOP)\<lparr>screen_initialized := True\<rparr>, m))"

section \<open>The font\<close>

text \<open>
  The header is four bytes: the magic number, the mode and the size of a character.  A font with
  more than 256 characters or of another height is refused, with the file left open.  The
  structures that \<^verbatim>\<open>volReadFile\<close> fills are the bytes it delivers; \<open>None\<close> is a file that delivers
  fewer.
\<close>

definition load_psf1_8x16 :: "(u32 \<Rightarrow> 's driver) \<Rightarrow> 's vfs \<Rightarrow> buffer \<Rightarrow> memory \<Rightarrow> u32 \<Rightarrow> (int \<times> memory \<times> 's vfs) option" where
  "load_psf1_8x16 drv v path m font = do {
     (psf, v) \<leftarrow> volOpenFile drv v (Some path);
     (hdr, psf, v) \<leftarrow> volReadFile drv v (Some psf) 4;
     guard (length hdr = 4);
     if hdr ! 0 \<noteq> 0x36 \<or> hdr ! 1 \<noteq> 0x04 \<or> hdr ! 3 \<noteq> 16 \<or> flag (hdr ! 2) 0x01 then Some (0, m, v)
     else do {
       (bs, psf, v) \<leftarrow> volReadFile drv v psf 4096;
       guard (length bs = 4096);
       (_, v) \<leftarrow> volCloseFile drv v psf;
       Some (1, (\<lambda>a. if uint (a - font) < 4096 then reverse (bs ! nat (uint (a - font))) else m a), v) } }"

section \<open>Where the console draws\<close>

text \<open>The font lies outside the frame buffer.\<close>

definition font_off :: "u32 \<Rightarrow> bool" where
  "font_off font \<longleftrightarrow> (\<forall>c. \<forall>i < 16. off_screen (glyph_addr font c + of_nat i))"

text \<open>Only pixels of text row 1 change.\<close>

definition in_row_1 :: "memory \<Rightarrow> memory \<Rightarrow> bool" where
  "in_row_1 m m' \<longleftrightarrow> (\<forall>x y. on_screen x y \<longrightarrow> y < 16 \<or> 32 \<le> y \<longrightarrow> spic m' x y = spic m x y) \<and>
     (\<forall>a. off_screen a \<longrightarrow> m' a = m a)"

definition cursor_row_1 :: "console \<Rightarrow> bool" where
  "cursor_row_1 con \<longleftrightarrow> (con_y con = 1 \<and> con_x con < 160) \<or> (con_y con = 2 \<and> con_x con = 0)"

lemma in_row_1_refl [simp]: "in_row_1 m m"
  by (simp add: in_row_1_def)

lemma in_row_1_trans: "in_row_1 m m' \<Longrightarrow> in_row_1 m' m'' \<Longrightarrow> in_row_1 m m''"
  by (simp add: in_row_1_def)

lemma fill_row_1: "in_row_1 m (fill_rect m x 16 w 16 c)"
  using fill_rect_painted [of m x 16 w 16 c] by (auto simp: in_row_1_def painted_def in_rect_def)

lemma char_row_1:
  assumes "font_off font" and "0 \<le> x" and "x + 8 \<le> PIXEL_WIDTH"
  shows "in_row_1 m (display_psf1_8x16_char m font c x 16 fg)"
  using display_char_painted [OF assms(2), of 16 font c m fg] assms
  by (auto simp: in_row_1_def painted_def in_rect_def font_off_def)

lemma coords_row_1:
  "0 \<le> x \<Longrightarrow> x < 160 \<Longrightarrow> cursor_row_1 (set_cursor_coords con x 1)" "cursor_row_1 (set_cursor_coords con 0 2)"
proof -
  show "cursor_row_1 (set_cursor_coords con 0 2)" by (simp add: cursor_row_1_def set_cursor_coords_def)
  assume "0 \<le> x" "x < 160"
  then have "(word_of_int x :: u32) < 160" by (simp add: word_less_def uint_word_of_int)
  then show "cursor_row_1 (set_cursor_coords con x 1)" by (simp add: cursor_row_1_def set_cursor_coords_def)
qed

lemma cursor_cases:
  assumes "cursor_row_1 con"
  shows "(get_cursor_row con = 1 \<and> 0 \<le> get_cursor_col con \<and> get_cursor_col con < 160) \<or> (get_cursor_row con = 2 \<and> get_cursor_col con = 0)"
proof -
  have "sint (con_x con) = uint (con_x con)" if "con_x con < 160"
  proof -
    have "unat (con_x con) < 2 ^ 31" using that by (simp add: word_less_nat_alt)
    then show ?thesis using small_sint [of "con_x con"] by simp
  qed
  then show ?thesis using assms
    by (auto simp: cursor_row_1_def get_cursor_row_def get_cursor_col_def word_less_def)
qed

lemma print_simple_row_1:
  assumes f: "font_off font" and c: "cursor_row_1 con" and p: "print_simple font con m ch (- 1) (- 1) color = (con', m')"
  shows "cursor_row_1 con' \<and> screen_initialized con' = screen_initialized con \<and> in_row_1 m m'"
proof (cases "ch = 27 \<or> ch = 13 \<or> \<not> screen_initialized con")
  case True
  then show ?thesis using p c by (auto simp: print_simple_def)
next
  case False
  let ?x = "get_cursor_col con" and ?y = "get_cursor_row con"
  note cc = cursor_cases [OF c]
  show ?thesis
  proof (cases "ch = 8")
    case True
    have pb: "print_backspace con m ?x ?y = (con', m')" using p False True by (simp add: print_simple_def)
    define x where "x = (if ?y = 1 then (if ?x < 1 then 0 else ?x - 1) else 159)"
    have x: "0 \<le> x" "x < 160" using cc by (auto simp: x_def)
    have "(con', m') = (set_cursor_coords con x 1, fill_rect m (x * 8) 16 8 16 0)"
    proof (cases "?y = 1")
      case y: True
      show ?thesis
      proof (cases "?x < 1")
        case True
        then have "?x = 0" using cc y by simp
        then show ?thesis using pb y by (simp add: x_def print_backspace_def get_screen_x_def get_screen_y_def)
      next
        case False
        then show ?thesis using pb y cc by (simp add: x_def print_backspace_def get_screen_x_def get_screen_y_def Let_def)
      qed
    next
      case False
      then have "?y = 2" "?x = 0" using cc by simp_all
      then show ?thesis using pb by (simp add: x_def print_backspace_def get_screen_x_def get_screen_y_def)
    qed
    then show ?thesis using coords_row_1(1) [OF x] fill_row_1 by (simp add: set_cursor_coords_def)
  next
    case bs: False
    define col where "col = (if color = 0 then 0xF else color)"
    have p2: "print_glyph font con m ch ?x ?y col = (con', m')"
      using p False bs by (simp add: print_simple_def col_def Let_def)
    have x: "0 \<le> ?x" "?x < 160" using cc by auto
    show ?thesis
    proof (cases "ch = 10")
      case True
      then show ?thesis using p2 coords_row_1(2) by (auto simp: print_glyph_def handle_scrolling_def set_cursor_coords_def)
    next
      case no_nl: False
      let ?m1 = "fill_rect m (?x * 8) 16 8 16 0"
      have "in_row_1 m (display_psf1_8x16_char ?m1 font ch (?x * 8) 16 (word_of_int (sint col)))"
        using x by (intro in_row_1_trans [OF fill_row_1 char_row_1 [OF f]]) simp_all
      moreover have "m' = display_psf1_8x16_char ?m1 font ch (?x * 8) 16 (word_of_int (sint col))"
        and "con' = (if ?x + 1 \<ge> 160 then set_cursor_coords con 0 2 else set_cursor_coords con (?x + 1) 1)"
        using p2 no_nl by (auto simp: print_glyph_def handle_scrolling_def get_screen_x_def get_screen_y_def Let_def split: if_splits)
      moreover have "cursor_row_1 con'"
        unfolding calculation(3) using coords_row_1(1) [of "?x + 1" con] coords_row_1(2) [of con] x by (cases "?x + 1 \<ge> 160") simp_all
      ultimately show ?thesis by (simp add: set_cursor_coords_def)
    qed
  qed
qed

lemma print_char_row_1:
  assumes f: "font_off font" and c: "cursor_row_1 con" and p: "screen_print_char font con m ch (- 1) (- 1) color = (con', m')"
  shows "cursor_row_1 con' \<and> in_row_1 m m'"
proof (cases "ch = 9 \<and> screen_initialized con")
  case False
  then have "print_simple font con m ch (- 1) (- 1) color = (con', m')"
    using p by (simp only: screen_print_char_def if_not_P if_False)
  from print_simple_row_1 [OF f c this] show ?thesis by simp
next
  case True
  have "cursor_row_1 con2 \<and> in_row_1 m m2"
    if "((\<lambda>(con, m). print_simple font con m 32 (- 1) (- 1) 0xF) ^^ n) (con, m) = (con2, m2)" for n con2 m2
    using that
  proof (induction n arbitrary: con2 m2)
    case 0
    then show ?case using c by simp
  next
    case (Suc n)
    obtain con1 m1 where 1: "((\<lambda>(con, m). print_simple font con m 32 (- 1) (- 1) 0xF) ^^ n) (con, m) = (con1, m1)" by fastforce
    then have 2: "print_simple font con1 m1 32 (- 1) (- 1) 0xF = (con2, m2)" using Suc.prems by simp
    have i: "cursor_row_1 con1" "in_row_1 m m1" using Suc.IH [OF 1] by simp_all
    show ?case using print_simple_row_1 [OF f i(1) 2] in_row_1_trans [OF i(2)] by blast
  qed
  then show ?thesis using p True by (simp only: screen_print_char_def simp_thms if_True)
qed

lemma print_chars_row_1:
  "font_off font \<Longrightarrow> cursor_row_1 con \<Longrightarrow> print_chars font con m cs color = (con', m') \<Longrightarrow> cursor_row_1 con' \<and> in_row_1 m m'"
proof (induction cs arbitrary: con m)
  case (Cons c cs)
  obtain con1 m1 where 1: "screen_print_char font con m c (- 1) (- 1) color = (con1, m1)" by fastforce
  have i: "cursor_row_1 con1" "in_row_1 m m1" using print_char_row_1 [OF Cons.prems(1,2) 1] by simp_all
  have "print_chars font con1 m1 cs color = (con', m')" using Cons.prems(3) 1 by simp
  from Cons.IH [OF Cons.prems(1) i(1) this] show ?case using in_row_1_trans [OF i(2)] by blast
qed simp

text \<open>The offset that \<^verbatim>\<open>get_cursor\<close> gives is not the one that \<^verbatim>\<open>set_cursor\<close> takes.\<close>

lemma cursor_offset_lost:
  "set_cursor con (get_cursor (con\<lparr>con_x := 5, con_y := 2\<rparr>)) = con\<lparr>con_x := 40, con_y := 0\<rparr>"
  by (simp add: set_cursor_def get_cursor_def cdiv_def cmod_def)

lemma font_off_high: "font_off 0xC0000000"
  unfolding font_off_def
proof (intro allI impI)
  fix c :: u8 and i :: nat
  assume i: "i < 16"
  define k where "k = 0xF3000000 + (sint c * 16 + int i)"
  have c: "- 128 \<le> sint c" "sint c < 128" using sint_range_size [of c] by (simp_all add: word_size)
  then have k: "0 \<le> k" "k < 2 ^ 32" "0xF2FFF800 \<le> k" using i by (simp_all add: k_def)
  have "glyph_addr 0xC0000000 c + of_nat i - VIDEO_ADDRESS = word_of_int k"
    by (simp add: glyph_addr_def k_def)
  moreover have "uint (word_of_int k :: u32) = k" using k by (simp add: uint_word_of_int)
  ultimately show "off_screen (glyph_addr 0xC0000000 c + of_nat i)" using k(3) by (simp add: outside_def)
qed

section \<open>Properties\<close>



end
