(* ===== verification/Keyboard.thy ===== *)
theory Keyboard
  imports Mouse Console
begin

text \<open>
  The keyboard interrupt, \<^verbatim>\<open>drivers/keyboard.c\<close>, from the scancode on: the state of the modifier keys,
  the events of the working window, and the line and character input that the older console had.
  The reads of the ports are the arguments \<open>status\<close> and \<open>scancode\<close>.
\<close>

record keyboard =
  kstatus :: u8
  taking_input :: bool
  taking_char :: bool
  input_buffer :: buffer
  char_buffer :: buffer
  buffer_index :: u32
  buffer_limit :: u32

section \<open>The modifier keys\<close>

definition enable_shift :: "keyboard \<Rightarrow> keyboard" where "enable_shift kb = kb\<lparr>kstatus := kstatus kb OR 4\<rparr>"
definition disable_shift :: "keyboard \<Rightarrow> keyboard" where "disable_shift kb = kb\<lparr>kstatus := kstatus kb AND NOT 4\<rparr>"
definition check_shift :: "keyboard \<Rightarrow> int" where "check_shift kb = uint (kstatus kb AND 4)"

definition enable_ctrl :: "keyboard \<Rightarrow> keyboard" where "enable_ctrl kb = kb\<lparr>kstatus := kstatus kb OR 1\<rparr>"
definition disable_ctrl :: "keyboard \<Rightarrow> keyboard" where "disable_ctrl kb = kb\<lparr>kstatus := kstatus kb AND NOT 1\<rparr>"
definition check_ctrl :: "keyboard \<Rightarrow> int" where "check_ctrl kb = uint (kstatus kb AND 1)"

definition enable_caps :: "keyboard \<Rightarrow> keyboard" where "enable_caps kb = kb\<lparr>kstatus := kstatus kb OR 8\<rparr>"
definition disable_caps :: "keyboard \<Rightarrow> keyboard" where "disable_caps kb = kb\<lparr>kstatus := kstatus kb AND NOT 8\<rparr>"
definition check_caps :: "keyboard \<Rightarrow> int" where "check_caps kb = uint (kstatus kb AND 8)"

definition enable_alt :: "keyboard \<Rightarrow> keyboard" where "enable_alt kb = kb\<lparr>kstatus := kstatus kb OR 2\<rparr>"
definition disable_alt :: "keyboard \<Rightarrow> keyboard" where "disable_alt kb = kb\<lparr>kstatus := kstatus kb AND NOT 2\<rparr>"
definition check_alt :: "keyboard \<Rightarrow> int" where "check_alt kb = uint (kstatus kb AND 2)"

abbreviation LSHIFT_PRESS :: u8 where "LSHIFT_PRESS \<equiv> 42"
abbreviation LSHIFT_REL :: u8 where "LSHIFT_REL \<equiv> 170"
abbreviation RSHIFT_PRESS :: u8 where "RSHIFT_PRESS \<equiv> 54"
abbreviation RSHIFT_REL :: u8 where "RSHIFT_REL \<equiv> 182"
abbreviation CTRL_PRESS :: u8 where "CTRL_PRESS \<equiv> 29"
abbreviation CTRL_REL :: u8 where "CTRL_REL \<equiv> 157"
abbreviation ALT_PRESS :: u8 where "ALT_PRESS \<equiv> 56"
abbreviation ALT_REL :: u8 where "ALT_REL \<equiv> 184"
abbreviation CAPS_PRESS :: u8 where "CAPS_PRESS \<equiv> 58"
abbreviation CAPS_REL :: u8 where "CAPS_REL \<equiv> 186"

section \<open>The US layout\<close>

definition kbdus :: "u8 list" where
  "kbdus =
     [0, 27, 49, 50, 51, 52, 53, 54, 55, 56, 57, 48, 45, 61, 8, 9, 113, 119, 101, 114, 116, 121, 117, 105,
     111, 112, 91, 93, 10, 0, 97, 115, 100, 102, 103, 104, 106, 107, 108, 59, 39, 96, 0, 92, 122, 120, 99,
     118, 98, 110, 109, 44, 46, 47, 0, 42, 0, 32, 0, 0, 0, 0, 0, 0, 0, 0, 0, 0, 0, 0, 0, 0, 0, 0, 45, 0, 0, 0,
     43] @ replicate 49 0"

definition kbdus_shift :: "u8 list" where
  "kbdus_shift =
     [0, 27, 33, 64, 35, 36, 37, 94, 38, 42, 40, 41, 95, 43, 8, 9, 81, 87, 69, 82, 84, 89, 85, 73, 79, 80,
     123, 125, 10, 0, 65, 83, 68, 70, 71, 72, 74, 75, 76, 58, 34, 126, 0, 124, 90, 88, 67, 86, 66, 78, 77, 60,
     62, 63, 0, 42, 0, 32, 0, 0, 0, 0, 0, 0, 0, 0, 0, 0, 0, 0, 0, 0, 0, 0, 45, 0, 0, 0, 43] @ replicate 49 0"

section \<open>The interrupt\<close>

text \<open>The keys that change a flag; the result says whether the handler returns at once.\<close>

definition modifier_key :: "keyboard \<Rightarrow> u8 \<Rightarrow> bool \<times> keyboard" where
  "modifier_key kb scancode =
     (if flag scancode 0x80 then
        (False,
         if scancode = LSHIFT_REL \<or> scancode = RSHIFT_REL then disable_shift kb
         else if scancode = CTRL_REL then disable_ctrl kb
         else if scancode = ALT_REL then disable_alt kb
         else if scancode = CAPS_REL then (if check_caps kb \<noteq> 0 then disable_caps kb else enable_caps kb)
         else kb)
      else
        if scancode = LSHIFT_PRESS \<or> scancode = RSHIFT_PRESS then (True, enable_shift kb)
        else if scancode = CTRL_PRESS then (True, enable_ctrl kb)
        else if scancode = ALT_PRESS then (True, enable_alt kb)
        else if scancode = CAPS_PRESS then (True, kb)
        else (False, kb))"

definition keyboard_event :: "keyboard \<Rightarrow> u8 \<Rightarrow> event" where
  "keyboard_event kb scancode = (
     let dat = ucast scancode AND 0x7F;
         dat = (if check_caps kb \<noteq> 0 then dat OR 0x100 else dat);
         dat = (if check_shift kb \<noteq> 0 then dat OR 0x200 else dat);
         dat = (if check_alt kb \<noteq> 0 then dat OR 0x400 else dat)
     in \<lparr>event_type = (if flag scancode 0x80 then EVENT_KBD_RELEASE else EVENT_KBD_PRESS), event_data = dat\<rparr>)"

abbreviation GENERAL_EVENT_KBD :: u32 where "GENERAL_EVENT_KBD \<equiv> 1"

definition keyboard_handler :: "u8 \<Rightarrow> u8 \<Rightarrow> keyboard \<Rightarrow> 's desktop \<Rightarrow> (keyboard \<times> 's desktop) option" where
  "keyboard_handler status scancode kb d =
     (if \<not> flag status 1 then Some (kb, d)
      else (
        let (stop, kb) = modifier_key kb scancode
        in if stop \<or> winsys_get_working_window (ws d) = 0 then Some (kb, d)
           else do {
             w \<leftarrow> window_ptr (ws d) (winsys_get_working_window (ws d));
             d \<leftarrow> (if flag (event_mask w) GENERAL_EVENT_KBD then send_event d w (keyboard_event kb scancode) else Some d);
             Some (kb, d) }))"

section \<open>Lines and characters of the console\<close>

text \<open>The place of the input: the given one or the cursor's, within the console.\<close>

definition clamp_place :: "console \<Rightarrow> int \<Rightarrow> int \<Rightarrow> console" where
  "clamp_place con row col = (
     let row = (if row < 0 then get_cursor_row con else row);
         col = (if col < 0 then get_cursor_col con else col);
         row = (if row < TOP then TOP else if row \<ge> MAX_ROWS then MAX_ROWS - 1 else row);
         col = (if col < 0 then 0 else if col \<ge> MAX_COLS then MAX_COLS - 1 else col)
     in set_cursor_input_coords con (word_of_int row) (word_of_int col))"

definition keyboard_input :: "int \<Rightarrow> int \<Rightarrow> buffer \<Rightarrow> int \<Rightarrow> keyboard \<Rightarrow> console \<Rightarrow> keyboard \<times> console" where
  "keyboard_input row col buff bf_size kb con =
     (if taking_char kb then (kb, con)
      else (kb\<lparr>taking_input := True, buffer_index := 0, buffer_limit := word_of_int bf_size, input_buffer := buff\<rparr>,
        clamp_place con row col))"

definition getchar :: "int \<Rightarrow> int \<Rightarrow> buffer \<Rightarrow> keyboard \<Rightarrow> console \<Rightarrow> keyboard \<times> console" where
  "getchar row col buff kb con =
     (if taking_input kb then (kb, con)
      else (kb\<lparr>taking_char := True, char_buffer := buff\<rparr>, clamp_place con row col))"

text \<open>-1 when a limit is reached, 1 when the line is finished.\<close>

definition keyboard_input_character :: "u8 \<Rightarrow> keyboard \<Rightarrow> console \<Rightarrow> (int \<times> keyboard \<times> console) option" where
  "keyboard_input_character ch kb con = (
     let con = attach_cursor_to_input con
     in if ch = 8 then
          (if buffer_index kb = 0 then Some (- 1, kb, con) else Some (0, kb\<lparr>buffer_index := buffer_index kb - 1\<rparr>, con))
        else if ch = 10 then do {
          b \<leftarrow> aset (input_buffer kb) (unat (buffer_index kb)) 0;
          Some (1, kb\<lparr>input_buffer := b, taking_input := False\<rparr>, con) }
        else if buffer_index kb = buffer_limit kb - 1 then Some (- 1, kb, con)
        else do {
          b \<leftarrow> aset (input_buffer kb) (unat (buffer_index kb)) ch;
          Some (0, kb\<lparr>input_buffer := b, buffer_index := buffer_index kb + 1\<rparr>, con) })"

definition keyboard_get_character :: "u8 \<Rightarrow> keyboard \<Rightarrow> console \<Rightarrow> (keyboard \<times> console) option" where
  "keyboard_get_character ch kb con = do {
     b \<leftarrow> aset (char_buffer kb) 0 ch;
     Some (kb\<lparr>taking_char := False, char_buffer := b\<rparr>, attach_cursor_to_input con) }"

text \<open>The character, if the key has one, goes to the input; the last result is the character printed.\<close>

definition handle_character :: "u8 \<Rightarrow> keyboard \<Rightarrow> console \<Rightarrow> (u8 option \<times> keyboard \<times> console) option" where
  "handle_character scancode kb con = do {
     k \<leftarrow> aget kbdus (unat scancode);
     if k = 0 then Some (None, kb, con)
     else do {
       s \<leftarrow> aget kbdus_shift (unat scancode);
       let c = (if check_shift kb \<noteq> 0 then s else if check_caps kb \<noteq> 0 \<and> 97 \<le> k \<and> k \<le> 122 then k - 32 else k);
       (r, kb, con) \<leftarrow> (if taking_input kb then keyboard_input_character c kb con
                        else if taking_char kb then do { (kb, con) \<leftarrow> keyboard_get_character c kb con; Some (0, kb, con) }
                        else Some (0, kb, con));
       Some (if r \<noteq> - 1 then Some c else None, kb,
         if taking_input kb
         then set_cursor_input_coords con (word_of_int (get_cursor_row con)) (word_of_int (get_cursor_col con)) else con) } }"

section \<open>The flags follow the keys\<close>

lemma flags_bit:
  "check_ctrl kb \<noteq> 0 \<longleftrightarrow> bit (kstatus kb) 0" "check_alt kb \<noteq> 0 \<longleftrightarrow> bit (kstatus kb) 1"
  "check_shift kb \<noteq> 0 \<longleftrightarrow> bit (kstatus kb) 2" "check_caps kb \<noteq> 0 \<longleftrightarrow> bit (kstatus kb) 3"
  unfolding check_ctrl_def check_alt_def check_shift_def check_caps_def uint_0_iff
  using and_exp_zero [of "kstatus kb" 0] and_exp_zero [of "kstatus kb" 1] and_exp_zero [of "kstatus kb" 2] and_exp_zero [of "kstatus kb" 3]
  by simp_all

lemma modifier_bits:
  "n < 8 \<Longrightarrow> bit (1 :: u8) n \<longleftrightarrow> n = 0" "n < 8 \<Longrightarrow> bit (2 :: u8) n \<longleftrightarrow> n = 1" "n < 8 \<Longrightarrow> bit (4 :: u8) n \<longleftrightarrow> n = 2" "n < 8 \<Longrightarrow> bit (8 :: u8) n \<longleftrightarrow> n = 3"
proof -
  have "(1 :: u8) = 2 ^ 0" "(2 :: u8) = 2 ^ 1" "(4 :: u8) = 2 ^ 2" "(8 :: u8) = 2 ^ 3" by simp_all
  moreover have "n < 8 \<Longrightarrow> bit (2 ^ m :: u8) n \<longleftrightarrow> n = m" for m by (auto simp: bit_exp_iff)
  ultimately show "n < 8 \<Longrightarrow> bit (1 :: u8) n \<longleftrightarrow> n = 0" "n < 8 \<Longrightarrow> bit (2 :: u8) n \<longleftrightarrow> n = 1"
    "n < 8 \<Longrightarrow> bit (4 :: u8) n \<longleftrightarrow> n = 2" "n < 8 \<Longrightarrow> bit (8 :: u8) n \<longleftrightarrow> n = 3" by metis+
qed

lemma set_flag_bit:
  "n < 8 \<Longrightarrow> bit (kstatus (enable_ctrl kb)) n \<longleftrightarrow> n = 0 \<or> bit (kstatus kb) n"
  "n < 8 \<Longrightarrow> bit (kstatus (enable_alt kb)) n \<longleftrightarrow> n = 1 \<or> bit (kstatus kb) n"
  "n < 8 \<Longrightarrow> bit (kstatus (enable_shift kb)) n \<longleftrightarrow> n = 2 \<or> bit (kstatus kb) n"
  "n < 8 \<Longrightarrow> bit (kstatus (enable_caps kb)) n \<longleftrightarrow> n = 3 \<or> bit (kstatus kb) n"
  "n < 8 \<Longrightarrow> bit (kstatus (disable_ctrl kb)) n \<longleftrightarrow> n \<noteq> 0 \<and> bit (kstatus kb) n"
  "n < 8 \<Longrightarrow> bit (kstatus (disable_alt kb)) n \<longleftrightarrow> n \<noteq> 1 \<and> bit (kstatus kb) n"
  "n < 8 \<Longrightarrow> bit (kstatus (disable_shift kb)) n \<longleftrightarrow> n \<noteq> 2 \<and> bit (kstatus kb) n"
  "n < 8 \<Longrightarrow> bit (kstatus (disable_caps kb)) n \<longleftrightarrow> n \<noteq> 3 \<and> bit (kstatus kb) n"
proof -
  have c: "n < 8 \<Longrightarrow> bit (x AND NOT m) n \<longleftrightarrow> bit x n \<and> \<not> bit m n" for x m :: u8 by (simp add: bit_simps)
  have k: "kstatus (kb\<lparr>kstatus := x\<rparr>) = x" for x by simp
  note defs = enable_ctrl_def enable_alt_def enable_shift_def enable_caps_def disable_ctrl_def disable_alt_def
    disable_shift_def disable_caps_def k bit_or_iff
  assume n: "n < 8"
  note b = modifier_bits [OF n] c [OF n]
  show "bit (kstatus (enable_ctrl kb)) n \<longleftrightarrow> n = 0 \<or> bit (kstatus kb) n"
    "bit (kstatus (enable_alt kb)) n \<longleftrightarrow> n = 1 \<or> bit (kstatus kb) n"
    "bit (kstatus (enable_shift kb)) n \<longleftrightarrow> n = 2 \<or> bit (kstatus kb) n"
    "bit (kstatus (enable_caps kb)) n \<longleftrightarrow> n = 3 \<or> bit (kstatus kb) n"
    "bit (kstatus (disable_ctrl kb)) n \<longleftrightarrow> n \<noteq> 0 \<and> bit (kstatus kb) n"
    "bit (kstatus (disable_alt kb)) n \<longleftrightarrow> n \<noteq> 1 \<and> bit (kstatus kb) n"
    "bit (kstatus (disable_shift kb)) n \<longleftrightarrow> n \<noteq> 2 \<and> bit (kstatus kb) n"
    "bit (kstatus (disable_caps kb)) n \<longleftrightarrow> n \<noteq> 3 \<and> bit (kstatus kb) n"
    unfolding defs b by (intro iffI; blast)+
qed

lemma modifier_flags:
  "check_shift (snd (modifier_key kb s)) \<noteq> 0 \<longleftrightarrow>
     (if s \<in> {LSHIFT_PRESS, RSHIFT_PRESS} then True else if s \<in> {LSHIFT_REL, RSHIFT_REL} then False else check_shift kb \<noteq> 0)"
  "check_ctrl (snd (modifier_key kb s)) \<noteq> 0 \<longleftrightarrow> (if s = CTRL_PRESS then True else if s = CTRL_REL then False else check_ctrl kb \<noteq> 0)"
  "check_alt (snd (modifier_key kb s)) \<noteq> 0 \<longleftrightarrow> (if s = ALT_PRESS then True else if s = ALT_REL then False else check_alt kb \<noteq> 0)"
  "check_caps (snd (modifier_key kb s)) \<noteq> 0 \<longleftrightarrow> (check_caps kb \<noteq> 0) \<noteq> (s = CAPS_REL)"
  unfolding modifier_key_def by (auto simp: flags_bit set_flag_bit flag_def)

text \<open>A run of scancodes, each with a full port; and the key that was used last of a group of keys.\<close>

fun press_keys :: "u8 list \<Rightarrow> keyboard \<Rightarrow> 's desktop \<Rightarrow> (keyboard \<times> 's desktop) option" where
  "press_keys [] kb d = Some (kb, d)"
| "press_keys (s # ss) kb d = do { (kb, d) \<leftarrow> keyboard_handler 1 s kb d; press_keys ss kb d }"

definition held :: "u8 list \<Rightarrow> u8 list \<Rightarrow> u8 list \<Rightarrow> bool \<Rightarrow> bool" where
  "held presses releases ss start =
     (case filter (\<lambda>s. s \<in> set presses \<union> set releases) (rev ss) of [] \<Rightarrow> start | s # _ \<Rightarrow> s \<in> set presses)"

lemma held_Nil: "held ps rs [] b = b"
  by (simp add: held_def)

lemma held_Cons: "held ps rs (s # ss) b = held ps rs ss (if s \<in> set ps then True else if s \<in> set rs then False else b)"
  by (simp add: held_def split: list.splits)

lemma handler_flags: "keyboard_handler 1 s kb d = Some (kb', d') \<Longrightarrow> kb' = snd (modifier_key kb s)"
  by (cases "modifier_key kb s") (auto simp: keyboard_handler_def flag_def c_simps split: if_splits)

lemma press_keys_flags:
  "press_keys ss kb d = Some (kb', d') \<Longrightarrow>
     (check_shift kb' \<noteq> 0 \<longleftrightarrow> held [LSHIFT_PRESS, RSHIFT_PRESS] [LSHIFT_REL, RSHIFT_REL] ss (check_shift kb \<noteq> 0)) \<and>
     (check_ctrl kb' \<noteq> 0 \<longleftrightarrow> held [CTRL_PRESS] [CTRL_REL] ss (check_ctrl kb \<noteq> 0)) \<and>
     (check_alt kb' \<noteq> 0 \<longleftrightarrow> held [ALT_PRESS] [ALT_REL] ss (check_alt kb \<noteq> 0)) \<and>
     (check_caps kb' \<noteq> 0 \<longleftrightarrow> (check_caps kb \<noteq> 0) \<noteq> odd (count_list ss CAPS_REL))"
proof (induction ss arbitrary: kb d)
  case Nil
  then show ?case by (simp add: held_Nil)
next
  case (Cons s ss)
  then obtain kb1 d1 where 1: "keyboard_handler 1 s kb d = Some (kb1, d1)" "press_keys ss kb1 d1 = Some (kb', d')"
    by (auto simp: c_simps)
  note f = modifier_flags [of kb s, folded handler_flags [OF 1(1)]]
  note i = Cons.IH [OF 1(2), unfolded f]
  have "odd (count_list (s # ss) CAPS_REL) \<longleftrightarrow> odd (count_list ss CAPS_REL) \<noteq> (s = CAPS_REL)" by auto
  then have "check_caps kb' \<noteq> 0 \<longleftrightarrow> (check_caps kb \<noteq> 0) \<noteq> odd (count_list (s # ss) CAPS_REL)" using i by blast
  then show ?case using i unfolding held_Cons by simp
qed

section \<open>The event reaches the window\<close>

lemma unscheduled_wsys: "unsuspend_suspended_threads k p = Some k' \<Longrightarrow> wsys k' = wsys k"
  by (auto simp: unsuspend_suspended_threads_def unscheduled_def Let_def c_simps disable_scheduling_def enable_scheduling_def split: if_splits)

lemma send_event_ws:
  "send_event d w e = Some d' \<Longrightarrow> \<exists>evs. winsys_enqueue_to_event_handler (events w) e = Some evs \<and>
     ws d' = (ws d)\<lparr>win_list := map (\<lambda>v. if w_addr v = w_addr w then v\<lparr>events := evs\<rparr> else v) (win_list (ws d))\<rparr>"
  by (auto simp: send_event_def Let_def c_simps set_ws_def dest!: unscheduled_wsys)


text \<open>The handler returns: the processes that it looks up are there.\<close>

definition kernel_live :: "'s kernel \<Rightarrow> bool" where
  "kernel_live k \<longleftrightarrow> processes_ok k \<and> (\<forall>q \<in> set (ready k). procs k (parent (q_thread q)) \<noteq> None)"

lemma processes_ok_cong: "procs k' = procs k \<Longrightarrow> processList k' = processList k \<Longrightarrow> processes_ok k' = processes_ok k"
proof -
  assume e: "procs k' = procs k" "processList k' = processList k"
  then have "proc_id k' = proc_id k" by (intro ext) (simp add: proc_id_def)
  with e show ?thesis by (simp add: processes_ok_def)
qed

lemma unsuspend_loop_returns:
  "\<forall>q \<in> set qs. procs k (parent (q_thread q)) \<noteq> None \<Longrightarrow>
    \<exists>qs'. unsuspend_loop k i qs = Some qs' \<and> map (\<lambda>q. parent (q_thread q)) qs' = map (\<lambda>q. parent (q_thread q)) qs"
  by (induction qs) (auto simp: thread_remove_state_def)

lemma unsuspend_returns:
  assumes l: "kernel_live k" and p: "p = 0 \<or> procs k p \<noteq> None"
  shows "\<exists>k'. unsuspend_suspended_threads k p = Some k' \<and> kernel_live k'"
proof (cases "p = 0")
  case True
  then show ?thesis using l by (simp add: unsuspend_suspended_threads_def)
next
  case False
  then obtain q where q: "procs k p = Some q" using p by auto
  let ?k = "if currentTask k \<noteq> 0 then disable_scheduling k else k"
  have k: "procs ?k = procs k" "ready ?k = ready k" "processList ?k = processList k" by (simp_all add: disable_scheduling_def)
  have "\<forall>r \<in> set (ready k). procs ?k (parent (q_thread r)) \<noteq> None" using l k by (simp add: kernel_live_def)
  then obtain qs where qs: "unsuspend_loop ?k (p_id q) (ready k) = Some qs"
    "map (\<lambda>q. parent (q_thread q)) qs = map (\<lambda>q. parent (q_thread q)) (ready k)" using unsuspend_loop_returns by blast
  define k' where "k' = (if currentTask k \<noteq> 0 then enable_scheduling (?k\<lparr>ready := qs\<rparr>) else ?k\<lparr>ready := qs\<rparr>)"
  have "unsuspend_suspended_threads k p = Some k'"
    using False q qs(1) k by (simp add: unsuspend_suspended_threads_def unscheduled_def Let_def k'_def)
  moreover have e: "procs k' = procs k" "ready k' = qs" "processList k' = processList k"
    using k by (simp_all add: k'_def enable_scheduling_def disable_scheduling_def)
  moreover have "processes_ok k'" using l processes_ok_cong [OF e(1,3)] by (simp add: kernel_live_def)
  moreover have "\<forall>r \<in> set qs. procs k (parent (q_thread r)) \<noteq> None"
  proof
    fix r assume "r \<in> set qs"
    then have "parent (q_thread r) \<in> set (map (\<lambda>q. parent (q_thread q)) (ready k))" unfolding qs(2) [symmetric] by simp
    then show "procs k (parent (q_thread r)) \<noteq> None" using l by (auto simp: kernel_live_def)
  qed
  ultimately show ?thesis by (auto simp: kernel_live_def)
qed

lemma send_event_returns:
  assumes l: "kernel_live (kn d)"
  shows "\<exists>d'. send_event d w e = Some d' \<and> kernel_live (kn d')"
proof -
  obtain evs where e: "winsys_enqueue_to_event_handler (events w) e = Some evs" by (simp add: winsys_enqueue_to_event_handler_def)
  define d1 where "d1 = set_ws d ((ws d)\<lparr>win_list := map (\<lambda>v. if w_addr v = w_addr w then v\<lparr>events := evs\<rparr> else v) (win_list (ws d))\<rparr>)"
  have k: "procs (kn d1) = procs (kn d)" "processList (kn d1) = processList (kn d)" "ready (kn d1) = ready (kn d)"
    by (simp_all add: d1_def set_ws_def)
  then have l1: "kernel_live (kn d1)" using l processes_ok_cong [OF k(1,2)] by (simp add: kernel_live_def)
  have ok: "\<forall>a \<in> set (processList (kn d1)). procs (kn d1) a \<noteq> None" using l1 by (simp add: kernel_live_def processes_ok_def)
  obtain p where p: "getProcessByID (kn d1) (parent_pid w) = Some p" "p = 0 \<or> p \<in> set (processList (kn d1))"
    using find_process_Some [OF ok, of "parent_pid w"]
    by (fastforce simp: getProcessByID_def split: option.splits dest: map_of_SomeD)
  then obtain k' where "unsuspend_suspended_threads (kn d1) p = Some k'" "kernel_live k'"
    using unsuspend_returns [OF l1, of p] ok by auto
  then show ?thesis using e p(1) by (simp add: send_event_def d1_def [symmetric])
qed

lemma find_keyed: "distinct (map f xs) \<Longrightarrow> w \<in> set xs \<Longrightarrow> find (\<lambda>v. f v = f w) xs = Some w"
  by (induction xs) auto

lemma event_reaches_window:
  assumes inv: "windows_inv (ws d)" and w: "w \<in> set (win_list (ws d))" "w_addr w = working_window (ws d)" "working_window (ws d) \<noteq> 0"
    and m: "flag (event_mask w) GENERAL_EVENT_KBD" and q: "handler_ok (events w)" "length (pending (events w)) < EVENT_HANDLER_QUEUE_SIZE"
    and k: "modifier_key kb s = (False, kb1)" and r: "keyboard_handler 1 s kb d = Some (kb', d')"
  shows "\<exists>w'. winsys_get_window_by_id (ws d') (w_id w) = Some w' \<and> handler_ok (events w') \<and>
    pending (events w') = pending (events w) @ [keyboard_event kb1 s]"
proof -
  let ?e = "keyboard_event kb1 s"
  have "window_ptr (ws d) (working_window (ws d)) = Some w"
    using find_keyed [of w_addr "win_list (ws d)" w] inv w(1,2) by (simp add: window_ptr_def windows_inv_def)
  then obtain d1 where d1: "send_event d w ?e = Some d1" "d' = d1"
    using r k m w(3) by (auto simp: keyboard_handler_def flag_def winsys_get_working_window_def c_simps split: if_splits)
  obtain evs where e: "winsys_enqueue_to_event_handler (events w) ?e = Some evs"
    "ws d' = (ws d)\<lparr>win_list := map (\<lambda>v. if w_addr v = w_addr w then v\<lparr>events := evs\<rparr> else v) (win_list (ws d))\<rparr>"
    using send_event_ws [OF d1(1)] d1(2) by auto
  have "\<not> is_invalid ?e" by (simp add: is_invalid_def keyboard_event_def Let_def flag_def)
  then have h: "handler_ok evs" "pending evs = pending (events w) @ [?e]"
    using handler_enqueue [OF q(1) _ q(2), of ?e] e(1) by auto
  let ?f = "\<lambda>v :: window. if w_addr v = w_addr w then v\<lparr>events := evs\<rparr> else v"
  have "find (\<lambda>v. w_id v = w_id w) (map ?f xs) = map_option ?f (find (\<lambda>v. w_id v = w_id w) xs)" for xs
    by (induction xs) auto
  moreover have "find (\<lambda>v. w_id v = w_id w) (win_list (ws d)) = Some w"
    using find_keyed [of w_id "win_list (ws d)" w] inv w(1) by (simp add: windows_inv_def)
  ultimately have "winsys_get_window_by_id (ws d') (w_id w) = Some (w\<lparr>events := evs\<rparr>)"
    using e(2) by (simp add: winsys_get_window_by_id_def)
  then show ?thesis using h by simp
qed


lemma handler_returns:
  assumes inv: "windows_inv (ws d)" and l: "kernel_live (kn d)"
  shows "\<exists>kb' d'. keyboard_handler st s kb d = Some (kb', d') \<and> windows_inv (ws d') \<and> kernel_live (kn d')"
proof (cases "flag st 1 \<and> \<not> fst (modifier_key kb s) \<and> working_window (ws d) \<noteq> 0")
  case False
  then show ?thesis using inv l
    by (cases "modifier_key kb s") (auto simp: keyboard_handler_def winsys_get_working_window_def)
next
  case True
  obtain kb1 where k: "modifier_key kb s = (False, kb1)" using True by (cases "modifier_key kb s") simp
  obtain w where w: "w \<in> set (win_list (ws d))" "w_addr w = working_window (ws d)" using True inv by (auto simp: windows_inv_def)
  have p: "window_ptr (ws d) (working_window (ws d)) = Some w"
    using find_keyed [of w_addr "win_list (ws d)" w] inv w by (simp add: window_ptr_def windows_inv_def)
  obtain d1 where d1: "send_event d w (keyboard_event kb1 s) = Some d1" "kernel_live (kn d1)" using send_event_returns [OF l] by blast
  obtain evs where e: "ws d1 = (ws d)\<lparr>win_list := map (\<lambda>v. if w_addr v = w_addr w then v\<lparr>events := evs\<rparr> else v) (win_list (ws d))\<rparr>"
    using send_event_ws [OF d1(1)] by blast
  have m: "map w_id (win_list (ws d1)) = map w_id (win_list (ws d))" "map w_addr (win_list (ws d1)) = map w_addr (win_list (ws d))"
    unfolding e by simp_all
  then have "w_addr ` set (win_list (ws d1)) = w_addr ` set (win_list (ws d))" by (metis list.set_map)
  then have "windows_inv (ws d1)" using inv m by (simp add: windows_inv_def) (simp add: e)
  then show ?thesis using True k p d1 inv l by (simp add: keyboard_handler_def winsys_get_working_window_def)
qed

lemma press_keys_returns:
  "windows_inv (ws d) \<Longrightarrow> kernel_live (kn d) \<Longrightarrow> \<exists>kb' d'. press_keys ss kb d = Some (kb', d')"
proof (induction ss arbitrary: kb d)
  case (Cons s ss)
  obtain kb1 d1 where 1: "keyboard_handler 1 s kb d = Some (kb1, d1)" "windows_inv (ws d1)" "kernel_live (kn d1)"
    using handler_returns [OF Cons.prems, of 1 s kb] by auto
  then show ?case using Cons.IH [OF 1(2,3), of kb1] by simp
qed simp

text \<open>
  The shift keys share one flag: releasing one of them clears it while the other is still down.
\<close>

lemma other_shift_forgotten:
  "press_keys [LSHIFT_PRESS, RSHIFT_PRESS, RSHIFT_REL] kb d = Some (kb', d') \<Longrightarrow> check_shift kb' = 0"
  using press_keys_flags [of "[LSHIFT_PRESS, RSHIFT_PRESS, RSHIFT_REL]" kb d kb' d'] by (auto simp: held_def)

section \<open>Properties\<close>

definition plain_keyboard :: keyboard where
  "plain_keyboard = \<lparr>kstatus = 0, taking_input = False, taking_char = False, input_buffer = [], char_buffer = [],
     buffer_index = 0, buffer_limit = 0\<rparr>"

definition key_window :: window where
  "key_window = (low_window 1 0 40)\<lparr>event_mask := GENERAL_EVENT_KBD\<rparr>"

definition key_desktop :: "nat desktop" where
  "key_desktop = (let d = sample_desktop [key_window] (w_addr key_window) in d\<lparr>kn := (kn d)\<lparr>ready := []\<rparr>\<rparr>)"

lemma key_desktop_ok:
  "windows_inv (ws key_desktop)" "kernel_live (kn key_desktop)" "win_list (ws key_desktop) = [key_window]"
  "working_window (ws key_desktop) = w_addr key_window" "w_addr key_window \<noteq> 0"
  "handler_ok (events key_window)" "pending (events key_window) = []" "flag (event_mask key_window) GENERAL_EVENT_KBD"
  by (simp_all add: key_desktop_def Let_def sample_desktop_def sample_kernel_def winsys_init_def winsys_boot_def windows_inv_def
      kernel_live_def processes_ok_def key_window_def low_window_def sample_window_def empty_events_def handler_ok_def
      pending_def is_invalid_def flag_def)

text \<open>
  C39: the keyboard interrupt always returns, and after any run of scancodes the flags for shift,
  control and alt are set exactly if the last code of their keys was a press, and caps lock is on
  exactly if its key was released an odd number of times since it was off.
\<close>

theorem modifier_flags_track_keys:
  assumes "windows_inv (ws d)" and "kernel_live (kn d)"
  shows "\<exists>kb' d'. press_keys ss kb d = Some (kb', d') \<and>
     (check_shift kb' \<noteq> 0 \<longleftrightarrow> held [LSHIFT_PRESS, RSHIFT_PRESS] [LSHIFT_REL, RSHIFT_REL] ss (check_shift kb \<noteq> 0)) \<and>
     (check_ctrl kb' \<noteq> 0 \<longleftrightarrow> held [CTRL_PRESS] [CTRL_REL] ss (check_ctrl kb \<noteq> 0)) \<and>
     (check_alt kb' \<noteq> 0 \<longleftrightarrow> held [ALT_PRESS] [ALT_REL] ss (check_alt kb \<noteq> 0)) \<and>
     (check_caps kb' \<noteq> 0 \<longleftrightarrow> (check_caps kb \<noteq> 0) \<noteq> odd (count_list ss CAPS_REL))"
  using press_keys_returns [OF assms, of ss kb] press_keys_flags [of ss kb d] by blast

theorem modifier_flags_track_keys_witness:
  "\<exists>kb' d'. press_keys [LSHIFT_PRESS, CAPS_PRESS, 30, CAPS_REL, LSHIFT_REL, ALT_PRESS] plain_keyboard key_desktop = Some (kb', d') \<and>
     check_shift kb' = 0 \<and> check_ctrl kb' = 0 \<and> check_alt kb' \<noteq> 0 \<and> check_caps kb' \<noteq> 0"
  using modifier_flags_track_keys [OF key_desktop_ok(1,2), of "[LSHIFT_PRESS, CAPS_PRESS, 30, CAPS_REL, LSHIFT_REL, ALT_PRESS]" plain_keyboard]
  by (auto simp: held_def plain_keyboard_def check_shift_def check_ctrl_def check_alt_def check_caps_def)

text \<open>
  C38: a key that is no modifier is delivered: the interrupt returns, and the queue of the working
  window, when it asks for keys and has room, holds the events it had and behind them one event
  with the key, the flags and whether it was pressed or released.
\<close>

theorem key_event_delivered:
  assumes "windows_inv (ws d)" and "kernel_live (kn d)"
    and "w \<in> set (win_list (ws d))" and "w_addr w = working_window (ws d)" and "working_window (ws d) \<noteq> 0"
    and "flag (event_mask w) GENERAL_EVENT_KBD"
    and "handler_ok (events w)" and "length (pending (events w)) < EVENT_HANDLER_QUEUE_SIZE"
    and "modifier_key kb s = (False, kb1)"
  shows "\<exists>d' w'. keyboard_handler 1 s kb d = Some (kb1, d') \<and> winsys_get_window_by_id (ws d') (w_id w) = Some w' \<and>
    handler_ok (events w') \<and> pending (events w') = pending (events w) @ [keyboard_event kb1 s]"
proof -
  obtain kb' d' where r: "keyboard_handler 1 s kb d = Some (kb', d')" using handler_returns [OF assms(1,2)] by blast
  then have "kb' = kb1" using handler_flags [OF r] assms(9) by simp
  then show ?thesis using r event_reaches_window [OF assms(1,3-9) r] by blast
qed

theorem key_event_delivered_witness:
  "\<exists>d' w'. keyboard_handler 1 30 (plain_keyboard\<lparr>kstatus := 4\<rparr>) key_desktop = Some (plain_keyboard\<lparr>kstatus := 4\<rparr>, d') \<and>
    winsys_get_window_by_id (ws d') 1 = Some w' \<and> pending (events w') = [\<lparr>event_type = EVENT_KBD_PRESS, event_data = 0x21E\<rparr>]"
proof -
  let ?kb = "plain_keyboard\<lparr>kstatus := 4\<rparr>"
  have m: "modifier_key ?kb 30 = (False, ?kb)" by (simp add: modifier_key_def flag_def)
  have e: "keyboard_event ?kb 30 = \<lparr>event_type = EVENT_KBD_PRESS, event_data = 0x21E\<rparr>"
    by (simp add: keyboard_event_def check_caps_def check_shift_def check_alt_def flag_def Let_def)
  have i: "w_id key_window = 1" by (simp add: key_window_def low_window_def sample_window_def)
  have w: "key_window \<in> set (win_list (ws key_desktop))" "w_addr key_window = working_window (ws key_desktop)"
    "working_window (ws key_desktop) \<noteq> 0" "length (pending (events key_window)) < EVENT_HANDLER_QUEUE_SIZE"
    using key_desktop_ok by simp_all
  from key_event_delivered [OF key_desktop_ok(1,2) w(1-3) key_desktop_ok(8,6) w(4) m] show ?thesis
    unfolding e i key_desktop_ok(7) by auto
qed

end
