(* ===== verification/Editor.thy ===== *)
theory Editor
  imports Tedit Keyboard
begin

text \<open>
  The loop of the text editor, \<^verbatim>\<open>_main\<close> of \<^verbatim>\<open>root/bin/tedit.c\<close>: the keyboard events that its window
  gets move the cursor and edit the document, until Escape ends it and the document is written
  back.  The events are a list, in the order in which the window's queue delivers them; what is
  drawn after every change is not modelled.
\<close>

section \<open>The loop\<close>

definition tedit_kbdus :: "u8 list" where
  "tedit_kbdus =
     [0, 27, 49, 50, 51, 52, 53, 54, 55, 56, 57, 48, 45, 61, 8, 9, 113, 119, 101, 114, 116, 121, 117, 105,
     111, 112, 91, 93, 10, 0, 97, 115, 100, 102, 103, 104, 106, 107, 108, 59, 39, 96, 0, 92, 122, 120, 99,
     118, 98, 110, 109, 44, 46, 47, 0, 42, 0, 32, 0, 0, 0, 0, 0, 0, 0, 0, 0, 0, 0, 0, 0, 0, 0, 0, 45, 0, 0, 0,
     43] @ replicate 49 0"

definition tedit_kbdus_shift :: "u8 list" where
  "tedit_kbdus_shift =
     [0, 27, 33, 64, 35, 36, 37, 94, 38, 42, 40, 41, 95, 43, 8, 9, 81, 87, 69, 82, 84, 89, 85, 73, 79, 80,
     123, 125, 10, 0, 65, 83, 68, 70, 71, 72, 74, 75, 76, 58, 34, 126, 0, 124, 90, 88, 67, 86, 66, 78, 77, 60,
     62, 63, 0, 42, 0, 32, 0, 0, 0, 0, 0, 0, 0, 0, 0, 0, 0, 0, 0, 0, 0, 0, 45, 0, 0, 0, 43] @ replicate 49 0"

record editor =
  edoc :: document
  ecursor :: cursor
  insert_mode :: bool
  top_line :: nat
  left_col :: nat

definition move_key :: "(document \<Rightarrow> cursor \<Rightarrow> (bool \<times> cursor) option) \<Rightarrow> editor \<Rightarrow> (bool \<times> editor) option" where
  "move_key step ed = do { (action, cu) \<leftarrow> step (edoc ed) (ecursor ed); Some (action, ed\<lparr>ecursor := cu\<rparr>) }"

definition char_key :: "u8 \<Rightarrow> editor \<Rightarrow> (bool \<times> editor) option" where
  "char_key c ed = do {
     (action, doc, cu) \<leftarrow> type_key (insert_mode ed) (edoc ed) (ecursor ed) c;
     Some (action, ed\<lparr>edoc := doc, ecursor := cu\<rparr>) }"

definition fit_screen :: "editor \<Rightarrow> editor" where
  "fit_screen ed = (
     let (t, l) = fit_screen_to_cursor (cursor_line (ecursor ed)) (cursor_col (ecursor ed)) (top_line ed) (left_col ed)
     in ed\<lparr>top_line := t, left_col := l\<rparr>)"

abbreviation K_ESCAPE :: nat where "K_ESCAPE \<equiv> 1"
abbreviation K_UP :: nat where "K_UP \<equiv> 72"
abbreviation K_LEFT :: nat where "K_LEFT \<equiv> 75"
abbreviation K_RIGHT :: nat where "K_RIGHT \<equiv> 77"
abbreviation K_DOWN :: nat where "K_DOWN \<equiv> 80"

text \<open>One event; the first result says whether the loop ends.\<close>

definition tedit_event :: "event \<Rightarrow> editor \<Rightarrow> (bool \<times> editor) option" where
  "tedit_event e ed =
     (if event_type e \<noteq> EVENT_KBD_PRESS then Some (False, ed)
      else do {
        let scancode = unat (event_data e AND 0xFF);
        kbd_ascii \<leftarrow> aget (if flag (event_data e) 0x200 \<or> flag (event_data e) 0x100 then tedit_kbdus_shift else tedit_kbdus) scancode;
        if flag (event_data e) 0x400 then
          Some (False, if kbd_ascii = 105 then ed\<lparr>insert_mode := \<not> insert_mode ed\<rparr> else ed)
        else if scancode = K_ESCAPE then Some (True, ed)
        else do {
          (action, ed) \<leftarrow>
            (if scancode = K_LEFT then move_key advance_cursor_left ed
             else if scancode = K_RIGHT then move_key advance_cursor_right ed
             else if scancode = K_UP then move_key advance_cursor_up ed
             else if scancode = K_DOWN then move_key advance_cursor_down ed
             else if kbd_ascii \<noteq> 0 then char_key kbd_ascii ed
             else Some (False, ed));
          Some (False, if action then fit_screen ed else ed) } })"

text \<open>Without a further event the loop waits: there is no result.\<close>

fun tedit_loop :: "event list \<Rightarrow> editor \<Rightarrow> editor option" where
  "tedit_loop [] ed = None"
| "tedit_loop (e # es) ed = do { (stop, ed) \<leftarrow> tedit_event e ed; if stop then Some ed else tedit_loop es ed }"

definition tedit_main :: "u8 list \<Rightarrow> event list \<Rightarrow> u8 list option" where
  "tedit_main bytes es = do {
     doc \<leftarrow> load_file bytes;
     ed \<leftarrow> tedit_loop es \<lparr>edoc = doc, ecursor = \<lparr>cur_line = 0, cur_region = 0, cursor_line = 0, cursor_col = 0\<rparr>,
        insert_mode = False, top_line = 0, left_col = 0\<rparr>;
     Some (concat (write_file (edoc ed))) }"

lemma tedit_tables: "tedit_kbdus = kbdus" "tedit_kbdus_shift = kbdus_shift"
  by (simp_all add: tedit_kbdus_def kbdus_def tedit_kbdus_shift_def kbdus_shift_def)

section \<open>Typing a character\<close>

lemma chain_byte:
  assumes c: "chain n p rs" and t: "t \<le> n" and k: "k < rpos (rs ! t)"
  shows "rbuf (rs ! t) ! k = ltext rs ! (128 * t + k)"
proof -
  have sh: "shape rs (replicate n 128 @ [p])" using c by (simp add: chain_def)
  have rp: "rpos (rs ! t) = (if t = n then p else 128)" by (rule chain_at(5) [OF c t])
  have k2: "k < 128" "128 * t + k < 128 * n + p" using k rp t c by (auto simp: chain_def split: if_splits)
  have l: "\<forall>x \<in> set (map rbuf rs). length x = 128" using sh by (simp add: shape_def)
  have "t < length (map rbuf rs)" using chain_length [OF c] t by simp
  from concat_row_nth [OF l this k2(1)] have "flat rs ! (128 * t + k) = rbuf (rs ! t) ! k"
    using \<open>t < length (map rbuf rs)\<close> by (simp add: flat_def)
  then show ?thesis using chain_text [OF c] k2(2) by simp
qed

lemma type_char:
  assumes d: "doc_ok doc" and at: "cursor_at doc i (cc div 128) cc" and c: "c \<noteq> BS" "c \<noteq> LF"
    and room: "cc < length (abs_doc doc ! i) \<or> (cc + 1) mod 128 \<noteq> 0"
    and cu: "cur_line cu = i" "cur_region cu = cc div 128" "cursor_col cu = cc"
  shows "\<exists>doc'. type_key False doc cu c = Some (True, doc', cu\<lparr>cur_region := (cc + 1) div 128, cursor_col := cc + 1\<rparr>) \<and>
    doc_ok doc' \<and> cursor_at doc' i ((cc + 1) div 128) (cc + 1) \<and>
    abs_doc doc' = (abs_doc doc)[i := take cc (abs_doc doc ! i) @ [c] @ drop cc (abs_doc doc ! i)]"
proof -
  let ?t = "cc div 128" and ?k = "cc mod 128"
  have i: "i < length doc" and t: "?t < length (regs (doc ! i))" "cc \<le> length (ltext (regs (doc ! i)))"
    using at by (simp_all add: cursor_at_def)
  have ai: "abs_doc doc ! i = ltext (regs (doc ! i))" using i by (simp add: abs_doc_def)
  obtain n p where ch: "chain n p (regs (doc ! i))" by (rule doc_line [OF d i])
  have tn: "?t \<le> n" "cc \<le> 128 * n + p" using t chain_length [OF ch] chain_text_length [OF ch] by simp_all
  from append_char_text [OF ch tn(2) refl tn(1), of c] obtain n' p' rs where r:
    "append_char (regs (doc ! i)) ?t cc c = Some rs" "chain n' p' rs"
    "ltext rs = take cc (abs_doc doc ! i) @ [c] @ drop cc (abs_doc doc ! i)" using ai by auto
  have len: "128 * n' + p' = length (abs_doc doc ! i) + 1" "p' \<le> 128"
    using chain_text_length [OF r(2)] r(3) t(2) ai r(2) by (simp_all add: chain_def)
  have cc: "cc = 128 * ?t + ?k" "?k < 128" by simp_all
  have ca: "cc \<le> length (abs_doc doc ! i)" using t(2) ai by simp
  then have tn': "?t \<le> n'" using len cc by linarith
  have tl: "?t < length rs" using chain_length [OF r(2)] tn' by simp
  have rp: "rpos (rs ! ?t) = (if ?t = n' then p' else 128)" by (rule chain_at(5) [OF r(2) tn'])
  have k: "?k < rpos (rs ! ?t)" "rpos (rs ! ?t) \<le> 128"
  proof -
    have "?k < p'" if "?t = n'" using that len ca cc by linarith
    then show "?k < rpos (rs ! ?t)" "rpos (rs ! ?t) \<le> 128" using rp len(2) cc(2) by simp_all
  qed
  have b: "rbuf (rs ! ?t) ! ?k = c"
    using chain_byte [OF r(2) tn' k(1)] r(3) ca by (simp add: nth_append)
  define doc' where "doc' = doc[i := (doc ! i)\<lparr>regs := rs\<rparr>]"
  have a: "append_at_position doc i ?t cc c = Some (True, doc')"
    using c r(1) i by (simp add: append_at_position_def doc'_def)
  have lb: "length (rbuf (rs ! ?t)) = 128" by (rule chain_at(4) [OF r(2) tn'])
  have e: "at_line_end (rs ! ?t) cc 1 = Some False"
  proof -
    have "wsub (rpos (rs ! ?t)) 1 = rpos (rs ! ?t) - 1" using k by (intro wsub_le) simp_all
    then show ?thesis using k b c(2) lb by (auto simp: at_line_end_def before_newline_def behind_text_def)
  qed
  have next_t: "(if (cc + 1) mod 128 = 0 then ?t + 1 else ?t) = (cc + 1) div 128" by (simp add: div_Suc)
  have "advance_cursor_right doc' cu = Some (True, cu\<lparr>cur_region := (cc + 1) div 128, cursor_col := cc + 1\<rparr>)"
    unfolding next_t [symmetric] using i tl e cu by (cases cu) (simp add: advance_cursor_right_def doc'_def)
  then have "type_key False doc cu c = Some (True, doc', cu\<lparr>cur_region := (cc + 1) div 128, cursor_col := cc + 1\<rparr>)"
    using a c cu by (simp add: type_key_def)
  moreover have "doc_ok doc'" unfolding doc'_def by (rule doc_ok_update [OF d i r(2)])
  moreover have "abs_doc doc' = (abs_doc doc)[i := take cc (abs_doc doc ! i) @ [c] @ drop cc (abs_doc doc ! i)]"
    using abs_update [OF i, of rs] r(3) by (simp add: doc'_def)
  moreover have "cursor_at doc' i ((cc + 1) div 128) (cc + 1)"
  proof -
    have "(cc + 1) div 128 \<le> n'"
    proof (cases "(cc + 1) mod 128 = 0")
      case True
      then have "128 * ((cc + 1) div 128) = cc + 1" by (metis add.right_neutral mult_div_mod_eq)
      moreover have "cc + 1 < 128 * n' + p'" using room True len(1) by simp
      ultimately show ?thesis using len(2) by linarith
    next
      case False
      then show ?thesis using next_t tn' by simp
    qed
    then show ?thesis using i len(1) ca chain_length [OF r(2)] chain_text_length [OF r(2)]
      by (simp add: cursor_at_def doc'_def)
  qed
  ultimately show ?thesis by blast
qed

section \<open>Typing a text\<close>

text \<open>An event that stands for a character, and an editor whose cursor is at a place of a line.\<close>

definition types :: "event \<Rightarrow> u8 \<Rightarrow> bool" where
  "types e c \<longleftrightarrow> event_type e = EVENT_KBD_PRESS \<and> \<not> flag (event_data e) 0x400 \<and>
     unat (event_data e AND 0xFF) \<notin> {K_ESCAPE, K_UP, K_LEFT, K_RIGHT, K_DOWN} \<and>
     aget (if flag (event_data e) 0x200 \<or> flag (event_data e) 0x100 then kbdus_shift else kbdus) (unat (event_data e AND 0xFF)) = Some c \<and>
     c \<notin> {0, BS, LF}"

definition editing :: "editor \<Rightarrow> nat \<Rightarrow> nat \<Rightarrow> bool" where
  "editing ed i cc \<longleftrightarrow> \<not> insert_mode ed \<and> doc_ok (edoc ed) \<and> cursor_at (edoc ed) i (cc div 128) cc \<and>
     cur_line (ecursor ed) = i \<and> cur_region (ecursor ed) = cc div 128 \<and> cursor_col (ecursor ed) = cc"

lemma fit_screen_keeps: "edoc (fit_screen ed) = edoc ed" "ecursor (fit_screen ed) = ecursor ed" "insert_mode (fit_screen ed) = insert_mode ed"
  by (simp_all add: fit_screen_def split: prod.splits)

lemma type_event:
  assumes ed: "editing ed i cc" and e: "types e c" and room: "cc < length (abs_doc (edoc ed) ! i) \<or> (cc + 1) mod 128 \<noteq> 0"
  shows "\<exists>ed'. tedit_event e ed = Some (False, ed') \<and> editing ed' i (cc + 1) \<and>
    abs_doc (edoc ed') = (abs_doc (edoc ed))[i := take cc (abs_doc (edoc ed) ! i) @ [c] @ drop cc (abs_doc (edoc ed) ! i)]"
proof -
  let ?cu = "ecursor ed"
  have c: "c \<noteq> BS" "c \<noteq> LF" "c \<noteq> 0" using e by (simp_all add: types_def)
  have d: "doc_ok (edoc ed)" and at: "cursor_at (edoc ed) i (cc div 128) cc"
    and cu: "cur_line ?cu = i" "cur_region ?cu = cc div 128" "cursor_col ?cu = cc" and m: "\<not> insert_mode ed"
    using ed by (simp_all add: editing_def)
  from type_char [OF d at c(1,2) room cu] obtain doc' where t:
    "type_key False (edoc ed) ?cu c = Some (True, doc', ?cu\<lparr>cur_region := (cc + 1) div 128, cursor_col := cc + 1\<rparr>)"
    "doc_ok doc'" "cursor_at doc' i ((cc + 1) div 128) (cc + 1)"
    "abs_doc doc' = (abs_doc (edoc ed))[i := take cc (abs_doc (edoc ed) ! i) @ [c] @ drop cc (abs_doc (edoc ed) ! i)]" by blast
  define ed1 where "ed1 = ed\<lparr>edoc := doc', ecursor := ?cu\<lparr>cur_region := (cc + 1) div 128, cursor_col := cc + 1\<rparr>\<rparr>"
  have k: "char_key c ed = Some (True, ed1)" using t(1) m by (simp add: char_key_def ed1_def)
  have "tedit_event e ed = Some (False, fit_screen ed1)"
    using e k c(3) unfolding types_def tedit_event_def tedit_tables Let_def by (simp cong: if_cong)
  moreover have "editing (fit_screen ed1) i (cc + 1)"
    using t(2,3) cu m by (simp add: editing_def fit_screen_keeps ed1_def)
  moreover have "edoc (fit_screen ed1) = doc'" by (simp add: fit_screen_keeps ed1_def)
  ultimately show ?thesis using t(4) by metis
qed

lemma type_events:
  "editing ed i cc \<Longrightarrow> list_all2 types es cs \<Longrightarrow>
    cc < length (abs_doc (edoc ed) ! i) \<or> cc mod 128 + length cs < 128 \<Longrightarrow>
    \<exists>ed'. tedit_loop (es @ es') ed = tedit_loop es' ed' \<and> editing ed' i (cc + length cs) \<and>
      abs_doc (edoc ed') = (abs_doc (edoc ed))[i := take cc (abs_doc (edoc ed) ! i) @ cs @ drop cc (abs_doc (edoc ed) ! i)]"
proof (induction es arbitrary: ed cc cs)
  case Nil
  have "i < length (abs_doc (edoc ed))" using Nil.prems(1) by (simp add: editing_def cursor_at_def abs_doc_def)
  then show ?case using Nil by auto
next
  case (Cons e es)
  then obtain c cs' where cs: "cs = c # cs'" "types e c" "list_all2 types es cs'" by (cases cs) auto
  let ?L = "abs_doc (edoc ed) ! i"
  have i: "i < length (abs_doc (edoc ed))" "cc \<le> length ?L"
    using Cons.prems(1) by (simp_all add: editing_def cursor_at_def abs_doc_def)
  have "cc < length ?L \<or> (cc + 1) mod 128 \<noteq> 0" using Cons.prems(3) cs(1) by (auto simp: mod_Suc)
  from type_event [OF Cons.prems(1) cs(2) this] obtain ed1 where 1: "tedit_event e ed = Some (False, ed1)" "editing ed1 i (cc + 1)"
    "abs_doc (edoc ed1) = (abs_doc (edoc ed))[i := take cc ?L @ [c] @ drop cc ?L]" by blast
  have l: "abs_doc (edoc ed1) ! i = take cc ?L @ [c] @ drop cc ?L" using 1(3) i(1) by simp
  have "cc + 1 < length (abs_doc (edoc ed1) ! i) \<or> (cc + 1) mod 128 + length cs' < 128"
    using Cons.prems(3) cs(1) i(2) unfolding l by (auto simp: mod_Suc)
  from Cons.IH [OF 1(2) cs(3) this] obtain ed' where 2: "tedit_loop (es @ es') ed1 = tedit_loop es' ed'"
    "editing ed' i (cc + 1 + length cs')"
    "abs_doc (edoc ed') = (abs_doc (edoc ed1))[i := take (cc + 1) (abs_doc (edoc ed1) ! i) @ cs' @ drop (cc + 1) (abs_doc (edoc ed1) ! i)]" by blast
  have "abs_doc (edoc ed') = (abs_doc (edoc ed))[i := take cc ?L @ cs @ drop cc ?L]"
    unfolding 2(3) l unfolding 1(3) using i(2) cs(1) by simp
  then show ?case using 1(1) 2(1,2) cs(1) by (intro exI [of _ ed']) simp
qed

section \<open>From the keys to the file\<close>

lemma take_bit_below: "unat w < 2 ^ n \<Longrightarrow> take_bit n (w :: 'a::len word) = w"
  by (rule word_unat_eq_iff [THEN iffD2]) (simp add: unsigned_take_bit_eq take_bit_nat_eq_self)

lemma below_128:
  fixes s :: u8
  assumes "s < 128"
  shows "\<not> flag s 0x80" and "(ucast s :: u32) AND 0x7F = ucast s"
proof -
  have u: "unat s < 2 ^ 7" using assms by (simp add: word_less_nat_alt)
  then have t: "take_bit 7 s = s" by (rule take_bit_below)
  have "\<not> bit (take_bit 7 s) 7" by (simp add: bit_take_bit_iff)
  then have "\<not> bit s 7" unfolding t .
  then show "\<not> flag s 0x80" using flag_bit [of s 7] by simp
  have "take_bit 7 (ucast s :: u32) = ucast s" using u by (intro take_bit_below) (simp add: unat_ucast_u8)
  moreover have "mask 7 = (0x7F :: u32)" by (simp add: mask_eq_exp_minus_1)
  ultimately show "(ucast s :: u32) AND 0x7F = ucast s" by (simp add: take_bit_eq_mask)
qed

lemma low_byte_data:
  assumes "s < 128"
  shows "unat (event_data (keyboard_event kb s) AND 0xFF) = unat s"
    and "flag (event_data (keyboard_event kb s)) 0x100 \<longleftrightarrow> check_caps kb \<noteq> 0"
    and "flag (event_data (keyboard_event kb s)) 0x200 \<longleftrightarrow> check_shift kb \<noteq> 0"
    and "flag (event_data (keyboard_event kb s)) 0x400 \<longleftrightarrow> check_alt kb \<noteq> 0"
proof -
  have d: "event_data (keyboard_event kb s) = ucast s AND 0x7F OR (if check_caps kb \<noteq> 0 then 0x100 else 0) OR
      (if check_shift kb \<noteq> 0 then 0x200 else 0) OR (if check_alt kb \<noteq> 0 then 0x400 else 0)"
    by (simp add: keyboard_event_def Let_def or.assoc)
  have z: "\<not> flag ((ucast s :: u32) AND 0x7F) 0x100" "\<not> flag ((ucast s :: u32) AND 0x7F) 0x200" "\<not> flag ((ucast s :: u32) AND 0x7F) 0x400"
    by (simp_all add: flag_def and.assoc)
  show "flag (event_data (keyboard_event kb s)) 0x100 \<longleftrightarrow> check_caps kb \<noteq> 0"
    "flag (event_data (keyboard_event kb s)) 0x200 \<longleftrightarrow> check_shift kb \<noteq> 0"
    "flag (event_data (keyboard_event kb s)) 0x400 \<longleftrightarrow> check_alt kb \<noteq> 0"
    unfolding d flag_or using z by (simp_all add: flag_def)
  have "(ucast s AND 0x7F OR a OR b OR c) AND 0xFF = (ucast s :: u32)"
    if "a AND 0xFF = 0" "b AND 0xFF = 0" "c AND 0xFF = 0" for a b c
  proof -
    have "(ucast s AND 0x7F OR a OR b OR c) AND 0xFF = (ucast s AND 0x7F) AND (0xFF :: u32)"
      unfolding bit.conj_disj_distrib2 that by simp
    also have "\<dots> = ucast s AND 0x7F" by (simp add: and.assoc)
    finally show ?thesis using below_128(2) [OF assms] by simp
  qed
  then have "event_data (keyboard_event kb s) AND 0xFF = ucast s" unfolding d by simp
  then show "unat (event_data (keyboard_event kb s) AND 0xFF) = unat s" by (simp add: unat_ucast_u8)
qed

lemma kbdus_length: "length kbdus = 128" "length kbdus_shift = 128"
  by (simp_all add: kbdus_def kbdus_shift_def)

definition table_of :: "keyboard \<Rightarrow> u8 list" where
  "table_of kb = (if check_shift kb \<noteq> 0 \<or> check_caps kb \<noteq> 0 then kbdus_shift else kbdus)"

lemma key_types:
  assumes "s < 128" and "unat s \<notin> {K_ESCAPE, K_UP, K_LEFT, K_RIGHT, K_DOWN}" and "check_alt kb = 0"
    and "table_of kb ! unat s \<notin> {0, BS, LF}"
  shows "types (keyboard_event kb s) (table_of kb ! unat s)"
proof -
  have "event_type (keyboard_event kb s) = EVENT_KBD_PRESS" using below_128(1) [OF assms(1)] by (simp add: keyboard_event_def Let_def)
  moreover have "unat s < 128" using assms(1) by (simp add: word_less_nat_alt)
  ultimately show ?thesis using assms(2-4) low_byte_data [OF assms(1), of kb]
    by (auto simp: types_def table_of_def kbdus_length)
qed

lemma typed_text:
  assumes "check_alt kb = 0" and k: "\<forall>s \<in> set ss. s < 128 \<and> unat s \<notin> {K_ESCAPE, K_UP, K_LEFT, K_RIGHT, K_DOWN} \<and> table_of kb ! unat s \<notin> {0, BS, LF}"
    and r: "bytes \<noteq> [] \<or> length ss < 128"
  shows "tedit_main bytes (map (keyboard_event kb) (ss @ [1])) = Some (map (\<lambda>s. table_of kb ! unat s) ss @ bytes)"
proof -
  let ?cs = "map (\<lambda>s. table_of kb ! unat s) ss"
  obtain doc where d: "load_file bytes = Some doc" "doc_ok doc" "abs_doc doc = lines_of bytes" using load_file_lines [of bytes] by blast
  define ed where "ed = \<lparr>edoc = doc, ecursor = \<lparr>cur_line = 0, cur_region = 0, cursor_line = 0, cursor_col = 0\<rparr>,
        insert_mode = False, top_line = 0, left_col = 0\<rparr>"
  have ne: "doc \<noteq> []" using d(2) by (simp add: doc_ok_def)
  obtain n p where c: "chain n p (regs (doc ! 0))" using doc_line [OF d(2), of 0] ne by auto
  have ed0: "editing ed 0 0"
    using d(2) ne chain_length [OF c] by (simp add: editing_def ed_def cursor_at_def)
  have a: "abs_doc (edoc ed) = lines_of bytes" using d(3) by (simp add: ed_def)
  have "0 < length (lines_of bytes ! 0) \<or> length ?cs < 128" using r by (cases bytes) auto
  moreover have "list_all2 types (map (keyboard_event kb) ss) ?cs"
    using k assms(1) by (auto simp: list_all2_map1 list_all2_map2 list.rel_refl_strong key_types)
  ultimately obtain ed' where t: "tedit_loop (map (keyboard_event kb) ss @ [keyboard_event kb 1]) ed = tedit_loop [keyboard_event kb 1] ed'"
    "abs_doc (edoc ed') = (lines_of bytes)[0 := ?cs @ lines_of bytes ! 0]"
    using type_events [OF ed0, of "map (keyboard_event kb) ss" ?cs "[keyboard_event kb 1]"] a by auto
  have "event_type (keyboard_event kb 1) = EVENT_KBD_PRESS" by (simp add: keyboard_event_def flag_def)
  then have "tedit_loop [keyboard_event kb 1] ed' = Some ed'"
    using low_byte_data [of 1 kb] assms(1) by (simp add: tedit_event_def tedit_tables kbdus_length)
  then have "tedit_main bytes (map (keyboard_event kb) (ss @ [1])) = Some (concat (write_file (edoc ed')))"
    using d(1) t(1) by (simp add: tedit_main_def ed_def)
  moreover have "concat (write_file doc) = concat (abs_doc doc)" for doc
    by (induction doc) (simp_all add: abs_doc_def ltext_def)
  moreover have "concat ((lines_of bytes)[0 := ?cs @ lines_of bytes ! 0]) = ?cs @ bytes"
    using concat_lines_of [of bytes] by (cases "lines_of bytes") auto
  ultimately show ?thesis using t(2) by simp
qed

text \<open>
  Enter breaks the line, but the cursor stays on the old one: it steps on its carriage return and
  stands before the line feed, where the next character is inserted.
\<close>

lemma enter_stays_on_line:
  assumes d: "doc_ok doc" and c: "chain 0 p (regs (doc ! i))" and i: "i < length doc" and cc: "cc \<le> p" "cc < 126"
    and cu: "cur_line cu = i" "cur_region cu = 0" "cursor_col cu = cc"
  shows "\<exists>doc'. type_key False doc cu LF = Some (True, doc', cu\<lparr>cursor_col := cc + 1\<rparr>) \<and>
    abs_doc doc' ! i = take cc (abs_doc doc ! i) @ [CR, LF]"
proof -
  have m: "cc mod 128 = cc" "cc div 128 = 0" using cc by simp_all
  have "\<exists>doc'. split_line doc i 0 cc = Some doc' \<and> doc_ok doc' \<and>
    abs_doc doc' = take i (abs_doc doc) @ [take cc (abs_doc doc ! i) @ [CR, LF], drop cc (abs_doc doc ! i)] @ drop (i + 1) (abs_doc doc)"
    using split_doc [OF d i, of 0 0 cc p] c cc m by simp
  then obtain doc' where s: "split_line doc i 0 cc = Some doc'" "doc_ok doc'"
    "abs_doc doc' = take i (abs_doc doc) @ [take cc (abs_doc doc ! i) @ [CR, LF], drop cc (abs_doc doc ! i)] @ drop (i + 1) (abs_doc doc)" by blast
  have "length (abs_doc doc') = length (abs_doc doc) + 1" unfolding s(3) using i by (simp add: abs_doc_def)
  then have l2: "i < length doc'" using i by (simp add: abs_doc_def)
  have l1: "abs_doc doc' ! i = take cc (abs_doc doc ! i) @ [CR, LF]" unfolding s(3) using i by (simp add: nth_append abs_doc_def)
  obtain n q where ch: "chain n q (regs (doc' ! i))" by (rule doc_line [OF s(2) l2])
  have lt: "length (abs_doc doc ! i) = p" using chain_text_length [OF c] i by (simp add: abs_doc_def)
  have len: "128 * n + q = cc + 2" using chain_text_length [OF ch] l1 l2 lt cc by (simp add: abs_doc_def)
  then have "n < 1" using cc by linarith
  with len have nq: "n = 0" "q = cc + 2" by simp_all
  have r: "0 < length (regs (doc' ! i))" "rpos (regs (doc' ! i) ! 0) = cc + 2"
    using chain_length [OF ch] chain_at(5) [OF ch, of 0] nq by simp_all
  have e: "at_line_end (regs (doc' ! i) ! 0) cc 1 = Some False"
    using r m cc by (simp add: at_line_end_def before_newline_def behind_text_def)
  have "append_at_position doc i 0 cc LF = Some (True, doc')" using s(1) by (simp add: append_at_position_def)
  then have "type_key False doc cu LF = Some (True, doc', cu\<lparr>cursor_col := cc + 1\<rparr>)"
    using cu l2 r e cc by (cases cu) (simp add: type_key_def advance_cursor_right_def)
  then show ?thesis using l1 by blast
qed

section \<open>Properties\<close>

text \<open>
  C37: pressing the keys of a text in the editor and then Escape saves the text in front of the
  file's bytes: with any state of shift and caps lock but without alt, for keys that stand for
  characters other than backspace and line feed in the layout table of that state, the events that
  the keyboard driver makes of them lead to exactly these characters, and the file is otherwise
  unchanged.  In an empty file the text is shorter than a region.
\<close>

theorem typed_text_saved:
  assumes "check_alt kb = 0"
    and "\<forall>s \<in> set ss. s < 128 \<and> unat s \<notin> {K_ESCAPE, K_UP, K_LEFT, K_RIGHT, K_DOWN} \<and> table_of kb ! unat s \<notin> {0, BS, LF}"
    and "bytes \<noteq> [] \<or> length ss < 128"
  shows "tedit_main bytes (map (keyboard_event kb) (ss @ [1])) = Some (map (\<lambda>s. table_of kb ! unat s) ss @ bytes)"
  by (rule typed_text [OF assms])

theorem typed_text_saved_witness:
  "tedit_main [120, 13, 10] (map (keyboard_event (plain_keyboard\<lparr>kstatus := 4\<rparr>)) ([35, 23] @ [1])) = Some [72, 73, 120, 13, 10]"
proof -
  let ?kb = "plain_keyboard\<lparr>kstatus := 4\<rparr>"
  have s: "check_shift ?kb \<noteq> 0" "check_alt ?kb = 0" by (simp_all add: check_shift_def check_alt_def)
  then have t: "table_of ?kb ! 35 = 72" "table_of ?kb ! 23 = 73" by (simp_all add: table_of_def kbdus_shift_def)
  then show ?thesis using typed_text_saved [OF s(2), of "[35, 23]" "[120, 13, 10]"] by simp
qed

end
