(* ===== verification/Tables.thy ===== *)
theory Tables
  imports Format
begin

text \<open>
  The tables that the processor reads: segment descriptors (\<^verbatim>\<open>kernel/gdt.c\<close>, \<^verbatim>\<open>kernel/tss.c\<close>), interrupt
  gates (\<^verbatim>\<open>kernel/idt.c\<close>, \<^verbatim>\<open>kernel/isrs.c\<close>, \<^verbatim>\<open>kernel/sysapi.c\<close>) and the handlers of device interrupts
  (\<^verbatim>\<open>kernel/irq.c\<close>).  A write to a port is an entry of a list, in the order of the writes.  The
  addresses of the assembly stubs are arguments, and so is the handler that is called.
\<close>

section \<open>Segment descriptors\<close>

record gdt_descriptor =
  gdt_limit :: u16
  baseLo :: u16
  baseMid :: u8
  gdt_flags :: u8
  grand :: u8
  baseHi :: u8

abbreviation MAX_DESCRIPTORS :: u32 where "MAX_DESCRIPTORS \<equiv> 6"

type_synonym u64 = "64 word"

definition gdt_set_descriptor ::
  "gdt_descriptor list \<Rightarrow> u32 \<Rightarrow> u64 \<Rightarrow> u64 \<Rightarrow> u8 \<Rightarrow> u8 \<Rightarrow> gdt_descriptor list option" where
  "gdt_set_descriptor gdt i base limit access gr =
     (if i > MAX_DESCRIPTORS then Some gdt
      else aset gdt (unat i) \<lparr>
        gdt_limit = ucast (limit AND 0xffff),
        baseLo = ucast (base AND 0xffff),
        baseMid = ucast (drop_bit 16 base AND 0xff),
        gdt_flags = access,
        grand = ucast (drop_bit 16 limit AND 0x0f) OR (gr AND 0xf0),
        baseHi = ucast (drop_bit 24 base AND 0xff)\<rparr>)"

definition gdt_install :: "gdt_descriptor list \<Rightarrow> gdt_descriptor list option" where
  "gdt_install gdt = do {
     gdt \<leftarrow> gdt_set_descriptor gdt 0 0 0 0 0;
     gdt \<leftarrow> gdt_set_descriptor gdt 1 0 0xffffffff (0x02 OR 0x08 OR 0x10 OR 0x80) (0x80 OR 0x40 OR 0x0f);
     gdt \<leftarrow> gdt_set_descriptor gdt 2 0 0xffffffff (0x02 OR 0x10 OR 0x80) (0x80 OR 0x40 OR 0x0f);
     gdt \<leftarrow> gdt_set_descriptor gdt 3 0 0xffffffff (0x02 OR 0x08 OR 0x10 OR 0x80 OR 0x60) (0x80 OR 0x40 OR 0x0f);
     gdt_set_descriptor gdt 4 0 0xffffffff (0x02 OR 0x10 OR 0x80 OR 0x60) (0x80 OR 0x40 OR 0x0f) }"

text \<open>The fields of the task state that are not zero.\<close>

record tss =
  tss_ss0 :: u32
  tss_esp0 :: u32
  tss_cs :: u32
  tss_ss :: u32
  tss_es :: u32
  tss_ds :: u32
  tss_fs :: u32
  tss_gs :: u32

abbreviation sizeof_tss :: u32 where "sizeof_tss \<equiv> 104"

definition install_tss :: "gdt_descriptor list \<Rightarrow> u32 \<Rightarrow> u32 \<Rightarrow> u32 \<Rightarrow> u32 \<Rightarrow> (gdt_descriptor list \<times> tss) option" where
  "install_tss gdt tss_addr idx kernelSS kernelESP = do {
     let base = tss_addr;
     gdt \<leftarrow> gdt_set_descriptor gdt idx (ucast base) (ucast (base + sizeof_tss)) (0x01 OR 0x08 OR 0x60 OR 0x80) 0;
     Some (gdt, \<lparr>tss_ss0 = kernelSS, tss_esp0 = kernelESP, tss_cs = 0x0b, tss_ss = 0x13, tss_es = 0x13, tss_ds = 0x13,
       tss_fs = 0x13, tss_gs = 0x13\<rparr>) }"

definition tss_set_stack :: "tss \<Rightarrow> u32 \<Rightarrow> u32 \<Rightarrow> tss" where
  "tss_set_stack t kernelSS kernelESP = t\<lparr>tss_ss0 := kernelSS, tss_esp0 := kernelESP\<rparr>"

text \<open>What the processor takes from a descriptor.\<close>

definition segment_base :: "gdt_descriptor \<Rightarrow> u32" where
  "segment_base g = ucast (baseLo g) OR push_bit 16 (ucast (baseMid g)) OR push_bit 24 (ucast (baseHi g))"

definition segment_limit :: "gdt_descriptor \<Rightarrow> u32" where
  "segment_limit g = ucast (gdt_limit g) OR push_bit 16 (ucast (grand g AND 0x0f))"

section \<open>Interrupt gates\<close>

record idt_entry =
  isr_low :: u16
  kernel_cs :: u16
  idt_attributes :: u8
  isr_high :: u16

abbreviation IDT_MAX_DESCRIPTORS :: nat where "IDT_MAX_DESCRIPTORS \<equiv> 256"

definition idt_set_gate :: "idt_entry list \<Rightarrow> u8 \<Rightarrow> u32 \<Rightarrow> u8 \<Rightarrow> idt_entry list option" where
  "idt_set_gate idt vector isr flags = aset idt (unat vector) \<lparr>
     isr_low = ucast (isr AND 0xFFFF),
     kernel_cs = 0x08,
     idt_attributes = flags,
     isr_high = ucast (drop_bit 16 isr)\<rparr>"

text \<open>The lists of calls, one gate after the other.\<close>

fun set_gates :: "idt_entry list \<Rightarrow> nat \<Rightarrow> u32 list \<Rightarrow> idt_entry list option" where
  "set_gates idt v [] = Some idt"
| "set_gates idt v (stub # stubs) = do { idt \<leftarrow> idt_set_gate idt (of_nat v) stub 0x8E; set_gates idt (v + 1) stubs }"

definition isrs_install :: "idt_entry list \<Rightarrow> u32 list \<Rightarrow> idt_entry list option" where
  "isrs_install idt isr = set_gates idt 0 isr"

definition idt_install :: "u32 list \<Rightarrow> idt_entry list option" where
  "idt_install isr =
     isrs_install (replicate IDT_MAX_DESCRIPTORS \<lparr>isr_low = 0, kernel_cs = 0, idt_attributes = 0, isr_high = 0\<rparr>) isr"

definition install_syscalls :: "idt_entry list \<Rightarrow> u32 \<Rightarrow> idt_entry list option" where
  "install_syscalls idt syscall_stub = idt_set_gate idt 0x80 syscall_stub (0x8E OR 0x60)"

definition gate_target :: "idt_entry \<Rightarrow> u32" where
  "gate_target g = ucast (isr_low g) OR push_bit 16 (ucast (isr_high g))"

section \<open>Device interrupts\<close>

type_synonym port_write = "u16 \<times> u8"

definition irq_remap :: "port_write list" where
  "irq_remap = [(0x20, 0x11), (0xA0, 0x11), (0x21, 0x20), (0xA1, 0x28), (0x21, 0x04), (0xA1, 0x02), (0x21, 0x01), (0xA1, 0x01),
     (0x21, 0x0), (0xA1, 0x0)]"

definition irq_install :: "idt_entry list \<Rightarrow> u32 list \<Rightarrow> (port_write list \<times> idt_entry list) option" where
  "irq_install idt irq = do { idt \<leftarrow> set_gates idt 32 irq; Some (irq_remap, idt) }"

definition irq_install_handler :: "u32 list \<Rightarrow> nat \<Rightarrow> u32 \<Rightarrow> u32 list option" where
  "irq_install_handler irq_routines irq handler = aset irq_routines irq handler"

definition irq_uninstall_handler :: "u32 list \<Rightarrow> nat \<Rightarrow> u32 list option" where
  "irq_uninstall_handler irq_routines irq = aset irq_routines irq 0"

definition irq_send_eoi :: "int \<Rightarrow> port_write list" where
  "irq_send_eoi int_number = (if int_number \<ge> 8 then [(0xA0, 0x20)] else []) @ [(0x20, 0x20)]"

definition irq_handler :: "(u32 \<Rightarrow> 's \<Rightarrow> 's option) \<Rightarrow> u32 list \<Rightarrow> u32 \<Rightarrow> 's \<Rightarrow> (port_write list \<times> 's) option" where
  "irq_handler call irq_routines int_no st = do {
     handler \<leftarrow> aget irq_routines (unat int_no);
     st \<leftarrow> (if handler \<noteq> 0 then call handler st else Some st);
     Some ((if int_no \<ge> 8 then [(0xA0, 0x20)] else []) @ [(0x20, 0x20)], st) }"

section \<open>Faults\<close>

definition exception_messages :: "string list" where
  "exception_messages = [''Division By Zero'', ''Debug'', ''Non Maskable Interrupt'', ''Breakpoint'', ''Into Detected Overflow'',
     ''Out of Bounds'', ''Invalid Opcode'', ''No Coprocessor'', ''Double Fault'', ''Coprocessor Segment Overrun'', ''Bad TSS'',
     ''Segment Not Present'', ''Stack Fault'', ''General Protection Fault'', ''Page Fault'', ''Unknown Interrupt'',
     ''Coprocessor Fault'', ''Alignment Check'', ''Machine Check'']"

definition page_fault_exceptions :: "string list" where
  "page_fault_exceptions = [
     ''Supervisory process tried to read a non-present page entry'',
     ''Supervisory process tried to read a page and caused a protection fault'',
     ''Supervisory process tried to write to a non-present page entry'',
     ''Supervisory process tried to write a page and caused a protection fault'',
     ''User process tried to read a non-present page entry'',
     ''User process tried to read a page and caused a protection fault'',
     ''User process tried to write to a non-present page entry'',
     ''User process tried to write a page and caused a protection fault'']"

text \<open>What \<^verbatim>\<open>fault_handler\<close> prints, before the process that ran is terminated.\<close>

definition fault_text :: "buffer \<Rightarrow> u32 \<Rightarrow> u32 \<Rightarrow> u32 \<Rightarrow> u8 list option" where
  "fault_text buff int_no err_code eip_reg =
     (if int_no \<ge> 32 then Some []
      else do {
        name \<leftarrow> (if int_no > 18 then Some ''Reserved'' else aget exception_messages (unat int_no));
        t \<leftarrow> gfx_vprintf_text buff (map of_char ('' Exception. Error Code: 0b%b'' @ [CHR 0x0A] @ ''Code faulted at 0x%U'' @ [CHR 0x0A]) @ [0]) 0
          [AInt (sint err_code), AInt (sint eip_reg)];
        p \<leftarrow> (if int_no = 14 then aget page_fault_exceptions (unat err_code) else Some []);
        Some (map of_char name @ t @ map of_char p) })"

section \<open>What the processor finds\<close>

lemma table_masks:
  "(0xffff :: u64) = mask 16" "(0xff :: u64) = mask 8" "(0x0f :: u64) = mask 4" "(0x0f :: u8) = mask 4"
  "(0xf0 :: u8) = push_bit 4 (mask 4)" "(0xFFFFF :: u32) = mask 20" "(0xFFFF :: u32) = mask 16"
  by (simp_all add: mask_eq_exp_minus_1)

lemma low_nibble: "((x AND 0x0f) OR (y AND 0xf0)) AND 0x0f = (x AND 0x0f :: u8)"
  "((x AND 0x0f) OR (y AND 0xf0)) AND 0xf0 = (y AND 0xf0 :: u8)"
  unfolding bit.conj_disj_distrib2 by (simp_all add: and.assoc)

lemma descriptor_entry:
  fixes base limit :: u64 and access gr :: u8
  defines "g \<equiv> \<lparr>gdt_limit = ucast (limit AND 0xffff), baseLo = ucast (base AND 0xffff), baseMid = ucast (drop_bit 16 base AND 0xff),
        gdt_flags = access, grand = ucast (drop_bit 16 limit AND 0x0f) OR (gr AND 0xf0),
        baseHi = ucast (drop_bit 24 base AND 0xff)\<rparr>"
  shows "segment_base g = ucast base" and "segment_limit g = ucast limit AND 0xFFFFF" and "gdt_flags g = access"
    and "grand g AND 0xf0 = gr AND 0xf0"
proof -
  show "segment_base g = ucast base"
  proof (rule bit_word_eqI)
    fix n :: nat
    assume "n < LENGTH(32)"
    moreover have "24 \<le> n \<Longrightarrow> 24 + (n - 24) = n" "16 \<le> n \<Longrightarrow> 16 + (n - 16) = n" by simp_all
    ultimately show "bit (segment_base g) n = bit (ucast base :: u32) n"
      unfolding g_def segment_base_def table_masks by (cases "24 \<le> n"; cases "16 \<le> n") (auto simp: bit_simps)
  qed
  have n: "(ucast (drop_bit 16 limit AND 0x0f) :: u8) = ucast (drop_bit 16 limit) AND 0x0f"
    unfolding table_masks by (rule bit_word_eqI) (auto simp: bit_simps)
  show "segment_limit g = ucast limit AND 0xFFFFF"
    unfolding g_def segment_limit_def gdt_descriptor.simps n low_nibble(1)
    unfolding table_masks by (rule bit_word_eqI) (auto simp: bit_simps)
  show "grand g AND 0xf0 = gr AND 0xf0" unfolding g_def gdt_descriptor.simps n low_nibble(2) ..
  show "gdt_flags g = access" by (simp add: g_def)
qed

lemma gate_entry: "gate_target \<lparr>isr_low = ucast (isr AND 0xFFFF), kernel_cs = c, idt_attributes = f, isr_high = ucast (drop_bit 16 isr)\<rparr> = isr"
  unfolding gate_target_def table_masks by (rule bit_word_eqI) (auto simp: bit_simps)

text \<open>A gate for a stub, with the attributes.\<close>

definition gate_for :: "u32 \<Rightarrow> u8 \<Rightarrow> idt_entry \<Rightarrow> bool" where
  "gate_for stub attr g \<longleftrightarrow> gate_target g = stub \<and> kernel_cs g = 0x08 \<and> idt_attributes g = attr"

lemma set_gate:
  assumes "length idt = IDT_MAX_DESCRIPTORS"
  shows "\<exists>g. gate_for isr f g \<and> idt_set_gate idt v isr f = Some (idt[unat v := g])"
proof -
  have "unat v < 2 ^ LENGTH(8)" by (rule unsigned_less)
  then have "idt_set_gate idt v isr f = Some (idt[unat v := \<lparr>isr_low = ucast (isr AND 0xFFFF), kernel_cs = 0x08,
      idt_attributes = f, isr_high = ucast (drop_bit 16 isr)\<rparr>])"
    using assms by (simp add: idt_set_gate_def)
  moreover have "gate_for isr f \<lparr>isr_low = ucast (isr AND 0xFFFF), kernel_cs = 0x08, idt_attributes = f,
      isr_high = ucast (drop_bit 16 isr)\<rparr>"
    unfolding gate_for_def gate_entry by simp
  ultimately show ?thesis by blast
qed

lemma set_gates_spec:
  "v + length stubs \<le> IDT_MAX_DESCRIPTORS \<Longrightarrow> length idt = IDT_MAX_DESCRIPTORS \<Longrightarrow>
    \<exists>idt'. set_gates idt v stubs = Some idt' \<and> length idt' = IDT_MAX_DESCRIPTORS \<and>
      (\<forall>i < length stubs. gate_for (stubs ! i) 0x8E (idt' ! (v + i))) \<and>
      (\<forall>j. j < v \<or> v + length stubs \<le> j \<longrightarrow> idt' ! j = idt ! j)"
proof (induction stubs arbitrary: idt v)
  case (Cons s stubs)
  have v: "unat (of_nat v :: u8) = v" using Cons.prems by (simp add: unat_of_nat)
  obtain g where g: "gate_for s 0x8E g" "idt_set_gate idt (of_nat v) s 0x8E = Some (idt[v := g])"
    using set_gate [OF Cons.prems(2), where isr = s and f = "0x8E" and v = "of_nat v"] v by auto
  obtain idt' where i: "set_gates (idt[v := g]) (v + 1) stubs = Some idt'" "length idt' = IDT_MAX_DESCRIPTORS"
    "\<forall>i < length stubs. gate_for (stubs ! i) 0x8E (idt' ! (v + 1 + i))"
    "\<forall>j. j < v + 1 \<or> v + 1 + length stubs \<le> j \<longrightarrow> idt' ! j = idt[v := g] ! j"
    using Cons.IH [of "v + 1" "idt[v := g]"] Cons.prems by auto
  have "gate_for ((s # stubs) ! i) 0x8E (idt' ! (v + i))" if "i < length (s # stubs)" for i
  proof (cases i)
    case 0
    then show ?thesis using i(4) g(1) Cons.prems by simp
  next
    case (Suc k)
    then show ?thesis using i(3) that by simp
  qed
  moreover have "idt' ! j = idt ! j" if "j < v \<or> v + length (s # stubs) \<le> j" for j
    using i(4) that by auto
  ultimately show ?case using i(1,2) g(2) by simp
qed simp

lemma gates_installed:
  assumes "length isr = 32" and "length irq = 16"
  shows "\<exists>idt0 idt1 idt. idt_install isr = Some idt0 \<and> irq_install idt0 irq = Some (irq_remap, idt1) \<and>
    install_syscalls idt1 stub = Some idt \<and> length idt = IDT_MAX_DESCRIPTORS \<and>
    (\<forall>v < 32. gate_for (isr ! v) 0x8E (idt ! v)) \<and> (\<forall>v < 16. gate_for (irq ! v) 0x8E (idt ! (32 + v))) \<and>
    gate_for stub 0xEE (idt ! 128) \<and>
    (\<forall>v < IDT_MAX_DESCRIPTORS. 48 \<le> v \<longrightarrow> v \<noteq> 128 \<longrightarrow> idt_attributes (idt ! v) = 0)"
proof -
  let ?z = "replicate IDT_MAX_DESCRIPTORS \<lparr>isr_low = 0, kernel_cs = 0, idt_attributes = 0, isr_high = 0\<rparr>"
  obtain idt0 where 0: "idt_install isr = Some idt0" "length idt0 = IDT_MAX_DESCRIPTORS"
    "\<forall>i < 32. gate_for (isr ! i) 0x8E (idt0 ! i)" "\<forall>j. 32 \<le> j \<longrightarrow> idt0 ! j = ?z ! j"
    using set_gates_spec [of 0 isr ?z] assms(1) by (auto simp: idt_install_def isrs_install_def)
  obtain idt1 where 1: "irq_install idt0 irq = Some (irq_remap, idt1)" "length idt1 = IDT_MAX_DESCRIPTORS"
    "\<forall>i < 16. gate_for (irq ! i) 0x8E (idt1 ! (32 + i))" "\<forall>j. j < 32 \<or> 48 \<le> j \<longrightarrow> idt1 ! j = idt0 ! j"
    using set_gates_spec [of 32 irq idt0] assms(2) 0(2) by (auto simp: irq_install_def)
  obtain g where g: "gate_for stub 0xEE g" "install_syscalls idt1 stub = Some (idt1[128 := g])"
    using set_gate [OF 1(2), where isr = stub and f = "0xEE" and v = "0x80"] by (auto simp: install_syscalls_def)
  have "idt_attributes (idt1[128 := g] ! v) = 0" if "v < IDT_MAX_DESCRIPTORS" "48 \<le> v" "v \<noteq> 128" for v
    using that 0(4) 1(4) by simp
  moreover have "gate_for (isr ! v) 0x8E (idt1[128 := g] ! v)" if "v < 32" for v using that 0(3) 1(4) by simp
  moreover have "gate_for (irq ! v) 0x8E (idt1[128 := g] ! (32 + v))" if "v < 16" for v using that 1(3) by simp
  moreover have "gate_for stub 0xEE (idt1[128 := g] ! 128)" using g(1) 1(2) by simp
  ultimately show ?thesis using 0(1) 1(1,2) g(2) by (metis length_list_update)
qed

text \<open>
  The index 6 passes the test although the table has six descriptors; the limit of the task state
  is its end address instead of its size.
\<close>

lemma descriptor_behind_table: "length gdt = 6 \<Longrightarrow> gdt_set_descriptor gdt 6 base limit access gr = None"
  by (simp add: gdt_set_descriptor_def aset_def)

end
