(* ===== verification/Clock.thy ===== *)
theory Clock
  imports Cstr
begin

text \<open>
  The clock: reading the time from the CMOS chip (\<^verbatim>\<open>drivers/cmos.c\<close>) and counting it on with the
  timer's ticks (\<^verbatim>\<open>drivers/timer.c\<close>).  The chip is the register that port 0x70 selects and the
  registers that port 0x71 reads; its documented behaviour is that the top bit of the selected
  register disables interrupts and does not select.
\<close>

section \<open>The CMOS chip\<close>

record cmos =
  cmos_select :: u8
  cmos_regs :: "u8 \<Rightarrow> u8"

definition cmos_inb71 :: "cmos \<Rightarrow> u8" where
  "cmos_inb71 c = cmos_regs c (cmos_select c AND 0x7F)"

abbreviation CMOS_REG_SECONDS :: u8 where "CMOS_REG_SECONDS \<equiv> 0"
abbreviation CMOS_REG_MINUTES :: u8 where "CMOS_REG_MINUTES \<equiv> 2"
abbreviation CMOS_REG_HOURS :: u8 where "CMOS_REG_HOURS \<equiv> 4"
abbreviation CMOS_REG_STAT_B :: u8 where "CMOS_REG_STAT_B \<equiv> 0x0B"

definition cmos_NMI_enable :: "cmos \<Rightarrow> cmos" where
  "cmos_NMI_enable c = c\<lparr>cmos_select := cmos_select c AND 0x7F\<rparr>"

definition cmos_NMI_disable :: "cmos \<Rightarrow> cmos" where
  "cmos_NMI_disable c = c\<lparr>cmos_select := cmos_select c OR 0x80\<rparr>"

definition cmos_NMI_get :: "cmos \<Rightarrow> u8" where
  "cmos_NMI_get c = cmos_select c AND 0x80"

definition cmos_read_register :: "u8 \<Rightarrow> cmos \<Rightarrow> u8 \<times> cmos" where
  "cmos_read_register reg c = (let c = c\<lparr>cmos_select := cmos_NMI_get c OR reg\<rparr> in (cmos_inb71 c, c))"

datatype rtc_time_fmt = RTC_24HOUR | RTC_12HOUR
datatype rtc_mode = RTC_BCD_MODE | RTC_BIN_MODE

definition cmos_rtc_get_fmt :: "cmos \<Rightarrow> rtc_time_fmt \<times> cmos" where
  "cmos_rtc_get_fmt c = (let (b_reg, c) = cmos_read_register CMOS_REG_STAT_B c
     in (if flag b_reg 2 then RTC_24HOUR else RTC_12HOUR, c))"

definition cmos_rtc_get_mode :: "cmos \<Rightarrow> rtc_mode \<times> cmos" where
  "cmos_rtc_get_mode c = (let (b_reg, c) = cmos_read_register CMOS_REG_STAT_B c
     in (if flag b_reg 4 then RTC_BIN_MODE else RTC_BCD_MODE, c))"

definition bcd_value :: "u8 \<Rightarrow> u8" where
  "bcd_value bcd = drop_bit 1 (bcd AND 0xF0) + drop_bit 3 (bcd AND 0xF0) + (bcd AND 0xf)"

definition read_time_register :: "u8 \<Rightarrow> cmos \<Rightarrow> u8 \<times> cmos" where
  "read_time_register reg c = (
     let (m, c) = cmos_rtc_get_mode c;
         (v, c) = cmos_read_register reg c
     in (if m = RTC_BIN_MODE then v else bcd_value v, c))"

definition cmos_rtc_get_seconds :: "cmos \<Rightarrow> u8 \<times> cmos" where
  "cmos_rtc_get_seconds = read_time_register CMOS_REG_SECONDS"

definition cmos_rtc_get_minutes :: "cmos \<Rightarrow> u8 \<times> cmos" where
  "cmos_rtc_get_minutes = read_time_register CMOS_REG_MINUTES"

definition cmos_rtc_get_hour :: "cmos \<Rightarrow> u8 \<times> cmos" where
  "cmos_rtc_get_hour c = (
     let (hour, c) = cmos_read_register CMOS_REG_HOURS c;
         (fmt, c) = cmos_rtc_get_fmt c;
         hour = (if fmt = RTC_12HOUR then hour AND 0x7F else hour);
         (m, c) = cmos_rtc_get_mode c
     in (if m = RTC_BIN_MODE then hour else bcd_value hour, c))"

section \<open>The timer\<close>

record clock =
  timer_ticks :: u32
  second_ticks :: u32
  current_sec :: u32
  current_min :: u32
  current_hour :: u32

abbreviation PHASE :: int where "PHASE \<equiv> 100"

text \<open>\<^verbatim>\<open>update_time\<close>: the fields, and whether the time is painted.\<close>

definition update_time :: "clock \<Rightarrow> bool \<times> clock" where
  "update_time k =
     (if second_ticks k mod 100 = 0 then (True,
        let k = k\<lparr>second_ticks := 0, current_sec := current_sec k + 1\<rparr>
        in if current_sec k = 60 then
             (let k = k\<lparr>current_sec := 0, current_min := current_min k + 1\<rparr>
              in if current_min k = 60 then k\<lparr>current_min := 0, current_hour := (current_hour k + 1) mod 24\<rparr> else k)
           else k)
      else (False, k))"

definition timer_handler :: "clock \<Rightarrow> bool \<times> clock" where
  "timer_handler k = update_time (k\<lparr>timer_ticks := timer_ticks k + 1, second_ticks := second_ticks k + 1\<rparr>)"

definition get_ticks :: "clock \<Rightarrow> u32" where
  "get_ticks k = timer_ticks k"

definition set_time :: "u32 \<Rightarrow> u32 \<Rightarrow> clock \<Rightarrow> clock" where
  "set_time hour minute k = k\<lparr>current_hour := hour mod 24, current_min := minute mod 60, current_sec := 0, second_ticks := 0\<rparr>"

text \<open>The divisor of the timer chip, its two bytes sent one after the other.\<close>

definition timer_phase :: "int \<Rightarrow> (u16 \<times> u8) list option" where
  "timer_phase hz = do {
     guard (hz \<noteq> 0);
     let divisor = (word_of_int (cdiv 1193180 hz) :: u32);
     Some [(0x43, 0x36), (0x40, ucast (divisor AND 0xFF)), (0x40, ucast (drop_bit 8 divisor AND 0xFF))] }"

definition timer_install :: "cmos \<Rightarrow> clock \<times> cmos" where
  "timer_install c = (
     let (s, c) = cmos_rtc_get_seconds c;
         (m, c) = cmos_rtc_get_minutes c;
         (h, c) = cmos_rtc_get_hour c
     in (\<lparr>timer_ticks = 0, second_ticks = 0, current_sec = ucast s, current_min = ucast m, current_hour = ucast h\<rparr>, c))"

text \<open>The text that is painted, character by character.\<close>

definition two_digits :: "buffer \<Rightarrow> u32 \<Rightarrow> u8 list option" where
  "two_digits b n = do {
     b \<leftarrow> int_to_str_padding (sint n) b 10 2;
     k \<leftarrow> strlen b;
     Some (take k b) }"

definition time_text :: "buffer \<Rightarrow> buffer \<Rightarrow> buffer \<Rightarrow> clock \<Rightarrow> u8 list option" where
  "time_text hb mb sb k = do {
     h \<leftarrow> two_digits hb (current_hour k);
     m \<leftarrow> two_digits mb (current_min k);
     s \<leftarrow> two_digits sb (current_sec k);
     guard (length h = 2 \<and> length m = 2 \<and> length s = 2);
     Some (h @ [58] @ m @ [58] @ s) }"

section \<open>The clock goes right\<close>

definition seconds_of_day :: "clock \<Rightarrow> nat" where
  "seconds_of_day k = unat (current_hour k) * 3600 + unat (current_min k) * 60 + unat (current_sec k)"

definition clock_ok :: "clock \<Rightarrow> bool" where
  "clock_ok k \<longleftrightarrow> current_hour k < 24 \<and> current_min k < 60 \<and> current_sec k < 60 \<and> second_ticks k < 100"

fun clock_after :: "nat \<Rightarrow> clock \<Rightarrow> clock" where
  "clock_after 0 k = k"
| "clock_after (Suc n) k = clock_after n (snd (timer_handler k))"

lemma unat_below: "x < of_nat n \<Longrightarrow> n < 2 ^ 32 \<Longrightarrow> unat (x :: u32) < n"
  by (simp add: word_less_nat_alt unat_of_nat)

lemma unat_succ: "unat x < 2 ^ 32 - 1 \<Longrightarrow> unat (x + 1 :: u32) = unat x + 1"
  by (simp add: unat_word_ariths)

text \<open>One tick, on natural numbers: the fields of the clock as they are counted.\<close>

definition clock_nat :: "clock \<Rightarrow> nat \<times> nat \<times> nat \<times> nat" where
  "clock_nat k = (unat (current_hour k), unat (current_min k), unat (current_sec k), unat (second_ticks k))"

fun next_tick :: "nat \<times> nat \<times> nat \<times> nat \<Rightarrow> nat \<times> nat \<times> nat \<times> nat" where
  "next_tick (h, m, s, t) =
     (if t + 1 < 100 then (h, m, s, t + 1)
      else if s + 1 < 60 then (h, m, s + 1, 0)
      else if m + 1 < 60 then (h, m + 1, 0, 0)
      else ((h + 1) mod 24, 0, 0, 0))"

lemma clock_ok_nat:
  "clock_ok k \<longleftrightarrow> unat (current_hour k) < 24 \<and> unat (current_min k) < 60 \<and> unat (current_sec k) < 60 \<and> unat (second_ticks k) < 100"
  by (simp add: clock_ok_def word_less_nat_alt)

lemma tick_nat:
  assumes "clock_ok k"
  shows "clock_nat (snd (timer_handler k)) = next_tick (clock_nat k)"
proof -
  have b: "unat (current_hour k) < 24" "unat (current_min k) < 60" "unat (current_sec k) < 60" "unat (second_ticks k) < 100"
    using assms by (simp_all add: clock_ok_nat)
  have u: "unat (second_ticks k + 1) = unat (second_ticks k) + 1" "unat (current_sec k + 1) = unat (current_sec k) + 1"
    "unat (current_min k + 1) = unat (current_min k) + 1" "unat (current_hour k + 1) = unat (current_hour k) + 1"
    using b by (simp_all add: unat_succ)
  have t: "(second_ticks k + 1) mod 100 = 0 \<longleftrightarrow> unat (second_ticks k) = 99"
    using b(4) u(1) by (simp add: word_unat_eq_iff unat_mod mod_Suc)
  have s: "current_sec k + 1 = 60 \<longleftrightarrow> unat (current_sec k) = 59" and m: "current_min k + 1 = 60 \<longleftrightarrow> unat (current_min k) = 59"
    using u by (simp_all add: word_unat_eq_iff)
  have h: "unat ((current_hour k + 1) mod 24) = (unat (current_hour k) + 1) mod 24" using u(4) by (simp add: unat_mod)
  show ?thesis
    using b u t s m h by (auto simp: timer_handler_def update_time_def Let_def clock_nat_def)
qed

lemma tick_ok: "clock_ok k \<Longrightarrow> clock_ok (snd (timer_handler k))"
  using tick_nat [of k] by (auto simp: clock_ok_nat clock_nat_def split: if_splits)

definition tick_count :: "nat \<times> nat \<times> nat \<times> nat \<Rightarrow> nat" where
  "tick_count x = (case x of (h, m, s, t) \<Rightarrow> ((h * 60 + m) * 60 + s) * 100 + t)"

lemma next_tick_count:
  assumes "h < 24" "m < 60" "s < 60" "t < 100"
  shows "tick_count (next_tick (h, m, s, t)) = (tick_count (h, m, s, t) + 1) mod 8640000"
proof -
  consider "t + 1 < 100" | "t = 99" "s + 1 < 60" | "t = 99" "s = 59" "m + 1 < 60" | "t = 99" "s = 59" "m = 59" "h < 23"
    | "t = 99" "s = 59" "m = 59" "h = 23" using assms by linarith
  then show ?thesis using assms by cases (simp_all add: tick_count_def)
qed

lemma ticks_count:
  "clock_ok k \<Longrightarrow> clock_ok (clock_after n k) \<and> tick_count (clock_nat (clock_after n k)) = (tick_count (clock_nat k) + n) mod 8640000"
proof (induction n arbitrary: k)
  case 0
  then show ?case by (simp add: clock_ok_nat tick_count_def clock_nat_def)
next
  case (Suc n)
  let ?k = "snd (timer_handler k)"
  have b: "unat (current_hour k) < 24" "unat (current_min k) < 60" "unat (current_sec k) < 60" "unat (second_ticks k) < 100"
    using Suc.prems by (simp_all add: clock_ok_nat)
  have "tick_count (clock_nat ?k) = (tick_count (clock_nat k) + 1) mod 8640000"
    unfolding tick_nat [OF Suc.prems] unfolding clock_nat_def by (rule next_tick_count [OF b])
  then show ?case using Suc.IH [OF tick_ok [OF Suc.prems]] by (simp add: mod_simps)
qed

lemma seconds_count: "clock_ok k \<Longrightarrow> seconds_of_day k = tick_count (clock_nat k) div 100"
proof -
  assume "clock_ok k"
  then have t: "unat (second_ticks k) < 100" by (simp add: clock_ok_nat)
  have "(x * 100 + unat (second_ticks k)) div 100 = x" for x using t by simp
  then show ?thesis unfolding tick_count_def clock_nat_def prod.case seconds_of_day_def by (simp only: add_mult_distrib mult.assoc) simp
qed

lemma ticks_ticks: "timer_ticks (clock_after n k) = timer_ticks k + of_nat n"
proof (induction n arbitrary: k)
  case (Suc n)
  have "timer_ticks (snd (timer_handler k)) = timer_ticks k + 1"
    by (simp add: timer_handler_def update_time_def Let_def)
  then show ?case using Suc.IH [of "snd (timer_handler k)"] by simp
qed simp

text \<open>A byte in binary-coded decimal.\<close>

lemma bcd_value_nat: "unat (bcd_value b) = 10 * (unat b div 16) + unat b mod 16"
proof -
  have m: "(0xF0 :: u8) = push_bit 4 (mask 4)" "(0xF :: u8) = mask 4" by (simp_all add: mask_eq_exp_minus_1)
  have g: "drop_bit j (b AND 0xF0) = push_bit k (drop_bit 4 b)" if "k + j = 4" for j k
  proof (rule bit_word_eqI)
    fix n :: nat
    assume n: "n < LENGTH(8)"
    have "k \<le> n \<Longrightarrow> 4 + (n - k) = j + n" using that by simp
    then show "bit (drop_bit j (b AND 0xF0)) n = bit (push_bit k (drop_bit 4 b)) n"
      unfolding m using n that by (auto simp: bit_simps dest: bit_imp_le_length)
  qed
  have 1: "drop_bit 1 (b AND 0xF0) = push_bit 3 (drop_bit 4 b)" "drop_bit 3 (b AND 0xF0) = push_bit 1 (drop_bit 4 b)"
    "b AND 0xF = take_bit 4 b"
    using g [of 3 1] g [of 1 3] unfolding m by (simp_all only: take_bit_eq_mask)
  have "unat b < 256" using unsigned_less [of b] by simp
  then have d: "unat b div 16 < 16" by simp
  have "unat (bcd_value b) = unat (push_bit 3 (drop_bit 4 b) + push_bit 1 (drop_bit 4 b) + take_bit 4 b)"
    unfolding bcd_value_def 1 ..
  also have "\<dots> = (8 * (unat b div 16) + 2 * (unat b div 16) + unat b mod 16) mod 256"
    by (simp add: unat_word_ariths unsigned_drop_bit_eq drop_bit_eq_div unsigned_take_bit_eq take_bit_eq_mod
        push_bit_eq_mult mod_simps)
  also have "\<dots> = 10 * (unat b div 16) + unat b mod 16" using d by simp
  finally show ?thesis .
qed

definition bcd :: "nat \<Rightarrow> u8" where
  "bcd n = of_nat (16 * (n div 10) + n mod 10)"

lemma bcd_inverse: "n < 100 \<Longrightarrow> unat (bcd_value (bcd n)) = n"
proof -
  assume n: "n < 100"
  then have "16 * (n div 10) + n mod 10 < 256" by simp
  then have "unat (bcd n) = 16 * (n div 10) + n mod 10" unfolding bcd_def unat_of_nat by simp
  then show ?thesis unfolding bcd_value_nat by simp
qed

lemma select_reads: "reg < 0x80 \<Longrightarrow> (cmos_NMI_get c OR reg) AND 0x7F = reg"
proof -
  assume "reg < 0x80"
  then have "unat reg < 2 ^ 7" by (simp add: word_less_nat_alt)
  then have t: "take_bit 7 reg = reg"
    by (intro word_unat_eq_iff [THEN iffD2]) (simp add: unsigned_take_bit_eq take_bit_nat_eq_self)
  have "mask 7 = (0x7F :: u8)" by (simp add: mask_eq_exp_minus_1)
  then have "reg AND 0x7F = reg" using t by (simp add: take_bit_eq_mask)
  moreover have "(cmos_NMI_get c OR reg) AND 0x7F = (cmos_NMI_get c AND 0x7F) OR (reg AND 0x7F)"
    by (rule bit.conj_disj_distrib2)
  moreover have "cmos_NMI_get c AND 0x7F = 0" by (simp add: cmos_NMI_get_def and.assoc)
  ultimately show ?thesis by simp
qed

lemma read_register:
  "reg < 0x80 \<Longrightarrow> cmos_read_register reg c = (cmos_regs c reg, c\<lparr>cmos_select := cmos_NMI_get c OR reg\<rparr>)"
  by (simp add: cmos_read_register_def cmos_inb71_def select_reads)

text \<open>The chip keeps the time in binary-coded decimal and counts 24 hours.\<close>

definition cmos_shows :: "cmos \<Rightarrow> nat \<Rightarrow> nat \<Rightarrow> nat \<Rightarrow> bool" where
  "cmos_shows c h m s \<longleftrightarrow> h < 24 \<and> m < 60 \<and> s < 60 \<and> flag (cmos_regs c 0x0B) 2 \<and> \<not> flag (cmos_regs c 0x0B) 4 \<and>
     cmos_regs c 0 = bcd s \<and> cmos_regs c 2 = bcd m \<and> cmos_regs c 4 = bcd h"

lemma install_reads:
  assumes "cmos_shows c h m s"
  shows "clock_nat (fst (timer_install c)) = (h, m, s, 0) \<and> timer_ticks (fst (timer_install c)) = 0"
  using assms bcd_inverse [of h] bcd_inverse [of m] bcd_inverse [of s]
  by (simp add: cmos_shows_def timer_install_def cmos_rtc_get_seconds_def cmos_rtc_get_minutes_def cmos_rtc_get_hour_def
      read_time_register_def cmos_rtc_get_mode_def cmos_rtc_get_fmt_def read_register clock_nat_def unat_ucast_u8)

lemma clock_from_cmos:
  assumes "cmos_shows c h m s"
  shows "seconds_of_day (clock_after n (fst (timer_install c))) = (h * 3600 + m * 60 + s + n div 100) mod 86400 \<and>
    clock_ok (clock_after n (fst (timer_install c))) \<and> get_ticks (clock_after n (fst (timer_install c))) = of_nat n"
proof -
  let ?k = "fst (timer_install c)"
  have k: "clock_nat ?k = (h, m, s, 0)" "timer_ticks ?k = 0" using install_reads [OF assms] by simp_all
  have ok: "clock_ok ?k" using k(1) assms by (simp add: clock_ok_nat clock_nat_def cmos_shows_def)
  have c: "clock_ok (clock_after n ?k)" "tick_count (clock_nat (clock_after n ?k)) = (tick_count (h, m, s, 0) + n) mod 8640000"
    using ticks_count [OF ok, of n] k(1) by simp_all
  have "seconds_of_day (clock_after n ?k) = (tick_count (h, m, s, 0) + n) mod (100 * 86400) div 100"
    using seconds_count [OF c(1)] c(2) by simp
  also have "\<dots> = ((tick_count (h, m, s, 0) + n) div 100) mod 86400"
    by (simp only: mod_mult2_eq)
  also have "tick_count (h, m, s, 0) + n = n + 100 * (h * 3600 + m * 60 + s)" by (simp add: tick_count_def)
  also have "(n + 100 * (h * 3600 + m * 60 + s)) div 100 = h * 3600 + m * 60 + s + n div 100"
    by (subst div_mult_self2) simp_all
  finally show ?thesis using c(1) ticks_ticks [of n ?k] k(2) by (simp add: get_ticks_def)
qed

text \<open>In the format of twelve hours the bit for the afternoon is cut off: it is eleven in the evening.\<close>

lemma afternoon_lost:
  "fst (cmos_rtc_get_hour \<lparr>cmos_select = 0, cmos_regs = (\<lambda>r. 0)(4 := 0x91)\<rparr>) = 11"
  by (simp add: cmos_rtc_get_hour_def cmos_rtc_get_mode_def cmos_rtc_get_fmt_def read_register flag_def bcd_value_def)

section \<open>Properties\<close>

text \<open>
  C40: started from a chip that shows a valid time in binary-coded decimal with 24 hours, the clock
  shows after any number of timer ticks the time that has passed since, in seconds of the day, and
  its fields stay in their ranges; the tick counter is the number of ticks.
\<close>

theorem clock_runs:
  assumes "cmos_shows c h m s"
  shows "seconds_of_day (clock_after n (fst (timer_install c))) = (h * 3600 + m * 60 + s + n div 100) mod 86400 \<and>
    clock_ok (clock_after n (fst (timer_install c))) \<and> get_ticks (clock_after n (fst (timer_install c))) = of_nat n"
  by (rule clock_from_cmos [OF assms])

theorem clock_runs_witness:
  "seconds_of_day (clock_after 250 (fst (timer_install \<lparr>cmos_select = 0,
    cmos_regs = ((\<lambda>r. 2)(0 := 0x58, 2 := 0x59, 4 := 0x23))\<rparr>))) = 0"
proof -
  let ?c = "\<lparr>cmos_select = 0, cmos_regs = ((\<lambda>r. 2)(0 := 0x58, 2 := 0x59, 4 := 0x23))\<rparr>"
  have "cmos_shows ?c 23 59 58" by (simp add: cmos_shows_def flag_def bcd_def)
  from clock_runs [OF this, of 250] show ?thesis by simp
qed

end
