(* ===== verification/Spec2Isabelle.thy ===== *)
theory Spec2Isabelle
  imports Vmm Kheap Uheap Cstr Vfs Break Fatdirs Mouse Textwin Tmpfiles Shellcmds Editor Tables Clock
begin

text \<open>
  Verification library for a small graphical operating system for 32-bit x86, written in C.

  The program.  The boot loader starts the kernel (\<^verbatim>\<open>kernel/\<close>, \<^verbatim>\<open>drivers/\<close>, \<^verbatim>\<open>utils/\<close>) with paging on.  The
  kernel manages frames, address spaces and heaps; schedules threads on timer ticks; keeps processes
  with their file descriptors and their break; serves files through a table of volumes from a FAT12
  floppy or a file system in memory; and runs a window system whose own thread serves a ring of
  operations, while mouse and keyboard interrupts put events into the queues of the windows.  A
  shell runs in a window of the kernel.  User programs (\<^verbatim>\<open>root/\<close>) are linked with a small C library
  and call the kernel by a software interrupt; the text editor is the largest of them.

  How the code is rendered.  A \<^verbatim>\<open>uint32_t\<close>, a pointer or a flag word is a word of its width, an \<^verbatim>\<open>int\<close>
  an unbounded integer, converted where the code converts, with the quotients and remainders of C
  (\<^verbatim>\<open>cdiv\<close>, \<^verbatim>\<open>cmod\<close>).  A struct is a record, a list of structs linked by pointers the list of its
  elements in order, a raw buffer a list of bytes or a function from addresses.  Every function
  that can fault is partial: \<open>None\<close> is a null or dangling pointer that is used, an access outside an
  array, a string without end, or a wait that can not end.  The code's own errors are values of the
  results.  State is passed on explicitly.

  The theories and the files they model.

  \<^item> \<^verbatim>\<open>Prelude\<close>: words, partial functions, arrays, flags, fresh identifiers, and the collection
    \<^verbatim>\<open>c_simps\<close> that the proofs about partial functions share.
  \<^item> Memory.  \<^verbatim>\<open>Bitmap\<close> and \<^verbatim>\<open>Runs\<close>: the block bitmap of the allocators.  \<^verbatim>\<open>Allocator\<close>: the
    contract of an allocator of runs, with its clients; \<^verbatim>\<open>Tagged\<close> extends it to heaps with a
    header in front of each run.  \<^verbatim>\<open>Pmm\<close> (\<^verbatim>\<open>kernel/pmm.c\<close>), \<^verbatim>\<open>Kheap\<close> (\<^verbatim>\<open>kernel/heap.c\<close>) and \<^verbatim>\<open>Uheap\<close>
    (\<^verbatim>\<open>root/cstdlib/heap.c\<close>) interpret it.  \<^verbatim>\<open>Vmm\<close> (\<^verbatim>\<open>kernel/vmm.c pte.c pde.c\<close>): page tables, with the
    translation of addresses as abstract state.  \<^verbatim>\<open>Memory\<close> (\<^verbatim>\<open>utils/memory.c\<close>).  \<^verbatim>\<open>Spaces\<close> and
    \<^verbatim>\<open>Break\<close>: the address space of a process.
  \<^item> Text.  \<^verbatim>\<open>Cstr\<close> (\<^verbatim>\<open>utils/strings.c utils/math.c root/cstdlib/string.c\<close>) and \<^verbatim>\<open>Format\<close> (the four
    printing functions).
  \<^item> Processes.  \<^verbatim>\<open>Registry\<close>: the contract of a table with identifiers.  \<^verbatim>\<open>Tasks\<close>: the shared state.
    \<^verbatim>\<open>Sched\<close> (\<^verbatim>\<open>kernel/scheduler.c\<close>) and \<^verbatim>\<open>Proc\<close> (\<^verbatim>\<open>kernel/process.c\<close>).
  \<^item> Files.  \<^verbatim>\<open>Vfs\<close> (\<^verbatim>\<open>kernel/vfs.c\<close>); \<^verbatim>\<open>Fat12\<close> (\<^verbatim>\<open>drivers/fat12fsys.c\<close>) with \<^verbatim>\<open>Fattable Fatnames
    Fatfiles Fatdirs\<close> for its proofs; \<^verbatim>\<open>Tmpfs\<close> (\<^verbatim>\<open>drivers/tmpfsys.c\<close>) with \<^verbatim>\<open>Tmpfiles\<close>.
  \<^item> Windows.  \<^verbatim>\<open>Fifo\<close>: the contract of a bounded queue.  \<^verbatim>\<open>Events\<close>, \<^verbatim>\<open>Painting\<close>, \<^verbatim>\<open>Winops\<close> and \<^verbatim>\<open>Textwin\<close>
    (\<^verbatim>\<open>kernel/window_sys.c\<close>): the queues and the list, the picture, the operations of the thread,
    text.  \<^verbatim>\<open>Graphics\<close> (\<^verbatim>\<open>utils/graphics.c\<close>) with the contract of a canvas of pixels.  \<^verbatim>\<open>Console\<close>
    (\<^verbatim>\<open>drivers/screen.c\<close>), \<^verbatim>\<open>Mouse\<close> (\<^verbatim>\<open>drivers/mouse.c\<close>), \<^verbatim>\<open>Keyboard\<close> (\<^verbatim>\<open>drivers/keyboard.c\<close>).
  \<^item> The machine.  \<^verbatim>\<open>Tables\<close> (\<^verbatim>\<open>kernel/gdt.c tss.c idt.c isrs.c irq.c\<close>): the tables of the processor.
    \<^verbatim>\<open>Clock\<close> (\<^verbatim>\<open>drivers/cmos.c timer.c\<close>).
  \<^item> Programs.  \<^verbatim>\<open>Shell\<close> and \<^verbatim>\<open>Shellcmds\<close> (\<^verbatim>\<open>kernel/shell.c\<close>); \<^verbatim>\<open>Tedit\<close> and \<^verbatim>\<open>Editor\<close>
    (\<^verbatim>\<open>root/bin/tedit.c\<close>).

  What the lemmas show.  Allocators hand out disjoint runs and lose nothing, over any sequence of
  client calls.  Mapping a page changes the translation of that page only, and a process sees the
  kernel's translations and its own break.  Every runnable thread gets to run.  The file allocation
  table keeps its other entries when one is written, files are their chains of clusters, and what is
  written is read back, on the floppy and in memory.  Windows keep a well-formed list; after a
  section is displayed every pixel shows the topmost window; the cursor leaves no trace and stays
  on the screen; printing stays in its window.  Keys are delivered to the working window's queue in
  order, and typing in the editor saves what was typed.  Where the code fails, a lemma next to the
  model gives the failing run: such a lemma is named in the findings of the manifest.

  Interfaces.  \<^verbatim>\<open>block_allocator\<close>, \<^verbatim>\<open>tagged_heap\<close>, \<^verbatim>\<open>registry\<close>, \<^verbatim>\<open>bounded_fifo\<close> and \<^verbatim>\<open>canvas\<close> are locales; each
  is interpreted on the models of the code that provides it, and the client lemmas are proved once.

  Bounds and fuel.  Loops are structural, recursive with a measure, or partial functions whose
  result is \<open>None\<close> when they do not end (the search of the scheduler, \<^verbatim>\<open>dispatch\<close>, is proved to end
  exactly when a thread is runnable).  Fuel is used where functions call each other: the release of
  a file in memory (30000, more than 256 blocks with 91 records can nest), waiting for a key (11, one
  more than a queue holds), a tab that prints four blanks (1, a blank prints no tab), and commands
  of the shell (one more than the length of the line, which \<^verbatim>\<open>command_depth\<close> shows to be enough).
  Copies of strings carry one more than the number of addresses.

  What is not modelled, and why.  The assembly of the boot loader and of the interrupt entry, and
  the drivers that only talk to ports of a controller (floppy, DMA, network card): their meaning
  lies in the hardware.  The floppy's sectors are a parameter of the FAT12 driver.  Functions that
  only draw or report (the pictures of BMP files, statistics, the editor's display).  Floating
  point (\<^verbatim>\<open>utils/math.c\<close>).  The demonstration programs of \<^verbatim>\<open>root/script\<close>.  Interrupts are steps between
  operations, not within them.
\<close>

end
